(* ===== verification/Kernel_Prelude.thy ===== *)
theory Kernel_Prelude
  imports Main "HOL-Library.Word"
begin

text \<open>
  Shared vocabulary of the development: the machine integer types of \<^verbatim>\<open>lib/stdint.h\<close>, the
  ways an operation of the kernel can fail to return (\<open>kerror\<close>), the result type that
  carries them, and the generic lemmas on results, lists and words that the component
  theories use.

  An \<^verbatim>\<open>ASSERT\<close> or \<^verbatim>\<open>PANIC\<close> of the source ends in \<^verbatim>\<open>panic_spin\<close>, which prints and spins with
  interrupts off; it never returns, so it is an \<open>Inl\<close> of the result type, as is an access
  outside a buffer. A failure that the source reports to its caller (-1, NULL, false) stays an
  ordinary return value.
\<close>

unbundle bit_operations_syntax

named_theorems kdefs \<open>definitions of the model that component proofs unfold together\<close>

type_synonym u8 = "8 word"
type_synonym u16 = "16 word"
type_synonym u32 = "32 word"

datatype kerror =
    AssertFail string   \<comment> \<open>\<^verbatim>\<open>ASSERT\<close>/\<^verbatim>\<open>assert\<close> of \<^verbatim>\<open>kernel/debug.h\<close> and \<^verbatim>\<open>lib/user/assert.h\<close>\<close>
  | KPanic string       \<comment> \<open>\<^verbatim>\<open>PANIC\<close>\<close>
  | OutOfBounds         \<comment> \<open>an access beyond the memory the pointer points into\<close>
  | NullDeref           \<comment> \<open>an access through a NULL pointer\<close>
  | PageFault           \<comment> \<open>an access to an address whose page table is not present\<close>
  | Diverges            \<comment> \<open>a loop that never ends\<close>

type_synonym 'a result = "kerror + 'a"

definition bindR :: "'a result \<Rightarrow> ('a \<Rightarrow> 'b result) \<Rightarrow> 'b result" where
  "bindR m f = (case m of Inl e \<Rightarrow> Inl e | Inr x \<Rightarrow> f x)"

definition ASSERT :: "bool \<Rightarrow> string \<Rightarrow> 'a result \<Rightarrow> 'a result" where
  "ASSERT c msg k = (if c then k else Inl (AssertFail msg))"

definition mapR :: "('a \<Rightarrow> 'b) \<Rightarrow> 'a result \<Rightarrow> 'b result" where
  "mapR f m = bindR m (\<lambda>x. Inr (f x))"

section \<open>Results\<close>

lemma bindR_simps [simp]:
  "bindR (Inl e) f = Inl e"
  "bindR (Inr x) f = f x"
  by (simp_all add: bindR_def)

lemma bindR_cong [fundef_cong]:
  "m = m' \<Longrightarrow> (\<And>x. m' = Inr x \<Longrightarrow> f x = g x) \<Longrightarrow> bindR m f = bindR m' g"
  by (cases m') (simp_all add: bindR_def)

lemma ASSERT_cong [fundef_cong]:
  "c = c' \<Longrightarrow> (c' \<Longrightarrow> k = k') \<Longrightarrow> ASSERT c msg k = ASSERT c' msg k'"
  by (simp add: ASSERT_def)

lemma bindR_Inr_iff: "bindR m f = Inr y \<longleftrightarrow> (\<exists>x. m = Inr x \<and> f x = Inr y)"
  by (cases m) simp_all

lemma bindR_Inl_iff: "bindR m f = Inl e \<longleftrightarrow> m = Inl e \<or> (\<exists>x. m = Inr x \<and> f x = Inl e)"
  by (cases m) simp_all

lemma bindR_assoc: "bindR (bindR m f) g = bindR m (\<lambda>x. bindR (f x) g)"
  by (cases m) simp_all

lemma ASSERT_simps [simp]:
  "ASSERT True msg k = k"
  "ASSERT False msg k = Inl (AssertFail msg)"
  by (simp_all add: ASSERT_def)

lemma ASSERT_Inr_iff: "ASSERT c msg k = Inr y \<longleftrightarrow> c \<and> k = Inr y"
  by (simp add: ASSERT_def)

lemma mapR_simps [simp]:
  "mapR f (Inl e) = Inl e"
  "mapR f (Inr x) = Inr (f x)"
  by (simp_all add: mapR_def)

lemma mapR_Inr_iff: "mapR f m = Inr y \<longleftrightarrow> (\<exists>x. m = Inr x \<and> y = f x)"
  by (cases m) auto

lemmas result_iffs = bindR_Inr_iff ASSERT_Inr_iff mapR_Inr_iff

section \<open>Reading and writing byte arrays\<close>

text \<open>Indexing through a pointer: the list is the memory the pointer points into.\<close>

definition byte_at :: "'a list \<Rightarrow> nat \<Rightarrow> 'a result" where
  "byte_at bs i = (if i < length bs then Inr (bs ! i) else Inl OutOfBounds)"

definition set_byte_at :: "'a list \<Rightarrow> nat \<Rightarrow> 'a \<Rightarrow> 'a list result" where
  "set_byte_at bs i v = (if i < length bs then Inr (bs[i := v]) else Inl OutOfBounds)"

lemma byte_at_Inr_iff: "byte_at bs i = Inr v \<longleftrightarrow> i < length bs \<and> v = bs ! i"
  by (auto simp: byte_at_def)

lemma set_byte_at_Inr_iff: "set_byte_at bs i v = Inr bs' \<longleftrightarrow> i < length bs \<and> bs' = bs[i := v]"
  by (auto simp: set_byte_at_def)

lemma byte_at_in [simp]: "i < length bs \<Longrightarrow> byte_at bs i = Inr (bs ! i)"
  by (simp add: byte_at_def)

lemma byte_at_out [simp]: "length bs \<le> i \<Longrightarrow> byte_at bs i = Inl OutOfBounds"
  by (simp add: byte_at_def)

lemma set_byte_at_in [simp]: "i < length bs \<Longrightarrow> set_byte_at bs i v = Inr (bs[i := v])"
  by (simp add: set_byte_at_def)

section \<open>Rounding\<close>

definition DIV_ROUND_UP :: "u32 \<Rightarrow> u32 \<Rightarrow> u32" where
  "DIV_ROUND_UP x step = (x + step - 1) div step"

section \<open>Bits of a machine word\<close>

lemma and_push_bit_1_iff:
  fixes x :: "'a::len word"
  shows "push_bit n 1 AND x \<noteq> 0 \<longleftrightarrow> n < LENGTH('a) \<and> bit x n"
proof -
  have "push_bit n 1 AND x \<noteq> 0 \<longleftrightarrow> (\<exists>m. bit (push_bit n 1 AND x) m)"
    by (auto simp: bit_eq_iff dest: bit_imp_le_length)
  also have "\<dots> \<longleftrightarrow> n < LENGTH('a) \<and> bit x n"
    by (auto simp: bit_simps dest: bit_imp_le_length)
  finally show ?thesis .
qed

lemma word_full_iff:
  fixes x :: "'a::len word"
  shows "x = -1 \<longleftrightarrow> (\<forall>n < LENGTH('a). bit x n)"
  by (auto simp: bit_eq_iff dest: bit_imp_le_length)

lemma unat_ucast_low8: "unat (ucast (w :: u32) :: u8) = unat w mod 256"
  by (simp add: unsigned_ucast_eq take_bit_eq_mod)

lemma unat_ucast_8_32: "unat (ucast (w :: u8) :: u32) = unat w"
proof -
  have "unat w < 256" using unsigned_less [of w] by simp
  then show ?thesis by (simp add: unsigned_ucast_eq take_bit_eq_mod)
qed

lemma sint_u32: "sint (n :: u32) = (if uint n < 2 ^ 31 then uint n else uint n - 2 ^ 32)"
proof -
  have b: "0 \<le> uint n" "uint n < 2 ^ 32" using uint_lt2p [of n] by simp_all
  have "sint n = (uint n + 2 ^ 31) mod 2 ^ 32 - 2 ^ 31" by (simp add: sint_uint signed_take_bit_eq_take_bit_shift take_bit_eq_mod)
  moreover have "(uint n + 2 ^ 31) mod 2 ^ 32 = (if uint n < 2 ^ 31 then uint n + 2 ^ 31 else uint n + 2 ^ 31 - 2 ^ 32)"
    using b by (auto simp: mod_pos_geq)
  ultimately show ?thesis by simp
qed

lemma nat_induct_bound [consumes 1, case_names less]:
  fixes n b :: nat
  assumes "n \<le> b" and "\<And>n. n \<le> b \<Longrightarrow> (\<And>m. n < m \<Longrightarrow> m \<le> b \<Longrightarrow> P m) \<Longrightarrow> P n"
  shows "P n"
  using assms(1)
proof (induction "b - n" arbitrary: n rule: less_induct)
  case less
  show ?case
  proof (rule assms(2) [OF less.prems])
    fix m assume "n < m" "m \<le> b"
    then show "P m" using less.hyps [of m] by simp
  qed
qed

end
