(* ===== verification/Cstring.thy ===== *)
theory Cstring
  imports Kernel_Prelude
begin

text \<open>
  Model of \<^verbatim>\<open>lib/string.c\<close>. A buffer is the list of bytes from the pointer to the end of the
  object it points into; \<open>None\<close> is the NULL pointer. \<^verbatim>\<open>char\<close> is signed on the target
  (gcc -m32 for x86), so a comparison of two \<^verbatim>\<open>char\<close>s is on \<open>sint\<close>. A returned pointer into an
  argument is its offset from the argument's start. Running off the end of the list is the result
  \<open>OutOfBounds\<close>.
\<close>

type_synonym buf = "u8 list option"

section \<open>Operations\<close>

text \<open>\<^verbatim>\<open>while (size-- > 0) *dst++ = value;\<close>\<close>

fun memset_loop :: "u8 list \<Rightarrow> u8 \<Rightarrow> nat \<Rightarrow> u8 list result" where
  "memset_loop dst v 0 = Inr dst"
| "memset_loop [] v (Suc n) = Inl OutOfBounds"
| "memset_loop (d # dst) v (Suc n) = mapR (Cons v) (memset_loop dst v n)"

definition memset :: "buf \<Rightarrow> u8 \<Rightarrow> nat \<Rightarrow> u8 list result" where
  "memset dstp v sz = (case dstp of
     None \<Rightarrow> Inl (AssertFail ''dst_ != NULL'')
   | Some dst \<Rightarrow> memset_loop dst v sz)"

fun memcpy_loop :: "u8 list \<Rightarrow> u8 list \<Rightarrow> nat \<Rightarrow> u8 list result" where
  "memcpy_loop dst src 0 = Inr dst"
| "memcpy_loop (d # dst) (s # src) (Suc n) = mapR (Cons s) (memcpy_loop dst src n)"
| "memcpy_loop _ _ (Suc n) = Inl OutOfBounds"

definition memcpy :: "buf \<Rightarrow> buf \<Rightarrow> nat \<Rightarrow> u8 list result" where
  "memcpy dstp srcp sz = (case (dstp, srcp) of
     (Some dst, Some src) \<Rightarrow> memcpy_loop dst src sz
   | _ \<Rightarrow> Inl (AssertFail ''dst_ != NULL && src_ != NULL''))"

text \<open>\<^verbatim>\<open>char\<close>s are compared as signed values.\<close>

fun memcmp_loop :: "u8 list \<Rightarrow> u8 list \<Rightarrow> nat \<Rightarrow> int result" where
  "memcmp_loop a b 0 = Inr 0"
| "memcmp_loop (x # a) (y # b) (Suc n) =
     (if x \<noteq> y then Inr (if sint x > sint y then 1 else -1) else memcmp_loop a b n)"
| "memcmp_loop _ _ (Suc n) = Inl OutOfBounds"

text \<open>The assertion of the source is a disjunction: one NULL argument passes it.\<close>

definition memcmp :: "buf \<Rightarrow> buf \<Rightarrow> nat \<Rightarrow> int result" where
  "memcmp ap bp sz = ASSERT (ap \<noteq> None \<or> bp \<noteq> None) ''a != NULL || b != NULL''
     (case (ap, bp) of
        (Some a, Some b) \<Rightarrow> memcmp_loop a b sz
      | _ \<Rightarrow> if sz = 0 then Inr 0 else Inl NullDeref)"

text \<open>\<^verbatim>\<open>while((*dst_++ = *src_++));\<close>\<close>

fun strcpy_loop :: "u8 list \<Rightarrow> u8 list \<Rightarrow> u8 list result" where
  "strcpy_loop (d # dst) (s # src) =
     (if s = 0 then Inr (s # dst) else mapR (Cons s) (strcpy_loop dst src))"
| "strcpy_loop _ _ = Inl OutOfBounds"

definition strcpy :: "buf \<Rightarrow> buf \<Rightarrow> u8 list result" where
  "strcpy dstp srcp = (case (dstp, srcp) of
     (Some dst, Some src) \<Rightarrow> strcpy_loop dst src
   | _ \<Rightarrow> Inl (AssertFail ''dst_ != NULL && src_ != NULL''))"

fun strlen_loop :: "u8 list \<Rightarrow> nat result" where
  "strlen_loop [] = Inl OutOfBounds"
| "strlen_loop (c # cs) = (if c = 0 then Inr 0 else mapR Suc (strlen_loop cs))"

definition strlen :: "buf \<Rightarrow> nat result" where
  "strlen str = (case str of
     None \<Rightarrow> Inl (AssertFail ''str != NULL'')
   | Some cs \<Rightarrow> strlen_loop cs)"

fun strcmp_loop :: "u8 list \<Rightarrow> u8 list \<Rightarrow> int result" where
  "strcmp_loop (x # a) (y # b) =
     (if x \<noteq> 0 \<and> x = y then strcmp_loop a b
      else Inr (if sint x < sint y then -1 else if sint x > sint y then 1 else 0))"
| "strcmp_loop _ _ = Inl OutOfBounds"

definition strcmp :: "buf \<Rightarrow> buf \<Rightarrow> int result" where
  "strcmp ap bp = (case (ap, bp) of
     (Some a, Some b) \<Rightarrow> strcmp_loop a b
   | _ \<Rightarrow> Inl (AssertFail ''a != NULL && b != NULL''))"

text \<open>
  \<^verbatim>\<open>*str == ch\<close> compares a promoted signed \<^verbatim>\<open>char\<close> with a promoted \<^verbatim>\<open>uint8_t\<close>; they are equal only
  below 128. The result is the offset of the match.
\<close>

fun strchr_loop :: "u8 list \<Rightarrow> u8 \<Rightarrow> nat \<Rightarrow> nat option result" where
  "strchr_loop [] ch i = Inl OutOfBounds"
| "strchr_loop (c # cs) ch i =
     (if c = 0 then Inr None
      else if sint c = uint ch then Inr (Some i)
      else strchr_loop cs ch (Suc i))"

definition strchr :: "buf \<Rightarrow> u8 \<Rightarrow> nat option result" where
  "strchr str ch = (case str of
     None \<Rightarrow> Inl (AssertFail ''str != NULL'')
   | Some cs \<Rightarrow> strchr_loop cs ch 0)"

fun strrchr_loop :: "u8 list \<Rightarrow> u8 \<Rightarrow> nat \<Rightarrow> nat option \<Rightarrow> nat option result" where
  "strrchr_loop [] ch i last_char = Inl OutOfBounds"
| "strrchr_loop (c # cs) ch i last_char =
     (if c = 0 then Inr last_char
      else strrchr_loop cs ch (Suc i) (if sint c = uint ch then Some i else last_char))"

definition strrchr :: "buf \<Rightarrow> u8 \<Rightarrow> nat option result" where
  "strrchr str ch = (case str of
     None \<Rightarrow> Inl (AssertFail ''str != NULL'')
   | Some cs \<Rightarrow> strrchr_loop cs ch 0 None)"

text \<open>\<^verbatim>\<open>while (*str++); --str;\<close> finds the terminator, then the copy loop runs from there.\<close>

fun strcat_loop :: "u8 list \<Rightarrow> u8 list \<Rightarrow> u8 list result" where
  "strcat_loop [] src = Inl OutOfBounds"
| "strcat_loop (d # dst) src =
     (if d = 0 then strcpy_loop (d # dst) src else mapR (Cons d) (strcat_loop dst src))"

definition strcat :: "buf \<Rightarrow> buf \<Rightarrow> u8 list result" where
  "strcat dstp srcp = (case (dstp, srcp) of
     (Some dst, Some src) \<Rightarrow> strcat_loop dst src
   | _ \<Rightarrow> Inl (AssertFail ''dst_ != NULL && src_ != NULL''))"

fun strchrs_loop :: "u8 list \<Rightarrow> u8 \<Rightarrow> u32 \<Rightarrow> u32 result" where
  "strchrs_loop [] ch ch_cnt = Inl OutOfBounds"
| "strchrs_loop (c # cs) ch ch_cnt =
     (if c = 0 then Inr ch_cnt
      else strchrs_loop cs ch (if sint c = uint ch then ch_cnt + 1 else ch_cnt))"

definition strchrs :: "buf \<Rightarrow> u8 \<Rightarrow> u32 result" where
  "strchrs str ch = (case str of
     None \<Rightarrow> Inl (AssertFail ''str != NULL'')
   | Some cs \<Rightarrow> strchrs_loop cs ch 0)"

section \<open>The string a buffer holds\<close>

text \<open>A buffer holds the string \<open>s\<close> when \<open>s\<close>, free of zero bytes, is followed by a zero byte.\<close>

definition holds_str :: "u8 list \<Rightarrow> u8 list \<Rightarrow> bool" where
  "holds_str bs s \<longleftrightarrow> 0 \<notin> set s \<and> (\<exists>rest. bs = s @ 0 # rest)"

definition str_of :: "u8 list \<Rightarrow> u8 list" where
  "str_of bs = takeWhile (\<lambda>c. c \<noteq> 0) bs"

lemma holds_str_Nil [simp]: "\<not> holds_str [] s"
  by (simp add: holds_str_def)

lemma holds_str_Cons:
  "holds_str (c # bs) s \<longleftrightarrow> (if c = 0 then s = [] else \<exists>t. s = c # t \<and> holds_str bs t)"
  by (cases s) (auto simp: holds_str_def)

lemma holds_str_ConsE:
  assumes "holds_str bs s"
  obtains (Nil) rest where "bs = 0 # rest" "s = []"
    | (Cons) c t rest where "c \<noteq> 0" "bs = c # rest" "s = c # t" "holds_str rest t"
  using assms by (cases bs) (auto simp: holds_str_Cons split: if_splits)

lemma holds_str_unique: "holds_str bs s \<Longrightarrow> s = str_of bs"
  by (induction bs arbitrary: s) (auto simp: holds_str_Cons str_of_def split: if_splits)

lemma holds_str_iff: "holds_str bs s \<longleftrightarrow> 0 \<in> set bs \<and> s = str_of bs"
proof
  assume "holds_str bs s"
  then show "0 \<in> set bs \<and> s = str_of bs"
    by (auto simp: holds_str_unique) (auto simp: holds_str_def)
next
  show "0 \<in> set bs \<and> s = str_of bs \<Longrightarrow> holds_str bs s"
    by (induction bs arbitrary: s) (auto simp: holds_str_Cons str_of_def)
qed

section \<open>What the operations compute\<close>

lemma memset_loop_eq:
  "n \<le> length dst \<Longrightarrow> memset_loop dst v n = Inr (replicate n v @ drop n dst)"
  by (induction dst v n rule: memset_loop.induct) auto

lemma memset_loop_short: "length dst < n \<Longrightarrow> memset_loop dst v n = Inl OutOfBounds"
  by (induction dst v n rule: memset_loop.induct) auto

lemma memcpy_loop_eq:
  "n \<le> length dst \<Longrightarrow> n \<le> length src \<Longrightarrow>
   memcpy_loop dst src n = Inr (take n src @ drop n dst)"
  by (induction dst src n rule: memcpy_loop.induct) auto

lemma strlen_loop_eq: "holds_str bs s \<Longrightarrow> strlen_loop bs = Inr (length s)"
  by (induction bs arbitrary: s) (auto simp: holds_str_Cons split: if_splits)

lemma strlen_loop_unterminated: "0 \<notin> set bs \<Longrightarrow> strlen_loop bs = Inl OutOfBounds"
  by (induction bs) auto

lemma strcpy_loop_eq:
  "holds_str src s \<Longrightarrow> length s < length dst \<Longrightarrow>
   strcpy_loop dst src = Inr (s @ 0 # drop (Suc (length s)) dst)"
  by (induction dst src arbitrary: s rule: strcpy_loop.induct)
     (auto simp: holds_str_Cons split: if_splits)

lemma strcpy_loop_small:
  "holds_str src s \<Longrightarrow> length dst \<le> length s \<Longrightarrow> strcpy_loop dst src = Inl OutOfBounds"
  by (induction dst src arbitrary: s rule: strcpy_loop.induct)
     (auto simp: holds_str_Cons split: if_splits)

lemma strcat_loop_eq:
  "holds_str dst d \<Longrightarrow> holds_str src s \<Longrightarrow> length d + length s < length dst \<Longrightarrow>
   strcat_loop dst src = Inr (d @ s @ 0 # drop (Suc (length d + length s)) dst)"
  by (induction dst src arbitrary: d rule: strcat_loop.induct)
     (auto simp: holds_str_Cons strcpy_loop_eq simp del: strcpy_loop.simps split: if_splits)

lemma strcat_loop_small:
  "holds_str dst d \<Longrightarrow> holds_str src s \<Longrightarrow> length dst \<le> length d + length s \<Longrightarrow>
   strcat_loop dst src = Inl OutOfBounds"
  by (induction dst src arbitrary: d rule: strcat_loop.induct)
     (auto simp: holds_str_Cons strcpy_loop_small simp del: strcpy_loop.simps split: if_splits)

text \<open>The order \<^verbatim>\<open>strcmp\<close> decides: lexicographic, by signed byte, a prefix first.\<close>

definition schar_less :: "(u8 \<times> u8) set" where
  "schar_less = {(x, y). sint x < sint y}"

definition str_order :: "u8 list \<Rightarrow> u8 list \<Rightarrow> int" where
  "str_order s t =
     (if s = t then 0
      else if (s @ [0], t @ [0]) \<in> lexord schar_less then -1 else 1)"

lemma sint_neq_iff: "(sint x = sint y) = (x = (y :: u8))"
  by (rule word_eq_iff_signed [symmetric])

lemma str_order_Cons:
  "str_order (x # s) (y # t) =
     (if x = y then str_order s t else if sint x < sint y then -1 else 1)"
  by (auto simp: str_order_def schar_less_def sint_neq_iff)

lemma str_order_Nil1: "y \<noteq> 0 \<Longrightarrow> str_order [] (y # t) = (if 0 < sint y then -1 else 1)"
  by (cases t) (auto simp: str_order_def schar_less_def)

lemma str_order_Nil2: "y \<noteq> 0 \<Longrightarrow> str_order (y # t) [] = (if sint y < 0 then -1 else 1)"
  by (cases t) (auto simp: str_order_def schar_less_def)

lemma str_order_Nil [simp]: "str_order [] [] = 0"
  by (simp add: str_order_def)

lemma sint_0_iff: "(sint x = 0) = (x = (0 :: u8))"
  using sint_neq_iff [of x 0] by simp

lemma strcmp_loop_eq:
  "holds_str a s \<Longrightarrow> holds_str b t \<Longrightarrow> strcmp_loop a b = Inr (str_order s t)"
  by (induction a b arbitrary: s t rule: strcmp_loop.induct)
     (auto simp: holds_str_Cons str_order_Cons str_order_Nil1 str_order_Nil2
             sint_0_iff sint_neq_iff
           split: if_splits)


lemma str_order_antisym: "0 \<notin> set s \<Longrightarrow> 0 \<notin> set t \<Longrightarrow> str_order t s = - str_order s t"
proof (induction s arbitrary: t)
  case Nil
  then show ?case
    by (cases t) (auto simp: str_order_Nil1 str_order_Nil2 sint_0_iff not_less
          order.order_iff_strict)
next
  case (Cons x s)
  then show ?case
    by (cases t) (auto simp: str_order_Nil1 str_order_Nil2 str_order_Cons sint_0_iff sint_neq_iff)
qed

lemma str_order_0_iff: "str_order s t = 0 \<longleftrightarrow> s = t"
  by (simp add: str_order_def)

text \<open>The search for a character: the positions of \<open>s\<close> that match \<open>ch\<close>.\<close>

definition ch_match :: "u8 list \<Rightarrow> u8 \<Rightarrow> nat \<Rightarrow> bool" where
  "ch_match s ch k \<longleftrightarrow> k < length s \<and> sint (s ! k) = uint ch"

lemma ch_match_Cons:
  "ch_match (c # s) ch k \<longleftrightarrow> (case k of 0 \<Rightarrow> sint c = uint ch | Suc k \<Rightarrow> ch_match s ch k)"
  by (auto simp: ch_match_def split: nat.splits)

lemma ch_match_Nil [simp]: "\<not> ch_match [] ch k"
  by (simp add: ch_match_def)

lemma ex_nat_split: "(\<exists>k. P k) \<longleftrightarrow> P 0 \<or> (\<exists>k. P (Suc k))"
  by (metis not0_implies_Suc)

lemma strchr_loop_spec:
  "holds_str bs s \<Longrightarrow> \<exists>r. strchr_loop bs ch i = Inr r \<and>
     (case r of None \<Rightarrow> (\<forall>k. \<not> ch_match s ch k)
      | Some j \<Rightarrow> \<exists>k. j = i + k \<and> ch_match s ch k \<and> (\<forall>m < k. \<not> ch_match s ch m))"
proof (induction bs arbitrary: s i)
  case (Cons c bs)
  show ?case
  proof (cases "c = 0 \<or> sint c = uint ch")
    case True
    with Cons.prems show ?thesis
      by (auto simp: holds_str_Cons ch_match_Cons intro!: exI [of _ "0::nat"] split: if_splits)
  next
    case False
    with Cons.prems obtain t where t: "s = c # t" "holds_str bs t" by (auto simp: holds_str_Cons)
    with Cons.IH [of t "Suc i"] obtain r where r: "strchr_loop bs ch (Suc i) = Inr r"
      "case r of None \<Rightarrow> (\<forall>k. \<not> ch_match t ch k)
       | Some j \<Rightarrow> \<exists>k. j = Suc i + k \<and> ch_match t ch k \<and> (\<forall>m < k. \<not> ch_match t ch m)" by auto
    have "case r of None \<Rightarrow> (\<forall>k. \<not> ch_match s ch k)
       | Some j \<Rightarrow> \<exists>k. j = i + k \<and> ch_match s ch k \<and> (\<forall>m < k. \<not> ch_match s ch m)"
    proof (cases r)
      case None
      with r(2) False show ?thesis by (auto simp: t(1) ch_match_Cons split: nat.splits)
    next
      case (Some j)
      with r(2) obtain k where "j = Suc i + k" "ch_match t ch k" "\<forall>m < k. \<not> ch_match t ch m" by auto
      then have "j = i + Suc k" "ch_match s ch (Suc k)" "\<forall>m < Suc k. \<not> ch_match s ch m"
        using False by (auto simp: t(1) ch_match_Cons split: nat.splits)
      then show ?thesis unfolding Some option.case by blast
    qed
    with r(1) False show ?thesis by auto
  qed
qed simp

lemma strrchr_loop_spec:
  "holds_str bs s \<Longrightarrow> \<exists>r. strrchr_loop bs ch i l = Inr r \<and>
     (if \<exists>k. ch_match s ch k
      then \<exists>k. r = Some (i + k) \<and> ch_match s ch k \<and> (\<forall>m > k. \<not> ch_match s ch m) else r = l)"
proof (induction bs arbitrary: s i l)
  case (Cons c bs)
  show ?case
  proof (cases "c = 0")
    case True
    with Cons.prems show ?thesis by (auto simp: holds_str_Cons)
  next
    case False
    with Cons.prems obtain t where t: "s = c # t" "holds_str bs t" by (auto simp: holds_str_Cons)
    let ?l = "if sint c = uint ch then Some i else l"
    from Cons.IH [OF t(2), of "Suc i" ?l] obtain r where r: "strrchr_loop bs ch (Suc i) ?l = Inr r"
      and s: "if \<exists>k. ch_match t ch k
       then \<exists>k. r = Some (Suc i + k) \<and> ch_match t ch k \<and> (\<forall>m > k. \<not> ch_match t ch m) else r = ?l"
      by blast
    have "if \<exists>k. ch_match s ch k
      then \<exists>k. r = Some (i + k) \<and> ch_match s ch k \<and> (\<forall>m > k. \<not> ch_match s ch m) else r = l"
    proof (cases "\<exists>k. ch_match t ch k")
      case True
      with s obtain k where "r = Some (Suc i + k)" "ch_match t ch k" "\<forall>m > k. \<not> ch_match t ch m" by auto
      then have "r = Some (i + Suc k)" "ch_match s ch (Suc k)" "\<forall>m > Suc k. \<not> ch_match s ch m"
        by (auto simp: t(1) ch_match_Cons split: nat.splits)
      then show ?thesis by auto
    next
      case False
      with s have "r = ?l" by auto
      with False show ?thesis
        by (auto simp: t(1) ch_match_Cons split: nat.splits intro!: exI [of _ 0])
    qed
    with r False show ?thesis by auto
  qed
qed simp

section \<open>Properties\<close>

text \<open>
  \<^verbatim>\<open>strcmp\<close> on two terminated strings decides the lexicographic order of their bytes as signed
  characters: it returns 0 exactly on equal strings, and exchanging the arguments negates it.
\<close>

theorem strcmp_decides_order:
  assumes "holds_str a s" and "holds_str b t"
  shows "strcmp (Some a) (Some b) = Inr (str_order s t) \<and>
         (strcmp (Some a) (Some b) = Inr 0 \<longleftrightarrow> s = t) \<and>
         strcmp (Some b) (Some a) = Inr (- str_order s t)"
proof -
  have "0 \<notin> set s" "0 \<notin> set t" using assms by (auto simp: holds_str_def)
  then show ?thesis
    using assms str_order_antisym [of t s]
    by (simp add: strcmp_def strcmp_loop_eq str_order_0_iff eq_commute [of t s])
qed

theorem strcmp_decides_order_witness:
  "strcmp (Some [97, 98, 0]) (Some [97, 99, 0, 1]) = Inr (str_order [97, 98] [97, 99])"
  using strcmp_decides_order [of "[97, 98, 0]" "[97, 98]" "[97, 99, 0, 1]" "[97, 99]"]
  by (simp add: holds_str_def)

text \<open>
  \<^verbatim>\<open>strcpy\<close> copies the string and its terminator and nothing more when the destination has room,
  and \<^verbatim>\<open>strlen\<close> of the copy is the length of the string; without room it writes past the end.
\<close>

theorem strcpy_strlen:
  assumes "holds_str src s"
  shows "(length s < length dst \<longrightarrow>
            (\<exists>dst'. strcpy (Some dst) (Some src) = Inr dst' \<and> holds_str dst' s \<and>
               strlen (Some dst') = Inr (length s) \<and> length dst' = length dst \<and>
               drop (Suc (length s)) dst' = drop (Suc (length s)) dst)) \<and>
         (length dst \<le> length s \<longrightarrow> strcpy (Some dst) (Some src) = Inl OutOfBounds)"
proof -
  have "0 \<notin> set s" using assms by (simp add: holds_str_def)
  then have "holds_str (s @ 0 # r) s" for r by (simp add: holds_str_def)
  then show ?thesis
    using assms by (auto simp: strcpy_def strlen_def strcpy_loop_eq strcpy_loop_small strlen_loop_eq)
qed

theorem strcpy_strlen_witness:
  "\<exists>dst'. strcpy (Some [9, 9, 9, 9]) (Some [104, 105, 0]) = Inr dst' \<and> holds_str dst' [104, 105]"
  using strcpy_strlen [of "[104, 105, 0]" "[104, 105]" "[9, 9, 9, 9]"] by (auto simp: holds_str_def)

text \<open>
  \<^verbatim>\<open>strcat\<close> leaves the concatenation of the two strings in the destination when it fits with its
  terminator, and writes past the end of the destination when it does not.
\<close>

theorem strcat_concatenates:
  assumes "holds_str dst d" and "holds_str src s"
  shows "(length d + length s < length dst \<longrightarrow>
            (\<exists>dst'. strcat (Some dst) (Some src) = Inr dst' \<and> holds_str dst' (d @ s) \<and>
               length dst' = length dst)) \<and>
         (length dst \<le> length d + length s \<longrightarrow> strcat (Some dst) (Some src) = Inl OutOfBounds)"
proof -
  have "0 \<notin> set d" "0 \<notin> set s" using assms by (auto simp: holds_str_def)
  then have "holds_str (d @ s @ 0 # r) (d @ s)" for r by (simp add: holds_str_def)
  then show ?thesis using assms by (auto simp: strcat_def strcat_loop_eq strcat_loop_small)
qed

theorem strcat_concatenates_witness:
  "\<exists>dst'. strcat (Some [47, 0, 7, 7, 7]) (Some [97, 98, 0]) = Inr dst' \<and>
     holds_str dst' [47, 97, 98]"
  using strcat_concatenates [of "[47, 0, 7, 7, 7]" "[47]" "[97, 98, 0]" "[97, 98]"]
  by (auto simp: holds_str_def)

text \<open>
  \<^verbatim>\<open>strchr\<close> finds the first and \<^verbatim>\<open>strrchr\<close> the last occurrence of a character, and both return
  NULL when there is none; a character code of 128 or more is never found, because it is compared
  as an unsigned value with signed ones.
\<close>

theorem strchr_strrchr_first_last:
  assumes "holds_str bs s"
  shows "(\<exists>r. strchr (Some bs) ch = Inr r \<and>
            (case r of None \<Rightarrow> (\<forall>k. \<not> ch_match s ch k)
             | Some k \<Rightarrow> ch_match s ch k \<and> (\<forall>m < k. \<not> ch_match s ch m))) \<and>
         (\<exists>r. strrchr (Some bs) ch = Inr r \<and>
            (case r of None \<Rightarrow> (\<forall>k. \<not> ch_match s ch k)
             | Some k \<Rightarrow> ch_match s ch k \<and> (\<forall>m > k. \<not> ch_match s ch m))) \<and>
         (128 \<le> uint ch \<longrightarrow> strchr (Some bs) ch = Inr None \<and> strrchr (Some bs) ch = Inr None)"
proof -
  have small: "sint x < 128" for x :: u8 using sint_lt [of x] by simp
  have "\<not> ch_match s ch k" if "128 \<le> uint ch" for k
    using that small [of "s ! k"] by (simp add: ch_match_def)
  then show ?thesis
    using strchr_loop_spec [OF assms, of ch 0] strrchr_loop_spec [OF assms, of ch 0 None]
    by (auto simp: strchr_def strrchr_def split: option.splits if_splits)
qed

theorem strchr_strrchr_first_last_witness:
  "\<exists>r. strrchr (Some [47, 97, 47, 0]) 47 = Inr r \<and>
     (case r of None \<Rightarrow> (\<forall>k. \<not> ch_match [47, 97, 47] 47 k)
      | Some k \<Rightarrow> ch_match [47, 97, 47] 47 k \<and> (\<forall>m > k. \<not> ch_match [47, 97, 47] 47 m))"
  using strchr_strrchr_first_last [of "[47, 97, 47, 0]" "[47, 97, 47]" 47] by (simp add: holds_str_def)

end
