(* ===== verification/Bitmap.thy ===== *)
theory Bitmap
  imports Cstring
begin

text \<open>
  Model of \<^verbatim>\<open>lib/kernel/bitmap.c\<close> and the interface its five clients (physical pages, virtual
  pages, pids, inodes, disk blocks) rely on. \<open>bits\<close> is the memory from the pointer
  \<^verbatim>\<open>bits\<close> on: it covers at least the \<^verbatim>\<open>btmp_bytes_len\<close> bytes of the bitmap and may go on behind
  them, because \<^verbatim>\<open>bitmap_scan\<close> reads behind the end. Lengths and bit indices are \<open>nat\<close>; the
  well-formedness bound keeps every index below \<open>2 ^ 31\<close>, where \<^verbatim>\<open>int\<close> and \<^verbatim>\<open>uint32_t\<close> agree with it.
\<close>

section \<open>The data and the operations\<close>

record bitmap =
  btmp_bytes_len :: nat
  bits :: "u8 list"

definition bitmap_init :: "bitmap \<Rightarrow> bitmap result" where
  "bitmap_init btmp =
     mapR (\<lambda>bs. btmp\<lparr>bits := bs\<rparr>) (memset (Some (bits btmp)) 0 (btmp_bytes_len btmp))"

definition bitmap_scan_test :: "bitmap \<Rightarrow> nat \<Rightarrow> bool result" where
  "bitmap_scan_test btmp bit_idx =
     (let byte_idx = bit_idx div 8; bit_odd = bit_idx mod 8
      in mapR (\<lambda>x. push_bit bit_odd 1 AND x \<noteq> 0) (byte_at (bits btmp) byte_idx))"

text \<open>\<^verbatim>\<open>while ((0xff == bits[idx_byte]) && (idx_byte < btmp_bytes_len)) idx_byte++;\<close> the byte is
  read before the index is compared with the length.\<close>

function scan_bytes :: "bitmap \<Rightarrow> nat \<Rightarrow> nat result" where
  "scan_bytes btmp idx_byte =
     bindR (byte_at (bits btmp) idx_byte) (\<lambda>x.
       if 0xff = x \<and> idx_byte < btmp_bytes_len btmp then scan_bytes btmp (Suc idx_byte)
       else Inr idx_byte)"
  by pat_completeness auto
termination
  by (relation "measure (\<lambda>(b, i). btmp_bytes_len b - i)") auto

text \<open>\<^verbatim>\<open>while ((uint8_t)(BITMAP_MASK << idx_bit) & bits[idx_byte]) idx_bit++;\<close> the cast makes the
  mask 0 from index 8 on, so the loop ends.\<close>

function scan_bits :: "u8 \<Rightarrow> nat \<Rightarrow> nat" where
  "scan_bits x idx_bit =
     (if push_bit idx_bit 1 AND x \<noteq> 0 then scan_bits x (Suc idx_bit) else idx_bit)"
  by pat_completeness auto
termination
  by (relation "measure (\<lambda>(x, i). 8 - i)") (auto simp: and_push_bit_1_iff simp del: push_bit_of_1)

text \<open>\<^verbatim>\<open>while (bit_left-- > 0) ...\<close>: the search for a run of \<^verbatim>\<open>cnt\<close> clear bits.\<close>

fun scan_run :: "bitmap \<Rightarrow> nat \<Rightarrow> nat \<Rightarrow> nat \<Rightarrow> nat \<Rightarrow> int result" where
  "scan_run btmp cnt 0 next_bit count = Inr (-1)"
| "scan_run btmp cnt (Suc bit_left) next_bit count =
     bindR (bitmap_scan_test btmp next_bit) (\<lambda>t.
       let count' = (if \<not> t then Suc count else 0)
       in if count' = cnt then Inr (int next_bit - int cnt + 1)
          else scan_run btmp cnt bit_left (Suc next_bit) count')"

definition bitmap_scan :: "bitmap \<Rightarrow> nat \<Rightarrow> int result" where
  "bitmap_scan btmp cnt =
     bindR (scan_bytes btmp 0) (\<lambda>idx_byte.
     ASSERT (idx_byte < btmp_bytes_len btmp) ''idx_byte < btmp->btmp_bytes_len''
     (if idx_byte = btmp_bytes_len btmp then Inr (-1)
      else bindR (byte_at (bits btmp) idx_byte) (\<lambda>x.
        let idx_bit = scan_bits x 0;
            bit_idx_start = idx_byte * 8 + idx_bit
        in if cnt = 1 then Inr (int bit_idx_start)
           else scan_run btmp cnt (btmp_bytes_len btmp * 8 - bit_idx_start)
                  (bit_idx_start + 1) 1)))"

definition bitmap_set :: "bitmap \<Rightarrow> nat \<Rightarrow> int \<Rightarrow> bitmap result" where
  "bitmap_set btmp bit_idx v =
     ASSERT (v = 0 \<or> v = 1) ''(value == 0) || (value == 1)''
     (let byte_idx = bit_idx div 8; bit_odd = bit_idx mod 8
      in bindR (byte_at (bits btmp) byte_idx) (\<lambda>x.
         bindR (set_byte_at (bits btmp) byte_idx
                  (if v \<noteq> 0 then x OR push_bit bit_odd 1 else x AND NOT (push_bit bit_odd 1)))
           (\<lambda>bs. Inr (btmp\<lparr>bits := bs\<rparr>))))"

declare scan_bytes.simps [simp del] scan_bits.simps [simp del]

section \<open>Well-formedness and the abstract view\<close>

definition wf_bitmap :: "bitmap \<Rightarrow> bool" where
  "wf_bitmap b \<longleftrightarrow> btmp_bytes_len b \<le> length (bits b) \<and> btmp_bytes_len b * 8 < 2 ^ 31"

text \<open>The abstract bitmap: its capacity and the state of each bit.\<close>

definition bm_cap :: "bitmap \<Rightarrow> nat" where
  "bm_cap b = btmp_bytes_len b * 8"

definition bm_bit :: "bitmap \<Rightarrow> nat \<Rightarrow> bool" where
  "bm_bit b i = bit (bits b ! (i div 8)) (i mod 8)"

lemma div8_less: "(i::nat) < 8 * n \<Longrightarrow> i div 8 < n"
  by (simp add: less_mult_imp_div_less mult.commute)

lemma wf_bitmap_index: "wf_bitmap b \<Longrightarrow> i < bm_cap b \<Longrightarrow> i div 8 < length (bits b)"
  using div8_less [of i "btmp_bytes_len b"] by (auto simp: wf_bitmap_def bm_cap_def)

lemma bitmap_scan_test_eq:
  "i div 8 < length (bits b) \<Longrightarrow> bitmap_scan_test b i = Inr (bm_bit b i)"
  using and_push_bit_1_iff [of "i mod 8" "bits b ! (i div 8)"]
  by (simp add: bitmap_scan_test_def bm_bit_def Let_def del: push_bit_of_1)

lemma bitmap_scan_test_Inr:
  "bitmap_scan_test b i = Inr t \<longleftrightarrow> i div 8 < length (bits b) \<and> t = bm_bit b i"
  by (cases "i div 8 < length (bits b)")
     (auto simp: bitmap_scan_test_eq, auto simp: bitmap_scan_test_def Let_def)

subsection \<open>Setting a bit\<close>

lemma bit_set_byte:
  "bit (if v then x OR push_bit n 1 else x AND NOT (push_bit n 1)) m =
     (if m = n then v else bit x m)" if "n < 8" for x :: u8
  using that by (auto simp: bit_simps dest: bit_imp_le_length)

lemma bitmap_set_eq:
  assumes "i div 8 < length (bits b)" and "v = 0 \<or> v = 1"
  obtains b' where "bitmap_set b i v = Inr b'"
    and "btmp_bytes_len b' = btmp_bytes_len b" and "length (bits b') = length (bits b)"
    and "\<And>j. bm_bit b' j = (if j = i then v = 1 else bm_bit b j)"
proof -
  let ?x = "bits b ! (i div 8)"
  let ?y = "if v = 1 then ?x OR push_bit (i mod 8) 1 else ?x AND NOT (push_bit (i mod 8) 1)"
  let ?b = "b\<lparr>bits := (bits b)[i div 8 := ?y]\<rparr>"
  have eq: "bitmap_set b i v = Inr ?b"
    using assms by (auto simp: bitmap_set_def Let_def)
  have "bm_bit ?b j = (if j = i then v = 1 else bm_bit b j)" for j
  proof (cases "j div 8 = i div 8")
    case True
    have "bm_bit ?b j = bit ?y (j mod 8)"
      using True assms(1) by (simp add: bm_bit_def)
    also have "\<dots> = (if j mod 8 = i mod 8 then v = 1 else bit ?x (j mod 8))"
      by (rule bit_set_byte) simp
    also have "\<dots> = (if j = i then v = 1 else bm_bit b j)"
      using True by (metis bm_bit_def div_mod_decomp)
    finally show ?thesis .
  next
    case False
    then show ?thesis by (auto simp: bm_bit_def)
  qed
  then show ?thesis using that [OF eq] by simp
qed

subsection \<open>Scanning\<close>

lemma scan_bits_bound: "x \<noteq> -1 \<Longrightarrow> n \<le> 8 \<Longrightarrow> (\<forall>m<n. bit x m) \<Longrightarrow>
  scan_bits x n < 8 \<and> \<not> bit x (scan_bits x n) \<and> (\<forall>m < scan_bits x n. bit x m)"
proof (induction x n rule: scan_bits.induct)
  case (1 x n)
  note unfold = scan_bits.simps [of x n] and_push_bit_1_iff [of n x]
  show ?case
  proof (cases "n < 8 \<and> bit x n")
    case True
    with 1 show ?thesis
      by (auto simp: unfold less_Suc_eq simp del: push_bit_of_1)
  next
    case False
    have "n \<noteq> 8" using 1(2,4) by (auto simp: word_full_iff)
    with False 1 show ?thesis by (auto simp: unfold simp del: push_bit_of_1)
  qed
qed

lemma scan_bytes_Inr:
  "scan_bytes b n = Inr i \<Longrightarrow> n \<le> btmp_bytes_len b \<Longrightarrow>
     n \<le> i \<and> i \<le> btmp_bytes_len b \<and> i < length (bits b) \<and>
     (\<forall>j. n \<le> j \<and> j < i \<longrightarrow> bits b ! j = -1) \<and> (i < btmp_bytes_len b \<longrightarrow> bits b ! i \<noteq> -1)"
proof (induction b n rule: scan_bytes.induct)
  case (1 b n)
  note u = scan_bytes.simps [of b n]
  from 1(2) have n: "n < length (bits b)" by (auto simp: u bindR_Inr_iff byte_at_Inr_iff)
  show ?case
  proof (cases "bits b ! n = 0xff \<and> n < btmp_bytes_len b")
    case True
    with 1(2) n have s: "scan_bytes b (Suc n) = Inr i" by (simp add: u)
    have
      "Suc n \<le> i \<and> i \<le> btmp_bytes_len b \<and> i < length (bits b) \<and>
       (\<forall>j. Suc n \<le> j \<and> j < i \<longrightarrow> bits b ! j = -1) \<and>
       (i < btmp_bytes_len b \<longrightarrow> bits b ! i \<noteq> -1)"
      using True n by (intro 1(1) [of "bits b ! n"] s) auto
    moreover have "bits b ! j = -1" if "n \<le> j" "j < i" for j
      using that True calculation by (cases "j = n") auto
    ultimately show ?thesis by auto
  next
    case False
    with 1(2,3) n show ?thesis by (auto simp: u split: if_splits)
  qed
qed

lemma scan_bytes_stop:
  "n \<le> m \<Longrightarrow> m < btmp_bytes_len b \<Longrightarrow> m < length (bits b) \<Longrightarrow> bits b ! m \<noteq> -1 \<Longrightarrow>
   \<exists>i \<le> m. scan_bytes b n = Inr i"
proof (induction b n rule: scan_bytes.induct)
  case (1 b n)
  note u = scan_bytes.simps [of b n]
  show ?case
  proof (cases "bits b ! n = 0xff \<and> n < btmp_bytes_len b")
    case True
    then have "n \<noteq> m" using 1 by auto
    with 1 True show ?thesis by (simp add: u)
  next
    case False
    with 1(2-) show ?thesis by (auto simp: u)
  qed
qed

lemma byte_full_iff: "bits b ! k = -1 \<longleftrightarrow> (\<forall>i. i div 8 = k \<longrightarrow> bm_bit b i)"
proof -
  have "(\<forall>i. i div 8 = k \<longrightarrow> bm_bit b i) \<longleftrightarrow> (\<forall>n<8. bit (bits b ! k) n)"
  proof safe
    fix n :: nat assume h: "\<forall>i. i div 8 = k \<longrightarrow> bm_bit b i" and n: "n < 8"
    then have "bm_bit b (k * 8 + n)" by simp
    with n show "bit (bits b ! k) n" by (simp add: bm_bit_def)
  qed (simp add: bm_bit_def)
  then show ?thesis by (simp add: word_full_iff)
qed

text \<open>The first clear bit: what the byte loop and the bit loop find together.\<close>

lemma scan_first_clear:
  assumes wf: "wf_bitmap b" and free: "i < bm_cap b" "\<not> bm_bit b i"
  obtains k s where "scan_bytes b 0 = Inr k" and "k < btmp_bytes_len b"
    and "s = k * 8 + scan_bits (bits b ! k) 0" and "s < bm_cap b" and "\<not> bm_bit b s"
    and "\<forall>j < s. bm_bit b j"
proof -
  have m: "i div 8 < btmp_bytes_len b" "i div 8 < length (bits b)" "bits b ! (i div 8) \<noteq> -1"
    using free wf_bitmap_index [OF wf] div8_less [of i "btmp_bytes_len b"]
    by (auto simp: bm_cap_def mult.commute byte_full_iff)
  obtain k where k: "k \<le> i div 8" "scan_bytes b 0 = Inr k"
    using scan_bytes_stop [of 0 "i div 8" b] m by auto
  have full: "\<forall>j<k. bits b ! j = -1" and nf: "bits b ! k \<noteq> -1"
    using scan_bytes_Inr [OF k(2)] k(1) m by auto
  let ?o = "scan_bits (bits b ! k) 0"
  have o: "?o < 8" "\<not> bit (bits b ! k) ?o" "\<forall>m < ?o. bit (bits b ! k) m"
    using scan_bits_bound [OF nf, of 0] by auto
  have clear: "\<not> bm_bit b (k * 8 + ?o)" using o by (simp add: bm_bit_def)
  have "bm_bit b j" if "j < k * 8 + ?o" for j
  proof (cases "j div 8 < k")
    case True
    then show ?thesis using full byte_full_iff by blast
  next
    case False
    then have "j div 8 = k" using that o(1) by linarith
    moreover have "j mod 8 < ?o" using that calculation by (simp add: minus_mult_div_eq_mod [symmetric])
    ultimately have "j div 8 = k" "j mod 8 < ?o" by auto
    then show ?thesis using o(3) by (simp add: bm_bit_def)
  qed
  moreover have "k * 8 + ?o < bm_cap b" using k(1) m(1) o(1) by (simp add: bm_cap_def)
  ultimately show ?thesis using that k m clear by auto
qed


subsection \<open>Runs of clear bits\<close>

definition clear_run :: "bitmap \<Rightarrow> nat \<Rightarrow> nat \<Rightarrow> bool" where
  "clear_run b s cnt \<longleftrightarrow> (\<forall>j. s \<le> j \<and> j < s + cnt \<longrightarrow> \<not> bm_bit b j)"

lemma clear_run_1 [simp]: "clear_run b s (Suc 0) \<longleftrightarrow> \<not> bm_bit b s"
  by (auto simp: clear_run_def less_Suc_eq_le)

lemma clear_run_extend: "clear_run b s c \<Longrightarrow> \<not> bm_bit b (s + c) \<Longrightarrow> clear_run b s (Suc c)"
  by (auto simp: clear_run_def less_Suc_eq)

lemma clear_run_hit: "bm_bit b n \<Longrightarrow> s \<le> n \<Longrightarrow> n < s + cnt \<Longrightarrow> \<not> clear_run b s cnt"
  by (auto simp: clear_run_def)

text \<open>The state of the search: \<open>count\<close> clear bits end just before \<open>next_bit\<close>, and no run
  starts before them.\<close>

definition run_inv :: "bitmap \<Rightarrow> nat \<Rightarrow> nat \<Rightarrow> nat \<Rightarrow> bool" where
  "run_inv b cnt next_bit count \<longleftrightarrow> count < cnt \<and> count \<le> next_bit \<and>
     clear_run b (next_bit - count) count \<and> (\<forall>s < next_bit - count. \<not> clear_run b s cnt)"

lemma run_inv_used:
  "run_inv b cnt n c \<Longrightarrow> bm_bit b n \<Longrightarrow> run_inv b cnt (Suc n) 0"
proof -
  assume inv: "run_inv b cnt n c" and used: "bm_bit b n"
  have "\<not> clear_run b s cnt" if "s < Suc n" for s
  proof (cases "s < n - c")
    case False
    with inv that have "s \<le> n" "n < s + cnt" by (auto simp: run_inv_def)
    then show ?thesis by (rule clear_run_hit [OF used])
  qed (use inv in \<open>auto simp: run_inv_def\<close>)
  with inv show ?thesis by (auto simp: run_inv_def clear_run_def)
qed

lemma run_inv_clear:
  "run_inv b cnt n c \<Longrightarrow> \<not> bm_bit b n \<Longrightarrow> Suc c \<noteq> cnt \<Longrightarrow> run_inv b cnt (Suc n) (Suc c)"
  using clear_run_extend [of b "n - c" c] by (auto simp: run_inv_def)

lemma scan_run_step:
  "scan_run b cnt (Suc left) n c = Inr r \<longleftrightarrow> n div 8 < length (bits b) \<and>
     (if bm_bit b n then (if cnt = 0 then r = int n + 1 else scan_run b cnt left (Suc n) 0 = Inr r)
      else if Suc c = cnt then r = int n - int cnt + 1
      else scan_run b cnt left (Suc n) (Suc c) = Inr r)"
  by (auto simp: bindR_Inr_iff bitmap_scan_test_Inr)

declare scan_run.simps(2) [simp del]

text \<open>What the search returns: -1 when no run of \<open>cnt\<close> bits ends at or before \<open>lim\<close>, else the
  start of the first such run.\<close>

definition run_result :: "bitmap \<Rightarrow> nat \<Rightarrow> nat \<Rightarrow> int \<Rightarrow> bool" where
  "run_result b cnt lim r \<longleftrightarrow>
     (r = -1 \<and> (\<forall>s. s + cnt \<le> lim \<longrightarrow> \<not> clear_run b s cnt)) \<or>
     (\<exists>s. r = int s \<and> clear_run b s cnt \<and> s + cnt \<le> lim \<and> (\<forall>s' < s. \<not> clear_run b s' cnt))"

lemma scan_run_found:
  assumes "scan_run b cnt left next_bit count = Inr r" "run_inv b cnt next_bit count"
  shows "run_result b cnt (next_bit + left) r"
  using assms
proof (induction left arbitrary: next_bit count)
  case 0
  then show ?case by (auto simp: run_inv_def run_result_def)
next
  case (Suc left n c)
  have cnt: "cnt \<noteq> 0" "c \<le> n" using Suc.prems(2) by (auto simp: run_inv_def)
  consider (used) "bm_bit b n" | (hit) "\<not> bm_bit b n" "Suc c = cnt"
    | (clear) "\<not> bm_bit b n" "Suc c \<noteq> cnt" by blast
  then show ?case
  proof cases
    case used
    with Suc.prems(1) cnt have "scan_run b cnt left (Suc n) 0 = Inr r"
      by (simp add: scan_run_step)
    from Suc.IH [OF this run_inv_used [OF Suc.prems(2) used]] show ?thesis by simp
  next
    case hit
    with Suc.prems(2) have inv: "clear_run b (n - c) c" "\<forall>s<n - c. \<not> clear_run b s cnt"
      by (auto simp: run_inv_def)
    have run: "clear_run b (n - c) cnt"
      using clear_run_extend [OF inv(1)] hit cnt by simp
    have "r = int (n - c)" using Suc.prems(1) hit cnt by (auto simp: scan_run_step)
    moreover have "n - c + cnt \<le> n + Suc left" using hit cnt by auto
    ultimately show ?thesis using run inv(2) by (auto simp: run_result_def)
  next
    case clear
    with Suc.prems(1) have "scan_run b cnt left (Suc n) (Suc c) = Inr r"
      by (simp add: scan_run_step)
    from Suc.IH [OF this run_inv_clear [OF Suc.prems(2) clear]] show ?thesis by simp
  qed
qed

lemma scan_run_finds:
  assumes "run_inv b cnt next_bit count" "clear_run b s cnt" "\<forall>s' < s. \<not> clear_run b s' cnt"
    and "next_bit - count \<le> s" "s + cnt \<le> next_bit + left" "s + cnt \<le> 8 * length (bits b)"
  shows "scan_run b cnt left next_bit count = Inr (int s)"
  using assms(1,4,5)
proof (induction left arbitrary: next_bit count)
  case 0
  then show ?case by (auto simp: run_inv_def)
next
  case (Suc left n c)
  have c: "c < cnt" "c \<le> n" using Suc.prems(1) by (auto simp: run_inv_def)
  then have n: "n < s + cnt" using Suc.prems(2) by linarith
  then have len: "n div 8 < length (bits b)" using assms(6) by (intro div8_less) simp
  consider (used) "bm_bit b n" | (hit) "\<not> bm_bit b n" "Suc c = cnt"
    | (clear) "\<not> bm_bit b n" "Suc c \<noteq> cnt" by blast
  then show ?case
  proof cases
    case used
    have "n < s" using used assms(2) n clear_run_hit not_less by blast
    with Suc.prems(3) have "scan_run b cnt left (Suc n) 0 = Inr (int s)"
      by (intro Suc.IH run_inv_used [OF Suc.prems(1) used]) auto
    with used c len show ?thesis by (simp add: scan_run_step)
  next
    case hit
    with Suc.prems(1) have "clear_run b (n - c) c" by (simp add: run_inv_def)
    then have "clear_run b (n - c) cnt" using clear_run_extend [of b "n - c" c] hit c by simp
    then have "s = n - c" using assms(3) Suc.prems(2) by (metis le_neq_implies_less)
    then show ?thesis using hit len c by (auto simp: scan_run_step)
  next
    case clear
    have "scan_run b cnt left (Suc n) (Suc c) = Inr (int s)"
      using Suc.prems(2,3) by (intro Suc.IH run_inv_clear [OF Suc.prems(1) clear]) auto
    with clear len show ?thesis by (simp add: scan_run_step)
  qed
qed

subsection \<open>The scan as a whole\<close>

lemma least_run:
  assumes "clear_run b s cnt"
  obtains s' where "s' \<le> s" "clear_run b s' cnt" "\<forall>t< s'. \<not> clear_run b t cnt"
  using that [of "LEAST t. clear_run b t cnt"] LeastI [of "\<lambda>t. clear_run b t cnt", OF assms]
    Least_le [of "\<lambda>t. clear_run b t cnt", OF assms] not_less_Least [of _ "\<lambda>t. clear_run b t cnt"]
  by blast

lemma bitmap_scan_finds:
  assumes wf: "wf_bitmap b" and cnt: "0 < cnt" and run: "clear_run b s cnt" "s + cnt \<le> bm_cap b"
    and least: "\<forall>t< s. \<not> clear_run b t cnt"
  shows "bitmap_scan b cnt = Inr (int s)"
proof -
  have "\<not> bm_bit b s" "s < bm_cap b" using run cnt by (auto simp: clear_run_def)
  then obtain k f where k: "scan_bytes b 0 = Inr k" "k < btmp_bytes_len b"
    and f: "f = k * 8 + scan_bits (bits b ! k) 0" "f < bm_cap b" "\<not> bm_bit b f" "\<forall>j<f. bm_bit b j"
    using scan_first_clear [OF wf] by metis
  have fs: "f \<le> s" using f(4) \<open>\<not> bm_bit b s\<close> not_less by blast
  have kl: "k < length (bits b)" using k wf by (simp add: wf_bitmap_def)
  show ?thesis
  proof (cases "cnt = 1")
    case True
    then have "s = f" using least f(3) fs by (metis One_nat_def clear_run_1 le_neq_implies_less)
    then show ?thesis using True k kl f(1) by (simp add: bitmap_scan_def)
  next
    case False
    have inv: "run_inv b cnt (f + 1) 1"
      using False cnt f by (auto simp: run_inv_def) (meson clear_run_hit less_add_same_cancel1 order_refl)
    have "scan_run b cnt (btmp_bytes_len b * 8 - f) (f + 1) 1 = Inr (int s)"
      using inv run least fs f(2) wf
      by (intro scan_run_finds) (auto simp: bm_cap_def wf_bitmap_def)
    then show ?thesis using False k kl f(1) by (simp add: bitmap_scan_def Let_def)
  qed
qed

lemma bitmap_scan_Inr:
  assumes wf: "wf_bitmap b" and cnt: "0 < cnt" and r: "bitmap_scan b cnt = Inr r"
  shows "run_result b cnt (bm_cap b + 1) r"
proof -
  from r obtain k where k: "scan_bytes b 0 = Inr k" "k < btmp_bytes_len b" "k < length (bits b)"
    by (auto simp: bitmap_scan_def result_iffs byte_at_Inr_iff split: if_splits)
  then have "bits b ! k \<noteq> -1" using scan_bytes_Inr [OF k(1)] by auto
  then obtain i where "i div 8 = k" "\<not> bm_bit b i" using byte_full_iff by blast
  moreover have "i < bm_cap b" using k calculation by (auto simp: bm_cap_def)
  ultimately obtain f where f: "f = k * 8 + scan_bits (bits b ! k) 0" "f < bm_cap b"
      "\<not> bm_bit b f" "\<forall>j<f. bm_bit b j"
    using scan_first_clear [OF wf, of i] k(1) by (metis Inr_inject)
  show ?thesis
  proof (cases "cnt = 1")
    case True
    with r k f(1) have "r = int f" by (simp add: bitmap_scan_def)
    with True f(2-) show ?thesis by (auto simp: run_result_def)
  next
    case False
    have inv: "run_inv b cnt (f + 1) 1"
      using False cnt f by (auto simp: run_inv_def) (meson clear_run_hit less_add_same_cancel1 order_refl)
    have "scan_run b cnt (btmp_bytes_len b * 8 - f) (f + 1) 1 = Inr r"
      using False r k f(1) by (simp add: bitmap_scan_def Let_def)
    from scan_run_found [OF this inv] f(2) show ?thesis by (simp add: bm_cap_def)
  qed
qed

lemma bitmap_scan_full:
  assumes wf: "wf_bitmap b" and full: "\<forall>j < bm_cap b. bm_bit b j" and cnt: "0 < cnt"
  shows "\<exists>e. bitmap_scan b cnt = Inl e"
proof (rule ccontr)
  assume "\<not> ?thesis"
  then obtain r where "bitmap_scan b cnt = Inr r" by (meson sumE)
  then obtain k where k: "scan_bytes b 0 = Inr k" "k < btmp_bytes_len b"
    by (auto simp: bitmap_scan_def result_iffs split: if_splits)
  then have "bits b ! k \<noteq> -1" using scan_bytes_Inr [OF k(1)] by auto
  then obtain i where "i div 8 = k" "\<not> bm_bit b i" using byte_full_iff by blast
  with k(2) full show False by (auto simp: bm_cap_def)
qed

section \<open>The allocator interface\<close>

text \<open>
  What the clients rely on. \<open>test\<close> is the state of a bit and \<open>cap\<close> the number of bits; a scan
  finds a run of clear bits when there is one, a single-bit scan of a full pool does not return,
  and a set changes the one bit.
\<close>

locale bit_pool =
  fixes test :: "'b \<Rightarrow> nat \<Rightarrow> bool"
    and cap :: "'b \<Rightarrow> nat"
    and invar :: "'b \<Rightarrow> bool"
    and scan :: "'b \<Rightarrow> nat \<Rightarrow> int result"
    and setb :: "'b \<Rightarrow> nat \<Rightarrow> int \<Rightarrow> 'b result"
  assumes scan_finds: "invar b \<Longrightarrow> 0 < cnt \<Longrightarrow> s + cnt \<le> cap b \<Longrightarrow>
      \<forall>j. s \<le> j \<and> j < s + cnt \<longrightarrow> \<not> test b j \<Longrightarrow>
      \<exists>s'. scan b cnt = Inr (int s') \<and> s' + cnt \<le> cap b \<and>
           (\<forall>j. s' \<le> j \<and> j < s' + cnt \<longrightarrow> \<not> test b j)"
    and scan_full: "invar b \<Longrightarrow> \<forall>j < cap b. test b j \<Longrightarrow> \<exists>e. scan b 1 = Inl e"
    and setb_ok: "invar b \<Longrightarrow> i < cap b \<Longrightarrow> v = 0 \<or> v = 1 \<Longrightarrow>
      \<exists>b'. setb b i v = Inr b' \<and> invar b' \<and> cap b' = cap b \<and>
           (\<forall>j. test b' j = (if j = i then v = 1 else test b j))"
begin

definition free_bits :: "'b \<Rightarrow> nat set" where
  "free_bits b = {i. i < cap b \<and> \<not> test b i}"

lemma finite_free_bits [simp]: "finite (free_bits b)"
  by (simp add: free_bits_def)

text \<open>The pattern of \<^verbatim>\<open>palloc\<close>, \<^verbatim>\<open>allocate_pid\<close>, \<^verbatim>\<open>inode_bitmap_alloc\<close> and \<^verbatim>\<open>block_bitmap_alloc\<close>: scan
  for one bit, then set it.\<close>

lemma alloc_one:
  assumes "invar b" and "free_bits b \<noteq> {}"
  obtains i b' where "scan b 1 = Inr (int i)" and "setb b i 1 = Inr b'" and "i \<in> free_bits b"
    and "invar b'" and "cap b' = cap b" and "\<forall>j. test b' j \<longleftrightarrow> j = i \<or> test b j"
    and "free_bits b' = free_bits b - {i}"
proof -
  obtain j where "j < cap b" "\<not> test b j" using assms(2) by (auto simp: free_bits_def)
  then have "\<forall>k. j \<le> k \<and> k < j + 1 \<longrightarrow> \<not> test b k" by (metis less_antisym Suc_eq_plus1 not_less)
  then obtain i where i: "scan b 1 = Inr (int i)" "i < cap b" "\<not> test b i"
    using scan_finds [OF assms(1), of 1 j] \<open>j < cap b\<close> by fastforce
  then obtain b' where b': "setb b i 1 = Inr b'" "invar b'" "cap b' = cap b"
      "\<forall>j. test b' j = (if j = i then True else test b j)"
    using setb_ok [OF assms(1), of i 1] by auto
  then have "free_bits b' = free_bits b - {i}" by (auto simp: free_bits_def split: if_splits)
  moreover have "\<forall>j. test b' j \<longleftrightarrow> j = i \<or> test b j" using b'(4) by simp
  moreover have "i \<in> free_bits b" using i by (simp add: free_bits_def)
  ultimately show ?thesis using that [OF i(1) b'(1)] b'(2,3) by blast
qed

lemma alloc_none:
  assumes "invar b" and "free_bits b = {}"
  shows "\<exists>e. scan b 1 = Inl e"
  using scan_full [OF assms(1)] assms(2) by (auto simp: free_bits_def)

text \<open>Clearing a bit that was just set gives back the pool's contents: \<^verbatim>\<open>pfree\<close> after \<^verbatim>\<open>palloc\<close>.\<close>

lemma set_then_clear:
  assumes "invar b" and "i \<in> free_bits b" and "setb b i 1 = Inr b'"
  obtains b'' where "setb b' i 0 = Inr b''" and "invar b''" and "cap b'' = cap b"
    and "\<And>j. test b'' j = test b j"
proof -
  have i: "i < cap b" "\<not> test b i" using assms(2) by (auto simp: free_bits_def)
  obtain c where c: "setb b i 1 = Inr c" "invar c" "cap c = cap b"
      "\<forall>j. test c j = (if j = i then True else test b j)"
    using setb_ok [OF assms(1) i(1), of 1] by auto
  then have "c = b'" using assms(3) by simp
  then obtain d where "setb b' i 0 = Inr d" "invar d" "cap d = cap b'"
      "\<forall>j. test d j = (if j = i then False else test b' j)"
    using setb_ok [of c i 0] c i by auto
  then show ?thesis using that c \<open>c = b'\<close> i by (metis (full_types))
qed

end

text \<open>The bitmap of \<^verbatim>\<open>bitmap.c\<close> provides the interface.\<close>

lemma wf_bitmap_set:
  assumes "wf_bitmap b" and "i < bm_cap b" and "v = 0 \<or> v = 1"
  shows "\<exists>b'. bitmap_set b i v = Inr b' \<and> wf_bitmap b' \<and> bm_cap b' = bm_cap b \<and>
           (\<forall>j. bm_bit b' j = (if j = i then v = 1 else bm_bit b j))"
proof -
  obtain b' where "bitmap_set b i v = Inr b'"
    and "btmp_bytes_len b' = btmp_bytes_len b" and "length (bits b') = length (bits b)"
    and "\<And>j. bm_bit b' j = (if j = i then v = 1 else bm_bit b j)"
    using bitmap_set_eq [OF wf_bitmap_index [OF assms(1,2)] assms(3)] by blast
  with assms(1) show ?thesis by (auto simp: wf_bitmap_def bm_cap_def)
qed

lemma wf_bitmap_scan:
  assumes "wf_bitmap b" and "0 < cnt" and "s + cnt \<le> bm_cap b"
    and "\<forall>j. s \<le> j \<and> j < s + cnt \<longrightarrow> \<not> bm_bit b j"
  shows "\<exists>s'. bitmap_scan b cnt = Inr (int s') \<and> s' + cnt \<le> bm_cap b \<and>
           (\<forall>j. s' \<le> j \<and> j < s' + cnt \<longrightarrow> \<not> bm_bit b j)"
proof -
  have "clear_run b s cnt" using assms(4) by (simp add: clear_run_def)
  then obtain s' where "s' \<le> s" "clear_run b s' cnt" "\<forall>t < s'. \<not> clear_run b t cnt"
    by (rule least_run)
  moreover have "bitmap_scan b cnt = Inr (int s')"
    using calculation assms by (intro bitmap_scan_finds) auto
  ultimately show ?thesis using assms(3) by (auto simp: clear_run_def)
qed

interpretation bm: bit_pool bm_bit bm_cap wf_bitmap bitmap_scan bitmap_set
proof unfold_locales
  show "wf_bitmap b \<Longrightarrow> \<forall>j < bm_cap b. bm_bit b j \<Longrightarrow> \<exists>e. bitmap_scan b 1 = Inl e" for b
    using bitmap_scan_full [of b 1] by simp
qed (fact wf_bitmap_scan, fact wf_bitmap_set)

lemma bitmap_init_ok:
  assumes "wf_bitmap b"
  obtains b' where "bitmap_init b = Inr b'" and "wf_bitmap b'" and "bm_cap b' = bm_cap b"
    and "btmp_bytes_len b' = btmp_bytes_len b" and "\<And>i. i < bm_cap b \<Longrightarrow> \<not> bm_bit b' i"
proof -
  let ?n = "btmp_bytes_len b"
  let ?b = "b\<lparr>bits := replicate ?n 0 @ drop ?n (bits b)\<rparr>"
  have "bitmap_init b = Inr ?b"
    using assms by (simp add: bitmap_init_def memset_def memset_loop_eq wf_bitmap_def)
  moreover have "\<not> bm_bit ?b i" if "i < bm_cap b" for i
    using that div8_less [of i ?n] by (simp add: bm_bit_def bm_cap_def nth_append mult.commute)
  ultimately show ?thesis
    using that assms by (simp add: wf_bitmap_def bm_cap_def)
qed

section \<open>Properties\<close>

lemma clear_run_code [code]: "clear_run b s cnt \<longleftrightarrow> list_all (\<lambda>j. \<not> bm_bit b j) [s..<s + cnt]"
  by (auto simp: clear_run_def list_all_iff)

text \<open>
  C35. \<^verbatim>\<open>bitmap_scan\<close> is a first-fit search: whenever \<open>cnt\<close> consecutive clear bits exist inside the
  bitmap, it returns the lowest index at which such a run starts.
\<close>

theorem bitmap_scan_first_fit:
  assumes "wf_bitmap b" and "0 < cnt" and "clear_run b s cnt" and "s + cnt \<le> bm_cap b"
  shows "\<exists>s' \<le> s. bitmap_scan b cnt = Inr (int s') \<and> clear_run b s' cnt \<and>
           (\<forall>t < s'. \<not> clear_run b t cnt)"
proof -
  obtain s' where s': "s' \<le> s" "clear_run b s' cnt" "\<forall>t < s'. \<not> clear_run b t cnt"
    using least_run [OF assms(3)] .
  then have "bitmap_scan b cnt = Inr (int s')"
    using assms by (intro bitmap_scan_finds) auto
  with s' show ?thesis by blast
qed

definition sample_bitmap :: bitmap where
  "sample_bitmap = \<lparr>btmp_bytes_len = 2, bits = [0xff, 0xe3]\<rparr>"

theorem bitmap_scan_first_fit_witness:
  "\<exists>s' \<le> 10. bitmap_scan sample_bitmap 3 = Inr (int s') \<and> clear_run sample_bitmap s' 3"
proof -
  have "wf_bitmap sample_bitmap" by (simp add: wf_bitmap_def sample_bitmap_def)
  moreover have "clear_run sample_bitmap 10 3" "10 + 3 \<le> bm_cap sample_bitmap" by code_simp+
  ultimately show ?thesis using bitmap_scan_first_fit [of sample_bitmap 3 10] by auto
qed

text \<open>
  \<^verbatim>\<open>bitmap_set\<close> changes the one bit and nothing else, and \<^verbatim>\<open>bitmap_scan_test\<close> reads it back.
\<close>

theorem bitmap_set_test:
  assumes "wf_bitmap b" and "i < bm_cap b" and "v = 0 \<or> v = 1"
  shows "\<exists>b'. bitmap_set b i v = Inr b' \<and> wf_bitmap b' \<and> bm_cap b' = bm_cap b \<and>
           bitmap_scan_test b' i = Inr (v = 1) \<and>
           (\<forall>j < bm_cap b. j \<noteq> i \<longrightarrow> bitmap_scan_test b' j = bitmap_scan_test b j)"
proof -
  obtain b' where b': "bitmap_set b i v = Inr b'" "wf_bitmap b'" "bm_cap b' = bm_cap b"
    "\<forall>j. bm_bit b' j = (if j = i then v = 1 else bm_bit b j)"
    using wf_bitmap_set [OF assms] by blast
  then show ?thesis
    using assms by (auto simp: bitmap_scan_test_eq wf_bitmap_index)
qed

theorem bitmap_set_test_witness:
  "\<exists>b'. bitmap_set sample_bitmap 11 1 = Inr b' \<and> bitmap_scan_test b' 11 = Inr True"
  using bitmap_set_test [of sample_bitmap 11 1]
  by (auto simp: wf_bitmap_def bm_cap_def sample_bitmap_def)

text \<open>
  A scan for a single bit never reports failure by its documented -1: on a full bitmap the
  assertion before the test for failure (or the read behind the end that precedes it) stops the
  kernel, so the \<^verbatim>\<open>== -1\<close> branches of the callers that ask for one bit are dead.
\<close>

theorem bitmap_scan_one_never_fails:
  assumes "wf_bitmap b"
  shows "bitmap_scan b 1 \<noteq> Inr (-1) \<and>
         ((\<forall>j < bm_cap b. bm_bit b j) \<longrightarrow> (\<exists>e. bitmap_scan b 1 = Inl e))"
proof -
  have full: "(\<forall>j < bm_cap b. bm_bit b j) \<longrightarrow> (\<exists>e. bitmap_scan b 1 = Inl e)"
    using bm.scan_full [OF assms] by blast
  have "bitmap_scan b 1 \<noteq> Inr (-1)"
  proof
    assume *: "bitmap_scan b 1 = Inr (-1)"
    from bitmap_scan_Inr [OF assms _ *] have "\<forall>j < bm_cap b. bm_bit b j"
      by (auto simp: run_result_def)
    with full * show False by auto
  qed
  with full show ?thesis by blast
qed

theorem bitmap_scan_one_never_fails_witness:
  "\<exists>e. bitmap_scan \<lparr>btmp_bytes_len = 1, bits = [0xff, 0]\<rparr> 1 = Inl e"
  using bitmap_scan_one_never_fails [of "\<lparr>btmp_bytes_len = 1, bits = [0xff, 0]\<rparr>"]
    byte_full_iff [of "\<lparr>btmp_bytes_len = 1, bits = [0xff, 0]\<rparr>" 0]
  by (auto simp: wf_bitmap_def bm_cap_def)

text \<open>
  What a scan returns is clear, but the search looks one bit too far: a run may end one bit
  behind the bitmap, in memory that does not belong to it. The second part shows it happening: in a
  bitmap of 8 bits whose last bit alone is clear, a request for two bits is answered with bit 7.
\<close>

theorem bitmap_scan_one_past_end:
  "(\<forall>b cnt r. wf_bitmap b \<and> 0 < cnt \<and> bitmap_scan b cnt = Inr r \<and> r \<noteq> -1 \<longrightarrow>
      0 \<le> r \<and> clear_run b (nat r) cnt \<and> nat r + cnt \<le> bm_cap b + 1) \<and>
   bitmap_scan \<lparr>btmp_bytes_len = 1, bits = [0x7f, 0]\<rparr> 2 = Inr 7 \<and>
   bm_cap \<lparr>btmp_bytes_len = 1, bits = [0x7f, 0]\<rparr> = 8"
proof -
  have "bitmap_scan \<lparr>btmp_bytes_len = 1, bits = [0x7f, 0]\<rparr> 2 = Inr 7"
    "bm_cap \<lparr>btmp_bytes_len = 1, bits = [0x7f, 0]\<rparr> = 8"
    by code_simp+
  moreover have "0 \<le> r \<and> clear_run b (nat r) cnt \<and> nat r + cnt \<le> bm_cap b + 1"
    if "wf_bitmap b" "0 < cnt" "bitmap_scan b cnt = Inr r" "r \<noteq> -1" for b cnt r
    using bitmap_scan_Inr [OF that(1-3)] that(4) by (auto simp: run_result_def)
  ultimately show ?thesis by blast
qed

theorem bitmap_scan_one_past_end_witness:
  "0 \<le> (10::int) \<and> clear_run sample_bitmap 10 3"
proof -
  have "bitmap_scan sample_bitmap 3 = Inr 10" by code_simp
  moreover have "wf_bitmap sample_bitmap" by (simp add: wf_bitmap_def sample_bitmap_def)
  ultimately show ?thesis
    using bitmap_scan_one_past_end [THEN conjunct1, rule_format, of sample_bitmap 3 10] by simp
qed

end
