(* ===== verification/Kernel_List.thy ===== *)
theory Kernel_List
  imports Kernel_Prelude
begin

text \<open>
  Model of \<^verbatim>\<open>lib/kernel/list.c\<close>: intrusive doubly linked lists. The store maps the address of a
  \<^verbatim>\<open>struct list_elem\<close> to its two pointers; a \<^verbatim>\<open>struct list\<close> at address \<open>p\<close> has its \<^verbatim>\<open>head\<close> element at
  \<open>p\<close> and its \<^verbatim>\<open>tail\<close> element at \<open>p + 8\<close>. The operations run with interrupts off
  (\<^verbatim>\<open>intr_disable\<close> .. \<^verbatim>\<open>intr_set_status\<close>), so each is one atomic change of the store. The loops may
  run forever on a corrupted list: their result is an \<open>option\<close> and \<open>None\<close> is "does not return".
\<close>

type_synonym addr = u32

section \<open>The store and the operations\<close>

record lheap =
  lprev :: "addr \<Rightarrow> addr"
  lnext :: "addr \<Rightarrow> addr"

definition lhead :: "addr \<Rightarrow> addr" where
  "lhead plist = plist"

definition ltail :: "addr \<Rightarrow> addr" where
  "ltail plist = plist + 8"

definition set_prev :: "lheap \<Rightarrow> addr \<Rightarrow> addr \<Rightarrow> lheap" where
  "set_prev h a v = h\<lparr>lprev := (lprev h)(a := v)\<rparr>"

definition set_next :: "lheap \<Rightarrow> addr \<Rightarrow> addr \<Rightarrow> lheap" where
  "set_next h a v = h\<lparr>lnext := (lnext h)(a := v)\<rparr>"

definition list_init :: "lheap \<Rightarrow> addr \<Rightarrow> lheap" where
  "list_init h l =
     (let h1 = set_prev h (lhead l) 0;
          h2 = set_next h1 (lhead l) (ltail l);
          h3 = set_prev h2 (ltail l) (lhead l)
      in set_next h3 (ltail l) 0)"

definition list_insert_before :: "lheap \<Rightarrow> addr \<Rightarrow> addr \<Rightarrow> lheap" where
  "list_insert_before h before elem =
     (let h1 = set_next h (lprev h before) elem;
          h2 = set_prev h1 elem (lprev h1 before);
          h3 = set_next h2 elem before
      in set_prev h3 before elem)"

definition list_push :: "lheap \<Rightarrow> addr \<Rightarrow> addr \<Rightarrow> lheap" where
  "list_push h plist elem = list_insert_before h (lnext h (lhead plist)) elem"

definition list_append :: "lheap \<Rightarrow> addr \<Rightarrow> addr \<Rightarrow> lheap" where
  "list_append h plist elem = list_insert_before h (ltail plist) elem"

definition list_remove :: "lheap \<Rightarrow> addr \<Rightarrow> lheap" where
  "list_remove h pelem =
     (let h1 = set_next h (lprev h pelem) (lnext h pelem)
      in set_prev h1 (lnext h1 pelem) (lprev h1 pelem))"

definition list_pop :: "lheap \<Rightarrow> addr \<Rightarrow> addr \<times> lheap" where
  "list_pop h plist = (let elem = lnext h (lhead plist) in (elem, list_remove h elem))"

partial_function (option) elem_find_from :: "lheap \<Rightarrow> addr \<Rightarrow> addr \<Rightarrow> addr \<Rightarrow> bool option" where
  "elem_find_from h plist elem obj_elem =
     (if elem = ltail plist then Some False
      else if elem = obj_elem then Some True
      else elem_find_from h plist (lnext h elem) obj_elem)"

definition elem_find :: "lheap \<Rightarrow> addr \<Rightarrow> addr \<Rightarrow> bool option" where
  "elem_find h plist obj_elem = elem_find_from h plist (lnext h (lhead plist)) obj_elem"

definition list_empty :: "lheap \<Rightarrow> addr \<Rightarrow> bool" where
  "list_empty h plist = (lnext h (lhead plist) = ltail plist)"

text \<open>The callback of \<^verbatim>\<open>list_traversal\<close> may change state of its caller, which is threaded through.\<close>

partial_function (option) traverse_from ::
  "lheap \<Rightarrow> addr \<Rightarrow> (addr \<Rightarrow> 's \<Rightarrow> bool \<times> 's) \<Rightarrow> addr \<Rightarrow> 's \<Rightarrow> (addr option \<times> 's) option" where
  "traverse_from h plist func elem s =
     (if elem = ltail plist then Some (None, s)
      else if fst (func elem s) then Some (Some elem, snd (func elem s))
      else traverse_from h plist func (lnext h elem) (snd (func elem s)))"

definition list_traversal ::
  "lheap \<Rightarrow> addr \<Rightarrow> (addr \<Rightarrow> 's \<Rightarrow> bool \<times> 's) \<Rightarrow> 's \<Rightarrow> (addr option \<times> 's) option" where
  "list_traversal h plist func s =
     (if list_empty h plist then Some (None, s)
      else traverse_from h plist func (lnext h (lhead plist)) s)"

partial_function (option) list_len_from :: "lheap \<Rightarrow> addr \<Rightarrow> addr \<Rightarrow> u32 \<Rightarrow> u32 option" where
  "list_len_from h plist elem len =
     (if elem = ltail plist then Some len
      else list_len_from h plist (lnext h elem) (len + 1))"

definition list_len :: "lheap \<Rightarrow> addr \<Rightarrow> u32 option" where
  "list_len h plist = list_len_from h plist (lnext h (lhead plist)) 0"

section \<open>The sequence a list holds\<close>

text \<open>\<open>seg h a xs b\<close>: from \<open>a\<close> the \<open>next\<close> pointers lead through \<open>xs\<close> to \<open>b\<close>, and the \<open>prev\<close>
  pointers lead back.\<close>

fun seg :: "lheap \<Rightarrow> addr \<Rightarrow> addr list \<Rightarrow> addr \<Rightarrow> bool" where
  "seg h a [] b \<longleftrightarrow> lnext h a = b \<and> lprev h b = a"
| "seg h a (x # xs) b \<longleftrightarrow> lnext h a = x \<and> lprev h x = a \<and> seg h x xs b"

definition dlist :: "lheap \<Rightarrow> addr \<Rightarrow> addr list \<Rightarrow> bool" where
  "dlist h p xs \<longleftrightarrow> seg h (lhead p) xs (ltail p) \<and> distinct (lhead p # ltail p # xs)"

text \<open>The element addresses a list occupies in the store.\<close>

definition nodes :: "addr \<Rightarrow> addr list \<Rightarrow> addr set" where
  "nodes p xs = insert (lhead p) (insert (ltail p) (set xs))"

lemma lhead_neq_ltail [simp]: "lhead p \<noteq> ltail p" "ltail p \<noteq> lhead p"
  by (simp_all add: lhead_def ltail_def)

lemma set_simps [simp]:
  "lprev (set_prev h a v) = (lprev h)(a := v)" "lnext (set_prev h a v) = lnext h"
  "lnext (set_next h a v) = (lnext h)(a := v)" "lprev (set_next h a v) = lprev h"
  by (simp_all add: set_prev_def set_next_def)

lemma seg_append: "seg h a (xs @ x # ys) b \<longleftrightarrow> seg h a xs x \<and> seg h x ys b"
  by (induction xs arbitrary: a) auto

lemma seg_first: "seg h a (xs @ [b]) c \<Longrightarrow> lnext h a = hd (xs @ [b])"
  by (cases xs) auto

lemma seg_start: "seg h a xs b \<Longrightarrow> lnext h a = (case xs of [] \<Rightarrow> b | x # _ \<Rightarrow> x)"
  by (cases xs) auto

lemma seg_end: "seg h a xs b \<Longrightarrow> lprev h b = (if xs = [] then a else last xs)"
  by (induction xs arbitrary: a) auto

text \<open>A segment reads the \<open>next\<close> of all its elements but the last and the \<open>prev\<close> of all but the
  first.\<close>

lemma seg_cong:
  "seg h a xs b \<Longrightarrow> (\<And>y. y \<in> insert a (set xs) \<Longrightarrow> lnext h' y = lnext h y) \<Longrightarrow>
   (\<And>y. y \<in> insert b (set xs) \<Longrightarrow> lprev h' y = lprev h y) \<Longrightarrow> seg h' a xs b"
  by (induction xs arbitrary: a) auto

section \<open>Each operation implements its operation on sequences\<close>

lemma insert_before_seg:
  assumes "seg h a (xs @ y # ys) b \<or> (seg h a xs y \<and> y = b \<and> ys = [])"
    and "distinct (a # xs @ y # ys)" "b = y \<or> (b \<noteq> a \<and> b \<notin> set xs)" "e \<notin> set (a # b # xs @ y # ys)"
  shows "seg (list_insert_before h y e) a (xs @ [e]) y"
proof -
  have s: "seg h a xs y" using assms(1) by (auto simp: seg_append)
  let ?l = "if xs = [] then a else last xs"
  have l: "lprev h y = ?l" using seg_end [OF s] .
  have eq: "list_insert_before h y e =
      set_prev (set_next (set_prev (set_next h ?l e) e ?l) e y) y e"
    using assms(4) by (auto simp: list_insert_before_def Let_def l)
  show ?thesis
  proof (cases xs rule: rev_cases)
    case Nil
    then show ?thesis using assms by (auto simp: eq)
  next
    case (snoc zs z)
    with s have z: "seg h a zs z" by (simp add: seg_append)
    have "seg (list_insert_before h y e) a zs z"
      using assms snoc by (intro seg_cong [OF z]) (auto simp: eq)
    then show ?thesis using snoc assms by (auto simp: seg_append eq)
  qed
qed

lemma list_append_dlist:
  assumes "dlist h p xs" and "e \<notin> nodes p xs"
  shows "dlist (list_append h p e) p (xs @ [e])"
  using insert_before_seg [of h "lhead p" xs "ltail p" "[]" "ltail p" e] assms
  by (auto simp: dlist_def nodes_def list_append_def)

lemma list_push_dlist:
  assumes "dlist h p xs" and "e \<notin> nodes p xs"
  shows "dlist (list_push h p e) p (e # xs)"
proof (cases xs)
  case Nil
  then show ?thesis
    using assms insert_before_seg [of h "lhead p" "[]" "ltail p" "[]" "ltail p" e]
    by (auto simp: dlist_def nodes_def list_push_def)
next
  case (Cons x ys)
  with assms have d: "lnext h (lhead p) = x" "seg h x ys (ltail p)" "lprev h x = lhead p"
      "distinct (lhead p # ltail p # xs)" "e \<notin> set (lhead p # ltail p # xs)"
    by (auto simp: dlist_def nodes_def)
  have "seg (list_insert_before h x e) x ys (ltail p)"
    using d Cons by (intro seg_cong [OF d(2)]) (auto simp: list_insert_before_def Let_def)
  then show ?thesis
    using d Cons by (auto simp: dlist_def list_push_def list_insert_before_def Let_def)
qed

lemma list_remove_seg:
  assumes "seg h a (xs @ e # ys) b" "distinct (a # b # xs @ e # ys)"
  shows "seg (list_remove h e) a (xs @ ys) b"
proof -
  have s: "seg h a xs e" "seg h e ys b" using assms(1) by (auto simp: seg_append)
  let ?l = "if xs = [] then a else last xs" and ?n = "case ys of [] \<Rightarrow> b | y # _ \<Rightarrow> y"
  have l: "lprev h e = ?l" "lnext h e = ?n" using seg_end [OF s(1)] seg_start [OF s(2)] by auto
  have "?l \<in> insert a (set xs)" by simp
  then have le: "?l \<noteq> e" and lys: "?l \<notin> set ys" using assms(2) by (auto simp del: last_in_set)
  have eq: "list_remove h e = set_prev (set_next h ?l ?n) ?n ?l"
    using le by (auto simp: list_remove_def Let_def l)
  have right: "seg (list_remove h e) ?l ys b"
  proof (cases ys)
    case Nil
    then show ?thesis by (simp add: eq)
  next
    case (Cons y zs)
    with s(2) have z: "seg h y zs b" by simp
    have "seg (list_remove h e) y zs b"
      using assms(2) Cons lys by (intro seg_cong [OF z]) (auto simp: eq)
    then show ?thesis using Cons by (simp add: eq)
  qed
  show ?thesis
  proof (cases xs rule: rev_cases)
    case Nil
    then show ?thesis using right by simp
  next
    case (snoc zs z)
    with s(1) have z: "seg h a zs z" by (simp add: seg_append)
    have "seg (list_remove h e) a zs z"
      using assms(2) snoc by (intro seg_cong [OF z]) (auto simp: eq split: list.splits)
    then show ?thesis using snoc right by (simp add: seg_append)
  qed
qed

lemma list_remove_dlist:
  assumes "dlist h p xs" and "e \<in> set xs"
  shows "dlist (list_remove h e) p (remove1 e xs)"
proof -
  obtain ys zs where xs: "xs = ys @ e # zs" "e \<notin> set ys"
    using split_list_first [OF assms(2)] by blast
  then show ?thesis
    using assms(1) list_remove_seg [of h "lhead p" ys e zs "ltail p"]
    by (auto simp: dlist_def remove1_append)
qed

lemma list_pop_dlist:
  assumes "dlist h p (x # xs)"
  shows "fst (list_pop h p) = x" and "dlist (snd (list_pop h p)) p xs"
  using assms list_remove_dlist [OF assms, of x] by (auto simp: list_pop_def Let_def dlist_def)

lemma list_init_dlist: "dlist (list_init h p) p []"
  by (simp add: dlist_def list_init_def Let_def)

lemma list_empty_dlist: "dlist h p xs \<Longrightarrow> list_empty h p \<longleftrightarrow> xs = []"
  by (cases xs) (auto simp: list_empty_def dlist_def)

lemma elem_find_from_eq:
  "seg h a xs (ltail p) \<Longrightarrow> ltail p \<notin> set xs \<Longrightarrow>
   elem_find_from h p (lnext h a) e = Some (e \<in> set xs)"
proof (induction xs arbitrary: a)
  case Nil
  then show ?case by (simp add: elem_find_from.simps)
next
  case (Cons x xs)
  then have "lnext h a = x" "x \<noteq> ltail p" "elem_find_from h p (lnext h x) e = Some (e \<in> set xs)"
    by auto
  then show ?case by (auto simp: elem_find_from.simps [of h p x])
qed

lemma elem_find_dlist: "dlist h p xs \<Longrightarrow> elem_find h p e = Some (e \<in> set xs)"
  by (simp add: elem_find_def dlist_def elem_find_from_eq)

lemma list_len_from_eq:
  "seg h a xs (ltail p) \<Longrightarrow> ltail p \<notin> set xs \<Longrightarrow>
   list_len_from h p (lnext h a) n = Some (n + of_nat (length xs))"
proof (induction xs arbitrary: a n)
  case Nil
  then show ?case by (simp add: list_len_from.simps)
next
  case (Cons x xs)
  then have "lnext h a = x" "x \<noteq> ltail p"
    "list_len_from h p (lnext h x) (n + 1) = Some (n + 1 + of_nat (length xs))" by auto
  then show ?case by (simp add: list_len_from.simps [of h p x])
qed

lemma list_len_dlist: "dlist h p xs \<Longrightarrow> list_len h p = Some (of_nat (length xs))"
  using list_len_from_eq [of h "lhead p" xs p 0] by (simp add: list_len_def dlist_def)

text \<open>The reference traversal: the callback on each element in order until it answers true.\<close>

fun trav :: "(addr \<Rightarrow> 's \<Rightarrow> bool \<times> 's) \<Rightarrow> addr list \<Rightarrow> 's \<Rightarrow> addr option \<times> 's" where
  "trav f [] s = (None, s)"
| "trav f (x # xs) s = (if fst (f x s) then (Some x, snd (f x s)) else trav f xs (snd (f x s)))"

lemma traverse_from_eq:
  "seg h a xs (ltail p) \<Longrightarrow> ltail p \<notin> set xs \<Longrightarrow>
   traverse_from h p f (lnext h a) s = Some (trav f xs s)"
proof (induction xs arbitrary: a s)
  case Nil
  then show ?case by (simp add: traverse_from.simps)
next
  case (Cons x xs)
  then have "lnext h a = x" "x \<noteq> ltail p"
    "traverse_from h p f (lnext h x) (snd (f x s)) = Some (trav f xs (snd (f x s)))" by auto
  then show ?case by (simp add: traverse_from.simps [of h p f x])
qed

lemma list_traversal_dlist: "dlist h p xs \<Longrightarrow> list_traversal h p f s = Some (trav f xs s)"
  using list_empty_dlist [of h p xs]
  by (auto simp: list_traversal_def dlist_def traverse_from_eq)

text \<open>Operations on one list leave a list on other elements alone.\<close>

lemma dlist_cong:
  "dlist h q ys \<Longrightarrow> (\<And>y. y \<in> nodes q ys \<Longrightarrow> lnext h' y = lnext h y \<and> lprev h' y = lprev h y) \<Longrightarrow>
   dlist h' q ys"
  unfolding dlist_def by (auto simp: nodes_def intro: seg_cong)

lemma insert_before_frame:
  "y \<noteq> b \<Longrightarrow> y \<noteq> e \<Longrightarrow> y \<noteq> lprev h b \<Longrightarrow>
   lnext (list_insert_before h b e) y = lnext h y \<and> lprev (list_insert_before h b e) y = lprev h y"
  by (auto simp: list_insert_before_def Let_def)

lemma dlist_ends:
  assumes "dlist h p xs"
  shows "lprev h (ltail p) \<in> nodes p xs" and "lnext h (lhead p) \<in> nodes p xs"
    and "lprev h (lnext h (lhead p)) \<in> nodes p xs"
  using assms seg_end [of h "lhead p" xs "ltail p"]
  by (cases xs; auto simp: dlist_def nodes_def)+

lemma list_append_frame:
  "dlist h p xs \<Longrightarrow> dlist h q ys \<Longrightarrow> nodes q ys \<inter> insert e (nodes p xs) = {} \<Longrightarrow>
   dlist (list_append h p e) q ys"
  by (rule dlist_cong, assumption, unfold list_append_def, rule insert_before_frame)
     (use dlist_ends(1) [of h p xs] in \<open>auto simp: nodes_def\<close>)

lemma list_push_frame:
  "dlist h p xs \<Longrightarrow> dlist h q ys \<Longrightarrow> nodes q ys \<inter> insert e (nodes p xs) = {} \<Longrightarrow>
   dlist (list_push h p e) q ys"
  by (rule dlist_cong, assumption, unfold list_push_def, rule insert_before_frame)
     (use dlist_ends(2,3) [of h p xs] in auto)

lemma dlist_inner:
  assumes "dlist h p xs" and "e \<in> set xs"
  shows "lprev h e \<in> nodes p xs" and "lnext h e \<in> nodes p xs" and "lprev h e \<noteq> e"
proof -
  obtain ys zs where "xs = ys @ e # zs" using split_list [OF assms(2)] by blast
  note xs = this
  let ?l = "if ys = [] then lhead p else last ys"
  have s: "seg h (lhead p) ys e" "seg h e zs (ltail p)"
    using assms(1) xs by (auto simp: dlist_def seg_append)
  have l: "lprev h e = ?l" "?l \<in> insert (lhead p) (set ys)" using seg_end [OF s(1)] by auto
  then show "lprev h e \<in> nodes p xs" by (auto simp: nodes_def xs)
  show "lnext h e \<in> nodes p xs"
    using seg_start [OF s(2)] by (auto simp: nodes_def xs split: list.splits)
  show "lprev h e \<noteq> e"
    using l assms(1) xs by (auto simp: dlist_def simp del: last_in_set)
qed

lemma list_remove_frame:
  assumes "dlist h p xs" "e \<in> set xs" "dlist h q ys" "nodes q ys \<inter> nodes p xs = {}"
  shows "dlist (list_remove h e) q ys"
proof (rule dlist_cong [OF assms(3)])
  fix y assume "y \<in> nodes q ys"
  with assms dlist_inner [OF assms(1,2)] have "y \<noteq> lprev h e" "y \<noteq> lnext h e" by auto
  then show "lnext (list_remove h e) y = lnext h y \<and> lprev (list_remove h e) y = lprev h y"
    using dlist_inner(3) [OF assms(1,2)] by (auto simp: list_remove_def Let_def)
qed

section \<open>The sequence interface\<close>

text \<open>
  What the users of a list rely on: \<open>repr h p xs\<close> says that the list at \<open>p\<close> holds the sequence
  \<open>xs\<close>, \<open>fresh p xs e\<close> that \<open>e\<close> can be linked in.
\<close>

locale seq_store =
  fixes repr :: "'h \<Rightarrow> 'p \<Rightarrow> 'e list \<Rightarrow> bool"
    and fresh :: "'p \<Rightarrow> 'e list \<Rightarrow> 'e \<Rightarrow> bool"
    and push :: "'h \<Rightarrow> 'p \<Rightarrow> 'e \<Rightarrow> 'h"
    and append_elem :: "'h \<Rightarrow> 'p \<Rightarrow> 'e \<Rightarrow> 'h"
    and pop :: "'h \<Rightarrow> 'p \<Rightarrow> 'e \<times> 'h"
    and remove_elem :: "'h \<Rightarrow> 'e \<Rightarrow> 'h"
    and find_elem :: "'h \<Rightarrow> 'p \<Rightarrow> 'e \<Rightarrow> bool option"
    and is_empty :: "'h \<Rightarrow> 'p \<Rightarrow> bool"
  assumes push_repr: "repr h p xs \<Longrightarrow> fresh p xs e \<Longrightarrow> repr (push h p e) p (e # xs)"
    and append_repr: "repr h p xs \<Longrightarrow> fresh p xs e \<Longrightarrow> repr (append_elem h p e) p (xs @ [e])"
    and pop_repr: "repr h p (x # xs) \<Longrightarrow> fst (pop h p) = x \<and> repr (snd (pop h p)) p xs"
    and remove_repr: "repr h p xs \<Longrightarrow> e \<in> set xs \<Longrightarrow> repr (remove_elem h e) p (remove1 e xs)"
    and find_repr: "repr h p xs \<Longrightarrow> find_elem h p e = Some (e \<in> set xs)"
    and empty_repr: "repr h p xs \<Longrightarrow> is_empty h p \<longleftrightarrow> xs = []"
    and fresh_anti: "fresh p xs e \<Longrightarrow> set ys \<subseteq> set xs \<Longrightarrow> fresh p ys e"
    and popped_fresh: "repr h p (x # xs) \<Longrightarrow> fresh p xs x"
begin

lemma append_found: "repr h p xs \<Longrightarrow> fresh p xs e \<Longrightarrow> find_elem (append_elem h p e) p e = Some True"
  using find_repr [OF append_repr] by simp

lemma push_pop: "repr h p xs \<Longrightarrow> fresh p xs e \<Longrightarrow>
  fst (pop (push h p e) p) = e \<and> repr (snd (pop (push h p e) p)) p xs"
  using pop_repr [OF push_repr] .

text \<open>First in, first out: popping as often as the list is long gives its elements in order.\<close>

fun pops :: "nat \<Rightarrow> 'h \<Rightarrow> 'p \<Rightarrow> 'e list \<times> 'h" where
  "pops 0 h p = ([], h)"
| "pops (Suc n) h p = (let (x, h1) = pop h p; (xs, h2) = pops n h1 p in (x # xs, h2))"

lemma pops_repr: "repr h p (xs @ ys) \<Longrightarrow>
  fst (pops (length xs) h p) = xs \<and> repr (snd (pops (length xs) h p)) p ys"
proof (induction xs arbitrary: h)
  case (Cons x xs)
  then have "fst (pop h p) = x" "repr (snd (pop h p)) p (xs @ ys)"
    using pop_repr [of h p x "xs @ ys"] by auto
  with Cons.IH [of "snd (pop h p)"] show ?case
    by (auto simp: Let_def split: prod.splits)
qed simp

text \<open>Round robin: taking the first element and appending it again, as \<^verbatim>\<open>schedule\<close> does with a thread
  whose time slice is over, rotates the sequence.\<close>

definition turn :: "'p \<Rightarrow> 'h \<Rightarrow> 'h" where
  "turn p h = append_elem (snd (pop h p)) p (fst (pop h p))"

lemma turn_repr: "repr h p xs \<Longrightarrow> xs \<noteq> [] \<Longrightarrow> repr (turn p h) p (rotate1 xs)"
  using pop_repr append_repr popped_fresh by (cases xs) (auto simp: turn_def)

lemma turns_repr: "repr h p xs \<Longrightarrow> xs \<noteq> [] \<Longrightarrow> repr ((turn p ^^ n) h) p (rotate n xs)"
proof (induction n)
  case (Suc n)
  then show ?case using turn_repr [of "(turn p ^^ n) h" p "rotate n xs"] by simp
qed simp

lemma turn_fair:
  assumes "repr h p xs" "xs \<noteq> []"
  shows "fst (pop ((turn p ^^ n) h) p) = xs ! (n mod length xs)"
proof -
  have "rotate n xs \<noteq> []" using assms(2) by simp
  then obtain y ys where y: "rotate n xs = y # ys" by (cases "rotate n xs") auto
  then have "fst (pop ((turn p ^^ n) h) p) = y"
    using turns_repr [OF assms, of n] pop_repr by simp
  then show ?thesis using y hd_rotate_conv_nth [OF assms(2), of n] by simp
qed

end

interpretation dl: seq_store dlist "\<lambda>p xs e. e \<notin> nodes p xs" list_push list_append list_pop
  list_remove elem_find list_empty
  by unfold_locales
     (auto simp: list_push_dlist list_append_dlist list_pop_dlist list_remove_dlist elem_find_dlist
        list_empty_dlist nodes_def, auto simp: dlist_def)

section \<open>Properties\<close>

text \<open>
  C34. Every operation of \<^verbatim>\<open>list.c\<close> does on the linked store what its name says on the sequence the
  list holds: insertion at either end, removal of an element, popping the first element, the
  membership test, the emptiness test, the length (modulo the width of \<^verbatim>\<open>uint32_t\<close>) and the
  traversal with a callback; the three loops end.
\<close>

theorem list_ops_refine:
  assumes "dlist h p xs"
  shows "(\<forall>e. e \<notin> nodes p xs \<longrightarrow>
           dlist (list_push h p e) p (e # xs) \<and> dlist (list_append h p e) p (xs @ [e])) \<and>
         (\<forall>e \<in> set xs. dlist (list_remove h e) p (remove1 e xs)) \<and>
         (\<forall>y ys. xs = y # ys \<longrightarrow> fst (list_pop h p) = y \<and> dlist (snd (list_pop h p)) p ys) \<and>
         (\<forall>e. elem_find h p e = Some (e \<in> set xs)) \<and> list_empty h p = (xs = []) \<and>
         list_len h p = Some (of_nat (length xs)) \<and>
         (\<forall>f s. list_traversal h p f s = Some (trav f xs s))"
  using assms dl.push_repr [OF assms] dl.append_repr [OF assms] dl.remove_repr [OF assms]
    dl.pop_repr list_len_dlist list_traversal_dlist dl.find_repr dl.empty_repr
  by auto

text \<open>A list at address 0x1000 after two insertions into an initialised list.\<close>

definition sample_list :: lheap where
  "sample_list = list_append (list_append (list_init \<lparr>lprev = (\<lambda>_. 0), lnext = (\<lambda>_. 0)\<rparr> 0x1000)
     0x1000 0x2000) 0x1000 0x3000"

lemma sample_list_dlist: "dlist sample_list 0x1000 [0x2000, 0x3000]"
  using list_append_dlist [OF list_append_dlist [OF list_init_dlist], where e = "0x3000"]
  by (auto simp: sample_list_def nodes_def lhead_def ltail_def)

theorem list_ops_refine_witness:
  "dlist (list_push sample_list 0x1000 0x4000) 0x1000 [0x4000, 0x2000, 0x3000]
   \<and> dlist (list_remove sample_list 0x2000) 0x1000 [0x3000]
   \<and> fst (list_pop sample_list 0x1000) = 0x2000
   \<and> list_len sample_list 0x1000 = Some 2"
  using list_ops_refine [OF sample_list_dlist]
  by (auto simp: nodes_def lhead_def ltail_def)

text \<open>
  Insertion into and removal from one list leave every list on other elements as it is: the
  lists of the kernel that share one store do not interfere while their elements are disjoint.
\<close>

theorem list_ops_frame:
  assumes "dlist h p xs" and "dlist h q ys" and "nodes q ys \<inter> nodes p xs = {}" and "e \<notin> nodes q ys"
  shows "dlist (list_push h p e) q ys \<and> dlist (list_append h p e) q ys \<and>
         (e \<in> set xs \<longrightarrow> dlist (list_remove h e) q ys)"
  using assms list_push_frame [OF assms(1,2)] list_append_frame [OF assms(1,2)]
    list_remove_frame [OF assms(1) _ assms(2)] by auto

theorem list_ops_frame_witness:
  "dlist (list_push (list_init sample_list 0x5000) 0x5000 0x6000) 0x1000 [0x2000, 0x3000]"
proof -
  have "dlist (list_init sample_list 0x5000) 0x1000 [0x2000, 0x3000]"
    using sample_list_dlist by (rule dlist_cong)
      (auto simp: list_init_def Let_def nodes_def lhead_def ltail_def)
  from list_ops_frame [OF list_init_dlist this, where e = "0x6000"] show ?thesis
    by (simp add: nodes_def lhead_def ltail_def)
qed

text \<open>
  Popping the first element and appending it again, which is what the scheduler does with a
  thread whose time slice is used up, serves the elements of a list in strict rotation: the element
  found in turn \<open>n\<close> is the one at position \<open>n\<close> modulo the length.
\<close>

theorem list_round_robin:
  assumes "dlist h p xs" and "xs \<noteq> []"
  shows "fst (list_pop (((\<lambda>h. list_append (snd (list_pop h p)) p (fst (list_pop h p))) ^^ n) h) p)
         = xs ! (n mod length xs)"
  using dl.turn_fair [OF assms, of n] unfolding dl.turn_def [abs_def] .

theorem list_round_robin_witness:
  "fst (list_pop (((\<lambda>h. list_append (snd (list_pop h 0x1000)) 0x1000 (fst (list_pop h 0x1000)))
      ^^ 3) sample_list) 0x1000) = 0x3000"
  using list_round_robin [OF sample_list_dlist, of 3] by (simp add: mod_Suc numeral_eq_Suc del: funpow.simps)

end
