(* ===== verification/Paging.thy ===== *)
theory Paging
  imports Kernel_Prelude
begin

text \<open>
  The two-level page tables of the processor and the macros of \<^verbatim>\<open>kernel/memory.c\<close> that reach them.
  Page directory entry 1023 points to the page directory itself, so the tables appear in the
  virtual window from \<open>0xffc00000\<close> on: \<^verbatim>\<open>pte_ptr\<close> and \<^verbatim>\<open>pde_ptr\<close> compute addresses in this window, and
  every access goes through the translation \<open>mmu\<close> like any other access. Physical memory is a
  function from word addresses to words; translation lookaside buffers are not modelled.
\<close>

section \<open>Indices, window addresses and translation\<close>

definition PDE_IDX :: "u32 \<Rightarrow> u32" where
  "PDE_IDX addr = drop_bit 22 (addr AND 0xffc00000)"

definition PTE_IDX :: "u32 \<Rightarrow> u32" where
  "PTE_IDX addr = drop_bit 12 (addr AND 0x003ff000)"

definition pte_ptr :: "u32 \<Rightarrow> u32" where
  "pte_ptr vaddr = 0xffc00000 + drop_bit 10 (vaddr AND 0xffc00000) + PTE_IDX vaddr * 4"

definition pde_ptr :: "u32 \<Rightarrow> u32" where
  "pde_ptr vaddr = 0xfffff000 + PDE_IDX vaddr * 4"

text \<open>The page frame and the present bit of an entry.\<close>

definition frame :: "u32 \<Rightarrow> u32" where
  "frame e = e AND 0xfffff000"

definition present :: "u32 \<Rightarrow> bool" where
  "present e \<longleftrightarrow> e AND 1 \<noteq> 0"

text \<open>The processor's address translation with page directory \<open>pd\<close> (register CR3).\<close>

definition mmu :: "u32 \<Rightarrow> (u32 \<Rightarrow> u32) \<Rightarrow> u32 \<Rightarrow> u32 option" where
  "mmu pd phys v =
     (let pde = phys (pd + 4 * PDE_IDX v)
      in if \<not> present pde then None
         else let pte = phys (frame pde + 4 * PTE_IDX v)
              in if \<not> present pte then None else Some (frame pte + (v AND 0xfff)))"

section \<open>Word arithmetic of the indices\<close>

lemma uint_drop_bit: "uint (drop_bit n v) = uint v div 2 ^ n" for v :: "'a::len word"
proof -
  have "take_bit LENGTH('a) (uint v) = uint v" using uint_lt2p [of v] by (simp add: take_bit_int_eq_self_iff)
  then show ?thesis using drop_bit_eq_div [of n "uint v"] by (simp only: unsigned_drop_bit_eq)
qed

lemma uint_take_bit': "uint (take_bit n v) = uint v mod 2 ^ n" if "n < LENGTH('a)" for v :: "'a::len word"
  using take_bit_eq_mod [of n "uint v"] by (simp only: unsigned_take_bit_eq)

lemma uint_minus_take_bit:
  fixes v :: "'a::len word"
  assumes "n < LENGTH('a)"
  shows "uint (v - take_bit n v) = uint v - uint v mod 2 ^ n"
proof -
  have "uint (take_bit n v) = uint v mod 2 ^ n"
    using assms by (rule uint_take_bit')
  moreover have "uint v mod 2 ^ n \<le> uint v" by (simp add: zmod_le_nonneg_dividend)
  ultimately show ?thesis by (simp add: uint_sub_if')
qed

lemma and_high_mask:
  fixes v :: "'a::len word"
  shows "v AND push_bit n (mask (LENGTH('a) - n)) = v - take_bit n v"
proof -
  have "v AND push_bit n (mask (LENGTH('a) - n)) = push_bit n (drop_bit n v)"
    by (rule bit_word_eqI) (auto simp: bit_simps dest: bit_imp_le_length)
  then show ?thesis using bits_ident [of n v] by (simp add: eq_diff_eq)
qed

lemma high_masks:
  "(0xffc00000 :: u32) = push_bit 22 (mask (LENGTH(32) - 22))"
  "(0xfffff000 :: u32) = push_bit 12 (mask (LENGTH(32) - 12))"
  "(0x003ff000 :: u32) = push_bit 12 (mask 10)"
  "(0xfff :: u32) = mask 12"
  by (simp_all add: push_bit_eq_mult mask_eq_exp_minus_1)

lemma uint_and_ffc [simp]: "uint (v AND 0xffc00000 :: u32) = uint v - uint v mod 4194304"
  using and_high_mask [of v 22] uint_minus_take_bit [of 22 v] by (simp add: high_masks(1))

lemma uint_frame: "uint (frame v) = uint v - uint v mod 4096"
  using and_high_mask [of v 12] uint_minus_take_bit [of 12 v] by (simp add: high_masks(2) frame_def)

lemma uint_and_fff: "uint (v AND 0xfff :: u32) = uint v mod 4096"
  using uint_take_bit' [of 12 v] by (simp add: high_masks(4) take_bit_eq_mod flip: take_bit_eq_mask)

lemma uint_PDE_IDX: "uint (PDE_IDX v) = uint v div 4194304"
  by (simp only: PDE_IDX_def uint_drop_bit uint_and_ffc) (simp add: minus_mod_eq_div_mult)

lemma uint_PTE_IDX: "uint (PTE_IDX v) = uint v div 4096 mod 1024"
proof -
  have "PTE_IDX v = take_bit 10 (drop_bit 12 v)" unfolding PTE_IDX_def high_masks(3)
    by (rule bit_word_eqI) (auto simp: bit_simps dest: bit_imp_le_length)
  then show ?thesis
    using uint_take_bit' [of 10 "drop_bit 12 v"] uint_drop_bit [of 12 v] by simp
qed

lemma uint_add_no_wrap: "uint a + uint b < 4294967296 \<Longrightarrow> uint (a + b) = uint a + uint b" for a b :: u32
  by (simp add: uint_plus_if')

lemma uint_times_4: "uint a < 1073741824 \<Longrightarrow> uint (4 * a) = 4 * uint a" for a :: u32
  using uint_mult_lem [of 4 a] by simp

lemma uint_u32_less: "uint v < 4294967296" for v :: u32
  using uint_lt2p [of v] by simp

lemma uint_4_PDE: "uint (4 * PDE_IDX v) = 4 * (uint v div 4194304)"
  using uint_u32_less [of v] by (simp add: uint_times_4 uint_PDE_IDX)

lemma uint_4_PTE: "uint (4 * PTE_IDX v) = 4 * (uint v div 4096 mod 1024)"
  by (simp add: uint_times_4 uint_PTE_IDX)

lemma uint_pde_ptr: "uint (pde_ptr v) = 0xfffff000 + 4 * (uint v div 4194304)"
  using uint_u32_less [of v] uint_4_PDE [of v]
  by (simp add: pde_ptr_def uint_add_no_wrap mult.commute [of _ 4])

lemma div_4194304: "n div 4194304 = n div 4096 div 1024" for n :: int
  using zdiv_zmult2_eq [of 1024 n 4096] by simp

lemma window_div:
  fixes n :: int
  shows "(0xffc00000 + 4 * n) div 4096 = 1047552 + n div 1024"
    and "(0xffc00000 + 4 * n) mod 4096 = 4 * (n mod 1024)"
  using div_mult_self3 [of 4096 1047552 "4 * n"] mod_mult_self3 [of 1047552 4096 "4 * n"]
    div_mult_mult1 [of 4 n 1024] mult_mod_right [of 4 n 1024] by simp_all

lemma top_table: "0 \<le> d \<Longrightarrow> d < 1024 \<Longrightarrow> (1047552 + d) mod 1024 = d \<and> (1047552 + d) div 1024 = 1023" for d :: int
  using mod_mult_self3 [of 1023 1024 d] div_mult_self3 [of 1024 1023 d] by simp

lemma uint_pte_ptr: "uint (pte_ptr v) = 0xffc00000 + 4 * (uint v div 4096)"
proof -
  let ?d = "uint v div 4194304" and ?t = "uint v div 4096 mod 1024"
  have d: "uint (drop_bit 10 (v AND 0xffc00000)) = ?d * 4096"
    using uint_drop_bit [of 10 "v AND 0xffc00000"] by (simp add: minus_mod_eq_div_mult)
  have "?d \<le> 1023" "?t < 1024" using uint_u32_less [of v] by auto
  then have "uint (pte_ptr v) = 0xffc00000 + (?d * 4096 + 4 * ?t)"
    using d uint_4_PTE [of v] by (simp add: pte_ptr_def uint_add_no_wrap mult.commute [of _ 4])
  also have "?d * 4096 + 4 * ?t = 4 * (uint v div 4096)"
    using mult_div_mod_eq [of 1024 "uint v div 4096"] unfolding div_4194304 by linarith
  finally show ?thesis by simp
qed

lemma u32_eq_iff: "a = b \<longleftrightarrow> uint a = uint b" for a b :: u32
  by (simp add: word_uint_eq_iff)

text \<open>What the processor does with an address of the window.\<close>

lemma PDE_IDX_bounds: "0 \<le> uint v div 4194304" "uint v div 4194304 < 1024" for v :: u32
  using uint_u32_less [of v] by (auto simp: pos_imp_zdiv_nonneg_iff)

lemma window_pte:
  "PDE_IDX (pte_ptr v) = 1023" "PTE_IDX (pte_ptr v) = PDE_IDX v" "pte_ptr v AND 0xfff = 4 * PTE_IDX v"
  using top_table [OF PDE_IDX_bounds [of v]]
  by (simp_all only: u32_eq_iff uint_PDE_IDX uint_PTE_IDX uint_and_fff uint_4_PTE uint_pte_ptr
      div_4194304 window_div) simp_all

lemma window_pde:
  "PDE_IDX (pde_ptr v) = 1023" "PTE_IDX (pde_ptr v) = 1023" "pde_ptr v AND 0xfff = 4 * PDE_IDX v"
proof -
  let ?d = "uint v div 4194304"
  have "(0xfffff000 + 4 * ?d) div 4096 = 1048575" "(0xfffff000 + 4 * ?d) mod 4096 = 4 * ?d"
    using PDE_IDX_bounds [of v] div_mult_self3 [of 4096 1048575 "4 * ?d"]
      mod_mult_self3 [of 1048575 4096 "4 * ?d"] by simp_all
  then show "PDE_IDX (pde_ptr v) = 1023" "PTE_IDX (pde_ptr v) = 1023"
    "pde_ptr v AND 0xfff = 4 * PDE_IDX v"
    by (simp_all only: u32_eq_iff uint_PDE_IDX uint_PTE_IDX uint_and_fff uint_4_PDE uint_pde_ptr
        div_4194304 [of "0xfffff000 + 4 * ?d"]) simp_all
qed

section \<open>Page frames and entries\<close>

lemma frame_frame [simp]: "frame (frame e) = frame e"
  by (simp add: frame_def ac_simps)

lemma frame_aligned: "frame f = f \<longleftrightarrow> uint f mod 4096 = 0"
  by (simp add: u32_eq_iff uint_frame)

lemma aligned_frame: "uint (frame e) mod 4096 = 0"
  using frame_aligned [of "frame e"] by simp

lemma page_end: "uint f mod 4096 = 0 \<Longrightarrow> uint f \<le> 4294963200" for f :: u32
proof -
  assume "uint f mod 4096 = 0"
  then have f: "uint f = 4096 * (uint f div 4096)" using mult_div_mod_eq [of 4096 "uint f"] by simp
  have "uint f div 4096 < 1048576" using uint_u32_less [of f] by simp
  then show ?thesis using f by linarith
qed

lemma uint_in_page:
  assumes "frame f = f" and "uint off < 4096"
  shows "uint (f + off) = uint f + uint off" and "frame (f + off) = f" and "(f + off) AND 0xfff = off"
proof -
  have al: "uint f mod 4096 = 0" using assms(1) by (simp add: frame_aligned)
  show sum: "uint (f + off) = uint f + uint off"
    using page_end [OF al] assms(2) by (simp add: uint_add_no_wrap)
  have "(uint f + uint off) mod 4096 = uint off"
    using al assms(2) by (simp flip: mod_add_left_eq)
  then show "frame (f + off) = f" "(f + off) AND 0xfff = off"
    by (simp_all add: u32_eq_iff uint_frame uint_and_fff sum)
qed

lemma cell_eq_iff:
  assumes "frame f = f" and "frame g = g" and "uint a < 4096" and "uint b < 4096"
  shows "f + a = g + b \<longleftrightarrow> f = g \<and> a = b"
  using uint_in_page [OF assms(1,3)] uint_in_page [OF assms(2,4)] by metis

lemma idx_small [simp]: "uint (4 * PDE_IDX v) < 4096" "uint (4 * PTE_IDX v) < 4096"
  using PDE_IDX_bounds [of v] by (simp_all add: uint_4_PDE uint_4_PTE)

lemma off_small [simp]: "uint (v AND 0xfff :: u32) < 4096"
  by (simp add: uint_and_fff)

lemma times_4_inj: "4 * PDE_IDX u = 4 * PDE_IDX v \<longleftrightarrow> PDE_IDX u = PDE_IDX v"
    "4 * PTE_IDX u = 4 * PTE_IDX v \<longleftrightarrow> PTE_IDX u = PTE_IDX v"
  by (simp_all add: u32_eq_iff uint_4_PDE uint_4_PTE uint_PDE_IDX uint_PTE_IDX)

text \<open>The entry the code writes: a page-aligned address with the user, write and present bits.\<close>

lemma entry_bits: "frame p = p \<Longrightarrow> frame (p OR 7) = p \<and> present (p OR 7)"
proof -
  assume "frame p = p"
  moreover have "(7 :: u32) AND 0xfffff000 = 0" by simp
  ultimately have "frame (p OR 7) = p" by (simp add: frame_def bit.conj_disj_distrib2)
  moreover have "bit (p OR 7) 0" by (simp add: bit_simps)
  then have "(p OR 7) AND 1 \<noteq> 0" using and_push_bit_1_iff [of 0 "p OR 7"] by (simp add: ac_simps)
  ultimately show ?thesis by (simp add: present_def)
qed

lemma not_present_0 [simp]: "\<not> present 0"
  by (simp add: present_def)

section \<open>The recursive mapping\<close>

definition rec_mapped :: "u32 \<Rightarrow> (u32 \<Rightarrow> u32) \<Rightarrow> bool" where
  "rec_mapped pd phys \<longleftrightarrow> frame pd = pd \<and> present (phys (pd + 4092)) \<and> frame (phys (pd + 4092)) = pd"

lemma mmu_pde_ptr: "rec_mapped pd phys \<Longrightarrow> mmu pd phys (pde_ptr v) = Some (pd + 4 * PDE_IDX v)"
  by (simp add: mmu_def window_pde rec_mapped_def)

lemma mmu_pte_ptr:
  "rec_mapped pd phys \<Longrightarrow>
   mmu pd phys (pte_ptr v) =
     (let pde = phys (pd + 4 * PDE_IDX v)
      in if present pde then Some (frame pde + 4 * PTE_IDX v) else None)"
  by (simp add: mmu_def window_pte rec_mapped_def Let_def)

lemma page_base_window: "pte_ptr v AND 0xfffff000 = pte_ptr (v AND 0xffc00000)"
proof -
  have "frame (pte_ptr v) = pte_ptr (v AND 0xffc00000)"
  proof -
    have "(uint v - uint v mod 4194304) div 4096 = 1024 * (uint v div 4194304)"
      using mult_div_mod_eq [of 4194304 "uint v"] by (simp add: minus_mod_eq_mult_div)
    moreover have "4 * (uint v div 4096) - 4 * (uint v div 4096 mod 1024) = 4096 * (uint v div 4194304)"
      using mult_div_mod_eq [of 1024 "uint v div 4096"] unfolding div_4194304 by linarith
    ultimately show ?thesis
      by (simp add: u32_eq_iff uint_frame uint_pte_ptr window_div(2))
  qed
  then show ?thesis by (simp add: frame_def)
qed

end
