(* ===== verification/Memory.thy ===== *)
theory Memory
  imports Bitmap Paging
begin

text \<open>
  Model of the page allocators of \<^verbatim>\<open>kernel/memory.c\<close>: the physical pools, the virtual address pools,
  the page tables and the operations that combine them. A state holds the two pools, the kernel's
  virtual pool, what \<^verbatim>\<open>running_thread()\<close> contributes (\<^verbatim>\<open>pgdir\<close> and \<^verbatim>\<open>userprog_vaddr\<close>), the register CR3
  and physical memory by words. NULL is the address 0. \<open>pool_lock\<close> counts how often the running
  thread holds the pool's lock (\<^verbatim>\<open>holder_repeat_nr\<close>): a thread that runs after \<^verbatim>\<open>lock_acquire\<close> holds it.
\<close>

section \<open>The data\<close>

datatype pool_flags = PF_KERNEL | PF_USER

record pool =
  pool_bitmap :: bitmap
  phy_addr_start :: u32
  pool_size :: u32
  pool_lock :: nat

record virtual_addr =
  vaddr_bitmap :: bitmap
  vaddr_start :: u32

record mem =
  kernel_pool :: pool
  user_pool :: pool
  kernel_vaddr :: virtual_addr
  pgdir :: u32
  userprog_vaddr :: virtual_addr
  cr3 :: u32
  phys :: "u32 \<Rightarrow> u32"

definition mem_pool :: "pool_flags \<Rightarrow> mem \<Rightarrow> pool" where
  "mem_pool pf m = (if pf = PF_KERNEL then kernel_pool m else user_pool m)"

definition upd_pool :: "pool_flags \<Rightarrow> pool \<Rightarrow> mem \<Rightarrow> mem" where
  "upd_pool pf p m = (if pf = PF_KERNEL then m\<lparr>kernel_pool := p\<rparr> else m\<lparr>user_pool := p\<rparr>)"

definition vpool :: "pool_flags \<Rightarrow> mem \<Rightarrow> virtual_addr" where
  "vpool pf m = (if pf = PF_KERNEL then kernel_vaddr m else userprog_vaddr m)"

definition upd_vpool :: "pool_flags \<Rightarrow> virtual_addr \<Rightarrow> mem \<Rightarrow> mem" where
  "upd_vpool pf va m = (if pf = PF_KERNEL then m\<lparr>kernel_vaddr := va\<rparr> else m\<lparr>userprog_vaddr := va\<rparr>)"

section \<open>Memory accesses through the translation\<close>

definition load :: "mem \<Rightarrow> u32 \<Rightarrow> u32 result" where
  "load m v = (case mmu (cr3 m) (phys m) v of None \<Rightarrow> Inl PageFault | Some p \<Rightarrow> Inr (phys m p))"

definition store :: "mem \<Rightarrow> u32 \<Rightarrow> u32 \<Rightarrow> mem result" where
  "store m v x = (case mmu (cr3 m) (phys m) v of None \<Rightarrow> Inl PageFault
     | Some p \<Rightarrow> Inr (m\<lparr>phys := (phys m)(p := x)\<rparr>))"

text \<open>\<^verbatim>\<open>memset(v, 0, 4 * n)\<close> on a word-aligned address.\<close>

fun zero_words :: "nat \<Rightarrow> u32 \<Rightarrow> mem \<Rightarrow> mem result" where
  "zero_words 0 v m = Inr m"
| "zero_words (Suc n) v m = bindR (store m v 0) (zero_words n (v + 4))"

definition pool_acquire :: "pool_flags \<Rightarrow> mem \<Rightarrow> mem" where
  "pool_acquire pf m = upd_pool pf ((mem_pool pf m)\<lparr>pool_lock := Suc (pool_lock (mem_pool pf m))\<rparr>) m"

definition pool_release :: "pool_flags \<Rightarrow> mem \<Rightarrow> mem result" where
  "pool_release pf m =
     ASSERT (0 < pool_lock (mem_pool pf m)) ''plock->holder == running_thread()''
       (Inr (upd_pool pf ((mem_pool pf m)\<lparr>pool_lock := pool_lock (mem_pool pf m) - 1\<rparr>) m))"

section \<open>Virtual and physical allocation\<close>

text \<open>\<^verbatim>\<open>while (cnt < pg_cnt) bitmap_set(btmp, bit_idx_start + cnt++, v);\<close>\<close>

fun bitmap_set_run :: "bitmap \<Rightarrow> nat \<Rightarrow> nat \<Rightarrow> int \<Rightarrow> bitmap result" where
  "bitmap_set_run b i 0 v = Inr b"
| "bitmap_set_run b i (Suc n) v = bindR (bitmap_set b i v) (\<lambda>b. bitmap_set_run b (Suc i) n v)"

definition vaddr_get :: "pool_flags \<Rightarrow> nat \<Rightarrow> mem \<Rightarrow> (u32 \<times> mem) result" where
  "vaddr_get pf pg_cnt m =
     (let va = vpool pf m in
      bindR (bitmap_scan (vaddr_bitmap va) pg_cnt) (\<lambda>bit_idx_start.
      if bit_idx_start = -1 then Inr (0, m)
      else bindR (bitmap_set_run (vaddr_bitmap va) (nat bit_idx_start) pg_cnt 1) (\<lambda>b.
        let vaddr = vaddr_start va + word_of_int bit_idx_start * 4096;
            m' = upd_vpool pf (va\<lparr>vaddr_bitmap := b\<rparr>) m
        in if pf = PF_KERNEL then Inr (vaddr, m')
           else ASSERT (vaddr < 0xc0000000 - 4096) ''(uint32_t)vaddr_start < (0xc0000000 - PG_SIZE)''
                  (Inr (vaddr, m')))))"

definition palloc :: "pool \<Rightarrow> (u32 \<times> pool) result" where
  "palloc m_pool =
     bindR (bitmap_scan (pool_bitmap m_pool) 1) (\<lambda>bit_idx.
     if bit_idx = -1 then Inr (0, m_pool)
     else bindR (bitmap_set (pool_bitmap m_pool) (nat bit_idx) 1) (\<lambda>b.
       Inr (word_of_int bit_idx * 4096 + phy_addr_start m_pool, m_pool\<lparr>pool_bitmap := b\<rparr>)))"

definition page_table_add :: "u32 \<Rightarrow> u32 \<Rightarrow> mem \<Rightarrow> mem result" where
  "page_table_add vaddr page_phyaddr m =
     bindR (load m (pde_ptr vaddr)) (\<lambda>pde.
     if present pde then
       bindR (load m (pte_ptr vaddr)) (\<lambda>pte.
       ASSERT (\<not> present pte) ''!(*pte & 0x00000001)''
         (store m (pte_ptr vaddr) (page_phyaddr OR 7)))
     else
       bindR (palloc (kernel_pool m)) (\<lambda>(pde_phyaddr, p).
       bindR (store (m\<lparr>kernel_pool := p\<rparr>) (pde_ptr vaddr) (pde_phyaddr OR 7)) (\<lambda>m.
       bindR (zero_words 1024 (pte_ptr vaddr AND 0xfffff000) m) (\<lambda>m.
       bindR (load m (pte_ptr vaddr)) (\<lambda>pte.
       ASSERT (\<not> present pte) ''!(*pte & 0x00000001)''
         (store m (pte_ptr vaddr) (page_phyaddr OR 7)))))))"

text \<open>The loop of \<^verbatim>\<open>malloc_page\<close>: on failure the pages mapped so far stay allocated.\<close>

fun map_pages :: "pool_flags \<Rightarrow> nat \<Rightarrow> u32 \<Rightarrow> mem \<Rightarrow> (bool \<times> mem) result" where
  "map_pages pf 0 vaddr m = Inr (True, m)"
| "map_pages pf (Suc cnt) vaddr m =
     bindR (palloc (mem_pool pf m)) (\<lambda>(page_phyaddr, p).
     let m = upd_pool pf p m in
     if page_phyaddr = 0 then Inr (False, m)
     else bindR (page_table_add vaddr page_phyaddr m) (map_pages pf cnt (vaddr + 4096)))"

definition malloc_page :: "pool_flags \<Rightarrow> nat \<Rightarrow> mem \<Rightarrow> (u32 \<times> mem) result" where
  "malloc_page pf pg_cnt m =
     ASSERT (0 < pg_cnt \<and> pg_cnt < 3840) ''pg_cnt > 0 && pg_cnt < 3840''
     (bindR (vaddr_get pf pg_cnt m) (\<lambda>(vaddr_start, m).
      if vaddr_start = 0 then Inr (0, m)
      else bindR (map_pages pf pg_cnt vaddr_start m) (\<lambda>(ok, m).
        Inr (if ok then vaddr_start else 0, m))))"

text \<open>\<^verbatim>\<open>get_kernel_pages\<close> and \<^verbatim>\<open>get_user_pages\<close> are the two instances of \<open>get_pages\<close>.\<close>

definition get_pages :: "pool_flags \<Rightarrow> nat \<Rightarrow> mem \<Rightarrow> (u32 \<times> mem) result" where
  "get_pages pf pg_cnt m =
     bindR (malloc_page pf pg_cnt (pool_acquire pf m)) (\<lambda>(vaddr, m).
     bindR (if vaddr \<noteq> 0 then zero_words (pg_cnt * 1024) vaddr m else Inr m) (\<lambda>m.
     mapR (\<lambda>m. (vaddr, m)) (pool_release pf m)))"

definition get_kernel_pages :: "nat \<Rightarrow> mem \<Rightarrow> (u32 \<times> mem) result" where
  "get_kernel_pages = get_pages PF_KERNEL"

definition get_user_pages :: "nat \<Rightarrow> mem \<Rightarrow> (u32 \<times> mem) result" where
  "get_user_pages = get_pages PF_USER"

definition get_a_page_without_opvaddrbitmap :: "pool_flags \<Rightarrow> u32 \<Rightarrow> mem \<Rightarrow> (u32 \<times> mem) result" where
  "get_a_page_without_opvaddrbitmap pf vaddr m =
     (let m = pool_acquire pf m in
      bindR (palloc (mem_pool pf m)) (\<lambda>(page_phyaddr, p).
      let m = upd_pool pf p m in
      if page_phyaddr = 0 then mapR (\<lambda>m. (0, m)) (pool_release pf m)
      else bindR (page_table_add vaddr page_phyaddr m) (\<lambda>m.
           mapR (\<lambda>m. (vaddr, m)) (pool_release pf m))))"

definition get_a_page :: "pool_flags \<Rightarrow> u32 \<Rightarrow> mem \<Rightarrow> (u32 \<times> mem) result" where
  "get_a_page pf vaddr m =
     (let m = pool_acquire pf m;
          bit_idx = unat ((vaddr - vaddr_start (vpool pf m)) div 4096)
      in bindR
        (if pgdir m \<noteq> 0 \<and> pf = PF_USER then bitmap_set (vaddr_bitmap (userprog_vaddr m)) bit_idx 1
         else if pgdir m = 0 \<and> pf = PF_KERNEL then
           ASSERT (0 < bit_idx) ''bit_idx > 0'' (bitmap_set (vaddr_bitmap (kernel_vaddr m)) bit_idx 1)
         else Inl (KPanic ''get_a_page:not allow kernel alloc userspace or user alloc kernelspace by get_a_page''))
        (\<lambda>b. let m = upd_vpool pf ((vpool pf m)\<lparr>vaddr_bitmap := b\<rparr>) m in
         bindR (palloc (mem_pool pf m)) (\<lambda>(page_phyaddr, p).
         let m = upd_pool pf p m in
         if page_phyaddr = 0 then mapR (\<lambda>m. (0, m)) (pool_release pf m)
         else bindR (page_table_add vaddr page_phyaddr m) (\<lambda>m.
              mapR (\<lambda>m. (vaddr, m)) (pool_release pf m)))))"

definition addr_v2p :: "u32 \<Rightarrow> mem \<Rightarrow> u32 result" where
  "addr_v2p vaddr m = mapR (\<lambda>pte. frame pte + (vaddr AND 0xfff)) (load m (pte_ptr vaddr))"

section \<open>Release\<close>

definition pfree :: "u32 \<Rightarrow> mem \<Rightarrow> mem result" where
  "pfree pg_phy_addr m =
     (let pf = (if phy_addr_start (user_pool m) \<le> pg_phy_addr then PF_USER else PF_KERNEL);
          p = mem_pool pf m;
          bit_idx = unat ((pg_phy_addr - phy_addr_start p) div 4096)
      in mapR (\<lambda>b. upd_pool pf (p\<lparr>pool_bitmap := b\<rparr>) m) (bitmap_set (pool_bitmap p) bit_idx 0))"

text \<open>\<^verbatim>\<open>*pte &= !PG_P_1\<close>: the logical negation of 1 is 0, so the whole entry becomes 0.\<close>

definition page_table_pte_remove :: "u32 \<Rightarrow> mem \<Rightarrow> mem result" where
  "page_table_pte_remove vaddr m =
     bindR (load m (pte_ptr vaddr)) (\<lambda>pte. store m (pte_ptr vaddr) (pte AND 0))"

definition vaddr_remove :: "pool_flags \<Rightarrow> u32 \<Rightarrow> nat \<Rightarrow> mem \<Rightarrow> mem result" where
  "vaddr_remove pf vaddr pg_cnt m =
     (let va = vpool pf m;
          bit_idx_start = unat ((vaddr - vaddr_start va) div 4096)
      in mapR (\<lambda>b. upd_vpool pf (va\<lparr>vaddr_bitmap := b\<rparr>) m)
           (bitmap_set_run (vaddr_bitmap va) bit_idx_start pg_cnt 0))"

text \<open>The two loops of \<^verbatim>\<open>mfree_page\<close>: \<open>user\<close> is the branch for frames of the user pool.\<close>

fun unmap_pages :: "bool \<Rightarrow> nat \<Rightarrow> u32 \<Rightarrow> mem \<Rightarrow> mem result" where
  "unmap_pages user 0 vaddr m = Inr m"
| "unmap_pages user (Suc cnt) vaddr m =
     bindR (addr_v2p vaddr m) (\<lambda>pg_phy_addr.
     ASSERT (pg_phy_addr AND 0xfff = 0 \<and>
             (if user then phy_addr_start (user_pool m) \<le> pg_phy_addr
              else phy_addr_start (kernel_pool m) \<le> pg_phy_addr \<and>
                   pg_phy_addr < phy_addr_start (user_pool m)))
       ''(pg_phy_addr % PG_SIZE) == 0 && pg_phy_addr >= pool.phy_addr_start''
     (bindR (pfree pg_phy_addr m) (\<lambda>m.
      bindR (page_table_pte_remove vaddr m) (unmap_pages user cnt (vaddr + 4096)))))"

definition mfree_page :: "pool_flags \<Rightarrow> u32 \<Rightarrow> nat \<Rightarrow> mem \<Rightarrow> mem result" where
  "mfree_page pf vaddr pg_cnt m =
     ASSERT (1 \<le> pg_cnt \<and> vaddr AND 0xfff = 0) ''pg_cnt >=1 && vaddr % PG_SIZE ==0''
     (bindR (addr_v2p vaddr m) (\<lambda>pg_phy_addr.
      ASSERT (pg_phy_addr AND 0xfff = 0 \<and> 0x102000 \<le> pg_phy_addr)
        ''(pg_phy_addr % PG_SIZE) == 0 && pg_phy_addr >= 0x102000''
      (bindR (unmap_pages (phy_addr_start (user_pool m) \<le> pg_phy_addr) pg_cnt vaddr m)
         (vaddr_remove pf vaddr pg_cnt))))"

definition free_a_phy_page :: "u32 \<Rightarrow> mem \<Rightarrow> mem result" where
  "free_a_phy_page pg_phy_addr m =
     (let pf = (if phy_addr_start (user_pool m) \<le> pg_phy_addr then PF_USER else PF_KERNEL);
          p = mem_pool pf m;
          bit_idx = unat ((pg_phy_addr - phy_addr_start p) div 4096)
      in mapR (\<lambda>b. upd_pool pf (p\<lparr>pool_bitmap := b\<rparr>) m) (bitmap_set (pool_bitmap p) bit_idx 0))"

section \<open>Initialisation\<close>

text \<open>\<^verbatim>\<open>mem_pool_init\<close>: the page counts are 16-bit variables. \<open>boot\<close> is the memory at boot, in which the
  three bitmaps are laid out one behind the other from \<^verbatim>\<open>MEM_BITMAP_BASE\<close> on.\<close>

definition MEM_BITMAP_BASE :: u32 where "MEM_BITMAP_BASE = 0xc009a000"

definition K_HEAP_START :: u32 where "K_HEAP_START = 0xc0100000"

definition used_mem :: u32 where "used_mem = 4096 * 256 + 0x100000"

definition all_free_pages :: "u32 \<Rightarrow> u16" where
  "all_free_pages all_mem = ucast ((all_mem - used_mem) div 4096)"

definition kernel_free_pages :: "u32 \<Rightarrow> u16" where
  "kernel_free_pages all_mem = all_free_pages all_mem div 2"

definition user_free_pages :: "u32 \<Rightarrow> u16" where
  "user_free_pages all_mem = all_free_pages all_mem - kernel_free_pages all_mem"

definition kbm_length :: "u32 \<Rightarrow> nat" where
  "kbm_length all_mem = unat (kernel_free_pages all_mem) div 8"

definition ubm_length :: "u32 \<Rightarrow> nat" where
  "ubm_length all_mem = unat (user_free_pages all_mem) div 8"

definition bits_at :: "(u32 \<Rightarrow> u8) \<Rightarrow> u32 \<Rightarrow> nat \<Rightarrow> bitmap" where
  "bits_at boot base len =
     \<lparr>btmp_bytes_len = len, bits = map (\<lambda>i. boot (base + of_nat i)) [0..<len]\<rparr>"

definition mem_pool_init :: "(u32 \<Rightarrow> u8) \<Rightarrow> u32 \<Rightarrow> mem \<Rightarrow> mem result" where
  "mem_pool_init boot all_mem m =
     (let kn = kbm_length all_mem; un = ubm_length all_mem;
          kp_start = used_mem;
          up_start = kp_start + ucast (kernel_free_pages all_mem) * 4096
      in bindR (bitmap_init (bits_at boot MEM_BITMAP_BASE kn)) (\<lambda>kb.
         bindR (bitmap_init (bits_at boot (MEM_BITMAP_BASE + of_nat kn) un)) (\<lambda>ub.
         bindR (bitmap_init (bits_at boot (MEM_BITMAP_BASE + of_nat kn + of_nat un) kn)) (\<lambda>vb.
         Inr (m\<lparr>kernel_pool := \<lparr>pool_bitmap = kb, phy_addr_start = kp_start,
                  pool_size = ucast (kernel_free_pages all_mem) * 4096, pool_lock = 0\<rparr>,
                user_pool := \<lparr>pool_bitmap = ub, phy_addr_start = up_start,
                  pool_size = ucast (user_free_pages all_mem) * 4096, pool_lock = 0\<rparr>,
                kernel_vaddr := \<lparr>vaddr_bitmap = vb, vaddr_start = K_HEAP_START\<rparr>\<rparr>)))))"

lemmas mem_lens = mem_pool_def upd_pool_def vpool_def upd_vpool_def

section \<open>Physical pools\<close>

definition pool_frame :: "pool \<Rightarrow> nat \<Rightarrow> u32" where
  "pool_frame p i = of_nat i * 4096 + phy_addr_start p"

definition pool_cap :: "pool \<Rightarrow> nat" where
  "pool_cap p = bm_cap (pool_bitmap p)"

definition free_idx :: "pool \<Rightarrow> nat set" where
  "free_idx p = bm.free_bits (pool_bitmap p)"

definition free_frames :: "pool \<Rightarrow> u32 set" where
  "free_frames p = pool_frame p ` free_idx p"

definition wf_pool :: "pool \<Rightarrow> bool" where
  "wf_pool p \<longleftrightarrow> wf_bitmap (pool_bitmap p) \<and> frame (phy_addr_start p) = phy_addr_start p \<and>
     0 < phy_addr_start p \<and> unat (phy_addr_start p) + pool_cap p * 4096 < 2 ^ 32"

lemma unat_pool_frame:
  assumes "wf_pool p" and "i < pool_cap p"
  shows "unat (pool_frame p i) = unat (phy_addr_start p) + i * 4096"
proof -
  have "unat (phy_addr_start p) + i * 4096 < 2 ^ 32"
    using assms by (simp add: wf_pool_def)
  then have "unat (of_nat (i * 4096 + unat (phy_addr_start p)) :: u32) = i * 4096 + unat (phy_addr_start p)"
    by (simp add: unat_of_nat del: of_nat_add of_nat_mult)
  then show ?thesis by (simp add: pool_frame_def)
qed

lemma pool_frame_aligned: "wf_pool p \<Longrightarrow> frame (pool_frame p i) = pool_frame p i"
proof -
  assume "wf_pool p"
  then have "uint (phy_addr_start p) mod 4096 = 0" by (simp add: wf_pool_def frame_aligned)
  moreover have "uint (of_nat i * 4096 :: u32) mod 4096 = 0"
    by (simp add: uint_word_ariths mod_mod_cancel)
  ultimately have "(uint (of_nat i * 4096 :: u32) + uint (phy_addr_start p)) mod 4096 = 0"
    by (simp add: mod_add_eq [symmetric])
  then have "uint (pool_frame p i) mod 4096 = 0"
    unfolding pool_frame_def uint_word_ariths by (simp add: mod_mod_cancel)
  then show ?thesis by (simp add: frame_aligned)
qed

lemma pool_frame_nonzero: "wf_pool p \<Longrightarrow> i < pool_cap p \<Longrightarrow> pool_frame p i \<noteq> 0"
  using unat_pool_frame [of p i] by (auto simp: wf_pool_def word_less_nat_alt)

lemma pool_frame_inj: "wf_pool p \<Longrightarrow> i < pool_cap p \<Longrightarrow> j < pool_cap p \<Longrightarrow>
    pool_frame p i = pool_frame p j \<longleftrightarrow> i = j"
  using unat_pool_frame [of p i] unat_pool_frame [of p j] by (metis add_left_cancel mult_cancel2 zero_neq_numeral)

lemma pool_frame_idx:
  assumes "wf_pool p" and "i < pool_cap p"
  shows "unat ((pool_frame p i - phy_addr_start p) div 4096) = i"
proof -
  have "i * 4096 < 2 ^ 32" using assms by (simp add: wf_pool_def)
  then have "unat (of_nat i * 4096 :: u32) = i * 4096"
    using unat_of_nat [of "i * 4096", where 'a = 32] by simp
  then show ?thesis by (simp add: pool_frame_def unat_div)
qed

lemma free_idx_less: "i \<in> free_idx p \<Longrightarrow> i < pool_cap p"
  by (simp add: free_idx_def pool_cap_def bm.free_bits_def)

lemma free_frames_props: "wf_pool p \<Longrightarrow> f \<in> free_frames p \<Longrightarrow> f \<noteq> 0 \<and> frame f = f"
  by (auto simp: free_frames_def pool_frame_aligned pool_frame_nonzero dest: free_idx_less)

lemma finite_free_frames [simp]: "finite (free_frames p)"
  by (simp add: free_frames_def free_idx_def)

text \<open>\<^verbatim>\<open>palloc\<close> hands out a free frame and takes it from the pool.\<close>

lemma palloc_ok:
  assumes "wf_pool p" and "free_frames p \<noteq> {}"
  obtains f b where "palloc p = Inr (f, p\<lparr>pool_bitmap := b\<rparr>)" and "f \<in> free_frames p"
    and "wf_pool (p\<lparr>pool_bitmap := b\<rparr>)" and "free_frames (p\<lparr>pool_bitmap := b\<rparr>) = free_frames p - {f}"
    and "bm_cap b = pool_cap p"
proof -
  have wf: "wf_bitmap (pool_bitmap p)" and ne: "bm.free_bits (pool_bitmap p) \<noteq> {}"
    using assms by (auto simp: wf_pool_def free_frames_def free_idx_def)
  obtain i b where i: "bitmap_scan (pool_bitmap p) 1 = Inr (int i)" "bitmap_set (pool_bitmap p) i 1 = Inr b"
    "i \<in> bm.free_bits (pool_bitmap p)" "wf_bitmap b" "bm_cap b = bm_cap (pool_bitmap p)"
    "\<forall>j. bm_bit b j \<longleftrightarrow> j = i \<or> bm_bit (pool_bitmap p) j"
    "bm.free_bits b = bm.free_bits (pool_bitmap p) - {i}"
    by (rule bm.alloc_one [OF wf ne])
  let ?p = "p\<lparr>pool_bitmap := b\<rparr>"
  have pf: "pool_frame ?p = pool_frame p" by (simp add: pool_frame_def fun_eq_iff)
  have wf': "wf_pool ?p" using assms(1) i(4,5) by (simp add: wf_pool_def pool_cap_def)
  have "inj_on (pool_frame p) (free_idx p)"
    using pool_frame_inj [OF assms(1) free_idx_less free_idx_less] by (intro inj_onI) blast
  then have "free_frames ?p = free_frames p - {pool_frame p i}"
    using i(3,7) by (simp add: free_frames_def free_idx_def pf inj_on_image_set_diff [of _ "bm.free_bits (pool_bitmap p)"])
  moreover have "palloc p = Inr (pool_frame p i, ?p)"
    using i by (simp add: palloc_def pool_frame_def)
  ultimately show ?thesis
    using that [of "pool_frame p i" b] wf' i(3,5) by (simp add: free_frames_def free_idx_def pool_cap_def)
qed

lemma palloc_full: "wf_pool p \<Longrightarrow> free_frames p = {} \<Longrightarrow> \<exists>e. palloc p = Inl e"
  using bm.alloc_none [of "pool_bitmap p"]
  by (auto simp: wf_pool_def free_frames_def free_idx_def palloc_def)

end
