(* ===== verification/Address_Space.thy ===== *)
theory Address_Space
  imports Memory
begin

text \<open>
  The invariant of the page tables and the pools, and the effect of the operations of
  \<^verbatim>\<open>kernel/memory.c\<close> on the address space of the running thread. \<open>vmap\<close> is what the processor
  translates; the entries of the window from \<open>0xffc00000\<close> on are the tables themselves.
\<close>

section \<open>Entries, tables and the invariant\<close>

abbreviation vmap :: "mem \<Rightarrow> u32 \<Rightarrow> u32 option" where
  "vmap m \<equiv> mmu (cr3 m) (phys m)"

definition pde :: "mem \<Rightarrow> u32 \<Rightarrow> u32" where
  "pde m v = phys m (cr3 m + 4 * PDE_IDX v)"

definition pte_cell :: "mem \<Rightarrow> u32 \<Rightarrow> u32" where
  "pte_cell m v = frame (pde m v) + 4 * PTE_IDX v"

definition window :: "u32 \<Rightarrow> bool" where
  "window v \<longleftrightarrow> PDE_IDX v = 1023"

definition tables :: "mem \<Rightarrow> u32 set" where
  "tables m = {frame (pde m v) | v. present (pde m v)}"

text \<open>Page directory entries 0 and 768 share the table of the first 4 MiB (set up by the loader).\<close>

definition wf_tables :: "mem \<Rightarrow> bool" where
  "wf_tables m \<longleftrightarrow> rec_mapped (cr3 m) (phys m) \<and>
     (\<forall>v. present (pde m v) \<and> \<not> window v \<longrightarrow> frame (pde m v) \<noteq> cr3 m) \<and>
     (\<forall>u v. present (pde m u) \<and> present (pde m v) \<and> frame (pde m u) = frame (pde m v) \<longrightarrow>
        PDE_IDX u = PDE_IDX v \<or> {PDE_IDX u, PDE_IDX v} = {0, 768})"

definition wf_mem :: "mem \<Rightarrow> bool" where
  "wf_mem m \<longleftrightarrow> wf_pool (kernel_pool m) \<and> wf_pool (user_pool m) \<and>
     0x102000 \<le> phy_addr_start (kernel_pool m) \<and>
     unat (phy_addr_start (kernel_pool m)) + pool_cap (kernel_pool m) * 4096
       \<le> unat (phy_addr_start (user_pool m)) \<and>
     wf_tables m \<and> tables m \<inter> free_frames (kernel_pool m) = {} \<and>
     tables m \<inter> free_frames (user_pool m) = {}"

lemma vmap_eq:
  "vmap m v = (if present (pde m v) \<and> present (phys m (pte_cell m v))
               then Some (frame (phys m (pte_cell m v)) + (v AND 0xfff)) else None)"
  by (simp add: mmu_def pde_def pte_cell_def Let_def)

lemma wf_cr3: "wf_tables m \<Longrightarrow> frame (cr3 m) = cr3 m"
  by (simp add: wf_tables_def rec_mapped_def)

lemma pde_window: "wf_tables m \<Longrightarrow> window v \<Longrightarrow> present (pde m v) \<and> frame (pde m v) = cr3 m"
  by (simp add: wf_tables_def rec_mapped_def pde_def window_def)

lemma cr3_in_tables: "wf_tables m \<Longrightarrow> cr3 m \<in> tables m"
  using pde_window [of m "pde_ptr 0"] by (force simp: tables_def window_def window_pde)

lemma load_pde: "wf_tables m \<Longrightarrow> load m (pde_ptr v) = Inr (pde m v)"
  by (simp add: load_def mmu_pde_ptr wf_tables_def pde_def)

lemma store_pde:
  "wf_tables m \<Longrightarrow> store m (pde_ptr v) x = Inr (m\<lparr>phys := (phys m)(cr3 m + 4 * PDE_IDX v := x)\<rparr>)"
  by (simp add: store_def mmu_pde_ptr wf_tables_def)

lemma mmu_pte_cell: "wf_tables m \<Longrightarrow> vmap m (pte_ptr v) = (if present (pde m v) then Some (pte_cell m v) else None)"
  by (simp add: mmu_pte_ptr wf_tables_def pde_def pte_cell_def Let_def)

lemma load_pte: "wf_tables m \<Longrightarrow> present (pde m v) \<Longrightarrow> load m (pte_ptr v) = Inr (phys m (pte_cell m v))"
  by (simp add: load_def mmu_pte_cell)

lemma load_pte_absent: "wf_tables m \<Longrightarrow> \<not> present (pde m v) \<Longrightarrow> load m (pte_ptr v) = Inl PageFault"
  by (simp add: load_def mmu_pte_cell)

lemma store_pte: "wf_tables m \<Longrightarrow> present (pde m v) \<Longrightarrow>
    store m (pte_ptr v) x = Inr (m\<lparr>phys := (phys m)(pte_cell m v := x)\<rparr>)"
  by (simp add: store_def mmu_pte_cell)

lemma pte_cell_frame: "frame (pte_cell m v) = frame (pde m v)"
  by (simp add: pte_cell_def uint_in_page)

lemma pde_cell_frame: "frame (cr3 m) = cr3 m \<Longrightarrow> frame (cr3 m + 4 * PDE_IDX v) = cr3 m"
  by (simp add: uint_in_page)

lemma pte_cell_eq_iff:
  "pte_cell m u = pte_cell m v \<longleftrightarrow> frame (pde m u) = frame (pde m v) \<and> PTE_IDX u = PTE_IDX v"
  by (simp add: pte_cell_def cell_eq_iff times_4_inj)

lemma pde_phys_upd:
  "frame (cr3 m) = cr3 m \<Longrightarrow> frame a \<noteq> cr3 m \<Longrightarrow> pde (m\<lparr>phys := (phys m)(a := x)\<rparr>) u = pde m u"
  using pde_cell_frame [of m u] by (auto simp: pde_def)

lemma pde_cong:
  "frame (cr3 m) = cr3 m \<Longrightarrow> (\<And>a. frame a = cr3 m \<Longrightarrow> ph a = phys m a) \<Longrightarrow>
   pde (m\<lparr>phys := ph\<rparr>) u = pde m u"
  using pde_cell_frame [of m u] by (simp add: pde_def)

lemma pte_cell_cong: "pde m' v = pde m v \<Longrightarrow> pte_cell m' v = pte_cell m v"
  by (simp add: pte_cell_def)

section \<open>Zeroing a page\<close>

lemma same_page:
  assumes "frame b = b" and "uint off < 4096"
  shows "PDE_IDX (b + off) = PDE_IDX b" and "PTE_IDX (b + off) = PTE_IDX b"
proof -
  note u = uint_in_page [OF assms]
  have "uint b mod 4096 = 0" using assms(1) by (simp add: frame_aligned)
  then have "(uint b + uint off) div 4096 = uint b div 4096"
    using assms(2) by (simp add: div_add1_eq)
  then show "PDE_IDX (b + off) = PDE_IDX b" "PTE_IDX (b + off) = PTE_IDX b"
    by (simp_all add: u32_eq_iff uint_PDE_IDX uint_PTE_IDX u(1) div_4194304)
qed

lemma vmap_in_page:
  assumes "frame b = b" and "uint off < 4096" and "vmap m b = Some f"
  shows "vmap m (b + off) = Some (f + off)"
proof -
  have "b AND 0xfff = 0" using uint_in_page(3) [OF assms(1), of 0] by simp
  with assms show ?thesis
    by (auto simp: mmu_def Let_def same_page uint_in_page split: if_splits)
qed

lemma uint_4k: "k < 1024 \<Longrightarrow> uint (4 * of_nat k :: u32) = 4 * int k"
proof -
  assume "k < 1024"
  then have "uint (of_nat k :: u32) = int k" by (simp add: unsigned_of_nat take_bit_nat_eq_self)
  with \<open>k < 1024\<close> show ?thesis by (simp add: uint_times_4)
qed

lemma zero_words_page:
  assumes "frame b = b" and "frame (cr3 m) = cr3 m" and "vmap m b = Some f"
    and "f \<noteq> cr3 m" and "f \<noteq> frame (pde m b)" and "k + n \<le> 1024"
  shows "\<exists>ph. zero_words n (b + 4 * of_nat k) m = Inr (m\<lparr>phys := ph\<rparr>) \<and>
     (\<forall>a. frame a \<noteq> f \<longrightarrow> ph a = phys m a) \<and>
     (\<forall>j. j < k \<longrightarrow> ph (f + 4 * of_nat j) = phys m (f + 4 * of_nat j)) \<and>
     (\<forall>j. k \<le> j \<and> j < k + n \<longrightarrow> ph (f + 4 * of_nat j) = 0)"
  using assms
proof (induction n arbitrary: k m)
  case 0
  show ?case by (intro exI [of _ "phys m"]) auto
next
  case (Suc n)
  have al: "frame f = f"
    using Suc.prems(1,3) uint_in_page(3) [of b 0] by (auto simp: vmap_eq split: if_splits)
  have off: "uint (4 * of_nat k :: u32) < 4096" using Suc.prems(6) by (simp add: uint_4k)
  let ?a = "f + 4 * of_nat k" let ?m = "m\<lparr>phys := (phys m)(?a := 0)\<rparr>"
  have fa: "frame ?a = f" using uint_in_page(2) [OF al off] .
  have st: "store m (b + 4 * of_nat k) 0 = Inr ?m"
    using vmap_in_page [OF Suc.prems(1) off Suc.prems(3)] by (simp add: store_def)
  have pd: "pde ?m u = pde m u" for u using pde_phys_upd Suc.prems(2,4) fa by metis
  have "pte_cell m b \<noteq> ?a" using Suc.prems(5) fa pte_cell_frame by metis
  then have vm: "vmap ?m b = Some f"
    using Suc.prems(3) unfolding vmap_eq [of ?m] vmap_eq [of m] pd pte_cell_cong [OF pd] by (auto split: if_splits)
  have c: "frame (cr3 ?m) = cr3 ?m" and fm: "f \<noteq> cr3 ?m" "f \<noteq> frame (pde ?m b)" "Suc k + n \<le> 1024"
    using Suc.prems(2,4,5,6) by (simp_all add: pd)
  obtain ph where ph: "zero_words n (b + 4 * of_nat (Suc k)) ?m = Inr (?m\<lparr>phys := ph\<rparr>)"
    "\<forall>a. frame a \<noteq> f \<longrightarrow> ph a = phys ?m a"
    "\<forall>j < Suc k. ph (f + 4 * of_nat j) = phys ?m (f + 4 * of_nat j)"
    "\<forall>j. Suc k \<le> j \<and> j < Suc k + n \<longrightarrow> ph (f + 4 * of_nat j) = 0"
    using Suc.IH [OF Suc.prems(1) c vm fm] by blast
  have "f + 4 * of_nat j \<noteq> ?a" if "j < k" for j
    using that Suc.prems(6) cell_eq_iff [OF al al, of "4 * of_nat j" "4 * of_nat k"]
    by (simp add: uint_4k u32_eq_iff)
  moreover have "zero_words (Suc n) (b + 4 * of_nat k) m = Inr (m\<lparr>phys := ph\<rparr>)"
    using st ph(1) by (simp add: algebra_simps)
  moreover have "ph (f + 4 * of_nat j) = 0" if "k \<le> j" "j < k + Suc n" for j
    using that ph(3,4) by (cases "j = k") auto
  ultimately show ?case using ph(2,3) fa by (intro exI [of _ ph]) auto
qed

lemma zero_page:
  assumes "frame b = b" and "frame (cr3 m) = cr3 m" and "vmap m b = Some f"
    and "f \<noteq> cr3 m" and "f \<noteq> frame (pde m b)"
  obtains ph where "zero_words 1024 b m = Inr (m\<lparr>phys := ph\<rparr>)"
    and "\<forall>a. frame a \<noteq> f \<longrightarrow> ph a = phys m a" and "\<forall>j < 1024. ph (f + 4 * of_nat j) = 0"
proof -
  have "0 + 1024 \<le> (1024 :: nat)" by simp
  from zero_words_page [OF assms this] obtain ph
    where ph: "zero_words 1024 (b + 4 * of_nat 0) m = Inr (m\<lparr>phys := ph\<rparr>)"
    "\<forall>a. frame a \<noteq> f \<longrightarrow> ph a = phys m a" "\<forall>j. 0 \<le> j \<and> j < 0 + 1024 \<longrightarrow> ph (f + 4 * of_nat j) = 0"
    by (elim exE conjE)
  show ?thesis
  proof (rule that)
    show "zero_words 1024 b m = Inr (m\<lparr>phys := ph\<rparr>)" using ph(1) by simp
    show "\<forall>j < 1024. ph (f + 4 * of_nat j) = 0"
      using ph(3) by (simp only: le0 simp_thms add_0)
  qed (fact ph(2))
qed

lemma of_nat_PTE_IDX: "\<exists>j < 1024. PTE_IDX v = of_nat j"
proof (intro exI [of _ "unat (PTE_IDX v)"] conjI)
  have "PTE_IDX v < 1024" by (simp add: word_less_def uint_PTE_IDX)
  then show "unat (PTE_IDX v) < 1024" by (simp add: word_less_nat_alt)
qed simp

section \<open>Adding and removing a mapping\<close>

text \<open>The translation after the entry of \<open>v\<close> in a present table is overwritten.\<close>

definition set_pte :: "u32 \<Rightarrow> u32 \<Rightarrow> mem \<Rightarrow> mem" where
  "set_pte v x m = m\<lparr>phys := (phys m)(pte_cell m v := x)\<rparr>"

lemma set_pte_fields [simp]:
  "kernel_pool (set_pte v x m) = kernel_pool m" "user_pool (set_pte v x m) = user_pool m"
  "kernel_vaddr (set_pte v x m) = kernel_vaddr m" "userprog_vaddr (set_pte v x m) = userprog_vaddr m"
  "pgdir (set_pte v x m) = pgdir m" "cr3 (set_pte v x m) = cr3 m"
  by (simp_all add: set_pte_def)

lemma pde_set_pte:
  "wf_tables m \<Longrightarrow> present (pde m v) \<Longrightarrow> \<not> window v \<Longrightarrow> pde (set_pte v x m) u = pde m u"
  using pte_cell_frame [of m v] unfolding set_pte_def wf_tables_def
  by (intro pde_phys_upd) (auto simp: rec_mapped_def)

lemma tables_cong: "(\<And>v. pde m' v = pde m v) \<Longrightarrow> tables m' = tables m"
  by (simp add: tables_def)

lemma wf_tables_cong:
  assumes "wf_tables m" and "\<And>v. pde m' v = pde m v" and "cr3 m' = cr3 m"
  shows "wf_tables m'"
proof -
  have "phys m' (cr3 m + 4092) = phys m (cr3 m + 4092)"
    using assms(2) [of "pde_ptr 0"] assms(3) by (simp add: pde_def window_pde)
  with assms show ?thesis by (simp add: wf_tables_def rec_mapped_def)
qed

lemma wf_mem_cong:
  assumes "wf_mem m" and "\<And>v. pde m' v = pde m v" and "cr3 m' = cr3 m"
    and "kernel_pool m' = kernel_pool m" and "user_pool m' = user_pool m"
  shows "wf_mem m'"
  using assms wf_tables_cong [of m m'] tables_cong [of m' m] by (simp add: wf_mem_def)

lemma set_pte_effect:
  assumes "wf_tables m" and "present (pde m v)" and "\<not> window v"
  shows "vmap (set_pte v x m) u =
     (if present (pde m u) \<and> pte_cell m u = pte_cell m v
      then if present x then Some (frame x + (u AND 0xfff)) else None else vmap m u)"
  unfolding vmap_eq [of "set_pte v x m" u] vmap_eq [of m u] pde_set_pte [OF assms]
    pte_cell_cong [OF pde_set_pte [OF assms]]
  by (simp add: set_pte_def)

lemma wf_mem_set_pte: "wf_mem m \<Longrightarrow> present (pde m v) \<Longrightarrow> \<not> window v \<Longrightarrow> wf_mem (set_pte v x m)"
  by (rule wf_mem_cong) (auto simp: pde_set_pte wf_mem_def)

text \<open>\<open>add_table\<close>: the part of \<^verbatim>\<open>page_table_add\<close> that installs an empty table.\<close>

lemma add_table:
  assumes wf: "wf_mem m" and abs: "\<not> present (pde m v)" and w: "\<not> window v"
    and pa: "palloc (kernel_pool m) = Inr (f, p)" and f: "f \<in> free_frames (kernel_pool m)"
    and p: "wf_pool p" "pool_cap p = pool_cap (kernel_pool m)" "phy_addr_start p = phy_addr_start (kernel_pool m)"
      "free_frames p = free_frames (kernel_pool m) - {f}"
  obtains ph where
    "bindR (store (m\<lparr>kernel_pool := p\<rparr>) (pde_ptr v) (f OR 7)) (\<lambda>m. zero_words 1024 (pte_ptr v AND 0xfffff000) m)
       = Inr (m\<lparr>kernel_pool := p, phys := ph\<rparr>)"
    and "\<forall>a. frame a \<noteq> f \<and> frame a \<noteq> cr3 m \<longrightarrow> ph a = phys m a"
    and "\<forall>u. pde (m\<lparr>kernel_pool := p, phys := ph\<rparr>) u = (if PDE_IDX u = PDE_IDX v then f OR 7 else pde m u)"
    and "\<forall>u. PDE_IDX u = PDE_IDX v \<longrightarrow> ph (f + 4 * PTE_IDX u) = 0"
proof -
  have wt: "wf_tables m" and fal: "frame f = f" and fc: "f \<noteq> cr3 m"
    using wf f free_frames_props [of "kernel_pool m" f] cr3_in_tables [of m]
    by (auto simp: wf_mem_def)
  note e = entry_bits [OF fal]
  let ?m0 = "m\<lparr>kernel_pool := p\<rparr>" let ?c = "cr3 m + 4 * PDE_IDX v"
  let ?m1 = "?m0\<lparr>phys := (phys m)(?c := f OR 7)\<rparr>"
  have wt0: "wf_tables ?m0" by (rule wf_tables_cong [OF wt]) (auto simp: pde_def)
  have pd1: "pde ?m1 u = (if PDE_IDX u = PDE_IDX v then f OR 7 else pde m u)" for u
    using cell_eq_iff [OF wf_cr3 [OF wt] wf_cr3 [OF wt], of "4 * PDE_IDX u" "4 * PDE_IDX v"]
    by (simp add: pde_def times_4_inj)
  let ?b = "pte_ptr v AND 0xfffff000"
  have b: "frame ?b = ?b" and base: "?b = pte_ptr (v AND 0xffc00000)"
    using frame_frame [of "pte_ptr v"] page_base_window [of v] by (simp_all add: frame_def)
  have "PDE_IDX (v AND 0xffc00000) = PDE_IDX v" by (simp add: PDE_IDX_def ac_simps)
  then have idx: "PDE_IDX ?b = 1023" "PTE_IDX ?b = PDE_IDX v" "?b AND 0xfff = 0"
    using uint_in_page(3) [OF b, of 0] by (simp_all add: base window_pte)
  have pb: "pde ?m1 ?b = pde m ?b" "window ?b" using w idx by (simp_all add: pd1 window_def)
  then have pb': "present (pde ?m1 ?b)" "frame (pde ?m1 ?b) = cr3 m" using pde_window [OF wt] by simp_all
  have "pte_cell ?m1 ?b = ?c" using pb' idx by (simp add: pte_cell_def)
  then have vm: "vmap ?m1 ?b = Some f"
    using e pb' idx unfolding vmap_eq [of ?m1] by simp
  obtain ph where ph: "zero_words 1024 ?b ?m1 = Inr (?m1\<lparr>phys := ph\<rparr>)"
    "\<forall>a. frame a \<noteq> f \<longrightarrow> ph a = phys ?m1 a" "\<forall>j < 1024. ph (f + 4 * of_nat j) = 0"
    using zero_page [OF b _ vm] wf_cr3 [OF wt] fc pb' by auto
  have "pde (?m1\<lparr>phys := ph\<rparr>) u = pde ?m1 u" for u
    using ph(2) wf_cr3 [OF wt] fc by (intro pde_cong) auto
  then have "\<forall>u. pde (m\<lparr>kernel_pool := p, phys := ph\<rparr>) u = (if PDE_IDX u = PDE_IDX v then f OR 7 else pde m u)"
    by (simp add: pd1)
  moreover have "ph a = phys m a" if "frame a \<noteq> f" "frame a \<noteq> cr3 m" for a
    using that ph(2) pde_cell_frame [OF wf_cr3 [OF wt], of v] by (auto simp: fun_upd_def)
  moreover have "ph (f + 4 * PTE_IDX u) = 0" for u using ph(3) of_nat_PTE_IDX [of u] by metis
  ultimately show ?thesis
    using that [of ph] ph(1) store_pde [OF wt0, of v] by simp
qed

lemma page_table_add_present:
  assumes "wf_mem m" and "present (pde m v)" and "vmap m v = None"
  shows "page_table_add v p m = Inr (set_pte v (p OR 7) m)"
  using assms load_pde [of m v] load_pte [of m v] store_pte [of m v]
  by (auto simp: page_table_add_def wf_mem_def vmap_eq [of m v] set_pte_def split: if_splits)

lemma pool_frames_disjoint:
  assumes "wf_mem m"
  shows "free_frames (kernel_pool m) \<inter> free_frames (user_pool m) = {}"
proof -
  let ?k = "kernel_pool m" and ?u = "user_pool m"
  have "pool_frame ?k i \<noteq> pool_frame ?u j" if "i < pool_cap ?k" "j < pool_cap ?u" for i j
  proof
    assume "pool_frame ?k i = pool_frame ?u j"
    then have "unat (pool_frame ?k i) = unat (pool_frame ?u j)" by simp
    then show False
      using assms that unat_pool_frame [of ?k i] unat_pool_frame [of ?u j] by (simp add: wf_mem_def)
  qed
  then show ?thesis by (auto simp: free_frames_def dest!: free_idx_less)
qed

lemma page_table_add_absent:
  assumes wf: "wf_mem m" and abs: "\<not> present (pde m v)" and w: "\<not> window v"
    and ne: "free_frames (kernel_pool m) \<noteq> {}"
  obtains f b ph where
    "page_table_add v p m = Inr (m\<lparr>kernel_pool := (kernel_pool m)\<lparr>pool_bitmap := b\<rparr>, phys := ph\<rparr>)"
    "wf_mem (m\<lparr>kernel_pool := (kernel_pool m)\<lparr>pool_bitmap := b\<rparr>, phys := ph\<rparr>)"
    "f \<in> free_frames (kernel_pool m)" "bm_cap b = pool_cap (kernel_pool m)"
    "free_frames ((kernel_pool m)\<lparr>pool_bitmap := b\<rparr>) = free_frames (kernel_pool m) - {f}"
    "\<forall>a. frame a \<noteq> f \<and> frame a \<noteq> cr3 m \<longrightarrow> ph a = phys m a"
    "\<forall>u. pde (m\<lparr>kernel_pool := (kernel_pool m)\<lparr>pool_bitmap := b\<rparr>, phys := ph\<rparr>) u =
         (if PDE_IDX u = PDE_IDX v then f OR 7 else pde m u)"
    "\<forall>u. PDE_IDX u = PDE_IDX v \<longrightarrow> ph (f + 4 * PTE_IDX u) = (if PTE_IDX u = PTE_IDX v then p OR 7 else 0)"
proof -
  have wt: "wf_tables m" and wk: "wf_pool (kernel_pool m)" using wf by (simp_all add: wf_mem_def)
  obtain f b where pa: "palloc (kernel_pool m) = Inr (f, (kernel_pool m)\<lparr>pool_bitmap := b\<rparr>)"
    and f: "f \<in> free_frames (kernel_pool m)" and wb: "wf_pool ((kernel_pool m)\<lparr>pool_bitmap := b\<rparr>)"
    and fb: "free_frames ((kernel_pool m)\<lparr>pool_bitmap := b\<rparr>) = free_frames (kernel_pool m) - {f}"
    and cb: "bm_cap b = pool_cap (kernel_pool m)"
    by (rule palloc_ok [OF wk ne])
  let ?p = "(kernel_pool m)\<lparr>pool_bitmap := b\<rparr>"
  have fal: "frame f = f" using free_frames_props [OF wk f] by simp
  have fc: "f \<notin> tables m" "f \<notin> free_frames (user_pool m)"
    using wf f pool_frames_disjoint [OF wf] by (auto simp: wf_mem_def)
  obtain ph where z: "bindR (store (m\<lparr>kernel_pool := ?p\<rparr>) (pde_ptr v) (f OR 7))
        (\<lambda>m. zero_words 1024 (pte_ptr v AND 0xfffff000) m) = Inr (m\<lparr>kernel_pool := ?p, phys := ph\<rparr>)"
    and fr: "\<forall>a. frame a \<noteq> f \<and> frame a \<noteq> cr3 m \<longrightarrow> ph a = phys m a"
    and pd: "\<forall>u. pde (m\<lparr>kernel_pool := ?p, phys := ph\<rparr>) u = (if PDE_IDX u = PDE_IDX v then f OR 7 else pde m u)"
    and zero: "\<forall>u. PDE_IDX u = PDE_IDX v \<longrightarrow> ph (f + 4 * PTE_IDX u) = 0"
    by (rule add_table [OF wf abs w pa f wb _ _ fb]) (simp_all add: pool_cap_def cb [unfolded pool_cap_def])
  let ?m = "m\<lparr>kernel_pool := ?p, phys := ph\<rparr>"
  note e = entry_bits [OF fal]
  have pdv: "pde ?m u = (if PDE_IDX u = PDE_IDX v then f OR 7 else pde m u)" for u using pd by blast
  have rec: "phys ?m (cr3 m + 4092) = phys m (cr3 m + 4092)"
    using pdv [of "pde_ptr 0"] w by (simp add: pde_def window_pde window_def)
  have fcr: "f \<noteq> cr3 m" using fc(1) cr3_in_tables [OF wt] by auto
  have ff: "frame (pde m u) \<noteq> f" if "present (pde m u)" for u
    using fc(1) that by (auto simp: tables_def)
  have wt': "wf_tables ?m" unfolding wf_tables_def
  proof (intro conjI allI impI)
    show "rec_mapped (cr3 ?m) (phys ?m)" using wt rec by (simp add: wf_tables_def rec_mapped_def)
    show "frame (pde ?m u) \<noteq> cr3 ?m" if "present (pde ?m u) \<and> \<not> window u" for u
      using that wt e fcr by (simp add: wf_tables_def pdv split: if_splits)
    show "PDE_IDX u = PDE_IDX x \<or> {PDE_IDX u, PDE_IDX x} = {0, 768}"
      if "present (pde ?m u) \<and> present (pde ?m x) \<and> frame (pde ?m u) = frame (pde ?m x)" for u x
    proof (cases "PDE_IDX u = PDE_IDX v \<or> PDE_IDX x = PDE_IDX v")
      case True
      with that ff [of u] ff [of x] e show ?thesis by (auto simp: pdv split: if_splits)
    next
      case False
      with that wt show ?thesis by (simp add: wf_tables_def pdv)
    qed
  qed
  have tb: "tables ?m \<subseteq> insert f (tables m)" using e by (auto simp: tables_def pdv split: if_splits)
  have wfm: "wf_mem ?m"
    using wf wb wt' tb fc cb fb by (auto simp: wf_mem_def pool_cap_def)
  have pv: "present (pde ?m v)" using e by (simp add: pdv)
  have cell: "pte_cell ?m v = f + 4 * PTE_IDX v" using e by (simp add: pte_cell_def pdv)
  have "phys ?m (pte_cell ?m v) = 0" using zero cell by simp
  then have "page_table_add v p m = Inr (set_pte v (p OR 7) ?m)"
    using abs z load_pde [OF wt] load_pte [OF wt' pv] store_pte [OF wt' pv]
    by (simp add: page_table_add_def pa bindR_assoc [symmetric] set_pte_def)
  moreover have "set_pte v (p OR 7) ?m = m\<lparr>kernel_pool := ?p, phys := ph(f + 4 * PTE_IDX v := p OR 7)\<rparr>"
    by (simp add: set_pte_def cell)
  moreover have "frame (f + 4 * PTE_IDX v) = f" using uint_in_page(2) [OF fal] by simp
  moreover have "f + 4 * PTE_IDX u = f + 4 * PTE_IDX v \<longleftrightarrow> PTE_IDX u = PTE_IDX v" for u
    using times_4_inj by simp
  ultimately show ?thesis
    using that [where f = f and b = b and ph = "ph(f + 4 * PTE_IDX v := p OR 7)"] wf_mem_set_pte [OF wfm pv w, of "p OR 7"]
      pde_set_pte [OF wt' pv w, of "p OR 7"] f cb fb fr zero pdv by auto
qed

text \<open>What a page-table operation leaves alone: everything but the kernel pool's bitmap and memory.\<close>

definition same_space :: "mem \<Rightarrow> mem \<Rightarrow> bool" where
  "same_space m m' \<longleftrightarrow> user_pool m' = user_pool m \<and> kernel_vaddr m' = kernel_vaddr m \<and>
     userprog_vaddr m' = userprog_vaddr m \<and> pgdir m' = pgdir m \<and> cr3 m' = cr3 m \<and>
     pool_lock (kernel_pool m') = pool_lock (kernel_pool m) \<and>
     pool_cap (kernel_pool m') = pool_cap (kernel_pool m) \<and>
     phy_addr_start (kernel_pool m') = phy_addr_start (kernel_pool m) \<and>
     pool_size (kernel_pool m') = pool_size (kernel_pool m)"

text \<open>The effect of \<^verbatim>\<open>page_table_add\<close> on the translation of every address outside the window.\<close>

definition mapped_to :: "mem \<Rightarrow> mem \<Rightarrow> u32 \<Rightarrow> u32 \<Rightarrow> bool" where
  "mapped_to m m' v p \<longleftrightarrow> present (pde m' v) \<and>
     (\<forall>u. \<not> window u \<longrightarrow> vmap m' u =
        (if present (pde m' u) \<and> pte_cell m' u = pte_cell m' v then Some (p + (u AND 0xfff)) else vmap m u))"

lemma page_table_add_ok:
  assumes wf: "wf_mem m" and un: "vmap m v = None" and w: "\<not> window v" and p: "frame p = p"
    and enough: "present (pde m v) \<or> free_frames (kernel_pool m) \<noteq> {}"
  obtains m' where "page_table_add v p m = Inr m'" and "wf_mem m'" and "same_space m m'"
    and "mapped_to m m' v p"
    and "\<exists>t. free_frames (kernel_pool m') = free_frames (kernel_pool m) - t \<and> card t \<le> 1 \<and>
           tables m' = tables m \<union> t \<and> t \<subseteq> free_frames (kernel_pool m)"
    and "\<forall>a. frame a \<notin> tables m' \<longrightarrow> phys m' a = phys m a"
proof (cases "present (pde m v)")
  case True
  have wt: "wf_tables m" using wf by (simp add: wf_mem_def)
  let ?m = "set_pte v (p OR 7) m"
  note pd = pde_set_pte [OF wt True w, of "p OR 7"]
  have "mapped_to m ?m v p"
    using entry_bits [OF p] set_pte_effect [OF wt True w, of "p OR 7"] True
    by (simp add: mapped_to_def pd pte_cell_cong [OF pd])
  moreover have "\<forall>a. frame a \<notin> tables ?m \<longrightarrow> phys ?m a = phys m a"
    using True pte_cell_frame [of m v] unfolding tables_cong [of ?m m, OF pd]
    by (auto simp: set_pte_def tables_def)
  moreover have "\<exists>t. free_frames (kernel_pool ?m) = free_frames (kernel_pool m) - t \<and> card t \<le> 1 \<and>
      tables ?m = tables m \<union> t \<and> t \<subseteq> free_frames (kernel_pool m)"
    using tables_cong [of ?m m, OF pd] by (intro exI [of _ "{}"]) simp
  moreover have "same_space m ?m" by (simp add: same_space_def)
  ultimately show ?thesis
    using that page_table_add_present [OF wf True un, of p] wf_mem_set_pte [OF wf True w, of "p OR 7"] by blast
next
  case False
  with enough have ne: "free_frames (kernel_pool m) \<noteq> {}" by simp
  obtain f b ph where m': "page_table_add v p m = Inr (m\<lparr>kernel_pool := (kernel_pool m)\<lparr>pool_bitmap := b\<rparr>, phys := ph\<rparr>)"
    and wf': "wf_mem (m\<lparr>kernel_pool := (kernel_pool m)\<lparr>pool_bitmap := b\<rparr>, phys := ph\<rparr>)"
    and f: "f \<in> free_frames (kernel_pool m)" and cb: "bm_cap b = pool_cap (kernel_pool m)"
    and fb: "free_frames ((kernel_pool m)\<lparr>pool_bitmap := b\<rparr>) = free_frames (kernel_pool m) - {f}"
    and fr: "\<forall>a. frame a \<noteq> f \<and> frame a \<noteq> cr3 m \<longrightarrow> ph a = phys m a"
    and pd: "\<forall>u. pde (m\<lparr>kernel_pool := (kernel_pool m)\<lparr>pool_bitmap := b\<rparr>, phys := ph\<rparr>) u =
         (if PDE_IDX u = PDE_IDX v then f OR 7 else pde m u)"
    and pt: "\<forall>u. PDE_IDX u = PDE_IDX v \<longrightarrow> ph (f + 4 * PTE_IDX u) = (if PTE_IDX u = PTE_IDX v then p OR 7 else 0)"
    by (rule page_table_add_absent [OF wf False w ne])
  let ?m = "m\<lparr>kernel_pool := (kernel_pool m)\<lparr>pool_bitmap := b\<rparr>, phys := ph\<rparr>"
  have fal: "frame f = f" using wf free_frames_props [OF _ f] by (simp add: wf_mem_def)
  note e = entry_bits [OF fal] entry_bits [OF p]
  have pdv: "pde ?m u = (if PDE_IDX u = PDE_IDX v then f OR 7 else pde m u)" for u using pd by blast
  have wt: "wf_tables m" using wf by (simp add: wf_mem_def)
  have ff: "frame (pde m u) \<noteq> f" if "present (pde m u)" for u
    using f wf that by (auto simp: wf_mem_def tables_def)
  have same: "vmap ?m u = vmap m u" if "\<not> window u" "PDE_IDX u \<noteq> PDE_IDX v" for u
  proof (cases "present (pde m u)")
    case True
    then have "phys ?m (pte_cell m u) = phys m (pte_cell m u)"
      using fr ff [OF True] wt that(1) by (simp add: pte_cell_frame wf_tables_def)
    moreover have "pte_cell ?m u = pte_cell m u" using that by (simp add: pte_cell_def pdv)
    ultimately show ?thesis using that unfolding vmap_eq [of ?m] vmap_eq [of m] by (simp add: pdv)
  next
    case False
    then show ?thesis using that unfolding vmap_eq [of ?m] vmap_eq [of m] by (simp add: pdv)
  qed
  have new: "vmap ?m u = (if PTE_IDX u = PTE_IDX v then Some (p + (u AND 0xfff)) else None)"
    if "PDE_IDX u = PDE_IDX v" for u
    using that e pt unfolding vmap_eq [of ?m] by (simp add: pdv pte_cell_def)
  have old: "vmap m u = None" if "PDE_IDX u = PDE_IDX v" for u
    using that False by (simp add: vmap_eq pde_def)
  have cell: "present (pde ?m u) \<and> pte_cell ?m u = pte_cell ?m v \<longleftrightarrow> PDE_IDX u = PDE_IDX v \<and> PTE_IDX u = PTE_IDX v" for u
    using e ff [of u] by (auto simp: pte_cell_eq_iff pdv)
  have "vmap ?m u = (if PDE_IDX u = PDE_IDX v \<and> PTE_IDX u = PTE_IDX v then Some (p + (u AND 0xfff)) else vmap m u)"
    if "\<not> window u" for u
    using same [OF that] new [of u] old [of u] by (cases "PDE_IDX u = PDE_IDX v") simp_all
  then have "mapped_to m ?m v p"
    unfolding mapped_to_def cell using e(1) by (simp add: pdv)
  moreover have "tables ?m = tables m \<union> {f}"
  proof -
    have "PDE_IDX u \<noteq> PDE_IDX v" if "present (pde m u)" for u using that False by (auto simp: pde_def)
    then have "tables m \<subseteq> tables ?m" by (auto simp: tables_def pdv)
    moreover have "f \<in> tables ?m" using e(1) by (auto simp: tables_def pdv intro: exI [of _ v])
    ultimately show ?thesis using e(1) by (auto simp: tables_def pdv split: if_splits)
  qed
  moreover have "cr3 m \<in> tables m" using cr3_in_tables [OF wt] .
  moreover have "same_space m ?m" using cb by (simp add: same_space_def pool_cap_def)
  ultimately show ?thesis
    using that [of ?m] m' wf' fb f fr by (force intro!: exI [of _ "{f}"])
qed

text \<open>Pages outside the table shared by directory entries 0 and 768 and outside the window.\<close>

text \<open>Where \<^verbatim>\<open>page_table_add\<close> writes: the directory entry of the address and its page table, which is a
  frame that was free when the table is new.\<close>

lemma page_table_add_local:
  assumes wf: "wf_mem m" and un: "vmap m v = None" and w: "\<not> window v"
    and enough: "present (pde m v) \<or> free_frames (kernel_pool m) \<noteq> {}" and r: "page_table_add v p m = Inr m'"
  shows "\<forall>u. PDE_IDX u \<noteq> PDE_IDX v \<longrightarrow> pde m' u = pde m u"
    and "\<forall>a. frame a \<noteq> cr3 m \<and> frame a \<noteq> frame (pde m' v) \<longrightarrow> phys m' a = phys m a"
    and "frame (pde m' v) \<in> free_frames (kernel_pool m) \<or> present (pde m v) \<and> pde m' v = pde m v"
proof -
  have wt: "wf_tables m" and wk: "wf_pool (kernel_pool m)" using wf by (simp_all add: wf_mem_def)
  have "(\<forall>u. PDE_IDX u \<noteq> PDE_IDX v \<longrightarrow> pde m' u = pde m u) \<and>
    (\<forall>a. frame a \<noteq> cr3 m \<and> frame a \<noteq> frame (pde m' v) \<longrightarrow> phys m' a = phys m a) \<and>
    (frame (pde m' v) \<in> free_frames (kernel_pool m) \<or> present (pde m v) \<and> pde m' v = pde m v)"
  proof (cases "present (pde m v)")
    case True
    have m': "m' = set_pte v (p OR 7) m" using r page_table_add_present [OF wf True un] by simp
    have pd: "pde m' u = pde m u" for u unfolding m' by (rule pde_set_pte [OF wt True w])
    have "phys m' a = phys m a" if "frame a \<noteq> frame (pde m v)" for a
      using that pte_cell_frame [of m v] by (auto simp: m' set_pte_def)
    then show ?thesis using pd True by simp
  next
    case False
    obtain f b ph where a: "page_table_add v p m = Inr (m\<lparr>kernel_pool := (kernel_pool m)\<lparr>pool_bitmap := b\<rparr>, phys := ph\<rparr>)"
      "f \<in> free_frames (kernel_pool m)" "\<forall>a. frame a \<noteq> f \<and> frame a \<noteq> cr3 m \<longrightarrow> ph a = phys m a"
      "\<forall>u. pde (m\<lparr>kernel_pool := (kernel_pool m)\<lparr>pool_bitmap := b\<rparr>, phys := ph\<rparr>) u = (if PDE_IDX u = PDE_IDX v then f OR 7 else pde m u)"
      by (rule page_table_add_absent [OF wf False w]) (use enough False in auto)
    have m': "m' = m\<lparr>kernel_pool := (kernel_pool m)\<lparr>pool_bitmap := b\<rparr>, phys := ph\<rparr>" using r a(1) by simp
    have "frame (f OR 7) = f" using entry_bits free_frames_props [OF wk a(2)] by blast
    then show ?thesis using a(2-4) unfolding m' by simp
  qed
  then show "\<forall>u. PDE_IDX u \<noteq> PDE_IDX v \<longrightarrow> pde m' u = pde m u"
    "\<forall>a. frame a \<noteq> cr3 m \<and> frame a \<noteq> frame (pde m' v) \<longrightarrow> phys m' a = phys m a"
    "frame (pde m' v) \<in> free_frames (kernel_pool m) \<or> present (pde m v) \<and> pde m' v = pde m v" by blast+
qed

definition ordinary :: "u32 \<Rightarrow> bool" where
  "ordinary v \<longleftrightarrow> PDE_IDX v \<noteq> 0 \<and> \<not> window v"

lemma frame_eq_iff: "frame u = frame v \<longleftrightarrow> PDE_IDX u = PDE_IDX v \<and> PTE_IDX u = PTE_IDX v"
proof -
  have f: "uint (frame x) = 4096 * (uint x div 4096)" for x
    by (simp add: uint_frame minus_mod_eq_mult_div)
  have "uint u div 4096 = uint v div 4096 \<longleftrightarrow>
      uint u div 4096 div 1024 = uint v div 4096 div 1024 \<and> uint u div 4096 mod 1024 = uint v div 4096 mod 1024"
    using mult_div_mod_eq [of 1024 "uint u div 4096"] mult_div_mod_eq [of 1024 "uint v div 4096"] by metis
  then show ?thesis
    by (simp add: u32_eq_iff f uint_PDE_IDX uint_PTE_IDX div_4194304)
qed

lemma pte_cell_ordinary:
  assumes "wf_tables m" and "present (pde m u)" and "present (pde m v)" and "ordinary u" and "ordinary v"
  shows "pte_cell m u = pte_cell m v \<longleftrightarrow> frame u = frame v"
proof -
  have "frame (pde m u) = frame (pde m v) \<longleftrightarrow> PDE_IDX u = PDE_IDX v"
    using assms by (auto simp: wf_tables_def ordinary_def doubleton_eq_iff pde_def)
  then show ?thesis by (simp add: pte_cell_eq_iff frame_eq_iff)
qed

lemma mapped_to_ordinary:
  assumes "mapped_to m m' v p" and "wf_tables m'" and "ordinary v" and "ordinary u"
  shows "vmap m' u = (if frame u = frame v then Some (p + (u AND 0xfff)) else vmap m u)"
proof -
  have "present (pde m' u)" if "frame u = frame v"
    using assms(1) that by (simp add: mapped_to_def pde_def frame_eq_iff)
  then show ?thesis
    using assms pte_cell_ordinary [OF assms(2), of u v] unfolding mapped_to_def ordinary_def by metis
qed

text \<open>\<^verbatim>\<open>page_table_pte_remove\<close> clears the entry.\<close>

lemma page_table_pte_remove_ok:
  "wf_mem m \<Longrightarrow> present (pde m v) \<Longrightarrow> page_table_pte_remove v m = Inr (set_pte v 0 m)"
  by (simp add: page_table_pte_remove_def wf_mem_def load_pte store_pte set_pte_def)

lemma addr_v2p_vmap: "wf_mem m \<Longrightarrow> vmap m v = Some a \<Longrightarrow> addr_v2p v m = Inr a"
  by (auto simp: addr_v2p_def wf_mem_def load_pte vmap_eq [of m v] split: if_splits)

section \<open>A sample machine\<close>

text \<open>The page directory at \<open>0x100000\<close> and one table at \<open>0x101000\<close> for entries 0 and 768, as the loader
  installs them, with two pools of eight frames.\<close>

definition sample_phys :: "u32 \<Rightarrow> u32" where
  "sample_phys a = (if a = 0x100ffc then 0x100007 else if a = 0x100000 \<or> a = 0x100c00 then 0x101007 else 0)"

definition sample_mem :: mem where
  "sample_mem =
     \<lparr>kernel_pool = \<lparr>pool_bitmap = \<lparr>btmp_bytes_len = 1, bits = [0]\<rparr>, phy_addr_start = 0x200000,
        pool_size = 0x8000, pool_lock = 0\<rparr>,
      user_pool = \<lparr>pool_bitmap = \<lparr>btmp_bytes_len = 1, bits = [0]\<rparr>, phy_addr_start = 0x208000,
        pool_size = 0x8000, pool_lock = 0\<rparr>,
      kernel_vaddr = \<lparr>vaddr_bitmap = \<lparr>btmp_bytes_len = 1, bits = [0]\<rparr>, vaddr_start = 0xc0100000\<rparr>,
      pgdir = 0,
      userprog_vaddr = \<lparr>vaddr_bitmap = \<lparr>btmp_bytes_len = 1, bits = [0]\<rparr>, vaddr_start = 0x8048000\<rparr>,
      cr3 = 0x100000, phys = sample_phys\<rparr>"

lemma sample_pde:
  "pde sample_mem v = (if PDE_IDX v = 1023 then 0x100007
     else if PDE_IDX v = 0 \<or> PDE_IDX v = 768 then 0x101007 else 0)"
proof -
  have "uint (0x100000 + 4 * PDE_IDX v) = 0x100000 + 4 * (uint v div 4194304)"
    using idx_small(1) [of v] uint_add_no_wrap [of "0x100000" "4 * PDE_IDX v"] by (simp add: uint_4_PDE)
  then show ?thesis
    by (simp add: pde_def sample_mem_def sample_phys_def u32_eq_iff uint_PDE_IDX)
qed

lemma sample_wf_tables: "wf_tables sample_mem"
proof -
  have "rec_mapped (cr3 sample_mem) (phys sample_mem)"
    by (simp add: rec_mapped_def sample_mem_def sample_phys_def frame_def present_def)
  moreover have "frame (0x100007 :: u32) = 0x100000" "frame (0x101007 :: u32) = 0x101000" "cr3 sample_mem = 0x100000"
    by (simp_all add: frame_def sample_mem_def)
  ultimately show ?thesis
    by (auto simp: wf_tables_def sample_pde window_def split: if_splits)
qed

lemma sample_tables: "tables sample_mem \<subseteq> {0x100000, 0x101000}"
  by (auto simp: tables_def sample_pde frame_def split: if_splits)

lemma sample_free_frames:
  "free_frames (kernel_pool sample_mem) = pool_frame (kernel_pool sample_mem) ` {..<8}"
  "free_frames (user_pool sample_mem) = pool_frame (user_pool sample_mem) ` {..<8}"
  by (auto simp: free_frames_def free_idx_def bm.free_bits_def sample_mem_def bm_cap_def bm_bit_def)

lemma sample_wf_pool: "wf_pool (kernel_pool sample_mem)" "wf_pool (user_pool sample_mem)"
  by (simp_all add: wf_pool_def wf_bitmap_def sample_mem_def frame_def pool_cap_def bm_cap_def)

lemma sample_cap: "pool_cap (kernel_pool sample_mem) = 8" "pool_cap (user_pool sample_mem) = 8"
  by (simp_all add: pool_cap_def bm_cap_def sample_mem_def)

lemma sample_free_ge:
  "f \<in> free_frames (kernel_pool sample_mem) \<or> f \<in> free_frames (user_pool sample_mem) \<Longrightarrow> 0x200000 \<le> unat f"
  using unat_pool_frame [OF sample_wf_pool(1)] unat_pool_frame [OF sample_wf_pool(2)]
  by (auto simp: sample_free_frames sample_cap) (simp_all add: sample_mem_def)

lemma sample_wf_mem: "wf_mem sample_mem"
proof -
  have "f \<notin> tables sample_mem" if "0x200000 \<le> unat f" for f using sample_tables that by auto
  then have "tables sample_mem \<inter> free_frames (kernel_pool sample_mem) = {}"
    "tables sample_mem \<inter> free_frames (user_pool sample_mem) = {}"
    using sample_free_ge by blast+
  then show ?thesis
    using sample_wf_tables sample_wf_pool sample_cap unfolding wf_mem_def by (simp add: sample_mem_def)
qed

lemma sample_card: "card (free_frames (kernel_pool sample_mem)) = 8" "card (free_frames (user_pool sample_mem)) = 8"
  using pool_frame_inj [OF sample_wf_pool(1)] pool_frame_inj [OF sample_wf_pool(2)]
  by (simp_all add: sample_free_frames sample_cap card_image inj_on_def)

lemma sample_unmapped: "ordinary v \<Longrightarrow> vmap sample_mem v = None"
proof -
  assume o: "ordinary v"
  have "phys sample_mem (0x101000 + 4 * PTE_IDX v) = 0"
  proof -
    have "uint (0x101000 + 4 * PTE_IDX v) = 0x101000 + 4 * (uint v div 4096 mod 1024)"
      using idx_small(2) [of v] uint_add_no_wrap [of "0x101000" "4 * PTE_IDX v"] by (simp add: uint_4_PTE)
    moreover have "0 \<le> uint v div 4096 mod 1024" by simp
    ultimately show ?thesis by (auto simp: sample_mem_def sample_phys_def u32_eq_iff)
  qed
  moreover have "frame (0x101007 :: u32) = 0x101000" by (simp add: frame_def)
  ultimately show ?thesis
    using o unfolding vmap_eq [of sample_mem] by (auto simp: pte_cell_def sample_pde ordinary_def window_def)
qed

section \<open>Properties\<close>

text \<open>
  The recursive mapping works: reading through \<^verbatim>\<open>pde_ptr(v)\<close> gives the page directory entry of \<open>v\<close>,
  and reading through \<^verbatim>\<open>pte_ptr(v)\<close> gives its page table entry, or faults when the table is absent.
\<close>

theorem window_reaches_entries:
  assumes "wf_tables m"
  shows "load m (pde_ptr v) = Inr (phys m (cr3 m + 4 * PDE_IDX v)) \<and>
         load m (pte_ptr v) =
           (if present (phys m (cr3 m + 4 * PDE_IDX v))
            then Inr (phys m (frame (phys m (cr3 m + 4 * PDE_IDX v)) + 4 * PTE_IDX v))
            else Inl PageFault)"
  using load_pde [OF assms, of v] load_pte [OF assms, of v] load_pte_absent [OF assms, of v]
  by (simp add: pde_def pte_cell_def)

theorem window_reaches_entries_witness: "load sample_mem (pde_ptr 0xc0100000) = Inr 0x101007"
  using window_reaches_entries [OF sample_wf_tables, of "0xc0100000"] sample_pde [of "0xc0100000"]
  by (simp add: pde_def PDE_IDX_def)

text \<open>
  C36. \<^verbatim>\<open>page_table_add\<close> maps an unmapped page to the given frame: it allocates and clears a page
  table when there is none, keeps the invariant of tables and pools, \<^verbatim>\<open>addr_v2p\<close> then returns the
  frame's address, and the translation of every other address changes only if it shares the
  written table entry.
\<close>

theorem page_table_add_maps:
  assumes "wf_mem m" and "vmap m v = None" and "\<not> window v" and "frame p = p"
    and "present (pde m v) \<or> free_frames (kernel_pool m) \<noteq> {}"
  shows "\<exists>m'. page_table_add v p m = Inr m' \<and> wf_mem m' \<and> addr_v2p v m' = Inr (p + (v AND 0xfff)) \<and>
     (\<forall>u. \<not> window u \<longrightarrow> vmap m' u =
        (if present (pde m' u) \<and> pte_cell m' u = pte_cell m' v then Some (p + (u AND 0xfff)) else vmap m u))"
proof -
  obtain m' where m': "page_table_add v p m = Inr m'" "wf_mem m'" "same_space m m'" "mapped_to m m' v p"
    "\<exists>t. free_frames (kernel_pool m') = free_frames (kernel_pool m) - t \<and> card t \<le> 1 \<and>
       tables m' = tables m \<union> t \<and> t \<subseteq> free_frames (kernel_pool m)"
    "\<forall>a. frame a \<notin> tables m' \<longrightarrow> phys m' a = phys m a"
    by (rule page_table_add_ok [OF assms])
  then have "vmap m' v = Some (p + (v AND 0xfff))" using assms(3) by (simp add: mapped_to_def)
  then show ?thesis using m' addr_v2p_vmap by (auto simp: mapped_to_def)
qed

theorem page_table_add_maps_witness:
  "\<exists>m'. page_table_add 0x8048000 0x208000 sample_mem = Inr m' \<and> addr_v2p 0x8048000 m' = Inr 0x208000"
proof -
  have "ordinary 0x8048000" by (simp add: ordinary_def window_def PDE_IDX_def)
  moreover from this have "vmap sample_mem 0x8048000 = None" by (rule sample_unmapped)
  moreover have "free_frames (kernel_pool sample_mem) \<noteq> {}" using sample_card by force
  ultimately show ?thesis
    using page_table_add_maps [OF sample_wf_mem, of "0x8048000" "0x208000"]
    by (auto simp: frame_def ordinary_def)
qed

end
