(* ===== verification/Page_Alloc.thy ===== *)
theory Page_Alloc
  imports Address_Space
begin

text \<open>
  Correctness of the multi-page operations of \<^verbatim>\<open>kernel/memory.c\<close>: \<^verbatim>\<open>malloc_page\<close> maps a run of
  unused virtual pages to distinct fresh frames, and \<^verbatim>\<open>mfree_page\<close> gives them back.
\<close>

section \<open>Runs of pages\<close>

definition pg :: "u32 \<Rightarrow> nat \<Rightarrow> u32" where
  "pg v i = v + of_nat i * 4096"

lemma pg_0 [simp]: "pg v 0 = v"
  by (simp add: pg_def)

lemma pg_Suc: "pg v (Suc i) = pg (v + 4096) i"
  by (simp add: pg_def algebra_simps)

lemma unat_pg:
  assumes "unat v + i * 4096 < 2 ^ 32"
  shows "unat (pg v i) = unat v + i * 4096"
proof -
  have "unat (of_nat (unat v + i * 4096) :: u32) = unat v + i * 4096"
    using assms by (simp add: unat_of_nat del: of_nat_add of_nat_mult)
  then show ?thesis by (simp add: pg_def)
qed

lemma frame_pg: "frame v = v \<Longrightarrow> frame (pg v i) = pg v i"
proof -
  assume "frame v = v"
  then have "uint v mod 4096 = 0" by (simp add: frame_aligned)
  moreover have "uint (of_nat i * 4096 :: u32) mod 4096 = 0"
    by (simp add: uint_word_ariths mod_mod_cancel)
  ultimately have "(uint v + uint (of_nat i * 4096 :: u32)) mod 4096 = 0"
    by (simp add: mod_add_eq [symmetric])
  then have "uint (pg v i) mod 4096 = 0"
    unfolding pg_def uint_word_ariths by (simp add: mod_mod_cancel)
  then show ?thesis by (simp add: frame_aligned)
qed

lemma pg_inj:
  "unat v + n * 4096 \<le> 2 ^ 32 \<Longrightarrow> i < n \<Longrightarrow> j < n \<Longrightarrow> pg v i = pg v j \<longleftrightarrow> i = j"
proof
  assume "unat v + n * 4096 \<le> 2 ^ 32" "i < n" "j < n" "pg v i = pg v j"
  moreover from this have "unat v + i * 4096 < 2 ^ 32" "unat v + j * 4096 < 2 ^ 32" by simp_all
  ultimately have "unat v + i * 4096 = unat v + j * 4096" using unat_pg by metis
  then show "i = j" by simp
qed simp

lemma ordinary_range: "0x400000 \<le> unat v \<Longrightarrow> unat v < 0xffc00000 \<Longrightarrow> ordinary v"
proof -
  assume "0x400000 \<le> unat v" "unat v < 0xffc00000"
  moreover have "uint v = int (unat v)" by simp
  ultimately have "0x400000 \<le> uint v" "uint v < 0xffc00000" by linarith+
  then have "1 \<le> uint v div 4194304" "uint v div 4194304 < 1023" by auto
  then show ?thesis by (auto simp: ordinary_def window_def u32_eq_iff uint_PDE_IDX)
qed

lemma ordinary_pg:
  "0x400000 \<le> unat v \<Longrightarrow> unat v + n * 4096 \<le> 0xffc00000 \<Longrightarrow> i < n \<Longrightarrow> ordinary (pg v i)"
  using unat_pg [of v i] by (intro ordinary_range) auto

lemma bitmap_set_run_ok:
  assumes "wf_bitmap b" and "i + n \<le> bm_cap b" and "v = 0 \<or> v = 1"
  shows "\<exists>b'. bitmap_set_run b i n v = Inr b' \<and> wf_bitmap b' \<and> bm_cap b' = bm_cap b \<and>
           (\<forall>j. bm_bit b' j = (if i \<le> j \<and> j < i + n then v = 1 else bm_bit b j))"
  using assms
proof (induction n arbitrary: b i)
  case (Suc n)
  obtain b1 where b1: "bitmap_set b i v = Inr b1" "wf_bitmap b1" "bm_cap b1 = bm_cap b"
    "\<forall>j. bm_bit b1 j = (if j = i then v = 1 else bm_bit b j)"
    using wf_bitmap_set [of b i v] Suc.prems by auto
  obtain b2 where "bitmap_set_run b1 (Suc i) n v = Inr b2" "wf_bitmap b2" "bm_cap b2 = bm_cap b1"
    "\<forall>j. bm_bit b2 j = (if Suc i \<le> j \<and> j < Suc i + n then v = 1 else bm_bit b1 j)"
    using Suc.IH [of b1 "Suc i"] b1 Suc.prems by auto
  then show ?case using b1 by (intro exI [of _ b2]) auto
qed auto

section \<open>Mapping a run\<close>

definition pool_same :: "pool \<Rightarrow> pool \<Rightarrow> bool" where
  "pool_same p p' \<longleftrightarrow> pool_lock p' = pool_lock p \<and> pool_cap p' = pool_cap p \<and>
     phy_addr_start p' = phy_addr_start p \<and> pool_size p' = pool_size p"

text \<open>Everything but the pools' bitmaps and memory is unchanged.\<close>

definition same_ctl :: "mem \<Rightarrow> mem \<Rightarrow> bool" where
  "same_ctl m m' \<longleftrightarrow> kernel_vaddr m' = kernel_vaddr m \<and> userprog_vaddr m' = userprog_vaddr m \<and>
     pgdir m' = pgdir m \<and> cr3 m' = cr3 m \<and> pool_same (kernel_pool m) (kernel_pool m') \<and>
     pool_same (user_pool m) (user_pool m')"

lemma same_ctl_refl [simp]: "same_ctl m m"
  by (simp add: same_ctl_def pool_same_def)

lemma same_ctl_trans [trans]: "same_ctl a b \<Longrightarrow> same_ctl b c \<Longrightarrow> same_ctl a c"
  by (simp add: same_ctl_def pool_same_def)

lemma same_space_ctl: "same_space m m' \<Longrightarrow> same_ctl m m'"
  by (simp add: same_space_def same_ctl_def pool_same_def)

lemma mem_pool_upd_pool [simp]: "mem_pool pf (upd_pool pf p m) = p"
  by (simp add: mem_lens)

lemma upd_pool_fields [simp]:
  "cr3 (upd_pool pf p m) = cr3 m" "phys (upd_pool pf p m) = phys m" "pgdir (upd_pool pf p m) = pgdir m"
  "kernel_vaddr (upd_pool pf p m) = kernel_vaddr m" "userprog_vaddr (upd_pool pf p m) = userprog_vaddr m"
  by (simp_all add: upd_pool_def)

lemma pde_upd_pool [simp]: "pde (upd_pool pf p m) = pde m"
  by (simp add: pde_def fun_eq_iff)

lemma tables_upd_pool [simp]: "tables (upd_pool pf p m) = tables m"
  by (simp add: tables_def)

lemma wf_tables_upd_pool [simp]: "wf_tables (upd_pool pf p m) = wf_tables m"
  by (simp add: wf_tables_def)

lemma wf_mem_upd_pool:
  assumes "wf_mem m" and "wf_pool p" and "pool_same (mem_pool pf m) p"
    and "tables m \<inter> free_frames p = {}"
  shows "wf_mem (upd_pool pf p m)"
  using assms by (cases pf) (auto simp: wf_mem_def pool_same_def mem_pool_def, auto simp: upd_pool_def)

lemma wf_mem_pool: "wf_mem m \<Longrightarrow> wf_pool (mem_pool pf m)"
  by (simp add: wf_mem_def mem_pool_def)

text \<open>A number of free frames that is enough to map \<open>n\<close> pages: one per page, and one per page for
  page tables.\<close>

definition enough :: "pool_flags \<Rightarrow> nat \<Rightarrow> mem \<Rightarrow> bool" where
  "enough pf n m \<longleftrightarrow> (if pf = PF_KERNEL then 2 * n \<le> card (free_frames (kernel_pool m))
     else n \<le> card (free_frames (user_pool m)) \<and> n \<le> card (free_frames (kernel_pool m)))"

text \<open>One iteration: a frame from the pool is mapped at an unmapped page.\<close>

lemma map_one:
  assumes wf: "wf_mem m" and v: "ordinary v" "frame v = v" "vmap m v = None" and en: "enough pf (Suc n) m"
  obtains f p m2 where "palloc (mem_pool pf m) = Inr (f, p)" and "f \<noteq> 0"
    and "page_table_add v f (upd_pool pf p m) = Inr m2"
    and "wf_mem m2" and "same_ctl m m2" and "f \<in> free_frames (mem_pool pf m)" and "f \<notin> tables m2"
    and "\<forall>u. ordinary u \<longrightarrow> vmap m2 u = (if frame u = v then Some (f + (u AND 0xfff)) else vmap m u)"
    and "\<forall>qf. free_frames (mem_pool qf m2) = free_frames (mem_pool qf m) - {f} - tables m2"
    and "tables m \<subseteq> tables m2 \<and> tables m2 \<subseteq> tables m \<union> free_frames (kernel_pool m)" and "enough pf n m2"
    and "\<forall>a. frame a \<notin> tables m2 \<longrightarrow> phys m2 a = phys m a"
    and "\<forall>u. PDE_IDX u \<noteq> PDE_IDX v \<longrightarrow> pde m2 u = pde m u"
    and "\<forall>a. frame a \<noteq> cr3 m \<and> frame a \<noteq> frame (pde m2 v) \<longrightarrow> phys m2 a = phys m a"
    and "frame (pde m2 v) \<in> free_frames (kernel_pool m) \<or> present (pde m v) \<and> pde m2 v = pde m v"
proof -
  have ne: "free_frames (mem_pool pf m) \<noteq> {}"
    using en by (auto simp: enough_def mem_pool_def split: if_splits)
  obtain f b where pa: "palloc (mem_pool pf m) = Inr (f, (mem_pool pf m)\<lparr>pool_bitmap := b\<rparr>)"
    and f: "f \<in> free_frames (mem_pool pf m)" and wp: "wf_pool ((mem_pool pf m)\<lparr>pool_bitmap := b\<rparr>)"
    and ff: "free_frames ((mem_pool pf m)\<lparr>pool_bitmap := b\<rparr>) = free_frames (mem_pool pf m) - {f}"
    and cb: "bm_cap b = pool_cap (mem_pool pf m)"
    by (rule palloc_ok [OF wf_mem_pool [OF wf] ne])
  let ?p = "(mem_pool pf m)\<lparr>pool_bitmap := b\<rparr>" let ?m = "upd_pool pf ?p m"
  have ps: "pool_same (mem_pool pf m) ?p" using cb by (simp add: pool_same_def pool_cap_def)
  have td: "tables m \<inter> free_frames (mem_pool pf m) = {}" using wf by (simp add: wf_mem_def mem_pool_def)
  have wf1: "wf_mem ?m" using ff td by (intro wf_mem_upd_pool [OF wf wp ps]) auto
  have fp: "f \<noteq> 0" "frame f = f" using free_frames_props [OF wf_mem_pool [OF wf] f] by auto
  have fs1: "free_frames (mem_pool qf ?m) = free_frames (mem_pool qf m) - {f}" for qf
    using f ff pool_frames_disjoint [OF wf] by (cases pf; cases qf) (auto simp: mem_lens)
  have k1: "free_frames (kernel_pool ?m) = free_frames (kernel_pool m) - {f}"
    using fs1 [of PF_KERNEL] by (simp add: mem_pool_def)
  have ck: "card (free_frames (kernel_pool ?m)) \<ge> Suc (if pf = PF_KERNEL then 2 * n else n)"
    using en k1 f pool_frames_disjoint [OF wf]
    by (cases pf) (auto simp: enough_def mem_pool_def disjoint_iff card_Diff_singleton_if)
  then have nk: "free_frames (kernel_pool ?m) \<noteq> {}" by auto
  then obtain m2 where m2: "page_table_add v f ?m = Inr m2" "wf_mem m2" "same_space ?m m2" "mapped_to ?m m2 v f"
    "\<exists>t. free_frames (kernel_pool m2) = free_frames (kernel_pool ?m) - t \<and> card t \<le> 1 \<and>
           tables m2 = tables ?m \<union> t \<and> t \<subseteq> free_frames (kernel_pool ?m)"
    "\<forall>a. frame a \<notin> tables m2 \<longrightarrow> phys m2 a = phys ?m a"
    using page_table_add_ok [OF wf1, of v f] v fp by (auto simp: ordinary_def)
  obtain t where t: "free_frames (kernel_pool m2) = free_frames (kernel_pool ?m) - t" "card t \<le> 1"
      "tables m2 = tables m \<union> t" "t \<subseteq> free_frames (kernel_pool ?m)"
    using m2(5) by auto
  have u2: "user_pool m2 = user_pool ?m" using m2(3) by (simp add: same_space_def)
  have sub: "\<forall>qf. free_frames (mem_pool qf m2) = free_frames (mem_pool qf m) - {f} - tables m2"
  proof -
    have "free_frames (user_pool ?m) = free_frames (user_pool m) - {f}"
      using fs1 [of PF_USER] by (simp add: mem_pool_def)
    moreover have "t \<inter> free_frames (user_pool m) = {}" "tables m \<inter> free_frames (user_pool m) = {}"
      "tables m \<inter> free_frames (kernel_pool m) = {}"
      using t(4) k1 pool_frames_disjoint [OF wf] wf by (auto simp: wf_mem_def)
    ultimately have "free_frames (user_pool m2) = free_frames (user_pool m) - {f} - tables m2"
      "free_frames (kernel_pool m2) = free_frames (kernel_pool m) - {f} - tables m2"
      unfolding u2 t(1,3) k1 by auto
    then show ?thesis by (simp add: mem_pool_def)
  qed
  have "card (free_frames (kernel_pool m2)) \<ge> (if pf = PF_KERNEL then 2 * n else n)"
    using ck t(1,2) diff_card_le_card_Diff [of t "free_frames (kernel_pool ?m)"] finite_subset [OF t(4)]
    by simp
  moreover have "n \<le> card (free_frames (user_pool m2))" if "pf = PF_USER"
  proof -
    have "Suc n \<le> card (free_frames (user_pool m))" using en that by (simp add: enough_def)
    moreover have "free_frames (user_pool m2) = free_frames (user_pool m) - {f}"
      using fs1 [of PF_USER] by (simp add: mem_pool_def u2)
    ultimately show ?thesis using f that by (simp add: mem_pool_def card_Diff_singleton_if)
  qed
  ultimately have en2: "enough pf n m2" by (cases pf) (auto simp: enough_def)
  have "same_ctl m ?m" using ps by (cases pf) (auto simp: same_ctl_def mem_lens pool_same_def)
  then have sc: "same_ctl m m2" using same_space_ctl [OF m2(3)] same_ctl_trans by blast
  have nt: "f \<notin> tables m2" using t(3,4) k1 f td by auto
  have vm: "\<forall>u. ordinary u \<longrightarrow> vmap m2 u = (if frame u = v then Some (f + (u AND 0xfff)) else vmap m u)"
    using mapped_to_ordinary [OF m2(4)] m2(2) v by (simp add: wf_mem_def)
  have un1: "vmap ?m v = None" "\<not> window v" using v by (simp_all add: ordinary_def)
  note loc = page_table_add_local [OF wf1 un1 disjI2 [OF nk] m2(1)]
  have l3: "frame (pde m2 v) \<in> free_frames (kernel_pool m) \<or> present (pde m v) \<and> pde m2 v = pde m v" using loc(3) k1 by auto
  have tb: "tables m \<subseteq> tables m2 \<and> tables m2 \<subseteq> tables m \<union> free_frames (kernel_pool m)" using t(3,4) k1 by auto
  show ?thesis
    using that [OF pa fp(1) m2(1,2) sc f nt vm sub tb en2 _ _ _ l3] m2(6) loc(1,2) by simp
qed

text \<open>The result of mapping a run: the pages \<open>pg v i\<close> have got the frames \<open>fs ! i\<close>.\<close>

definition run_mapped :: "pool_flags \<Rightarrow> mem \<Rightarrow> mem \<Rightarrow> u32 \<Rightarrow> u32 list \<Rightarrow> bool" where
  "run_mapped pf m m' v fs \<longleftrightarrow>
     distinct fs \<and> set fs \<subseteq> free_frames (mem_pool pf m) \<and>
     (\<forall>qf. free_frames (mem_pool qf m') = free_frames (mem_pool qf m) - set fs - tables m') \<and>
     (\<forall>i < length fs. vmap m' (pg v i) = Some (fs ! i)) \<and>
     (\<forall>u. ordinary u \<and> (\<forall>i < length fs. frame u \<noteq> pg v i) \<longrightarrow> vmap m' u = vmap m u)"

lemma map_pages_ok:
  assumes "wf_mem m" and "frame v = v" and "0x400000 \<le> unat v" and "unat v + n * 4096 \<le> 0xffc00000"
    and "\<forall>i < n. vmap m (pg v i) = None" and "enough pf n m"
  shows "\<exists>m' fs. map_pages pf n v m = Inr (True, m') \<and> wf_mem m' \<and> same_ctl m m' \<and> length fs = n \<and>
     run_mapped pf m m' v fs \<and> set fs \<inter> tables m' = {} \<and>
     tables m \<subseteq> tables m' \<and> tables m' \<subseteq> tables m \<union> free_frames (kernel_pool m) \<and>
     (\<forall>a. frame a \<notin> tables m' \<longrightarrow> phys m' a = phys m a)"
  using assms
proof (induction n arbitrary: v m)
  case 0
  then show ?case
    by (intro exI [of _ m] exI [of _ "[]"]) (auto simp: run_mapped_def wf_mem_def mem_pool_def)
next
  case (Suc n)
  have ov: "ordinary (pg v i)" if "i < Suc n" for i using ordinary_pg Suc.prems(3,4) that by blast
  have v0: "ordinary v" "vmap m v = None" using ov [of 0] Suc.prems(5) by auto
  obtain f p m2 where m2: "palloc (mem_pool pf m) = Inr (f, p)" "f \<noteq> 0"
    "page_table_add v f (upd_pool pf p m) = Inr m2"
    "wf_mem m2" "same_ctl m m2" "f \<in> free_frames (mem_pool pf m)" "f \<notin> tables m2"
    "\<forall>u. ordinary u \<longrightarrow> vmap m2 u = (if frame u = v then Some (f + (u AND 0xfff)) else vmap m u)"
    "\<forall>qf. free_frames (mem_pool qf m2) = free_frames (mem_pool qf m) - {f} - tables m2"
    "tables m \<subseteq> tables m2 \<and> tables m2 \<subseteq> tables m \<union> free_frames (kernel_pool m)" "enough pf n m2"
    "\<forall>a. frame a \<notin> tables m2 \<longrightarrow> phys m2 a = phys m a"
    by (rule map_one [OF Suc.prems(1) v0(1) Suc.prems(2) v0(2) Suc.prems(6)])
  have next_pg: "pg (v + 4096) i = pg v (Suc i)" for i by (simp add: pg_Suc)
  have neq: "pg v (Suc i) \<noteq> v" if "i < n" for i
    using pg_inj [of v "Suc n" "Suc i" 0] Suc.prems(4) that by simp
  have al: "frame (pg v i) = pg v i" for i using frame_pg Suc.prems(2) by blast
  have "unat (v + 4096) = unat v + 4096"
    using unat_pg [of v 1] Suc.prems(4) by (simp add: pg_def)
  then have "0x400000 \<le> unat (v + 4096)" "unat (v + 4096) + n * 4096 \<le> 0xffc00000"
    "frame (v + 4096) = v + 4096"
    using Suc.prems(3,4) al [of 1] by (simp_all add: pg_def)
  moreover have "\<forall>i < n. vmap m2 (pg (v + 4096) i) = None"
    using m2(8) ov neq Suc.prems(5) by (simp add: next_pg al)
  ultimately obtain m' fs where m': "map_pages pf n (v + 4096) m2 = Inr (True, m')" "wf_mem m'"
    "same_ctl m2 m'" "length fs = n" "run_mapped pf m2 m' (v + 4096) fs" "set fs \<inter> tables m' = {}"
    "tables m2 \<subseteq> tables m'" "tables m' \<subseteq> tables m2 \<union> free_frames (kernel_pool m2)"
    "\<forall>a. frame a \<notin> tables m' \<longrightarrow> phys m' a = phys m2 a"
    using Suc.IH [OF m2(4), of "v + 4096"] m2(11) by blast
  have k2: "free_frames (kernel_pool m2) \<subseteq> free_frames (kernel_pool m) - {f}"
    using m2(9) [rule_format, of PF_KERNEL] by (simp add: mem_pool_def)
  have "\<forall>i < length fs. frame v \<noteq> pg (v + 4096) i" using neq m'(4) Suc.prems(2) by (metis next_pg)
  then have "vmap m' v = vmap m2 v" using m'(5) v0(1) unfolding run_mapped_def by blast
  then have "vmap m' v = Some f"
    using m2(8) v0(1) Suc.prems(2) uint_in_page(3) [OF Suc.prems(2), of 0] by simp
  then have "vmap m' (pg v i) = Some ((f # fs) ! i)" if "i < Suc n" for i
    using that m'(4,5) by (cases i) (simp_all add: run_mapped_def next_pg)
  moreover have "vmap m' u = vmap m u" if "ordinary u" "\<forall>i < Suc n. frame u \<noteq> pg v i" for u
  proof -
    have "\<forall>i < length fs. frame u \<noteq> pg (v + 4096) i" using that(2) m'(4) by (simp add: next_pg)
    then have "vmap m' u = vmap m2 u" using m'(5) that(1) unfolding run_mapped_def by blast
    then show ?thesis using m2(8) that(1) that(2) [rule_format, of 0] by simp
  qed
  moreover have "free_frames (mem_pool qf m') = free_frames (mem_pool qf m) - set (f # fs) - tables m'" for qf
    using m'(5,7) m2(9) by (auto simp: run_mapped_def)
  ultimately have "run_mapped pf m m' v (f # fs)"
    using m'(4,5) m2(6,9) by (auto simp: run_mapped_def)
  moreover have "f \<notin> tables m'" using m'(8) m2(7) k2 by auto
  ultimately show ?case
    using m2 m' k2 same_ctl_trans [OF m2(5) m'(3)]
    by (intro exI [of _ m'] exI [of _ "f # fs"]) auto
qed

section \<open>Allocation\<close>

definition vrange :: "pool_flags \<Rightarrow> virtual_addr \<Rightarrow> bool" where
  "vrange pf va \<longleftrightarrow>
     (let lo = unat (vaddr_start va); hi = lo + bm_cap (vaddr_bitmap va) * 4096
      in if pf = PF_KERNEL then 0xc0100000 \<le> lo \<and> hi \<le> 0xffc00000 else 0x400000 \<le> lo \<and> hi \<le> 0xc0000000)"

text \<open>A virtual pool is in step with the page tables: a page whose bit is clear is not mapped.\<close>

definition wf_vpool :: "pool_flags \<Rightarrow> mem \<Rightarrow> bool" where
  "wf_vpool pf m \<longleftrightarrow> (let va = vpool pf m in
     wf_bitmap (vaddr_bitmap va) \<and> frame (vaddr_start va) = vaddr_start va \<and> vrange pf va \<and>
     (\<forall>i < bm_cap (vaddr_bitmap va). \<not> bm_bit (vaddr_bitmap va) i \<longrightarrow> vmap m (pg (vaddr_start va) i) = None))"

lemma pg_pg: "pg (pg v i) j = pg v (i + j)"
  by (simp add: pg_def algebra_simps)

lemma vrange_bounds:
  "vrange pf va \<Longrightarrow> 0x400000 \<le> unat (vaddr_start va) \<and>
     unat (vaddr_start va) + bm_cap (vaddr_bitmap va) * 4096 \<le> 0xffc00000"
  by (auto simp: vrange_def Let_def split: if_splits)

lemma upd_vpool_fields [simp]:
  "cr3 (upd_vpool pf va m) = cr3 m" "phys (upd_vpool pf va m) = phys m" "pgdir (upd_vpool pf va m) = pgdir m"
  "kernel_pool (upd_vpool pf va m) = kernel_pool m" "user_pool (upd_vpool pf va m) = user_pool m"
  "vpool qf (upd_vpool pf va m) = (if qf = pf then va else vpool qf m)"
  "mem_pool qf (upd_vpool pf va m) = mem_pool qf m"
  by (cases pf; cases qf; simp add: mem_lens)+

lemma pde_upd_vpool [simp]: "pde (upd_vpool pf va m) = pde m"
  by (simp add: pde_def fun_eq_iff)

lemma wf_mem_upd_vpool [simp]: "wf_mem (upd_vpool pf va m) = wf_mem m"
  by (simp add: wf_mem_def wf_tables_def tables_def)

lemma tables_upd_vpool [simp]: "tables (upd_vpool pf va m) = tables m"
  by (simp add: tables_def)

lemma enough_upd_vpool [simp]: "enough pf n (upd_vpool qf va m) = enough pf n m"
  by (simp add: enough_def)

lemma vaddr_get_ok:
  assumes vp: "wf_vpool pf m" and n: "0 < n"
    and run: "clear_run (vaddr_bitmap (vpool pf m)) s n" "s + n \<le> bm_cap (vaddr_bitmap (vpool pf m))"
    and top: "pf = PF_USER \<longrightarrow> unat (pg (vaddr_start (vpool pf m)) s) < 0xbffff000"
  obtains s' b where "s' \<le> s" and "clear_run (vaddr_bitmap (vpool pf m)) s' n"
    and "vaddr_get pf n m = Inr (pg (vaddr_start (vpool pf m)) s',
           upd_vpool pf ((vpool pf m)\<lparr>vaddr_bitmap := b\<rparr>) m)"
    and "wf_bitmap b" and "bm_cap b = bm_cap (vaddr_bitmap (vpool pf m))"
    and "\<forall>j. bm_bit b j \<longleftrightarrow> s' \<le> j \<and> j < s' + n \<or> bm_bit (vaddr_bitmap (vpool pf m)) j"
proof -
  let ?va = "vpool pf m" let ?b = "vaddr_bitmap ?va" let ?v = "vaddr_start ?va"
  have wb: "wf_bitmap ?b" and vr: "vrange pf ?va" using vp by (simp_all add: wf_vpool_def Let_def)
  obtain s' where s': "s' \<le> s" "clear_run ?b s' n" "\<forall>t < s'. \<not> clear_run ?b t n"
    using least_run [OF run(1)] .
  then have sc: "bitmap_scan ?b n = Inr (int s')" using wb n run by (intro bitmap_scan_finds) auto
  obtain b where b: "bitmap_set_run ?b s' n 1 = Inr b" "wf_bitmap b" "bm_cap b = bm_cap ?b"
    "\<forall>j. bm_bit b j = (if s' \<le> j \<and> j < s' + n then True else bm_bit ?b j)"
    using bitmap_set_run_ok [OF wb, of s' n 1] run(2) s'(1) by auto
  have "unat ?v + s * 4096 < 2 ^ 32" using vrange_bounds [OF vr] run(2) n by simp
  then have "unat (pg ?v s') \<le> unat (pg ?v s)" using s'(1) by (simp add: unat_pg)
  then have "pf = PF_USER \<longrightarrow> pg ?v s' < 0xc0000000 - 4096"
    using top by (auto simp: word_less_nat_alt)
  then have "vaddr_get pf n m = Inr (pg ?v s', upd_vpool pf (?va\<lparr>vaddr_bitmap := b\<rparr>) m)"
    using sc b(1) by (cases pf) (simp_all add: vaddr_get_def Let_def pg_def)
  moreover have "\<forall>j. bm_bit b j \<longleftrightarrow> s' \<le> j \<and> j < s' + n \<or> bm_bit ?b j" using b(4) by auto
  ultimately show ?thesis using that [OF s'(1,2) _ b(2,3)] by blast
qed

text \<open>A run of a pool stays apart from every other page of the pools.\<close>

lemma other_page:
  assumes "vrange pf va" and "vrange qf va'" and "i < bm_cap (vaddr_bitmap va)" and "j < bm_cap (vaddr_bitmap va')"
    and "if qf = pf then va' = va \<and> i \<noteq> j else True"
  shows "pg (vaddr_start va) i \<noteq> pg (vaddr_start va') j"
proof
  assume eq: "pg (vaddr_start va) i = pg (vaddr_start va') j"
  have "unat (vaddr_start va) + i * 4096 < 2 ^ 32" "unat (vaddr_start va') + j * 4096 < 2 ^ 32"
    using assms(3,4) vrange_bounds [OF assms(1)] vrange_bounds [OF assms(2)] by simp_all
  then have "unat (vaddr_start va) + i * 4096 = unat (vaddr_start va') + j * 4096"
    using eq by (metis unat_pg)
  then show False
    using assms by (cases pf; cases qf) (auto simp: vrange_def Let_def split: if_splits)
qed

lemma malloc_page_ok:
  assumes wf: "wf_mem m" and vp: "wf_vpool pf m" and n: "0 < n" "n < 3840"
    and run: "clear_run (vaddr_bitmap (vpool pf m)) s n" "s + n \<le> bm_cap (vaddr_bitmap (vpool pf m))"
    and top: "pf = PF_USER \<longrightarrow> unat (pg (vaddr_start (vpool pf m)) s) < 0xbffff000"
    and en: "enough pf n m"
  obtains s' b m' fs where "s' \<le> s" and "clear_run (vaddr_bitmap (vpool pf m)) s' n"
    and "malloc_page pf n m = Inr (pg (vaddr_start (vpool pf m)) s', m')"
    and "wf_mem m'" and "\<forall>qf. wf_vpool qf m \<longrightarrow> wf_vpool qf m'"
    and "same_ctl (upd_vpool pf ((vpool pf m)\<lparr>vaddr_bitmap := b\<rparr>) m) m'"
    and "\<forall>j. bm_bit b j \<longleftrightarrow> s' \<le> j \<and> j < s' + n \<or> bm_bit (vaddr_bitmap (vpool pf m)) j"
    and "bm_cap b = bm_cap (vaddr_bitmap (vpool pf m))"
    and "length fs = n" and "run_mapped pf m m' (pg (vaddr_start (vpool pf m)) s') fs"
    and "set fs \<inter> tables m' = {}" and "tables m \<subseteq> tables m' \<and> tables m' \<subseteq> tables m \<union> free_frames (kernel_pool m)"
    and "\<forall>a. frame a \<notin> tables m' \<longrightarrow> phys m' a = phys m a"
proof -
  let ?va = "vpool pf m" let ?b = "vaddr_bitmap ?va" let ?v = "vaddr_start ?va"
  have vr: "vrange pf ?va" and al: "frame ?v = ?v" using vp by (simp_all add: wf_vpool_def Let_def)
  obtain s' b where s': "s' \<le> s" "clear_run ?b s' n"
    and get: "vaddr_get pf n m = Inr (pg ?v s', upd_vpool pf (?va\<lparr>vaddr_bitmap := b\<rparr>) m)"
    and wb: "wf_bitmap b" and cb: "bm_cap b = bm_cap ?b"
    and bb: "\<forall>j. bm_bit b j \<longleftrightarrow> s' \<le> j \<and> j < s' + n \<or> bm_bit ?b j"
    by (rule vaddr_get_ok [OF vp n(1) run top])
  let ?m = "upd_vpool pf (?va\<lparr>vaddr_bitmap := b\<rparr>) m" let ?w = "pg ?v s'"
  have fit: "s' + n \<le> bm_cap ?b" using run(2) s'(1) by simp
  have uw: "unat ?w = unat ?v + s' * 4096"
    using vrange_bounds [OF vr] fit n(1) by (intro unat_pg) simp
  have lo: "0x400000 \<le> unat ?w" "unat ?w + n * 4096 \<le> 0xffc00000"
    using vrange_bounds [OF vr] fit uw by auto
  have "vmap m (pg ?v (s' + i)) = None" if "i < n" for i
    using vp s'(2) fit that by (simp add: wf_vpool_def Let_def clear_run_def)
  then have un: "\<forall>i < n. vmap ?m (pg ?w i) = None" by (simp add: pg_pg)
  obtain m' fs where m': "map_pages pf n ?w ?m = Inr (True, m')" "wf_mem m'" "same_ctl ?m m'" "length fs = n"
      "run_mapped pf ?m m' ?w fs" "set fs \<inter> tables m' = {}"
      "tables m \<subseteq> tables m' \<and> tables m' \<subseteq> tables m \<union> free_frames (kernel_pool m)"
      "\<forall>a. frame a \<notin> tables m' \<longrightarrow> phys m' a = phys m a"
    using map_pages_ok [of ?m ?w n pf] wf frame_pg [OF al] lo un en by auto
  have rm: "run_mapped pf m m' ?w fs" using m'(5) by (simp add: run_mapped_def)
  have vpq: "vpool qf m' = vpool qf ?m" for qf using m'(3) by (simp add: same_ctl_def vpool_def)
  have "wf_vpool qf m'" if q: "wf_vpool qf m" for qf
  proof -
    let ?q = "vpool qf m" let ?q' = "vpool qf ?m"
    have vq: "vrange qf ?q" "frame (vaddr_start ?q) = vaddr_start ?q" "wf_bitmap (vaddr_bitmap ?q)"
      using q by (simp_all add: wf_vpool_def Let_def)
    have "vmap m' (pg (vaddr_start ?q') i) = None"
      if i: "i < bm_cap (vaddr_bitmap ?q')" "\<not> bm_bit (vaddr_bitmap ?q') i" for i
    proof -
      have i': "i < bm_cap (vaddr_bitmap ?q)" "\<not> bm_bit (vaddr_bitmap ?q) i" "vaddr_start ?q' = vaddr_start ?q"
        using i cb bb by (auto split: if_splits)
      have "pg (vaddr_start ?q) i \<noteq> pg ?w k" if "k < n" for k
        unfolding pg_pg using i bb fit that by (intro other_page [OF vq(1) vr i'(1)]) auto
      moreover have "ordinary (pg (vaddr_start ?q) i)"
        using vrange_bounds [OF vq(1)] i'(1) ordinary_pg by blast
      ultimately have "vmap m' (pg (vaddr_start ?q) i) = vmap m (pg (vaddr_start ?q) i)"
        using rm m'(4) frame_pg [OF vq(2)] by (simp add: run_mapped_def)
      then show ?thesis using q i' by (simp add: wf_vpool_def Let_def)
    qed
    then show ?thesis using vq wb cb by (auto simp: wf_vpool_def Let_def vpq vrange_def)
  qed
  moreover have "?w \<noteq> 0" using lo(1) by auto
  then have "malloc_page pf n m = Inr (?w, m')"
    using n get m'(1) by (simp add: malloc_page_def)
  ultimately show ?thesis using that [OF s' _ m'(2) _ m'(3) bb cb m'(4) rm m'(6-8)] by blast
qed

section \<open>Release\<close>

lemma pfree_ok:
  assumes wf: "wf_mem m" and k: "k < pool_cap (mem_pool kf m)"
    and f: "f = pool_frame (mem_pool kf m) k" and nt: "f \<notin> tables m"
  obtains m' where "pfree f m = Inr m'" and "wf_mem m'" and "same_ctl m m'" and "phys m' = phys m"
    and "\<forall>qf. free_frames (mem_pool qf m') = free_frames (mem_pool qf m) \<union> (if qf = kf then {f} else {})"
proof -
  let ?p = "mem_pool kf m"
  have wp: "wf_pool ?p" and wb: "wf_bitmap (pool_bitmap ?p)" using wf_mem_pool [OF wf, of kf] by (auto simp: wf_pool_def)
  obtain b where b: "bitmap_set (pool_bitmap ?p) k 0 = Inr b" "wf_bitmap b" "bm_cap b = bm_cap (pool_bitmap ?p)"
    "\<forall>j. bm_bit b j = (if j = k then False else bm_bit (pool_bitmap ?p) j)"
    using wf_bitmap_set [OF wb, of k 0] k by (auto simp: pool_cap_def)
  let ?q = "?p\<lparr>pool_bitmap := b\<rparr>"
  have uf: "unat f = unat (phy_addr_start ?p) + k * 4096" using unat_pool_frame [OF wp k] f by simp
  have sel: "phy_addr_start (user_pool m) \<le> f \<longleftrightarrow> kf = PF_USER"
    using uf k wf by (cases kf) (auto simp: mem_pool_def wf_mem_def word_le_nat_alt)
  have "pfree f m = Inr (upd_pool kf ?q m)"
    using b(1) pool_frame_idx [OF wp k] f sel by (cases kf) (simp_all add: pfree_def Let_def)
  moreover have ps: "pool_same ?p ?q" using b(3) by (simp add: pool_same_def pool_cap_def)
  moreover have "free_idx ?q = insert k (free_idx ?p)"
    using b k by (auto simp: free_idx_def bm.free_bits_def pool_cap_def)
  then have fr: "free_frames ?q = insert f (free_frames ?p)"
    using f by (simp add: free_frames_def pool_frame_def)
  moreover have "wf_mem (upd_pool kf ?q m)"
  proof (rule wf_mem_upd_pool [OF wf _ ps])
    show "wf_pool ?q" using wp b by (simp add: wf_pool_def pool_cap_def)
    show "tables m \<inter> free_frames ?q = {}" using wf nt fr by (cases kf) (auto simp: wf_mem_def mem_pool_def)
  qed
  moreover have "free_frames (mem_pool qf (upd_pool kf ?q m)) =
      free_frames (mem_pool qf m) \<union> (if qf = kf then {f} else {})" for qf
    using fr by (cases kf; cases qf) (simp_all add: mem_lens)
  moreover have "same_ctl m (upd_pool kf ?q m)"
    using ps by (cases kf) (auto simp: same_ctl_def mem_lens pool_same_def)
  ultimately show ?thesis using that [of "upd_pool kf ?q m"] by simp
qed

lemma ordinary_set_pte:
  assumes "wf_mem m" and "ordinary v" and "ordinary u" and "vmap m v = Some f"
  shows "vmap (set_pte v 0 m) u = (if frame u = frame v then None else vmap m u)"
proof -
  have wt: "wf_tables m" and pv: "present (pde m v)" and w: "\<not> window v"
    using assms by (auto simp: wf_mem_def vmap_eq [of m v] ordinary_def split: if_splits)
  have "present (pde m u)" if "frame u = frame v" using pv that by (simp add: frame_eq_iff pde_def)
  then show ?thesis
    using set_pte_effect [OF wt pv w, of 0 u] pte_cell_ordinary [OF wt _ pv assms(3,2)]
    by (auto simp: vmap_eq [of m u])
qed

definition pool_frames :: "pool \<Rightarrow> u32 set" where
  "pool_frames p = pool_frame p ` {..<pool_cap p}"

lemma pool_frames_cong: "pool_same p p' \<Longrightarrow> pool_frames p' = pool_frames p"
  by (simp add: pool_frames_def pool_same_def pool_frame_def fun_eq_iff)

lemma unmap_one:
  assumes wf: "wf_mem m" and v: "ordinary v" and f: "vmap m v = Some f" "f \<in> pool_frames (mem_pool kf m)" "f \<notin> tables m"
  obtains m' where "bindR (pfree f m) (page_table_pte_remove v) = Inr m'" and "wf_mem m'" and "same_ctl m m'"
    and "\<forall>qf. free_frames (mem_pool qf m') = free_frames (mem_pool qf m) \<union> (if qf = kf then {f} else {})"
    and "\<forall>u. ordinary u \<longrightarrow> vmap m' u = (if frame u = frame v then None else vmap m u)"
    and "tables m' = tables m"
proof -
  obtain k where k: "k < pool_cap (mem_pool kf m)" "f = pool_frame (mem_pool kf m) k"
    using f(2) by (auto simp: pool_frames_def)
  obtain m1 where m1: "pfree f m = Inr m1" "wf_mem m1" "same_ctl m m1" "phys m1 = phys m"
    "\<forall>qf. free_frames (mem_pool qf m1) = free_frames (mem_pool qf m) \<union> (if qf = kf then {f} else {})"
    by (rule pfree_ok [OF wf k f(3)])
  have vm: "vmap m1 u = vmap m u" and pd: "pde m1 u = pde m u" for u
    using m1(3,4) by (simp_all add: same_ctl_def pde_def)
  have wt: "wf_tables m1" and pv: "present (pde m1 v)" and w: "\<not> window v"
    using m1(2) f(1) v by (auto simp: wf_mem_def vmap_eq [of m v] ordinary_def pd split: if_splits)
  let ?m = "set_pte v 0 m1"
  have "same_ctl m ?m" using m1(3) by (simp add: same_ctl_def)
  moreover have "mem_pool qf ?m = mem_pool qf m1" for qf by (simp add: mem_pool_def)
  moreover have "tables ?m = tables m"
    using tables_cong [of ?m m1, OF pde_set_pte [OF wt pv w]] tables_cong [of m1 m, OF pd] by simp
  moreover have "bindR (pfree f m) (page_table_pte_remove v) = Inr ?m"
    using m1(1) page_table_pte_remove_ok [OF m1(2) pv] by simp
  ultimately show ?thesis
    using that [of ?m] wf_mem_set_pte [OF m1(2) pv w] m1(5) ordinary_set_pte [OF m1(2) v, of _ f] f(1) vm by auto
qed

lemma kernel_frame_less_user: "wf_mem m \<Longrightarrow> f \<in> pool_frames (kernel_pool m) \<Longrightarrow> f < phy_addr_start (user_pool m)"
  using unat_pool_frame [of "kernel_pool m"] by (force simp: pool_frames_def wf_mem_def word_less_nat_alt)

lemma pool_frames_ge: "wf_pool p \<Longrightarrow> f \<in> pool_frames p \<Longrightarrow> phy_addr_start p \<le> f \<and> frame f = f"
  using unat_pool_frame [of p] by (auto simp: pool_frames_def word_le_nat_alt pool_frame_aligned)

lemma frame_off_0: "frame f = f \<Longrightarrow> f AND 0xfff = 0"
  using uint_in_page(3) [of f 0] by simp

lemma unmap_pages_ok:
  assumes "wf_mem m" and "frame v = v" and "0x400000 \<le> unat v" and "unat v + length fs * 4096 \<le> 0xffc00000"
    and "\<forall>i < length fs. vmap m (pg v i) = Some (fs ! i)" and "set fs \<subseteq> pool_frames (mem_pool kf m) - tables m"
  shows "\<exists>m'. unmap_pages (kf = PF_USER) (length fs) v m = Inr m' \<and> wf_mem m' \<and> same_ctl m m' \<and> tables m' = tables m \<and>
     (\<forall>qf. free_frames (mem_pool qf m') = free_frames (mem_pool qf m) \<union> (if qf = kf then set fs else {})) \<and>
     (\<forall>u. ordinary u \<longrightarrow> vmap m' u = (if \<exists>i < length fs. frame u = pg v i then None else vmap m u))"
  using assms
proof (induction fs arbitrary: v m)
  case Nil
  then show ?case by auto
next
  case (Cons f fs)
  have ov: "ordinary (pg v i)" if "i < Suc (length fs)" for i
    using ordinary_pg [of v "Suc (length fs)" i] Cons.prems(3,4) that by simp
  have al: "frame (pg v i) = pg v i" for i using frame_pg Cons.prems(2) by blast
  have vf: "ordinary v" "vmap m v = Some f" "f \<in> pool_frames (mem_pool kf m)" "f \<notin> tables m"
    using ov [of 0] Cons.prems(5,6) by auto
  obtain m1 where m1: "bindR (pfree f m) (page_table_pte_remove v) = Inr m1" "wf_mem m1" "same_ctl m m1"
    "\<forall>qf. free_frames (mem_pool qf m1) = free_frames (mem_pool qf m) \<union> (if qf = kf then {f} else {})"
    "\<forall>u. ordinary u \<longrightarrow> vmap m1 u = (if frame u = frame v then None else vmap m u)" "tables m1 = tables m"
    by (rule unmap_one [OF Cons.prems(1) vf])
  have neq: "pg v (Suc i) \<noteq> v" if "i < length fs" for i
    using pg_inj [of v "Suc (length fs)" "Suc i" 0] Cons.prems(4) that by simp
  have "unat (v + 4096) = unat v + 4096" using unat_pg [of v 1] Cons.prems(4) by (simp add: pg_def)
  then have nx: "frame (v + 4096) = v + 4096" "0x400000 \<le> unat (v + 4096)"
    "unat (v + 4096) + length fs * 4096 \<le> 0xffc00000"
    using Cons.prems(3,4) al [of 1] by (simp_all add: pg_def)
  have "vmap m1 (pg (v + 4096) i) = Some (fs ! i)" if "i < length fs" for i
    using m1(5) ov [of "Suc i"] neq [OF that] Cons.prems(2,5) that by (auto simp: al simp flip: pg_Suc)
  moreover have "pool_frames (mem_pool kf m1) = pool_frames (mem_pool kf m)"
    using m1(3) by (simp add: same_ctl_def mem_pool_def pool_frames_cong)
  ultimately obtain m' where m': "unmap_pages (kf = PF_USER) (length fs) (v + 4096) m1 = Inr m'" "wf_mem m'"
    "same_ctl m1 m'" "tables m' = tables m1"
    "\<forall>qf. free_frames (mem_pool qf m') = free_frames (mem_pool qf m1) \<union> (if qf = kf then set fs else {})"
    "\<forall>u. ordinary u \<longrightarrow> vmap m' u = (if \<exists>i < length fs. frame u = pg (v + 4096) i then None else vmap m1 u)"
    using Cons.IH [OF m1(2) nx] m1(6) Cons.prems(6) by auto
  have wp: "wf_pool (mem_pool kf m)" using wf_mem_pool [OF Cons.prems(1)] .
  have as: "f AND 0xfff = 0 \<and> (if kf = PF_USER then phy_addr_start (user_pool m) \<le> f
      else phy_addr_start (kernel_pool m) \<le> f \<and> f < phy_addr_start (user_pool m))"
    using pool_frames_ge [OF wp vf(3)] kernel_frame_less_user [OF Cons.prems(1)] vf(3)
    by (cases kf) (auto simp: mem_pool_def frame_off_0)
  have "unmap_pages (kf = PF_USER) (length (f # fs)) v m = Inr m'"
    using addr_v2p_vmap [OF Cons.prems(1) vf(2)] as m1(1) m'(1) by (simp flip: bindR_assoc)
  moreover have "vmap m' u = (if \<exists>i < length (f # fs). frame u = pg v i then None else vmap m u)" if "ordinary u" for u
    using that m1(5) m'(6) Cons.prems(2) by (auto simp: less_Suc_eq_0_disj simp flip: pg_Suc)
  ultimately show ?case
    using m' m1 same_ctl_trans [OF m1(3) m'(3)] by (intro exI [of _ m']) auto
qed

lemma vaddr_idx:
  assumes "frame v = v" and "unat v + i * 4096 < 2 ^ 32"
  shows "unat ((pg v i - v) div 4096) = i"
proof -
  have "unat (of_nat i * 4096 :: u32) = i * 4096"
    using assms(2) unat_of_nat [of "i * 4096", where 'a = 32] by simp
  then show ?thesis by (simp add: pg_def unat_div)
qed

lemma mfree_page_ok:
  assumes wf: "wf_mem m" and vp: "wf_vpool pf m" and fs: "fs \<noteq> []"
    and fit: "s + length fs \<le> bm_cap (vaddr_bitmap (vpool pf m))"
    and vm: "\<forall>i < length fs. vmap m (pg (pg (vaddr_start (vpool pf m)) s) i) = Some (fs ! i)"
    and fr: "set fs \<subseteq> pool_frames (mem_pool kf m) - tables m"
  obtains b m' where "mfree_page pf (pg (vaddr_start (vpool pf m)) s) (length fs) m = Inr m'"
    and "wf_mem m'" and "tables m' = tables m"
    and "same_ctl (upd_vpool pf ((vpool pf m)\<lparr>vaddr_bitmap := b\<rparr>) m) m'"
    and "\<forall>qf. free_frames (mem_pool qf m') = free_frames (mem_pool qf m) \<union> (if qf = kf then set fs else {})"
    and "\<forall>u. ordinary u \<longrightarrow> vmap m' u =
           (if \<exists>i < length fs. frame u = pg (pg (vaddr_start (vpool pf m)) s) i then None else vmap m u)"
    and "\<forall>j. bm_bit b j \<longleftrightarrow> \<not> (s \<le> j \<and> j < s + length fs) \<and> bm_bit (vaddr_bitmap (vpool pf m)) j"
    and "wf_bitmap b" and "bm_cap b = bm_cap (vaddr_bitmap (vpool pf m))"
proof -
  let ?va = "vpool pf m" let ?b = "vaddr_bitmap ?va" let ?v = "vaddr_start ?va" let ?w = "pg ?v s"
  have vr: "vrange pf ?va" and al: "frame ?v = ?v" and wb: "wf_bitmap ?b"
    using vp by (simp_all add: wf_vpool_def Let_def)
  have "0 < length fs" using fs by simp
  then have lt: "unat ?v + s * 4096 < 2 ^ 32" using vrange_bounds [OF vr] fit by simp
  then have lo: "0x400000 \<le> unat ?w" "unat ?w + length fs * 4096 \<le> 0xffc00000"
    using vrange_bounds [OF vr] fit by (auto simp: unat_pg)
  obtain m1 where m1: "unmap_pages (kf = PF_USER) (length fs) ?w m = Inr m1" "wf_mem m1" "same_ctl m m1" "tables m1 = tables m"
     "\<forall>qf. free_frames (mem_pool qf m1) = free_frames (mem_pool qf m) \<union> (if qf = kf then set fs else {})"
     "\<forall>u. ordinary u \<longrightarrow> vmap m1 u = (if \<exists>i < length fs. frame u = pg ?w i then None else vmap m u)"
    using unmap_pages_ok [OF wf frame_pg [OF al] lo vm fr] by blast
  obtain b where b: "bitmap_set_run ?b s (length fs) 0 = Inr b" "wf_bitmap b" "bm_cap b = bm_cap ?b"
    "\<forall>j. bm_bit b j = (if s \<le> j \<and> j < s + length fs then False else bm_bit ?b j)"
    using bitmap_set_run_ok [OF wb fit, of 0] by auto
  let ?m = "upd_vpool pf (?va\<lparr>vaddr_bitmap := b\<rparr>) m1"
  have v1: "vpool pf m1 = ?va" using m1(3) by (simp add: same_ctl_def vpool_def)
  have rem: "vaddr_remove pf ?w (length fs) m1 = Inr ?m"
    using b(1) vaddr_idx [OF al lt] by (simp add: vaddr_remove_def v1)
  have w0: "vmap m ?w = Some (fs ! 0)" "fs ! 0 \<in> pool_frames (mem_pool kf m)"
    using vm [rule_format, OF \<open>0 < length fs\<close>] subsetD [OF fr nth_mem [OF \<open>0 < length fs\<close>]] by simp_all
  note f0 = addr_v2p_vmap [OF wf w0(1)] pool_frames_ge [OF wf_mem_pool [OF wf] w0(2)]
  have sel: "phy_addr_start (user_pool m) \<le> fs ! 0 \<longleftrightarrow> kf = PF_USER"
    using f0(2) w0(2) kernel_frame_less_user [OF wf, of "fs ! 0"] by (cases kf) (auto simp: mem_pool_def)
  have "0x102000 \<le> phy_addr_start (mem_pool kf m)"
    using wf by (cases kf) (auto simp: wf_mem_def mem_pool_def word_le_nat_alt)
  then have "0x102000 \<le> fs ! 0" using f0(2) by (meson order_trans)
  then have "mfree_page pf ?w (length fs) m = Inr ?m"
    using f0 m1(1) rem frame_off_0 [of "fs ! 0"] frame_off_0 [OF frame_pg [OF al, of s]] \<open>0 < length fs\<close>
    by (simp add: mfree_page_def Suc_le_eq sel)
  moreover have "same_ctl (upd_vpool pf (?va\<lparr>vaddr_bitmap := b\<rparr>) m) ?m"
    using m1(3) by (cases pf) (simp_all add: same_ctl_def upd_vpool_def)
  moreover have "\<forall>j. bm_bit b j \<longleftrightarrow> \<not> (s \<le> j \<and> j < s + length fs) \<and> bm_bit ?b j" using b(4) by auto
  ultimately show ?thesis using that [of ?m b] m1 b(2,3) by simp
qed

section \<open>Initialisation\<close>

text \<open>The tables the loader leaves: inside the first 2 MiB, with the heap's pages unmapped.\<close>

definition boot_tables :: "mem \<Rightarrow> bool" where
  "boot_tables m \<longleftrightarrow> wf_tables m \<and> (\<forall>f \<in> tables m. unat f < 0x200000) \<and>
     (\<forall>v. 0xc0100000 \<le> unat v \<and> unat v < 0xffc00000 \<longrightarrow> vmap m v = None)"

lemma unat_u16: "unat k < 65536" for k :: u16
  by (rule less_le_trans [OF unsigned_less]) simp

lemma unat_kernel_free: "unat (kernel_free_pages a) < 2 ^ 15"
  by (simp add: kernel_free_pages_def unat_div) (use unat_u16 [of "all_free_pages a"] in simp)

lemma unat_user_free: "unat (user_free_pages a) = unat (all_free_pages a) - unat (kernel_free_pages a)"
    "unat (user_free_pages a) \<le> 2 ^ 15"
proof -
  have "kernel_free_pages a \<le> all_free_pages a"
    by (simp add: kernel_free_pages_def word_le_nat_alt unat_div)
  then show eq: "unat (user_free_pages a) = unat (all_free_pages a) - unat (kernel_free_pages a)"
    by (simp add: user_free_pages_def unat_sub)
  show "unat (user_free_pages a) \<le> 2 ^ 15"
    unfolding eq using unat_u16 [of "all_free_pages a"] by (simp add: kernel_free_pages_def unat_div)
qed

lemma bits_at_init:
  assumes "n * 8 < 2 ^ 31"
  obtains b where "bitmap_init (bits_at boot base n) = Inr b" and "wf_bitmap b" and "bm_cap b = n * 8"
    and "\<forall>i < n * 8. \<not> bm_bit b i"
proof -
  have "wf_bitmap (bits_at boot base n)" "bm_cap (bits_at boot base n) = n * 8"
    using assms by (simp_all add: wf_bitmap_def bits_at_def bm_cap_def)
  then obtain b where "bitmap_init (bits_at boot base n) = Inr b" "wf_bitmap b" "bm_cap b = n * 8"
      "\<And>i. i < n * 8 \<Longrightarrow> \<not> bm_bit b i"
    using bitmap_init_ok [of "bits_at boot base n"] by metis
  then show ?thesis using that by blast
qed

lemma unat_pages: "unat (ucast (k :: u16) * 4096 :: u32) = unat k * 4096"
proof -
  have "unat k < 65536" by (rule unat_u16)
  then show ?thesis by (simp add: unat_word_ariths unsigned_ucast_eq take_bit_nat_eq_self)
qed

lemma mem_pool_init_ok:
  assumes bt: "boot_tables m"
  obtains m' where "mem_pool_init boot all_mem m = Inr m'" and "wf_mem m'" and "wf_vpool PF_KERNEL m'"
    and "phy_addr_start (kernel_pool m') = 0x200000"
    and "unat (phy_addr_start (user_pool m')) = 0x200000 + unat (kernel_free_pages all_mem) * 4096"
    and "pool_cap (kernel_pool m') = kbm_length all_mem * 8" and "pool_cap (user_pool m') = ubm_length all_mem * 8"
    and "unat (pool_size (kernel_pool m')) = unat (kernel_free_pages all_mem) * 4096"
    and "unat (pool_size (user_pool m')) = unat (user_free_pages all_mem) * 4096"
    and "\<forall>pf. free_idx (mem_pool pf m') = {..<pool_cap (mem_pool pf m')}"
proof -
  let ?k = "kbm_length all_mem" and ?u = "ubm_length all_mem"
  let ?kf = "unat (kernel_free_pages all_mem)" and ?uf = "unat (user_free_pages all_mem)"
  have k8: "?k * 8 \<le> ?kf" "?kf < 2 ^ 15" and u8: "?u * 8 \<le> ?uf" "?uf \<le> 2 ^ 15"
    using unat_kernel_free [of all_mem] unat_user_free(2) [of all_mem] by (simp_all add: kbm_length_def ubm_length_def)
  then have lim: "?k * 8 < 2 ^ 31" "?u * 8 < 2 ^ 31" by simp_all
  obtain kb where kb: "bitmap_init (bits_at boot MEM_BITMAP_BASE ?k) = Inr kb" "wf_bitmap kb"
    "bm_cap kb = ?k * 8" "\<forall>i < ?k * 8. \<not> bm_bit kb i" by (rule bits_at_init [OF lim(1)])
  obtain ub where ub: "bitmap_init (bits_at boot (MEM_BITMAP_BASE + of_nat ?k) ?u) = Inr ub" "wf_bitmap ub"
    "bm_cap ub = ?u * 8" "\<forall>i < ?u * 8. \<not> bm_bit ub i" by (rule bits_at_init [OF lim(2)])
  obtain vb where vb: "bitmap_init (bits_at boot (MEM_BITMAP_BASE + of_nat ?k + of_nat ?u) ?k) = Inr vb" "wf_bitmap vb"
    "bm_cap vb = ?k * 8" "\<forall>i < ?k * 8. \<not> bm_bit vb i" by (rule bits_at_init [OF lim(1)])
  let ?kp = "\<lparr>pool_bitmap = kb, phy_addr_start = 0x200000,
               pool_size = ucast (kernel_free_pages all_mem) * 4096, pool_lock = 0\<rparr>"
  let ?us = "0x200000 + ucast (kernel_free_pages all_mem) * 4096 :: u32"
  let ?up = "\<lparr>pool_bitmap = ub, phy_addr_start = ?us,
               pool_size = ucast (user_free_pages all_mem) * 4096, pool_lock = 0\<rparr>"
  let ?m = "m\<lparr>kernel_pool := ?kp, user_pool := ?up,
              kernel_vaddr := \<lparr>vaddr_bitmap = vb, vaddr_start = K_HEAP_START\<rparr>\<rparr>"
  have eq: "mem_pool_init boot all_mem m = Inr ?m"
    using kb ub vb by (simp add: mem_pool_init_def Let_def used_mem_def)
  have us: "unat ?us = 0x200000 + ?kf * 4096"
    using k8 unat_pages [of "kernel_free_pages all_mem"] by (simp add: unat_word_ariths)
  have fal: "frame (0x200000 :: u32) = 0x200000" by (simp add: frame_def)
  have "frame ?us = ?us"
    using frame_pg [OF fal, of ?kf] by (simp add: pg_def)
  then have wp: "wf_pool ?kp" "wf_pool ?up"
    using us k8 u8 kb ub fal by (simp_all add: wf_pool_def pool_cap_def word_less_nat_alt)
  have pd: "pde ?m = pde m" by (simp add: pde_def fun_eq_iff)
  have free: "unat f \<ge> 0x200000" if "f \<in> free_frames ?kp \<or> f \<in> free_frames ?up" for f
    using that us unat_pool_frame [OF wp(1)] unat_pool_frame [OF wp(2)]
    by (auto simp: free_frames_def dest!: free_idx_less)
  have wt: "wf_tables ?m" "tables ?m = tables m"
    using bt wf_tables_cong [of m ?m] tables_cong [of ?m m] pd by (simp_all add: boot_tables_def)
  have tf: "unat f < 0x200000" if "f \<in> tables m" for f using that bt by (simp add: boot_tables_def)
  have "wf_mem ?m" unfolding wf_mem_def wt(2)
    using wp wt(1) us k8 kb(3) free tf by (auto simp: pool_cap_def disjoint_iff not_le [symmetric] word_le_nat_alt)
  moreover have "wf_vpool PF_KERNEL ?m"
  proof -
    have "vmap ?m (pg K_HEAP_START i) = None" if "i < ?k * 8" for i
      using that k8 bt unat_pg [of K_HEAP_START i] by (simp add: boot_tables_def K_HEAP_START_def)
    then show ?thesis using vb k8
      by (simp add: wf_vpool_def Let_def vpool_def vrange_def frame_def) (simp add: K_HEAP_START_def)
  qed
  moreover have "free_idx ?kp = {..<pool_cap ?kp}" "free_idx ?up = {..<pool_cap ?up}"
    using kb ub by (auto simp: free_idx_def bm.free_bits_def pool_cap_def)
  ultimately show ?thesis
    using that [OF eq] us kb ub unat_pages by (simp add: pool_cap_def mem_pool_def)
qed

section \<open>Cleared pages\<close>

lemma zero_words_add:
  "zero_words (a + b) v m = bindR (zero_words a v m) (zero_words b (v + 4 * of_nat a))"
proof (induction a arbitrary: v m)
  case (Suc a)
  show ?case by (cases "store m v 0") (simp_all add: Suc.IH algebra_simps)
qed simp

lemma zero_run:
  assumes "wf_tables m" and "frame v = v" and "\<forall>i < length fs. vmap m (pg v i) = Some (fs ! i)"
    and "set fs \<inter> tables m = {}" and "\<forall>f \<in> set fs. frame f = f" and "distinct fs"
  shows "\<exists>ph. zero_words (length fs * 1024) v m = Inr (m\<lparr>phys := ph\<rparr>) \<and>
     (\<forall>a. frame a \<notin> set fs \<longrightarrow> ph a = phys m a) \<and>
     (\<forall>f \<in> set fs. \<forall>j < 1024. ph (f + 4 * of_nat j) = 0)"
  using assms
proof (induction fs arbitrary: v m)
  case Nil
  show ?case by (intro exI [of _ "phys m"]) simp
next
  case (Cons f fs)
  have vf: "vmap m v = Some f" using Cons.prems(3) [rule_format, of 0] by simp
  have cr: "frame (cr3 m) = cr3 m" "f \<noteq> cr3 m" "f \<noteq> frame (pde m v)"
    using wf_cr3 [OF Cons.prems(1)] cr3_in_tables [OF Cons.prems(1)] Cons.prems(4) vf
    by (auto simp: tables_def vmap_eq [of m v] split: if_splits)
  obtain ph where ph: "zero_words 1024 v m = Inr (m\<lparr>phys := ph\<rparr>)" "\<forall>a. frame a \<noteq> f \<longrightarrow> ph a = phys m a"
    "\<forall>j < 1024. ph (f + 4 * of_nat j) = 0"
    by (rule zero_page [OF Cons.prems(2) cr(1) vf cr(2,3)])
  let ?m = "m\<lparr>phys := ph\<rparr>"
  have pd: "pde ?m u = pde m u" for u using ph(2) cr by (intro pde_cong) auto
  have vm: "vmap ?m u = vmap m u" for u
  proof (cases "present (pde m u)")
    case True
    then have "frame (pte_cell m u) \<noteq> f" using Cons.prems(4) by (auto simp: pte_cell_frame tables_def)
    then show ?thesis
      using ph(2) unfolding vmap_eq [of ?m] vmap_eq [of m] pd pte_cell_cong [OF pd] by simp
  next
    case False
    then show ?thesis unfolding vmap_eq [of ?m] vmap_eq [of m] pd by simp
  qed
  have nx: "wf_tables ?m" "frame (v + 4096) = v + 4096" "\<forall>i < length fs. vmap ?m (pg (v + 4096) i) = Some (fs ! i)"
    "set fs \<inter> tables ?m = {}" "\<forall>g \<in> set fs. frame g = g" "distinct fs" "f \<notin> set fs" "frame f = f"
    using wf_tables_cong [OF Cons.prems(1) pd] frame_pg [OF Cons.prems(2), of 1] tables_cong [of ?m m, OF pd] vm
      Cons.prems(3-6) by (auto simp flip: pg_Suc simp: pg_def [of v "Suc 0"])
  obtain ph' where ph': "zero_words (length fs * 1024) (v + 4096) ?m = Inr (?m\<lparr>phys := ph'\<rparr>)"
    "\<forall>a. frame a \<notin> set fs \<longrightarrow> ph' a = ph a" "\<forall>g \<in> set fs. \<forall>j < 1024. ph' (g + 4 * of_nat j) = 0"
    using Cons.IH [OF nx(1-6)] by (elim exE conjE) simp
  have "ph' (f + 4 * of_nat j) = 0" if "j < 1024" for j
    using ph(3) ph'(2) that nx(7) uint_in_page(2) [OF nx(8), of "4 * of_nat j"] uint_4k [OF that] by simp
  moreover have "zero_words (length (f # fs) * 1024) v m = Inr (m\<lparr>phys := ph'\<rparr>)"
    using ph(1) ph'(1) zero_words_add [of 1024 "length fs * 1024" v m] by simp
  ultimately show ?case using ph(2) ph'(2,3) by (intro exI [of _ ph']) simp
qed

section \<open>Properties\<close>

lemma sample_vpool: "wf_vpool PF_KERNEL sample_mem"
proof -
  let ?va = "vpool PF_KERNEL sample_mem"
  have va: "?va = \<lparr>vaddr_bitmap = \<lparr>btmp_bytes_len = 1, bits = [0]\<rparr>, vaddr_start = 0xc0100000\<rparr>"
    by (simp add: vpool_def sample_mem_def)
  have "vmap sample_mem (pg 0xc0100000 i) = None" if "i < 8" for i
    using ordinary_pg [of "0xc0100000" 8 i] that by (intro sample_unmapped) simp
  then show ?thesis
    unfolding wf_vpool_def va by (simp add: wf_bitmap_def vrange_def bm_cap_def frame_def)
qed

text \<open>
  C6. \<^verbatim>\<open>malloc_page\<close> with a free run of virtual pages and enough free frames succeeds: it takes the
  first such run, marks exactly its pages as used, maps page by page to distinct frames that were
  free in the pool, leaves the translation of every other page as it was, takes nothing else from
  the pools but the page tables it installs, and keeps the invariants.
\<close>

theorem malloc_page_maps_fresh_frames:
  assumes "wf_mem m" and "wf_vpool pf m" and "0 < n" and "n < 3840"
    and "clear_run (vaddr_bitmap (vpool pf m)) s n" and "s + n \<le> bm_cap (vaddr_bitmap (vpool pf m))"
    and "pf = PF_USER \<longrightarrow> unat (pg (vaddr_start (vpool pf m)) s) < 0xbffff000"
    and "enough pf n m"
  shows "\<exists>m' s' fs. malloc_page pf n m = Inr (pg (vaddr_start (vpool pf m)) s', m') \<and> s' \<le> s \<and>
     length fs = n \<and> distinct fs \<and> set fs \<subseteq> free_frames (mem_pool pf m) \<and>
     (\<forall>i < n. vmap m' (pg (pg (vaddr_start (vpool pf m)) s') i) = Some (fs ! i)) \<and>
     (\<forall>u. ordinary u \<and> (\<forall>i < n. frame u \<noteq> pg (pg (vaddr_start (vpool pf m)) s') i) \<longrightarrow> vmap m' u = vmap m u) \<and>
     (\<forall>qf. free_frames (mem_pool qf m') = free_frames (mem_pool qf m) - set fs - tables m') \<and>
     (\<forall>j. bm_bit (vaddr_bitmap (vpool pf m')) j \<longleftrightarrow>
        s' \<le> j \<and> j < s' + n \<or> bm_bit (vaddr_bitmap (vpool pf m)) j) \<and>
     wf_mem m' \<and> wf_vpool pf m'"
proof -
  obtain s' b m' fs where r: "s' \<le> s" "clear_run (vaddr_bitmap (vpool pf m)) s' n"
    "malloc_page pf n m = Inr (pg (vaddr_start (vpool pf m)) s', m')"
    "wf_mem m'" "\<forall>qf. wf_vpool qf m \<longrightarrow> wf_vpool qf m'"
    "same_ctl (upd_vpool pf ((vpool pf m)\<lparr>vaddr_bitmap := b\<rparr>) m) m'"
    "\<forall>j. bm_bit b j \<longleftrightarrow> s' \<le> j \<and> j < s' + n \<or> bm_bit (vaddr_bitmap (vpool pf m)) j"
    "bm_cap b = bm_cap (vaddr_bitmap (vpool pf m))"
    "length fs = n" "run_mapped pf m m' (pg (vaddr_start (vpool pf m)) s') fs"
    "set fs \<inter> tables m' = {}" "tables m \<subseteq> tables m' \<and> tables m' \<subseteq> tables m \<union> free_frames (kernel_pool m)"
    "\<forall>a. frame a \<notin> tables m' \<longrightarrow> phys m' a = phys m a"
    by (rule malloc_page_ok [OF assms])
  have "vaddr_bitmap (vpool pf m') = b"
    using r(6) by (cases pf) (simp_all add: same_ctl_def mem_lens)
  then show ?thesis
    using r assms(2) by (intro exI [of _ m'] exI [of _ s'] exI [of _ fs]) (simp add: run_mapped_def)
qed

theorem malloc_page_maps_fresh_frames_witness:
  "\<exists>m' s'. malloc_page PF_KERNEL 3 sample_mem = Inr (pg 0xc0100000 s', m') \<and> s' \<le> 2 \<and> wf_mem m'"
proof -
  have va: "vpool PF_KERNEL sample_mem =
      \<lparr>vaddr_bitmap = \<lparr>btmp_bytes_len = 1, bits = [0]\<rparr>, vaddr_start = 0xc0100000\<rparr>"
    by (simp add: vpool_def sample_mem_def)
  have "enough PF_KERNEL 3 sample_mem" by (simp add: enough_def sample_card)
  then show ?thesis
    using malloc_page_maps_fresh_frames [OF sample_wf_mem sample_vpool, of 3 2]
    unfolding va by (auto simp: clear_run_code bm_bit_def bm_cap_def)
qed

lemma free_frames_sub: "free_frames p \<subseteq> pool_frames p"
  using free_idx_less by (auto simp: free_frames_def pool_frames_def)

lemma same_ctl_pool_frames: "same_ctl m m' \<Longrightarrow> pool_frames (mem_pool pf m') = pool_frames (mem_pool pf m)"
  by (simp add: same_ctl_def mem_pool_def pool_frames_cong)

text \<open>
  C23. \<^verbatim>\<open>mfree_page\<close> undoes \<^verbatim>\<open>malloc_page\<close>: freeing a run just allocated succeeds, restores the
  translation of every page and the virtual pool's bitmap, and returns every frame to its pool
  except those that became page tables, which stay in place.
\<close>

theorem malloc_free_roundtrip:
  assumes "wf_mem m" and "wf_vpool pf m" and "0 < n" and "n < 3840"
    and "clear_run (vaddr_bitmap (vpool pf m)) s n" and "s + n \<le> bm_cap (vaddr_bitmap (vpool pf m))"
    and "pf = PF_USER \<longrightarrow> unat (pg (vaddr_start (vpool pf m)) s) < 0xbffff000"
    and "enough pf n m"
  shows "\<exists>v m' m''. malloc_page pf n m = Inr (v, m') \<and> mfree_page pf v n m' = Inr m'' \<and>
     (\<forall>u. ordinary u \<longrightarrow> vmap m'' u = vmap m u) \<and>
     (\<forall>j. bm_bit (vaddr_bitmap (vpool pf m'')) j = bm_bit (vaddr_bitmap (vpool pf m)) j) \<and>
     (\<forall>qf. free_frames (mem_pool qf m'') = free_frames (mem_pool qf m) - tables m'') \<and> wf_mem m''"
proof -
  let ?v = "vaddr_start (vpool pf m)"
  obtain s' b m' fs where r: "s' \<le> s" "clear_run (vaddr_bitmap (vpool pf m)) s' n"
    "malloc_page pf n m = Inr (pg ?v s', m')" "wf_mem m'" "\<forall>qf. wf_vpool qf m \<longrightarrow> wf_vpool qf m'"
    "same_ctl (upd_vpool pf ((vpool pf m)\<lparr>vaddr_bitmap := b\<rparr>) m) m'"
    "\<forall>j. bm_bit b j \<longleftrightarrow> s' \<le> j \<and> j < s' + n \<or> bm_bit (vaddr_bitmap (vpool pf m)) j"
    "bm_cap b = bm_cap (vaddr_bitmap (vpool pf m))" "length fs = n" "run_mapped pf m m' (pg ?v s') fs"
    "set fs \<inter> tables m' = {}" "tables m \<subseteq> tables m' \<and> tables m' \<subseteq> tables m \<union> free_frames (kernel_pool m)" "\<forall>a. frame a \<notin> tables m' \<longrightarrow> phys m' a = phys m a"
    by (rule malloc_page_ok [OF assms])
  have va: "vpool pf m' = (vpool pf m)\<lparr>vaddr_bitmap := b\<rparr>"
    using r(6) by (cases pf) (simp_all add: same_ctl_def mem_lens)
  have fs: "fs \<noteq> []" "set fs \<subseteq> free_frames (mem_pool pf m)" using r(9,10) assms(3) by (auto simp: run_mapped_def)
  have pfr: "set fs \<subseteq> pool_frames (mem_pool pf m') - tables m'"
    using fs(2) r(11) free_frames_sub [of "mem_pool pf m"] same_ctl_pool_frames [OF r(6), of pf] by auto
  have sv: "vaddr_start (vpool pf m') = ?v" "vaddr_bitmap (vpool pf m') = b" by (simp_all add: va)
  have fit: "s' + length fs \<le> bm_cap (vaddr_bitmap (vpool pf m'))"
    and vm: "\<forall>i < length fs. vmap m' (pg (pg (vaddr_start (vpool pf m')) s') i) = Some (fs ! i)"
    using r(1,8,9,10) assms(6) by (simp_all add: sv run_mapped_def)
  obtain b2 m2 where m2: "mfree_page pf (pg ?v s') n m' = Inr m2" "wf_mem m2" "tables m2 = tables m'"
    "same_ctl (upd_vpool pf ((vpool pf m')\<lparr>vaddr_bitmap := b2\<rparr>) m') m2"
    "\<forall>qf. free_frames (mem_pool qf m2) = free_frames (mem_pool qf m') \<union> (if qf = pf then set fs else {})"
    "\<forall>u. ordinary u \<longrightarrow> vmap m2 u = (if \<exists>i < n. frame u = pg (pg ?v s') i then None else vmap m' u)"
    "\<forall>j. bm_bit b2 j \<longleftrightarrow> \<not> (s' \<le> j \<and> j < s' + n) \<and> bm_bit b j"
    "wf_bitmap b2" "bm_cap b2 = bm_cap b"
    by (rule mfree_page_ok [OF r(4) r(5) [rule_format, OF assms(2)] fs(1) fit vm pfr, unfolded sv r(9)])
  have run: "vmap m (pg (pg ?v s') i) = None" if "i < n" for i
    using assms(2,6) r(1,2) that by (simp add: wf_vpool_def Let_def clear_run_def pg_pg)
  have "vmap m2 u = vmap m u" if "ordinary u" for u
  proof (cases "\<exists>i < n. frame u = pg (pg ?v s') i")
    case True
    then obtain i where i: "i < n" "frame u = frame (pg (pg ?v s') i)"
      using assms(2) frame_pg by (auto simp: wf_vpool_def Let_def)
    then have "vmap m u = None" using run [OF i(1)] by (simp add: vmap_eq frame_eq_iff pte_cell_def pde_def split: if_splits)
    with True show ?thesis using m2(6) that by simp
  next
    case False
    then show ?thesis using m2(6) that r(9,10) by (auto simp: run_mapped_def)
  qed
  moreover have "vaddr_bitmap (vpool pf m2) = b2"
    using m2(4) by (cases pf) (simp_all add: same_ctl_def mem_lens)
  then have "bm_bit (vaddr_bitmap (vpool pf m2)) j = bm_bit (vaddr_bitmap (vpool pf m)) j" for j
    using m2(7) r(2,7) by (auto simp: clear_run_def)
  moreover have "free_frames (mem_pool qf m2) = free_frames (mem_pool qf m) - tables m2" for qf
  proof -
    have "free_frames (mem_pool qf m2) =
        (free_frames (mem_pool qf m) - set fs - tables m2) \<union> (if qf = pf then set fs else {})"
      using m2(3,5) r(10) by (simp add: run_mapped_def)
    moreover have "set fs \<inter> free_frames (mem_pool qf m) = {}" if "qf \<noteq> pf"
      using that fs(2) pool_frames_disjoint [OF assms(1)] by (cases qf; cases pf) (auto simp: mem_pool_def)
    ultimately show ?thesis using fs(2) r(11) m2(3) by (cases "qf = pf") auto
  qed
  ultimately show ?thesis using r(3) m2(1,2) by blast
qed

theorem malloc_free_roundtrip_witness:
  "\<exists>v m' m''. malloc_page PF_KERNEL 2 sample_mem = Inr (v, m') \<and> mfree_page PF_KERNEL v 2 m' = Inr m''"
proof -
  have va: "vpool PF_KERNEL sample_mem =
      \<lparr>vaddr_bitmap = \<lparr>btmp_bytes_len = 1, bits = [0]\<rparr>, vaddr_start = 0xc0100000\<rparr>"
    by (simp add: vpool_def sample_mem_def)
  have "enough PF_KERNEL 2 sample_mem" by (simp add: enough_def sample_card)
  then show ?thesis
    using malloc_free_roundtrip [OF sample_wf_mem sample_vpool, of 2 0]
    unfolding va by (auto simp: clear_run_code bm_bit_def bm_cap_def)
qed

text \<open>
  C24. \<^verbatim>\<open>mem_pool_init\<close> on the loader's page tables succeeds and establishes the invariants, with all
  frames free: the kernel pool starts at 2 MiB, the user pool right behind the kernel's pages, both
  lie inside the memory, and the three bitmaps fit into the four pages reserved for them.
\<close>

theorem mem_pool_init_establishes:
  assumes "boot_tables m" and "used_mem \<le> all_mem"
  shows "\<exists>m'. mem_pool_init boot all_mem m = Inr m' \<and> wf_mem m' \<and> wf_vpool PF_KERNEL m' \<and>
     unat (phy_addr_start (kernel_pool m')) + unat (pool_size (kernel_pool m')) = unat (phy_addr_start (user_pool m')) \<and>
     unat (phy_addr_start (user_pool m')) + unat (pool_size (user_pool m')) \<le> unat all_mem \<and>
     (\<forall>pf. pool_cap (mem_pool pf m') * 4096 \<le> unat (pool_size (mem_pool pf m')) \<and>
           free_idx (mem_pool pf m') = {..<pool_cap (mem_pool pf m')}) \<and>
     2 * kbm_length all_mem + ubm_length all_mem \<le> 4 * 4096"
proof -
  let ?kf = "unat (kernel_free_pages all_mem)" and ?uf = "unat (user_free_pages all_mem)"
  obtain m' where m': "mem_pool_init boot all_mem m = Inr m'" "wf_mem m'" "wf_vpool PF_KERNEL m'"
    "phy_addr_start (kernel_pool m') = 0x200000" "unat (phy_addr_start (user_pool m')) = 0x200000 + ?kf * 4096"
    "pool_cap (kernel_pool m') = kbm_length all_mem * 8" "pool_cap (user_pool m') = ubm_length all_mem * 8"
    "unat (pool_size (kernel_pool m')) = ?kf * 4096" "unat (pool_size (user_pool m')) = ?uf * 4096"
    "\<forall>pf. free_idx (mem_pool pf m') = {..<pool_cap (mem_pool pf m')}"
    by (rule mem_pool_init_ok [OF assms(1)])
  have le: "?kf \<le> unat (all_free_pages all_mem)" by (simp add: kernel_free_pages_def unat_div)
  have "unat (all_mem - used_mem) = unat all_mem - 0x200000"
    using unat_sub [OF assms(2)] by (simp add: used_mem_def)
  then have "unat (all_free_pages all_mem) * 4096 \<le> unat all_mem - 0x200000"
    by (simp add: all_free_pages_def unsigned_ucast_eq unat_div)
       (meson div_times_less_eq_dividend le_trans mult_le_mono1 take_bit_nat_less_eq_self)
  moreover have "0x200000 \<le> unat all_mem" using assms(2) by (simp add: used_mem_def word_le_nat_alt)
  ultimately have "0x200000 + ?kf * 4096 + ?uf * 4096 \<le> unat all_mem"
    using le unat_user_free(1) [of all_mem] by (simp add: algebra_simps)
  moreover have "pool_cap (mem_pool pf m') * 4096 \<le> unat (pool_size (mem_pool pf m'))" for pf
    using m'(6-9) by (cases pf) (simp_all add: mem_pool_def kbm_length_def ubm_length_def)
  moreover have "2 * kbm_length all_mem + ubm_length all_mem \<le> 4 * 4096"
    using unat_kernel_free [of all_mem] unat_user_free(2) [of all_mem] by (simp add: kbm_length_def ubm_length_def)
  ultimately show ?thesis using m' by auto
qed

theorem mem_pool_init_establishes_witness:
  "\<exists>m'. mem_pool_init (\<lambda>_. 0x55) 0x2000000 sample_mem = Inr m' \<and> wf_mem m' \<and> wf_vpool PF_KERNEL m'"
proof -
  have "vmap sample_mem v = None" if "0xc0100000 \<le> unat v" "unat v < 0xffc00000" for v
    using that by (intro sample_unmapped ordinary_range) simp_all
  then have "boot_tables sample_mem"
    using sample_wf_tables sample_tables by (auto simp: boot_tables_def)
  then show ?thesis
    using mem_pool_init_establishes [of sample_mem "0x2000000" "\<lambda>_. 0x55"] by (auto simp: used_mem_def)
qed

lemma pool_lock_irrelevant [simp]:
  "free_frames (p\<lparr>pool_lock := k\<rparr>) = free_frames p" "wf_pool (p\<lparr>pool_lock := k\<rparr>) = wf_pool p"
  "pool_cap (p\<lparr>pool_lock := k\<rparr>) = pool_cap p"
  by (simp_all add: free_frames_def free_idx_def pool_frame_def wf_pool_def pool_cap_def fun_eq_iff cong: image_cong)

lemma pool_acquire_facts:
  "vmap (pool_acquire pf m) = vmap m" "wf_mem (pool_acquire pf m) = wf_mem m" "tables (pool_acquire pf m) = tables m"
  "vpool qf (pool_acquire pf m) = vpool qf m" "free_frames (mem_pool qf (pool_acquire pf m)) = free_frames (mem_pool qf m)"
  "wf_vpool qf (pool_acquire pf m) = wf_vpool qf m" "enough qf n (pool_acquire pf m) = enough qf n m"
  "pool_lock (mem_pool pf (pool_acquire pf m)) = Suc (pool_lock (mem_pool pf m))"
proof -
  have pd: "pde (pool_acquire pf m) = pde m" by (simp add: pde_def pool_acquire_def fun_eq_iff)
  show "vmap (pool_acquire pf m) = vmap m" by (simp add: pool_acquire_def)
  show t: "tables (pool_acquire pf m) = tables m" by (simp add: tables_def pd)
  show "vpool qf (pool_acquire pf m) = vpool qf m" by (simp add: pool_acquire_def vpool_def)
  show ff: "free_frames (mem_pool qf (pool_acquire pf m)) = free_frames (mem_pool qf m)" for qf
    by (cases pf; cases qf) (simp_all add: pool_acquire_def mem_lens)
  show "pool_lock (mem_pool pf (pool_acquire pf m)) = Suc (pool_lock (mem_pool pf m))"
    by (simp add: pool_acquire_def)
  show "wf_mem (pool_acquire pf m) = wf_mem m"
    by (cases pf) (simp_all add: wf_mem_def pool_acquire_def mem_lens wf_tables_def tables_def pde_def)
  show "wf_vpool qf (pool_acquire pf m) = wf_vpool qf m"
    by (simp add: wf_vpool_def vpool_def pool_acquire_def)
  show "enough qf n (pool_acquire pf m) = enough qf n m"
    using ff [of PF_KERNEL] ff [of PF_USER] by (simp add: enough_def mem_pool_def)
qed

text \<open>
  \<^verbatim>\<open>get_kernel_pages\<close> and \<^verbatim>\<open>get_user_pages\<close> return cleared memory: with a free run of virtual pages
  and enough frames they return an address from which every word of the \<open>n\<close> pages reads 0, and the
  pool's lock is held as often as before.
\<close>

theorem get_pages_cleared:
  assumes "wf_mem m" and "wf_vpool pf m" and "0 < n" and "n < 3840"
    and "clear_run (vaddr_bitmap (vpool pf m)) s n" and "s + n \<le> bm_cap (vaddr_bitmap (vpool pf m))"
    and "pf = PF_USER \<longrightarrow> unat (pg (vaddr_start (vpool pf m)) s) < 0xbffff000"
    and "enough pf n m"
  shows "\<exists>v m'. get_pages pf n m = Inr (v, m') \<and> v \<noteq> 0 \<and>
     (\<forall>i < n. \<forall>j < 1024. load m' (pg v i + 4 * of_nat j) = Inr 0) \<and>
     pool_lock (mem_pool pf m') = pool_lock (mem_pool pf m)"
proof -
  let ?m = "pool_acquire pf m" let ?v = "vaddr_start (vpool pf ?m)"
  have p: "wf_mem ?m" "wf_vpool pf ?m" "0 < n" "n < 3840" "clear_run (vaddr_bitmap (vpool pf ?m)) s n"
    "s + n \<le> bm_cap (vaddr_bitmap (vpool pf ?m))" "pf = PF_USER \<longrightarrow> unat (pg ?v s) < 0xbffff000" "enough pf n ?m"
    using assms by (simp_all add: pool_acquire_facts)
  obtain s' b m1 fs where r: "s' \<le> s" "clear_run (vaddr_bitmap (vpool pf ?m)) s' n"
    "malloc_page pf n ?m = Inr (pg ?v s', m1)" "wf_mem m1" "\<forall>qf. wf_vpool qf ?m \<longrightarrow> wf_vpool qf m1"
    "same_ctl (upd_vpool pf ((vpool pf ?m)\<lparr>vaddr_bitmap := b\<rparr>) ?m) m1"
    "\<forall>j. bm_bit b j \<longleftrightarrow> s' \<le> j \<and> j < s' + n \<or> bm_bit (vaddr_bitmap (vpool pf ?m)) j"
    "bm_cap b = bm_cap (vaddr_bitmap (vpool pf ?m))" "length fs = n" "run_mapped pf ?m m1 (pg ?v s') fs"
    "set fs \<inter> tables m1 = {}" "tables ?m \<subseteq> tables m1 \<and> tables m1 \<subseteq> tables ?m \<union> free_frames (kernel_pool ?m)" "\<forall>a. frame a \<notin> tables m1 \<longrightarrow> phys m1 a = phys ?m a"
    by (rule malloc_page_ok [OF p])
  let ?w = "pg ?v s'"
  have al: "frame ?w = ?w" using p(2) frame_pg by (simp add: wf_vpool_def Let_def)
  have fal: "\<forall>f \<in> set fs. frame f = f"
    using r(10) free_frames_props [OF wf_mem_pool [OF p(1)]] by (auto simp: run_mapped_def)
  have vm: "\<forall>i < length fs. vmap m1 (pg ?w i) = Some (fs ! i)" "distinct fs" using r(10) by (simp_all add: run_mapped_def)
  have wt: "wf_tables m1" using r(4) by (simp add: wf_mem_def)
  obtain ph where z: "zero_words (length fs * 1024) ?w m1 = Inr (m1\<lparr>phys := ph\<rparr>)"
    "\<forall>a. frame a \<notin> set fs \<longrightarrow> ph a = phys m1 a" "\<forall>f \<in> set fs. \<forall>j < 1024. ph (f + 4 * of_nat j) = 0"
    using zero_run [OF wt al vm(1) r(11) fal vm(2)] by (elim exE conjE)
  let ?m2 = "m1\<lparr>phys := ph\<rparr>" let ?p = "mem_pool pf m1"
  have lk: "pool_lock ?p = Suc (pool_lock (mem_pool pf m))"
    using r(6) pool_acquire_facts(8) [of pf m] by (cases pf) (simp_all add: same_ctl_def pool_same_def mem_pool_def)
  let ?m3 = "upd_pool pf (?p\<lparr>pool_lock := pool_lock ?p - 1\<rparr>) ?m2"
  have "mem_pool pf ?m2 = ?p" by (simp add: mem_pool_def)
  then have rel: "pool_release pf ?m2 = Inr ?m3" using lk by (simp add: pool_release_def)
  have "0x400000 \<le> unat ?w" using vrange_bounds [of pf "vpool pf ?m"] p(2,3,6) r(1) unat_pg [of ?v s']
    by (simp add: wf_vpool_def Let_def)
  then have nz: "?w \<noteq> 0" by auto
  have get: "get_pages pf n m = Inr (?w, ?m3)" using r(3,9) z(1) rel nz by (simp add: get_pages_def)
  have "load ?m3 (pg ?w i + 4 * of_nat j) = Inr 0" if ij: "i < n" "j < 1024" for i j
  proof -
    have pd: "pde ?m2 u = pde m1 u" for u
      using z(2) cr3_in_tables [OF wt] r(11) wf_cr3 [OF wt] by (intro pde_cong) auto
    have "phys ?m2 (pte_cell m1 u) = phys m1 (pte_cell m1 u)" if "present (pde m1 u)" for u
    proof -
      have "frame (pte_cell m1 u) \<in> tables m1" using that by (auto simp: pte_cell_frame tables_def)
      then show ?thesis using z(2) r(11) by auto
    qed
    then have "vmap ?m2 u = vmap m1 u" for u
      unfolding vmap_eq [of ?m2] vmap_eq [of m1] pd pte_cell_cong [OF pd] by auto
    then have "vmap ?m2 (pg ?w i) = Some (fs ! i)" using vm(1) ij(1) r(9) by simp
    then have "vmap ?m2 (pg ?w i + 4 * of_nat j) = Some (fs ! i + 4 * of_nat j)"
      using vmap_in_page [OF frame_pg [OF al], of "4 * of_nat j" ?m2] uint_4k [OF ij(2)] ij(2) by simp
    moreover have "ph (fs ! i + 4 * of_nat j) = 0" using z(3) ij r(9) nth_mem [of i fs] by blast
    ultimately show ?thesis by (simp add: load_def)
  qed
  then show ?thesis using get nz lk by auto
qed

theorem get_pages_cleared_witness:
  "\<exists>v m'. get_pages PF_KERNEL 2 sample_mem = Inr (v, m') \<and> v \<noteq> 0 \<and>
     (\<forall>i < 2. \<forall>j < 1024. load m' (pg v i + 4 * of_nat j) = Inr 0) \<and> pool_lock (mem_pool PF_KERNEL m') = 0"
proof -
  have va: "vpool PF_KERNEL sample_mem =
      \<lparr>vaddr_bitmap = \<lparr>btmp_bytes_len = 1, bits = [0]\<rparr>, vaddr_start = 0xc0100000\<rparr>"
    "pool_lock (mem_pool PF_KERNEL sample_mem) = 0"
    by (simp_all add: vpool_def mem_pool_def sample_mem_def)
  have "enough PF_KERNEL 2 sample_mem" by (simp add: enough_def sample_card)
  then show ?thesis
    using get_pages_cleared [OF sample_wf_mem sample_vpool, of 2 0]
    unfolding va by (simp add: clear_run_code bm_bit_def bm_cap_def)
qed

end
