(* ===== verification/Page_Owner.thy ===== *)
theory Page_Owner
  imports Page_Alloc
begin

text \<open>
  What a client of the page allocator keeps: a set of virtual pages it owns. The client of
  \<^verbatim>\<open>kernel/memory.c\<close> is its block allocator (\<^verbatim>\<open>sys_malloc\<close>, \<^verbatim>\<open>sys_free\<close>); the interface states that
  allocating adds fresh pages, freeing removes pages, and writing to owned pages disturbs nothing.
\<close>

section \<open>Owned pages\<close>

definition vpage :: "pool_flags \<Rightarrow> mem \<Rightarrow> u32 \<Rightarrow> bool" where
  "vpage pf m a \<longleftrightarrow> (\<exists>j < bm_cap (vaddr_bitmap (vpool pf m)).
     a = pg (vaddr_start (vpool pf m)) j \<and> bm_bit (vaddr_bitmap (vpool pf m)) j)"

definition data_frame :: "pool_flags \<Rightarrow> mem \<Rightarrow> u32 \<Rightarrow> bool" where
  "data_frame pf m f \<longleftrightarrow> f \<in> pool_frames (mem_pool pf m) - tables m - free_frames (mem_pool pf m)"

definition pages_ok :: "pool_flags \<Rightarrow> u32 set \<Rightarrow> mem \<Rightarrow> bool" where
  "pages_ok pf S m \<longleftrightarrow> wf_mem m \<and> wf_vpool pf m \<and>
     (\<forall>a \<in> S. vpage pf m a \<and> (\<exists>f. vmap m a = Some f \<and> data_frame pf m f)) \<and> inj_on (vmap m) S"

definition run_pages :: "u32 \<Rightarrow> nat \<Rightarrow> u32 set" where
  "run_pages v n = pg v ` {..<n}"

lemma run_pages_1 [simp]: "run_pages v (Suc 0) = {v}"
  by (auto simp: run_pages_def)

lemma vpage_props:
  assumes "wf_vpool pf m" and "vpage pf m a"
  shows "frame a = a" and "ordinary a" and "a \<noteq> 0"
proof -
  let ?va = "vpool pf m"
  obtain j where j: "j < bm_cap (vaddr_bitmap ?va)" "a = pg (vaddr_start ?va) j"
    using assms(2) by (auto simp: vpage_def)
  have vr: "vrange pf ?va" and al: "frame (vaddr_start ?va) = vaddr_start ?va"
    using assms(1) by (simp_all add: wf_vpool_def Let_def)
  show "frame a = a" using j(2) frame_pg [OF al] by simp
  show o: "ordinary a" using j ordinary_pg vrange_bounds [OF vr] by blast
  have "\<not> ordinary 0" by (simp add: ordinary_def PDE_IDX_def)
  with o show "a \<noteq> 0" by auto
qed

lemma pages_ok_props:
  assumes "pages_ok pf S m" and "a \<in> S"
  shows "frame a = a" and "ordinary a" and "a \<noteq> 0"
  using assms vpage_props [of pf m a] by (auto simp: pages_ok_def)

lemma data_frame_aligned: "wf_mem m \<Longrightarrow> data_frame pf m f \<Longrightarrow> frame f = f"
  using pool_frames_ge [OF wf_mem_pool] by (auto simp: data_frame_def)

lemma pages_ok_subset: "pages_ok pf S m \<Longrightarrow> T \<subseteq> S \<Longrightarrow> pages_ok pf T m"
  by (auto simp: pages_ok_def intro: inj_on_subset)

section \<open>Allocation and release\<close>

definition can_alloc :: "pool_flags \<Rightarrow> nat \<Rightarrow> mem \<Rightarrow> bool" where
  "can_alloc pf n m \<longleftrightarrow> enough pf n m \<and>
     (\<exists>s. clear_run (vaddr_bitmap (vpool pf m)) s n \<and> s + n \<le> bm_cap (vaddr_bitmap (vpool pf m)) \<and>
          (pf = PF_USER \<longrightarrow> unat (pg (vaddr_start (vpool pf m)) s) < 0xbffff000))"

lemma malloc_pages_ok:
  assumes ok: "pages_ok pf S m" and n: "0 < n" "n < 3840" and can: "can_alloc pf n m"
  obtains a m' where "malloc_page pf n m = Inr (a, m')" and "a \<noteq> 0" and "frame a = a"
    and "pages_ok pf (S \<union> run_pages a n) m'" and "S \<inter> run_pages a n = {}"
    and "pgdir m' = pgdir m" and "\<forall>qf. pool_same (mem_pool qf m) (mem_pool qf m')" and "cr3 m' = cr3 m"
proof -
  let ?va = "vpool pf m" let ?v = "vaddr_start ?va"
  have wf: "wf_mem m" and vp: "wf_vpool pf m" using ok by (simp_all add: pages_ok_def)
  obtain s where s: "clear_run (vaddr_bitmap ?va) s n" "s + n \<le> bm_cap (vaddr_bitmap ?va)"
    "pf = PF_USER \<longrightarrow> unat (pg ?v s) < 0xbffff000" and en: "enough pf n m"
    using can by (auto simp: can_alloc_def)
  obtain s' b m' fs where r: "s' \<le> s" "clear_run (vaddr_bitmap ?va) s' n"
    "malloc_page pf n m = Inr (pg ?v s', m')" "wf_mem m'" "\<forall>qf. wf_vpool qf m \<longrightarrow> wf_vpool qf m'"
    "same_ctl (upd_vpool pf (?va\<lparr>vaddr_bitmap := b\<rparr>) m) m'"
    "\<forall>j. bm_bit b j \<longleftrightarrow> s' \<le> j \<and> j < s' + n \<or> bm_bit (vaddr_bitmap ?va) j"
    "bm_cap b = bm_cap (vaddr_bitmap ?va)" "length fs = n" "run_mapped pf m m' (pg ?v s') fs"
    "set fs \<inter> tables m' = {}" "tables m \<subseteq> tables m' \<and> tables m' \<subseteq> tables m \<union> free_frames (kernel_pool m)" "\<forall>a. frame a \<notin> tables m' \<longrightarrow> phys m' a = phys m a"
    by (rule malloc_page_ok [OF wf vp n s en])
  let ?a = "pg ?v s'"
  have va: "vpool pf m' = ?va\<lparr>vaddr_bitmap := b\<rparr>"
    using r(6) by (cases pf) (simp_all add: same_ctl_def mem_lens)
  have vr: "vrange pf ?va" and al: "frame ?v = ?v" using vp by (simp_all add: wf_vpool_def Let_def)
  have fit: "s' + n \<le> bm_cap (vaddr_bitmap ?va)" using r(1) s(2) by simp
  have clr: "\<not> bm_bit (vaddr_bitmap ?va) (s' + i)" if "i < n" for i using r(2) that by (simp add: clear_run_def)
  have disj: "S \<inter> run_pages ?a n = {}"
  proof (rule ccontr)
    assume "S \<inter> run_pages ?a n \<noteq> {}"
    then obtain i where i: "i < n" "pg ?a i \<in> S" by (auto simp: run_pages_def)
    then obtain j where j: "j < bm_cap (vaddr_bitmap ?va)" "pg ?a i = pg ?v j" "bm_bit (vaddr_bitmap ?va) j"
      using ok by (auto simp: pages_ok_def vpage_def)
    have "pg ?v j \<noteq> pg ?v (s' + i)"
      using i j fit clr [of i] by (intro other_page [OF vr vr]) auto
    then show False using j(2) by (simp add: pg_pg)
  qed
  have pfm: "pool_frames (mem_pool pf m') = pool_frames (mem_pool pf m)"
    using same_ctl_pool_frames [OF r(6)] by simp
  have "data_frame pf m' f" if "f \<in> set fs" for f
    using r(10,11) that free_frames_sub [of "mem_pool pf m"] unfolding data_frame_def pfm
    by (auto simp: run_mapped_def)
  then have new: "vmap m' (pg ?a i) = Some (fs ! i)" "data_frame pf m' (fs ! i)" if "i < n" for i
    using r(9,10) that by (simp_all add: run_mapped_def)
  have old: "vmap m' a = vmap m a" if "a \<in> S" for a
  proof -
    have "\<forall>i < length fs. frame a \<noteq> pg ?a i"
      using disj that r(9) pages_ok_props(1) [OF ok that] by (auto simp: run_pages_def)
    then show ?thesis using r(10) pages_ok_props(2) [OF ok that] by (simp add: run_mapped_def)
  qed
  have olddf: "data_frame pf m' f" if "data_frame pf m f" for f
  proof -
    have "f \<notin> free_frames (kernel_pool m)"
    proof (cases pf)
      case PF_USER
      then have "phy_addr_start (user_pool m) \<le> f"
        using that wf pool_frames_ge [of "user_pool m" f] by (auto simp: data_frame_def mem_pool_def wf_mem_def)
      then show ?thesis using kernel_frame_less_user [OF wf, of f] free_frames_sub by force
    qed (use that in \<open>simp add: data_frame_def mem_pool_def\<close>)
    then have "f \<notin> tables m'" using that r(12) by (auto simp: data_frame_def)
    then show ?thesis using that r(10) unfolding data_frame_def pfm by (auto simp: run_mapped_def)
  qed
  have vpg: "vpage pf m' a" if "a \<in> S \<union> run_pages ?a n" for a
    using that
  proof
    assume "a \<in> S"
    then obtain j where "j < bm_cap (vaddr_bitmap ?va)" "a = pg ?v j" "bm_bit (vaddr_bitmap ?va) j"
      using ok by (auto simp: pages_ok_def vpage_def)
    then show ?thesis using r(7,8) unfolding vpage_def va by (intro exI [of _ j]) simp
  next
    assume "a \<in> run_pages ?a n"
    then obtain i where "i < n" "a = pg ?v (s' + i)" by (auto simp: run_pages_def pg_pg)
    then show ?thesis using r(7,8) fit unfolding vpage_def va by (intro exI [of _ "s' + i"]) simp
  qed
  have inj: "inj_on (vmap m') (S \<union> run_pages ?a n)"
  proof (subst inj_on_Un, intro conjI)
    show "inj_on (vmap m') S" using ok old by (simp add: pages_ok_def inj_on_def)
    show "inj_on (vmap m') (run_pages ?a n)"
      using new(1) r(9,10) by (auto simp: inj_on_def run_pages_def run_mapped_def nth_eq_iff_index_eq)
    show "vmap m' ` (S - run_pages ?a n) \<inter> vmap m' ` (run_pages ?a n - S) = {}"
    proof -
      have "vmap m a \<noteq> Some (fs ! i)" if ai: "a \<in> S" "i < n" for a i
      proof -
        have "fs ! i \<in> free_frames (mem_pool pf m)" using r(9,10) ai(2) by (auto simp: run_mapped_def)
        moreover obtain f where "vmap m a = Some f" "data_frame pf m f" using ok ai(1) by (auto simp: pages_ok_def)
        ultimately show ?thesis by (auto simp: data_frame_def)
      qed
      then show ?thesis using old new(1) by (fastforce simp: run_pages_def)
    qed
  qed
  have "\<exists>f. vmap m' a = Some f \<and> data_frame pf m' f" if "a \<in> S \<union> run_pages ?a n" for a
    using that ok old olddf new by (fastforce simp: pages_ok_def run_pages_def)
  then have "pages_ok pf (S \<union> run_pages ?a n) m'"
    using r(4,5) vp vpg inj by (simp add: pages_ok_def)
  moreover have "?a \<noteq> 0" "frame ?a = ?a"
    using vpage_props [of pf m' ?a] vpg [of ?a] r(5) vp n(1) by (force simp: run_pages_def intro: image_eqI [of _ _ 0])+
  moreover have "pgdir m' = pgdir m" "\<forall>qf. pool_same (mem_pool qf m) (mem_pool qf m')" "cr3 m' = cr3 m"
    using r(6) by (cases pf; simp_all add: same_ctl_def mem_pool_def upd_vpool_def)+
  ultimately show ?thesis using that [OF r(3)] disj by blast
qed

lemma mfree_pages_ok:
  assumes ok: "pages_ok pf S m" and run: "run_pages (pg (vaddr_start (vpool pf m)) s) n \<subseteq> S" and n: "0 < n"
    and fit: "s + n \<le> bm_cap (vaddr_bitmap (vpool pf m))"
  obtains m' where "mfree_page pf (pg (vaddr_start (vpool pf m)) s) n m = Inr m'"
    and "pages_ok pf (S - run_pages (pg (vaddr_start (vpool pf m)) s) n) m'"
    and "\<forall>i < n. vmap m' (pg (pg (vaddr_start (vpool pf m)) s) i) = None"
    and "pgdir m' = pgdir m" and "\<forall>qf. pool_same (mem_pool qf m) (mem_pool qf m')" and "cr3 m' = cr3 m"
proof -
  let ?va = "vpool pf m" let ?v = "vaddr_start ?va" let ?a = "pg ?v s" let ?R = "run_pages ?a n"
  define fs where "fs = map (\<lambda>i. the (vmap m (pg ?a i))) [0..<n]"
  have wf: "wf_mem m" and vp: "wf_vpool pf m" using ok by (simp_all add: pages_ok_def)
  have vr: "vrange pf ?va" using vp by (simp add: wf_vpool_def Let_def)
  have mp: "\<exists>f. vmap m (pg ?a i) = Some f \<and> data_frame pf m f" if "i < n" for i
  proof -
    have "pg ?a i \<in> S" using run that by (auto simp: run_pages_def)
    then show ?thesis using ok unfolding pages_ok_def by blast
  qed
  have len: "length fs = n" by (simp add: fs_def)
  have fsi: "vmap m (pg ?a i) = Some (fs ! i)" "data_frame pf m (fs ! i)" if "i < n" for i
    using mp [of i] that by (auto simp: fs_def)
  have fs_in: "data_frame pf m f" if "f \<in> set fs" for f using that fsi(2) len by (metis in_set_conv_nth)
  have ne: "fs \<noteq> []" using n len by auto
  have vm: "\<forall>i < length fs. vmap m (pg ?a i) = Some (fs ! i)" using fsi(1) len by simp
  have fr: "set fs \<subseteq> pool_frames (mem_pool pf m) - tables m" using fs_in by (auto simp: data_frame_def)
  obtain b m' where r: "mfree_page pf ?a n m = Inr m'" "wf_mem m'" "tables m' = tables m"
    "same_ctl (upd_vpool pf (?va\<lparr>vaddr_bitmap := b\<rparr>) m) m'"
    "\<forall>qf. free_frames (mem_pool qf m') = free_frames (mem_pool qf m) \<union> (if qf = pf then set fs else {})"
    "\<forall>u. ordinary u \<longrightarrow> vmap m' u = (if \<exists>i < n. frame u = pg ?a i then None else vmap m u)"
    "\<forall>j. bm_bit b j \<longleftrightarrow> \<not> (s \<le> j \<and> j < s + n) \<and> bm_bit (vaddr_bitmap ?va) j"
    "wf_bitmap b" "bm_cap b = bm_cap (vaddr_bitmap ?va)"
    by (rule mfree_page_ok [OF wf vp ne fit [folded len] vm fr, unfolded len])
  have va: "vpool pf m' = ?va\<lparr>vaddr_bitmap := b\<rparr>"
    using r(4) by (cases pf) (simp_all add: same_ctl_def mem_lens)
  have gone: "vmap m' (pg ?a i) = None" if "i < n" for i
  proof -
    have "pg ?a i \<in> S" using run that by (auto simp: run_pages_def)
    from pages_ok_props(1,2) [OF ok this] show ?thesis using r(6) that by auto
  qed
  have keep: "vmap m' a = vmap m a" if "a \<in> S - ?R" for a
    using r(6) that pages_ok_props(1,2) [OF ok, of a] by (auto simp: run_pages_def)
  have al: "frame ?v = ?v" using vp by (simp add: wf_vpool_def Let_def)
  have "vmap m' (pg ?v i) = None" if i: "i < bm_cap (vaddr_bitmap ?va)" "\<not> bm_bit b i" for i
  proof (cases "s \<le> i \<and> i < s + n")
    case True
    then have "i - s < n" "s + (i - s) = i" by auto
    then show ?thesis using gone [of "i - s"] by (simp add: pg_pg)
  next
    case False
    then have "vmap m (pg ?v i) = None" using i r(7) vp by (simp add: wf_vpool_def Let_def)
    moreover have "ordinary (pg ?v i)" using ordinary_pg vrange_bounds [OF vr] i(1) by blast
    ultimately show ?thesis using r(6) by simp
  qed
  moreover have "vrange pf (?va\<lparr>vaddr_bitmap := b\<rparr>)" using vr r(9) by (simp add: vrange_def)
  ultimately have vp': "wf_vpool pf m'" using al r(8,9) by (simp add: wf_vpool_def Let_def va)
  have "vpage pf m' a" if a: "a \<in> S - ?R" for a
  proof -
    obtain j where j: "j < bm_cap (vaddr_bitmap ?va)" "a = pg ?v j" "bm_bit (vaddr_bitmap ?va) j"
      using ok a by (auto simp: pages_ok_def vpage_def)
    have "\<not> (s \<le> j \<and> j < s + n)" using a j(2) by (auto simp: run_pages_def pg_pg image_iff dest: bspec [of _ _ "j - s"])
    then show ?thesis using j r(7,9) unfolding vpage_def va by (intro exI [of _ j]) simp
  qed
  moreover have "\<exists>f. vmap m' a = Some f \<and> data_frame pf m' f" if a: "a \<in> S - ?R" for a
  proof -
    obtain f where f: "vmap m a = Some f" "data_frame pf m f" using ok a by (auto simp: pages_ok_def)
    have "f \<notin> set fs"
    proof
      assume "f \<in> set fs"
      then obtain i where "i < n" "vmap m (pg ?a i) = vmap m a" using len fsi(1) f(1) by (metis in_set_conv_nth)
      moreover from this have "pg ?a i \<in> ?R" by (auto simp: run_pages_def)
      ultimately show False using ok a run unfolding pages_ok_def inj_on_def by blast
    qed
    then show ?thesis
      using f keep [OF a] r(3,5) same_ctl_pool_frames [OF r(4), of pf] by (simp add: data_frame_def)
  qed
  moreover have "inj_on (vmap m') (S - ?R)"
    using ok keep by (simp add: pages_ok_def inj_on_def)
  ultimately have "pages_ok pf (S - ?R) m'" using r(2) vp' by (simp add: pages_ok_def)
  moreover have "pgdir m' = pgdir m" "\<forall>qf. pool_same (mem_pool qf m) (mem_pool qf m')" "cr3 m' = cr3 m"
    using r(4) by (cases pf; simp_all add: same_ctl_def mem_pool_def upd_vpool_def)+
  ultimately show ?thesis using that [OF r(1)] gone by blast
qed

section \<open>Writing to owned pages and the pool lock\<close>

lemma phys_outside:
  assumes wf: "wf_mem m" and ph: "\<forall>a. frame a \<in> tables m \<longrightarrow> ph a = phys m a"
  shows "wf_mem (m\<lparr>phys := ph\<rparr>)" and "vmap (m\<lparr>phys := ph\<rparr>) = vmap m" and "tables (m\<lparr>phys := ph\<rparr>) = tables m"
    and "\<And>u. pde (m\<lparr>phys := ph\<rparr>) u = pde m u"
proof -
  let ?m = "m\<lparr>phys := ph\<rparr>"
  have wt: "wf_tables m" using wf by (simp add: wf_mem_def)
  show pd: "pde ?m u = pde m u" for u
    using ph cr3_in_tables [OF wt] wf_cr3 [OF wt] by (intro pde_cong) auto
  have "vmap ?m u = vmap m u" for u
  proof -
    have "ph (pte_cell m u) = phys m (pte_cell m u)" if "present (pde m u)"
      using ph that pte_cell_frame [of m u] by (metis (mono_tags, lifting) mem_Collect_eq tables_def)
    then show ?thesis unfolding vmap_eq [of ?m] vmap_eq [of m] pd pte_cell_cong [OF pd] by auto
  qed
  then show "vmap ?m = vmap m" by blast
  show "tables ?m = tables m" by (rule tables_cong [OF pd])
  show "wf_mem ?m" using wf_mem_cong [OF wf pd] by simp
qed

lemma pages_ok_phys:
  assumes ok: "pages_ok pf S m" and ph: "\<forall>a. frame a \<in> tables m \<longrightarrow> ph a = phys m a"
  shows "pages_ok pf S (m\<lparr>phys := ph\<rparr>)" and "vmap (m\<lparr>phys := ph\<rparr>) = vmap m"
    and "tables (m\<lparr>phys := ph\<rparr>) = tables m"
proof -
  let ?m = "m\<lparr>phys := ph\<rparr>"
  have wf: "wf_mem m" using ok by (simp add: pages_ok_def)
  note o = phys_outside [OF wf ph]
  show v: "vmap ?m = vmap m" and t: "tables ?m = tables m" by (rule o)+
  have "vpool pf ?m = vpool pf m" by (simp add: vpool_def)
  then have "wf_vpool pf ?m" using ok unfolding pages_ok_def wf_vpool_def v by simp
  moreover have "vpage pf ?m = vpage pf m" "data_frame pf ?m = data_frame pf m"
    using t by (simp_all add: vpage_def data_frame_def vpool_def mem_pool_def fun_eq_iff)
  ultimately show "pages_ok pf S ?m" using ok v o(1) by (simp add: pages_ok_def)
qed

lemma zero_owned:
  assumes ok: "pages_ok pf S m" and a: "a \<in> S" and kn: "k + n \<le> 1024"
  obtains ph where "zero_words n (a + 4 * of_nat k) m = Inr (m\<lparr>phys := ph\<rparr>)"
    and "pages_ok pf S (m\<lparr>phys := ph\<rparr>)" and "vmap (m\<lparr>phys := ph\<rparr>) = vmap m"
    and "\<forall>j. k \<le> j \<and> j < k + n \<longrightarrow> load (m\<lparr>phys := ph\<rparr>) (a + 4 * of_nat j) = Inr 0"
proof -
  have wt: "wf_tables m" and wf: "wf_mem m" using ok by (simp_all add: pages_ok_def wf_mem_def)
  obtain f where f: "vmap m a = Some f" "data_frame pf m f" using ok a by (auto simp: pages_ok_def)
  have al: "frame a = a" by (rule pages_ok_props [OF ok a])
  have nt: "f \<notin> tables m" using f(2) by (simp add: data_frame_def)
  have pv: "present (pde m a)" using f(1) by (auto simp: vmap_eq [of m a] split: if_splits)
  have ne: "f \<noteq> cr3 m" "f \<noteq> frame (pde m a)" using nt cr3_in_tables [OF wt] pv by (auto simp: tables_def)
  obtain ph where ph: "zero_words n (a + 4 * of_nat k) m = Inr (m\<lparr>phys := ph\<rparr>)"
     "\<forall>a. frame a \<noteq> f \<longrightarrow> ph a = phys m a" "\<forall>j. k \<le> j \<and> j < k + n \<longrightarrow> ph (f + 4 * of_nat j) = 0"
    using zero_words_page [OF al wf_cr3 [OF wt] f(1) ne kn] by (elim exE conjE)
  have t: "\<forall>a. frame a \<in> tables m \<longrightarrow> ph a = phys m a" using ph(2) nt by metis
  note p = pages_ok_phys [OF ok t]
  have "load (m\<lparr>phys := ph\<rparr>) (a + 4 * of_nat j) = Inr 0" if "k \<le> j" "j < k + n" for j
  proof -
    have "uint (4 * of_nat j :: u32) < 4096" using uint_4k [of j] that kn by simp
    then have "vmap (m\<lparr>phys := ph\<rparr>) (a + 4 * of_nat j) = Some (f + 4 * of_nat j)"
      using vmap_in_page [OF al _ f(1), of "4 * of_nat j"] p(2) by simp
    then show ?thesis using ph(3) that by (simp add: load_def)
  qed
  then show ?thesis using that [OF ph(1) p(1,2)] by blast
qed

lemma zero_owned_run:
  assumes ok: "pages_ok pf S m" and run: "run_pages a n \<subseteq> S" and al: "frame a = a"
    and inj: "\<forall>i < n. \<forall>j < n. pg a i = pg a j \<longrightarrow> i = j"
  obtains ph where "zero_words (n * 1024) a m = Inr (m\<lparr>phys := ph\<rparr>)"
    and "pages_ok pf S (m\<lparr>phys := ph\<rparr>)" and "vmap (m\<lparr>phys := ph\<rparr>) = vmap m"
    and "\<forall>i < n. \<forall>j < 1024. load (m\<lparr>phys := ph\<rparr>) (pg a i + 4 * of_nat j) = Inr 0"
proof -
  define fs where "fs = map (\<lambda>i. the (vmap m (pg a i))) [0..<n]"
  have wt: "wf_tables m" and wf: "wf_mem m" using ok by (simp_all add: pages_ok_def wf_mem_def)
  have inS: "pg a i \<in> S" if "i < n" for i using run that by (auto simp: run_pages_def)
  have mp: "\<exists>f. vmap m (pg a i) = Some f \<and> data_frame pf m f" if "i < n" for i
    using ok inS [OF that] unfolding pages_ok_def by blast
  have len: "length fs = n" by (simp add: fs_def)
  have fsi: "vmap m (pg a i) = Some (fs ! i)" "data_frame pf m (fs ! i)" if "i < n" for i
    using mp [OF that] that by (auto simp: fs_def)
  have fs_in: "data_frame pf m f" if "f \<in> set fs" for f using that fsi(2) len by (metis in_set_conv_nth)
  have fal: "\<forall>f \<in> set fs. frame f = f" using fs_in data_frame_aligned [OF wf] by blast
  have dist: "distinct fs"
  proof -
    have "fs ! i \<noteq> fs ! j" if "i < n" "j < n" "i \<noteq> j" for i j
      using ok that inS fsi(1) inj unfolding pages_ok_def inj_on_def by metis
    then show ?thesis using len by (simp add: distinct_conv_nth)
  qed
  have nt: "set fs \<inter> tables m = {}" using fs_in by (auto simp: data_frame_def)
  have vm: "\<forall>i < length fs. vmap m (pg a i) = Some (fs ! i)" using fsi(1) len by simp
  obtain ph where ph: "zero_words (length fs * 1024) a m = Inr (m\<lparr>phys := ph\<rparr>)"
    "\<forall>a. frame a \<notin> set fs \<longrightarrow> ph a = phys m a" "\<forall>f \<in> set fs. \<forall>j < 1024. ph (f + 4 * of_nat j) = 0"
    using zero_run [OF wt al vm nt fal dist] by (elim exE conjE)
  have t: "\<forall>a. frame a \<in> tables m \<longrightarrow> ph a = phys m a" using ph(2) nt by blast
  note p = pages_ok_phys [OF ok t]
  have "load (m\<lparr>phys := ph\<rparr>) (pg a i + 4 * of_nat j) = Inr 0" if ij: "i < n" "j < 1024" for i j
  proof -
    have "uint (4 * of_nat j :: u32) < 4096" using uint_4k [OF ij(2)] ij(2) by simp
    then have "vmap (m\<lparr>phys := ph\<rparr>) (pg a i + 4 * of_nat j) = Some (fs ! i + 4 * of_nat j)"
      using vmap_in_page [OF frame_pg [OF al] _ fsi(1) [OF ij(1)], of "4 * of_nat j"] p(2) by simp
    moreover have "fs ! i \<in> set fs" using ij(1) len by simp
    ultimately show ?thesis using ph(3) ij(2) by (simp add: load_def)
  qed
  then show ?thesis using that [OF _ p(1,2)] ph(1) len by simp
qed

text \<open>Taking and giving back the pool's lock.\<close>

lemma pages_ok_lock:
  "pages_ok pf S (upd_pool qf ((mem_pool qf m)\<lparr>pool_lock := k\<rparr>) m) = pages_ok pf S m"
proof -
  let ?m = "upd_pool qf ((mem_pool qf m)\<lparr>pool_lock := k\<rparr>) m"
  have mp: "mem_pool rf ?m = (if rf = qf then (mem_pool qf m)\<lparr>pool_lock := k\<rparr> else mem_pool rf m)" for rf
    by (cases qf; cases rf) (simp_all add: mem_lens)
  have pf: "pool_frames (p\<lparr>pool_lock := k\<rparr>) = pool_frames p" for p
    by (simp add: pool_frames_def pool_frame_def)
  have "wf_mem ?m = wf_mem m"
    by (cases qf) (simp_all add: wf_mem_def mem_lens wf_tables_def tables_def pde_def)
  moreover have "vpool pf ?m = vpool pf m" by (simp add: vpool_def)
  moreover have "data_frame pf ?m f = data_frame pf m f" for f
    by (simp add: data_frame_def mp pf)
  ultimately show ?thesis
    unfolding pages_ok_def vpage_def wf_vpool_def by simp
qed

lemma can_alloc_lock [simp]: "can_alloc pf n (pool_acquire qf m) = can_alloc pf n m"
  by (simp add: can_alloc_def pool_acquire_facts)

lemma pages_ok_acquire [simp]: "pages_ok pf S (pool_acquire qf m) = pages_ok pf S m"
  by (simp add: pool_acquire_def pages_ok_lock)

text \<open>The kernel's pages do not depend on the process whose directory and pool are current.\<close>

lemma pages_ok_process [simp]:
  "pages_ok PF_KERNEL S (m\<lparr>pgdir := d, userprog_vaddr := u\<rparr>) = pages_ok PF_KERNEL S m"
proof -
  let ?m = "m\<lparr>pgdir := d, userprog_vaddr := u\<rparr>"
  have pd: "pde ?m = pde m" by (simp add: pde_def fun_eq_iff)
  have pc: "pte_cell ?m = pte_cell m" by (simp add: pte_cell_def fun_eq_iff pd)
  have vm: "vmap ?m = vmap m" by (simp add: fun_eq_iff)
  have tb: "tables ?m = tables m" by (simp add: tables_def pd)
  have "wf_tables ?m = wf_tables m" unfolding wf_tables_def pd tb by simp
  then have "wf_mem ?m = wf_mem m" unfolding wf_mem_def tb by simp
  then show ?thesis
    unfolding pages_ok_def vpage_def wf_vpool_def data_frame_def vm tb by (simp add: vpool_def mem_pool_def)
qed

text \<open>A cleared page from \<^verbatim>\<open>get_kernel_pages\<close> or \<^verbatim>\<open>get_user_pages\<close>.\<close>

lemma get_page_ok:
  assumes ok: "pages_ok pf S m" and can: "can_alloc pf 1 m"
  obtains a m' where "get_pages pf 1 m = Inr (a, m')" and "a \<noteq> 0" and "pages_ok pf (insert a S) m'" and "a \<notin> S"
    and "cr3 m' = cr3 m" and "pgdir m' = pgdir m" and "pool_lock (mem_pool pf m') = pool_lock (mem_pool pf m)"
    and "\<forall>j < 1024. load m' (a + 4 * of_nat j) = Inr 0"
proof -
  have ok1: "pages_ok pf S (pool_acquire pf m)" and can1: "can_alloc pf 1 (pool_acquire pf m)" using ok can by simp_all
  obtain a m1 where m1: "malloc_page pf 1 (pool_acquire pf m) = Inr (a, m1)" "a \<noteq> 0" "frame a = a"
    "pages_ok pf (S \<union> run_pages a 1) m1" "S \<inter> run_pages a 1 = {}" "pgdir m1 = pgdir (pool_acquire pf m)"
    "\<forall>qf. pool_same (mem_pool qf (pool_acquire pf m)) (mem_pool qf m1)" "cr3 m1 = cr3 (pool_acquire pf m)"
    by (rule malloc_pages_ok [OF ok1 _ _ can1]) simp_all
  have ai: "a \<in> S \<union> run_pages a 1" by simp
  obtain ph where z: "zero_words 1024 (a + 4 * of_nat 0) m1 = Inr (m1\<lparr>phys := ph\<rparr>)"
    "pages_ok pf (S \<union> run_pages a 1) (m1\<lparr>phys := ph\<rparr>)" "\<forall>j < 1024. load (m1\<lparr>phys := ph\<rparr>) (a + 4 * of_nat j) = Inr 0"
    by (rule zero_owned [OF m1(4) ai, of 0 1024]) simp_all
  let ?m2 = "m1\<lparr>phys := ph\<rparr>" let ?p = "mem_pool pf ?m2"
  have lk: "pool_lock ?p = Suc (pool_lock (mem_pool pf m))"
    using spec [OF m1(7), of pf] pool_acquire_facts(8) [of pf m] by (cases pf) (simp_all add: pool_same_def mem_pool_def)
  let ?m3 = "upd_pool pf (?p\<lparr>pool_lock := pool_lock ?p - 1\<rparr>) ?m2"
  have "get_pages pf 1 m = Inr (a, ?m3)" using m1(1,2) z(1) lk by (simp add: get_pages_def pool_release_def)
  moreover have "pages_ok pf (insert a S) ?m3" using z(2) by (simp add: pages_ok_lock)
  moreover have "cr3 ?m3 = cr3 m" "pgdir ?m3 = pgdir m" using m1(6,8) by (simp_all add: upd_pool_def pool_acquire_def)
  moreover have "pool_lock (mem_pool pf ?m3) = pool_lock (mem_pool pf m)" using lk by (simp add: mem_pool_def upd_pool_def)
  moreover have "load ?m3 = load ?m2" by (simp add: fun_eq_iff load_def upd_pool_def split: option.split)
  ultimately show ?thesis using that m1(2,5) z(3) by simp
qed

lemma sample_can_alloc: "can_alloc PF_KERNEL 1 sample_mem"
proof -
  have va: "vpool PF_KERNEL sample_mem =
      \<lparr>vaddr_bitmap = \<lparr>btmp_bytes_len = 1, bits = [0]\<rparr>, vaddr_start = 0xc0100000\<rparr>"
    by (simp add: vpool_def sample_mem_def)
  show ?thesis unfolding can_alloc_def va
    by (auto simp: enough_def sample_card clear_run_code bm_bit_def bm_cap_def intro!: exI [of _ 0])
qed

lemma sample_pages_ok: "pages_ok PF_KERNEL {} sample_mem"
  using sample_wf_mem sample_vpool by (simp add: pages_ok_def)

end
