(* ===== verification/Kheap.thy ===== *)
theory Kheap
  imports Page_Owner
begin

text \<open>
  Model of the block allocator of \<^verbatim>\<open>kernel/memory.c\<close> (\<^verbatim>\<open>sys_malloc\<close> and \<^verbatim>\<open>sys_free\<close>). The arena headers at
  the start of the pages are a partial function from page addresses to headers, the free lists of
  the seven descriptors are sequences of block addresses (\<^verbatim>\<open>lib/kernel/list.c\<close> implements such
  sequences), a descriptor pointer is the pool it belongs to and its index.
\<close>

section \<open>The data and the operations\<close>

record mem_block_desc =
  block_size :: u32
  blocks_per_arena :: u32
  free_list :: "u32 list"

record arena =
  desc :: "(pool_flags \<times> nat) option"
  cnt :: u32
  large :: bool

record kheap =
  hmem :: mem
  k_block_descs :: "mem_block_desc list"
  u_block_descs :: "mem_block_desc list"
  arenas :: "u32 \<Rightarrow> arena option"

fun block_desc_loop :: "nat \<Rightarrow> u16 \<Rightarrow> mem_block_desc list" where
  "block_desc_loop 0 bsize = []"
| "block_desc_loop (Suc n) bsize =
     \<lparr>block_size = ucast bsize, blocks_per_arena = (4096 - 12) div ucast bsize, free_list = []\<rparr>
       # block_desc_loop n (bsize * 2)"

definition block_desc_init :: "mem_block_desc list" where
  "block_desc_init = block_desc_loop 7 16"

definition hdescs :: "pool_flags \<Rightarrow> kheap \<Rightarrow> mem_block_desc list" where
  "hdescs pf h = (if pf = PF_KERNEL then k_block_descs h else u_block_descs h)"

definition upd_desc :: "pool_flags \<Rightarrow> nat \<Rightarrow> (u32 list \<Rightarrow> u32 list) \<Rightarrow> kheap \<Rightarrow> kheap" where
  "upd_desc pf i f h =
     (let ds = hdescs pf h; ds' = ds[i := (ds ! i)\<lparr>free_list := f (free_list (ds ! i))\<rparr>]
      in if pf = PF_KERNEL then h\<lparr>k_block_descs := ds'\<rparr> else h\<lparr>u_block_descs := ds'\<rparr>)"

definition arena2block :: "u32 \<Rightarrow> mem_block_desc \<Rightarrow> u32 \<Rightarrow> u32" where
  "arena2block a d idx = a + 12 + idx * block_size d"

definition block2arena :: "u32 \<Rightarrow> u32" where
  "block2arena b = b AND 0xfffff000"

text \<open>The size class: the first descriptor whose blocks are large enough.\<close>

fun find_desc :: "u32 \<Rightarrow> mem_block_desc list \<Rightarrow> nat" where
  "find_desc sz [] = 0"
| "find_desc sz (d # ds) = (if sz \<le> block_size d then 0 else Suc (find_desc sz ds))"

definition heap_pf :: "kheap \<Rightarrow> pool_flags" where
  "heap_pf h = (if pgdir (hmem h) = 0 then PF_KERNEL else PF_USER)"

definition mem_step :: "(mem \<Rightarrow> mem result) \<Rightarrow> kheap \<Rightarrow> kheap result" where
  "mem_step f h = mapR (\<lambda>m. h\<lparr>hmem := m\<rparr>) (f (hmem h))"

text \<open>\<^verbatim>\<open>ASSERT(!elem_find(...)); list_append(...)\<close> for the blocks \<open>i, ..., i + n - 1\<close> of a new arena.\<close>

fun split_arena :: "u32 \<Rightarrow> mem_block_desc \<Rightarrow> nat \<Rightarrow> nat \<Rightarrow> u32 list \<Rightarrow> u32 list result" where
  "split_arena a d i 0 fl = Inr fl"
| "split_arena a d i (Suc n) fl =
     (let b = arena2block a d (of_nat i)
      in ASSERT (b \<notin> set fl) ''!elem_find(&a->desc->free_list, &b->free_elem)''
           (split_arena a d (Suc i) n (fl @ [b])))"

definition new_arena :: "pool_flags \<Rightarrow> nat \<Rightarrow> kheap \<Rightarrow> (bool \<times> kheap) result" where
  "new_arena pf i h =
     (let d = hdescs pf h ! i in
      bindR (malloc_page pf 1 (hmem h)) (\<lambda>(a, m).
      if a = 0 then Inr (False, h\<lparr>hmem := m\<rparr>)
      else bindR (zero_words 1024 a m) (\<lambda>m.
        bindR (split_arena a d 0 (unat (blocks_per_arena d)) (free_list d)) (\<lambda>fl.
        Inr (True, upd_desc pf i (\<lambda>_. fl)
          (h\<lparr>hmem := m, arenas := (arenas h)(a \<mapsto>
              \<lparr>desc = Some (pf, i), cnt = blocks_per_arena d, large = False\<rparr>)\<rparr>))))))"

definition take_block :: "pool_flags \<Rightarrow> nat \<Rightarrow> kheap \<Rightarrow> (u32 \<times> kheap) result" where
  "take_block pf i h =
     (let d = hdescs pf h ! i in
      case free_list d of [] \<Rightarrow> Inl NullDeref
      | b # fl \<Rightarrow>
          bindR (zero_words (unat (block_size d) div 4) b (hmem h)) (\<lambda>m.
          let a = block2arena b in
          case arenas h a of None \<Rightarrow> Inl OutOfBounds
          | Some ar \<Rightarrow> Inr (b, upd_desc pf i tl
              (h\<lparr>hmem := m, arenas := (arenas h)(a \<mapsto> ar\<lparr>cnt := cnt ar - 1\<rparr>)\<rparr>))))"

definition malloc_large :: "pool_flags \<Rightarrow> u32 \<Rightarrow> kheap \<Rightarrow> (u32 \<times> kheap) result" where
  "malloc_large pf sz h =
     (let page_cnt = (sz + 12 + 4096 - 1) div 4096 in
      bindR (malloc_page pf (unat page_cnt) (hmem h)) (\<lambda>(a, m).
      if a = 0 then Inr (0, h\<lparr>hmem := m\<rparr>)
      else bindR (zero_words (1024 * unat page_cnt) a m) (\<lambda>m.
        Inr (a + 12, h\<lparr>hmem := m, arenas := (arenas h)(a \<mapsto> \<lparr>desc = None, cnt = page_cnt, large = True\<rparr>)\<rparr>))))"

definition sys_malloc :: "u32 \<Rightarrow> kheap \<Rightarrow> (u32 \<times> kheap) result" where
  "sys_malloc sz h =
     (let pf = heap_pf h in
      if \<not> (0 < sz \<and> sz < pool_size (mem_pool pf (hmem h))) then Inr (0, h)
      else
        let h = h\<lparr>hmem := pool_acquire pf (hmem h)\<rparr> in
        bindR
          (if 1024 < sz then malloc_large pf sz h
           else let i = find_desc sz (hdescs pf h) in
             bindR (if free_list (hdescs pf h ! i) = [] then new_arena pf i h else Inr (True, h)) (\<lambda>(ok, h).
             if ok then take_block pf i h else Inr (0, h)))
          (\<lambda>(p, h). mapR (\<lambda>h. (p, h)) (mem_step (pool_release pf) h)))"

text \<open>\<^verbatim>\<open>ASSERT(elem_find(...)); list_remove(...)\<close> for every block of an arena that became free.\<close>

fun unlink_blocks :: "u32 \<Rightarrow> mem_block_desc \<Rightarrow> nat \<Rightarrow> nat \<Rightarrow> u32 list \<Rightarrow> u32 list result" where
  "unlink_blocks a d i 0 fl = Inr fl"
| "unlink_blocks a d i (Suc n) fl =
     (let b = arena2block a d (of_nat i)
      in ASSERT (b \<in> set fl) ''elem_find(&a->desc->free_list, &b->free_elem)''
           (unlink_blocks a d (Suc i) n (remove1 b fl)))"

definition free_block :: "pool_flags \<Rightarrow> u32 \<Rightarrow> u32 \<Rightarrow> arena \<Rightarrow> pool_flags \<times> nat \<Rightarrow> kheap \<Rightarrow> kheap result" where
  "free_block pf b a ar qi h =
     (let (qf, i) = qi;
          h = upd_desc qf i (\<lambda>fl. fl @ [b]) (h\<lparr>arenas := (arenas h)(a \<mapsto> ar\<lparr>cnt := cnt ar + 1\<rparr>)\<rparr>);
          d = hdescs qf h ! i
      in if cnt ar + 1 = blocks_per_arena d then
           bindR (unlink_blocks a d 0 (unat (blocks_per_arena d)) (free_list d)) (\<lambda>fl.
           mem_step (mfree_page pf a 1)
             (upd_desc qf i (\<lambda>_. fl) (h\<lparr>arenas := (arenas h)(a := None)\<rparr>)))
         else Inr h)"

definition sys_free :: "u32 \<Rightarrow> kheap \<Rightarrow> kheap result" where
  "sys_free ptr h =
     ASSERT (ptr \<noteq> 0) ''ptr != NULL''
     (let pf = heap_pf h; h = h\<lparr>hmem := pool_acquire pf (hmem h)\<rparr>; a = block2arena ptr
      in case arenas h a of None \<Rightarrow> Inl OutOfBounds
         | Some ar \<Rightarrow>
             bindR
               (case desc ar of
                  None \<Rightarrow> if large ar
                           then mem_step (mfree_page pf a (unat (cnt ar))) (h\<lparr>arenas := (arenas h)(a := None)\<rparr>)
                           else Inl NullDeref
                | Some qi \<Rightarrow> free_block pf ptr a ar qi h)
               (mem_step (pool_release pf)))"

definition mem_init :: "(u32 \<Rightarrow> u8) \<Rightarrow> u32 \<Rightarrow> kheap \<Rightarrow> kheap result" where
  "mem_init boot mem_bytes_total h =
     mapR (\<lambda>h. h\<lparr>k_block_descs := block_desc_init\<rparr>) (mem_step (mem_pool_init boot mem_bytes_total) h)"

section \<open>Blocks of an arena\<close>

definition shape :: "mem_block_desc \<Rightarrow> u32 \<times> u32" where
  "shape d = (block_size d, blocks_per_arena d)"

definition wf_descs :: "mem_block_desc list \<Rightarrow> bool" where
  "wf_descs ds \<longleftrightarrow> map shape ds = map shape block_desc_init"

definition blocks :: "u32 \<Rightarrow> mem_block_desc \<Rightarrow> u32 set" where
  "blocks a d = (\<lambda>k. arena2block a d (of_nat k)) ` {..<unat (blocks_per_arena d)}"

lemma block_desc_init_eq:
  "map shape block_desc_init =
     [(16, 255), (32, 127), (64, 63), (128, 31), (256, 15), (512, 7), (1024, 3)]"
  by code_simp

lemma wf_descs_length: "wf_descs ds \<Longrightarrow> length ds = 7"
  unfolding wf_descs_def block_desc_init_eq by (drule arg_cong [of _ _ length]) simp

lemma wf_descs_cases:
  assumes "wf_descs ds" and "i < 7"
  shows "shape (ds ! i) \<in> {(16, 255), (32, 127), (64, 63), (128, 31), (256, 15), (512, 7), (1024, 3)}"
proof -
  have "shape (ds ! i) = map shape ds ! i" using assms wf_descs_length [OF assms(1)] by simp
  also have "\<dots> \<in> set (map shape ds)" using assms wf_descs_length [OF assms(1)] by (intro nth_mem) simp
  finally show ?thesis using assms(1) unfolding wf_descs_def block_desc_init_eq by simp
qed

definition desc_ok :: "mem_block_desc \<Rightarrow> bool" where
  "desc_ok d \<longleftrightarrow> 0 < unat (block_size d) \<and> 4 dvd unat (block_size d) \<and> 0 < unat (blocks_per_arena d) \<and>
     12 + unat (blocks_per_arena d) * unat (block_size d) \<le> 4096"

lemma wf_descs_ok: "wf_descs ds \<Longrightarrow> i < 7 \<Longrightarrow> desc_ok (ds ! i)"
  using wf_descs_cases [of ds i] by (auto simp: shape_def desc_ok_def)

lemma desc_ok_shape: "shape d' = shape d \<Longrightarrow> desc_ok d' = desc_ok d"
  by (simp add: shape_def desc_ok_def)

lemma blocks_shape: "shape d' = shape d \<Longrightarrow> blocks a d' = blocks a d"
  by (simp add: shape_def blocks_def arena2block_def)

lemma blocks_free_list [simp]: "blocks a (d\<lparr>free_list := fl\<rparr>) = blocks a d"
  by (simp add: blocks_def arena2block_def)

text \<open>The word index of a block inside its page.\<close>

definition widx :: "mem_block_desc \<Rightarrow> nat \<Rightarrow> nat" where
  "widx d k = 3 + k * (unat (block_size d) div 4)"

lemma widx_bound:
  assumes "desc_ok d" and "k < unat (blocks_per_arena d)"
  shows "widx d k + unat (block_size d) div 4 \<le> 1024"
proof -
  obtain q where q: "unat (block_size d) = 4 * q" using assms(1) by (auto simp: desc_ok_def)
  have "Suc k * q \<le> unat (blocks_per_arena d) * q" using assms(2) by (intro mult_le_mono1) simp
  moreover have "12 + unat (blocks_per_arena d) * (4 * q) \<le> 4096"
    using assms(1) unfolding desc_ok_def q by simp
  ultimately show ?thesis by (simp add: widx_def q mult.commute [of q])
qed

lemma arena2block_widx: "desc_ok d \<Longrightarrow> arena2block a d (of_nat k) = a + 4 * of_nat (widx d k)"
proof -
  assume "desc_ok d"
  then obtain q where q: "unat (block_size d) = 4 * q" by (auto simp: desc_ok_def)
  have "block_size d = of_nat (unat (block_size d))" by simp
  then have bs: "block_size d = 4 * of_nat q" unfolding q by simp
  have "unat (block_size d) div 4 = q" using q by simp
  then show ?thesis unfolding arena2block_def widx_def by (simp add: bs algebra_simps)
qed

lemma widx_inj: "desc_ok d \<Longrightarrow> widx d k = widx d l \<longleftrightarrow> k = l"
  by (auto simp: widx_def desc_ok_def)

lemma block_in_page:
  assumes "frame a = a" and "desc_ok d" and "b \<in> blocks a d"
  obtains k where "k < unat (blocks_per_arena d)" and "b = a + 4 * of_nat (widx d k)"
    and "widx d k + unat (block_size d) div 4 \<le> 1024" and "block2arena b = a"
proof -
  obtain k where k: "k < unat (blocks_per_arena d)" "b = a + 4 * of_nat (widx d k)"
    using assms(2,3) by (auto simp: blocks_def arena2block_widx)
  have w: "widx d k + unat (block_size d) div 4 \<le> 1024" using widx_bound [OF assms(2) k(1)] .
  moreover have "0 < unat (block_size d) div 4" using assms(2) by (auto simp: desc_ok_def)
  ultimately have "widx d k < 1024" by simp
  then have "frame b = a" using uint_in_page(2) [OF assms(1)] uint_4k k(2) by simp
  then show ?thesis using that [OF k w] by (simp add: block2arena_def frame_def)
qed

lemma card_blocks:
  assumes "frame a = a" and "desc_ok d"
  shows "card (blocks a d) = unat (blocks_per_arena d)"
proof -
  have "inj_on (\<lambda>k. arena2block a d (of_nat k)) {..<unat (blocks_per_arena d)}"
  proof (rule inj_onI)
    fix k l assume kl: "k \<in> {..<unat (blocks_per_arena d)}" "l \<in> {..<unat (blocks_per_arena d)}"
      "arena2block a d (of_nat k) = arena2block a d (of_nat l)"
    have "0 < unat (block_size d) div 4" using assms(2) by (auto simp: desc_ok_def)
    then have lt: "widx d k < 1024" "widx d l < 1024"
      using widx_bound [OF assms(2), of k] widx_bound [OF assms(2), of l] kl by auto
    then have "(4 * of_nat (widx d k) :: u32) = 4 * of_nat (widx d l)"
      using kl(3) arena2block_widx [OF assms(2)] by simp
    then have "uint (4 * of_nat (widx d k) :: u32) = uint (4 * of_nat (widx d l) :: u32)" by simp
    then have "widx d k = widx d l" using uint_4k [OF lt(1)] uint_4k [OF lt(2)] by simp
    then show "k = l" by (simp add: widx_inj [OF assms(2)])
  qed
  then show ?thesis by (simp add: blocks_def card_image)
qed

lemma blocks_disjoint:
  "frame a = a \<Longrightarrow> frame a' = a' \<Longrightarrow> desc_ok d \<Longrightarrow> desc_ok d' \<Longrightarrow> a \<noteq> a' \<Longrightarrow> blocks a d \<inter> blocks a' d' = {}"
  by (metis (no_types, lifting) block_in_page disjoint_iff)

section \<open>The heap invariant\<close>

definition pages_of :: "pool_flags \<Rightarrow> kheap \<Rightarrow> u32 \<Rightarrow> u32 set" where
  "pages_of pf h a = (case arenas h a of None \<Rightarrow> {}
     | Some ar \<Rightarrow> (case desc ar of Some (qf, i) \<Rightarrow> if qf = pf then {a} else {}
         | None \<Rightarrow> if large ar \<and> (pf = PF_KERNEL \<longleftrightarrow> 0xc0000000 \<le> a) then run_pages a (unat (cnt ar)) else {}))"

definition owned :: "pool_flags \<Rightarrow> kheap \<Rightarrow> u32 set" where
  "owned pf h = (\<Union>a. pages_of pf h a)"

definition small_arena :: "pool_flags \<Rightarrow> kheap \<Rightarrow> u32 \<Rightarrow> nat \<Rightarrow> arena \<Rightarrow> bool" where
  "small_arena pf h a i ar \<longleftrightarrow> arenas h a = Some ar \<and> desc ar = Some (pf, i)"

definition heap_inv :: "pool_flags \<Rightarrow> kheap \<Rightarrow> bool" where
  "heap_inv pf h \<longleftrightarrow> wf_descs (hdescs pf h) \<and> pages_ok pf (owned pf h) (hmem h) \<and>
     (\<forall>a b. a \<noteq> b \<longrightarrow> pages_of pf h a \<inter> pages_of pf h b = {}) \<and>
     (\<forall>i < 7. distinct (free_list (hdescs pf h ! i)) \<and>
        (\<forall>b \<in> set (free_list (hdescs pf h ! i)). \<exists>a ar. small_arena pf h a i ar \<and> b \<in> blocks a (hdescs pf h ! i))) \<and>
     (\<forall>a i ar. small_arena pf h a i ar \<longrightarrow> i < 7 \<and>
        unat (cnt ar) = card (set (free_list (hdescs pf h ! i)) \<inter> blocks a (hdescs pf h ! i)))"

lemma hdescs_upd_desc:
  "hdescs qf (upd_desc pf i f h) =
     (if qf = pf then (hdescs pf h)[i := (hdescs pf h ! i)\<lparr>free_list := f (free_list (hdescs pf h ! i))\<rparr>] else hdescs qf h)"
  by (cases pf; cases qf) (simp_all add: upd_desc_def hdescs_def Let_def)

lemma upd_desc_fields [simp]:
  "arenas (upd_desc pf i f h) = arenas h" "hmem (upd_desc pf i f h) = hmem h"
  by (simp_all add: upd_desc_def Let_def)

lemma hdescs_fields [simp]:
  "hdescs pf (h\<lparr>hmem := m\<rparr>) = hdescs pf h" "hdescs pf (h\<lparr>arenas := A\<rparr>) = hdescs pf h"
  by (simp_all add: hdescs_def)

lemma small_arena_owned:
  assumes "small_arena pf h a i ar"
  shows "pages_of pf h a = {a}" and "a \<in> owned pf h"
proof -
  show "pages_of pf h a = {a}" using assms by (simp add: small_arena_def pages_of_def)
  then show "a \<in> owned pf h" by (auto simp: owned_def)
qed

lemma wf_descs_update: "wf_descs ds \<Longrightarrow> wf_descs (ds[i := (ds ! i)\<lparr>free_list := fl\<rparr>])"
proof -
  assume "wf_descs ds"
  moreover have "map shape (ds[i := (ds ! i)\<lparr>free_list := fl\<rparr>]) = map shape ds"
    by (cases "i < length ds") (auto simp: nth_list_update shape_def intro: nth_equalityI)
  ultimately show ?thesis by (simp add: wf_descs_def)
qed

lemma heap_inv_parts:
  assumes "heap_inv pf h"
  shows "wf_descs (hdescs pf h)" and "pages_ok pf (owned pf h) (hmem h)"
    and "\<And>a b. a \<noteq> b \<Longrightarrow> pages_of pf h a \<inter> pages_of pf h b = {}"
    and "\<And>i. i < 7 \<Longrightarrow> distinct (free_list (hdescs pf h ! i))"
    and "\<And>i b. i < 7 \<Longrightarrow> b \<in> set (free_list (hdescs pf h ! i)) \<Longrightarrow>
           \<exists>a ar. small_arena pf h a i ar \<and> b \<in> blocks a (hdescs pf h ! i)"
    and "\<And>a i ar. small_arena pf h a i ar \<Longrightarrow> i < 7 \<and>
           unat (cnt ar) = card (set (free_list (hdescs pf h ! i)) \<inter> blocks a (hdescs pf h ! i))"
    and "length (hdescs pf h) = 7" and "\<And>i. i < 7 \<Longrightarrow> desc_ok (hdescs pf h ! i)"
  using assms wf_descs_length wf_descs_ok unfolding heap_inv_def by blast+

lemma small_arena_aligned: "heap_inv pf h \<Longrightarrow> small_arena pf h a i ar \<Longrightarrow> frame a = a"
  using pages_ok_props(1) heap_inv_parts(2) small_arena_owned(2) by blast

text \<open>The effect of changing one free list and the count of its arena.\<close>

lemma heap_inv_relist:
  assumes inv: "heap_inv pf h" and i: "i < 7" and sa: "small_arena pf h a i ar"
    and dist: "distinct fl" and fl: "\<forall>b \<in> set fl. b \<in> set (free_list (hdescs pf h ! i)) \<or> b \<in> blocks a (hdescs pf h ! i)"
    and rest: "set fl - blocks a (hdescs pf h ! i) = set (free_list (hdescs pf h ! i)) - blocks a (hdescs pf h ! i)"
    and c: "unat c = card (set fl \<inter> blocks a (hdescs pf h ! i))"
    and m: "pages_ok pf (owned pf h) m"
  shows "heap_inv pf (upd_desc pf i (\<lambda>_. fl) (h\<lparr>hmem := m, arenas := (arenas h)(a \<mapsto> ar\<lparr>cnt := c\<rparr>)\<rparr>))"
    (is "heap_inv pf ?h")
proof -
  let ?ds = "hdescs pf h" let ?d = "?ds ! i"
  note p = heap_inv_parts [OF inv]
  have ds: "hdescs pf ?h = ?ds[i := ?d\<lparr>free_list := fl\<rparr>]" by (simp add: hdescs_upd_desc)
  have nth: "j < 7 \<Longrightarrow> hdescs pf ?h ! j = (if j = i then ?d\<lparr>free_list := fl\<rparr> else ?ds ! j)" for j
    using p(7) by (simp add: ds)
  have bl: "j < 7 \<Longrightarrow> blocks x (hdescs pf ?h ! j) = blocks x (?ds ! j)" for j x
    by (rule blocks_shape) (simp add: nth shape_def)
  have sm: "small_arena pf ?h x j xr \<longleftrightarrow> (if x = a then j = i \<and> xr = ar\<lparr>cnt := c\<rparr> else small_arena pf h x j xr)" for x j xr
    using sa by (auto simp: small_arena_def)
  have po: "pages_of pf ?h x = pages_of pf h x" for x
    using sa by (simp add: pages_of_def small_arena_def split: option.splits)
  then have ow: "owned pf ?h = owned pf h" by (simp add: owned_def)
  have al: "frame x = x" if "small_arena pf h x j xr" for x j xr using small_arena_aligned [OF inv that] .
  have dj: "blocks x ?d \<inter> blocks a ?d = {}" if "small_arena pf h x j xr" "x \<noteq> a" for x j xr
    using blocks_disjoint [OF al [OF that(1)] al [OF sa] p(8) [OF i] p(8) [OF i] that(2)] .
  show ?thesis unfolding heap_inv_def
  proof (intro conjI allI impI ballI)
    show "wf_descs (hdescs pf ?h)" unfolding ds by (rule wf_descs_update [OF p(1)])
    show "pages_ok pf (owned pf ?h) (hmem ?h)" unfolding ow using m by simp
    show "pages_of pf ?h x \<inter> pages_of pf ?h y = {}" if "x \<noteq> y" for x y unfolding po using p(3) [OF that] .
    show "distinct (free_list (hdescs pf ?h ! j))" if "j < 7" for j using p(4) dist that by (simp add: nth)
    show "\<exists>x xr. small_arena pf ?h x j xr \<and> b \<in> blocks x (hdescs pf ?h ! j)"
      if jb: "j < 7" "b \<in> set (free_list (hdescs pf ?h ! j))" for j b
    proof (cases "j = i \<and> b \<in> blocks a ?d")
      case True
      then show ?thesis using i by (intro exI [of _ a] exI [of _ "ar\<lparr>cnt := c\<rparr>"]) (simp add: sm bl)
    next
      case False
      then have "b \<in> set (free_list (?ds ! j))" using jb fl by (auto simp: nth split: if_splits)
      then obtain x xr where x: "small_arena pf h x j xr" "b \<in> blocks x (?ds ! j)" using p(5) [OF jb(1)] by blast
      have "x \<noteq> a" using False x sa by (auto simp: small_arena_def)
      then show ?thesis using x jb(1) by (intro exI [of _ x] exI [of _ xr]) (simp add: sm bl)
    qed
    show "j < 7" if "small_arena pf ?h x j xr" for x j xr using that p(6) i by (auto simp: sm split: if_splits)
    show "unat (cnt xr) = card (set (free_list (hdescs pf ?h ! j)) \<inter> blocks x (hdescs pf ?h ! j))"
      if x: "small_arena pf ?h x j xr" for x j xr
    proof (cases "x = a")
      case True
      then show ?thesis using x c i by (simp add: sm nth bl)
    next
      case False
      then have xs: "small_arena pf h x j xr" using x by (simp add: sm)
      note q = p(6) [OF xs]
      have "set fl \<inter> blocks x ?d = set (free_list ?d) \<inter> blocks x ?d" using dj [OF xs False] rest by blast
      then show ?thesis using q by (simp add: nth bl)
    qed
  qed
qed

lemma take_block_ok:
  assumes inv: "heap_inv pf h" and i: "i < 7" and fl: "free_list (hdescs pf h ! i) = b # fl"
  obtains ar ph where "small_arena pf h (block2arena b) i ar" and "b \<in> blocks (block2arena b) (hdescs pf h ! i)"
    and "take_block pf i h = Inr (b, upd_desc pf i (\<lambda>_. fl) (h\<lparr>hmem := (hmem h)\<lparr>phys := ph\<rparr>,
            arenas := (arenas h)(block2arena b \<mapsto> ar\<lparr>cnt := cnt ar - 1\<rparr>)\<rparr>))"
    and "heap_inv pf (upd_desc pf i (\<lambda>_. fl) (h\<lparr>hmem := (hmem h)\<lparr>phys := ph\<rparr>,
            arenas := (arenas h)(block2arena b \<mapsto> ar\<lparr>cnt := cnt ar - 1\<rparr>)\<rparr>))"
    and "\<forall>j < unat (block_size (hdescs pf h ! i)) div 4. load ((hmem h)\<lparr>phys := ph\<rparr>) (b + 4 * of_nat j) = Inr 0"
    and "b \<notin> set fl"
proof -
  let ?d = "hdescs pf h ! i" let ?n = "unat (block_size ?d) div 4"
  note p = heap_inv_parts [OF inv]
  obtain a ar where sa: "small_arena pf h a i ar" and ba: "b \<in> blocks a ?d" using p(5) [OF i, of b] fl by auto
  obtain k where k: "k < unat (blocks_per_arena ?d)" "b = a + 4 * of_nat (widx ?d k)" "widx ?d k + ?n \<le> 1024" "block2arena b = a"
    by (rule block_in_page [OF small_arena_aligned [OF inv sa] p(8) [OF i] ba])
  obtain ph where ph: "zero_words ?n (a + 4 * of_nat (widx ?d k)) (hmem h) = Inr ((hmem h)\<lparr>phys := ph\<rparr>)"
    "pages_ok pf (owned pf h) ((hmem h)\<lparr>phys := ph\<rparr>)" "vmap ((hmem h)\<lparr>phys := ph\<rparr>) = vmap (hmem h)"
    "\<forall>j. widx ?d k \<le> j \<and> j < widx ?d k + ?n \<longrightarrow> load ((hmem h)\<lparr>phys := ph\<rparr>) (a + 4 * of_nat j) = Inr 0"
    by (rule zero_owned [OF p(2) small_arena_owned(2) [OF sa] k(3)])
  have bn: "b \<notin> set fl" "distinct fl" using p(4) [OF i] fl by auto
  have "unat (cnt ar) = card (set (b # fl) \<inter> blocks a ?d)" using p(6) [OF sa] fl by simp
  also have "set (b # fl) \<inter> blocks a ?d = insert b (set fl \<inter> blocks a ?d)" using ba by auto
  finally have "unat (cnt ar) = Suc (card (set fl \<inter> blocks a ?d))" using bn by simp
  then have c: "unat (cnt ar - 1) = card (set fl \<inter> blocks a ?d)"
    by (metis diff_Suc_1 unat_minus_one unat_0 nat.distinct(1))
  have "heap_inv pf (upd_desc pf i (\<lambda>_. fl) (h\<lparr>hmem := (hmem h)\<lparr>phys := ph\<rparr>, arenas := (arenas h)(a \<mapsto> ar\<lparr>cnt := cnt ar - 1\<rparr>)\<rparr>))"
    using fl ba bn by (intro heap_inv_relist [OF inv i sa bn(2) _ _ c ph(2)]) auto
  moreover have "take_block pf i h = Inr (b, upd_desc pf i tl (h\<lparr>hmem := (hmem h)\<lparr>phys := ph\<rparr>,
            arenas := (arenas h)(a \<mapsto> ar\<lparr>cnt := cnt ar - 1\<rparr>)\<rparr>))"
    using ph(1) sa k(2,4) fl by (simp add: take_block_def Let_def small_arena_def)
  moreover have "upd_desc pf i tl g = upd_desc pf i (\<lambda>_. fl) g" if "hdescs pf g = hdescs pf h" for g
    using that fl by (simp add: upd_desc_def)
  moreover have "load ((hmem h)\<lparr>phys := ph\<rparr>) (b + 4 * of_nat j) = Inr 0" if "j < ?n" for j
    using ph(4) [rule_format, of "widx ?d k + j"] that k(2) by (simp add: algebra_simps)
  ultimately show ?thesis using that [of ar ph] sa ba k(4) bn(1) by simp
qed

lemma split_arena_eq:
  assumes "distinct (fl @ map (\<lambda>k. arena2block a d (of_nat k)) [i..<i + n])"
  shows "split_arena a d i n fl = Inr (fl @ map (\<lambda>k. arena2block a d (of_nat k)) [i..<i + n])"
  using assms
proof (induction n arbitrary: i fl)
  case (Suc n)
  have "[i..<i + Suc n] = i # [Suc i..<Suc i + n]" by (simp add: upt_conv_Cons)
  then show ?case using Suc.IH [of "fl @ [arena2block a d (of_nat i)]" "Suc i"] Suc.prems by simp
qed simp

definition block_seq :: "u32 \<Rightarrow> mem_block_desc \<Rightarrow> u32 list" where
  "block_seq a d = map (\<lambda>k. arena2block a d (of_nat k)) [0..<unat (blocks_per_arena d)]"

lemma set_block_seq: "set (block_seq a d) = blocks a d"
  by (auto simp: block_seq_def blocks_def)

lemma distinct_block_seq: "frame a = a \<Longrightarrow> desc_ok d \<Longrightarrow> distinct (block_seq a d)"
  using card_blocks [of a d] card_distinct [of "block_seq a d"] by (simp add: set_block_seq) (simp add: block_seq_def)

lemma pages_of_mem: "x \<in> pages_of pf h a \<Longrightarrow> a \<in> pages_of pf h a"
  by (auto simp: pages_of_def run_pages_def split: option.splits if_splits intro: image_eqI [of _ _ 0])

lemma new_arena_ok:
  assumes inv: "heap_inv pf h" and i: "i < 7" and fl: "free_list (hdescs pf h ! i) = []"
    and can: "can_alloc pf 1 (hmem h)"
  obtains a m where "a \<notin> owned pf h" and "frame a = a"
    and "new_arena pf i h = Inr (True, upd_desc pf i (\<lambda>_. block_seq a (hdescs pf h ! i))
          (h\<lparr>hmem := m, arenas := (arenas h)(a \<mapsto>
              \<lparr>desc = Some (pf, i), cnt = blocks_per_arena (hdescs pf h ! i), large = False\<rparr>)\<rparr>))"
    and "heap_inv pf (upd_desc pf i (\<lambda>_. block_seq a (hdescs pf h ! i))
          (h\<lparr>hmem := m, arenas := (arenas h)(a \<mapsto>
              \<lparr>desc = Some (pf, i), cnt = blocks_per_arena (hdescs pf h ! i), large = False\<rparr>)\<rparr>))"
    and "pgdir m = pgdir (hmem h)" and "\<forall>qf. pool_same (mem_pool qf (hmem h)) (mem_pool qf m)"
proof -
  let ?ds = "hdescs pf h" let ?d = "?ds ! i"
  note p = heap_inv_parts [OF inv]
  obtain a m where m: "malloc_page pf 1 (hmem h) = Inr (a, m)" "a \<noteq> 0" "frame a = a"
    "pages_ok pf (owned pf h \<union> run_pages a 1) m" "owned pf h \<inter> run_pages a 1 = {}"
    "pgdir m = pgdir (hmem h)" "\<forall>qf. pool_same (mem_pool qf (hmem h)) (mem_pool qf m)" "cr3 m = cr3 (hmem h)"
    by (rule malloc_pages_ok [OF p(2) _ _ can]) simp_all
  have an: "a \<notin> owned pf h" using m(5) by simp
  have dok: "desc_ok ?d" using p(8) [OF i] .
  have zk: "0 + 1024 \<le> (1024 :: nat)" by simp
  obtain ph where ph: "zero_words 1024 (a + 4 * of_nat 0) m = Inr (m\<lparr>phys := ph\<rparr>)"
    "pages_ok pf (owned pf h \<union> run_pages a 1) (m\<lparr>phys := ph\<rparr>)" "vmap (m\<lparr>phys := ph\<rparr>) = vmap m"
    "\<forall>j. 0 \<le> j \<and> j < 0 + 1024 \<longrightarrow> load (m\<lparr>phys := ph\<rparr>) (a + 4 * of_nat j) = Inr 0"
    by (rule zero_owned [OF m(4) _ zk, of a]) simp
  let ?m = "m\<lparr>phys := ph\<rparr>"
  let ?ar = "\<lparr>desc = Some (pf, i), cnt = blocks_per_arena ?d, large = False\<rparr>"
  let ?h = "upd_desc pf i (\<lambda>_. block_seq a ?d) (h\<lparr>hmem := ?m, arenas := (arenas h)(a \<mapsto> ?ar)\<rparr>)"
  have "split_arena a ?d 0 (unat (blocks_per_arena ?d)) (free_list ?d) = Inr (block_seq a ?d)"
    using split_arena_eq [of "[]" a ?d 0 "unat (blocks_per_arena ?d)"] distinct_block_seq [OF m(3) dok] fl
    by (simp add: block_seq_def)
  then have eq: "new_arena pf i h = Inr (True, ?h)"
    using m(1,2) ph(1) by (simp add: new_arena_def Let_def)
  have ds: "hdescs pf ?h = ?ds[i := ?d\<lparr>free_list := block_seq a ?d\<rparr>]" by (simp add: hdescs_upd_desc)
  have nth: "j < 7 \<Longrightarrow> hdescs pf ?h ! j = (if j = i then ?d\<lparr>free_list := block_seq a ?d\<rparr> else ?ds ! j)" for j
    using p(7) by (simp add: ds)
  have pa: "pages_of pf h a = {}" using an pages_of_mem by (fastforce simp: owned_def)
  have po: "pages_of pf ?h x = (if x = a then {a} else pages_of pf h x)" for x by (simp add: pages_of_def)
  have ow: "owned pf ?h = owned pf h \<union> run_pages a 1" using pa by (auto simp: owned_def po split: if_splits)
  have sm: "small_arena pf ?h x j xr \<longleftrightarrow> (if x = a then j = i \<and> xr = ?ar else small_arena pf h x j xr)" for x j xr
    by (auto simp: small_arena_def)
  have sn: "x \<noteq> a" if "small_arena pf h x j xr" for x j xr using small_arena_owned(2) [OF that] an by auto
  have "heap_inv pf ?h" unfolding heap_inv_def
  proof (intro conjI allI impI ballI)
    show "wf_descs (hdescs pf ?h)" unfolding ds by (rule wf_descs_update [OF p(1)])
    show "pages_ok pf (owned pf ?h) (hmem ?h)" unfolding ow using ph(2) by simp
    show "pages_of pf ?h x \<inter> pages_of pf ?h y = {}" if "x \<noteq> y" for x y
      using p(3) [OF that] an that by (auto simp: po owned_def)
    show "distinct (free_list (hdescs pf ?h ! j))" if "j < 7" for j
      using p(4) distinct_block_seq [OF m(3) dok] that by (simp add: nth)
    show "\<exists>x xr. small_arena pf ?h x j xr \<and> b \<in> blocks x (hdescs pf ?h ! j)"
      if jb: "j < 7" "b \<in> set (free_list (hdescs pf ?h ! j))" for j b
    proof (cases "j = i")
      case True
      then show ?thesis using jb by (intro exI [of _ a] exI [of _ ?ar]) (simp add: sm nth set_block_seq)
    next
      case False
      then obtain x xr where "small_arena pf h x j xr" "b \<in> blocks x (?ds ! j)" using p(5) [OF jb(1), of b] jb by (auto simp: nth)
      then show ?thesis using sn False jb(1) by (intro exI [of _ x] exI [of _ xr]) (auto simp: sm nth)
    qed
    show "j < 7" if "small_arena pf ?h x j xr" for x j xr using that p(6) i by (auto simp: sm split: if_splits)
    show "unat (cnt xr) = card (set (free_list (hdescs pf ?h ! j)) \<inter> blocks x (hdescs pf ?h ! j))"
      if x: "small_arena pf ?h x j xr" for x j xr
    proof (cases "x = a")
      case True
      then show ?thesis using x i card_blocks [OF m(3) dok] by (simp add: sm nth set_block_seq)
    next
      case False
      then have xs: "small_arena pf h x j xr" using x by (simp add: sm)
      have "blocks a ?d \<inter> blocks x ?d = {}"
        using blocks_disjoint [OF m(3) small_arena_aligned [OF inv xs] dok dok] False by auto
      then show ?thesis using p(6) [OF xs] fl by (simp add: nth set_block_seq)
    qed
  qed
  moreover have "mem_pool qf ?m = mem_pool qf m" for qf by (simp add: mem_pool_def)
  ultimately show ?thesis using that [OF an m(3) eq] m(6,7) by simp
qed

section \<open>Size classes\<close>

lemma find_desc_props:
  "find_desc sz ds \<le> length ds"
  "find_desc sz ds < length ds \<Longrightarrow> sz \<le> block_size (ds ! find_desc sz ds)"
  "j < find_desc sz ds \<Longrightarrow> block_size (ds ! j) < sz"
proof (induction ds arbitrary: j)
  case (Cons d ds)
  { case 1 then show ?case using Cons.IH(1) by simp }
  { case 2 then show ?case using Cons.IH(2) by (auto split: if_splits) }
  { case 3 then show ?case using Cons.IH(3) [of "j - 1"] by (cases j) (auto split: if_splits) }
qed simp_all

lemma find_desc_small:
  assumes "wf_descs ds" and "sz \<le> 1024"
  shows "find_desc sz ds < 7" and "sz \<le> block_size (ds ! find_desc sz ds)"
    and "\<forall>j < find_desc sz ds. block_size (ds ! j) < sz"
proof -
  have len: "length ds = 7" by (rule wf_descs_length [OF assms(1)])
  have "shape (ds ! 6) = map shape ds ! 6" using len by simp
  also have "\<dots> = (1024, 3)" using assms(1) unfolding wf_descs_def block_desc_init_eq by simp
  finally have "block_size (ds ! 6) = 1024" by (simp add: shape_def)
  then have "\<not> 6 < find_desc sz ds" using find_desc_props(3) [where j = 6 and sz = sz and ds = ds] assms(2) by auto
  then show "find_desc sz ds < 7" by simp
  then show "sz \<le> block_size (ds ! find_desc sz ds)" "\<forall>j < find_desc sz ds. block_size (ds ! j) < sz"
    using find_desc_props(2,3) [where sz = sz and ds = ds] len by auto
qed

section \<open>Allocating and freeing\<close>

lemma heap_inv_hmem: "heap_inv pf h \<Longrightarrow> pages_ok pf (owned pf h) m \<Longrightarrow> heap_inv pf (h\<lparr>hmem := m\<rparr>)"
  by (simp add: heap_inv_def owned_def pages_of_def small_arena_def)

lemma owned_hmem [simp]: "owned pf (h\<lparr>hmem := m\<rparr>) = owned pf h"
  by (simp add: owned_def pages_of_def)

lemma heap_inv_acquire: "heap_inv pf h \<Longrightarrow> heap_inv pf (h\<lparr>hmem := pool_acquire qf (hmem h)\<rparr>)"
  using heap_inv_parts(2) by (intro heap_inv_hmem) simp_all

lemma release_ok:
  assumes "heap_inv pf h" and "pool_lock (mem_pool pf (hmem h)) = Suc k"
  obtains h' where "mem_step (pool_release pf) h = Inr h'" and "heap_inv pf h'"
    and "pool_lock (mem_pool pf (hmem h')) = k" and "arenas h' = arenas h" and "hdescs pf h' = hdescs pf h"
    and "load (hmem h') = load (hmem h)" and "vmap (hmem h') = vmap (hmem h)" and "heap_pf h' = heap_pf h"
proof -
  let ?m = "upd_pool pf ((mem_pool pf (hmem h))\<lparr>pool_lock := k\<rparr>) (hmem h)"
  have "mem_step (pool_release pf) h = Inr (h\<lparr>hmem := ?m\<rparr>)"
    using assms(2) by (simp add: mem_step_def pool_release_def)
  moreover have "heap_inv pf (h\<lparr>hmem := ?m\<rparr>)"
    using assms(1) heap_inv_parts(2) pages_ok_lock by (intro heap_inv_hmem) simp_all
  moreover have "load ?m = load (hmem h)" by (rule ext) (simp add: load_def split: option.split)
  ultimately show ?thesis using that [of "h\<lparr>hmem := ?m\<rparr>"] by (simp add: heap_pf_def)
qed

text \<open>A block in use: it belongs to an arena of a size class and is not in its free list.\<close>

definition in_use :: "pool_flags \<Rightarrow> kheap \<Rightarrow> u32 \<Rightarrow> nat \<Rightarrow> bool" where
  "in_use pf h b i \<longleftrightarrow> (\<exists>ar. small_arena pf h (block2arena b) i ar) \<and>
     b \<in> blocks (block2arena b) (hdescs pf h ! i) \<and> b \<notin> set (free_list (hdescs pf h ! i))"

lemma obtain_block:
  assumes inv: "heap_inv pf h" and i: "i < 7"
    and av: "free_list (hdescs pf h ! i) \<noteq> [] \<or> can_alloc pf 1 (hmem h)"
  obtains b h1 h2 where
    "(if free_list (hdescs pf h ! i) = [] then new_arena pf i h else Inr (True, h)) = Inr (True, h1)"
    "take_block pf i h1 = Inr (b, h2)" "heap_inv pf h2" "in_use pf h2 b i" "\<forall>j. \<not> in_use pf h b j"
    "\<forall>c j. in_use pf h c j \<longrightarrow> in_use pf h2 c j"
    "\<forall>j < unat (block_size (hdescs pf h ! i)) div 4. load (hmem h2) (b + 4 * of_nat j) = Inr 0"
    "pool_lock (mem_pool pf (hmem h2)) = pool_lock (mem_pool pf (hmem h))" "map shape (hdescs pf h2) = map shape (hdescs pf h)"
    "heap_pf h2 = heap_pf h"
proof -
  let ?d = "hdescs pf h ! i"
  obtain h1 b fl where h1: "(if free_list ?d = [] then new_arena pf i h else Inr (True, h)) = Inr (True, h1)"
    and inv1: "heap_inv pf h1" and fl: "free_list (hdescs pf h1 ! i) = b # fl" and nu: "\<forall>j. \<not> in_use pf h b j"
    and keep: "\<And>c j. in_use pf h c j \<Longrightarrow> in_use pf h1 c j"
    and lock: "pool_lock (mem_pool pf (hmem h1)) = pool_lock (mem_pool pf (hmem h))"
    and sh: "map shape (hdescs pf h1) = map shape (hdescs pf h)" and hp: "heap_pf h1 = heap_pf h"
  proof (cases "free_list ?d")
    case (Cons b fl)
    note p = heap_inv_parts [OF inv]
    obtain a ar where a: "small_arena pf h a i ar" "b \<in> blocks a ?d" using p(5) [OF i, of b] Cons by auto
    have "block2arena b = a" using block_in_page [OF small_arena_aligned [OF inv a(1)] p(8) [OF i] a(2)] by metis
    then have "\<forall>j. \<not> in_use pf h b j" using a(1) Cons by (auto simp: in_use_def small_arena_def)
    then show ?thesis using that [of h b fl] inv Cons by simp
  next
    case Nil
    then have can: "can_alloc pf 1 (hmem h)" using av by simp
    obtain a m where a: "a \<notin> owned pf h" "frame a = a"
      "new_arena pf i h = Inr (True, upd_desc pf i (\<lambda>_. block_seq a ?d)
          (h\<lparr>hmem := m, arenas := (arenas h)(a \<mapsto> \<lparr>desc = Some (pf, i), cnt = blocks_per_arena ?d, large = False\<rparr>)\<rparr>))"
      "heap_inv pf (upd_desc pf i (\<lambda>_. block_seq a ?d)
          (h\<lparr>hmem := m, arenas := (arenas h)(a \<mapsto> \<lparr>desc = Some (pf, i), cnt = blocks_per_arena ?d, large = False\<rparr>)\<rparr>))"
      "pgdir m = pgdir (hmem h)" "\<forall>qf. pool_same (mem_pool qf (hmem h)) (mem_pool qf m)"
      by (rule new_arena_ok [OF inv i Nil can])
    let ?h = "upd_desc pf i (\<lambda>_. block_seq a ?d)
          (h\<lparr>hmem := m, arenas := (arenas h)(a \<mapsto> \<lparr>desc = Some (pf, i), cnt = blocks_per_arena ?d, large = False\<rparr>)\<rparr>)"
    note p = heap_inv_parts [OF inv]
    have nth: "j < 7 \<Longrightarrow> hdescs pf ?h ! j = (if j = i then ?d\<lparr>free_list := block_seq a ?d\<rparr> else hdescs pf h ! j)" for j
      using p(7) by (simp add: hdescs_upd_desc)
    have "0 < unat (blocks_per_arena ?d)" using p(8) [OF i] by (simp add: desc_ok_def)
    then obtain b fl where bf: "block_seq a ?d = b # fl" by (cases "block_seq a ?d") (auto simp: block_seq_def)
    have ba: "block2arena b = a" "b \<in> blocks a ?d"
      using block_in_page [OF a(2) p(8) [OF i], of b] set_block_seq [of a ?d] bf by auto
    have "\<forall>j. \<not> in_use pf h b j" using a(1) ba(1) small_arena_owned(2) by (auto simp: in_use_def)
    moreover have "in_use pf ?h c j" if c: "in_use pf h c j" for c j
    proof -
      obtain ar where ar: "small_arena pf h (block2arena c) j ar" using c by (auto simp: in_use_def)
      have ne: "block2arena c \<noteq> a" using small_arena_owned(2) [OF ar] a(1) by auto
      have "c \<notin> blocks a ?d" using block_in_page [OF a(2) p(8) [OF i]] ne by metis
      then show ?thesis using c ar ne p(6) [OF ar] by (auto simp: in_use_def nth small_arena_def set_block_seq)
    qed
    moreover have "map shape (hdescs pf ?h) = map shape (hdescs pf h)"
      using wf_descs_update [OF p(1), of i "block_seq a ?d"] p(1) by (simp add: hdescs_upd_desc wf_descs_def)
    moreover have "free_list (hdescs pf ?h ! i) = b # fl" using nth [OF i] bf by simp
    moreover have "pool_lock (mem_pool pf (hmem ?h)) = pool_lock (mem_pool pf (hmem h))"
      using a(6) by (simp add: pool_same_def)
    moreover have "heap_pf ?h = heap_pf h" using a(5) by (simp add: heap_pf_def)
    ultimately show ?thesis using that [of ?h b fl] Nil a(3,4) by simp
  qed
  obtain ar ph where tk: "small_arena pf h1 (block2arena b) i ar" "b \<in> blocks (block2arena b) (hdescs pf h1 ! i)"
    "take_block pf i h1 = Inr (b, upd_desc pf i (\<lambda>_. fl) (h1\<lparr>hmem := (hmem h1)\<lparr>phys := ph\<rparr>,
            arenas := (arenas h1)(block2arena b \<mapsto> ar\<lparr>cnt := cnt ar - 1\<rparr>)\<rparr>))"
    "heap_inv pf (upd_desc pf i (\<lambda>_. fl) (h1\<lparr>hmem := (hmem h1)\<lparr>phys := ph\<rparr>,
            arenas := (arenas h1)(block2arena b \<mapsto> ar\<lparr>cnt := cnt ar - 1\<rparr>)\<rparr>))"
    "\<forall>j < unat (block_size (hdescs pf h1 ! i)) div 4. load ((hmem h1)\<lparr>phys := ph\<rparr>) (b + 4 * of_nat j) = Inr 0" "b \<notin> set fl"
    by (rule take_block_ok [OF inv1 i fl])
  let ?h = "upd_desc pf i (\<lambda>_. fl) (h1\<lparr>hmem := (hmem h1)\<lparr>phys := ph\<rparr>,
            arenas := (arenas h1)(block2arena b \<mapsto> ar\<lparr>cnt := cnt ar - 1\<rparr>)\<rparr>)"
  note q = heap_inv_parts [OF inv1]
  have nth: "j < 7 \<Longrightarrow> hdescs pf ?h ! j = (if j = i then (hdescs pf h1 ! i)\<lparr>free_list := fl\<rparr> else hdescs pf h1 ! j)" for j
    using q(7) by (simp add: hdescs_upd_desc)
  have "in_use pf ?h b i" using tk(1,2,6) i by (auto simp: in_use_def nth small_arena_def)
  moreover have "in_use pf ?h c j" if "in_use pf h c j" for c j
    using keep [OF that] q(6) tk(1) fl by (auto simp: in_use_def nth small_arena_def split: if_splits)
  moreover have "shape (hdescs pf h1 ! i) = shape ?d"
    using sh q(7) heap_inv_parts(7) [OF inv] i by (metis nth_map)
  moreover have "map shape (hdescs pf ?h) = map shape (hdescs pf h1)"
    using wf_descs_update [OF q(1), of i fl] q(1) by (simp add: hdescs_upd_desc wf_descs_def)
  moreover have "mem_pool pf (hmem ?h) = mem_pool pf (hmem h1)" by (simp add: mem_pool_def)
  ultimately show ?thesis
    using that [OF h1 tk(3,4)] nu tk(5) lock sh hp by (simp add: shape_def heap_pf_def)
qed

lemma in_use_cong: "arenas h' = arenas h \<Longrightarrow> hdescs pf h' = hdescs pf h \<Longrightarrow> in_use pf h' = in_use pf h"
  by (simp add: in_use_def small_arena_def fun_eq_iff)

lemma sys_malloc_small:
  assumes inv: "heap_inv pf h" and pf: "pf = heap_pf h" and sz: "0 < sz" "sz \<le> 1024" "sz < pool_size (mem_pool pf (hmem h))"
    and i: "i = find_desc sz (hdescs pf h)" and av: "free_list (hdescs pf h ! i) \<noteq> [] \<or> can_alloc pf 1 (hmem h)"
  obtains b h' where "sys_malloc sz h = Inr (b, h')" and "heap_inv pf h'" and "in_use pf h' b i"
    and "\<forall>j. \<not> in_use pf h b j" and "\<forall>c j. in_use pf h c j \<longrightarrow> in_use pf h' c j"
    and "\<forall>j < unat (block_size (hdescs pf h ! i)) div 4. load (hmem h') (b + 4 * of_nat j) = Inr 0"
    and "pool_lock (mem_pool pf (hmem h')) = pool_lock (mem_pool pf (hmem h))" and "heap_pf h' = heap_pf h"
proof -
  let ?h = "h\<lparr>hmem := pool_acquire pf (hmem h)\<rparr>"
  have i7: "i < 7" using find_desc_small(1) [OF heap_inv_parts(1) [OF inv] sz(2)] i by simp
  have av': "free_list (hdescs pf ?h ! i) \<noteq> [] \<or> can_alloc pf 1 (hmem ?h)" using av by simp
  obtain b h1 h2 where
    h1: "(if free_list (hdescs pf ?h ! i) = [] then new_arena pf i ?h else Inr (True, ?h)) = Inr (True, h1)"
    and h2: "take_block pf i h1 = Inr (b, h2)" "heap_inv pf h2" "in_use pf h2 b i" "\<forall>j. \<not> in_use pf ?h b j"
    "\<forall>c j. in_use pf ?h c j \<longrightarrow> in_use pf h2 c j"
    "\<forall>j < unat (block_size (hdescs pf ?h ! i)) div 4. load (hmem h2) (b + 4 * of_nat j) = Inr 0"
    "pool_lock (mem_pool pf (hmem h2)) = pool_lock (mem_pool pf (hmem ?h))" "map shape (hdescs pf h2) = map shape (hdescs pf ?h)"
    "heap_pf h2 = heap_pf ?h"
    by (rule obtain_block [OF heap_inv_acquire [OF inv] i7 av'])
  have lk: "pool_lock (mem_pool pf (hmem h2)) = Suc (pool_lock (mem_pool pf (hmem h)))"
    using h2(7) pool_acquire_facts(8) by simp
  obtain h3 where h3: "mem_step (pool_release pf) h2 = Inr h3" "heap_inv pf h3"
    "pool_lock (mem_pool pf (hmem h3)) = pool_lock (mem_pool pf (hmem h))" "arenas h3 = arenas h2"
    "hdescs pf h3 = hdescs pf h2" "load (hmem h3) = load (hmem h2)" "vmap (hmem h3) = vmap (hmem h2)" "heap_pf h3 = heap_pf h2"
    by (rule release_ok [OF h2(2) lk])
  have same: "in_use pf ?h = in_use pf h" by (rule in_use_cong) simp_all
  have "\<not> 1024 < sz" using sz(2) by simp
  moreover have fi: "find_desc sz (hdescs pf ?h) = i" by (simp add: i)
  ultimately have "sys_malloc sz h = Inr (b, h3)"
    using sz h2(1) h3(1) unfolding sys_malloc_def pf [symmetric] Let_def fi h1 by simp
  then show ?thesis
    using that [of b h3] h3 h2(3-6,9) in_use_cong [OF h3(4,5)] same by (simp add: heap_pf_def pool_acquire_def)
qed

text \<open>Freeing a block.\<close>

lemma unlink_blocks_eq:
  assumes "distinct (map (\<lambda>k. arena2block a d (of_nat k)) [i..<i + n])"
    and "(\<lambda>k. arena2block a d (of_nat k)) ` {i..<i + n} \<subseteq> set fl" and "distinct fl"
  shows "\<exists>fl'. unlink_blocks a d i n fl = Inr fl' \<and> distinct fl' \<and>
           set fl' = set fl - (\<lambda>k. arena2block a d (of_nat k)) ` {i..<i + n}"
  using assms
proof (induction n arbitrary: i fl)
  case (Suc n)
  let ?b = "arena2block a d (of_nat i)" let ?f = "\<lambda>k. arena2block a d (of_nat k)"
  have up: "[i..<i + Suc n] = i # [Suc i..<Suc i + n]" by (simp add: upt_conv_Cons)
  then have iv: "{i..<i + Suc n} = insert i {Suc i..<Suc i + n}" by auto
  have bin: "?b \<in> set fl" using Suc.prems(2) iv by auto
  have d: "distinct (map ?f [Suc i..<Suc i + n])" "?b \<notin> ?f ` {Suc i..<Suc i + n}"
    using Suc.prems(1) unfolding up by auto
  have "?f ` {Suc i..<Suc i + n} \<subseteq> set fl - {?b}" using Suc.prems(2) d(2) unfolding iv by blast
  then have "?f ` {Suc i..<Suc i + n} \<subseteq> set (remove1 ?b fl)" using Suc.prems(3) by (simp add: set_remove1_eq)
  then obtain fl' where "unlink_blocks a d (Suc i) n (remove1 ?b fl) = Inr fl'" "distinct fl'"
     "set fl' = set (remove1 ?b fl) - ?f ` {Suc i..<Suc i + n}"
    using Suc.IH [OF d(1), of "remove1 ?b fl"] Suc.prems(3) by auto
  then show ?case using bin Suc.prems(3) unfolding iv by (auto simp: set_remove1_eq)
qed simp

text \<open>Dropping an arena all of whose blocks are free.\<close>

lemma heap_inv_drop:
  assumes inv: "heap_inv pf h" and i: "i < 7" and sa: "small_arena pf h a i ar"
    and dist: "distinct fl" and fl: "set fl = set (free_list (hdescs pf h ! i)) - blocks a (hdescs pf h ! i)"
    and m: "pages_ok pf (owned pf h - {a}) m"
  shows "heap_inv pf (upd_desc pf i (\<lambda>_. fl) (h\<lparr>hmem := m, arenas := (arenas h)(a := None)\<rparr>))"
    (is "heap_inv pf ?h")
proof -
  let ?ds = "hdescs pf h" let ?d = "?ds ! i"
  note p = heap_inv_parts [OF inv]
  have ds: "hdescs pf ?h = ?ds[i := ?d\<lparr>free_list := fl\<rparr>]" by (simp add: hdescs_upd_desc)
  have nth: "j < 7 \<Longrightarrow> hdescs pf ?h ! j = (if j = i then ?d\<lparr>free_list := fl\<rparr> else ?ds ! j)" for j
    using p(7) by (simp add: ds)
  have sm: "small_arena pf ?h x j xr \<longleftrightarrow> x \<noteq> a \<and> small_arena pf h x j xr" for x j xr
    by (auto simp: small_arena_def)
  have po: "pages_of pf ?h x = (if x = a then {} else pages_of pf h x)" for x by (simp add: pages_of_def)
  have "owned pf ?h = owned pf h - {a}"
  proof -
    have "owned pf ?h = (\<Union>x \<in> - {a}. pages_of pf h x)" by (auto simp: owned_def po split: if_splits)
    moreover have "owned pf h = (\<Union>x \<in> - {a}. pages_of pf h x) \<union> {a}"
      using small_arena_owned(1) [OF sa] by (auto simp: owned_def)
    moreover have "a \<notin> (\<Union>x \<in> - {a}. pages_of pf h x)" using p(3) small_arena_owned(1) [OF sa] by auto
    ultimately show ?thesis by auto
  qed
  note ow = this
  have dj: "blocks x ?d \<inter> blocks a ?d = {}" if "small_arena pf h x j xr" "x \<noteq> a" for x j xr
    using blocks_disjoint [OF small_arena_aligned [OF inv that(1)] small_arena_aligned [OF inv sa] p(8) [OF i] p(8) [OF i] that(2)] .
  show ?thesis unfolding heap_inv_def
  proof (intro conjI allI impI ballI)
    show "wf_descs (hdescs pf ?h)" unfolding ds by (rule wf_descs_update [OF p(1)])
    show "pages_ok pf (owned pf ?h) (hmem ?h)" unfolding ow using m by simp
    show "pages_of pf ?h x \<inter> pages_of pf ?h y = {}" if "x \<noteq> y" for x y using p(3) [OF that] by (auto simp: po)
    show "distinct (free_list (hdescs pf ?h ! j))" if "j < 7" for j using p(4) dist that by (simp add: nth)
    show "\<exists>x xr. small_arena pf ?h x j xr \<and> b \<in> blocks x (hdescs pf ?h ! j)"
      if jb: "j < 7" "b \<in> set (free_list (hdescs pf ?h ! j))" for j b
    proof -
      have b: "b \<in> set (free_list (?ds ! j))" "j = i \<Longrightarrow> b \<notin> blocks a ?d" using jb fl by (auto simp: nth split: if_splits)
      then obtain x xr where x: "small_arena pf h x j xr" "b \<in> blocks x (?ds ! j)" using p(5) [OF jb(1)] by blast
      then have "x \<noteq> a" using b(2) sa by (auto simp: small_arena_def)
      then show ?thesis using x jb(1) by (intro exI [of _ x] exI [of _ xr]) (auto simp: sm nth)
    qed
    show "j < 7" if "small_arena pf ?h x j xr" for x j xr using that p(6) by (auto simp: sm)
    show "unat (cnt xr) = card (set (free_list (hdescs pf ?h ! j)) \<inter> blocks x (hdescs pf ?h ! j))"
      if x: "small_arena pf ?h x j xr" for x j xr
    proof -
      have xs: "x \<noteq> a" "small_arena pf h x j xr" using x by (simp_all add: sm)
      have "set fl \<inter> blocks x ?d = set (free_list ?d) \<inter> blocks x ?d" using dj [OF xs(2,1)] fl by blast
      then show ?thesis using p(6) [OF xs(2)] by (simp add: nth)
    qed
  qed
qed

lemma free_block_ok:
  assumes inv: "heap_inv pf h" and use: "in_use pf h b i" and sa: "small_arena pf h (block2arena b) i ar"
  obtains h' where "free_block pf b (block2arena b) ar (pf, i) h = Inr h'" and "heap_inv pf h'"
    and "\<forall>j. \<not> in_use pf h' b j" and "\<forall>c j. c \<noteq> b \<and> in_use pf h c j \<longrightarrow> in_use pf h' c j"
    and "pool_lock (mem_pool pf (hmem h')) = pool_lock (mem_pool pf (hmem h))"
    and "if \<forall>c. c \<noteq> b \<longrightarrow> block2arena c = block2arena b \<longrightarrow> \<not> in_use pf h c i
         then arenas h' (block2arena b) = None \<and> vmap (hmem h') (block2arena b) = None
         else b \<in> set (free_list (hdescs pf h' ! i))"
proof -
  let ?a = "block2arena b" let ?ds = "hdescs pf h" let ?d = "?ds ! i" let ?B = "blocks ?a ?d"
  note p = heap_inv_parts [OF inv]
  have i: "i < 7" and c0: "unat (cnt ar) = card (set (free_list ?d) \<inter> ?B)" using p(6) [OF sa] by auto
  have al: "frame ?a = ?a" by (rule small_arena_aligned [OF inv sa])
  have dok: "desc_ok ?d" by (rule p(8) [OF i])
  have bB: "b \<in> ?B" "b \<notin> set (free_list ?d)" using use by (auto simp: in_use_def)
  have fin: "finite ?B" by (simp add: blocks_def)
  have cB: "card ?B = unat (blocks_per_arena ?d)" by (rule card_blocks [OF al dok])
  have small: "unat (blocks_per_arena ?d) \<le> 255" using wf_descs_cases [OF p(1) i] by (auto simp: shape_def)
  have "set (free_list ?d) \<inter> ?B \<subset> ?B" using bB by auto
  then have lt: "unat (cnt ar) < unat (blocks_per_arena ?d)" unfolding c0 cB [symmetric] by (rule psubset_card_mono [OF fin])
  have "unat (cnt ar) + unat (1 :: u32) < 2 ^ LENGTH(32)" using lt small by simp
  then have uc: "unat (cnt ar + 1) = Suc (unat (cnt ar))" by (subst (asm) unat_add_lem) simp
  have grow: "set (free_list ?d @ [b]) \<inter> ?B = insert b (set (free_list ?d) \<inter> ?B)" using bB by auto
  then have c1: "unat (cnt ar + 1) = card (set (free_list ?d @ [b]) \<inter> ?B)" using uc c0 bB by simp
  define g where "g = upd_desc pf i (\<lambda>_. free_list ?d @ [b]) (h\<lparr>arenas := (arenas h)(?a \<mapsto> ar\<lparr>cnt := cnt ar + 1\<rparr>)\<rparr>)"
  have g: "hmem g = hmem h" "arenas g = (arenas h)(?a \<mapsto> ar\<lparr>cnt := cnt ar + 1\<rparr>)" by (simp_all add: g_def)
  have inv1: "heap_inv pf g"
    unfolding g_def using heap_inv_relist [OF inv i sa _ _ _ c1 p(2)] p(4) [OF i] bB by auto
  have geq: "upd_desc pf i (\<lambda>fl. fl @ [b]) (h\<lparr>arenas := (arenas h)(?a \<mapsto> ar\<lparr>cnt := cnt ar + 1\<rparr>)\<rparr>) = g"
    by (simp add: g_def upd_desc_def)
  have gnth: "j < 7 \<Longrightarrow> hdescs pf g ! j = (if j = i then ?d\<lparr>free_list := free_list ?d @ [b]\<rparr> else ?ds ! j)" for j
    using p(7) by (simp add: g_def hdescs_upd_desc)
  have sag: "small_arena pf g ?a i (ar\<lparr>cnt := cnt ar + 1\<rparr>)" using sa by (simp add: small_arena_def g)
  have same_arena: "j = i" if "small_arena pf h ?a j xr" for j xr using that sa by (auto simp: small_arena_def)
  have all_iff: "cnt ar + 1 = blocks_per_arena ?d \<longleftrightarrow> (\<forall>c. c \<noteq> b \<longrightarrow> block2arena c = ?a \<longrightarrow> \<not> in_use pf h c i)"
  proof
    assume "cnt ar + 1 = blocks_per_arena ?d"
    then have "card (insert b (set (free_list ?d) \<inter> ?B)) = card ?B" using c1 grow cB by simp
    then have "insert b (set (free_list ?d) \<inter> ?B) = ?B" using bB by (intro card_subset_eq [OF fin]) auto
    then show "\<forall>c. c \<noteq> b \<longrightarrow> block2arena c = ?a \<longrightarrow> \<not> in_use pf h c i" by (auto simp: in_use_def)
  next
    assume no: "\<forall>c. c \<noteq> b \<longrightarrow> block2arena c = ?a \<longrightarrow> \<not> in_use pf h c i"
    have "c \<in> set (free_list ?d)" if "c \<in> ?B" "c \<noteq> b" for c
    proof -
      have "block2arena c = ?a" using block_in_page [OF al dok that(1)] by metis
      then show ?thesis using no that sa by (auto simp: in_use_def)
    qed
    then have "insert b (set (free_list ?d) \<inter> ?B) = ?B" using bB by auto
    then have "unat (cnt ar + 1) = unat (blocks_per_arena ?d)" using c1 grow cB by simp
    then show "cnt ar + 1 = blocks_per_arena ?d" by (simp only: word_unat_eq_iff)
  qed
  show ?thesis
  proof (cases "cnt ar + 1 = blocks_per_arena ?d")
    case False
    then have "free_block pf b ?a ar (pf, i) h = Inr g"
      unfolding free_block_def Let_def split_conv geq using gnth [OF i] by simp
    moreover have "\<forall>j. \<not> in_use pf g b j" using gnth sa i by (auto simp: in_use_def small_arena_def g)
    moreover have "in_use pf g c j" if "c \<noteq> b" "in_use pf h c j" for c j
      using that p(6) sa by (auto simp: in_use_def gnth small_arena_def g split: if_splits)
    moreover have "b \<in> set (free_list (hdescs pf g ! i))" using gnth [OF i] by simp
    moreover from this have "if \<forall>c. c \<noteq> b \<longrightarrow> block2arena c = ?a \<longrightarrow> \<not> in_use pf h c i
         then arenas g ?a = None \<and> vmap (hmem g) ?a = None else b \<in> set (free_list (hdescs pf g ! i))"
      unfolding all_iff [symmetric] using False by simp
    ultimately show ?thesis using that [of g] inv1 by (simp add: g(1))
  next
    case True
    let ?d' = "hdescs pf g ! i" let ?fl = "free_list ?d @ [b]"
    have d': "?d' = ?d\<lparr>free_list := ?fl\<rparr>" using gnth [OF i] by simp
    have a2b: "arena2block ?a ?d' k = arena2block ?a ?d k" for k by (simp add: d' arena2block_def)
    have full: "?B \<subseteq> set ?fl"
    proof
      fix c assume cB: "c \<in> ?B"
      have "block2arena c = ?a" using block_in_page [OF al dok cB] by metis
      moreover have "c \<noteq> b \<longrightarrow> block2arena c = ?a \<longrightarrow> \<not> in_use pf h c i" using True all_iff by blast
      ultimately show "c \<in> set ?fl" using cB sa by (auto simp: in_use_def)
    qed
    have B: "(\<lambda>k. arena2block ?a ?d' (of_nat k)) ` {0..<0 + unat (blocks_per_arena ?d)} = ?B"
      by (simp add: a2b blocks_def atLeast0LessThan)
    obtain fl' where fl': "unlink_blocks ?a ?d' 0 (unat (blocks_per_arena ?d)) ?fl = Inr fl'" "distinct fl'"
      "set fl' = set ?fl - ?B"
      using unlink_blocks_eq [of ?a ?d' 0 "unat (blocks_per_arena ?d)" ?fl] distinct_block_seq [OF al dok] full p(4) [OF i] bB
      unfolding B by (auto simp: block_seq_def a2b)
    have pg: "pages_ok pf (owned pf g) (hmem h)" using heap_inv_parts(2) [OF inv1] g(1) by simp
    have ao: "?a \<in> owned pf g" by (rule small_arena_owned(2) [OF sag])
    then obtain s where s: "s < bm_cap (vaddr_bitmap (vpool pf (hmem h)))" "?a = pg (vaddr_start (vpool pf (hmem h))) s"
      using pg by (auto simp: pages_ok_def vpage_def)
    obtain m' where m': "mfree_page pf ?a 1 (hmem h) = Inr m'" "pages_ok pf (owned pf g - {?a}) m'" "vmap m' ?a = None"
      "\<forall>qf. pool_same (mem_pool qf (hmem h)) (mem_pool qf m')"
      by (rule mfree_pages_ok [OF pg, of s 1]) (use ao s in auto)
    define k where "k = upd_desc pf i (\<lambda>_. fl') (g\<lparr>hmem := m', arenas := (arenas g)(?a := None)\<rparr>)"
    have k: "arenas k = (arenas h)(?a := None)" "hmem k = m'" by (simp_all add: k_def g)
    have inv2: "heap_inv pf k"
      unfolding k_def using fl' d' by (intro heap_inv_drop [OF inv1 i sag fl'(2) _ m'(2)]) simp
    have "(upd_desc pf i (\<lambda>_. fl') (g\<lparr>arenas := (arenas g)(?a := None)\<rparr>))\<lparr>hmem := m'\<rparr> = k"
      by (simp add: k_def upd_desc_def Let_def hdescs_def)
    moreover have "blocks_per_arena ?d' = blocks_per_arena ?d" "free_list ?d' = ?fl" using d' by simp_all
    moreover from this have "cnt ar + 1 = blocks_per_arena ?d'" using True by metis
    ultimately have "free_block pf b ?a ar (pf, i) h = Inr k"
      unfolding free_block_def Let_def split_conv geq using fl'(1) m'(1) g(1) by (simp add: mem_step_def)
    moreover have hn: "j < 7 \<Longrightarrow> hdescs pf k ! j = (if j = i then ?d\<lparr>free_list := fl'\<rparr> else ?ds ! j)" for j
      using p(7) gnth by (auto simp: k_def hdescs_upd_desc heap_inv_parts(7) [OF inv1])
    moreover have "\<forall>j. \<not> in_use pf k b j" by (simp add: in_use_def small_arena_def k)
    moreover have "in_use pf k c j" if c: "c \<noteq> b" "in_use pf h c j" for c j
    proof -
      have "block2arena c \<noteq> ?a" using c True all_iff same_arena by (auto simp: in_use_def)
      then show ?thesis using c p(6) fl'(3) by (auto simp: in_use_def hn small_arena_def k split: if_splits)
    qed
    moreover have "if \<forall>c. c \<noteq> b \<longrightarrow> block2arena c = ?a \<longrightarrow> \<not> in_use pf h c i
         then arenas k ?a = None \<and> vmap (hmem k) ?a = None else b \<in> set (free_list (hdescs pf k ! i))"
      unfolding all_iff [symmetric] using True m'(3) by (simp add: k)
    moreover have "pool_lock (mem_pool pf (hmem k)) = pool_lock (mem_pool pf (hmem h))"
      using m'(4) by (simp add: pool_same_def k)
    ultimately show ?thesis using that [of k] inv2 by blast
  qed
qed

lemma sys_free_small:
  assumes inv: "heap_inv pf h" and pf: "pf = heap_pf h" and use: "in_use pf h b i"
  obtains h' where "sys_free b h = Inr h'" and "heap_inv pf h'"
    and "\<forall>j. \<not> in_use pf h' b j" and "\<forall>c j. c \<noteq> b \<and> in_use pf h c j \<longrightarrow> in_use pf h' c j"
    and "pool_lock (mem_pool pf (hmem h')) = pool_lock (mem_pool pf (hmem h))"
    and "if \<forall>c. c \<noteq> b \<longrightarrow> block2arena c = block2arena b \<longrightarrow> \<not> in_use pf h c i
         then arenas h' (block2arena b) = None \<and> vmap (hmem h') (block2arena b) = None
         else b \<in> set (free_list (hdescs pf h' ! i))"
proof -
  define g where "g = h\<lparr>hmem := pool_acquire pf (hmem h)\<rparr>"
  have g: "arenas g = arenas h" "hdescs pf g = hdescs pf h" by (simp_all add: g_def)
  have same: "in_use pf g = in_use pf h" by (rule in_use_cong [OF g])
  have invg: "heap_inv pf g" unfolding g_def by (rule heap_inv_acquire [OF inv])
  obtain ar where sa: "small_arena pf g (block2arena b) i ar" using use g by (auto simp: in_use_def small_arena_def)
  obtain h1 where h1: "free_block pf b (block2arena b) ar (pf, i) g = Inr h1" "heap_inv pf h1"
    "\<forall>j. \<not> in_use pf h1 b j" "\<forall>c j. c \<noteq> b \<and> in_use pf g c j \<longrightarrow> in_use pf h1 c j"
    "pool_lock (mem_pool pf (hmem h1)) = pool_lock (mem_pool pf (hmem g))"
    "if \<forall>c. c \<noteq> b \<longrightarrow> block2arena c = block2arena b \<longrightarrow> \<not> in_use pf g c i
         then arenas h1 (block2arena b) = None \<and> vmap (hmem h1) (block2arena b) = None
         else b \<in> set (free_list (hdescs pf h1 ! i))"
    by (rule free_block_ok [OF invg use [folded same] sa])
  have lk: "pool_lock (mem_pool pf (hmem h1)) = Suc (pool_lock (mem_pool pf (hmem h)))"
    using h1(5) pool_acquire_facts(8) by (simp add: g_def)
  obtain h2 where h2: "mem_step (pool_release pf) h1 = Inr h2" "heap_inv pf h2"
    "pool_lock (mem_pool pf (hmem h2)) = pool_lock (mem_pool pf (hmem h))" "arenas h2 = arenas h1"
    "hdescs pf h2 = hdescs pf h1" "load (hmem h2) = load (hmem h1)" "vmap (hmem h2) = vmap (hmem h1)" "heap_pf h2 = heap_pf h1"
    by (rule release_ok [OF h1(2) lk])
  have "block2arena b \<noteq> 0"
    using pages_ok_props(3) [OF heap_inv_parts(2) [OF invg] small_arena_owned(2) [OF sa]] .
  then have "b \<noteq> 0" by (auto simp: block2arena_def)
  moreover have "arenas g (block2arena b) = Some ar" "desc ar = Some (pf, i)" using sa by (simp_all add: small_arena_def)
  ultimately have "sys_free b h = Inr h2"
    unfolding sys_free_def pf [symmetric] Let_def g_def [symmetric] using h1(1) h2(1) by simp
  then show ?thesis
    using that [of h2] h2 h1(3,4,6) in_use_cong [OF h2(4,5)] same by simp
qed

section \<open>Properties\<close>

definition sample_heap :: kheap where
  "sample_heap = \<lparr>hmem = sample_mem, k_block_descs = block_desc_init, u_block_descs = [], arenas = Map.empty\<rparr>"

lemma sample_heap_inv: "heap_inv PF_KERNEL sample_heap"
proof -
  have "\<forall>d \<in> set block_desc_init. free_list d = []" by (simp add: block_desc_init_def eval_nat_numeral)
  moreover have "length block_desc_init = 7" by (simp add: block_desc_init_def eval_nat_numeral)
  ultimately have "free_list (block_desc_init ! i) = []" if "i < 7" for i using that nth_mem by metis
  moreover have "owned PF_KERNEL sample_heap = {}" "pages_ok PF_KERNEL {} sample_mem"
    using sample_wf_mem sample_vpool by (simp_all add: owned_def pages_of_def sample_heap_def pages_ok_def)
  ultimately show ?thesis
    unfolding heap_inv_def by (simp add: sample_heap_def hdescs_def wf_descs_def pages_of_def small_arena_def)
qed

lemma sample_heap_facts:
  "heap_pf sample_heap = PF_KERNEL" "hmem sample_heap = sample_mem" "pool_size (mem_pool PF_KERNEL sample_mem) = 0x8000"
  by (simp_all add: heap_pf_def sample_heap_def sample_mem_def mem_pool_def)

text \<open>
  C3. \<^verbatim>\<open>sys_malloc\<close> of at most 1024 bytes returns a block of the smallest size class that fits. The block was
  not in use and is in use afterwards, every block in use stays in use, the block's words read 0,
  the heap invariant is kept (free lists and arena counts agree, arenas own mapped pages) and the
  pool's lock is released. It needs a free block of the class, or a free page with its frame.
\<close>

theorem sys_malloc_gives_fresh_block:
  assumes "heap_inv pf h" and "pf = heap_pf h" and "0 < sz" and "sz \<le> 1024"
    and "sz < pool_size (mem_pool pf (hmem h))" and "i = find_desc sz (hdescs pf h)"
    and "free_list (hdescs pf h ! i) \<noteq> [] \<or> can_alloc pf 1 (hmem h)"
  shows "\<exists>b h'. sys_malloc sz h = Inr (b, h') \<and> heap_inv pf h' \<and>
     sz \<le> block_size (hdescs pf h ! i) \<and> (\<forall>j < i. block_size (hdescs pf h ! j) < sz) \<and>
     (\<forall>j. \<not> in_use pf h b j) \<and> in_use pf h' b i \<and> (\<forall>c j. in_use pf h c j \<longrightarrow> in_use pf h' c j) \<and>
     (\<forall>j < unat (block_size (hdescs pf h ! i)) div 4. load (hmem h') (b + 4 * of_nat j) = Inr 0) \<and>
     pool_lock (mem_pool pf (hmem h')) = pool_lock (mem_pool pf (hmem h))"
proof -
  note f = find_desc_small [OF heap_inv_parts(1) [OF assms(1)] assms(4), folded assms(6)]
  show ?thesis by (rule sys_malloc_small [OF assms]) (use f(2,3) in blast)
qed

theorem sys_malloc_gives_fresh_block_witness:
  "\<exists>b h'. sys_malloc 100 sample_heap = Inr (b, h') \<and> heap_inv PF_KERNEL h' \<and> in_use PF_KERNEL h' b 3"
proof -
  have "3 = find_desc 100 (hdescs PF_KERNEL sample_heap)"
    by code_simp
  then show ?thesis
    using sys_malloc_gives_fresh_block [OF sample_heap_inv, of 100 3] sample_can_alloc
    unfolding sample_heap_facts by auto
qed

text \<open>
  C22. \<^verbatim>\<open>sys_free\<close> of a block in use succeeds: the block is no longer in use, every other block stays in
  use, the heap invariant is kept and the lock released. If it was the arena's last block in use,
  the arena is gone and its page unmapped; otherwise the block is back in its free list.
\<close>

theorem sys_free_returns_block:
  assumes "heap_inv pf h" and "pf = heap_pf h" and "in_use pf h b i"
  shows "\<exists>h'. sys_free b h = Inr h' \<and> heap_inv pf h' \<and> (\<forall>j. \<not> in_use pf h' b j) \<and>
     (\<forall>c j. c \<noteq> b \<and> in_use pf h c j \<longrightarrow> in_use pf h' c j) \<and>
     pool_lock (mem_pool pf (hmem h')) = pool_lock (mem_pool pf (hmem h)) \<and>
     (if \<forall>c. c \<noteq> b \<longrightarrow> block2arena c = block2arena b \<longrightarrow> \<not> in_use pf h c i
      then arenas h' (block2arena b) = None \<and> vmap (hmem h') (block2arena b) = None
      else b \<in> set (free_list (hdescs pf h' ! i)))"
  by (rule sys_free_small [OF assms]) blast

theorem sys_free_returns_block_witness:
  "\<exists>b h h'. sys_malloc 100 sample_heap = Inr (b, h) \<and> sys_free b h = Inr h' \<and> heap_inv PF_KERNEL h'"
proof -
  have i: "3 = find_desc 100 (hdescs PF_KERNEL sample_heap)" by code_simp
  obtain b h where "sys_malloc 100 sample_heap = Inr (b, h)" "heap_inv PF_KERNEL h" "in_use PF_KERNEL h b 3"
    "heap_pf h = PF_KERNEL"
    by (rule sys_malloc_small [OF sample_heap_inv _ _ _ _ i])
       (use sample_can_alloc in \<open>auto simp: sample_heap_facts intro: that\<close>)
  then show ?thesis using sys_free_returns_block [of PF_KERNEL h b 3] by auto
qed

end
