(* ===== verification/Thread.thy ===== *)
theory Thread
  imports Cstring Page_Owner
begin

text \<open>
  Model of \<^verbatim>\<open>thread/thread.c\<close>, of the locks of \<^verbatim>\<open>thread/sync.c\<close> and of the timer handler of
  \<^verbatim>\<open>device/timer.c\<close>. A thread is named by the address of its PCB. The ready list and the list of all
  threads are the sequences of PCBs whose tags are linked (\<^verbatim>\<open>lib/kernel/list.c\<close> implements such
  sequences). Every operation runs with interrupts off until it returns or switches to another
  thread; \<open>ctl\<close> is where a thread continues when it runs again: in its own code, or in the
  loop of \<^verbatim>\<open>sema_down\<close> behind \<^verbatim>\<open>thread_block\<close>. A switch also makes the memory of the state show the
  page directory and the virtual pool of the thread that runs.
\<close>

section \<open>The data\<close>

datatype task_status = TASK_RUNNING | TASK_READY | TASK_BLOCKED | TASK_WAITING | TASK_HANGING | TASK_DIED

record task_struct =
  self_kstack :: u32
  pid :: int
  status :: task_status
  priority :: u8
  tname :: "u8 list"
  ticks :: u8
  elapsed_ticks :: u32
  fd_table :: "int list"
  tpgdir :: u32
  tuserprog_vaddr :: virtual_addr
  cwd_inode_nr :: u32
  parent_pid :: int
  exit_status :: int
  stack_magic :: u32
  tfunction :: u32
  tfunc_arg :: u32

record semaphore =
  sema_value :: u8
  waiters :: "u32 list"

record lock =
  holder :: u32
  semaphore :: semaphore
  holder_repeat_nr :: u32

datatype ctl = Run | SemaDown nat

record kthreads =
  tasks :: "u32 \<Rightarrow> task_struct option"
  thread_ready_list :: "u32 list"
  thread_all_list :: "u32 list"
  running_thread :: u32
  idle_thread :: u32
  main_thread :: u32
  pid_bitmap :: bitmap
  locks :: "nat \<Rightarrow> lock"
  ctls :: "u32 \<Rightarrow> ctl"
  global_ticks :: u32
  tss_esp0 :: u32
  tmem :: mem

definition task :: "u32 \<Rightarrow> kthreads \<Rightarrow> task_struct result" where
  "task t s = (case tasks s t of None \<Rightarrow> Inl PageFault | Some k \<Rightarrow> Inr k)"

definition upd_task :: "u32 \<Rightarrow> (task_struct \<Rightarrow> task_struct) \<Rightarrow> kthreads \<Rightarrow> kthreads" where
  "upd_task t f s = s\<lparr>tasks := (tasks s)(t := map_option f (tasks s t))\<rparr>"

definition blocked_status :: "task_status \<Rightarrow> bool" where
  "blocked_status st \<longleftrightarrow> st = TASK_BLOCKED \<or> st = TASK_WAITING \<or> st = TASK_HANGING"

section \<open>Process identifiers\<close>

definition pid_pool_init :: "kthreads \<Rightarrow> kthreads result" where
  "pid_pool_init s = mapR (\<lambda>b. s\<lparr>pid_bitmap := b\<rparr>)
     (bitmap_init \<lparr>btmp_bytes_len = 128, bits = replicate 128 0\<rparr>)"

text \<open>\<^verbatim>\<open>pid_start\<close> is 1. The scan's result is used without a test for -1.\<close>

definition allocate_pid :: "bitmap \<Rightarrow> (int \<times> bitmap) result" where
  "allocate_pid b =
     bindR (bitmap_scan b 1) (\<lambda>bit_idx.
     mapR (\<lambda>b. (bit_idx + 1, b)) (bitmap_set b (nat bit_idx) 1))"

definition release_pid :: "int \<Rightarrow> bitmap \<Rightarrow> bitmap result" where
  "release_pid p b = bitmap_set b (nat (p - 1)) 0"

section \<open>Creation\<close>

text \<open>\<^verbatim>\<open>init_thread\<close>: \<open>m\<close> is the value of \<^verbatim>\<open>main_thread\<close>; the PCB is cleared first.\<close>

definition init_thread :: "u32 \<Rightarrow> u32 \<Rightarrow> int \<Rightarrow> u8 list \<Rightarrow> u8 \<Rightarrow> task_struct result" where
  "init_thread m pthread new_pid name prio =
     mapR (\<lambda>nm. \<lparr>self_kstack = pthread + 4096, pid = new_pid,
        status = (if pthread = m then TASK_RUNNING else TASK_READY), priority = prio, tname = nm,
        ticks = prio, elapsed_ticks = 0, fd_table = [0, 1, 2, -1, -1, -1, -1, -1], tpgdir = 0,
        tuserprog_vaddr = \<lparr>vaddr_bitmap = \<lparr>btmp_bytes_len = 0, bits = []\<rparr>, vaddr_start = 0\<rparr>,
        cwd_inode_nr = 0, parent_pid = -1, exit_status = 0, stack_magic = 0x19870916,
        tfunction = 0, tfunc_arg = 0\<rparr>)
       (strcpy (Some (replicate 16 0)) (Some name))"

text \<open>\<^verbatim>\<open>thread_create\<close>: \<^verbatim>\<open>self_kstack\<close> is a pointer to words, so the sizes of the two stack frames (76 and
  32 bytes) are subtracted as numbers of words.\<close>

definition thread_create :: "u32 \<Rightarrow> u32 \<Rightarrow> task_struct \<Rightarrow> task_struct" where
  "thread_create function func_arg k =
     k\<lparr>self_kstack := self_kstack k - 4 * 76 - 4 * 32, tfunction := function, tfunc_arg := func_arg\<rparr>"

definition thread_start :: "u8 list \<Rightarrow> u8 \<Rightarrow> u32 \<Rightarrow> u32 \<Rightarrow> kthreads \<Rightarrow> (u32 \<times> kthreads) result" where
  "thread_start name prio function func_arg s =
     bindR (get_kernel_pages 1 (tmem s)) (\<lambda>(t, m).
     if t = 0 then Inl (AssertFail ''dst_ != NULL'')
     else bindR (allocate_pid (pid_bitmap s)) (\<lambda>(p, b).
       bindR (init_thread (main_thread s) t p name prio) (\<lambda>k.
       let s = s\<lparr>tmem := m, pid_bitmap := b, tasks := (tasks s)(t \<mapsto> thread_create function func_arg k),
                 ctls := (ctls s)(t := Run)\<rparr>
       in ASSERT (t \<notin> set (thread_ready_list s)) ''!elem_find(&thread_ready_list,&thread->general_tag)''
          (ASSERT (t \<notin> set (thread_all_list s)) ''!elem_find(&thread_all_list,&thread->all_list_tag)''
           (Inr (t, s\<lparr>thread_ready_list := thread_ready_list s @ [t],
                      thread_all_list := thread_all_list s @ [t]\<rparr>))))))"

definition make_main_thread :: "kthreads \<Rightarrow> kthreads result" where
  "make_main_thread s =
     (let t = running_thread s in
      bindR (allocate_pid (pid_bitmap s)) (\<lambda>(p, b).
      bindR (init_thread t t p (map (of_nat \<circ> of_char) ''main'' @ [0]) 31) (\<lambda>k.
      ASSERT (t \<notin> set (thread_all_list s)) ''!elem_find(&thread_all_list, &main_thread->all_list_tag)''
        (Inr (s\<lparr>main_thread := t, pid_bitmap := b, tasks := (tasks s)(t \<mapsto> k),
                 thread_all_list := thread_all_list s @ [t]\<rparr>)))))"

section \<open>Scheduling\<close>

definition page_dir_activate :: "task_struct \<Rightarrow> mem \<Rightarrow> mem result" where
  "page_dir_activate k m =
     mapR (\<lambda>pagedir_phy_addr. m\<lparr>cr3 := pagedir_phy_addr\<rparr>)
       (if tpgdir k \<noteq> 0 then addr_v2p (tpgdir k) m else Inr 0x100000)"

definition process_activate :: "u32 \<Rightarrow> kthreads \<Rightarrow> kthreads result" where
  "process_activate t s =
     ASSERT (t \<noteq> 0) ''p_thread != NULL''
     (bindR (task t s) (\<lambda>k.
      bindR (page_dir_activate k (tmem s)) (\<lambda>m.
      Inr (s\<lparr>tmem := m, tss_esp0 := if tpgdir k \<noteq> 0 then t + 4096 else tss_esp0 s\<rparr>))))"

text \<open>\<^verbatim>\<open>switch_to\<close>: the stack pointer selects the PCB, so the pool of the thread that stops is kept in its
  PCB and that of the next thread becomes visible.\<close>

definition switch_to :: "u32 \<Rightarrow> u32 \<Rightarrow> kthreads \<Rightarrow> kthreads result" where
  "switch_to cur nxt s =
     (let s = upd_task cur (\<lambda>c. c\<lparr>tuserprog_vaddr := userprog_vaddr (tmem s)\<rparr>) s
      in bindR (task nxt s) (\<lambda>k.
         Inr (s\<lparr>running_thread := nxt,
                tmem := (tmem s)\<lparr>pgdir := tpgdir k, userprog_vaddr := tuserprog_vaddr k\<rparr>\<rparr>)))"

definition thread_unblock :: "u32 \<Rightarrow> kthreads \<Rightarrow> kthreads result" where
  "thread_unblock t s =
     bindR (task t s) (\<lambda>k.
     ASSERT (blocked_status (status k)) ''status == TASK_BLOCKED || TASK_WAITING || TASK_HANGING''
     (if status k \<noteq> TASK_READY then
        ASSERT (t \<notin> set (thread_ready_list s)) ''!elem_find(&thread_ready_list,&pthread->general_tag)''
          (Inr (upd_task t (\<lambda>k. k\<lparr>status := TASK_READY\<rparr>) (s\<lparr>thread_ready_list := t # thread_ready_list s\<rparr>)))
      else Inr s))"

definition schedule :: "kthreads \<Rightarrow> kthreads result" where
  "schedule s =
     (let cur = running_thread s in
      bindR (task cur s) (\<lambda>k.
      bindR (if status k = TASK_RUNNING then
               ASSERT (cur \<notin> set (thread_ready_list s)) ''!elem_find(&thread_ready_list, &cur->general_tag)''
               (Inr (upd_task cur (\<lambda>k. k\<lparr>ticks := priority k, status := TASK_READY\<rparr>)
                      (s\<lparr>thread_ready_list := thread_ready_list s @ [cur]\<rparr>)))
             else Inr s) (\<lambda>s.
      bindR (if thread_ready_list s = [] then thread_unblock (idle_thread s) s else Inr s) (\<lambda>s.
      case thread_ready_list s of
        [] \<Rightarrow> Inl (AssertFail ''!list_empty(&thread_ready_list)'')
      | nxt # rest \<Rightarrow>
          bindR (process_activate nxt
                  (upd_task nxt (\<lambda>k. k\<lparr>status := TASK_RUNNING\<rparr>) (s\<lparr>thread_ready_list := rest\<rparr>)))
            (switch_to cur nxt)))))"

definition thread_block :: "task_status \<Rightarrow> kthreads \<Rightarrow> kthreads result" where
  "thread_block stat s =
     ASSERT (blocked_status stat) ''stat == TASK_BLOCKED || TASK_WAITING || TASK_HANGING''
       (schedule (upd_task (running_thread s) (\<lambda>k. k\<lparr>status := stat\<rparr>) s))"

definition thread_yield :: "kthreads \<Rightarrow> kthreads result" where
  "thread_yield s =
     (let cur = running_thread s in
      ASSERT (cur \<notin> set (thread_ready_list s)) ''!elem_find(&thread_ready_list, &cur->general_tag)''
        (schedule (upd_task cur (\<lambda>k. k\<lparr>status := TASK_READY\<rparr>)
                    (s\<lparr>thread_ready_list := thread_ready_list s @ [cur]\<rparr>))))"

definition intr_timer_handler :: "kthreads \<Rightarrow> kthreads result" where
  "intr_timer_handler s =
     (let cur = running_thread s in
      bindR (task cur s) (\<lambda>k.
      ASSERT (stack_magic k = 0x19870916) ''cur_thread->stack_magic == 0x19870916''
      (let s = (upd_task cur (\<lambda>k. k\<lparr>elapsed_ticks := elapsed_ticks k + 1\<rparr>) s)\<lparr>global_ticks := global_ticks s + 1\<rparr>
       in if ticks k = 0 then schedule s
          else Inr (upd_task cur (\<lambda>k. k\<lparr>ticks := ticks k - 1\<rparr>) s))))"

section \<open>Exit and lookup\<close>

text \<open>\<^verbatim>\<open>thread_exit\<close>: \<^verbatim>\<open>release_pid\<close> reads the pid from the PCB whose page was freed just before; the value
  read is still the old one.\<close>

definition thread_exit :: "u32 \<Rightarrow> bool \<Rightarrow> kthreads \<Rightarrow> kthreads result" where
  "thread_exit t need_schedule s =
     bindR (task t s) (\<lambda>k.
     let s = upd_task t (\<lambda>k. k\<lparr>status := TASK_DIED\<rparr>) s;
         s = s\<lparr>thread_ready_list := (if t \<in> set (thread_ready_list s) then remove1 t (thread_ready_list s)
                                     else thread_ready_list s)\<rparr>
     in bindR (if tpgdir k \<noteq> 0 then mfree_page PF_KERNEL (tpgdir k) 1 (tmem s) else Inr (tmem s)) (\<lambda>m.
     let s = s\<lparr>tmem := m, thread_all_list := remove1 t (thread_all_list s)\<rparr>
     in bindR (if t \<noteq> main_thread s then mfree_page PF_KERNEL t 1 (tmem s) else Inr (tmem s)) (\<lambda>m.
     bindR (release_pid (pid k) (pid_bitmap s)) (\<lambda>b.
     let s = s\<lparr>tmem := m, pid_bitmap := b\<rparr>
     in if need_schedule then bindR (schedule s) (\<lambda>s. Inr (s\<lparr>tasks := (tasks s)(t := None)\<rparr>))
        else Inr (s\<lparr>tasks := (tasks s)(t := None)\<rparr>)))))"

fun pid_search :: "kthreads \<Rightarrow> int \<Rightarrow> u32 list \<Rightarrow> u32 result" where
  "pid_search s p [] = Inr 0"
| "pid_search s p (t # ts) = bindR (task t s) (\<lambda>k. if pid k = p then Inr t else pid_search s p ts)"

definition pid2thread :: "int \<Rightarrow> kthreads \<Rightarrow> u32 result" where
  "pid2thread p s = pid_search s p (thread_all_list s)"

section \<open>Semaphores and locks\<close>

definition sema_init :: "u8 \<Rightarrow> semaphore" where
  "sema_init v = \<lparr>sema_value = v, waiters = []\<rparr>"

definition lock_init :: lock where
  "lock_init = \<lparr>holder = 0, semaphore = sema_init 1, holder_repeat_nr = 0\<rparr>"

definition upd_lock :: "nat \<Rightarrow> (lock \<Rightarrow> lock) \<Rightarrow> kthreads \<Rightarrow> kthreads" where
  "upd_lock l f s = s\<lparr>locks := (locks s)(l := f (locks s l))\<rparr>"

definition upd_sema :: "nat \<Rightarrow> (semaphore \<Rightarrow> semaphore) \<Rightarrow> kthreads \<Rightarrow> kthreads" where
  "upd_sema l f = upd_lock l (\<lambda>k. k\<lparr>semaphore := f (semaphore k)\<rparr>)"

text \<open>One round of the loop of \<^verbatim>\<open>sema_down\<close> on the semaphore of lock \<open>l\<close>: the thread either blocks and
  continues with the next round when it runs again, or takes the semaphore.\<close>

definition sema_down_round :: "nat \<Rightarrow> kthreads \<Rightarrow> (bool \<times> kthreads) result" where
  "sema_down_round l s =
     (let cur = running_thread s; sem = semaphore (locks s l) in
      if sema_value sem = 0 then
        ASSERT (cur \<notin> set (waiters sem)) ''!elem_find(&psema->waiters, &running_thread()->general_tag)''
          (mapR (\<lambda>s. (False, s))
            (thread_block TASK_BLOCKED
              (upd_sema l (\<lambda>x. x\<lparr>waiters := waiters x @ [cur]\<rparr>) (s\<lparr>ctls := (ctls s)(cur := SemaDown l)\<rparr>))))
      else
        let v = sema_value sem - 1
        in ASSERT (v = 0) ''psema->value == 0''
             (Inr (True, upd_sema l (\<lambda>x. x\<lparr>sema_value := v\<rparr>) (s\<lparr>ctls := (ctls s)(cur := Run)\<rparr>))))"

definition sema_up :: "nat \<Rightarrow> kthreads \<Rightarrow> kthreads result" where
  "sema_up l s =
     (let sem = semaphore (locks s l) in
      ASSERT (sema_value sem = 0) ''psema->value == 0''
      (bindR (case waiters sem of [] \<Rightarrow> Inr s
              | t # ws \<Rightarrow> thread_unblock t (upd_sema l (\<lambda>x. x\<lparr>waiters := ws\<rparr>) s)) (\<lambda>s.
       let v = sema_value (semaphore (locks s l)) + 1
       in ASSERT (v = 1) ''psema->value == 1'' (Inr (upd_sema l (\<lambda>x. x\<lparr>sema_value := v\<rparr>) s)))))"

text \<open>\<^verbatim>\<open>lock_acquire\<close> up to its return or its first switch, and its continuation when the thread runs again.\<close>

definition lock_take :: "nat \<Rightarrow> kthreads \<Rightarrow> kthreads result" where
  "lock_take l s =
     bindR (sema_down_round l s) (\<lambda>(got, s').
     if got then
       let s' = upd_lock l (\<lambda>k. k\<lparr>holder := running_thread s\<rparr>) s'
       in ASSERT (holder_repeat_nr (locks s' l) = 0) ''plock->holder_repeat_nr == 0''
            (Inr (upd_lock l (\<lambda>k. k\<lparr>holder_repeat_nr := 1\<rparr>) s'))
     else Inr s')"

definition lock_acquire :: "nat \<Rightarrow> kthreads \<Rightarrow> kthreads result" where
  "lock_acquire l s =
     (if holder (locks s l) \<noteq> running_thread s then lock_take l s
      else Inr (upd_lock l (\<lambda>k. k\<lparr>holder_repeat_nr := holder_repeat_nr k + 1\<rparr>) s))"

definition lock_release :: "nat \<Rightarrow> kthreads \<Rightarrow> kthreads result" where
  "lock_release l s =
     ASSERT (holder (locks s l) = running_thread s) ''plock->holder == running_thread()''
     (if 1 < holder_repeat_nr (locks s l) then
        Inr (upd_lock l (\<lambda>k. k\<lparr>holder_repeat_nr := holder_repeat_nr k - 1\<rparr>) s)
      else
        ASSERT (holder_repeat_nr (locks s l) = 1) ''plock->holder_repeat_nr == 1''
          (sema_up l (upd_lock l (\<lambda>k. k\<lparr>holder := 0, holder_repeat_nr := 0\<rparr>) s)))"

end
