(* ===== verification/Sched.thy ===== *)
theory Sched
  imports Thread
begin

text \<open>
  The scheduler's invariant and the threads as a transition system: which thread runs, which are
  ready, who holds and who waits for each lock. The results are that no assertion of
  \<^verbatim>\<open>thread/thread.c\<close> and \<^verbatim>\<open>thread/sync.c\<close> can fail, that locks exclude each other and that no wake-up
  is lost.
\<close>

section \<open>The scheduler's invariant\<close>

definition st :: "kthreads \<Rightarrow> u32 \<Rightarrow> task_status option" where
  "st s t = map_option status (tasks s t)"

text \<open>The queues agree with the states; \<open>sched_inv\<close> adds that the current thread is running. The
  threads are kernel threads: they use the kernel's page directory at \<open>0x100000\<close>.\<close>

definition qinv :: "kthreads \<Rightarrow> bool" where
  "qinv s \<longleftrightarrow> (\<forall>t k. tasks s t = Some k \<longrightarrow> t \<noteq> 0 \<and> stack_magic k = 0x19870916 \<and> tpgdir k = 0) \<and>
     distinct (thread_ready_list s) \<and>
     (\<forall>t. t \<in> set (thread_ready_list s) \<longleftrightarrow> st s t = Some TASK_READY) \<and>
     (\<forall>t. st s t = Some TASK_RUNNING \<longrightarrow> t = running_thread s) \<and>
     st s (running_thread s) \<noteq> None \<and>
     st s (idle_thread s) \<in> {Some TASK_RUNNING, Some TASK_READY, Some TASK_BLOCKED} \<and>
     cr3 (tmem s) = 0x100000"

definition sched_inv :: "kthreads \<Rightarrow> bool" where
  "sched_inv s \<longleftrightarrow> qinv s \<and> st s (running_thread s) = Some TASK_RUNNING"

lemma qinvD:
  assumes "qinv s"
  shows "\<And>t k. tasks s t = Some k \<Longrightarrow> t \<noteq> 0 \<and> stack_magic k = 0x19870916 \<and> tpgdir k = 0"
    and "distinct (thread_ready_list s)"
    and "\<And>t. t \<in> set (thread_ready_list s) \<longleftrightarrow> st s t = Some TASK_READY"
    and "\<And>t. st s t = Some TASK_RUNNING \<Longrightarrow> t = running_thread s"
    and "st s (running_thread s) \<noteq> None"
    and "st s (idle_thread s) \<in> {Some TASK_RUNNING, Some TASK_READY, Some TASK_BLOCKED}"
    and "cr3 (tmem s) = 0x100000"
  using assms unfolding qinv_def by blast+

lemma qinvI:
  assumes "\<And>t k. tasks s t = Some k \<Longrightarrow> t \<noteq> 0 \<and> stack_magic k = 0x19870916 \<and> tpgdir k = 0"
    and "distinct (thread_ready_list s)"
    and "\<And>t. t \<in> set (thread_ready_list s) \<longleftrightarrow> st s t = Some TASK_READY"
    and "\<And>t. st s t = Some TASK_RUNNING \<Longrightarrow> t = running_thread s"
    and "st s (running_thread s) \<noteq> None"
    and "st s (idle_thread s) \<in> {Some TASK_RUNNING, Some TASK_READY, Some TASK_BLOCKED}"
    and "cr3 (tmem s) = 0x100000"
  shows "qinv s"
  using assms unfolding qinv_def by blast

lemma st_upd_task: "st (upd_task t f s) x = (if x = t then map_option (status \<circ> f) (tasks s t) else st s x)"
  by (simp add: st_def upd_task_def option.map_comp)

lemma upd_task_fields [simp]:
  "thread_ready_list (upd_task t f s) = thread_ready_list s" "thread_all_list (upd_task t f s) = thread_all_list s"
  "running_thread (upd_task t f s) = running_thread s" "idle_thread (upd_task t f s) = idle_thread s"
  "main_thread (upd_task t f s) = main_thread s" "pid_bitmap (upd_task t f s) = pid_bitmap s"
  "locks (upd_task t f s) = locks s" "ctls (upd_task t f s) = ctls s" "tmem (upd_task t f s) = tmem s"
  "tasks (upd_task t f s) x = (if x = t then map_option f (tasks s t) else tasks s x)"
  by (simp_all add: upd_task_def)

lemma st_Some: "st s t = Some x \<longleftrightarrow> (\<exists>k. tasks s t = Some k \<and> status k = x)"
  by (auto simp: st_def)

definition mem_base :: "mem \<Rightarrow> mem" where
  "mem_base m = m\<lparr>pgdir := 0, userprog_vaddr := \<lparr>vaddr_bitmap = \<lparr>btmp_bytes_len = 0, bits = []\<rparr>, vaddr_start = 0\<rparr>\<rparr>"

text \<open>What scheduling leaves alone: everything but states, time slices, the ready list, who runs and
  the view of memory that depends on who runs.\<close>

definition keeps :: "kthreads \<Rightarrow> kthreads \<Rightarrow> bool" where
  "keeps s s' \<longleftrightarrow> locks s' = locks s \<and> ctls s' = ctls s \<and> pid_bitmap s' = pid_bitmap s \<and>
     thread_all_list s' = thread_all_list s \<and> idle_thread s' = idle_thread s \<and> main_thread s' = main_thread s \<and>
     (\<forall>t. map_option pid (tasks s' t) = map_option pid (tasks s t)) \<and>
     (\<forall>t. map_option parent_pid (tasks s' t) = map_option parent_pid (tasks s t)) \<and>
     (\<forall>t. map_option exit_status (tasks s' t) = map_option exit_status (tasks s t)) \<and>
     mem_base (tmem s') = mem_base (tmem s)"

lemma keeps_refl [simp]: "keeps s s"
  by (simp add: keeps_def)

lemma keeps_trans: "keeps a b \<Longrightarrow> keeps b c \<Longrightarrow> keeps a c"
  by (simp add: keeps_def)

definition enqueue_cur :: "kthreads \<Rightarrow> kthreads" where
  "enqueue_cur s = (if st s (running_thread s) = Some TASK_RUNNING
     then upd_task (running_thread s) (\<lambda>k. k\<lparr>ticks := priority k, status := TASK_READY\<rparr>)
            (s\<lparr>thread_ready_list := thread_ready_list s @ [running_thread s]\<rparr>) else s)"

lemma enqueue_cur_ok:
  assumes "qinv s"
  shows "qinv (enqueue_cur s)" and "st (enqueue_cur s) (running_thread s) \<noteq> Some TASK_RUNNING"
    and "\<And>t. st (enqueue_cur s) t = (if t = running_thread s \<and> st s t = Some TASK_RUNNING then Some TASK_READY else st s t)"
    and "keeps s (enqueue_cur s)" and "running_thread (enqueue_cur s) = running_thread s"
    and "thread_ready_list (enqueue_cur s) =
           thread_ready_list s @ (if st s (running_thread s) = Some TASK_RUNNING then [running_thread s] else [])"
proof -
  let ?c = "running_thread s"
  have st': "st (enqueue_cur s) t = (if t = ?c \<and> st s t = Some TASK_RUNNING then Some TASK_READY else st s t)" for t
    by (auto simp: enqueue_cur_def st_upd_task st_def option.map_comp o_def)
  show "st (enqueue_cur s) t = (if t = ?c \<and> st s t = Some TASK_RUNNING then Some TASK_READY else st s t)" for t by (rule st')
  show rl: "thread_ready_list (enqueue_cur s) = thread_ready_list s @ (if st s ?c = Some TASK_RUNNING then [?c] else [])"
    by (simp add: enqueue_cur_def)
  show run: "running_thread (enqueue_cur s) = ?c" by (simp add: enqueue_cur_def)
  show "st (enqueue_cur s) ?c \<noteq> Some TASK_RUNNING" by (simp add: st')
  show "keeps s (enqueue_cur s)"
    unfolding enqueue_cur_def keeps_def by (simp add: option.map_comp o_def)
  note q = qinvD [OF assms]
  show "qinv (enqueue_cur s)"
  proof (rule qinvI)
    show "t \<noteq> 0 \<and> stack_magic k = 0x19870916 \<and> tpgdir k = 0" if "tasks (enqueue_cur s) t = Some k" for t k
    proof -
      have "\<exists>k'. tasks s t = Some k' \<and> stack_magic k = stack_magic k' \<and> tpgdir k = tpgdir k'"
        using that by (auto simp: enqueue_cur_def split: if_splits)
      then show ?thesis using q(1) by metis
    qed
    show "distinct (thread_ready_list (enqueue_cur s))" using q(2,3) by (simp add: rl)
    show "t \<in> set (thread_ready_list (enqueue_cur s)) \<longleftrightarrow> st (enqueue_cur s) t = Some TASK_READY" for t
      by (cases "t = ?c") (auto simp: rl st' q(3))
    show "t = running_thread (enqueue_cur s)" if "st (enqueue_cur s) t = Some TASK_RUNNING" for t
      using that q(4) [of t] by (simp add: st' run split: if_splits)
    show "st (enqueue_cur s) (running_thread (enqueue_cur s)) \<noteq> None" using q(5) by (simp add: st' run)
    have "idle_thread (enqueue_cur s) = idle_thread s" by (simp add: enqueue_cur_def)
    then show "st (enqueue_cur s) (idle_thread (enqueue_cur s)) \<in> {Some TASK_RUNNING, Some TASK_READY, Some TASK_BLOCKED}"
      using q(6) by (simp add: st')
    show "cr3 (tmem (enqueue_cur s)) = 0x100000" using q(7) by (simp add: enqueue_cur_def)
  qed
qed

lemma thread_unblock_ok:
  assumes q: "qinv s" and t: "st s t = Some x" and x: "blocked_status x"
  obtains s' where "thread_unblock t s = Inr s'" and "qinv s'" and "thread_ready_list s' = t # thread_ready_list s"
    and "\<And>u. st s' u = (if u = t then Some TASK_READY else st s u)" and "keeps s s'"
    and "running_thread s' = running_thread s" and "tmem s' = tmem s"
proof -
  let ?s = "upd_task t (\<lambda>k. k\<lparr>status := TASK_READY\<rparr>) (s\<lparr>thread_ready_list := t # thread_ready_list s\<rparr>)"
  obtain k where k: "tasks s t = Some k" "status k = x" using t by (auto simp: st_Some)
  note p = qinvD [OF q]
  have nr: "t \<notin> set (thread_ready_list s)" and ne: "x \<noteq> TASK_READY" "x \<noteq> TASK_RUNNING"
    using p(3) t x by (auto simp: blocked_status_def)
  have eq: "thread_unblock t s = Inr ?s"
    using k x nr ne by (simp add: thread_unblock_def task_def)
  have st': "st ?s u = (if u = t then Some TASK_READY else st s u)" for u
    using k by (simp add: st_upd_task st_def)
  have "qinv ?s"
  proof (rule qinvI)
    show "u \<noteq> 0 \<and> stack_magic y = 0x19870916 \<and> tpgdir y = 0" if "tasks ?s u = Some y" for u y
      using that p(1) k(1) by (auto split: if_splits)
    show "distinct (thread_ready_list ?s)" using p(2) nr by simp
    show "u \<in> set (thread_ready_list ?s) \<longleftrightarrow> st ?s u = Some TASK_READY" for u using p(3) by (simp add: st')
    show "u = running_thread ?s" if "st ?s u = Some TASK_RUNNING" for u using that p(4) by (simp add: st' split: if_splits)
    show "st ?s (running_thread ?s) \<noteq> None" using p(5) by (simp add: st')
    show "st ?s (idle_thread ?s) \<in> {Some TASK_RUNNING, Some TASK_READY, Some TASK_BLOCKED}" using p(6) by (simp add: st')
    show "cr3 (tmem ?s) = 0x100000" using p(7) by simp
  qed
  moreover have "keeps s ?s" unfolding keeps_def by (simp add: option.map_comp o_def)
  ultimately show ?thesis using that [OF eq _ _ st'] by simp
qed


text \<open>The tail of \<^verbatim>\<open>schedule\<close>: pop the head of the ready list, activate it, switch.\<close>

definition dispatch :: "u32 \<Rightarrow> kthreads \<Rightarrow> kthreads result" where
  "dispatch cur s = (case thread_ready_list s of
        [] \<Rightarrow> Inl (AssertFail ''!list_empty(&thread_ready_list)'')
      | nxt # rest \<Rightarrow>
          bindR (process_activate nxt
                  (upd_task nxt (\<lambda>k. k\<lparr>status := TASK_RUNNING\<rparr>) (s\<lparr>thread_ready_list := rest\<rparr>)))
            (switch_to cur nxt))"

lemma dispatch_ok:
  assumes q: "qinv s" and ne: "thread_ready_list s = n # rest" and nr: "st s (running_thread s) \<noteq> Some TASK_RUNNING"
  obtains s' where "dispatch (running_thread s) s = Inr s'" and "sched_inv s'" and "running_thread s' = n"
    and "thread_ready_list s' = rest"
    and "\<And>u. st s' u = (if u = n then Some TASK_RUNNING else st s u)" and "keeps s s'"
proof -
  let ?c = "running_thread s"
  note p = qinvD [OF q]
  have stn: "st s n = Some TASK_READY" using p(3) [of n] ne by simp
  then obtain k where k: "tasks s n = Some k" by (auto simp: st_Some)
  have kp: "n \<noteq> 0" "tpgdir k = 0" using p(1) [OF k] by auto
  have nrun: "st s u \<noteq> Some TASK_RUNNING" for u using p(4) nr by metis
  define a where "a = upd_task n (\<lambda>k. k\<lparr>status := TASK_RUNNING\<rparr>) (s\<lparr>thread_ready_list := rest\<rparr>)"
  have pa: "process_activate n a = Inr (a\<lparr>tmem := (tmem s)\<lparr>cr3 := 0x100000\<rparr>\<rparr>)"
    using k kp by (simp add: process_activate_def a_def task_def page_dir_activate_def)
  define b where "b = a\<lparr>tmem := (tmem s)\<lparr>cr3 := 0x100000\<rparr>\<rparr>"
  define c where "c = upd_task ?c (\<lambda>c. c\<lparr>tuserprog_vaddr := userprog_vaddr (tmem s)\<rparr>) b"
  obtain kc where kc: "tasks c n = Some kc" "tpgdir kc = 0" using k kp by (cases "n = ?c") (auto simp: c_def b_def a_def)
  define s' where "s' = c\<lparr>running_thread := n, tmem := (tmem c)\<lparr>pgdir := tpgdir kc, userprog_vaddr := tuserprog_vaddr kc\<rparr>\<rparr>"
  have "userprog_vaddr (tmem b) = userprog_vaddr (tmem s)" by (simp add: b_def)
  then have "switch_to ?c n b = Inr s'" using kc by (simp add: switch_to_def task_def s'_def c_def)
  then have eq: "dispatch ?c s = Inr s'" using ne pa by (simp add: dispatch_def a_def b_def)
  have st': "st s' u = (if u = n then Some TASK_RUNNING else st s u)" for u
    using k by (simp add: s'_def c_def b_def a_def st_def option.map_comp o_def)
  have rl: "thread_ready_list s' = rest" and run: "running_thread s' = n" by (simp_all add: s'_def c_def b_def a_def)
  have tk: "\<exists>k'. tasks s u = Some k' \<and> stack_magic y = stack_magic k' \<and> tpgdir y = tpgdir k'"
    if "tasks s' u = Some y" for u y
    using that k by (auto simp: s'_def c_def b_def a_def split: if_splits)
  have "qinv s'"
  proof (rule qinvI)
    show "u \<noteq> 0 \<and> stack_magic y = 0x19870916 \<and> tpgdir y = 0" if "tasks s' u = Some y" for u y
      using tk [OF that] p(1) by metis
    show "distinct (thread_ready_list s')" using p(2) ne by (simp add: rl)
    have "n \<notin> set rest" using p(2) ne by simp
    then show "u \<in> set (thread_ready_list s') \<longleftrightarrow> st s' u = Some TASK_READY" for u
      using p(3) [of u] ne by (cases "u = n") (simp_all add: rl st')
    show "u = running_thread s'" if "st s' u = Some TASK_RUNNING" for u
      using that nrun by (simp add: st' run split: if_splits)
    show "st s' (running_thread s') \<noteq> None" by (simp add: st' run)
    have "idle_thread s' = idle_thread s" by (simp add: s'_def c_def b_def a_def)
    then show "st s' (idle_thread s') \<in> {Some TASK_RUNNING, Some TASK_READY, Some TASK_BLOCKED}" using p(6) by (simp add: st')
    show "cr3 (tmem s') = 0x100000" by (simp add: s'_def c_def b_def a_def)
  qed
  then have "sched_inv s'" by (simp add: sched_inv_def st' run)
  moreover have "mem_base (tmem s') = mem_base (tmem s)"
    using p(7) by (cases "tmem s") (simp add: s'_def c_def b_def a_def mem_base_def)
  then have "keeps s s'" unfolding keeps_def by (simp add: s'_def c_def b_def a_def option.map_comp o_def)
  ultimately show ?thesis using that [OF eq _ run rl st'] by blast
qed

lemma schedule_eq:
  assumes q: "qinv s"
  shows "schedule s = bindR (if thread_ready_list (enqueue_cur s) = []
      then thread_unblock (idle_thread s) (enqueue_cur s) else Inr (enqueue_cur s)) (dispatch (running_thread s))"
proof -
  obtain k where k: "tasks s (running_thread s) = Some k" using qinvD(5) [OF q] by (auto simp: st_def)
  have nr: "running_thread s \<notin> set (thread_ready_list s)" if "status k = TASK_RUNNING"
    using qinvD(3) [OF q, of "running_thread s"] k that by (simp add: st_def)
  show ?thesis
  proof (cases "status k = TASK_RUNNING")
    case True
    then show ?thesis using k nr by (simp add: schedule_def task_def dispatch_def [abs_def] enqueue_cur_def st_def Let_def)
  next
    case False
    then show ?thesis using k by (simp add: schedule_def task_def dispatch_def [abs_def] enqueue_cur_def st_def Let_def)
  qed
qed

text \<open>The thread \<^verbatim>\<open>schedule\<close> picks: the head of the ready list after the running thread was appended, or the
  idle thread when that is empty.\<close>

definition next_thread :: "kthreads \<Rightarrow> u32" where
  "next_thread s = (case thread_ready_list s of t # _ \<Rightarrow> t | [] \<Rightarrow>
     if st s (running_thread s) = Some TASK_RUNNING then running_thread s else idle_thread s)"

definition rest_queue :: "kthreads \<Rightarrow> u32 list" where
  "rest_queue s = (let q = thread_ready_list s @
       (if st s (running_thread s) = Some TASK_RUNNING then [running_thread s] else []) in tl q)"

lemma schedule_ok:
  assumes q: "qinv s"
  obtains s' where "schedule s = Inr s'" and "sched_inv s'" and "running_thread s' = next_thread s"
    and "thread_ready_list s' = rest_queue s"
    and "\<And>u. st s' u = (if u = next_thread s then Some TASK_RUNNING
                else if u = running_thread s \<and> st s u = Some TASK_RUNNING then Some TASK_READY else st s u)"
    and "keeps s s'"
proof -
  let ?e = "enqueue_cur s"
  note e = enqueue_cur_ok [OF q]
  show ?thesis
  proof (cases "thread_ready_list ?e")
    case (Cons n rest)
    have nxt: "next_thread s = n" "rest_queue s = rest"
      using Cons e(6) by (auto simp: next_thread_def rest_queue_def split: list.splits if_splits)
    have "st ?e (running_thread ?e) \<noteq> Some TASK_RUNNING" using e(2,5) by simp
    from dispatch_ok [OF e(1) Cons this] obtain s' where s': "dispatch (running_thread ?e) ?e = Inr s'" "sched_inv s'"
      "running_thread s' = n" "thread_ready_list s' = rest"
      "\<And>u. st s' u = (if u = n then Some TASK_RUNNING else st ?e u)" "keeps ?e s'" by blast
    have "schedule s = Inr s'" using s'(1) Cons e(5) by (simp add: schedule_eq [OF q])
    then show ?thesis
      using that [of s'] s'(2-5) nxt e(3) keeps_trans [OF e(4) s'(6)] by simp
  next
    case Nil
    then have nr: "st s (running_thread s) \<noteq> Some TASK_RUNNING" "thread_ready_list s = []"
      using e(6) by (auto split: if_splits)
    have ee: "?e = s" using nr by (simp add: enqueue_cur_def)
    have idle: "st s (idle_thread s) = Some TASK_BLOCKED"
      using qinvD(3,4,6) [OF q] nr by fastforce
    have nxt: "next_thread s = idle_thread s" "rest_queue s = []" using nr by (simp_all add: next_thread_def rest_queue_def)
    obtain s1 where s1: "thread_unblock (idle_thread s) s = Inr s1" "qinv s1" "thread_ready_list s1 = [idle_thread s]"
      "\<And>u. st s1 u = (if u = idle_thread s then Some TASK_READY else st s u)" "keeps s s1"
      "running_thread s1 = running_thread s"
      using thread_unblock_ok [OF q idle] nr(2) by (auto simp: blocked_status_def)
    have "st s1 (running_thread s1) \<noteq> Some TASK_RUNNING" using nr by (simp add: s1)
    from dispatch_ok [OF s1(2) s1(3) this] obtain s' where s': "dispatch (running_thread s1) s1 = Inr s'" "sched_inv s'"
      "running_thread s' = idle_thread s" "thread_ready_list s' = []"
      "\<And>u. st s' u = (if u = idle_thread s then Some TASK_RUNNING else st s1 u)" "keeps s1 s'" by blast
    have "schedule s = Inr s'" using s'(1) s1(1,6) nr(2) ee by (simp add: schedule_eq [OF q])
    moreover have "st s' u = (if u = next_thread s then Some TASK_RUNNING
                else if u = running_thread s \<and> st s u = Some TASK_RUNNING then Some TASK_READY else st s u)" for u
      using nr(1) by (auto simp: s'(5) s1(4) nxt)
    ultimately show ?thesis
      using that [of s'] s'(2-4) nxt keeps_trans [OF s1(5) s'(6)] by simp
  qed
qed

end
