(* ===== verification/Locks.thy ===== *)
theory Locks
  imports Sched
begin

text \<open>
  The locks of \<^verbatim>\<open>thread/sync.c\<close> over the scheduler: the invariant that ties a lock's value, holder and
  waiters to the states of the threads, and that every operation keeps it and passes its assertions.
\<close>

section \<open>The invariant of the locks\<close>

definition active :: "kthreads \<Rightarrow> u32 \<Rightarrow> bool" where
  "active s t \<longleftrightarrow> st s t = Some TASK_RUNNING \<or> st s t = Some TASK_READY"

definition lock_state :: "lock \<Rightarrow> bool" where
  "lock_state k \<longleftrightarrow> sema_value (semaphore k) = 1 \<and> holder k = 0 \<and> holder_repeat_nr k = 0 \<or>
     sema_value (semaphore k) = 0 \<and> holder k \<noteq> 0 \<and> holder_repeat_nr k \<noteq> 0"

definition linv :: "kthreads \<Rightarrow> bool" where
  "linv s \<longleftrightarrow> (\<forall>l. lock_state (locks s l) \<and> distinct (waiters (semaphore (locks s l)))) \<and>
     (\<forall>l t. t \<in> set (waiters (semaphore (locks s l))) \<longleftrightarrow> ctls s t = SemaDown l \<and> st s t = Some TASK_BLOCKED) \<and>
     (\<forall>l t. ctls s t = SemaDown l \<longrightarrow> t \<noteq> idle_thread s \<and> holder (locks s l) \<noteq> t \<and>
        (active s t \<or> st s t = Some TASK_BLOCKED)) \<and>
     (\<forall>l. sema_value (semaphore (locks s l)) = 1 \<and> waiters (semaphore (locks s l)) \<noteq> [] \<longrightarrow>
        (\<exists>t. ctls s t = SemaDown l \<and> active s t)) \<and>
     (\<forall>l. holder (locks s l) \<noteq> 0 \<longrightarrow> st s (holder (locks s l)) \<noteq> None)"

lemma linvD:
  assumes "linv s"
  shows "\<And>l. lock_state (locks s l)" and "\<And>l. distinct (waiters (semaphore (locks s l)))"
    and "\<And>l t. t \<in> set (waiters (semaphore (locks s l))) \<longleftrightarrow> ctls s t = SemaDown l \<and> st s t = Some TASK_BLOCKED"
    and "\<And>l t. ctls s t = SemaDown l \<Longrightarrow> t \<noteq> idle_thread s"
    and "\<And>l t. ctls s t = SemaDown l \<Longrightarrow> holder (locks s l) \<noteq> t"
    and "\<And>l t. ctls s t = SemaDown l \<Longrightarrow> active s t \<or> st s t = Some TASK_BLOCKED"
    and "\<And>l. sema_value (semaphore (locks s l)) = 1 \<Longrightarrow> waiters (semaphore (locks s l)) \<noteq> [] \<Longrightarrow>
        \<exists>t. ctls s t = SemaDown l \<and> active s t"
    and "\<And>l. holder (locks s l) \<noteq> 0 \<Longrightarrow> st s (holder (locks s l)) \<noteq> None"
  using assms unfolding linv_def by blast+

lemma linvI:
  assumes "\<And>l. lock_state (locks s l)" and "\<And>l. distinct (waiters (semaphore (locks s l)))"
    and "\<And>l t. t \<in> set (waiters (semaphore (locks s l))) \<longleftrightarrow> ctls s t = SemaDown l \<and> st s t = Some TASK_BLOCKED"
    and "\<And>l t. ctls s t = SemaDown l \<Longrightarrow> t \<noteq> idle_thread s \<and> holder (locks s l) \<noteq> t \<and> (active s t \<or> st s t = Some TASK_BLOCKED)"
    and "\<And>l. sema_value (semaphore (locks s l)) = 1 \<Longrightarrow> waiters (semaphore (locks s l)) \<noteq> [] \<Longrightarrow>
        \<exists>t. ctls s t = SemaDown l \<and> active s t"
    and "\<And>l. holder (locks s l) \<noteq> 0 \<Longrightarrow> st s (holder (locks s l)) \<noteq> None"
  shows "linv s"
  using assms unfolding linv_def by blast

text \<open>A change of states that keeps, for every thread inside \<^verbatim>\<open>sema_down\<close>, whether it is blocked or
  active, keeps the invariant.\<close>

lemma linv_cong:
  assumes l: "linv s" and eq: "locks s' = locks s" "ctls s' = ctls s" "idle_thread s' = idle_thread s"
    and st: "\<And>t l. ctls s t = SemaDown l \<Longrightarrow> (active s' t \<longleftrightarrow> active s t) \<and>
      (st s' t = Some TASK_BLOCKED \<longleftrightarrow> st s t = Some TASK_BLOCKED)"
    and al: "\<And>t. st s t \<noteq> None \<Longrightarrow> st s' t \<noteq> None"
  shows "linv s'"
proof (rule linvI)
  note p = linvD [OF l]
  show "lock_state (locks s' l)" "distinct (waiters (semaphore (locks s' l)))" for l using p(1,2) eq by auto
  show "t \<in> set (waiters (semaphore (locks s' l))) \<longleftrightarrow> ctls s' t = SemaDown l \<and> st s' t = Some TASK_BLOCKED" for l t
    using p(3) [of t l] st [of t l] by (auto simp: eq)
  show "t \<noteq> idle_thread s' \<and> holder (locks s' l) \<noteq> t \<and> (active s' t \<or> st s' t = Some TASK_BLOCKED)" if "ctls s' t = SemaDown l" for l t
    using p(4-6) [of t l] st [of t l] that by (auto simp: eq)
  show "\<exists>t. ctls s' t = SemaDown l \<and> active s' t"
    if "sema_value (semaphore (locks s' l)) = 1" "waiters (semaphore (locks s' l)) \<noteq> []" for l
    using p(7) [of l] st that by (auto simp: eq)
  show "st s' (holder (locks s' l)) \<noteq> None" if "holder (locks s' l) \<noteq> 0" for l using p(8) [of l] al that by (simp add: eq)
qed

text \<open>Scheduling moves threads between ready and running, and wakes only the idle thread.\<close>

lemma schedule_keeps_linv:
  assumes q: "qinv s" and l: "linv s"
  obtains s' where "schedule s = Inr s'" and "sched_inv s'" and "linv s'" and "keeps s s'"
    and "running_thread s' = next_thread s" and "thread_ready_list s' = rest_queue s"
    and "\<And>u. st s' u = (if u = next_thread s then Some TASK_RUNNING
                else if u = running_thread s \<and> st s u = Some TASK_RUNNING then Some TASK_READY else st s u)"
proof -
  obtain s' where s': "schedule s = Inr s'" "sched_inv s'" "running_thread s' = next_thread s"
    "thread_ready_list s' = rest_queue s"
    "\<And>u. st s' u = (if u = next_thread s then Some TASK_RUNNING
                else if u = running_thread s \<and> st s u = Some TASK_RUNNING then Some TASK_READY else st s u)"
    "keeps s s'" by (rule schedule_ok [OF q]) blast
  have nx: "next_thread s = idle_thread s \<or> active s (next_thread s)"
    using qinvD(3) [OF q, of "next_thread s"] by (auto simp: next_thread_def active_def split: list.splits if_splits)
  have "linv s'"
  proof (rule linv_cong [OF l])
    show "locks s' = locks s" "ctls s' = ctls s" "idle_thread s' = idle_thread s" using s'(6) by (auto simp: keeps_def)
    show "(active s' t \<longleftrightarrow> active s t) \<and> (st s' t = Some TASK_BLOCKED \<longleftrightarrow> st s t = Some TASK_BLOCKED)"
      if "ctls s t = SemaDown l" for t l
    proof -
      have "t \<noteq> idle_thread s" using linvD(4) [OF l that] .
      then show ?thesis using nx by (auto simp: s'(5) active_def)
    qed
    show "st s' t \<noteq> None" if "st s t \<noteq> None" for t using that by (auto simp: s'(5))
  qed
  with s' that show ?thesis by blast
qed

section \<open>Blocking, yielding and the timer\<close>

lemma sched_invD: "sched_inv s \<Longrightarrow> qinv s" "sched_inv s \<Longrightarrow> st s (running_thread s) = Some TASK_RUNNING"
  by (simp_all add: sched_inv_def)

text \<open>The current thread leaves the running state for a state in which it is not queued.\<close>

definition park :: "task_status \<Rightarrow> kthreads \<Rightarrow> kthreads" where
  "park x s = upd_task (running_thread s) (\<lambda>k. k\<lparr>status := x\<rparr>) s"

lemma st_park: "sched_inv s \<Longrightarrow> st (park x s) u = (if u = running_thread s then Some x else st s u)"
  using sched_invD(2) [of s] by (auto simp: park_def st_upd_task o_def st_Some)

lemma park_qinv:
  assumes s: "sched_inv s" and x: "blocked_status x" "running_thread s = idle_thread s \<longrightarrow> x = TASK_BLOCKED"
  shows "qinv (park x s)"
proof (rule qinvI)
  let ?s = "park x s"
  note p = qinvD [OF sched_invD(1) [OF s]] and stp = st_park [OF s] and sr = sched_invD(2) [OF s]
  have f: "running_thread ?s = running_thread s" "thread_ready_list ?s = thread_ready_list s"
    "idle_thread ?s = idle_thread s" "tmem ?s = tmem s" by (simp_all add: park_def)
  have xn: "x \<noteq> TASK_RUNNING" "x \<noteq> TASK_READY" using x(1) by (auto simp: blocked_status_def)
  show "u \<noteq> 0 \<and> stack_magic y = 0x19870916 \<and> tpgdir y = 0" if "tasks ?s u = Some y" for u y
  proof -
    have "\<exists>k'. tasks s u = Some k' \<and> stack_magic y = stack_magic k' \<and> tpgdir y = tpgdir k'"
      using that by (auto simp: park_def split: if_splits)
    then show ?thesis using p(1) by metis
  qed
  show "distinct (thread_ready_list ?s)" using p(2) by (simp add: f)
  show "u \<in> set (thread_ready_list ?s) \<longleftrightarrow> st ?s u = Some TASK_READY" for u
    using p(3) [of u] sr xn by (auto simp: f stp)
  show "u = running_thread ?s" if "st ?s u = Some TASK_RUNNING" for u using that p(4) by (auto simp: f stp split: if_splits)
  show "st ?s (running_thread ?s) \<noteq> None" by (simp add: f stp)
  show "st ?s (idle_thread ?s) \<in> {Some TASK_RUNNING, Some TASK_READY, Some TASK_BLOCKED}"
    using p(6) x(2) by (auto simp: f stp)
  show "cr3 (tmem ?s) = 0x100000" using p(7) by (simp add: f)
qed

lemma keeps_park: "keeps s (park x s)"
  unfolding keeps_def park_def by (simp add: option.map_comp o_def)

lemma thread_block_ok:
  assumes s: "sched_inv s" and x: "blocked_status x" "running_thread s = idle_thread s \<longrightarrow> x = TASK_BLOCKED"
    and l: "linv (park x s)"
  obtains s' where "thread_block x s = Inr s'" and "sched_inv s'" and "linv s'" and "keeps s s'"
    and "st s' (running_thread s) = (if thread_ready_list s = [] \<and> running_thread s = idle_thread s then Some TASK_RUNNING else Some x)"
    and "running_thread s' = (case thread_ready_list s of t # _ \<Rightarrow> t | [] \<Rightarrow> idle_thread s)"
    and "\<And>u. u \<noteq> running_thread s \<Longrightarrow> u \<noteq> running_thread s' \<Longrightarrow> st s' u = st s u"
proof -
  note q = park_qinv [OF s x]
  have ne: "st (park x s) (running_thread s) \<noteq> Some TASK_RUNNING"
    using x by (auto simp: st_park [OF s] blocked_status_def)
  have f: "running_thread (park x s) = running_thread s" "thread_ready_list (park x s) = thread_ready_list s"
    "idle_thread (park x s) = idle_thread s" by (simp_all add: park_def)
  obtain s' where s': "schedule (park x s) = Inr s'" "sched_inv s'" "linv s'" "keeps (park x s) s'"
    "running_thread s' = next_thread (park x s)"
    "\<And>u. st s' u = (if u = next_thread (park x s) then Some TASK_RUNNING
        else if u = running_thread (park x s) \<and> st (park x s) u = Some TASK_RUNNING then Some TASK_READY else st (park x s) u)"
    by (rule schedule_keeps_linv [OF q l]) blast
  have nt: "next_thread (park x s) = (case thread_ready_list s of t # _ \<Rightarrow> t | [] \<Rightarrow> idle_thread s)"
    using ne by (simp add: next_thread_def f split: list.splits)
  have "running_thread s \<notin> set (thread_ready_list s)"
    using qinvD(3) [OF sched_invD(1) [OF s]] sched_invD(2) [OF s] by simp
  then have "st s' (running_thread s) = (if thread_ready_list s = [] \<and> running_thread s = idle_thread s then Some TASK_RUNNING else Some x)"
    using ne by (auto simp: s'(6) nt f st_park [OF s] split: list.splits)
  moreover have "thread_block x s = Inr s'" using s'(1) x(1) by (simp add: thread_block_def park_def)
  moreover have "st s' u = st s u" if "u \<noteq> running_thread s" "u \<noteq> running_thread s'" for u
    using that by (simp add: s'(5,6) f st_park [OF s])
  ultimately show ?thesis
    using that [of s'] s'(2,3,5) nt keeps_trans [OF keeps_park s'(4)] by simp
qed

lemma park_linv_Run:
  assumes "sched_inv s" and l: "linv s" and "ctls s (running_thread s) = Run"
  shows "linv (park x s)"
proof (rule linv_cong [OF l])
  show "locks (park x s) = locks s" "ctls (park x s) = ctls s" "idle_thread (park x s) = idle_thread s"
    by (simp_all add: park_def)
qed (use assms in \<open>auto simp: active_def st_park\<close>)

text \<open>Updates that touch neither states nor locks.\<close>

lemma bookkeeping_ok:
  assumes s: "sched_inv s" and l: "linv s"
    and f: "\<And>k. status (f k) = status k \<and> stack_magic (f k) = stack_magic k \<and> tpgdir (f k) = tpgdir k \<and> pid (f k) = pid k \<and>
      parent_pid (f k) = parent_pid k \<and> exit_status (f k) = exit_status k"
  shows "sched_inv ((upd_task t f s)\<lparr>global_ticks := g\<rparr>)" "linv ((upd_task t f s)\<lparr>global_ticks := g\<rparr>)"
    "keeps s ((upd_task t f s)\<lparr>global_ticks := g\<rparr>)" "st ((upd_task t f s)\<lparr>global_ticks := g\<rparr>) = st s"
proof -
  let ?s = "(upd_task t f s)\<lparr>global_ticks := g\<rparr>"
  show st': "st ?s = st s" by (rule ext) (auto simp: st_def option.map_comp o_def f)
  note p = qinvD [OF sched_invD(1) [OF s]]
  have tk: "\<exists>k. tasks s u = Some k \<and> stack_magic y = stack_magic k \<and> tpgdir y = tpgdir k" if "tasks ?s u = Some y" for u y
    using that f by (auto split: if_splits)
  have "qinv ?s"
  proof (rule qinvI)
    show "u \<noteq> 0 \<and> stack_magic y = 0x19870916 \<and> tpgdir y = 0" if "tasks ?s u = Some y" for u y
      using tk [OF that] p(1) by metis
  qed (use p in \<open>simp_all add: st'\<close>)
  then show "sched_inv ?s" using sched_invD(2) [OF s] by (simp add: sched_inv_def st')
  show "linv ?s" by (rule linv_cong [OF l]) (simp_all add: st' active_def)
  show "keeps s ?s" unfolding keeps_def by (simp add: option.map_comp o_def f)
qed

lemma intr_timer_handler_ok:
  assumes s: "sched_inv s" and l: "linv s"
  obtains s' where "intr_timer_handler s = Inr s'" and "sched_inv s'" and "linv s'" and "keeps s s'"
    and "\<And>u. st s' u \<noteq> st s u \<Longrightarrow> active s u \<and> active s' u"
proof -
  let ?c = "running_thread s"
  define s1 where "s1 = (upd_task ?c (\<lambda>k. k\<lparr>elapsed_ticks := elapsed_ticks k + 1\<rparr>) s)\<lparr>global_ticks := global_ticks s + 1\<rparr>"
  have b: "sched_inv s1" "linv s1" "keeps s s1" "st s1 = st s"
    unfolding s1_def by (rule bookkeeping_ok [OF s l]; simp)+
  have r1: "running_thread s1 = ?c" by (simp add: s1_def)
  obtain k where k: "tasks s ?c = Some k" "stack_magic k = 0x19870916"
    using sched_invD [OF s] qinvD(1) by (metis st_Some)
  show ?thesis
  proof (cases "ticks k = 0")
    case True
    then have eq: "intr_timer_handler s = schedule s1" using k by (simp add: intr_timer_handler_def task_def s1_def)
    obtain s' where s': "schedule s1 = Inr s'" "sched_inv s'" "linv s'" "keeps s1 s'"
      "\<And>u. st s' u = (if u = next_thread s1 then Some TASK_RUNNING
            else if u = running_thread s1 \<and> st s1 u = Some TASK_RUNNING then Some TASK_READY else st s1 u)"
      by (rule schedule_keeps_linv [OF sched_invD(1) [OF b(1)] b(2)]) blast
    have nx: "active s (next_thread s1)"
      using qinvD(3) [OF sched_invD(1) [OF b(1)], of "next_thread s1"] sched_invD(2) [OF b(1)]
      by (auto simp: next_thread_def active_def b(4) split: list.splits)
    have "active s u \<and> active s' u" if "st s' u \<noteq> st s u" for u
      using that nx by (auto simp: s'(5) b(4) active_def split: if_splits)
    then show ?thesis using that [of s'] s' eq keeps_trans [OF b(3) s'(4)] by simp
  next
    case False
    define s2 where "s2 = upd_task ?c (\<lambda>k. k\<lparr>ticks := ticks k - 1\<rparr>) s1"
    have s2: "s2 = (upd_task ?c (\<lambda>k. k\<lparr>ticks := ticks k - 1\<rparr>) s1)\<lparr>global_ticks := global_ticks s1\<rparr>" by (simp add: s2_def upd_task_def)
    have c: "sched_inv s2" "linv s2" "keeps s1 s2" "st s2 = st s1"
      unfolding s2 by (rule bookkeeping_ok [OF b(1,2)]; simp)+
    have "intr_timer_handler s = Inr s2" using k False by (simp add: intr_timer_handler_def task_def s1_def s2_def Let_def)
    then show ?thesis using that [of s2] c b(4) keeps_trans [OF b(3) c(3)] by simp
  qed
qed

lemma thread_yield_ok:
  assumes s: "sched_inv s" and l: "linv s"
  obtains s' where "thread_yield s = Inr s'" and "sched_inv s'" and "linv s'" and "keeps s s'"
    and "thread_ready_list s' = tl (thread_ready_list s @ [running_thread s])"
    and "running_thread s' = hd (thread_ready_list s @ [running_thread s])"
proof -
  let ?c = "running_thread s"
  note p = qinvD [OF sched_invD(1) [OF s]] and sr = sched_invD(2) [OF s]
  have nr: "?c \<notin> set (thread_ready_list s)" using p(3) [of ?c] sr by simp
  define a where "a = upd_task ?c (\<lambda>k. k\<lparr>status := TASK_READY\<rparr>) (s\<lparr>thread_ready_list := thread_ready_list s @ [?c]\<rparr>)"
  have f: "running_thread a = ?c" "thread_ready_list a = thread_ready_list s @ [?c]"
    "idle_thread a = idle_thread s" "tmem a = tmem s" "locks a = locks s" "ctls a = ctls s" by (simp_all add: a_def)
  have sta: "st a u = (if u = ?c then Some TASK_READY else st s u)" for u
    using sr by (auto simp: a_def st_def option.map_comp o_def)
  have tk: "\<exists>k. tasks s u = Some k \<and> stack_magic y = stack_magic k \<and> tpgdir y = tpgdir k" if "tasks a u = Some y" for u y
    using that by (auto simp: a_def split: if_splits)
  have qa: "qinv a"
  proof (rule qinvI)
    show "u \<noteq> 0 \<and> stack_magic y = 0x19870916 \<and> tpgdir y = 0" if "tasks a u = Some y" for u y
      using tk [OF that] p(1) by metis
    show "distinct (thread_ready_list a)" using p(2) nr by (simp add: f)
    show "u \<in> set (thread_ready_list a) \<longleftrightarrow> st a u = Some TASK_READY" for u using p(3) by (auto simp: f sta)
    show "u = running_thread a" if "st a u = Some TASK_RUNNING" for u using that p(4) by (auto simp: f sta split: if_splits)
    show "st a (running_thread a) \<noteq> None" by (simp add: f sta)
    show "st a (idle_thread a) \<in> {Some TASK_RUNNING, Some TASK_READY, Some TASK_BLOCKED}" using p(6) by (simp add: f sta)
    show "cr3 (tmem a) = 0x100000" using p(7) by (simp add: f)
  qed
  have la: "linv a"
    by (rule linv_cong [OF l]) (use sr in \<open>auto simp: f sta active_def\<close>)
  obtain s' where s': "schedule a = Inr s'" "sched_inv s'" "linv s'" "keeps a s'"
      "running_thread s' = next_thread a" "thread_ready_list s' = rest_queue a"
    by (rule schedule_keeps_linv [OF qa la]) blast
  have "keeps s a" unfolding keeps_def by (simp add: a_def option.map_comp o_def)
  moreover have "next_thread a = hd (thread_ready_list s @ [?c])" "rest_queue a = tl (thread_ready_list s @ [?c])"
    by (auto simp: next_thread_def rest_queue_def f sta split: list.splits)
  moreover have "thread_yield s = Inr s'" using nr s'(1) by (simp add: thread_yield_def a_def)
  ultimately show ?thesis using that [of s'] s' keeps_trans [of s a s'] by simp
qed

lemma unblock_linv:
  assumes q: "sched_inv s" and l: "linv s" and t: "st s t = Some x" "blocked_status x" and c: "ctls s t = Run"
  obtains s' where "thread_unblock t s = Inr s'" and "sched_inv s'" and "linv s'" and "keeps s s'"
    and "thread_ready_list s' = t # thread_ready_list s" and "running_thread s' = running_thread s"
    and "\<And>u. st s' u = (if u = t then Some TASK_READY else st s u)"
proof -
  obtain s' where s': "thread_unblock t s = Inr s'" "qinv s'" "thread_ready_list s' = t # thread_ready_list s"
    "\<And>u. st s' u = (if u = t then Some TASK_READY else st s u)" "keeps s s'" "running_thread s' = running_thread s"
    by (rule thread_unblock_ok [OF sched_invD(1) [OF q] t]) blast
  have "linv s'"
    by (rule linv_cong [OF l]) (use s'(5) c in \<open>auto simp: keeps_def s'(4) active_def\<close>)
  moreover have "sched_inv s'" using s'(2,4,6) sched_invD(2) [OF q] t by (auto simp: sched_inv_def blocked_status_def)
  ultimately show ?thesis using that s' by blast
qed

section \<open>Acquiring and releasing\<close>

lemma upd_lock_fields [simp]:
  "tasks (upd_lock l f s) = tasks s" "thread_ready_list (upd_lock l f s) = thread_ready_list s"
  "thread_all_list (upd_lock l f s) = thread_all_list s" "running_thread (upd_lock l f s) = running_thread s"
  "idle_thread (upd_lock l f s) = idle_thread s" "main_thread (upd_lock l f s) = main_thread s"
  "pid_bitmap (upd_lock l f s) = pid_bitmap s" "ctls (upd_lock l f s) = ctls s" "tmem (upd_lock l f s) = tmem s"
  "locks (upd_lock l f s) = (locks s)(l := f (locks s l))"
  by (simp_all add: upd_lock_def)

lemma sched_cong:
  assumes "tasks s' = tasks s" "thread_ready_list s' = thread_ready_list s" "running_thread s' = running_thread s"
    "idle_thread s' = idle_thread s" "tmem s' = tmem s"
  shows "st s' = st s" and "active s' = active s" and "qinv s' = qinv s" and "sched_inv s' = sched_inv s"
proof -
  show st': "st s' = st s" by (simp add: fun_eq_iff st_def assms)
  then show "active s' = active s" by (simp add: fun_eq_iff active_def)
  show q: "qinv s' = qinv s" unfolding qinv_def st' assms ..
  show "sched_inv s' = sched_inv s" unfolding sched_inv_def st' q assms ..
qed

definition same_life :: "kthreads \<Rightarrow> kthreads \<Rightarrow> bool" where
  "same_life s s' \<longleftrightarrow> pid_bitmap s' = pid_bitmap s \<and> thread_all_list s' = thread_all_list s \<and>
     idle_thread s' = idle_thread s \<and> main_thread s' = main_thread s \<and>
     (\<forall>t. map_option pid (tasks s' t) = map_option pid (tasks s t)) \<and> mem_base (tmem s') = mem_base (tmem s)"

lemma keeps_same_life: "keeps s s' \<Longrightarrow> same_life s s'"
  by (simp add: keeps_def same_life_def)

lemma same_life_refl [simp]: "same_life s s"
  by (simp add: same_life_def)

lemma same_life_trans: "same_life a b \<Longrightarrow> same_life b c \<Longrightarrow> same_life a c"
  by (simp add: same_life_def)

lemma lock_state_cases:
  assumes "lock_state k"
  obtains (free) "sema_value (semaphore k) = 1" "holder k = 0" "holder_repeat_nr k = 0"
    | (held) "sema_value (semaphore k) = 0" "holder k \<noteq> 0" "holder_repeat_nr k \<noteq> 0"
  using assms unfolding lock_state_def by blast

lemma running_nonzero: "sched_inv s \<Longrightarrow> running_thread s \<noteq> 0"
  using sched_invD [of s] qinvD(1) by (metis st_Some)

lemma lock_take_free:
  assumes s: "sched_inv s" and l: "linv s" and v: "sema_value (semaphore (locks s l)) = 1"
    and c: "ctls s (running_thread s) \<in> {Run, SemaDown l}"
  obtains s' where "lock_take l s = Inr s'" and "sched_inv s'" and "linv s'" and "same_life s s'"
    and "running_thread s' = running_thread s" and "st s' = st s" and "ctls s' = (ctls s)(running_thread s := Run)"
    and "locks s' = (locks s)(l := \<lparr>holder = running_thread s, semaphore = (semaphore (locks s l))\<lparr>sema_value := 0\<rparr>, holder_repeat_nr = 1\<rparr>)"
proof -
  let ?c = "running_thread s"
  note p = linvD [OF l]
  define k where "k = \<lparr>holder = ?c, semaphore = (semaphore (locks s l))\<lparr>sema_value := 0\<rparr>, holder_repeat_nr = 1\<rparr>"
  define s' where "s' = s\<lparr>ctls := (ctls s)(?c := Run), locks := (locks s)(l := k)\<rparr>"
  have r0: "holder_repeat_nr (locks s l) = 0" using lock_state_cases [OF p(1) [of l]] v by auto
  have eq: "lock_take l s = Inr s'"
    using v r0 by (cases "locks s l") (simp add: lock_take_def sema_down_round_def upd_sema_def upd_lock_def s'_def k_def)
  have f: "tasks s' = tasks s" "thread_ready_list s' = thread_ready_list s" "running_thread s' = ?c"
    "idle_thread s' = idle_thread s" "tmem s' = tmem s" by (simp_all add: s'_def)
  note sc = sched_cong [OF f]
  have lk: "locks s' = (locks s)(l := k)" and ct: "ctls s' = (ctls s)(?c := Run)" by (simp_all add: s'_def)
  have rn: "st s ?c = Some TASK_RUNNING" using sched_invD(2) [OF s] .
  have w: "waiters (semaphore (locks s' x)) = waiters (semaphore (locks s x))" for x by (simp add: lk k_def)
  have "linv s'"
  proof (rule linvI)
    show "lock_state (locks s' x)" for x using p(1) running_nonzero [OF s] by (simp add: lk k_def lock_state_def)
    show "distinct (waiters (semaphore (locks s' x)))" for x using p(2) by (simp add: w)
    show "t \<in> set (waiters (semaphore (locks s' x))) \<longleftrightarrow> ctls s' t = SemaDown x \<and> st s' t = Some TASK_BLOCKED" for x t
      using p(3) [of t x] rn by (auto simp: w ct sc(1))
    show "t \<noteq> idle_thread s' \<and> holder (locks s' x) \<noteq> t \<and> (active s' t \<or> st s' t = Some TASK_BLOCKED)" if "ctls s' t = SemaDown x" for x t
      using p(4-6) [of t x] that by (auto simp: ct f sc lk k_def split: if_splits)
    show "\<exists>t. ctls s' t = SemaDown x \<and> active s' t"
      if "sema_value (semaphore (locks s' x)) = 1" "waiters (semaphore (locks s' x)) \<noteq> []" for x
    proof -
      have xl: "x \<noteq> l" using that(1) by (auto simp: lk k_def)
      then have "sema_value (semaphore (locks s x)) = 1" "waiters (semaphore (locks s x)) \<noteq> []" using that by (simp_all add: lk)
      then obtain t where "ctls s t = SemaDown x" "active s t" using p(7) by blast
      moreover then have "t \<noteq> ?c" using c xl by auto
      ultimately show ?thesis by (auto simp: ct sc)
    qed
    show "st s' (holder (locks s' x)) \<noteq> None" if "holder (locks s' x) \<noteq> 0" for x
      using p(8) [of x] that rn by (auto simp: lk k_def sc split: if_splits)
  qed
  moreover have "same_life s s'" by (simp add: same_life_def s'_def)
  ultimately show ?thesis using that [OF eq] s sc f(3) lk ct k_def by simp
qed

lemma lock_take_held:
  assumes s: "sched_inv s" and l: "linv s" and v: "sema_value (semaphore (locks s l)) = 0"
    and c: "ctls s (running_thread s) \<in> {Run, SemaDown l}" and ni: "running_thread s \<noteq> idle_thread s"
    and nh: "holder (locks s l) \<noteq> running_thread s"
  obtains s' where "lock_take l s = Inr s'" and "sched_inv s'" and "linv s'" and "same_life s s'"
    and "st s' (running_thread s) = Some TASK_BLOCKED" and "ctls s' = (ctls s)(running_thread s := SemaDown l)"
    and "locks s' = (locks s)(l := (locks s l)\<lparr>semaphore := (semaphore (locks s l))
           \<lparr>waiters := waiters (semaphore (locks s l)) @ [running_thread s]\<rparr>\<rparr>)"
proof -
  let ?c = "running_thread s"
  note p = linvD [OF l]
  define k where "k = (locks s l)\<lparr>semaphore := (semaphore (locks s l))\<lparr>waiters := waiters (semaphore (locks s l)) @ [?c]\<rparr>\<rparr>"
  define a where "a = s\<lparr>ctls := (ctls s)(?c := SemaDown l), locks := (locks s)(l := k)\<rparr>"
  have rn: "st s ?c = Some TASK_RUNNING" using sched_invD(2) [OF s] .
  have nw: "?c \<notin> set (waiters (semaphore (locks s l)))" using p(3) [of ?c l] rn by simp
  have f: "tasks a = tasks s" "thread_ready_list a = thread_ready_list s" "running_thread a = ?c"
    "idle_thread a = idle_thread s" "tmem a = tmem s" by (simp_all add: a_def)
  have lk: "locks a = (locks s)(l := k)" and ct: "ctls a = (ctls s)(?c := SemaDown l)" by (simp_all add: a_def)
  note sc = sched_cong [OF f]
  have sa: "sched_inv a" using s sc(4) by simp
  let ?b = "park TASK_BLOCKED a"
  have stb: "st ?b u = (if u = ?c then Some TASK_BLOCKED else st s u)" for u by (simp add: st_park [OF sa] f sc)
  have fb: "locks ?b = locks a" "ctls ?b = ctls a" "idle_thread ?b = idle_thread s" by (simp_all add: park_def f)
  have ac: "active ?b u \<longleftrightarrow> active s u \<and> u \<noteq> ?c" for u by (auto simp: active_def stb)
  have w: "waiters (semaphore (locks ?b x)) = waiters (semaphore (locks s x)) @ (if x = l then [?c] else [])"
    "holder (locks ?b x) = holder (locks s x)" "sema_value (semaphore (locks ?b x)) = sema_value (semaphore (locks s x))" for x
    by (simp_all add: fb lk k_def)
  have "linv ?b"
  proof (rule linvI)
    show "lock_state (locks ?b x)" for x using p(1) [of x] by (auto simp: fb lk k_def lock_state_def)
    show "distinct (waiters (semaphore (locks ?b x)))" for x using p(2) nw by (simp add: w)
    have "?c \<notin> set (waiters (semaphore (locks s x)))" for x using p(3) [of ?c x] rn by simp
    then show "t \<in> set (waiters (semaphore (locks ?b x))) \<longleftrightarrow> ctls ?b t = SemaDown x \<and> st ?b t = Some TASK_BLOCKED" for x t
      using p(3) [of t x] by (auto simp: w fb(2,3) ct stb)
    show "t \<noteq> idle_thread ?b \<and> holder (locks ?b x) \<noteq> t \<and> (active ?b t \<or> st ?b t = Some TASK_BLOCKED)" if "ctls ?b t = SemaDown x" for x t
      using p(4-6) [of t x] that ni nh by (auto simp: w fb(2,3) ct stb ac split: if_splits)
    show "\<exists>t. ctls ?b t = SemaDown x \<and> active ?b t"
      if "sema_value (semaphore (locks ?b x)) = 1" "waiters (semaphore (locks ?b x)) \<noteq> []" for x
    proof -
      have "x \<noteq> l" using that(1) v by (auto simp: w)
      then have "sema_value (semaphore (locks s x)) = 1" "waiters (semaphore (locks s x)) \<noteq> []" using that by (simp_all add: w)
      then obtain t where "ctls s t = SemaDown x" "active s t" using p(7) by blast
      moreover then have "t \<noteq> ?c" using c \<open>x \<noteq> l\<close> by auto
      ultimately show ?thesis by (auto simp: ct fb(2) ac)
    qed
    show "st ?b (holder (locks ?b x)) \<noteq> None" if "holder (locks ?b x) \<noteq> 0" for x
      using p(8) [of x] that by (auto simp: w stb)
  qed
  then obtain s' where s': "thread_block TASK_BLOCKED a = Inr s'" "sched_inv s'" "linv s'" "keeps a s'"
    "st s' ?c = Some TASK_BLOCKED"
    using thread_block_ok [OF sa, of TASK_BLOCKED] ni by (auto simp: blocked_status_def f)
  have "lock_take l s = Inr s'"
    using v nw s'(1) by (simp add: lock_take_def sema_down_round_def upd_sema_def upd_lock_def a_def k_def)
  moreover have "same_life s a" by (simp add: same_life_def a_def)
  ultimately show ?thesis
    using that [of s'] s' same_life_trans [OF \<open>same_life s a\<close> keeps_same_life [OF s'(4)]] lk ct k_def
    by (simp add: keeps_def)
qed

text \<open>Taking or giving back one level of a lock the running thread already holds.\<close>

lemma lock_again_ok:
  assumes s: "sched_inv s" and l: "linv s" and h: "holder (locks s l) = running_thread s" and r: "r \<noteq> 0"
  defines "s' \<equiv> upd_lock l (\<lambda>k. k\<lparr>holder_repeat_nr := r\<rparr>) s"
  shows "sched_inv s'" "linv s'" "same_life s s'" "st s' = st s" "running_thread s' = running_thread s"
proof -
  have f: "tasks s' = tasks s" "thread_ready_list s' = thread_ready_list s" "running_thread s' = running_thread s"
    "idle_thread s' = idle_thread s" "tmem s' = tmem s" by (simp_all add: s'_def)
  note sc = sched_cong [OF f] and p = linvD [OF l]
  show "sched_inv s'" using s sc(4) by simp
  show "st s' = st s" "running_thread s' = running_thread s" using sc(1) f(3) by simp_all
  show "same_life s s'" by (simp add: same_life_def s'_def)
  have w: "semaphore (locks s' x) = semaphore (locks s x)" "holder (locks s' x) = holder (locks s x)" for x by (simp_all add: s'_def)
  have ct: "ctls s' = ctls s" by (simp add: s'_def)
  show "linv s'"
  proof (rule linvI)
    show "lock_state (locks s' x)" for x
      using p(1) [of x] r h running_nonzero [OF s] by (auto simp: s'_def lock_state_def)
  qed (use p in \<open>auto simp: w ct sc f\<close>)
qed

definition lock_freed :: "lock \<Rightarrow> lock" where
  "lock_freed k = \<lparr>holder = 0, semaphore = \<lparr>sema_value = 1, waiters = tl (waiters (semaphore k))\<rparr>, holder_repeat_nr = 0\<rparr>"

text \<open>The state after the last release: the head of the waiters is ready.\<close>

definition woken :: "lock \<Rightarrow> u32 set" where
  "woken k = (case waiters (semaphore k) of [] \<Rightarrow> {} | t # _ \<Rightarrow> {t})"

lemma release_linv:
  assumes q: "qinv s" and l: "linv s" and eq: "locks s' = (locks s)(l := lock_freed (locks s l))" "ctls s' = ctls s" "idle_thread s' = idle_thread s"
    and st': "\<And>u. st s' u = (if u \<in> woken (locks s l) then Some TASK_READY else st s u)"
  shows "linv s'"
proof (rule linvI)
  note p = linvD [OF l]
  let ?w = "waiters (semaphore (locks s l))"
  have wk: "t \<in> woken (locks s l) \<longleftrightarrow> t \<in> set ?w \<and> t \<notin> set (tl ?w)" for t
    using p(2) [of l] by (cases ?w) (auto simp: woken_def)
  have down: "ctls s t = SemaDown l \<and> st s t = Some TASK_BLOCKED" if "t \<in> woken (locks s l)" for t
    using that p(3) [of t l] by (simp add: wk)
  have ac: "active s' t \<longleftrightarrow> active s t \<or> t \<in> woken (locks s l)" for t by (auto simp: active_def st')
  show "lock_state (locks s' x)" for x using p(1) by (simp add: eq lock_state_def lock_freed_def)
  show "distinct (waiters (semaphore (locks s' x)))" for x using p(2) by (simp add: eq lock_freed_def distinct_tl)
  show "t \<in> set (waiters (semaphore (locks s' x))) \<longleftrightarrow> ctls s' t = SemaDown x \<and> st s' t = Some TASK_BLOCKED" for x t
  proof (cases "x = l")
    case True
    have "t \<in> set (tl ?w) \<Longrightarrow> t \<in> set ?w" by (rule list.set_sel(2) [rotated]) auto
    then show ?thesis using True p(3) [of t l] wk [of t] by (auto simp: eq lock_freed_def st')
  next
    case False
    then show ?thesis using p(3) [of t x] down [of t] by (auto simp: eq st')
  qed
  show "t \<noteq> idle_thread s' \<and> holder (locks s' x) \<noteq> t \<and> (active s' t \<or> st s' t = Some TASK_BLOCKED)" if "ctls s' t = SemaDown x" for x t
  proof -
    have c: "ctls s t = SemaDown x" using that eq by simp
    have "t \<noteq> 0" using p(6) [OF c] qinvD(1) [OF q] by (auto simp: active_def st_Some)
    then show ?thesis using p(4-6) [OF c] by (auto simp: eq ac st' lock_freed_def)
  qed
  show "\<exists>t. ctls s' t = SemaDown x \<and> active s' t"
    if "sema_value (semaphore (locks s' x)) = 1" "waiters (semaphore (locks s' x)) \<noteq> []" for x
  proof (cases "x = l")
    case True
    then have "?w \<noteq> []" using that(2) by (auto simp: eq lock_freed_def)
    then have "hd ?w \<in> woken (locks s l)" by (cases ?w) (simp_all add: woken_def)
    then show ?thesis using down True by (auto simp: eq ac)
  next
    case False
    then have "sema_value (semaphore (locks s x)) = 1" "waiters (semaphore (locks s x)) \<noteq> []" using that by (simp_all add: eq)
    then show ?thesis using p(7) by (auto simp: eq ac)
  qed
  show "st s' (holder (locks s' x)) \<noteq> None" if "holder (locks s' x) \<noteq> 0" for x
    using p(8) [of x] that by (auto simp: eq lock_freed_def st' split: if_splits)
qed

lemma lock_release_last:
  assumes s: "sched_inv s" and l: "linv s" and h: "holder (locks s l) = running_thread s"
    and r: "holder_repeat_nr (locks s l) = 1"
  obtains s' where "lock_release l s = Inr s'" and "sched_inv s'" and "linv s'" and "same_life s s'"
    and "running_thread s' = running_thread s" and "ctls s' = ctls s"
    and "locks s' = (locks s)(l := lock_freed (locks s l))"
    and "thread_ready_list s' = take 1 (waiters (semaphore (locks s l))) @ thread_ready_list s"
    and "\<And>u. st s' u = (if u \<in> woken (locks s l) then Some TASK_READY else st s u)"
proof -
  let ?w = "waiters (semaphore (locks s l))"
  note q = sched_invD(1) [OF s] and rn = sched_invD(2) [OF s]
  have v: "sema_value (semaphore (locks s l)) = 0" using linvD(1) [OF l, of l] r by (auto simp: lock_state_def)
  define b where "b = s\<lparr>locks := (locks s)(l := \<lparr>holder = 0, semaphore = \<lparr>sema_value = 0, waiters = tl ?w\<rparr>, holder_repeat_nr = 0\<rparr>)\<rparr>"
  have fb: "tasks b = tasks s" "thread_ready_list b = thread_ready_list s" "running_thread b = running_thread s"
    "idle_thread b = idle_thread s" "tmem b = tmem s" by (simp_all add: b_def)
  note sc = sched_cong [OF fb]
  have nw: "running_thread s \<notin> woken (locks s l)"
    using linvD(3) [OF l, of "running_thread s" l] rn by (auto simp: woken_def split: list.splits)
  have "\<exists>c. (case ?w of [] \<Rightarrow> Inr b | t # ws \<Rightarrow> thread_unblock t b) = Inr c \<and> qinv c \<and> keeps b c \<and>
      running_thread c = running_thread s \<and> thread_ready_list c = take 1 ?w @ thread_ready_list s \<and>
      (\<forall>u. st c u = (if u \<in> woken (locks s l) then Some TASK_READY else st s u))"
  proof (cases ?w)
    case Nil
    then show ?thesis using q by (simp add: sc fb woken_def)
  next
    case (Cons t ws)
    have "st b t = Some TASK_BLOCKED" using linvD(3) [OF l, of t l] Cons by (simp add: sc)
    moreover have "qinv b" using q by (simp add: sc)
    ultimately obtain c where "thread_unblock t b = Inr c" "qinv c" "thread_ready_list c = t # thread_ready_list b"
      "\<And>u. st c u = (if u = t then Some TASK_READY else st b u)" "keeps b c" "running_thread c = running_thread b"
      using thread_unblock_ok [of b t TASK_BLOCKED] by (auto simp: blocked_status_def)
    then show ?thesis using Cons by (simp add: sc fb woken_def)
  qed
  then obtain c where c: "(case ?w of [] \<Rightarrow> Inr b | t # ws \<Rightarrow> thread_unblock t b) = Inr c" "qinv c" "keeps b c"
      "running_thread c = running_thread s" "thread_ready_list c = take 1 ?w @ thread_ready_list s"
      "\<And>u. st c u = (if u \<in> woken (locks s l) then Some TASK_READY else st s u)" by blast
  define s' where "s' = upd_sema l (\<lambda>x. x\<lparr>sema_value := 1\<rparr>) c"
  have lc: "locks c = (locks s)(l := \<lparr>holder = 0, semaphore = \<lparr>sema_value = 0, waiters = tl ?w\<rparr>, holder_repeat_nr = 0\<rparr>)"
    "ctls c = ctls s" using c(3) by (simp_all add: keeps_def b_def)
  have eq: "lock_release l s = Inr s'"
    using h r v c(1) lc by (cases "locks s l"; cases "semaphore (locks s l)"; cases ?w)
      (simp_all add: lock_release_def sema_up_def upd_lock_def upd_sema_def b_def s'_def)
  have fs: "tasks s' = tasks c" "thread_ready_list s' = thread_ready_list c" "running_thread s' = running_thread c"
    "idle_thread s' = idle_thread c" "tmem s' = tmem c" by (simp_all add: s'_def upd_sema_def)
  note sc' = sched_cong [OF fs]
  have st': "st s' u = (if u \<in> woken (locks s l) then Some TASK_READY else st s u)" for u by (simp add: sc' c(6))
  have lk: "locks s' = (locks s)(l := lock_freed (locks s l))" by (simp add: s'_def upd_sema_def lc lock_freed_def)
  have ct: "ctls s' = ctls s" by (simp add: s'_def upd_sema_def lc)
  have "same_life b c" by (rule keeps_same_life [OF c(3)])
  then have life: "same_life s s'" by (simp add: same_life_def b_def s'_def upd_sema_def)
  then have "linv s'" by (intro release_linv [OF q l lk ct _ st']) (simp add: same_life_def)
  moreover have "sched_inv s'" using c(2) rn nw by (simp add: sched_inv_def sc' fs c(4) c(6))
  ultimately show ?thesis using that [OF eq _ _ life _ ct lk _ st'] fs c(4,5) by simp
qed

end
