(* ===== verification/Thread_Life.thy ===== *)
theory Thread_Life
  imports Locks
begin

text \<open>
  Creation and removal of threads: process identifiers are unique among the live threads, the list of
  all threads holds exactly them, and every PCB but the main thread's is an owned kernel page.
  \<^verbatim>\<open>thread_start\<close> and \<^verbatim>\<open>thread_exit\<close> keep this together with the invariants of the scheduler and the locks.
\<close>

section \<open>The invariant of the live threads\<close>

definition pid_of :: "kthreads \<Rightarrow> u32 \<Rightarrow> int option" where
  "pid_of s t = map_option pid (tasks s t)"

definition pids_ok :: "(u32 \<Rightarrow> int option) \<Rightarrow> bitmap \<Rightarrow> bool" where
  "pids_ok p b \<longleftrightarrow> wf_bitmap b \<and> bm_cap b = 1024 \<and>
     (\<forall>j < 1024. bm_bit b j \<longleftrightarrow> (\<exists>t. p t = Some (int j + 1))) \<and>
     (\<forall>t i. p t = Some i \<longrightarrow> 1 \<le> i \<and> i \<le> 1024) \<and>
     (\<forall>t u i. p t = Some i \<and> p u = Some i \<longrightarrow> t = u)"

definition life_inv :: "kthreads \<Rightarrow> bool" where
  "life_inv s \<longleftrightarrow> pids_ok (pid_of s) (pid_bitmap s) \<and> distinct (thread_all_list s) \<and>
     set (thread_all_list s) = dom (tasks s) \<and> main_thread s \<in> dom (tasks s) \<and> main_thread s < 0xc0100000 \<and>
     idle_thread s \<noteq> main_thread s \<and> pages_ok PF_KERNEL (dom (tasks s) - {main_thread s}) (tmem s)"

lemma life_invD:
  assumes "life_inv s"
  shows "pids_ok (pid_of s) (pid_bitmap s)" and "distinct (thread_all_list s)" and "set (thread_all_list s) = dom (tasks s)"
    and "main_thread s \<in> dom (tasks s)" and "main_thread s < 0xc0100000" and "idle_thread s \<noteq> main_thread s"
    and "pages_ok PF_KERNEL (dom (tasks s) - {main_thread s}) (tmem s)"
  using assms unfolding life_inv_def by blast+

lemma pages_ok_base: "pages_ok PF_KERNEL S (mem_base m) = pages_ok PF_KERNEL S m"
  by (simp add: mem_base_def)

lemma life_inv_cong:
  assumes l: "life_inv s" and e: "same_life s s'"
  shows "life_inv s'"
proof -
  have p: "pid_of s' = pid_of s" using e by (simp add: same_life_def pid_of_def fun_eq_iff)
  have "(tasks s' t = None) = (tasks s t = None)" for t
    using e option.map_disc_iff [of pid] unfolding same_life_def by metis
  then have d: "dom (tasks s') = dom (tasks s)" unfolding dom_def by simp
  have "pages_ok PF_KERNEL S (tmem s') = pages_ok PF_KERNEL S (tmem s)" for S
    using e pages_ok_base unfolding same_life_def by metis
  then show ?thesis using l e p d by (simp add: life_inv_def same_life_def)
qed

lemma pids_okD:
  assumes "pids_ok p b"
  shows "wf_bitmap b" "bm_cap b = 1024" "\<And>j. j < 1024 \<Longrightarrow> bm_bit b j \<longleftrightarrow> (\<exists>t. p t = Some (int j + 1))"
    "\<And>t i. p t = Some i \<Longrightarrow> 1 \<le> i \<and> i \<le> 1024" "\<And>t u i. p t = Some i \<Longrightarrow> p u = Some i \<Longrightarrow> t = u"
  using assms unfolding pids_ok_def by blast+

lemma pids_okI:
  assumes "wf_bitmap b" "bm_cap b = 1024" "\<And>j. j < 1024 \<Longrightarrow> bm_bit b j \<longleftrightarrow> (\<exists>t. p t = Some (int j + 1))"
    "\<And>t i. p t = Some i \<Longrightarrow> 1 \<le> i \<and> i \<le> 1024" "\<And>t u i. p t = Some i \<Longrightarrow> p u = Some i \<Longrightarrow> t = u"
  shows "pids_ok p b"
  using assms unfolding pids_ok_def by blast

lemma ex_upd_Some: "p t = None \<Longrightarrow> (\<exists>u. (p(t \<mapsto> i)) u = Some x) \<longleftrightarrow> x = i \<or> (\<exists>u. p u = Some x)"
  by (metis fun_upd_apply option.inject option.distinct(1))

lemma ex_del_Some:
  assumes "p t = Some i" and "\<forall>u. p u = Some i \<longrightarrow> u = t"
  shows "(\<exists>u. (p(t := None)) u = Some x) \<longleftrightarrow> x \<noteq> i \<and> (\<exists>u. p u = Some x)"
proof
  assume "\<exists>u. (p(t := None)) u = Some x"
  then obtain u where "u \<noteq> t" "p u = Some x" by (auto split: if_splits)
  then show "x \<noteq> i \<and> (\<exists>u. p u = Some x)" using assms(2) by blast
next
  assume "x \<noteq> i \<and> (\<exists>u. p u = Some x)"
  then obtain u where u: "x \<noteq> i" "p u = Some x" by blast
  then have "u \<noteq> t" using assms(1) by auto
  then show "\<exists>u. (p(t := None)) u = Some x" using u by auto
qed

lemma pids_ok_alloc:
  assumes ok: "pids_ok p b" and free: "\<exists>j < 1024. \<not> bm_bit b j" and t: "p t = None"
  obtains i b' where "allocate_pid b = Inr (i, b')" and "pids_ok (p(t \<mapsto> i)) b'" and "\<forall>u. p u \<noteq> Some i"
proof -
  have b: "wf_bitmap b" "bm_cap b = 1024" using ok by (simp_all add: pids_ok_def)
  have "bm.free_bits b \<noteq> {}" using free b by (auto simp: bm.free_bits_def)
  from bm.alloc_one [OF b(1) this] obtain i b' where
    i: "bitmap_scan b 1 = Inr (int i)" "bitmap_set b i 1 = Inr b'" "i \<in> bm.free_bits b" "wf_bitmap b'" "bm_cap b' = bm_cap b"
      "\<forall>j. bm_bit b' j \<longleftrightarrow> j = i \<or> bm_bit b j" by metis
  have ni: "p u \<noteq> Some (int i + 1)" for u
    using ok i(3) b by (auto simp: bm.free_bits_def pids_ok_def)
  have "i < 1024" using i(3) b by (simp add: bm.free_bits_def)
  have "bm_bit b' j \<longleftrightarrow> (\<exists>u. (p(t \<mapsto> int i + 1)) u = Some (int j + 1))" if "j < 1024" for j
  proof -
    have "bm_bit b j \<longleftrightarrow> (\<exists>u. p u = Some (int j + 1))" using ok that by (simp add: pids_ok_def)
    then show ?thesis using i(6) ex_upd_Some [of p t "int i + 1" "int j + 1"] t by auto
  qed
  then have "pids_ok (p(t \<mapsto> int i + 1)) b'"
    using i(4,5) b ni \<open>i < 1024\<close> pids_okD(4,5) [OF ok] by (intro pids_okI) (auto split: if_splits)
  moreover have "allocate_pid b = Inr (int i + 1, b')" using i by (simp add: allocate_pid_def)
  ultimately show ?thesis using that ni by blast
qed

lemma pids_ok_release:
  assumes ok: "pids_ok p b" and t: "p t = Some i"
  obtains b' where "release_pid i b = Inr b'" and "pids_ok (p(t := None)) b'"
proof -
  have b: "wf_bitmap b" "bm_cap b = 1024" and r: "1 \<le> i" "i \<le> 1024" using ok t by (auto simp: pids_ok_def)
  then have "nat (i - 1) < bm_cap b" by simp
  from bm.setb_ok [OF b(1) this, of 0] obtain b' where b': "bitmap_set b (nat (i - 1)) 0 = Inr b'" "wf_bitmap b'" "bm_cap b' = bm_cap b"
    "\<forall>j. bm_bit b' j = (if j = nat (i - 1) then (0 :: int) = 1 else bm_bit b j)" by blast
  have bb: "bm_bit b' j \<longleftrightarrow> (\<exists>u. (p(t := None)) u = Some (int j + 1))" if "j < 1024" for j
  proof -
    have "bm_bit b j \<longleftrightarrow> (\<exists>u. p u = Some (int j + 1))" using ok that by (simp add: pids_ok_def)
    moreover have "j = nat (i - 1) \<longleftrightarrow> int j + 1 = i" using r by auto
    moreover have "(\<exists>u. (p(t := None)) u = Some (int j + 1)) \<longleftrightarrow> int j + 1 \<noteq> i \<and> (\<exists>u. p u = Some (int j + 1))"
      by (rule ex_del_Some) (use t pids_okD(5) [OF ok] in blast)+
    moreover have "bm_bit b' j \<longleftrightarrow> j \<noteq> nat (i - 1) \<and> bm_bit b j" using spec [OF b'(4), of j] by simp
    ultimately show ?thesis by simp
  qed
  have "pids_ok (p(t := None)) b'"
  proof (rule pids_okI)
    show "bm_cap b' = 1024" using b'(3) b(2) by simp
    show "1 \<le> i \<and> i \<le> 1024" if "(p(t := None)) u = Some i" for u i
      using that pids_okD(4) [OF ok, of u i] by (simp split: if_splits)
    show "u = v" if "(p(t := None)) u = Some i" "(p(t := None)) v = Some i" for u v i
      using that pids_okD(5) [OF ok, of u i v] by (simp split: if_splits)
  qed (use b' bb in auto)
  then show ?thesis using that b'(1) by (simp add: release_pid_def)
qed

lemma kernel_page_high:
  assumes "pages_ok PF_KERNEL S m" and "a \<in> S"
  shows "0xc0100000 \<le> a"
proof -
  let ?va = "vpool PF_KERNEL m"
  obtain j where j: "j < bm_cap (vaddr_bitmap ?va)" "a = pg (vaddr_start ?va) j"
    using assms by (auto simp: pages_ok_def vpage_def)
  have "wf_vpool PF_KERNEL m" using assms by (simp add: pages_ok_def)
  then have v: "0xc0100000 \<le> unat (vaddr_start ?va)" "unat (vaddr_start ?va) + bm_cap (vaddr_bitmap ?va) * 4096 \<le> 0xffc00000"
    by (simp_all add: wf_vpool_def vrange_def Let_def)
  then have "unat a = unat (vaddr_start ?va) + j * 4096" using j unat_pg [of "vaddr_start ?va" j] by simp
  then show ?thesis using v(1) by (simp add: word_le_nat_alt)
qed

section \<open>Creation\<close>

lemma init_thread_ok:
  assumes "holds_str name nm" "length nm < 16"
  obtains k where "init_thread m t p name prio = Inr k" and "pid k = p" and "status k = (if t = m then TASK_RUNNING else TASK_READY)"
    and "stack_magic k = 0x19870916" and "tpgdir k = 0" and "priority k = prio" and "ticks k = prio"
  using assms strcpy_loop_eq [of name nm "replicate 16 0"] by (simp add: init_thread_def strcpy_def)

lemma no_ctl:
  assumes "linv s" and "tasks s t = None"
  shows "ctls s t = Run"
proof -
  have st: "st s t = None" using assms(2) by (simp add: st_def)
  show ?thesis using linvD(6) [OF assms(1), of t] st by (cases "ctls s t") (auto simp: active_def)
qed

lemma thread_start_ok:
  assumes s: "sched_inv s" and l: "linv s" and lf: "life_inv s" and can: "can_alloc PF_KERNEL 1 (tmem s)"
    and free: "\<exists>j < 1024. \<not> bm_bit (pid_bitmap s) j" and nm: "holds_str name nm" "length nm < 16"
  obtains t s' where "thread_start name prio function func_arg s = Inr (t, s')" and "tasks s t = None"
    and "sched_inv s'" and "linv s'" and "life_inv s'" and "st s' t = Some TASK_READY"
    and "thread_ready_list s' = thread_ready_list s @ [t]" and "\<And>u. u \<noteq> t \<Longrightarrow> tasks s' u = tasks s u"
    and "locks s' = locks s" and "ctls s' = ctls s" and "running_thread s' = running_thread s" and "idle_thread s' = idle_thread s"
proof -
  note q = qinvD [OF sched_invD(1) [OF s]] and lp = life_invD [OF lf]
  obtain t m where m: "get_pages PF_KERNEL 1 (tmem s) = Inr (t, m)" "t \<noteq> 0"
    "pages_ok PF_KERNEL (insert t (dom (tasks s) - {main_thread s})) m" "t \<notin> dom (tasks s) - {main_thread s}"
    "cr3 m = cr3 (tmem s)"
    by (rule get_page_ok [OF lp(7) can]) blast
  have "0xc0100000 \<le> t" using kernel_page_high [OF m(3)] by blast
  then have tm: "t \<noteq> main_thread s" using lp(5) by auto
  then have tn: "tasks s t = None" using m(4) by auto
  obtain p b where pb: "allocate_pid (pid_bitmap s) = Inr (p, b)" "pids_ok ((pid_of s)(t \<mapsto> p)) b"
    by (rule pids_ok_alloc [OF lp(1) free, of t]) (use tn in \<open>auto simp: pid_of_def\<close>)
  obtain k where k: "init_thread (main_thread s) t p name prio = Inr k" "pid k = p" "status k = TASK_READY"
    "stack_magic k = 0x19870916" "tpgdir k = 0"
    using init_thread_ok [OF nm] tm by metis
  define k' where "k' = thread_create function func_arg k"
  have k': "pid k' = p" "status k' = TASK_READY" "stack_magic k' = 0x19870916" "tpgdir k' = 0"
    using k by (simp_all add: k'_def thread_create_def)
  define s' where "s' = s\<lparr>tmem := m, pid_bitmap := b, tasks := (tasks s)(t \<mapsto> k'), ctls := (ctls s)(t := Run),
     thread_ready_list := thread_ready_list s @ [t], thread_all_list := thread_all_list s @ [t]\<rparr>"
  have nr: "t \<notin> set (thread_ready_list s)" using q(3) [of t] tn by (simp add: st_def)
  have na: "t \<notin> set (thread_all_list s)" using lp(3) tn by auto
  have eq: "thread_start name prio function func_arg s = Inr (t, s')"
    using m(1,2) pb(1) k(1) nr na by (simp add: thread_start_def get_kernel_pages_def s'_def k'_def)
  have f: "tasks s' = (tasks s)(t \<mapsto> k')" "thread_ready_list s' = thread_ready_list s @ [t]"
    "running_thread s' = running_thread s" "idle_thread s' = idle_thread s" "locks s' = locks s" "tmem s' = m"
    "main_thread s' = main_thread s" "thread_all_list s' = thread_all_list s @ [t]" "pid_bitmap s' = b" by (simp_all add: s'_def)
  have ct: "ctls s' = ctls s" using no_ctl [OF l tn] by (simp add: s'_def fun_eq_iff)
  have st': "st s' u = (if u = t then Some TASK_READY else st s u)" for u by (simp add: st_def f k')
  have stn: "st s t = None" using tn by (simp add: st_def)
  have "qinv s'"
  proof (rule qinvI)
    show "u \<noteq> 0 \<and> stack_magic y = 0x19870916 \<and> tpgdir y = 0" if "tasks s' u = Some y" for u y
      using that q(1) k' m(2) by (auto simp: f split: if_splits)
    show "distinct (thread_ready_list s')" using q(2) nr by (simp add: f)
    show "u \<in> set (thread_ready_list s') \<longleftrightarrow> st s' u = Some TASK_READY" for u using q(3) by (auto simp: f st')
    show "u = running_thread s'" if "st s' u = Some TASK_RUNNING" for u using that q(4) by (auto simp: f st' split: if_splits)
    show "st s' (running_thread s') \<noteq> None" using q(5) by (simp add: f st')
    show "st s' (idle_thread s') \<in> {Some TASK_RUNNING, Some TASK_READY, Some TASK_BLOCKED}" using q(6) by (simp add: f st')
    show "cr3 (tmem s') = 0x100000" using q(7) m(5) by (simp add: f)
  qed
  moreover have "running_thread s \<noteq> t" using sched_invD(2) [OF s] stn by auto
  ultimately have "sched_inv s'" using sched_invD(2) [OF s] by (simp add: sched_inv_def f st')
  moreover have "linv s'"
    by (rule linv_cong [OF l f(5) ct f(4)]) (use no_ctl [OF l tn] in \<open>auto simp: st' active_def\<close>)
  moreover have "life_inv s'"
  proof -
    have "pid_of s' = (pid_of s)(t \<mapsto> p)" by (simp add: fun_eq_iff pid_of_def f k')
    moreover have "dom (tasks s') - {main_thread s'} = insert t (dom (tasks s) - {main_thread s})" using tm by (auto simp: f)
    ultimately show ?thesis using lp pb(2) m(3) na by (simp add: life_inv_def f)
  qed
  ultimately show ?thesis using that [OF eq tn _ _ _ _ f(2) _ f(5) ct f(3,4)] f st' by simp
qed

section \<open>Removal\<close>

text \<open>\<^verbatim>\<open>sys_wait\<close> removes a child that hangs in \<^verbatim>\<open>sys_exit\<close>.\<close>

lemma thread_exit_ok:
  assumes s: "sched_inv s" and l: "linv s" and lf: "life_inv s" and t: "st s t = Some TASK_HANGING"
    and nm: "t \<noteq> main_thread s" and nh: "\<forall>l. holder (locks s l) \<noteq> t"
  obtains s' where "thread_exit t False s = Inr s'" and "sched_inv s'" and "linv s'" and "life_inv s'"
    and "tasks s' = (tasks s)(t := None)" and "thread_ready_list s' = thread_ready_list s"
    and "locks s' = locks s" and "ctls s' = ctls s" and "running_thread s' = running_thread s" and "idle_thread s' = idle_thread s"
proof -
  note q = qinvD [OF sched_invD(1) [OF s]] and lp = life_invD [OF lf]
  let ?S = "dom (tasks s) - {main_thread s}" let ?va = "vpool PF_KERNEL (tmem s)"
  obtain k where k: "tasks s t = Some k" using t by (auto simp: st_Some)
  have kp: "tpgdir k = 0" using q(1) [OF k] by simp
  have nr: "t \<notin> set (thread_ready_list s)" using q(3) [of t] t by simp
  have tS: "t \<in> ?S" using k nm by auto
  then obtain j where j: "j < bm_cap (vaddr_bitmap ?va)" "t = pg (vaddr_start ?va) j"
    using lp(7) by (auto simp: pages_ok_def vpage_def)
  obtain m where m: "mfree_page PF_KERNEL t 1 (tmem s) = Inr m" "pages_ok PF_KERNEL (?S - {t}) m" "cr3 m = cr3 (tmem s)"
    by (rule mfree_pages_ok [OF lp(7), of j 1]) (use tS j in auto)
  obtain b where b: "release_pid (pid k) (pid_bitmap s) = Inr b" "pids_ok ((pid_of s)(t := None)) b"
    by (rule pids_ok_release [OF lp(1), of t "pid k"]) (use k in \<open>auto simp: pid_of_def\<close>)
  define s' where "s' = s\<lparr>tasks := (tasks s)(t := None), tmem := m, pid_bitmap := b, thread_all_list := remove1 t (thread_all_list s)\<rparr>"
  have eq: "thread_exit t False s = Inr s'"
    using k kp nr nm m(1) b(1) by (simp add: thread_exit_def task_def upd_task_def s'_def Let_def)
  have f: "tasks s' = (tasks s)(t := None)" "thread_ready_list s' = thread_ready_list s"
    "running_thread s' = running_thread s" "idle_thread s' = idle_thread s" "locks s' = locks s" "tmem s' = m" "ctls s' = ctls s"
    "main_thread s' = main_thread s" "thread_all_list s' = remove1 t (thread_all_list s)" "pid_bitmap s' = b" by (simp_all add: s'_def)
  have st': "st s' u = (if u = t then None else st s u)" for u by (simp add: st_def f)
  have ct: "ctls s t = Run" using linvD(6) [OF l, of t] t by (cases "ctls s t") (auto simp: active_def)
  have nrun: "t \<noteq> running_thread s" "t \<noteq> idle_thread s" using sched_invD(2) [OF s] q(6) t by auto
  have "qinv s'"
  proof (rule qinvI)
    show "u \<noteq> 0 \<and> stack_magic y = 0x19870916 \<and> tpgdir y = 0" if "tasks s' u = Some y" for u y
      using that q(1) by (auto simp: f split: if_splits)
    show "distinct (thread_ready_list s')" using q(2) by (simp add: f)
    show "u \<in> set (thread_ready_list s') \<longleftrightarrow> st s' u = Some TASK_READY" for u using q(3) nr t by (auto simp: f st')
    show "u = running_thread s'" if "st s' u = Some TASK_RUNNING" for u using that q(4) by (auto simp: f st' split: if_splits)
    show "st s' (running_thread s') \<noteq> None" using q(5) nrun by (simp add: f st')
    show "st s' (idle_thread s') \<in> {Some TASK_RUNNING, Some TASK_READY, Some TASK_BLOCKED}" using q(6) nrun by (simp add: f st')
    show "cr3 (tmem s') = 0x100000" using q(7) m(3) by (simp add: f)
  qed
  then have "sched_inv s'" using sched_invD(2) [OF s] nrun by (simp add: sched_inv_def f st')
  moreover have "linv s'"
  proof (rule linvI)
    note p = linvD [OF l]
    have ac: "active s' u \<longleftrightarrow> active s u" for u using t by (auto simp: active_def st')
    show "lock_state (locks s' x)" "distinct (waiters (semaphore (locks s' x)))" for x using p(1,2) by (simp_all add: f)
    show "u \<in> set (waiters (semaphore (locks s' x))) \<longleftrightarrow> ctls s' u = SemaDown x \<and> st s' u = Some TASK_BLOCKED" for x u
      using p(3) [of u x] t by (auto simp: f st')
    show "u \<noteq> idle_thread s' \<and> holder (locks s' x) \<noteq> u \<and> (active s' u \<or> st s' u = Some TASK_BLOCKED)" if "ctls s' u = SemaDown x" for x u
      using p(4-6) [of u x] that ct by (auto simp: f st' ac)
    show "\<exists>u. ctls s' u = SemaDown x \<and> active s' u"
      if "sema_value (semaphore (locks s' x)) = 1" "waiters (semaphore (locks s' x)) \<noteq> []" for x
      using p(7) [of x] that by (simp add: f ac)
    show "st s' (holder (locks s' x)) \<noteq> None" if "holder (locks s' x) \<noteq> 0" for x
      using p(8) [of x] that nh by (simp add: f st')
  qed
  moreover have "life_inv s'"
  proof -
    have "pid_of s' = (pid_of s)(t := None)" by (simp add: fun_eq_iff pid_of_def f)
    moreover have "dom (tasks s') - {main_thread s'} = ?S - {t}" by (auto simp: f)
    moreover have "set (remove1 t (thread_all_list s)) = dom (tasks s) - {t}" using lp(2,3) by (simp add: set_remove1_eq)
    ultimately show ?thesis using lp b(2) m(2) nm by (simp add: life_inv_def f distinct_remove1)
  qed
  ultimately show ?thesis using that [OF eq _ _ _ f(1) f(2) f(5) f(7) f(3) f(4)] by simp
qed

end
