(* ===== verification/Kernel_Run.thy ===== *)
theory Kernel_Run
  imports Thread_Life
begin

text \<open>
  The running kernel as a transition system over events: what the current thread may do, the timer,
  creation and removal of threads, interleaved in any order. A run records the acquisitions and
  releases of locks that have completed.
\<close>

section \<open>Events\<close>

datatype event =
    Tick                            \<comment> \<open>timer interrupt\<close>
  | Yield                           \<comment> \<open>\<^verbatim>\<open>thread_yield\<close>\<close>
  | Block task_status               \<comment> \<open>\<^verbatim>\<open>thread_block\<close> by the current thread\<close>
  | Unblock u32                     \<comment> \<open>\<^verbatim>\<open>thread_unblock\<close> of a thread that blocked itself\<close>
  | Acquire nat                     \<comment> \<open>\<^verbatim>\<open>lock_acquire\<close>\<close>
  | Resume nat                      \<comment> \<open>the current thread continues in \<^verbatim>\<open>sema_down\<close>\<close>
  | Release nat                     \<comment> \<open>\<^verbatim>\<open>lock_release\<close>\<close>
  | Start "u8 list" u8 u32 u32      \<comment> \<open>\<^verbatim>\<open>thread_start\<close>\<close>
  | Reap u32                        \<comment> \<open>\<^verbatim>\<open>thread_exit\<close> of a hanging thread\<close>

fun exec :: "event \<Rightarrow> kthreads \<Rightarrow> kthreads result" where
  "exec Tick s = intr_timer_handler s"
| "exec Yield s = thread_yield s"
| "exec (Block x) s = thread_block x s"
| "exec (Unblock t) s = thread_unblock t s"
| "exec (Acquire l) s = lock_acquire l s"
| "exec (Resume l) s = lock_take l s"
| "exec (Release l) s = lock_release l s"
| "exec (Start name prio f a) s = mapR snd (thread_start name prio f a s)"
| "exec (Reap t) s = thread_exit t False s"

text \<open>When an event can happen. Inside \<^verbatim>\<open>sema_down\<close> interrupts are off, so a thread that runs there can only
  continue there. The idle thread takes no locks and only ever blocks as \<open>TASK_BLOCKED\<close>; a lock is not
  nested \<open>2 ^ 32\<close> deep; a thread that waits for a lock is woken by its release only; a thread is created when
  a page and a pid are left, with a name that fits, and removed when it hangs and holds no lock.\<close>

fun allowed :: "event \<Rightarrow> kthreads \<Rightarrow> bool" where
  "allowed (Resume l) s \<longleftrightarrow> ctls s (running_thread s) = SemaDown l"
| "allowed (Block x) s \<longleftrightarrow> ctls s (running_thread s) = Run \<and> blocked_status x \<and>
     (running_thread s = idle_thread s \<longrightarrow> x = TASK_BLOCKED)"
| "allowed (Unblock t) s \<longleftrightarrow> ctls s (running_thread s) = Run \<and> ctls s t = Run \<and>
     (\<exists>x. st s t = Some x \<and> blocked_status x)"
| "allowed (Acquire l) s \<longleftrightarrow> ctls s (running_thread s) = Run \<and> running_thread s \<noteq> idle_thread s \<and>
     (holder (locks s l) = running_thread s \<longrightarrow> holder_repeat_nr (locks s l) \<noteq> -1)"
| "allowed (Release l) s \<longleftrightarrow> ctls s (running_thread s) = Run \<and> holder (locks s l) = running_thread s"
| "allowed (Start name prio f a) s \<longleftrightarrow> ctls s (running_thread s) = Run \<and> can_alloc PF_KERNEL 1 (tmem s) \<and>
     (\<exists>j < 1024. \<not> bm_bit (pid_bitmap s) j) \<and> (\<exists>nm. holds_str name nm \<and> length nm < 16)"
| "allowed (Reap t) s \<longleftrightarrow> ctls s (running_thread s) = Run \<and> st s t = Some TASK_HANGING \<and> t \<noteq> main_thread s \<and>
     (\<forall>l. holder (locks s l) \<noteq> t)"
| "allowed _ s \<longleftrightarrow> ctls s (running_thread s) = Run"

definition kinv :: "kthreads \<Rightarrow> bool" where
  "kinv s \<longleftrightarrow> sched_inv s \<and> linv s \<and> life_inv s"

text \<open>What an event does to the abstract view of a lock: who holds it, how many times.\<close>

definition owner :: "kthreads \<Rightarrow> nat \<Rightarrow> (u32 \<times> nat) option" where
  "owner s l = (let k = locks s l in if holder k = 0 then None else Some (holder k, unat (holder_repeat_nr k)))"

definition own_inc :: "u32 \<Rightarrow> (u32 \<times> nat) option \<Rightarrow> (u32 \<times> nat) option" where
  "own_inc t o' = Some (t, case o' of None \<Rightarrow> 1 | Some (_, n) \<Rightarrow> Suc n)"

definition own_dec :: "(u32 \<times> nat) option \<Rightarrow> (u32 \<times> nat) option" where
  "own_dec o' = (case o' of None \<Rightarrow> None | Some (t, n) \<Rightarrow> if n \<le> 1 then None else Some (t, n - 1))"

datatype act = Tau | Got u32 nat | Rel u32 nat

text \<open>The completed lock operation of an event, if any: an acquisition is complete when the thread is
  back in its own code.\<close>

definition label :: "event \<Rightarrow> kthreads \<Rightarrow> kthreads \<Rightarrow> act" where
  "label e s s' = (let c = running_thread s in case e of
       Acquire l \<Rightarrow> if ctls s' c = Run then Got c l else Tau
     | Resume l \<Rightarrow> if ctls s' c = Run then Got c l else Tau
     | Release l \<Rightarrow> Rel c l
     | _ \<Rightarrow> Tau)"

definition own_step :: "act \<Rightarrow> (nat \<Rightarrow> (u32 \<times> nat) option) \<Rightarrow> (nat \<Rightarrow> (u32 \<times> nat) option) \<Rightarrow> bool" where
  "own_step a o1 o2 \<longleftrightarrow> (case a of
       Tau \<Rightarrow> o2 = o1
     | Got t l \<Rightarrow> (o1 l = None \<or> (\<exists>n. o1 l = Some (t, n))) \<and> o2 = o1(l := own_inc t (o1 l))
     | Rel t l \<Rightarrow> (\<exists>n. o1 l = Some (t, n)) \<and> o2 = o1(l := own_dec (o1 l)))"

lemma owner_cong: "locks s' = locks s \<Longrightarrow> owner s' = owner s"
  by (simp add: fun_eq_iff owner_def)

lemma keeps_owner: "keeps s s' \<Longrightarrow> owner s' = owner s"
  by (rule owner_cong) (simp add: keeps_def)

lemma owner_None: "linv s \<Longrightarrow> owner s l = None \<longleftrightarrow> sema_value (semaphore (locks s l)) = 1"
  using linvD(1) [of s l] by (auto simp: owner_def lock_state_def Let_def)

text \<open>One lemma per kind of event: it returns, keeps the invariant and acts on the owners as its label says.\<close>

definition step_ok :: "event \<Rightarrow> kthreads \<Rightarrow> bool" where
  "step_ok e s \<longleftrightarrow> (\<exists>s'. exec e s = Inr s' \<and> kinv s' \<and> own_step (label e s s') (owner s) (owner s'))"

lemma step_okI:
  "exec e s = Inr s' \<Longrightarrow> sched_inv s' \<Longrightarrow> linv s' \<Longrightarrow> life_inv s' \<Longrightarrow> own_step (label e s s') (owner s) (owner s') \<Longrightarrow> step_ok e s"
  by (auto simp: step_ok_def kinv_def)

lemma sched_step:
  assumes "kinv s" and "allowed e s" and "e \<in> {Tick, Yield} \<union> range Block \<union> range Unblock"
  shows "step_ok e s"
proof -
  have i: "sched_inv s" "linv s" "life_inv s" using assms(1) by (simp_all add: kinv_def)
  have "\<exists>s'. exec e s = Inr s' \<and> sched_inv s' \<and> linv s' \<and> keeps s s'"
  proof (cases e)
    case Tick
    then show ?thesis using intr_timer_handler_ok [OF i(1,2)] by (metis exec.simps(1))
  next
    case Yield
    then show ?thesis using thread_yield_ok [OF i(1,2)] by (metis exec.simps(2))
  next
    case (Block x)
    then have "blocked_status x" "running_thread s = idle_thread s \<longrightarrow> x = TASK_BLOCKED" "linv (park x s)"
      using assms(2) park_linv_Run [OF i(1,2)] by auto
    then show ?thesis using thread_block_ok [OF i(1)] Block by (metis exec.simps(3))
  next
    case (Unblock t)
    then obtain x where "st s t = Some x" "blocked_status x" "ctls s t = Run" using assms(2) by auto
    then show ?thesis using unblock_linv [OF i(1,2)] Unblock by (metis exec.simps(4))
  qed (use assms(3) in auto)
  then obtain s' where s': "exec e s = Inr s'" "sched_inv s'" "linv s'" "keeps s s'" by blast
  have "label e s s' = Tau" using assms(3) by (auto simp: label_def Let_def)
  then show ?thesis
    using step_okI [OF s'(1-3)] life_inv_cong [OF i(3) keeps_same_life [OF s'(4)]] keeps_owner [OF s'(4)] by (simp add: own_step_def)
qed

lemma life_step:
  assumes "kinv s" and "allowed e s" and "(\<exists>n p f a. e = Start n p f a) \<or> e \<in> range Reap"
  shows "step_ok e s"
proof -
  have i: "sched_inv s" "linv s" "life_inv s" using assms(1) by (simp_all add: kinv_def)
  have "\<exists>s'. exec e s = Inr s' \<and> sched_inv s' \<and> linv s' \<and> life_inv s' \<and> locks s' = locks s"
  proof (cases e)
    case (Start n p f a)
    then obtain nm where a: "can_alloc PF_KERNEL 1 (tmem s)" "\<exists>j < 1024. \<not> bm_bit (pid_bitmap s) j" "holds_str n nm" "length nm < 16"
      using assms(2) by auto
    then show ?thesis using thread_start_ok [OF i a, of p f a] Start by (metis exec.simps(8) mapR_simps(2) snd_conv)
  next
    case (Reap t)
    then have "st s t = Some TASK_HANGING" "t \<noteq> main_thread s" "\<forall>l. holder (locks s l) \<noteq> t" using assms(2) by auto
    then show ?thesis using thread_exit_ok [OF i] Reap by (metis exec.simps(9))
  qed (use assms(3) in auto)
  then obtain s' where s': "exec e s = Inr s'" "sched_inv s'" "linv s'" "life_inv s'" "locks s' = locks s" by blast
  have "label e s s' = Tau" using assms(3) by (auto simp: label_def Let_def)
  then show ?thesis using step_okI [OF s'(1-4)] owner_cong [OF s'(5)] by (simp add: own_step_def)
qed

lemma take_step:
  assumes "kinv s" and c: "ctls s (running_thread s) \<in> {Run, SemaDown l}" and ni: "running_thread s \<noteq> idle_thread s"
    and nh: "holder (locks s l) \<noteq> running_thread s" and e: "e \<in> {Acquire l, Resume l}" "exec e s = lock_take l s"
  shows "step_ok e s"
proof -
  have i: "sched_inv s" "linv s" "life_inv s" using assms(1) by (simp_all add: kinv_def)
  note on = owner_None [OF i(2), of l]
  have lab: "label e s s' = (if ctls s' (running_thread s) = Run then Got (running_thread s) l else Tau)" for s'
    using e(1) by (auto simp: label_def Let_def)
  from linvD(1) [OF i(2), of l] show ?thesis
  proof (cases rule: lock_state_cases)
    case free
    obtain s' where s': "lock_take l s = Inr s'" "sched_inv s'" "linv s'" "same_life s s'" "ctls s' = (ctls s)(running_thread s := Run)"
      "locks s' = (locks s)(l := \<lparr>holder = running_thread s, semaphore = (semaphore (locks s l))\<lparr>sema_value := 0\<rparr>, holder_repeat_nr = 1\<rparr>)"
      by (rule lock_take_free [OF i(1,2) free(1) c]) blast
    have "owner s' = (owner s)(l := Some (running_thread s, 1))"
      using running_nonzero [OF i(1)] by (auto simp: fun_eq_iff owner_def s'(6) Let_def)
    then have "own_step (label e s s') (owner s) (owner s')"
      using on free(1) s'(5) by (simp add: lab own_step_def own_inc_def)
    then show ?thesis using step_okI [of e s s'] e(2) s'(1-3) life_inv_cong [OF i(3) s'(4)] by simp
  next
    case held
    obtain s' where s': "lock_take l s = Inr s'" "sched_inv s'" "linv s'" "same_life s s'" "ctls s' = (ctls s)(running_thread s := SemaDown l)"
      "locks s' = (locks s)(l := (locks s l)\<lparr>semaphore := (semaphore (locks s l))
           \<lparr>waiters := waiters (semaphore (locks s l)) @ [running_thread s]\<rparr>\<rparr>)"
      by (rule lock_take_held [OF i(1,2) held(1) c ni nh]) blast
    have "owner s' = owner s" by (auto simp: fun_eq_iff owner_def s'(6) Let_def)
    then have "own_step (label e s s') (owner s) (owner s')" using s'(5) by (simp add: lab own_step_def)
    then show ?thesis using step_okI [of e s s'] e(2) s'(1-3) life_inv_cong [OF i(3) s'(4)] by simp
  qed
qed

lemma unat_inc: "(x :: u32) \<noteq> -1 \<Longrightarrow> unat (x + 1) = Suc (unat x)" and unat_dec: "(x :: u32) \<noteq> 0 \<Longrightarrow> unat (x - 1) = unat x - 1"
  by (metis Suc_eq_plus1 add.commute eq_neg_iff_add_eq_0 unatSuc, metis unat_minus_one)

lemma again_step:
  assumes "kinv s" and h: "holder (locks s l) = running_thread s" and r: "r \<noteq> 0"
    and e: "exec e s = Inr (upd_lock l (\<lambda>k. k\<lparr>holder_repeat_nr := r\<rparr>) s)"
    and o: "own_step (label e s (upd_lock l (\<lambda>k. k\<lparr>holder_repeat_nr := r\<rparr>) s)) (owner s) ((owner s)(l := Some (running_thread s, unat r)))"
  shows "step_ok e s"
proof -
  have i: "sched_inv s" "linv s" "life_inv s" using assms(1) by (simp_all add: kinv_def)
  let ?s = "upd_lock l (\<lambda>k. k\<lparr>holder_repeat_nr := r\<rparr>) s"
  note a = lock_again_ok [OF i(1,2) h r]
  have "owner ?s = (owner s)(l := Some (running_thread s, unat r))"
    using h running_nonzero [OF i(1)] by (auto simp: fun_eq_iff owner_def Let_def)
  then show ?thesis using step_okI [OF e a(1,2) life_inv_cong [OF i(3) a(3)]] o by simp
qed

lemma acquire_step:
  assumes k: "kinv s" and al: "allowed (Acquire l) s"
  shows "step_ok (Acquire l) s"
proof (cases "holder (locks s l) = running_thread s")
  case True
  have i: "sched_inv s" using k by (simp add: kinv_def)
  let ?r = "holder_repeat_nr (locks s l)"
  have r: "?r \<noteq> -1" "?r + 1 \<noteq> 0" using al True by (auto simp: eq_neg_iff_add_eq_0)
  have "owner s l = Some (running_thread s, unat ?r)" using True running_nonzero [OF i] by (simp add: owner_def)
  then show ?thesis
    using al True unat_inc [OF r(1)]
    by (intro again_step [OF k True r(2)]) (simp_all add: lock_acquire_def upd_lock_def label_def own_step_def own_inc_def)
next
  case False
  then show ?thesis using al by (intro take_step [OF k]) (simp_all add: lock_acquire_def)
qed

lemma resume_step:
  assumes k: "kinv s" and al: "allowed (Resume l) s"
  shows "step_ok (Resume l) s"
  using al linvD(4,5) [of s "running_thread s" l] k
  by (intro take_step [OF k]) (simp_all add: kinv_def)

lemma release_step:
  assumes k: "kinv s" and al: "allowed (Release l) s"
  shows "step_ok (Release l) s"
proof -
  have i: "sched_inv s" "linv s" "life_inv s" using k by (simp_all add: kinv_def)
  let ?r = "holder_repeat_nr (locks s l)" let ?c = "running_thread s"
  have h: "holder (locks s l) = ?c" using al by simp
  have r0: "?r \<noteq> 0" using linvD(1) [OF i(2), of l] h running_nonzero [OF i(1)] by (auto simp: lock_state_def)
  have o: "owner s l = Some (?c, unat ?r)" using h running_nonzero [OF i(1)] by (simp add: owner_def)
  have lab: "label (Release l) s s' = Rel ?c l" for s' by (simp add: label_def)
  show ?thesis
  proof (cases "?r = 1")
    case True
    obtain s' where s': "lock_release l s = Inr s'" "sched_inv s'" "linv s'" "same_life s s'"
      "locks s' = (locks s)(l := lock_freed (locks s l))" by (rule lock_release_last [OF i(1,2) h True]) blast
    have "owner s' = (owner s)(l := None)" by (auto simp: fun_eq_iff owner_def s'(5) lock_freed_def Let_def)
    then have "own_step (label (Release l) s s') (owner s) (owner s')" using o True by (simp add: lab own_step_def own_dec_def)
    then show ?thesis using step_okI [of "Release l" s s'] s'(1-3) life_inv_cong [OF i(3) s'(4)] by simp
  next
    case False
    have u: "unat ?r \<noteq> 0" "unat ?r \<noteq> 1" using r0 False unfolding word_unat_eq_iff by simp_all
    then have gt: "1 < ?r" by (simp add: word_less_nat_alt)
    have r1: "?r - 1 \<noteq> 0" using False by simp
    have "own_step (Rel ?c l) (owner s) ((owner s)(l := Some (?c, unat (?r - 1))))"
      using o u unat_dec [OF r0] by (simp add: own_step_def own_dec_def)
    then show ?thesis
      using gt h by (intro again_step [OF k h r1]) (simp_all add: lock_release_def upd_lock_def lab)
  qed
qed

lemma step_all:
  assumes "kinv s" and "allowed e s"
  shows "step_ok e s"
proof (cases e)
  case (Acquire l) then show ?thesis using acquire_step assms by simp
next
  case (Resume l) then show ?thesis using resume_step assms by blast
next
  case (Release l) then show ?thesis using release_step assms by blast
qed (use sched_step [OF assms] life_step [OF assms] in auto)

section \<open>Boot\<close>

text \<open>The kernel threads that \<^verbatim>\<open>thread_init\<close> sets up: the main thread, already running on its stack below
  1 MB, and the idle thread.\<close>

definition boot_threads :: "u32 \<Rightarrow> kthreads \<Rightarrow> kthreads result" where
  "boot_threads idle s =
     bindR (pid_pool_init (s\<lparr>thread_ready_list := [], thread_all_list := []\<rparr>)) (\<lambda>s.
     bindR (make_main_thread s) (\<lambda>s.
     mapR (\<lambda>(t, s). s\<lparr>idle_thread := t\<rparr>) (thread_start (map (of_nat \<circ> of_char) ''idle'' @ [0]) 10 idle 0 s)))"

definition raw_state :: "kthreads \<Rightarrow> bool" where
  "raw_state s \<longleftrightarrow> tasks s = Map.empty \<and> running_thread s \<noteq> 0 \<and> running_thread s < 0xc0100000 \<and>
     locks s = (\<lambda>_. lock_init) \<and> ctls s = (\<lambda>_. Run) \<and> cr3 (tmem s) = 0x100000 \<and>
     pages_ok PF_KERNEL {} (tmem s) \<and> can_alloc PF_KERNEL 1 (tmem s)"

lemma pid_pool_empty:
  obtains b where "pid_pool_init s = Inr (s\<lparr>pid_bitmap := b\<rparr>)" and "pids_ok Map.empty b" and "\<And>j. j < 1024 \<Longrightarrow> \<not> bm_bit b j"
proof -
  let ?b = "\<lparr>btmp_bytes_len = 128, bits = replicate 128 0\<rparr>"
  have wf: "wf_bitmap ?b" and c: "bm_cap ?b = 1024" by (simp_all add: wf_bitmap_def bm_cap_def)
  obtain b where b: "bitmap_init ?b = Inr b" "wf_bitmap b" "bm_cap b = bm_cap ?b" "\<And>i. i < bm_cap ?b \<Longrightarrow> \<not> bm_bit b i"
    by (rule bitmap_init_ok [OF wf]) blast
  have "pids_ok Map.empty b" using b c by (intro pids_okI) auto
  then show ?thesis using that [of b] b c by (simp add: pid_pool_init_def)
qed

lemma one_pid_left:
  assumes ok: "pids_ok p b" and fin: "finite (dom p)" "card (dom p) < 1024"
  shows "\<exists>j < 1024. \<not> bm_bit b j"
proof (rule ccontr)
  assume "\<not> ?thesis"
  then have "\<exists>t. p t = Some (int j + 1)" if "j < 1024" for j using that pids_okD(3) [OF ok] by blast
  then have "(\<lambda>j. int j + 1) ` {..<1024} \<subseteq> (the \<circ> p) ` dom p" by (force simp: image_iff)
  then have "card ((\<lambda>j. int j + 1) ` {..<1024 :: nat}) \<le> card (dom p)"
    using fin(1) surj_card_le [of "dom p" _ "the \<circ> p"] by blast
  moreover have "card ((\<lambda>j. int j + 1) ` {..<1024 :: nat}) = 1024" by (subst card_image) (auto simp: inj_on_def)
  ultimately show False using fin(2) by simp
qed

lemma boot_threads_ok:
  assumes raw: "raw_state s"
  obtains s' where "boot_threads idle s = Inr s'" and "kinv s'" and "owner s' = (\<lambda>_. None)"
    and "running_thread s' = running_thread s" and "thread_ready_list s' = [idle_thread s']" and "ctls s' = (\<lambda>_. Run)"
    and "locks s' = (\<lambda>_. lock_init)" and "idle_thread s' \<noteq> running_thread s"
proof -
  let ?c = "running_thread s"
  have r: "tasks s = Map.empty" "?c \<noteq> 0" "?c < 0xc0100000" "locks s = (\<lambda>_. lock_init)" "ctls s = (\<lambda>_. Run)"
    "cr3 (tmem s) = 0x100000" "pages_ok PF_KERNEL {} (tmem s)" "can_alloc PF_KERNEL 1 (tmem s)"
    using raw by (simp_all add: raw_state_def)
  define s0 where "s0 = s\<lparr>thread_ready_list := [], thread_all_list := []\<rparr>"
  obtain b0 where b0: "pid_pool_init s0 = Inr (s0\<lparr>pid_bitmap := b0\<rparr>)" "pids_ok Map.empty b0" "\<And>j. j < 1024 \<Longrightarrow> \<not> bm_bit b0 j"
    using pid_pool_empty by blast
  have "\<exists>j < 1024. \<not> bm_bit b0 j" using b0(3) [of 0] by (intro exI [of _ 0]) simp
  then obtain p1 b1 where b1: "allocate_pid b0 = Inr (p1, b1)" "pids_ok [?c \<mapsto> p1] b1"
    by (rule pids_ok_alloc [OF b0(2), of ?c]) auto
  have name: "holds_str (map (of_nat \<circ> of_char) ''main'' @ [0]) (map (of_nat \<circ> of_char) ''main'')" "length (map (of_nat \<circ> of_char) ''main'' :: u8 list) < 16"
    "holds_str (map (of_nat \<circ> of_char) ''idle'' @ [0]) (map (of_nat \<circ> of_char) ''idle'')" "length (map (of_nat \<circ> of_char) ''idle'' :: u8 list) < 16"
    by (simp_all add: holds_str_def)
  obtain k where k: "init_thread ?c ?c p1 (map (of_nat \<circ> of_char) ''main'' @ [0]) 31 = Inr k" "pid k = p1" "status k = TASK_RUNNING"
    "stack_magic k = 0x19870916" "tpgdir k = 0" using init_thread_ok [OF name(1,2), of ?c ?c p1 31] by auto
  define s1 where "s1 = s0\<lparr>pid_bitmap := b1, main_thread := ?c, tasks := [?c \<mapsto> k], thread_all_list := [?c]\<rparr>"
  have s1: "bindR (pid_pool_init s0) make_main_thread = Inr s1"
    using b0(1) b1(1) k(1) r(1) by (simp add: make_main_thread_def s1_def s0_def Let_def)
  obtain t m where m: "get_pages PF_KERNEL 1 (tmem s) = Inr (t, m)" "t \<noteq> 0" "pages_ok PF_KERNEL {t} m" "cr3 m = cr3 (tmem s)"
    by (rule get_page_ok [OF r(7,8)]) blast
  have "0xc0100000 \<le> t" using kernel_page_high [OF m(3)] by blast
  then have tc: "t \<noteq> ?c" using r(3) by auto
  have "\<exists>j < 1024. \<not> bm_bit b1 j" by (rule one_pid_left [OF b1(2)]) simp_all
  then obtain p2 b2 where b2: "allocate_pid b1 = Inr (p2, b2)" "pids_ok [?c \<mapsto> p1, t \<mapsto> p2] b2"
    by (rule pids_ok_alloc [OF b1(2), of t]) (use tc in auto)
  obtain i where i: "init_thread ?c t p2 (map (of_nat \<circ> of_char) ''idle'' @ [0]) 10 = Inr i" "pid i = p2" "status i = TASK_READY"
    "stack_magic i = 0x19870916" "tpgdir i = 0" using init_thread_ok [OF name(3,4), of ?c t p2 10] tc by auto
  define i' where "i' = thread_create idle 0 i"
  have i': "pid i' = p2" "status i' = TASK_READY" "stack_magic i' = 0x19870916" "tpgdir i' = 0"
    using i by (simp_all add: i'_def thread_create_def)
  define s' where "s' = s1\<lparr>tmem := m, pid_bitmap := b2, tasks := [?c \<mapsto> k, t \<mapsto> i'], thread_ready_list := [t],
    thread_all_list := [?c, t], idle_thread := t\<rparr>"
  have eq: "boot_threads idle s = Inr s'"
  proof -
    have "thread_start (map (of_nat \<circ> of_char) ''idle'' @ [0]) 10 idle 0 s1 = Inr (t, s'\<lparr>idle_thread := idle_thread s\<rparr>)"
      using m(1,2) b2(1) i(1) tc r(5) by (simp add: thread_start_def get_kernel_pages_def s1_def s0_def s'_def i'_def Let_def fun_eq_iff)
    then show ?thesis using s1 by (simp add: boot_threads_def s0_def [symmetric] bindR_assoc [symmetric] s'_def)
  qed
  have f: "tasks s' = [?c \<mapsto> k, t \<mapsto> i']" "thread_ready_list s' = [t]" "running_thread s' = ?c" "idle_thread s' = t"
    "locks s' = (\<lambda>_. lock_init)" "ctls s' = (\<lambda>_. Run)" "tmem s' = m" "thread_all_list s' = [?c, t]" "pid_bitmap s' = b2" "main_thread s' = ?c"
    by (simp_all add: s'_def s1_def s0_def r)
  have st': "st s' u = (if u = t then Some TASK_READY else if u = ?c then Some TASK_RUNNING else None)" for u
    by (simp add: st_def f k i')
  have "qinv s'"
    by (rule qinvI) (use r m k i' tc in \<open>auto simp: f st' split: if_splits\<close>)
  then have "sched_inv s'" using tc by (simp add: sched_inv_def f st')
  moreover have "linv s'" by (simp add: linv_def f lock_init_def sema_init_def lock_state_def)
  moreover have "life_inv s'"
  proof -
    have "pid_of s' = [?c \<mapsto> p1, t \<mapsto> p2]" by (simp add: fun_eq_iff pid_of_def f k i')
    moreover have "dom (tasks s') - {?c} = {t}" "dom (tasks s') = {?c, t}" using tc by (auto simp: f)
    ultimately show ?thesis using b2(2) m(3) r(3) tc by (simp add: life_inv_def f)
  qed
  ultimately have "kinv s'" by (simp add: kinv_def)
  moreover have "owner s' = (\<lambda>_. None)" by (simp add: fun_eq_iff owner_def f lock_init_def)
  ultimately show ?thesis using that [OF eq] f tc by simp
qed

section \<open>Runs\<close>

inductive krun :: "kthreads \<Rightarrow> act list \<Rightarrow> kthreads \<Rightarrow> bool" where
  krun_init: "krun s [] s"
| krun_step: "krun s0 tr s \<Longrightarrow> allowed e s \<Longrightarrow> exec e s = Inr s' \<Longrightarrow> krun s0 (tr @ [label e s s']) s'"

inductive_cases krun_snocE: "krun s0 (tr @ [a]) s"

definition booted :: "kthreads \<Rightarrow> bool" where
  "booted s \<longleftrightarrow> kinv s \<and> owner s = (\<lambda>_. None)"

lemma krun_kinv: "krun s0 tr s \<Longrightarrow> kinv s0 \<Longrightarrow> kinv s"
proof (induction rule: krun.induct)
  case (krun_step s0 tr s e s')
  then show ?case using step_all [of s e] by (simp add: step_ok_def)
qed simp

text \<open>How often thread \<open>t\<close> has lock \<open>l\<close> after the completed operations \<open>tr\<close>.\<close>

definition held :: "act list \<Rightarrow> nat \<Rightarrow> u32 \<Rightarrow> int" where
  "held tr l t = int (count_list tr (Got t l)) - int (count_list tr (Rel t l))"

definition own_count :: "(u32 \<times> nat) option \<Rightarrow> u32 \<Rightarrow> int" where
  "own_count o' t = (case o' of None \<Rightarrow> 0 | Some (u, n) \<Rightarrow> if u = t then int n else 0)"

lemma held_snoc:
  "held (tr @ [a]) l t = held tr l t + (if a = Got t l then 1 else if a = Rel t l then -1 else 0)"
  by (simp add: held_def)

lemma own_step_count:
  assumes "own_step a o1 o2" and "\<And>l t n. o1 l = Some (t, n) \<Longrightarrow> 0 < n"
  shows "own_count (o2 l) t = own_count (o1 l) t + (if a = Got t l then 1 else if a = Rel t l then -1 else 0)"
  using assms(1) assms(2) [of l]
  by (cases a) (auto simp: own_step_def own_inc_def own_dec_def own_count_def split: option.splits if_splits)

lemma owner_pos: "linv s \<Longrightarrow> owner s l = Some (t, n) \<Longrightarrow> 0 < n"
  using linvD(1) [of s l] by (auto simp: owner_def lock_state_def Let_def unat_gt_0 split: if_splits)

lemma krun_held:
  "krun s0 tr s \<Longrightarrow> kinv s0 \<Longrightarrow> owner s0 = (\<lambda>_. None) \<Longrightarrow> held tr l t = own_count (owner s l) t"
proof (induction rule: krun.induct)
  case (krun_init s)
  then show ?case by (simp add: held_def own_count_def)
next
  case (krun_step s0 tr s e s')
  have k: "kinv s" using krun_kinv krun_step by blast
  then have "own_step (label e s s') (owner s) (owner s')" using step_all [of s e] krun_step by (simp add: step_ok_def)
  from own_step_count [OF this, of l t] show ?case
    using owner_pos [of s] k krun_step.IH [OF krun_step.prems] by (simp only: held_snoc kinv_def)
qed

section \<open>Properties\<close>


definition sample_threads :: kthreads where
  "sample_threads = \<lparr>tasks = Map.empty, thread_ready_list = [], thread_all_list = [], running_thread = 0xc009e000,
     idle_thread = 0, main_thread = 0, pid_bitmap = \<lparr>btmp_bytes_len = 0, bits = []\<rparr>, locks = (\<lambda>_. lock_init),
     ctls = (\<lambda>_. Run), global_ticks = 0, tss_esp0 = 0, tmem = sample_mem\<rparr>"

lemma sample_raw: "raw_state sample_threads"
  using sample_pages_ok sample_can_alloc by (simp add: raw_state_def sample_threads_def sample_mem_def)


lemma sample_booted:
  obtains s where "booted s" and "running_thread s = 0xc009e000" and "thread_ready_list s = [idle_thread s]"
    and "ctls s = (\<lambda>_. Run)" and "locks s = (\<lambda>_. lock_init)" and "idle_thread s \<noteq> 0xc009e000"
  by (rule boot_threads_ok [OF sample_raw]) (auto simp: booted_def sample_threads_def)







text \<open>
  C37. Process identifiers are unique and \<^verbatim>\<open>pid2thread\<close> inverts them: in every run the pids of the live threads
  lie in 1..1024, no two threads share one, and looking a live thread's pid up in the list of all
  threads finds that thread.
\<close>

lemma pid_search_ok:
  assumes "\<forall>t \<in> set ts. tasks s t \<noteq> None" and "t \<in> set ts" and "pid_of s t = Some p"
    and "\<forall>u. pid_of s u = Some p \<longrightarrow> u = t"
  shows "pid_search s p ts = Inr t"
  using assms(1,2)
proof (induction ts)
  case (Cons a ts)
  then obtain k where k: "tasks s a = Some k" by auto
  show ?case
  proof (cases "a = t")
    case True
    then show ?thesis using k assms(3) by (simp add: task_def pid_of_def)
  next
    case False
    then have "pid k \<noteq> p" using k assms(4) by (auto simp: pid_of_def)
    then show ?thesis using k False Cons by (simp add: task_def)
  qed
qed simp



text \<open>
  C21. Yielding is round robin: \<open>n\<close> yields in a row always return and rotate the sequence of the running
  thread followed by the ready list by \<open>n\<close>, so each ready thread runs after as many yields as its
  position in the queue.
\<close>

fun yields :: "nat \<Rightarrow> kthreads \<Rightarrow> kthreads result" where
  "yields 0 s = Inr s"
| "yields (Suc n) s = bindR (thread_yield s) (yields n)"

lemma yields_rotate:
  assumes "sched_inv s" and "linv s"
  shows "\<exists>s'. yields n s = Inr s' \<and> running_thread s' # thread_ready_list s' = rotate n (running_thread s # thread_ready_list s)"
  using assms
proof (induction n arbitrary: s)
  case (Suc n)
  obtain s1 where s1: "thread_yield s = Inr s1" "sched_inv s1" "linv s1"
    "thread_ready_list s1 = tl (thread_ready_list s @ [running_thread s])"
    "running_thread s1 = hd (thread_ready_list s @ [running_thread s])"
    by (rule thread_yield_ok [OF Suc.prems]) blast
  have r: "running_thread s1 # thread_ready_list s1 = rotate1 (running_thread s # thread_ready_list s)"
    using s1(4,5) by (simp del: hd_append2)
  from Suc.IH [OF s1(2,3)] show ?case
    unfolding r by (simp add: s1(1) rotate_Suc rotate1_rotate_swap)
qed simp



fun ticks_n :: "nat \<Rightarrow> kthreads \<Rightarrow> kthreads result" where
  "ticks_n 0 s = Inr s"
| "ticks_n (Suc n) s = bindR (intr_timer_handler s) (ticks_n n)"

lemma dispatch_slices:
  assumes "dispatch c s = Inr s'"
  shows "map_option (\<lambda>k. (ticks k, priority k)) (tasks s' u) = map_option (\<lambda>k. (ticks k, priority k)) (tasks s u)"
  using assms by (cases "tasks s u")
    (auto simp: dispatch_def process_activate_def switch_to_def result_iffs Let_def split: list.splits)

lemma tick_continues:
  assumes s: "sched_inv s" and l: "linv s" and k: "tasks s (running_thread s) = Some k" "ticks k \<noteq> 0"
  obtains s' k' where "intr_timer_handler s = Inr s'" and "sched_inv s'" and "linv s'"
    and "running_thread s' = running_thread s" and "thread_ready_list s' = thread_ready_list s"
    and "tasks s' (running_thread s) = Some k'" and "ticks k' = ticks k - 1" and "priority k' = priority k"
proof -
  let ?c = "running_thread s"
  define s1 where "s1 = (upd_task ?c (\<lambda>k. k\<lparr>elapsed_ticks := elapsed_ticks k + 1\<rparr>) s)\<lparr>global_ticks := global_ticks s + 1\<rparr>"
  define s' where "s' = (upd_task ?c (\<lambda>k. k\<lparr>ticks := ticks k - 1\<rparr>) s1)\<lparr>global_ticks := global_ticks s1\<rparr>"
  have b: "sched_inv s1" "linv s1" unfolding s1_def by (rule bookkeeping_ok [OF s l]; simp)+
  have c: "sched_inv s'" "linv s'" unfolding s'_def by (rule bookkeeping_ok [OF b]; simp)+
  have "stack_magic k = 0x19870916" using qinvD(1) [OF sched_invD(1) [OF s] k(1)] by simp
  then have "intr_timer_handler s = Inr s'"
    using k by (simp add: intr_timer_handler_def task_def s1_def s'_def Let_def upd_task_def)
  then show ?thesis using that c k(1) by (simp add: s'_def s1_def)
qed

lemma ticks_n_continue:
  assumes "sched_inv s" and "linv s" and "tasks s (running_thread s) = Some k" and "n \<le> unat (ticks k)"
  shows "\<exists>s' k'. ticks_n n s = Inr s' \<and> sched_inv s' \<and> linv s' \<and> running_thread s' = running_thread s \<and>
     thread_ready_list s' = thread_ready_list s \<and> tasks s' (running_thread s) = Some k' \<and>
     unat (ticks k') = unat (ticks k) - n \<and> priority k' = priority k"
  using assms
proof (induction n arbitrary: s k)
  case (Suc n)
  then have nz: "ticks k \<noteq> 0" by auto
  obtain s1 k1 where s1: "intr_timer_handler s = Inr s1" "sched_inv s1" "linv s1" "running_thread s1 = running_thread s"
    "thread_ready_list s1 = thread_ready_list s" "tasks s1 (running_thread s) = Some k1" "ticks k1 = ticks k - 1" "priority k1 = priority k"
    by (rule tick_continues [OF Suc.prems(1-3) nz])
  have u: "unat (ticks k1) = unat (ticks k) - 1" using s1(7) nz by (metis unat_minus_one)
  then show ?case using Suc.IH [OF s1(2,3), of k1] s1 Suc.prems(4) by auto
qed simp

lemma tick_preempts:
  assumes s: "sched_inv s" and l: "linv s" and k: "tasks s (running_thread s) = Some k" "ticks k = 0" and ne: "thread_ready_list s \<noteq> []"
  obtains s' k' where "intr_timer_handler s = Inr s'" and "running_thread s' = hd (thread_ready_list s)"
    and "thread_ready_list s' = tl (thread_ready_list s) @ [running_thread s]"
    and "tasks s' (running_thread s) = Some k'" and "ticks k' = priority k"
proof -
  let ?c = "running_thread s"
  define s1 where "s1 = (upd_task ?c (\<lambda>k. k\<lparr>elapsed_ticks := elapsed_ticks k + 1\<rparr>) s)\<lparr>global_ticks := global_ticks s + 1\<rparr>"
  have b: "sched_inv s1" "linv s1" unfolding s1_def by (rule bookkeeping_ok [OF s l]; simp)+
  have f: "running_thread s1 = ?c" "thread_ready_list s1 = thread_ready_list s" by (simp_all add: s1_def)
  have sr: "st s1 ?c = Some TASK_RUNNING" using sched_invD(2) [OF b(1)] by (simp add: f)
  have "stack_magic k = 0x19870916" using qinvD(1) [OF sched_invD(1) [OF s] k(1)] by simp
  then have eq: "intr_timer_handler s = schedule s1" using k by (simp add: intr_timer_handler_def task_def s1_def)
  obtain s' where s': "schedule s1 = Inr s'" "running_thread s' = next_thread s1" "thread_ready_list s' = rest_queue s1"
    by (rule schedule_ok [OF sched_invD(1) [OF b(1)]]) blast
  have d: "dispatch ?c (enqueue_cur s1) = Inr s'"
    using s'(1) ne unfolding schedule_eq [OF sched_invD(1) [OF b(1)]] by (simp add: enqueue_cur_def f sr)
  obtain k1 where "tasks s1 ?c = Some k1" "priority k1 = priority k" using k(1) by (simp add: s1_def)
  then have "map_option (\<lambda>k. (ticks k, priority k)) (tasks (enqueue_cur s1) ?c) = Some (priority k, priority k)"
    by (simp add: enqueue_cur_def f sr)
  then have "map_option (\<lambda>k. (ticks k, priority k)) (tasks s' ?c) = Some (priority k, priority k)"
    using dispatch_slices [OF d, of ?c] by simp
  then have "\<exists>k'. tasks s' ?c = Some k' \<and> ticks k' = priority k" by auto
  then show ?thesis using that eq s' ne by (auto simp: next_thread_def rest_queue_def f sr split: list.splits)
qed

text \<open>
  Time slices: a thread that stays in its own code is not preempted for as many ticks as it has
  left, and the tick after that gives the processor to the head of the ready list and puts the
  thread at its end with a fresh slice of \<^verbatim>\<open>priority\<close> ticks.
\<close>

theorem time_slice:
  assumes "booted s0" and "krun s0 tr s" and "tasks s (running_thread s) = Some k" and "thread_ready_list s \<noteq> []"
  shows "(\<forall>n \<le> unat (ticks k). \<exists>s'. ticks_n n s = Inr s' \<and> running_thread s' = running_thread s) \<and>
     (\<exists>s' k'. ticks_n (unat (ticks k) + 1) s = Inr s' \<and> running_thread s' = hd (thread_ready_list s) \<and>
        thread_ready_list s' = tl (thread_ready_list s) @ [running_thread s] \<and>
        tasks s' (running_thread s) = Some k' \<and> ticks k' = priority k)"
proof -
  have i: "sched_inv s" "linv s" using krun_kinv assms(1,2) by (auto simp: booted_def kinv_def)
  have add: "ticks_n (n + 1) s = bindR (ticks_n n s) intr_timer_handler" for n s
  proof (induction n arbitrary: s)
    case (Suc n)
    then show ?case by (cases "intr_timer_handler s") simp_all
  qed (simp add: bindR_def split: sum.splits)
  obtain s1 k1 where s1: "ticks_n (unat (ticks k)) s = Inr s1" "sched_inv s1" "linv s1" "running_thread s1 = running_thread s"
    "thread_ready_list s1 = thread_ready_list s" "tasks s1 (running_thread s) = Some k1" "unat (ticks k1) = 0" "priority k1 = priority k"
    using ticks_n_continue [OF i assms(3), of "unat (ticks k)"] by auto
  have "ticks k1 = 0" "tasks s1 (running_thread s1) = Some k1" "thread_ready_list s1 \<noteq> []"
    using s1(4-7) assms(4) by (simp_all add: unat_eq_zero)
  then obtain s' k' where "intr_timer_handler s1 = Inr s'" "running_thread s' = hd (thread_ready_list s)"
    "thread_ready_list s' = tl (thread_ready_list s) @ [running_thread s]"
    "tasks s' (running_thread s) = Some k'" "ticks k' = priority k"
    using tick_preempts [OF s1(2,3)] s1(4,5,8) by metis
  then have "ticks_n (unat (ticks k) + 1) s = Inr s'" unfolding add by (simp add: s1(1))
  then show ?thesis using ticks_n_continue [OF i assms(3)] \<open>ticks k' = _\<close> \<open>running_thread s' = _\<close>
      \<open>thread_ready_list s' = _\<close> \<open>tasks s' _ = _\<close> by blast
qed

theorem time_slice_witness:
  "\<exists>s0 k s'. booted s0 \<and> tasks s0 0xc009e000 = Some k \<and> ticks_n (unat (ticks k) + 1) s0 = Inr s' \<and>
     running_thread s' = idle_thread s0"
proof -
  obtain s0 where s0: "booted s0" "running_thread s0 = 0xc009e000" "thread_ready_list s0 = [idle_thread s0]"
    by (rule sample_booted) blast
  then obtain k where k: "tasks s0 (running_thread s0) = Some k"
    using sched_invD(2) [of s0] by (auto simp: booted_def kinv_def st_Some)
  then show ?thesis using time_slice [OF s0(1) krun_init k] s0 by auto
qed

end
