(* ===== verification/Disk.thy ===== *)
theory Disk
  imports Cstring
begin

text \<open>
  Model of the sector transfer of \<^verbatim>\<open>device/ide.c\<close>. The drive is hardware: it holds 512-byte sectors, takes
  the sector count and the 28-bit sector number from its registers, and answers the status query of
  \<^verbatim>\<open>busy_wait\<close> (\<open>dready\<close>). The driver's part is how it splits a request into commands of at most 256
  sectors and what it writes into the registers. One request is one step of the model: the channel's
  lock makes it exclusive.
\<close>

section \<open>The drive\<close>

record drive =
  dsecs :: "u32 \<Rightarrow> u8 list"
  dready :: bool

record ata_regs =
  r_sect_cnt :: u8
  r_lba_l :: u8
  r_lba_m :: u8
  r_lba_h :: u8
  r_dev :: u8

definition max_lba :: u32 where
  "max_lba = 163839"

text \<open>What the drive makes of its registers.\<close>

definition cmd_lba :: "ata_regs \<Rightarrow> u32" where
  "cmd_lba r = ucast (r_lba_l r) OR push_bit 8 (ucast (r_lba_m r)) OR push_bit 16 (ucast (r_lba_h r)) OR
     push_bit 24 (ucast (r_dev r AND 0xf))"

definition cmd_cnt :: "ata_regs \<Rightarrow> nat" where
  "cmd_cnt r = (if r_sect_cnt r = 0 then 256 else unat (r_sect_cnt r))"

section \<open>The driver\<close>

definition select_sector :: "u8 \<Rightarrow> u32 \<Rightarrow> u8 \<Rightarrow> ata_regs result" where
  "select_sector dev_no lba sec_cnt =
     ASSERT (lba \<le> max_lba) ''lba <= max_lba''
       (Inr \<lparr>r_sect_cnt = sec_cnt, r_lba_l = ucast lba, r_lba_m = ucast (drop_bit 8 lba),
             r_lba_h = ucast (drop_bit 16 lba),
             r_dev = ucast (0xa0 OR 0x40 OR (if dev_no = 1 then 0x10 else 0) OR drop_bit 24 lba :: u32)\<rparr>)"

text \<open>The number of bytes the driver moves for one command.\<close>

definition xfer_bytes :: "u8 \<Rightarrow> nat" where
  "xfer_bytes sec_cnt = (if sec_cnt = 0 then 256 * 512 else unat sec_cnt * 512)"

definition sectors :: "drive \<Rightarrow> u32 \<Rightarrow> nat \<Rightarrow> u8 list" where
  "sectors d lba n = concat (map (\<lambda>i. dsecs d (lba + of_nat i)) [0..<n])"

definition read_from_sector :: "ata_regs \<Rightarrow> u8 \<Rightarrow> drive \<Rightarrow> u8 list" where
  "read_from_sector r sec_cnt d = take (xfer_bytes sec_cnt) (sectors d (cmd_lba r) (cmd_cnt r))"

fun put_sectors :: "u32 \<Rightarrow> nat \<Rightarrow> u8 list \<Rightarrow> drive \<Rightarrow> drive" where
  "put_sectors lba 0 bs d = d"
| "put_sectors lba (Suc n) bs d =
     put_sectors (lba + 1) n (drop 512 bs) (d\<lparr>dsecs := (dsecs d)(lba := take 512 bs)\<rparr>)"

definition write2sector :: "ata_regs \<Rightarrow> u8 list \<Rightarrow> u8 \<Rightarrow> drive \<Rightarrow> drive result" where
  "write2sector r bs sec_cnt d =
     (if length bs < xfer_bytes sec_cnt then Inl OutOfBounds
      else Inr (put_sectors (cmd_lba r) (cmd_cnt r) (take (xfer_bytes sec_cnt) bs) d))"

definition secs_op :: "nat \<Rightarrow> nat \<Rightarrow> nat" where
  "secs_op secs_done sec_cnt = (if secs_done + 256 \<le> sec_cnt then 256 else sec_cnt - secs_done)"

function ide_read_loop :: "u8 \<Rightarrow> u32 \<Rightarrow> nat \<Rightarrow> nat \<Rightarrow> drive \<Rightarrow> u8 list result" where
  "ide_read_loop dev lba sec_cnt secs_done d =
     (if secs_done < sec_cnt then
        let op = secs_op secs_done sec_cnt in
        bindR (select_sector dev (lba + of_nat secs_done) (of_nat op)) (\<lambda>r.
        if \<not> dready d then Inl (KPanic ''read sector failed'')
        else mapR ((@) (read_from_sector r (of_nat op) d)) (ide_read_loop dev lba sec_cnt (secs_done + op) d))
      else Inr [])"
  by pat_completeness auto
termination
  by (relation "measure (\<lambda>(dev, lba, sec_cnt, secs_done, d). sec_cnt - secs_done)") (auto simp: secs_op_def)

definition ide_read :: "u8 \<Rightarrow> u32 \<Rightarrow> nat \<Rightarrow> drive \<Rightarrow> u8 list result" where
  "ide_read dev lba sec_cnt d =
     ASSERT (lba \<le> max_lba) ''lba <= max_lba''
       (ASSERT (0 < sec_cnt) ''sec_cnt > 0'' (ide_read_loop dev lba sec_cnt 0 d))"

function ide_write_loop :: "u8 \<Rightarrow> u32 \<Rightarrow> u8 list \<Rightarrow> nat \<Rightarrow> nat \<Rightarrow> drive \<Rightarrow> drive result" where
  "ide_write_loop dev lba bs sec_cnt secs_done d =
     (if secs_done < sec_cnt then
        let op = secs_op secs_done sec_cnt in
        bindR (select_sector dev (lba + of_nat secs_done) (of_nat op)) (\<lambda>r.
        if \<not> dready d then Inl (KPanic ''write sector failed'')
        else bindR (write2sector r (drop (secs_done * 512) bs) (of_nat op) d)
               (ide_write_loop dev lba bs sec_cnt (secs_done + op)))
      else Inr d)"
  by pat_completeness auto
termination
  by (relation "measure (\<lambda>(dev, lba, bs, sec_cnt, secs_done, d). sec_cnt - secs_done)") (auto simp: secs_op_def)

definition ide_write :: "u8 \<Rightarrow> u32 \<Rightarrow> u8 list \<Rightarrow> nat \<Rightarrow> drive \<Rightarrow> drive result" where
  "ide_write dev lba bs sec_cnt d =
     ASSERT (lba \<le> max_lba \<and> 0 < sec_cnt) ''lba <= max_lba && sec_cnt > 0''
       (ide_write_loop dev lba bs sec_cnt 0 d)"

declare ide_read_loop.simps [simp del] ide_write_loop.simps [simp del]

section \<open>Lemmas\<close>

definition drive_ok :: "drive \<Rightarrow> bool" where
  "drive_ok d \<longleftrightarrow> dready d \<and> (\<forall>a. length (dsecs d a) = 512)"

lemma lba_bytes:
  fixes lba :: u32
  assumes "drop_bit 24 lba = 0"
  shows "ucast (ucast lba :: u8) OR push_bit 8 (ucast (ucast (drop_bit 8 lba) :: u8)) OR
     push_bit 16 (ucast (ucast (drop_bit 16 lba) :: u8)) = (lba :: u32)"
proof (rule bit_word_eqI)
  fix n assume n: "n < LENGTH(32)"
  have hi: "\<not> bit lba n" if "24 \<le> n"
  proof -
    have "bit (drop_bit 24 lba) (n - 24) = bit lba n" using that by (simp add: bit_drop_bit_eq)
    then show ?thesis using assms by simp
  qed
  consider "n < 8" | "8 \<le> n" "n < 16" | "16 \<le> n" "n < 24" | "24 \<le> n" by linarith
  then show "bit ((ucast (ucast lba :: u8) :: u32) OR push_bit 8 (ucast (ucast (drop_bit 8 lba) :: u8)) OR
     push_bit 16 (ucast (ucast (drop_bit 16 lba) :: u8))) n = bit lba n"
    using n hi by cases (auto simp: bit_simps)
qed

lemma select_sector_ok:
  assumes "lba \<le> max_lba"
  obtains r where "select_sector dev lba c = Inr r" and "cmd_lba r = lba" and "r_sect_cnt r = c"
proof -
  have "unat lba < 2 ^ 24" using assms by (simp add: max_lba_def word_le_nat_alt)
  then have d0: "drop_bit 24 lba = 0" by (simp add: drop_bit_eq_div word_unat_eq_iff unat_div)
  then have "ucast (0xa0 OR 0x40 OR (if dev = 1 then 0x10 else 0) OR drop_bit 24 lba :: u32) AND (0xf :: u8) = 0" by simp
  then show ?thesis
    using that lba_bytes [OF d0] assms by (simp add: select_sector_def cmd_lba_def or.assoc)
qed

lemma sectors_0 [simp]: "sectors d lba 0 = []"
  by (simp add: sectors_def)

lemma sectors_Suc: "sectors d lba (Suc n) = sectors d lba n @ dsecs d (lba + of_nat n)"
  by (simp add: sectors_def)

lemma sectors_1 [simp]: "sectors d lba (Suc 0) = dsecs d lba"
  by (simp add: sectors_Suc)

lemma sectors_length [simp]: "drive_ok d \<Longrightarrow> length (sectors d lba n) = 512 * n"
  by (induction n) (simp_all add: sectors_Suc drive_ok_def)

lemma sectors_add: "sectors d lba (m + n) = sectors d lba m @ sectors d (lba + of_nat m) n"
  by (induction n) (simp_all add: sectors_Suc add.assoc)

lemma xfer_of_nat: "0 < op \<Longrightarrow> op \<le> 256 \<Longrightarrow> xfer_bytes (of_nat op) = op * 512"
  by (cases "op = 256") (simp_all add: xfer_bytes_def unat_of_nat word_unat_eq_iff)

lemma cmd_cnt_of_nat: "r_sect_cnt r = of_nat op \<Longrightarrow> 0 < op \<Longrightarrow> op \<le> 256 \<Longrightarrow> cmd_cnt r = op"
  by (cases "op = 256") (simp_all add: cmd_cnt_def unat_of_nat word_unat_eq_iff)

lemma secs_op_bounds: "secs_done < sec_cnt \<Longrightarrow> 0 < secs_op secs_done sec_cnt \<and> secs_op secs_done sec_cnt \<le> 256 \<and>
    secs_done + secs_op secs_done sec_cnt \<le> sec_cnt"
  by (auto simp: secs_op_def)

text \<open>The range of a request that ends inside the disk.\<close>

lemma lba_in_range:
  assumes "unat lba + n \<le> Suc (unat max_lba)" and "k < n"
  shows "lba + of_nat k \<le> max_lba" and "unat (lba + of_nat k) = unat lba + k"
proof -
  have b: "unat lba + k < 2 ^ 32" using assms by (simp add: max_lba_def)
  then have "unat (of_nat k :: u32) = k" by (simp add: unat_of_nat)
  then show u: "unat (lba + of_nat k) = unat lba + k" using b by (simp add: unat_word_ariths)
  show "lba + of_nat k \<le> max_lba" using assms by (simp add: word_le_nat_alt u)
qed

lemma ide_read_loop_eq:
  assumes d: "drive_ok d" and r: "unat lba + sec_cnt \<le> Suc (unat max_lba)"
  shows "secs_done \<le> sec_cnt \<Longrightarrow>
    ide_read_loop dev lba sec_cnt secs_done d = Inr (sectors d (lba + of_nat secs_done) (sec_cnt - secs_done))"
proof (induction "sec_cnt - secs_done" arbitrary: secs_done rule: less_induct)
  case less
  show ?case
  proof (cases "secs_done < sec_cnt")
    case True
    let ?op = "secs_op secs_done sec_cnt"
    note b = secs_op_bounds [OF True]
    obtain q where q: "select_sector dev (lba + of_nat secs_done) (of_nat ?op) = Inr q"
      "cmd_lba q = lba + of_nat secs_done" "r_sect_cnt q = of_nat ?op"
      using select_sector_ok lba_in_range(1) [OF r True] by metis
    have rd: "read_from_sector q (of_nat ?op) d = sectors d (lba + of_nat secs_done) ?op"
      using q b d by (simp add: read_from_sector_def xfer_of_nat cmd_cnt_of_nat)
    have "ide_read_loop dev lba sec_cnt (secs_done + ?op) d =
        Inr (sectors d (lba + of_nat (secs_done + ?op)) (sec_cnt - (secs_done + ?op)))"
    proof (rule less.hyps)
      show "sec_cnt - (secs_done + ?op) < sec_cnt - secs_done" using b True by linarith
    qed (use b in simp)
    moreover have eq: "sec_cnt - secs_done = ?op + (sec_cnt - (secs_done + ?op))" using b by simp
    have "sectors d (lba + of_nat secs_done) (sec_cnt - secs_done) =
        sectors d (lba + of_nat secs_done) ?op @ sectors d (lba + of_nat (secs_done + ?op)) (sec_cnt - (secs_done + ?op))"
      by (subst eq) (simp only: sectors_add of_nat_add add.assoc)
    ultimately show ?thesis
      using True q(1) rd d by (simp add: ide_read_loop.simps [of dev lba sec_cnt secs_done] Let_def drive_ok_def)
  next
    case False
    then show ?thesis using less.prems by (simp add: ide_read_loop.simps)
  qed
qed

lemma ide_read_eq:
  assumes "drive_ok d" and "0 < n" and "unat lba + n \<le> Suc (unat max_lba)"
  shows "ide_read dev lba n d = Inr (sectors d lba n)"
  using ide_read_loop_eq [OF assms(1,3), of 0 dev] lba_in_range(1) [OF assms(3), of 0] assms(2)
  by (simp add: ide_read_def)

lemma ide_read_1:
  assumes "drive_ok d" and "lba \<le> max_lba"
  shows "ide_read dev lba 1 d = Inr (dsecs d lba)"
  using ide_read_eq [OF assms(1), of 1 lba dev] assms(2) by (simp add: word_le_nat_alt)

text \<open>A write replaces exactly the sectors of the request.\<close>

definition written :: "drive \<Rightarrow> u32 \<Rightarrow> nat \<Rightarrow> u8 list \<Rightarrow> u32 \<Rightarrow> u8 list" where
  "written d lba n bs a = (if unat lba \<le> unat a \<and> unat a < unat lba + n
     then take 512 (drop (512 * (unat a - unat lba)) bs) else dsecs d a)"

lemma put_sectors_eq:
  "unat lba + n < 2 ^ 32 \<Longrightarrow> dsecs (put_sectors lba n bs d) = written d lba n bs \<and> dready (put_sectors lba n bs d) = dready d"
proof (induction n arbitrary: lba bs d)
  case (Suc n)
  have u: "unat (lba + 1) = Suc (unat lba)" using Suc.prems by (simp add: unat_word_ariths)
  have "written (d\<lparr>dsecs := (dsecs d)(lba := take 512 bs)\<rparr>) (lba + 1) n (drop 512 bs) a = written d lba (Suc n) bs a" for a
  proof (cases "unat lba \<le> unat a \<and> unat a < unat lba + Suc n")
    case True
    then consider "a = lba" | "unat (lba + 1) \<le> unat a" "unat a < unat (lba + 1) + n"
      using u by (metis Suc_leI add_Suc_shift le_neq_implies_less word_unat_eq_iff)
    then show ?thesis
    proof cases
      case 2
      then have "512 * (unat a - Suc (unat lba)) + 512 = 512 * (unat a - unat lba)" using u by linarith
      then show ?thesis using 2 True by (simp add: written_def u drop_drop)
    qed (simp add: written_def u)
  next
    case False
    then show ?thesis by (auto simp: written_def u)
  qed
  then show ?case using Suc.IH [of "lba + 1" "drop 512 bs"] Suc.prems u by (simp add: fun_eq_iff)
qed (auto simp: written_def fun_eq_iff)

lemma written_split:
  assumes "unat lba + (m + n) < 2 ^ 32" and "dsecs e = written d lba m bs"
  shows "written e (lba + of_nat m) n (drop (512 * m) bs) = written d lba (m + n) bs"
proof
  fix a
  have u: "unat (lba + of_nat m) = unat lba + m"
    using assms(1) by (simp add: unat_word_ariths unat_of_nat)
  show "written e (lba + of_nat m) n (drop (512 * m) bs) a = written d lba (m + n) bs a"
  proof (cases "unat lba + m \<le> unat a \<and> unat a < unat lba + m + n")
    case True
    then have "512 * (unat a - (unat lba + m)) + 512 * m = 512 * (unat a - unat lba)" by (simp add: diff_mult_distrib2)
    then show ?thesis using True by (simp add: written_def u)
  next
    case False
    then show ?thesis by (auto simp: written_def u assms(2))
  qed
qed

lemma written_all: "written d lba 0 bs = dsecs d"
  by (rule ext) (auto simp: written_def)

lemma written_take: "written e l n (take (n * 512) xs) = written e l n xs"
proof
  fix a :: u32
  have "take 512 (drop (512 * i) (take (n * 512) xs)) = take 512 (drop (512 * i) xs)" if "i < n" for i
    using that by (simp add: drop_take min_def)
  moreover have "unat a - unat l < n" if "unat l \<le> unat a \<and> unat a < unat l + n" using that by linarith
  ultimately show "written e l n (take (n * 512) xs) a = written e l n xs a"
    unfolding written_def by presburger
qed

lemma ide_write_loop_eq:
  assumes r: "unat lba + sec_cnt \<le> Suc (unat max_lba)" and l: "512 * sec_cnt \<le> length bs"
  shows "secs_done \<le> sec_cnt \<Longrightarrow> dready e \<Longrightarrow> dsecs e = written d lba secs_done bs \<Longrightarrow>
    \<exists>d'. ide_write_loop dev lba bs sec_cnt secs_done e = Inr d' \<and> dready d' \<and> dsecs d' = written d lba sec_cnt bs"
proof (induction "sec_cnt - secs_done" arbitrary: secs_done e rule: less_induct)
  case less
  show ?case
  proof (cases "secs_done < sec_cnt")
    case True
    let ?op = "secs_op secs_done sec_cnt"
    note b = secs_op_bounds [OF True]
    obtain q where q: "select_sector dev (lba + of_nat secs_done) (of_nat ?op) = Inr q"
      "cmd_lba q = lba + of_nat secs_done" "r_sect_cnt q = of_nat ?op"
      using select_sector_ok lba_in_range(1) [OF r True] by metis
    let ?e = "put_sectors (lba + of_nat secs_done) ?op (take (?op * 512) (drop (secs_done * 512) bs)) e"
    have w: "write2sector q (drop (secs_done * 512) bs) (of_nat ?op) e = Inr ?e"
    proof -
      have "?op * 512 \<le> length bs - secs_done * 512" using b l by linarith
      then show ?thesis using q b by (simp add: write2sector_def xfer_of_nat cmd_cnt_of_nat)
    qed
    have nw: "unat lba + (secs_done + ?op) < 2 ^ 32" "unat (lba + of_nat secs_done) + ?op < 2 ^ 32"
      using r b lba_in_range(2) [OF r True] by (simp_all add: max_lba_def)
    have e: "dready ?e" "dsecs ?e = written d lba (secs_done + ?op) bs"
      using put_sectors_eq [OF nw(2)] written_take written_split [OF nw(1) less.prems(3)] less.prems(2) by (simp_all add: mult.commute)
    have "sec_cnt - (secs_done + ?op) < sec_cnt - secs_done" "secs_done + ?op \<le> sec_cnt" using b True by linarith+
    from less.hyps [OF this e] show ?thesis
      using True q(1) w less.prems(2) by (simp add: ide_write_loop.simps [of dev lba bs sec_cnt secs_done] Let_def)
  next
    case False
    then show ?thesis using less.prems by (simp add: ide_write_loop.simps)
  qed
qed

lemma ide_write_ok:
  assumes d: "drive_ok d" and n: "0 < n" "unat lba + n \<le> Suc (unat max_lba)" and l: "512 * n \<le> length bs"
  obtains d' where "ide_write dev lba bs n d = Inr d'" and "drive_ok d'" and "dsecs d' = written d lba n bs"
proof -
  obtain d' where d': "ide_write_loop dev lba bs n 0 d = Inr d'" "dready d'" "dsecs d' = written d lba n bs"
    using ide_write_loop_eq [OF n(2) l, of 0 d d dev] d by (auto simp: drive_ok_def written_all)
  have "length (written d lba n bs a) = 512" for a
  proof (cases "unat lba \<le> unat a \<and> unat a < unat lba + n")
    case True
    then have "unat a - unat lba + 1 \<le> n" by linarith
    then have "512 * (unat a - unat lba) + 512 \<le> length bs" using l by linarith
    then show ?thesis using True by (simp add: written_def)
  next
    case False
    then show ?thesis using d unfolding written_def drive_ok_def by auto
  qed
  then have "drive_ok d'" using d' by (simp add: drive_ok_def)
  moreover have "lba \<le> max_lba" using lba_in_range(1) [OF n(2), of 0] n(1) by simp
  ultimately show ?thesis using that d' n(1) by (simp add: ide_write_def)
qed

lemma ide_write_1:
  assumes "drive_ok d" and "lba \<le> max_lba" and "512 \<le> length bs"
  obtains d' where "ide_write dev lba bs 1 d = Inr d'" and "drive_ok d'" and "dsecs d' = (dsecs d)(lba := take 512 bs)"
proof -
  have r: "unat lba + 1 \<le> Suc (unat max_lba)" using assms(2) by (simp add: word_le_nat_alt)
  obtain d' where d': "ide_write dev lba bs 1 d = Inr d'" "drive_ok d'" "dsecs d' = written d lba 1 bs"
    by (rule ide_write_ok [OF assms(1) _ r]) (use assms(3) in auto)
  have "unat lba \<le> unat a \<and> unat a < unat lba + 1 \<longleftrightarrow> a = lba" for a by (auto simp: word_unat_eq_iff)
  then have "written d lba 1 bs = (dsecs d)(lba := take 512 bs)" by (auto simp: written_def fun_eq_iff)
  then show ?thesis using that d' by simp
qed

lemma sectors_written:
  assumes "unat lba + n < 2 ^ 32" and "512 * n \<le> length bs" and "dsecs d' = written d lba n bs"
  shows "sectors d' lba n = take (512 * n) bs"
proof -
  have "sectors d' lba k = take (512 * k) bs" if "k \<le> n" for k
    using that
  proof (induction k)
    case (Suc k)
    have "unat (lba + of_nat k) = unat lba + k" using assms(1) Suc.prems by (simp add: unat_word_ariths unat_of_nat)
    then have "dsecs d' (lba + of_nat k) = take 512 (drop (512 * k) bs)"
      using Suc.prems by (simp add: assms(3) written_def)
    then show ?case using Suc take_add [of "512 * k" 512 bs] by (simp add: sectors_Suc add.commute)
  qed simp
  then show ?thesis by simp
qed

section \<open>Properties\<close>

text \<open>
  C25. A request of any length is split into commands without losing or repeating a sector: what
  \<^verbatim>\<open>ide_write\<close> stores, \<^verbatim>\<open>ide_read\<close> returns, also when the request is longer than the 256 sectors one
  command can carry; every sector outside the request keeps its contents.
\<close>

theorem ide_write_read:
  assumes "drive_ok d" and "0 < n" and "unat lba + n \<le> Suc (unat max_lba)" and "length bs = 512 * n"
  shows "\<exists>d'. ide_write dev lba bs n d = Inr d' \<and> ide_read dev lba n d' = Inr bs \<and>
     (\<forall>a. unat a < unat lba \<or> unat lba + n \<le> unat a \<longrightarrow> ide_read dev a 1 d' = ide_read dev a 1 d)"
proof -
  obtain d' where d': "ide_write dev lba bs n d = Inr d'" "drive_ok d'" "dsecs d' = written d lba n bs"
    by (rule ide_write_ok [OF assms(1-3)]) (use assms(4) in auto)
  have "sectors d' lba n = bs"
    using sectors_written [OF _ _ d'(3)] assms(3,4) by (simp add: max_lba_def)
  moreover have "ide_read dev a 1 d' = ide_read dev a 1 d" if "unat a < unat lba \<or> unat lba + n \<le> unat a" for a
  proof (cases "a \<le> max_lba")
    case True
    then show ?thesis using that ide_read_1 [OF d'(2)] ide_read_1 [OF assms(1)] by (auto simp: d'(3) written_def)
  qed (simp add: ide_read_def)
  ultimately show ?thesis using d'(1) ide_read_eq [OF d'(2) assms(2,3)] by auto
qed

definition sample_drive :: drive where
  "sample_drive = \<lparr>dsecs = (\<lambda>_. replicate 512 0), dready = True\<rparr>"

lemma sample_drive_ok: "drive_ok sample_drive"
  by (simp add: drive_ok_def sample_drive_def)

theorem ide_write_read_witness:
  "\<exists>d'. ide_write 1 2048 (replicate (512 * 600) 7) 600 sample_drive = Inr d' \<and>
     ide_read 1 2048 600 d' = Inr (replicate (512 * 600) 7)"
  using ide_write_read [OF sample_drive_ok, of 600 2048 "replicate (512 * 600) 7" 1]
  by (auto simp: max_lba_def)

end
