(* ===== verification/Inode.thy ===== *)
theory Inode
  imports Disk Bitmap
begin

text \<open>
  Model of the file system's on-disk structures and of \<^verbatim>\<open>fs/inode.c\<close>, with the bitmap allocation and
  \<^verbatim>\<open>bitmap_sync\<close> of \<^verbatim>\<open>fs/file.c\<close> that it uses. Structures on disk are bytes in the layout of the i386
  compiler (\<^verbatim>\<open>bool\<close> is \<^verbatim>\<open>int\<close> here). An open inode is the one object of \<^verbatim>\<open>open_inodes\<close> with its number, so a
  pointer to it is its number; \<open>PageFault\<close> is a pointer to no open inode. Buffers from \<^verbatim>\<open>sys_malloc\<close> are
  values of the size asked for, an access beyond it is \<open>OutOfBounds\<close>; \<open>mallocs\<close> holds the answers of the
  next calls of \<^verbatim>\<open>sys_malloc\<close> (true when it finds memory; it finds memory when the list is used up).
\<close>

section \<open>Bytes and words\<close>

definition le32 :: "u32 \<Rightarrow> u8 list" where
  "le32 w = [ucast w, ucast (drop_bit 8 w), ucast (drop_bit 16 w), ucast (drop_bit 24 w)]"

definition rd32 :: "u8 list \<Rightarrow> nat \<Rightarrow> u32" where
  "rd32 bs i = ucast (bs ! i) OR push_bit 8 (ucast (bs ! (i + 1))) OR push_bit 16 (ucast (bs ! (i + 2))) OR
     push_bit 24 (ucast (bs ! (i + 3)))"

text \<open>\<^verbatim>\<open>memcpy(buf + off, xs, length xs)\<close>.\<close>

definition patch :: "nat \<Rightarrow> 'a list \<Rightarrow> 'a list \<Rightarrow> 'a list result" where
  "patch off xs buf = (if off + length xs \<le> length buf
     then Inr (take off buf @ xs @ drop (off + length xs) buf) else Inl OutOfBounds)"

section \<open>Data\<close>

record inode =
  i_no :: u32
  i_size :: u32
  i_open_cnts :: u32
  write_deny :: bool
  i_sectors :: "u32 list"

record super_block =
  magic :: u32
  sb_sec_cnt :: u32
  inode_cnt :: u32
  part_lba_base :: u32
  block_bitmap_lba :: u32
  block_bitmap_sects :: u32
  inode_bitmap_lba :: u32
  inode_bitmap_sects :: u32
  inode_table_lba :: u32
  inode_table_sects :: u32
  data_start_lba :: u32
  root_inode_no :: u32
  dir_entry_size :: u32

record partition =
  start_lba :: u32
  sec_cnt :: u32
  part_dev :: u8
  sb :: super_block
  block_bitmap :: bitmap
  inode_bitmap :: bitmap
  open_inodes :: "inode list"

datatype fref = NoInode | InodeAt u32 | PipeAt u32

record kfile =
  fd_pos :: u32
  fd_flag :: u32
  fd_inode :: fref

text \<open>\<^verbatim>\<open>struct dir\<close>, without its buffer: the entry that \<^verbatim>\<open>dir_read\<close> points to is returned as a value.\<close>

record dir =
  dir_inode :: u32
  dir_pos :: u32

record fsys =
  hd_drive :: drive
  cur_part :: partition
  root_dir :: dir
  file_table :: "kfile list"
  cur_fds :: "int list"
  cur_cwd :: u32
  mallocs :: "bool list"

definition sys_malloc_ok :: "fsys \<Rightarrow> bool \<times> fsys" where
  "sys_malloc_ok fs = (case mallocs fs of [] \<Rightarrow> (True, fs) | b # bs \<Rightarrow> (b, fs\<lparr>mallocs := bs\<rparr>))"

abbreviation fsb :: "fsys \<Rightarrow> super_block" where
  "fsb fs \<equiv> sb (cur_part fs)"

definition fs_read :: "u32 \<Rightarrow> nat \<Rightarrow> fsys \<Rightarrow> u8 list result" where
  "fs_read lba n fs = ide_read (part_dev (cur_part fs)) lba n (hd_drive fs)"

definition fs_write :: "u32 \<Rightarrow> u8 list \<Rightarrow> nat \<Rightarrow> fsys \<Rightarrow> fsys result" where
  "fs_write lba bs n fs = mapR (\<lambda>d. fs\<lparr>hd_drive := d\<rparr>) (ide_write (part_dev (cur_part fs)) lba bs n (hd_drive fs))"

definition upd_part :: "(partition \<Rightarrow> partition) \<Rightarrow> fsys \<Rightarrow> fsys" where
  "upd_part f fs = fs\<lparr>cur_part := f (cur_part fs)\<rparr>"

definition the_inode :: "u32 \<Rightarrow> fsys \<Rightarrow> inode result" where
  "the_inode r fs = (case find (\<lambda>i. i_no i = r) (open_inodes (cur_part fs)) of None \<Rightarrow> Inl PageFault | Some i \<Rightarrow> Inr i)"

definition upd_inode :: "u32 \<Rightarrow> (inode \<Rightarrow> inode) \<Rightarrow> fsys \<Rightarrow> fsys" where
  "upd_inode r f = upd_part (\<lambda>p. p\<lparr>open_inodes := map (\<lambda>i. if i_no i = r then f i else i) (open_inodes p)\<rparr>)"

section \<open>Layout of an inode\<close>

definition INODE_SIZE :: nat where
  "INODE_SIZE = 76"

definition enc_inode :: "inode \<Rightarrow> u8 list" where
  "enc_inode i = le32 (i_no i) @ le32 (i_size i) @ le32 (i_open_cnts i) @ le32 (if write_deny i then 1 else 0) @
     concat (map le32 (i_sectors i)) @ le32 0 @ le32 0"

definition dec_inode :: "u8 list \<Rightarrow> inode" where
  "dec_inode bs = \<lparr>i_no = rd32 bs 0, i_size = rd32 bs 4, i_open_cnts = rd32 bs 8, write_deny = (rd32 bs 12 \<noteq> 0),
     i_sectors = map (\<lambda>k. rd32 bs (16 + 4 * k)) [0..<13]\<rparr>"

section \<open>Bitmaps of the partition\<close>

definition inode_bitmap_alloc :: "fsys \<Rightarrow> (u32 option \<times> fsys) result" where
  "inode_bitmap_alloc fs =
     (let b = inode_bitmap (cur_part fs) in
      bindR (bitmap_scan b 1) (\<lambda>bit_idx.
      if bit_idx = -1 then Inr (None, fs)
      else mapR (\<lambda>b. (Some (of_int bit_idx), upd_part (\<lambda>p. p\<lparr>inode_bitmap := b\<rparr>) fs)) (bitmap_set b (nat bit_idx) 1)))"

definition block_bitmap_alloc :: "fsys \<Rightarrow> (u32 option \<times> fsys) result" where
  "block_bitmap_alloc fs =
     (let b = block_bitmap (cur_part fs) in
      bindR (bitmap_scan b 1) (\<lambda>bit_idx.
      if bit_idx = -1 then Inr (None, fs)
      else mapR (\<lambda>b. (Some (data_start_lba (fsb fs) + of_int bit_idx), upd_part (\<lambda>p. p\<lparr>block_bitmap := b\<rparr>) fs))
             (bitmap_set b (nat bit_idx) 1)))"

datatype bitmap_type = INODE_BITMAP | BLOCK_BITMAP

definition bitmap_sync :: "u32 \<Rightarrow> bitmap_type \<Rightarrow> fsys \<Rightarrow> fsys result" where
  "bitmap_sync bit_idx btmp_type fs =
     (let off_sec = bit_idx div 4096; off_size = unat (off_sec * 512);
          (sec_lba, bitmap_off) = (case btmp_type of
             INODE_BITMAP \<Rightarrow> (inode_bitmap_lba (fsb fs) + off_sec, drop off_size (bits (inode_bitmap (cur_part fs))))
           | BLOCK_BITMAP \<Rightarrow> (block_bitmap_lba (fsb fs) + off_sec, drop off_size (bits (block_bitmap (cur_part fs)))))
      in fs_write sec_lba bitmap_off 1 fs)"

section \<open>Operations on inodes\<close>

record inode_position =
  two_sec :: bool
  sec_lba :: u32
  off_size :: nat

definition inode_locate :: "u32 \<Rightarrow> fsys \<Rightarrow> inode_position result" where
  "inode_locate inode_no fs =
     ASSERT (inode_no < 4096) ''inode_no < 4096''
       (let off = unat inode_no * INODE_SIZE; off_sec = off div 512; off_in_sec = off mod 512; left_in_sec = 512 - off_in_sec
        in Inr \<lparr>two_sec = left_in_sec < INODE_SIZE, sec_lba = inode_table_lba (fsb fs) + of_nat off_sec, off_size = off_in_sec\<rparr>)"

text \<open>Read the one or two sectors at \<open>pos\<close> into a buffer of \<open>io_len\<close> bytes, overwrite the inode's bytes, write back.\<close>

definition inode_rewrite :: "inode_position \<Rightarrow> u8 list \<Rightarrow> nat \<Rightarrow> fsys \<Rightarrow> fsys result" where
  "inode_rewrite pos bs io_len fs =
     (let n = if two_sec pos then 2 else 1 in
      bindR (fs_read (sec_lba pos) n fs) (\<lambda>inode_buf.
      if io_len < n * 512 then Inl OutOfBounds
      else bindR (patch (off_size pos) bs inode_buf) (\<lambda>inode_buf. fs_write (sec_lba pos) inode_buf n fs)))"

definition in_part :: "u32 \<Rightarrow> fsys \<Rightarrow> bool" where
  "in_part lba fs \<longleftrightarrow> lba \<le> start_lba (cur_part fs) + sec_cnt (cur_part fs)"

text \<open>\<^verbatim>\<open>uint8_t inode_no = inode->i_no\<close> keeps the low eight bits of the number.\<close>

definition inode_sync :: "inode \<Rightarrow> nat \<Rightarrow> fsys \<Rightarrow> fsys result" where
  "inode_sync ino io_len fs =
     (let inode_no = ucast (ucast (i_no ino) :: u8) :: u32 in
      bindR (inode_locate inode_no fs) (\<lambda>pos.
      ASSERT (in_part (sec_lba pos) fs) ''inode_pos.sec_lba <= (part->start_lba + part->sec_cnt)''
        (inode_rewrite pos (enc_inode (ino\<lparr>i_open_cnts := 0, write_deny := False\<rparr>)) io_len fs)))"

definition inode_open :: "u32 \<Rightarrow> fsys \<Rightarrow> (u32 \<times> fsys) result" where
  "inode_open inode_no fs =
     (case find (\<lambda>i. i_no i = inode_no) (open_inodes (cur_part fs)) of
        Some i \<Rightarrow> Inr (inode_no, upd_inode inode_no (\<lambda>i. i\<lparr>i_open_cnts := i_open_cnts i + 1\<rparr>) fs)
      | None \<Rightarrow>
          bindR (inode_locate inode_no fs) (\<lambda>pos.
          let (ok1, fs) = sys_malloc_ok fs; (ok2, fs) = sys_malloc_ok fs in
          if \<not> ok1 \<or> \<not> ok2 then Inl NullDeref
          else bindR (fs_read (sec_lba pos) (if two_sec pos then 2 else 1) fs) (\<lambda>inode_buf.
          let found = dec_inode (drop (off_size pos) inode_buf)\<lparr>i_open_cnts := 1\<rparr>
          in Inr (i_no found, upd_part (\<lambda>p. p\<lparr>open_inodes := found # open_inodes p\<rparr>) fs))))"

definition inode_close :: "u32 \<Rightarrow> fsys \<Rightarrow> fsys result" where
  "inode_close r fs =
     bindR (the_inode r fs) (\<lambda>i.
     let i = i\<lparr>i_open_cnts := i_open_cnts i - 1\<rparr>
     in if i_open_cnts i = 0 then Inr (upd_part (\<lambda>p. p\<lparr>open_inodes := filter (\<lambda>i. i_no i \<noteq> r) (open_inodes p)\<rparr>) fs)
        else Inr (upd_inode r (\<lambda>_. i) fs))"

definition inode_delete :: "u32 \<Rightarrow> nat \<Rightarrow> fsys \<Rightarrow> fsys result" where
  "inode_delete inode_no io_len fs =
     ASSERT (inode_no < 4096) ''inode_no < 4096''
     (bindR (inode_locate inode_no fs) (\<lambda>pos.
      ASSERT (in_part (sec_lba pos) fs) ''inode_pos.sec_lba <= (part->start_lba + part->sec_cnt)''
        (inode_rewrite pos (replicate INODE_SIZE 0) io_len fs)))"

text \<open>Clear the bit of a block of the data area and write the bitmap back.\<close>

definition block_free :: "u32 \<Rightarrow> fsys \<Rightarrow> fsys result" where
  "block_free lba fs =
     (let block_bitmap_idx = lba - data_start_lba (fsb fs) in
      bindR (bitmap_set (block_bitmap (cur_part fs)) (unat block_bitmap_idx) 0) (\<lambda>b.
      bitmap_sync block_bitmap_idx BLOCK_BITMAP (upd_part (\<lambda>p. p\<lparr>block_bitmap := b\<rparr>) fs)))"

fun release_blocks :: "u32 list \<Rightarrow> fsys \<Rightarrow> fsys result" where
  "release_blocks [] fs = Inr fs"
| "release_blocks (a # as) fs =
     bindR (if a \<noteq> 0 then ASSERT (a - data_start_lba (fsb fs) > 0) ''block_bitmap_idx > 0'' (block_free a fs) else Inr fs)
       (release_blocks as)"

text \<open>The 128 block numbers of an indirect table.\<close>

definition table_words :: "u8 list \<Rightarrow> u32 list" where
  "table_words bs = map (\<lambda>k. rd32 bs (4 * k)) [0..<128]"

definition inode_release :: "u32 \<Rightarrow> fsys \<Rightarrow> fsys result" where
  "inode_release inode_no fs =
     bindR (inode_open inode_no fs) (\<lambda>(r, fs).
     ASSERT (r = inode_no) ''inode_to_del->i_no == inode_no''
     (bindR (the_inode r fs) (\<lambda>ino.
      let direct = take 12 (i_sectors ino); tab = i_sectors ino ! 12 in
      bindR (if tab \<noteq> 0 then
               bindR (fs_read tab 1 fs) (\<lambda>bs.
               ASSERT (tab - data_start_lba (fsb fs) > 0) ''block_bitmap_idx > 0''
                 (mapR (\<lambda>fs. (direct @ table_words bs, fs)) (block_free tab fs)))
             else Inr (direct, fs)) (\<lambda>(all_blocks, fs).
      bindR (release_blocks all_blocks fs) (\<lambda>fs.
      bindR (bitmap_set (inode_bitmap (cur_part fs)) (unat inode_no) 0) (\<lambda>b.
      bindR (bitmap_sync inode_no INODE_BITMAP (upd_part (\<lambda>p. p\<lparr>inode_bitmap := b\<rparr>) fs)) (\<lambda>fs.
      let (ok, fs) = sys_malloc_ok fs in
      if \<not> ok then Inl NullDeref
      else bindR (inode_delete inode_no 1024 fs) (inode_close r)))))))) "

definition inode_init :: "u32 \<Rightarrow> inode" where
  "inode_init inode_no = \<lparr>i_no = inode_no, i_size = 0, i_open_cnts = 0, write_deny = False, i_sectors = replicate 13 0\<rparr>"

section \<open>Encoding lemmas\<close>

lemma le32_length [simp]: "length (le32 w) = 4"
  by (simp add: le32_def)

lemma word_bytes:
  fixes w :: u32
  shows "ucast (ucast w :: u8) OR push_bit 8 (ucast (ucast (drop_bit 8 w) :: u8)) OR
     push_bit 16 (ucast (ucast (drop_bit 16 w) :: u8)) OR push_bit 24 (ucast (ucast (drop_bit 24 w) :: u8)) = w"
proof (rule bit_word_eqI)
  fix n assume n: "n < LENGTH(32)"
  consider "n < 8" | "8 \<le> n" "n < 16" | "16 \<le> n" "n < 24" | "24 \<le> n" by linarith
  then show "bit ((ucast (ucast w :: u8) :: u32) OR push_bit 8 (ucast (ucast (drop_bit 8 w) :: u8)) OR
     push_bit 16 (ucast (ucast (drop_bit 16 w) :: u8)) OR push_bit 24 (ucast (ucast (drop_bit 24 w) :: u8))) n = bit w n"
    using n by cases (auto simp: bit_simps)
qed

lemma rd32_le32: "rd32 (xs @ le32 w @ ys) (length xs) = w"
  unfolding rd32_def le32_def using word_bytes [of w] by (simp add: nth_append or.assoc)

lemma rd32_append1: "i + 3 < length xs \<Longrightarrow> rd32 (xs @ ys) i = rd32 xs i"
  by (simp add: rd32_def nth_append)

lemma rd32_drop: "i + 3 + k < length xs \<Longrightarrow> rd32 (drop k xs) i = rd32 xs (k + i)"
  by (simp add: rd32_def algebra_simps)

lemma rd32_take: "i + 3 < n \<Longrightarrow> rd32 (take n xs) i = rd32 xs i"
  by (simp add: rd32_def)

lemma concat_le32_length: "length (concat (map le32 ws)) = 4 * length ws"
  by (induction ws) simp_all

lemma rd32_concat:
  "k < length ws \<Longrightarrow> rd32 (xs @ concat (map le32 ws) @ ys) (length xs + 4 * k) = ws ! k"
proof (induction ws arbitrary: xs k)
  case (Cons w ws)
  show ?case
  proof (cases k)
    case 0
    then show ?thesis using rd32_le32 [of xs w "concat (map le32 ws) @ ys"] by simp
  next
    case (Suc j)
    then show ?thesis using Cons.IH [of j "xs @ le32 w"] Cons.prems by (simp add: algebra_simps)
  qed
qed simp

definition wf_inode :: "inode \<Rightarrow> bool" where
  "wf_inode i \<longleftrightarrow> length (i_sectors i) = 13"

lemma enc_inode_length [simp]: "wf_inode i \<Longrightarrow> length (enc_inode i) = INODE_SIZE"
  by (simp add: enc_inode_def concat_le32_length wf_inode_def INODE_SIZE_def)

lemma dec_enc_inode:
  assumes "wf_inode i"
  shows "dec_inode (enc_inode i @ ys) = i"
proof -
  have l: "length (i_sectors i) = 13" using assms by (simp add: wf_inode_def)
  let ?e = "enc_inode i @ ys"
  let ?h = "le32 (i_no i) @ le32 (i_size i) @ le32 (i_open_cnts i) @ le32 (if write_deny i then 1 else 0)"
  have "rd32 ?e (16 + 4 * k) = i_sectors i ! k" if "k < 13" for k
    using rd32_concat [of k "i_sectors i" ?h "le32 0 @ le32 0 @ ys"] that l by (simp add: enc_inode_def)
  then have "map (\<lambda>k. rd32 ?e (16 + 4 * k)) [0..<13] = map ((!) (i_sectors i)) [0..<13]" by (intro map_cong) auto
  also have "\<dots> = i_sectors i" using map_nth [of "i_sectors i"] l by simp
  finally have s: "map (\<lambda>k. rd32 ?e (16 + 4 * k)) [0..<13] = i_sectors i" .
  have "rd32 ?e 0 = i_no i" using rd32_le32 [of "[]"] by (simp add: enc_inode_def)
  moreover have "rd32 ?e 4 = i_size i" using rd32_le32 [of "le32 (i_no i)"] by (simp add: enc_inode_def)
  moreover have "rd32 ?e 8 = i_open_cnts i" using rd32_le32 [of "le32 (i_no i) @ le32 (i_size i)"] by (simp add: enc_inode_def)
  moreover have "rd32 ?e 12 = (if write_deny i then 1 else 0)"
    using rd32_le32 [of "le32 (i_no i) @ le32 (i_size i) @ le32 (i_open_cnts i)"] by (simp add: enc_inode_def)
  ultimately show ?thesis using s by (cases i) (simp add: dec_inode_def)
qed

lemma dec_inode_take: "76 \<le> length bs \<Longrightarrow> dec_inode (take 76 bs) = dec_inode bs"
  by (simp add: dec_inode_def rd32_take)

section \<open>The inode table\<close>

definition table_bytes :: "fsys \<Rightarrow> u8 list" where
  "table_bytes fs = sectors (hd_drive fs) (inode_table_lba (fsb fs)) 608"

definition disk_inode :: "fsys \<Rightarrow> nat \<Rightarrow> inode" where
  "disk_inode fs no = dec_inode (take 76 (drop (76 * no) (table_bytes fs)))"

text \<open>The inode table lies on the disk and inside the partition.\<close>

definition wf_disk :: "fsys \<Rightarrow> bool" where
  "wf_disk fs \<longleftrightarrow> drive_ok (hd_drive fs) \<and> unat (inode_table_lba (fsb fs)) + 608 \<le> Suc (unat max_lba) \<and>
     unat (inode_table_lba (fsb fs)) + 608 \<le> unat (start_lba (cur_part fs) + sec_cnt (cur_part fs))"

lemma sectors_sub:
  assumes "drive_ok d" and "k + n \<le> N"
  shows "sectors d (lba + of_nat k) n = take (512 * n) (drop (512 * k) (sectors d lba N))"
proof -
  have "sectors d lba N = sectors d lba k @ sectors d (lba + of_nat k) n @ sectors d (lba + of_nat (k + n)) (N - (k + n))"
    using assms(2) sectors_add [of d lba k "N - k"] sectors_add [of d "lba + of_nat k" n "N - (k + n)"]
    by (simp add: add.assoc)
  then show ?thesis using assms(1) by simp
qed

lemma sectors_patch:
  assumes d: "drive_ok d" and w: "dsecs d' = written d (lba + of_nat k) n bs" and k: "k + n \<le> N" and l: "length bs = 512 * n"
    and r: "unat lba + N < 2 ^ 32"
  shows "sectors d' lba N = take (512 * k) (sectors d lba N) @ bs @ drop (512 * (k + n)) (sectors d lba N)"
proof -
  have u: "unat (lba + of_nat i) = unat lba + i" if "i \<le> N" for i
    using that r by (simp add: unat_word_ariths unat_of_nat)
  have keep: "sectors d' (lba + of_nat i) m = sectors d (lba + of_nat i) m"
    if "\<forall>j < m. i + j < k \<or> k + n \<le> i + j" "i + m \<le> N" for i m
  proof -
    have "dsecs d' (lba + of_nat i + of_nat j) = dsecs d (lba + of_nat i + of_nat j)" if "j < m" for j
      using that \<open>\<forall>j < m. _\<close> \<open>i + m \<le> N\<close> u [of "i + j"] u [of k] k by (auto simp: w written_def add.assoc)
    then show ?thesis unfolding sectors_def by (intro arg_cong [of _ _ concat] map_cong) auto
  qed
  have mid: "sectors d' (lba + of_nat k) n = bs"
    using sectors_written [OF _ _ w] u [of k] k l r by simp
  have split: "sectors e lba N = sectors e lba k @ sectors e (lba + of_nat k) n @ sectors e (lba + of_nat (k + n)) (N - (k + n))" for e
    using k sectors_add [of e lba k "N - k"] sectors_add [of e "lba + of_nat k" n "N - (k + n)"] by (simp add: add.assoc)
  have a: "sectors d' lba k = sectors d lba k" using keep [of k 0] k by simp
  have b: "sectors d' (lba + of_nat (k + n)) (N - (k + n)) = sectors d (lba + of_nat (k + n)) (N - (k + n))"
    using keep [of "N - (k + n)" "k + n"] k by simp
  show ?thesis unfolding split [of d'] split [of d] a b mid using d by simp
qed

lemma inode_span:
  fixes no :: nat
  assumes "no < 4096"
  defines "k \<equiv> no * 76 div 512" and "o' \<equiv> no * 76 mod 512" and "n \<equiv> (if 512 - no * 76 mod 512 < 76 then 2 else 1)"
  shows "o' + 76 \<le> 512 * n" and "k + n \<le> 608" and "512 * k + o' = 76 * no"
proof -
  have n: "n = (if 512 - o' < 76 then 2 else 1)" by (simp only: n_def o'_def)
  have "o' < 512" by (simp add: o'_def)
  then show "o' + 76 \<le> 512 * n" unfolding n by auto
  have e: "512 * k + o' = 76 * no" unfolding k_def o'_def by (metis mult.commute mult_div_mod_eq)
  then show "512 * k + o' = 76 * no" .
  have "76 * no \<le> 76 * 4095" using assms(1) by simp
  then have "76 * no + 76 \<le> 512 * 608" by simp
  then show "k + n \<le> 608"
  proof (cases "512 - o' < 76")
    case True
    then have "n = 2" by (simp add: n)
    moreover have "512 * k + 512 < 512 * 608" using e True \<open>76 * no + 76 \<le> _\<close> by linarith
    ultimately show ?thesis by simp
  next
    case False
    then have "n = 1" by (simp add: n)
    moreover have "512 * k < 512 * 608" using e \<open>76 * no + 76 \<le> _\<close> by linarith
    ultimately show ?thesis by simp
  qed
qed

text \<open>Overwriting the bytes of one inode through its one or two sectors.\<close>

lemma inode_rewrite_ok:
  assumes wf: "wf_disk fs" and no: "no < 4096" and bs: "length bs = 76"
    and p: "inode_locate (of_nat no) fs = Inr pos" and io: "(if two_sec pos then 2 else 1) * 512 \<le> io_len"
  obtains d where "inode_rewrite pos bs io_len fs = Inr (fs\<lparr>hd_drive := d\<rparr>)" and "drive_ok d"
    and "sectors d (inode_table_lba (fsb fs)) 608 = take (76 * no) (table_bytes fs) @ bs @ drop (76 * no + 76) (table_bytes fs)"
    and "\<forall>a. unat a < unat (inode_table_lba (fsb fs)) \<or> unat (inode_table_lba (fsb fs)) + 608 \<le> unat a \<longrightarrow> dsecs d a = dsecs (hd_drive fs) a"
    and "in_part (sec_lba pos) fs"
proof -
  let ?t = "inode_table_lba (fsb fs)" let ?T = "table_bytes fs"
  define k o' n where kon: "k = no * 76 div 512" "o' = no * 76 mod 512" "n = (if 512 - o' < 76 then 2 else (1 :: nat))"
  have sp: "o' + 76 \<le> 512 * n" "k + n \<le> 608" "512 * k + o' = 76 * no" using inode_span [OF no] by (simp_all only: kon)
  have n0: "0 < n" by (simp add: kon(3))
  have dok: "drive_ok (hd_drive fs)" and mx: "unat ?t + 608 \<le> Suc (unat max_lba)"
    and pt: "unat ?t + 608 \<le> unat (start_lba (cur_part fs) + sec_cnt (cur_part fs))" using wf by (simp_all add: wf_disk_def)
  have un: "unat (of_nat no :: u32) = no" using no by (simp add: unat_of_nat)
  then have pos: "pos = \<lparr>two_sec = (512 - o' < 76), sec_lba = ?t + of_nat k, off_size = o'\<rparr>"
    using p by (simp only: inode_locate_def ASSERT_Inr_iff Let_def INODE_SIZE_def kon) blast
  have u: "unat (?t + of_nat k) = unat ?t + k"
    using sp(2) mx n0 by (intro lba_in_range(2) [of ?t 608]) auto
  have rd: "fs_read (?t + of_nat k) n fs = Inr (take (512 * n) (drop (512 * k) ?T))"
    unfolding fs_read_def table_bytes_def using sp(2) u mx n0
    by (subst ide_read_eq [OF dok]) (auto simp: sectors_sub [OF dok sp(2)])
  have lT: "length ?T = 512 * 608" using dok by (simp add: table_bytes_def)
  let ?B = "take (512 * n) (drop (512 * k) ?T)"
  have lB: "length ?B = 512 * n" using sp(2) lT by simp
  define B' where "B' = take o' ?B @ bs @ drop (o' + 76) ?B"
  have pa: "patch o' bs ?B = Inr B'" using sp(1) bs lB by (simp add: patch_def B'_def)
  have lB': "length B' = 512 * n" using sp(1) bs lB by (simp add: B'_def)
  obtain d where d: "ide_write (part_dev (cur_part fs)) (?t + of_nat k) B' n (hd_drive fs) = Inr d" "drive_ok d"
    "dsecs d = written (hd_drive fs) (?t + of_nat k) n B'"
    by (rule ide_write_ok [OF dok]) (use sp(2) u mx lB' n0 in auto)
  have "inode_rewrite pos bs io_len fs = Inr (fs\<lparr>hd_drive := d\<rparr>)"
  proof -
    have "(if two_sec pos then 2 else 1) = n" by (simp add: pos kon(3))
    then show ?thesis using io rd pa d(1) by (simp add: inode_rewrite_def fs_write_def pos)
  qed
  moreover have "sectors d ?t 608 = take (76 * no) ?T @ bs @ drop (76 * no + 76) ?T"
  proof -
    have "sectors d ?t 608 = take (512 * k) ?T @ B' @ drop (512 * (k + n)) ?T"
      unfolding table_bytes_def using mx by (intro sectors_patch [OF dok d(3) sp(2) lB']) (simp add: max_lba_def)
    also have "\<dots> = (take (512 * k) ?T @ take o' ?B) @ bs @ (drop (o' + 76) ?B @ drop (512 * (k + n)) ?T)"
      by (simp add: B'_def)
    also have "take (512 * k) ?T @ take o' ?B = take (76 * no) ?T"
      using sp(1,3) by (simp add: take_add [symmetric] min_def)
    also have "drop (o' + 76) ?B @ drop (512 * (k + n)) ?T = drop (76 * no + 76) ?T"
    proof -
      have "76 * no + 76 = o' + 76 + 512 * k" using sp(3) by linarith
      then have "drop (76 * no + 76) ?T = drop (o' + 76) (drop (512 * k) ?T)" by (simp only: drop_drop)
      also have "drop (512 * k) ?T = ?B @ drop (512 * (k + n)) ?T"
        by (metis append_take_drop_id drop_drop add.commute distrib_left)
      also have "drop (o' + 76) (?B @ drop (512 * (k + n)) ?T) = drop (o' + 76) ?B @ drop (512 * (k + n)) ?T"
      proof -
        have z: "o' + 76 - length ?B = 0" unfolding lB using sp(1) by simp
        show ?thesis by (simp only: drop_append z drop_0)
      qed
      finally show ?thesis ..
    qed
    finally show ?thesis .
  qed
  moreover have "\<forall>a. unat a < unat ?t \<or> unat ?t + 608 \<le> unat a \<longrightarrow> dsecs d a = dsecs (hd_drive fs) a"
    using sp(2) by (auto simp: d(3) written_def u)
  moreover have "in_part (sec_lba pos) fs"
    using pt sp(2) u by (simp add: in_part_def pos word_le_nat_alt)
  ultimately show ?thesis using that d(2) by blast
qed

lemma slot_patch:
  fixes T :: "'a list"
  assumes "length bs = c" and "c * no + c \<le> length T" and "c * m + c \<le> length T"
  shows "take c (drop (c * m) (take (c * no) T @ bs @ drop (c * no + c) T)) = (if m = no then bs else take c (drop (c * m) T))"
proof -
  consider "m = no" | "m < no" | "no < m" by linarith
  then show ?thesis
  proof cases
    case 2
    then have le: "c * m + c \<le> c * no" using mult_le_mono2 [of "Suc m" no c] by simp
    have "take c (drop (c * m) (take (c * no) T @ bs @ drop (c * no + c) T)) = take c (drop (c * m) (take (c * no) T))"
      using le assms(2) by (simp add: drop_append)
    also have "\<dots> = take c (drop (c * m) T)" using le by (simp add: drop_take min_def)
    finally show ?thesis using 2 by simp
  next
    case 3
    then have le: "c * no + c \<le> c * m" using mult_le_mono2 [of "Suc no" m c] by simp
    then show ?thesis using 3 assms by (simp add: drop_append)
  qed (use assms in simp)
qed

lemma wf_disk_locate:
  assumes "no < 4096"
  obtains pos where "inode_locate (of_nat no) fs = Inr pos"
  using assms by (simp add: inode_locate_def Let_def word_less_nat_alt unat_of_nat)

definition sector_room :: "nat \<Rightarrow> nat" where
  "sector_room no = (if 512 - no * 76 mod 512 < 76 then 1024 else 512)"

lemma locate_two_sec: "no < 4096 \<Longrightarrow> inode_locate (of_nat no) fs = Inr pos \<Longrightarrow> two_sec pos \<longleftrightarrow> 512 - no * 76 mod 512 < 76"
  by (auto simp: inode_locate_def ASSERT_Inr_iff Let_def INODE_SIZE_def unat_of_nat)

text \<open>Storing the bytes of one entry of the inode table: that entry changes, no other, and no sector
  outside the table.\<close>

definition table_stored :: "fsys \<Rightarrow> nat \<Rightarrow> u8 list \<Rightarrow> drive \<Rightarrow> bool" where
  "table_stored fs no bs d \<longleftrightarrow> drive_ok d \<and>
     (\<forall>m < 4096. disk_inode (fs\<lparr>hd_drive := d\<rparr>) m = (if m = no then dec_inode bs else disk_inode fs m)) \<and>
     (\<forall>a. unat a < unat (inode_table_lba (fsb fs)) \<or> unat (inode_table_lba (fsb fs)) + 608 \<le> unat a \<longrightarrow>
        dsecs d a = dsecs (hd_drive fs) a)"

lemma inode_store_ok:
  assumes wf: "wf_disk fs" and no: "no < 4096" and bs: "length bs = 76" and io: "sector_room no \<le> io_len"
  obtains pos d where "inode_locate (of_nat no) fs = Inr pos" and "in_part (sec_lba pos) fs"
    and "inode_rewrite pos bs io_len fs = Inr (fs\<lparr>hd_drive := d\<rparr>)" and "table_stored fs no bs d"
proof -
  obtain pos where p: "inode_locate (of_nat no) fs = Inr pos" using wf_disk_locate [OF no] .
  have io': "(if two_sec pos then 2 else 1) * 512 \<le> io_len"
    using io locate_two_sec [OF no p] by (auto simp: sector_room_def split: if_splits)
  obtain d where d: "inode_rewrite pos bs io_len fs = Inr (fs\<lparr>hd_drive := d\<rparr>)" "drive_ok d"
    "sectors d (inode_table_lba (fsb fs)) 608 = take (76 * no) (table_bytes fs) @ bs @ drop (76 * no + 76) (table_bytes fs)"
    "\<forall>a. unat a < unat (inode_table_lba (fsb fs)) \<or> unat (inode_table_lba (fsb fs)) + 608 \<le> unat a \<longrightarrow> dsecs d a = dsecs (hd_drive fs) a"
    "in_part (sec_lba pos) fs"
    by (rule inode_rewrite_ok [OF wf no bs p io'])
  have lT: "length (table_bytes fs) = 76 * 4096" using wf by (simp add: table_bytes_def wf_disk_def)
  have "disk_inode (fs\<lparr>hd_drive := d\<rparr>) m = (if m = no then dec_inode bs else disk_inode fs m)" if "m < 4096" for m
    using slot_patch [OF bs, of no "table_bytes fs" m] that no lT by (simp add: disk_inode_def table_bytes_def d(3))
  then have "table_stored fs no bs d" using d(2,4) by (simp add: table_stored_def)
  then show ?thesis using that [OF p d(5,1)] by blast
qed

lemma inode_sync_ok:
  assumes wf: "wf_disk fs" and i: "wf_inode ino" and io: "sector_room (unat (i_no ino) mod 256) \<le> io_len"
  obtains d where "inode_sync ino io_len fs = Inr (fs\<lparr>hd_drive := d\<rparr>)"
    and "table_stored fs (unat (i_no ino) mod 256) (enc_inode (ino\<lparr>i_open_cnts := 0, write_deny := False\<rparr>)) d"
proof -
  let ?no = "unat (i_no ino) mod 256"
  have e: "length (enc_inode (ino\<lparr>i_open_cnts := 0, write_deny := False\<rparr>)) = 76"
    using i by (simp add: wf_inode_def INODE_SIZE_def)
  have c: "(ucast (ucast (i_no ino) :: u8) :: u32) = of_nat ?no"
  proof -
    have "?no < 256" by simp
    then have "unat (of_nat ?no :: u32) = ?no" by (simp add: unat_of_nat)
    then show ?thesis unfolding word_unat_eq_iff unat_ucast_8_32 unat_ucast_low8 by simp
  qed
  obtain pos d where "inode_locate (of_nat ?no) fs = Inr pos" "in_part (sec_lba pos) fs"
    "inode_rewrite pos (enc_inode (ino\<lparr>i_open_cnts := 0, write_deny := False\<rparr>)) io_len fs = Inr (fs\<lparr>hd_drive := d\<rparr>)"
    "table_stored fs ?no (enc_inode (ino\<lparr>i_open_cnts := 0, write_deny := False\<rparr>)) d"
    by (rule inode_store_ok [OF wf _ e io]) auto
  then show ?thesis using that c by (simp add: inode_sync_def)
qed

text \<open>Reading an inode that is not open.\<close>

lemma inode_read_ok:
  assumes wf: "wf_disk fs" and no: "no < 4096" and p: "inode_locate (of_nat no) fs = Inr pos"
  obtains buf where "fs_read (sec_lba pos) (if two_sec pos then 2 else 1) fs = Inr buf"
    and "dec_inode (drop (off_size pos) buf) = disk_inode fs no"
proof -
  let ?t = "inode_table_lba (fsb fs)" let ?T = "table_bytes fs"
  define k o' n where kon: "k = no * 76 div 512" "o' = no * 76 mod 512" "n = (if 512 - o' < 76 then 2 else (1 :: nat))"
  have sp: "o' + 76 \<le> 512 * n" "k + n \<le> 608" "512 * k + o' = 76 * no" using inode_span [OF no] by (simp_all only: kon)
  have n0: "0 < n" by (simp add: kon(3))
  have dok: "drive_ok (hd_drive fs)" and mx: "unat ?t + 608 \<le> Suc (unat max_lba)" using wf by (simp_all add: wf_disk_def)
  have un: "unat (of_nat no :: u32) = no" using no by (simp add: unat_of_nat)
  then have pos: "pos = \<lparr>two_sec = (512 - o' < 76), sec_lba = ?t + of_nat k, off_size = o'\<rparr>"
    using p by (simp only: inode_locate_def ASSERT_Inr_iff Let_def INODE_SIZE_def kon) blast
  have u: "unat (?t + of_nat k) = unat ?t + k"
    using sp(2) mx n0 by (intro lba_in_range(2) [of ?t 608]) auto
  have rd: "fs_read (?t + of_nat k) n fs = Inr (take (512 * n) (drop (512 * k) ?T))"
    unfolding fs_read_def table_bytes_def using sp(2) u mx n0
    by (subst ide_read_eq [OF dok]) (auto simp: sectors_sub [OF dok sp(2)])
  let ?B = "take (512 * n) (drop (512 * k) ?T)"
  have lT: "length ?T = 512 * 608" using dok by (simp add: table_bytes_def)
  have "length (drop o' ?B) \<ge> 76" using sp(1,2) lT by simp
  then have "dec_inode (drop o' ?B) = dec_inode (take 76 (drop o' ?B))" by (simp add: dec_inode_take)
  also have "take 76 (drop o' ?B) = take 76 (drop (76 * no) ?T)"
    using sp(1,3) by (simp add: drop_take min_def add.commute)
  finally have "dec_inode (drop o' ?B) = disk_inode fs no" by (simp add: disk_inode_def)
  moreover have "(if two_sec pos then 2 else 1) = n" by (simp add: pos kon(3))
  ultimately show ?thesis using that rd by (simp add: pos)
qed

text \<open>A buffer of one sector is too short for an entry that straddles two.\<close>

lemma inode_sync_short:
  assumes wf: "wf_disk fs" and io: "io_len < sector_room (unat (i_no ino) mod 256)" "512 \<le> io_len"
  shows "inode_sync ino io_len fs = Inl OutOfBounds"
proof -
  let ?no = "unat (i_no ino) mod 256"
  have c: "(ucast (ucast (i_no ino) :: u8) :: u32) = of_nat ?no"
    by (simp add: word_unat_eq_iff unat_ucast_8_32 unat_ucast_low8 unat_of_nat)
  have lt: "?no < 4096" using mod_less_divisor [of 256 "unat (i_no ino)"] by linarith
  obtain pos d where p: "inode_locate (of_nat ?no) fs = Inr pos" "in_part (sec_lba pos) fs"
    by (rule inode_store_ok [OF wf lt, of "replicate 76 0" 1024]) (auto simp: sector_room_def)
  obtain buf where b: "fs_read (sec_lba pos) (if two_sec pos then 2 else 1) fs = Inr buf"
    by (rule inode_read_ok [OF wf lt p(1)])
  have "two_sec pos" using locate_two_sec [OF lt p(1)] io by (simp add: sector_room_def split: if_splits)
  then show ?thesis using p b io by (simp add: inode_sync_def c inode_rewrite_def sector_room_def split: if_splits)
qed

section \<open>Opening and closing\<close>

lemma inode_open_fresh:
  assumes wf: "wf_disk fs" and no: "no < 4096" and nop: "\<forall>i \<in> set (open_inodes (cur_part fs)). i_no i \<noteq> of_nat no"
    and m: "mallocs fs = []"
  shows "inode_open (of_nat no) fs = Inr (i_no (disk_inode fs no),
     upd_part (\<lambda>p. p\<lparr>open_inodes := (disk_inode fs no)\<lparr>i_open_cnts := 1\<rparr> # open_inodes p\<rparr>) fs)"
proof -
  obtain pos where p: "inode_locate (of_nat no) fs = Inr pos" using wf_disk_locate [OF no] .
  obtain buf where b: "fs_read (sec_lba pos) (if two_sec pos then 2 else 1) fs = Inr buf" "dec_inode (drop (off_size pos) buf) = disk_inode fs no"
    by (rule inode_read_ok [OF wf no p])
  have f: "find (\<lambda>i. i_no i = of_nat no) (open_inodes (cur_part fs)) = None" using nop by (auto simp: find_None_iff)
  show ?thesis using p b m f by (simp add: inode_open_def sys_malloc_ok_def)
qed

section \<open>Properties\<close>

text \<open>
  C26. An inode survives the disk: for numbers below 256, \<^verbatim>\<open>inode_sync\<close> followed by \<^verbatim>\<open>inode_open\<close> on a
  file system where the inode is not open gives back number, size and block list, with one opening and
  writing allowed, also when the entry straddles two sectors; every other entry of the inode table keeps
  its value.
\<close>

theorem inode_sync_open_roundtrip:
  assumes "wf_disk fs" and "wf_inode ino" and "i_no ino < 256" and "1024 \<le> io_len"
    and "\<forall>i \<in> set (open_inodes (cur_part fs)). i_no i \<noteq> i_no ino" and "mallocs fs = []"
  shows "\<exists>fs' fs''. inode_sync ino io_len fs = Inr fs' \<and> inode_open (i_no ino) fs' = Inr (i_no ino, fs'') \<and>
     the_inode (i_no ino) fs'' = Inr (ino\<lparr>i_open_cnts := 1, write_deny := False\<rparr>) \<and>
     (\<forall>m < 4096. m \<noteq> unat (i_no ino) \<longrightarrow> disk_inode fs' m = disk_inode fs m)"
proof -
  let ?p = "ino\<lparr>i_open_cnts := 0, write_deny := False\<rparr>"
  have u: "unat (i_no ino) < 256" using assms(3) by (simp add: word_less_nat_alt)
  then have um: "unat (i_no ino) mod 256 = unat (i_no ino)" and on: "of_nat (unat (i_no ino)) = i_no ino" by simp_all
  have "sector_room (unat (i_no ino) mod 256) \<le> io_len" using assms(4) by (simp add: sector_room_def)
  then obtain d where d: "inode_sync ino io_len fs = Inr (fs\<lparr>hd_drive := d\<rparr>)"
    "table_stored fs (unat (i_no ino)) (enc_inode ?p) d"
    using inode_sync_ok [OF assms(1,2)] unfolding um by blast
  let ?fs = "fs\<lparr>hd_drive := d\<rparr>"
  have wp: "wf_inode ?p" using assms(2) by (simp add: wf_inode_def)
  have di: "disk_inode ?fs (unat (i_no ino)) = ?p"
    using d(2) u dec_enc_inode [OF wp, of "[]"] by (simp add: table_stored_def)
  have wf: "wf_disk ?fs" using assms(1) d(2) by (simp add: wf_disk_def table_stored_def)
  have op: "inode_open (i_no ino) ?fs = Inr (i_no ino,
      upd_part (\<lambda>p. p\<lparr>open_inodes := ?p\<lparr>i_open_cnts := 1\<rparr> # open_inodes p\<rparr>) ?fs)"
    using inode_open_fresh [OF wf, of "unat (i_no ino)"] u assms(5,6) unfolding di on by simp
  then show ?thesis using d by (auto simp: table_stored_def the_inode_def upd_part_def)
qed

text \<open>
  \<^verbatim>\<open>inode_sync\<close> keeps only eight bits of the inode number: an inode numbered 256 or more is stored over
  the entry of its number modulo 256, and its own entry is not written.
\<close>

theorem inode_sync_truncates_number:
  assumes "wf_disk fs" and "wf_inode ino" and "256 \<le> i_no ino" and "i_no ino < 4096" and "1024 \<le> io_len"
  shows "\<exists>fs'. inode_sync ino io_len fs = Inr fs' \<and>
     disk_inode fs' (unat (i_no ino) mod 256) = ino\<lparr>i_open_cnts := 0, write_deny := False\<rparr> \<and>
     disk_inode fs' (unat (i_no ino)) = disk_inode fs (unat (i_no ino))"
proof -
  let ?p = "ino\<lparr>i_open_cnts := 0, write_deny := False\<rparr>"
  have u: "256 \<le> unat (i_no ino)" "unat (i_no ino) < 4096" using assms(3,4) by (simp_all add: word_less_nat_alt word_le_nat_alt)
  have lt: "unat (i_no ino) mod 256 < 256" by simp
  have "sector_room (unat (i_no ino) mod 256) \<le> io_len" using assms(5) by (simp add: sector_room_def)
  then obtain d where d: "inode_sync ino io_len fs = Inr (fs\<lparr>hd_drive := d\<rparr>)"
    "table_stored fs (unat (i_no ino) mod 256) (enc_inode ?p) d"
    using inode_sync_ok [OF assms(1,2)] by blast
  have wp: "wf_inode ?p" using assms(2) by (simp add: wf_inode_def)
  have "unat (i_no ino) mod 256 < 4096" "unat (i_no ino) \<noteq> unat (i_no ino) mod 256" using lt u by linarith+
  then show ?thesis using d u dec_enc_inode [OF wp, of "[]"] by (auto simp: table_stored_def)
qed

definition sample_fs :: fsys where
  "sample_fs = \<lparr>hd_drive = sample_drive,
     cur_part = \<lparr>start_lba = 2048, sec_cnt = 100000, part_dev = 1,
       sb = \<lparr>magic = 0x19590318, sb_sec_cnt = 100000, inode_cnt = 4096, part_lba_base = 2048, block_bitmap_lba = 2050,
         block_bitmap_sects = 25, inode_bitmap_lba = 2075, inode_bitmap_sects = 1, inode_table_lba = 2076,
         inode_table_sects = 608, data_start_lba = 2684, root_inode_no = 0, dir_entry_size = 24\<rparr>,
       block_bitmap = \<lparr>btmp_bytes_len = 12800, bits = 1 # replicate 12799 0\<rparr>,
       inode_bitmap = \<lparr>btmp_bytes_len = 512, bits = 1 # replicate 511 0\<rparr>, open_inodes = []\<rparr>,
     root_dir = \<lparr>dir_inode = 0, dir_pos = 0\<rparr>,
     file_table = replicate 32 \<lparr>fd_pos = 0, fd_flag = 0, fd_inode = NoInode\<rparr>,
     cur_fds = [0, 1, 2, -1, -1, -1, -1, -1], cur_cwd = 0, mallocs = []\<rparr>"

lemma sample_wf_disk: "wf_disk sample_fs"
  using sample_drive_ok by (simp add: wf_disk_def sample_fs_def max_lba_def)

theorem inode_sync_open_roundtrip_witness:
  "\<exists>fs' fs''. inode_sync ((inode_init 6)\<lparr>i_size := 100\<rparr>) 1024 sample_fs = Inr fs' \<and> inode_open 6 fs' = Inr (6, fs'')"
proof -
  have "wf_inode ((inode_init 6)\<lparr>i_size := 100\<rparr>)" "i_no ((inode_init 6)\<lparr>i_size := 100\<rparr>) = 6" by (simp_all add: wf_inode_def inode_init_def)
  then show ?thesis
    using inode_sync_open_roundtrip [OF sample_wf_disk, of "(inode_init 6)\<lparr>i_size := 100\<rparr>" 1024] by (auto simp: sample_fs_def)
qed

theorem inode_sync_truncates_number_witness:
  "\<exists>fs'. inode_sync (inode_init 300) 1024 sample_fs = Inr fs' \<and> disk_inode fs' 44 = inode_init 300"
proof -
  have "wf_inode (inode_init 300)" "i_no (inode_init 300) = 300" by (simp_all add: wf_inode_def inode_init_def)
  then show ?thesis
    using inode_sync_truncates_number [OF sample_wf_disk, of "inode_init 300" 1024] by (auto simp: inode_init_def)
qed

end
