(* ===== verification/File.thy ===== *)
theory File
  imports Inode
begin

text \<open>
  Model of \<^verbatim>\<open>fs/file.c\<close>: the table of open files, the descriptors of the running thread, and reading
  and appending through the block list of an inode (12 direct blocks, then the 128 of an indirect
  table). \<^verbatim>\<open>file_create\<close> is in the theory of the system calls, after the directories it uses. A file
  structure is named by its index in \<^verbatim>\<open>file_table\<close>.
\<close>

section \<open>Descriptors\<close>

definition get_free_slot_in_global :: "fsys \<Rightarrow> nat option" where
  "get_free_slot_in_global fs = find (\<lambda>i. fd_inode (file_table fs ! i) = NoInode) [3..<32]"

definition pcb_fd_install :: "nat \<Rightarrow> fsys \<Rightarrow> int \<times> fsys" where
  "pcb_fd_install global_fd_idx fs =
     (case find (\<lambda>i. cur_fds fs ! i = -1) [3..<8] of
        None \<Rightarrow> (-1, fs)
      | Some i \<Rightarrow> (int i, fs\<lparr>cur_fds := (cur_fds fs)[i := int global_fd_idx]\<rparr>))"

definition upd_file :: "nat \<Rightarrow> (kfile \<Rightarrow> kfile) \<Rightarrow> fsys \<Rightarrow> fsys" where
  "upd_file idx f fs = fs\<lparr>file_table := (file_table fs)[idx := f (file_table fs ! idx)]\<rparr>"

definition file_inode :: "nat \<Rightarrow> fsys \<Rightarrow> u32 result" where
  "file_inode idx fs = (case fd_inode (file_table fs ! idx) of InodeAt r \<Rightarrow> Inr r | NoInode \<Rightarrow> Inl NullDeref | PipeAt a \<Rightarrow> Inl PageFault)"

definition wants_write :: "u32 \<Rightarrow> bool" where
  "wants_write flag \<longleftrightarrow> flag AND 1 \<noteq> 0 \<or> flag AND 2 \<noteq> 0"

definition file_open :: "u32 \<Rightarrow> u32 \<Rightarrow> fsys \<Rightarrow> (int \<times> fsys) result" where
  "file_open inode_no flag fs =
     (case get_free_slot_in_global fs of
        None \<Rightarrow> Inr (-1, fs)
      | Some fd_idx \<Rightarrow>
          bindR (inode_open inode_no fs) (\<lambda>(r, fs).
          let fs = upd_file fd_idx (\<lambda>_. \<lparr>fd_pos = 0, fd_flag = flag, fd_inode = InodeAt r\<rparr>) fs in
          if wants_write flag then
            bindR (the_inode r fs) (\<lambda>i.
            if \<not> write_deny i then Inr (pcb_fd_install fd_idx (upd_inode r (\<lambda>i. i\<lparr>write_deny := True\<rparr>) fs))
            else Inr (-1, fs))
          else Inr (pcb_fd_install fd_idx fs)))"

definition file_close :: "nat \<Rightarrow> fsys \<Rightarrow> (int \<times> fsys) result" where
  "file_close idx fs =
     bindR (file_inode idx fs) (\<lambda>r.
     bindR (the_inode r fs) (\<lambda>_.
     mapR (\<lambda>fs. (0, upd_file idx (\<lambda>f. f\<lparr>fd_inode := NoInode\<rparr>) fs))
       (inode_close r (upd_inode r (\<lambda>i. i\<lparr>write_deny := False\<rparr>) fs))))"

section \<open>Writing\<close>

definition set_sector :: "u32 \<Rightarrow> nat \<Rightarrow> u32 \<Rightarrow> fsys \<Rightarrow> fsys" where
  "set_sector r k a = upd_inode r (\<lambda>i. i\<lparr>i_sectors := (i_sectors i)[k := a]\<rparr>)"

text \<open>The block of a file that was never written.\<close>

definition first_block :: "u32 \<Rightarrow> fsys \<Rightarrow> (bool \<times> fsys) result" where
  "first_block r fs =
     bindR (the_inode r fs) (\<lambda>i.
     if i_sectors i ! 0 = 0 then
       bindR (block_bitmap_alloc fs) (\<lambda>(lba, fs). case lba of
           None \<Rightarrow> Inr (False, fs)
         | Some a \<Rightarrow>
             let fs = set_sector r 0 a fs; idx = a - data_start_lba (fsb fs)
             in ASSERT (idx \<noteq> 0) ''block_bitmap_idx != 0'' (mapR (\<lambda>fs. (True, fs)) (bitmap_sync idx BLOCK_BITMAP fs)))
     else Inr (True, fs))"

text \<open>The three loops over \<^verbatim>\<open>block_idx\<close>: direct blocks go into the inode and \<^verbatim>\<open>all_blocks\<close>, the others into
  \<^verbatim>\<open>all_blocks\<close> only.\<close>

function alloc_blocks :: "u32 \<Rightarrow> nat \<Rightarrow> nat \<Rightarrow> u32 list \<Rightarrow> fsys \<Rightarrow> (u32 list option \<times> fsys) result" where
  "alloc_blocks r block_idx will all_blocks fs =
     (if block_idx < will then
        bindR (block_bitmap_alloc fs) (\<lambda>(lba, fs). case lba of
            None \<Rightarrow> Inr (None, fs)
          | Some a \<Rightarrow>
              bindR (if block_idx < 12 then
                       bindR (the_inode r fs) (\<lambda>i.
                       ASSERT (i_sectors i ! block_idx = 0) ''i_sectors[block_idx] == 0'' (Inr (set_sector r block_idx a fs)))
                     else Inr fs) (\<lambda>fs.
              bindR (bitmap_sync (a - data_start_lba (fsb fs)) BLOCK_BITMAP fs)
                (alloc_blocks r (Suc block_idx) will (all_blocks[block_idx := a]))))
      else Inr (Some all_blocks, fs))"
  by pat_completeness auto
termination
  by (relation "measure (\<lambda>(r, block_idx, will, all, fs). will - block_idx)") auto

declare alloc_blocks.simps [simp del]

definition table_enc :: "u32 list \<Rightarrow> u8 list" where
  "table_enc all_blocks = concat (map le32 (take 128 (drop 12 all_blocks)))"

definition load_table :: "u32 \<Rightarrow> u32 list \<Rightarrow> fsys \<Rightarrow> u32 list result" where
  "load_table tab all_blocks fs = mapR (\<lambda>bs. take 12 all_blocks @ table_words bs) (fs_read tab 1 fs)"

text \<open>Collect the blocks that hold the data to be written, allocating those that are missing.\<close>

definition collect_blocks :: "u32 \<Rightarrow> nat \<Rightarrow> nat \<Rightarrow> fsys \<Rightarrow> (u32 list option \<times> fsys) result" where
  "collect_blocks r has will fs =
     bindR (the_inode r fs) (\<lambda>i.
     let all = replicate 140 0; secs = i_sectors i in
     if will = has then
       (if has \<le> 12 then Inr (Some (all[has - 1 := secs ! (has - 1)]), fs)
        else ASSERT (secs ! 12 \<noteq> 0) ''i_sectors[12] != 0'' (mapR (\<lambda>all. (Some all, fs)) (load_table (secs ! 12) all fs)))
     else if will \<le> 12 then
       ASSERT (secs ! (has - 1) \<noteq> 0) ''i_sectors[block_idx] != 0''
         (alloc_blocks r has will (all[has - 1 := secs ! (has - 1)]) fs)
     else if has \<le> 12 then
       bindR (block_bitmap_alloc fs) (\<lambda>(lba, fs). case lba of
           None \<Rightarrow> Inr (None, fs)
         | Some tab \<Rightarrow>
             ASSERT (secs ! 12 = 0) ''i_sectors[12] == 0''
             (bindR (alloc_blocks r has will (all[has - 1 := secs ! (has - 1)]) (set_sector r 12 tab fs)) (\<lambda>(res, fs).
              case res of
                None \<Rightarrow> Inr (None, fs)
              | Some all \<Rightarrow> mapR (\<lambda>fs. (Some all, fs)) (fs_write tab (table_enc all) 1 fs))))
     else
       ASSERT (secs ! 12 \<noteq> 0) ''i_sectors[12] != 0''
       (bindR (load_table (secs ! 12) all fs) (\<lambda>all.
        bindR (alloc_blocks r has will all fs) (\<lambda>(res, fs).
        case res of
          None \<Rightarrow> Inr (None, fs)
        | Some all \<Rightarrow> mapR (\<lambda>fs. (Some all, fs)) (fs_write (secs ! 12) (table_enc all) 1 fs)))))"

text \<open>The loop that moves the data: the first sector is read first, the others are new.\<close>

function write_data :: "nat \<Rightarrow> u32 \<Rightarrow> u32 list \<Rightarrow> u8 list \<Rightarrow> bool \<Rightarrow> fsys \<Rightarrow> fsys result" where
  "write_data idx r all_blocks src first_write_block fs =
     (if src \<noteq> [] then
        bindR (the_inode r fs) (\<lambda>i.
        let sec_lba = all_blocks ! unat (i_size i div 512); sec_off_bytes = unat (i_size i mod 512);
            chunk_size = min (length src) (512 - sec_off_bytes) in
        bindR (if first_write_block then fs_read sec_lba 1 fs else Inr (replicate 512 0)) (\<lambda>io_buf.
        bindR (patch sec_off_bytes (take chunk_size src) io_buf) (\<lambda>io_buf.
        bindR (fs_write sec_lba io_buf 1 fs) (\<lambda>fs.
        write_data idx r all_blocks (drop chunk_size src) False
          (upd_file idx (\<lambda>f. f\<lparr>fd_pos := fd_pos f + of_nat chunk_size\<rparr>)
            (upd_inode r (\<lambda>i. i\<lparr>i_size := i_size i + of_nat chunk_size\<rparr>) fs))))))
      else Inr fs)"
  by pat_completeness auto
termination
  by (relation "measure (\<lambda>(idx, r, all, src, first, fs). length src)")
     (auto simp: Let_def min_def unat_mod intro!: diff_less)

declare write_data.simps [simp del]

definition file_write :: "nat \<Rightarrow> u8 list \<Rightarrow> fsys \<Rightarrow> (int \<times> fsys) result" where
  "file_write idx src fs =
     (let count = of_nat (length src) in
      bindR (file_inode idx fs) (\<lambda>r.
      bindR (the_inode r fs) (\<lambda>i.
      if i_size i + count > 512 * 140 then Inr (-1, fs)
      else let (ok, fs) = sys_malloc_ok fs in if \<not> ok then Inr (-1, fs)
      else let (ok, fs) = sys_malloc_ok fs in if \<not> ok then Inr (-1, fs)
      else bindR (first_block r fs) (\<lambda>(ok, fs).
        if \<not> ok then Inr (-1, fs)
        else
          let has = unat (i_size i div 512 + 1); will = unat ((i_size i + count) div 512 + 1) in
          ASSERT (will \<le> 140) ''file_will_use_blocks <= 140''
          (bindR (collect_blocks r has will fs) (\<lambda>(res, fs). case res of
              None \<Rightarrow> Inr (-1, fs)
            | Some all_blocks \<Rightarrow>
                bindR (write_data idx r all_blocks src True (upd_file idx (\<lambda>f. f\<lparr>fd_pos := i_size i - 1\<rparr>) fs)) (\<lambda>fs.
                bindR (the_inode r fs) (\<lambda>i.
                mapR (\<lambda>fs. (int (length src), fs)) (inode_sync i 512 fs)))))))))"

section \<open>Reading\<close>

function read_data :: "nat \<Rightarrow> u32 list \<Rightarrow> nat \<Rightarrow> fsys \<Rightarrow> (u8 list \<times> fsys) result" where
  "read_data idx all_blocks size_left fs =
     (if 0 < size_left then
        let pos = fd_pos (file_table fs ! idx); sec_lba = all_blocks ! unat (pos div 512); sec_off_bytes = unat (pos mod 512);
            chunk_size = min size_left (512 - sec_off_bytes) in
        bindR (fs_read sec_lba 1 fs) (\<lambda>io_buf.
        mapR (\<lambda>(rest, fs). (take chunk_size (drop sec_off_bytes io_buf) @ rest, fs))
          (read_data idx all_blocks (size_left - chunk_size) (upd_file idx (\<lambda>f. f\<lparr>fd_pos := fd_pos f + of_nat chunk_size\<rparr>) fs)))
      else Inr ([], fs))"
  by pat_completeness auto
termination
  by (relation "measure (\<lambda>(idx, all, n, fs). n)") (auto simp: Let_def min_def unat_mod)

declare read_data.simps [simp del]

definition read_blocks :: "inode \<Rightarrow> nat \<Rightarrow> nat \<Rightarrow> fsys \<Rightarrow> u32 list result" where
  "read_blocks i start_idx end_idx fs =
     (let all = replicate 140 0; secs = i_sectors i;
          direct = (\<lambda>n. map (\<lambda>k. if start_idx \<le> k \<and> k < n then secs ! k else 0) [0..<140]) in
      if end_idx = start_idx then
        ASSERT (start_idx = end_idx) ''block_read_start_idx == block_read_end_idx''
          (if end_idx < 12 then Inr (all[end_idx := secs ! end_idx]) else load_table (secs ! 12) all fs)
      else if end_idx < 12 then Inr (direct (Suc end_idx))
      else if start_idx < 12 then
        ASSERT (secs ! 12 \<noteq> 0) ''i_sectors[12] != 0'' (load_table (secs ! 12) (direct 12) fs)
      else ASSERT (secs ! 12 \<noteq> 0) ''i_sectors[12] != 0'' (load_table (secs ! 12) all fs))"

text \<open>The result is the returned number and the bytes stored at \<^verbatim>\<open>buf\<close>.\<close>

definition file_read :: "nat \<Rightarrow> u32 \<Rightarrow> fsys \<Rightarrow> (int \<times> u8 list \<times> fsys) result" where
  "file_read idx count fs =
     bindR (file_inode idx fs) (\<lambda>r.
     bindR (the_inode r fs) (\<lambda>i.
     let pos = fd_pos (file_table fs ! idx); size = (if pos + count > i_size i then i_size i - pos else count) in
     if pos + count > i_size i \<and> size = 0 then Inr (-1, [], fs)
     else let (ok, fs) = sys_malloc_ok fs in if \<not> ok then Inr (-1, [], fs)
     else let (ok, fs) = sys_malloc_ok fs in if \<not> ok then Inr (-1, [], fs)
     else
       let start_idx = unat (pos div 512); end_idx = unat ((pos + size) div 512) in
       ASSERT (start_idx < 139 \<and> end_idx < 139) ''block_read_start_idx < 139 && block_read_end_idx < 139''
       (bindR (read_blocks i start_idx end_idx fs) (\<lambda>all_blocks.
        mapR (\<lambda>(bs, fs). (int (unat size), bs, fs)) (read_data idx all_blocks (unat size) fs)))))"

end
