(* ===== verification/Dir.thy ===== *)
theory Dir
  imports File
begin

text \<open>
  Model of \<^verbatim>\<open>fs/dir.c\<close>. A directory entry is its 24 bytes: 16 of name, the inode number and the type.
  A pointer to a \<^verbatim>\<open>struct dir\<close> is either the address of \<^verbatim>\<open>root_dir\<close> or a structure of its own from
  \<^verbatim>\<open>sys_malloc\<close>, which only its holder can reach and which is therefore carried as a value. The number of
  bytes of an entry is read from the super block, as in the code; pointers to entries step by the size
  of the structure. Division by a zero size is the processor's divide error.
\<close>

section \<open>Entries\<close>

definition FT_UNKNOWN :: u32 where "FT_UNKNOWN = 0"
definition FT_REGULAR :: u32 where "FT_REGULAR = 1"
definition FT_DIRECTORY :: u32 where "FT_DIRECTORY = 2"

definition dir_entry :: "u8 list \<Rightarrow> u32 \<Rightarrow> u32 \<Rightarrow> u8 list" where
  "dir_entry filename ino f_type = filename @ le32 ino @ le32 f_type"

definition de_i_no :: "u8 list \<Rightarrow> u32" where
  "de_i_no de = rd32 de 16"

definition de_f_type :: "u8 list \<Rightarrow> u32" where
  "de_f_type de = rd32 de 20"

text \<open>\<^verbatim>\<open>dir_e + k\<close> in a buffer, and the memory from there on.\<close>

definition de_at :: "u8 list \<Rightarrow> nat \<Rightarrow> u8 list result" where
  "de_at buf k = (if 24 * k + 24 \<le> length buf then Inr (drop (24 * k) buf) else Inl OutOfBounds)"

definition dirents_per_sec :: "fsys \<Rightarrow> nat result" where
  "dirents_per_sec fs = (if dir_entry_size (fsb fs) = 0 then Inl (KPanic ''#DE Divide Error'') else Inr (512 div unat (dir_entry_size (fsb fs))))"

text \<open>\<^verbatim>\<open>memcpy\<close> of an entry's bytes.\<close>

definition copy_de :: "fsys \<Rightarrow> u8 list \<Rightarrow> u8 list result" where
  "copy_de fs de = (if unat (dir_entry_size (fsb fs)) \<le> length de then Inr (take (unat (dir_entry_size (fsb fs))) de) else Inl OutOfBounds)"

section \<open>Directories\<close>

datatype dirp = RootDir | HeapDir dir

definition dir_of :: "dirp \<Rightarrow> fsys \<Rightarrow> dir" where
  "dir_of p fs = (case p of RootDir \<Rightarrow> root_dir fs | HeapDir d \<Rightarrow> d)"

definition set_dir_pos :: "dirp \<Rightarrow> u32 \<Rightarrow> fsys \<Rightarrow> dirp \<times> fsys" where
  "set_dir_pos p pos fs = (case p of
     RootDir \<Rightarrow> (RootDir, fs\<lparr>root_dir := (root_dir fs)\<lparr>dir_pos := pos\<rparr>\<rparr>)
   | HeapDir d \<Rightarrow> (HeapDir (d\<lparr>dir_pos := pos\<rparr>), fs))"

definition dir_node :: "dirp \<Rightarrow> fsys \<Rightarrow> inode result" where
  "dir_node p fs = the_inode (dir_inode (dir_of p fs)) fs"

definition open_root_dir :: "fsys \<Rightarrow> fsys result" where
  "open_root_dir fs = mapR (\<lambda>(r, fs). fs\<lparr>root_dir := \<lparr>dir_inode = r, dir_pos = 0\<rparr>\<rparr>) (inode_open (root_inode_no (fsb fs)) fs)"

definition dir_open :: "u32 \<Rightarrow> fsys \<Rightarrow> (dirp \<times> fsys) result" where
  "dir_open inode_no fs =
     (let (ok, fs) = sys_malloc_ok fs in
      bindR (inode_open inode_no fs) (\<lambda>(r, fs).
      if \<not> ok then Inl NullDeref else Inr (HeapDir \<lparr>dir_inode = r, dir_pos = 0\<rparr>, fs)))"

definition dir_close :: "dirp \<Rightarrow> fsys \<Rightarrow> fsys result" where
  "dir_close p fs = (case p of RootDir \<Rightarrow> Inr fs | HeapDir d \<Rightarrow> inode_close (dir_inode d) fs)"

text \<open>The addresses of all blocks of a directory, collected at the start of most operations.\<close>

definition dir_blocks :: "inode \<Rightarrow> fsys \<Rightarrow> u32 list result" where
  "dir_blocks i fs =
     (if i_sectors i ! 12 \<noteq> 0 then mapR (\<lambda>bs. take 12 (i_sectors i) @ table_words bs) (fs_read (i_sectors i ! 12) 1 fs)
      else Inr (take 12 (i_sectors i) @ replicate 128 0))"

section \<open>Searching\<close>

text \<open>The entries \<open>k..<cnt\<close> of one sector.\<close>

function search_sector :: "u8 list \<Rightarrow> u8 list \<Rightarrow> nat \<Rightarrow> nat \<Rightarrow> u8 list option result" where
  "search_sector buf name k cnt =
     (if k < cnt then
        bindR (de_at buf k) (\<lambda>p_de.
        bindR (strcmp (Some p_de) (Some name)) (\<lambda>c.
        if c = 0 then Inr (Some p_de) else search_sector buf name (Suc k) cnt))
      else Inr None)"
  by pat_completeness auto
termination
  by (relation "measure (\<lambda>(buf, name, k, cnt). cnt - k)") auto

declare search_sector.simps [simp del]

fun search_blocks :: "u8 list \<Rightarrow> nat \<Rightarrow> u32 list \<Rightarrow> fsys \<Rightarrow> u8 list option result" where
  "search_blocks name cnt [] fs = Inr None"
| "search_blocks name cnt (a # as) fs =
     (if a = 0 then search_blocks name cnt as fs
      else bindR (fs_read a 1 fs) (\<lambda>buf.
           bindR (search_sector buf name 0 cnt) (\<lambda>res. case res of
               Some p_de \<Rightarrow> Inr (Some p_de)
             | None \<Rightarrow> search_blocks name cnt as fs)))"

text \<open>The result is the returned truth value, the structure \<^verbatim>\<open>dir_e\<close> points to, and the state.\<close>

definition search_dir_entry :: "dirp \<Rightarrow> u8 list \<Rightarrow> u8 list \<Rightarrow> fsys \<Rightarrow> (bool \<times> u8 list \<times> fsys) result" where
  "search_dir_entry pdir name dir_e fs =
     (let (ok, fs) = sys_malloc_ok fs in
      if \<not> ok then Inr (False, dir_e, fs)
      else bindR (dir_node pdir fs) (\<lambda>i.
        bindR (dir_blocks i fs) (\<lambda>all_blocks.
        let (ok, fs) = sys_malloc_ok fs in
        bindR (dirents_per_sec fs) (\<lambda>cnt.
        if \<not> ok then Inl NullDeref
        else bindR (search_blocks name cnt all_blocks fs) (\<lambda>res. case res of
            None \<Rightarrow> Inr (False, dir_e, fs)
          | Some p_de \<Rightarrow> bindR (copy_de fs p_de) (\<lambda>bs. mapR (\<lambda>e. (True, e, fs)) (patch 0 bs dir_e)))))))"

section \<open>Adding an entry\<close>

definition create_dir_entry :: "u8 list \<Rightarrow> u32 \<Rightarrow> u32 \<Rightarrow> u8 list \<Rightarrow> u8 list result" where
  "create_dir_entry filename inode_no file_type p_de =
     bindR (strlen (Some filename)) (\<lambda>n.
     ASSERT (n \<le> 16) ''strlen(filename) <= MAX_FILE_NAME_LEN''
     (bindR (memcpy (Some p_de) (Some filename) n) (\<lambda>p_de.
      Inr (take 16 p_de @ le32 inode_no @ le32 file_type))))"

definition grow_dir :: "u32 \<Rightarrow> fsys \<Rightarrow> fsys" where
  "grow_dir r fs = upd_inode r (\<lambda>i. i\<lparr>i_size := i_size i + dir_entry_size (fsb fs)\<rparr>) fs"

text \<open>A block for entry list position \<open>block_idx\<close>; \<open>None\<close> is the early return with false.\<close>

definition new_dir_block :: "u32 \<Rightarrow> nat \<Rightarrow> u32 list \<Rightarrow> fsys \<Rightarrow> (u32 list option \<times> fsys) result" where
  "new_dir_block r block_idx all_blocks fs =
     bindR (block_bitmap_alloc fs) (\<lambda>(lba, fs). case lba of
         None \<Rightarrow> Inr (None, fs)
       | Some a \<Rightarrow>
           ASSERT (a - data_start_lba (fsb fs) \<noteq> -1) ''block_bitmap_idx != -1''
           (bindR (bitmap_sync (a - data_start_lba (fsb fs)) BLOCK_BITMAP fs) (\<lambda>fs.
            if block_idx < 12 then Inr (Some (all_blocks[block_idx := a]), set_sector r block_idx a fs)
            else if block_idx = 12 then
              let fs = set_sector r 12 a fs in
              bindR (block_bitmap_alloc fs) (\<lambda>(lba, fs). case lba of
                  None \<Rightarrow>
                    mapR (\<lambda>b. (None, set_sector r 12 0 (upd_part (\<lambda>p. p\<lparr>block_bitmap := b\<rparr>) fs)))
                      (bitmap_set (block_bitmap (cur_part fs)) (unat (a - data_start_lba (fsb fs))) 0)
                | Some b \<Rightarrow>
                    ASSERT (b - data_start_lba (fsb fs) \<noteq> -1) ''block_bitmap_idx != -1''
                    (bindR (bitmap_sync (b - data_start_lba (fsb fs)) BLOCK_BITMAP fs) (\<lambda>fs.
                     let all_blocks = all_blocks[12 := b]
                     in mapR (\<lambda>fs. (Some all_blocks, fs)) (fs_write a (table_enc all_blocks) 1 fs))))
            else
              let all_blocks = all_blocks[block_idx := a] in
              bindR (the_inode r fs) (\<lambda>i. mapR (\<lambda>fs. (Some all_blocks, fs)) (fs_write (i_sectors i ! 12) (table_enc all_blocks) 1 fs)))))"

text \<open>The first entry of type \<^verbatim>\<open>FT_UNKNOWN\<close> of a sector.\<close>

function free_entry :: "u8 list \<Rightarrow> nat \<Rightarrow> nat \<Rightarrow> nat option result" where
  "free_entry buf k cnt =
     (if k < cnt then bindR (de_at buf k) (\<lambda>e. if de_f_type e = FT_UNKNOWN then Inr (Some k) else free_entry buf (Suc k) cnt)
      else Inr None)"
  by pat_completeness auto
termination
  by (relation "measure (\<lambda>(buf, k, cnt). cnt - k)") auto

declare free_entry.simps [simp del]

function sync_blocks :: "u32 \<Rightarrow> u8 list \<Rightarrow> nat \<Rightarrow> nat \<Rightarrow> u32 list \<Rightarrow> fsys \<Rightarrow> (bool \<times> fsys) result" where
  "sync_blocks r p_de cnt block_idx all_blocks fs =
     (if block_idx < 140 then
        if all_blocks ! block_idx = 0 then
          bindR (new_dir_block r block_idx all_blocks fs) (\<lambda>(res, fs). case res of
              None \<Rightarrow> Inr (False, fs)
            | Some all_blocks \<Rightarrow>
                bindR (copy_de fs p_de) (\<lambda>bs.
                bindR (patch 0 bs (replicate 512 0)) (\<lambda>io_buf.
                mapR (\<lambda>fs. (True, grow_dir r fs)) (fs_write (all_blocks ! block_idx) io_buf 1 fs))))
        else
          bindR (fs_read (all_blocks ! block_idx) 1 fs) (\<lambda>io_buf.
          bindR (free_entry io_buf 0 cnt) (\<lambda>res. case res of
              Some k \<Rightarrow>
                bindR (copy_de fs p_de) (\<lambda>bs.
                bindR (patch (24 * k) bs io_buf) (\<lambda>io_buf.
                mapR (\<lambda>fs. (True, grow_dir r fs)) (fs_write (all_blocks ! block_idx) io_buf 1 fs)))
            | None \<Rightarrow> sync_blocks r p_de cnt (Suc block_idx) all_blocks fs))
      else Inr (False, fs))"
  by pat_completeness auto
termination
  by (relation "measure (\<lambda>(r, p_de, cnt, block_idx, all, fs). 140 - block_idx)") auto

declare sync_blocks.simps [simp del]

text \<open>Only the direct blocks are collected.\<close>

definition sync_dir_entry :: "dirp \<Rightarrow> u8 list \<Rightarrow> fsys \<Rightarrow> (bool \<times> fsys) result" where
  "sync_dir_entry parent_dir p_de fs =
     bindR (dir_node parent_dir fs) (\<lambda>i.
     bindR (dirents_per_sec fs) (\<lambda>cnt.
     ASSERT (i_size i mod dir_entry_size (fsb fs) = 0) ''dir_size % dir_entry_size == 0''
       (sync_blocks (dir_inode (dir_of parent_dir fs)) p_de cnt 0 (take 12 (i_sectors i) @ replicate 128 0) fs)))"

section \<open>Removing an entry\<close>

definition dot :: "u8 list" where "dot = [46, 0]"
definition dotdot :: "u8 list" where "dotdot = [46, 46, 0]"

text \<open>Count the entries of a sector other than \<^verbatim>\<open>.\<close> and \<^verbatim>\<open>..\<close>; note \<^verbatim>\<open>.\<close> and the entry of \<open>inode_no\<close>.\<close>

function count_entries :: "u8 list \<Rightarrow> u32 \<Rightarrow> nat \<Rightarrow> nat \<Rightarrow> bool \<times> u8 \<times> nat option \<Rightarrow> (bool \<times> u8 \<times> nat option) result" where
  "count_entries buf inode_no k cnt st =
     (if k < cnt then
        bindR (de_at buf k) (\<lambda>e.
        bindR (if de_f_type e \<noteq> FT_UNKNOWN then
                 bindR (strcmp (Some e) (Some dot)) (\<lambda>c.
                 if c = 0 then Inr (True, snd st)
                 else bindR (strcmp (Some e) (Some dotdot)) (\<lambda>c.
                   if c \<noteq> 0 then
                     let (first, n, found) = st in
                     if de_i_no e = inode_no then ASSERT (found = None) ''dir_entry_found == NULL'' (Inr (first, n + 1, Some k))
                     else Inr (first, n + 1, found)
                   else Inr st))
               else Inr st) (count_entries buf inode_no (Suc k) cnt))
      else Inr st)"
  by pat_completeness auto
termination
  by (relation "measure (\<lambda>(buf, ino, k, cnt, st). cnt - k)") auto

declare count_entries.simps [simp del]

text \<open>The loop that counts the indirect blocks does not advance its index: it never ends.\<close>

definition drop_dir_block :: "u32 \<Rightarrow> nat \<Rightarrow> u32 \<Rightarrow> fsys \<Rightarrow> fsys result" where
  "drop_dir_block r block_idx a fs =
     bindR (block_free a fs) (\<lambda>fs. if block_idx < 12 then Inr (set_sector r block_idx 0 fs) else Inl Diverges)"

fun delete_blocks :: "u32 \<Rightarrow> u32 \<Rightarrow> nat \<Rightarrow> nat \<Rightarrow> u32 list \<Rightarrow> nat \<Rightarrow> fsys \<Rightarrow> (bool \<times> fsys) result" where
  "delete_blocks r inode_no cnt block_idx [] io_len fs = Inr (False, fs)"
| "delete_blocks r inode_no cnt block_idx (a # as) io_len fs =
     (if a = 0 then delete_blocks r inode_no cnt (Suc block_idx) as io_len fs
      else bindR (fs_read a 1 fs) (\<lambda>io_buf.
        bindR (count_entries io_buf inode_no 0 cnt (False, 0, None)) (\<lambda>(first, n, found). case found of
            None \<Rightarrow> delete_blocks r inode_no cnt (Suc block_idx) as io_len fs
          | Some k \<Rightarrow>
              ASSERT (n \<ge> 1) ''dir_entry_cnt >= 1''
              (bindR (if n = 1 \<and> \<not> first then drop_dir_block r block_idx a fs
                      else bindR (patch (24 * k) (replicate (unat (dir_entry_size (fsb fs))) 0) io_buf) (\<lambda>io_buf. fs_write a io_buf 1 fs)) (\<lambda>fs.
               bindR (the_inode r fs) (\<lambda>i.
               ASSERT (i_size i \<ge> dir_entry_size (fsb fs)) ''dir_inode->i_size >= dir_entry_size''
               (let i = i\<lparr>i_size := i_size i - dir_entry_size (fsb fs)\<rparr>
                in mapR (\<lambda>fs. (True, fs)) (inode_sync i io_len (upd_inode r (\<lambda>_. i) fs)))))))))"

definition delete_dir_entry :: "dirp \<Rightarrow> u32 \<Rightarrow> nat \<Rightarrow> fsys \<Rightarrow> (bool \<times> fsys) result" where
  "delete_dir_entry pdir inode_no io_len fs =
     bindR (dir_node pdir fs) (\<lambda>i.
     bindR (dir_blocks i fs) (\<lambda>all_blocks.
     bindR (dirents_per_sec fs) (\<lambda>cnt.
     delete_blocks (dir_inode (dir_of pdir fs)) inode_no cnt 0 all_blocks io_len fs)))"

section \<open>Listing\<close>

text \<open>\<open>pos\<close> is \<^verbatim>\<open>cur_dir_entry_pos\<close>; the result is the entry, or the position reached.\<close>

function read_sector_from :: "u8 list \<Rightarrow> u32 \<Rightarrow> u32 \<Rightarrow> nat \<Rightarrow> nat \<Rightarrow> u32 \<Rightarrow> (u8 list + u32) result" where
  "read_sector_from buf esize want k cnt pos =
     (if k < cnt then
        bindR (de_at buf k) (\<lambda>e.
        if de_f_type e \<noteq> 0 then
          if pos < want then read_sector_from buf esize want (Suc k) cnt (pos + esize)
          else ASSERT (pos = want) ''cur_dir_entry_pos == dir->dir_pos'' (Inr (Inl (take 24 e)))
        else read_sector_from buf esize want (Suc k) cnt pos)
      else Inr (Inr pos))"
  by pat_completeness auto
termination
  by (relation "measure (\<lambda>(buf, es, w, k, cnt, pos). cnt - k)") auto

declare read_sector_from.simps [simp del]

fun read_entries :: "u32 \<Rightarrow> u32 \<Rightarrow> nat \<Rightarrow> u32 list \<Rightarrow> u32 \<Rightarrow> fsys \<Rightarrow> u8 list option result" where
  "read_entries dsize want cnt [] pos fs = Inr None"
| "read_entries dsize want cnt (a # as) pos fs =
     (if want \<ge> dsize then Inr None
      else if a = 0 then read_entries dsize want cnt as pos fs
      else bindR (fs_read a 1 fs) (\<lambda>buf.
           bindR (read_sector_from buf (dir_entry_size (fsb fs)) want 0 cnt pos) (\<lambda>res. case res of
               Inl e \<Rightarrow> Inr (Some e)
             | Inr pos \<Rightarrow> read_entries dsize want cnt as pos fs)))"

definition dir_read :: "dirp \<Rightarrow> fsys \<Rightarrow> (u8 list option \<times> dirp \<times> fsys) result" where
  "dir_read p fs =
     bindR (dir_node p fs) (\<lambda>i.
     bindR (dir_blocks i fs) (\<lambda>all_blocks.
     bindR (dirents_per_sec fs) (\<lambda>cnt.
     let block_cnt = (if i_sectors i ! 12 \<noteq> 0 then 140 else 12); d = dir_of p fs in
     bindR (read_entries (i_size i) (dir_pos d) cnt (take block_cnt all_blocks) 0 fs) (\<lambda>res. case res of
         None \<Rightarrow> Inr (None, p, fs)
       | Some e \<Rightarrow> let (p, fs) = set_dir_pos p (dir_pos d + dir_entry_size (fsb fs)) fs in Inr (Some e, p, fs)))))"

definition dir_is_empty :: "dirp \<Rightarrow> fsys \<Rightarrow> bool result" where
  "dir_is_empty p fs = mapR (\<lambda>i. i_size i = dir_entry_size (fsb fs) * 2) (dir_node p fs)"

definition dir_remove :: "dirp \<Rightarrow> dirp \<Rightarrow> fsys \<Rightarrow> (int \<times> fsys) result" where
  "dir_remove parent_dir child_dir fs =
     bindR (dir_node child_dir fs) (\<lambda>i.
     ASSERT (\<forall>k \<in> set [1..<13]. i_sectors i ! k = 0) ''child_dir_inode->i_sectors[block_idx] == 0''
     (let (ok, fs) = sys_malloc_ok fs in
      if \<not> ok then Inr (-1, fs)
      else bindR (delete_dir_entry parent_dir (i_no i) 1024 fs) (\<lambda>(_, fs). mapR (\<lambda>fs. (0, fs)) (inode_release (i_no i) fs))))"

end
