(* ===== verification/Path.thy ===== *)
theory Path
  imports Dir
begin

text \<open>
  Model of the path handling of \<^verbatim>\<open>fs/fs.c\<close>: \<^verbatim>\<open>path_parse\<close>, \<^verbatim>\<open>path_depth_cnt\<close> and \<^verbatim>\<open>search_file\<close>. A path is the
  memory its pointer points into; a pointer to a later position is a suffix of it. Local variables
  that the code reads before it writes them are parameters: the bytes the stack happens to hold.
\<close>

section \<open>Splitting a path\<close>

abbreviation slash :: u8 where "slash \<equiv> 47"

fun skip_slashes :: "u8 list \<Rightarrow> u8 list result" where
  "skip_slashes [] = Inl OutOfBounds"
| "skip_slashes (c # cs) = (if c = slash then skip_slashes cs else Inr (c # cs))"

fun parse_name :: "u8 list \<Rightarrow> u8 list \<Rightarrow> (u8 list option \<times> u8 list) result" where
  "parse_name [] name_store = Inl OutOfBounds"
| "parse_name (c # cs) name_store =
     (if c \<noteq> slash \<and> c \<noteq> 0 then
        case name_store of
          [] \<Rightarrow> Inl OutOfBounds
        | _ # name_store \<Rightarrow> mapR (\<lambda>(p, ns). (p, c # ns)) (parse_name cs name_store)
      else Inr (if c = 0 then None else Some (c # cs), name_store))"

definition path_parse :: "u8 list \<Rightarrow> u8 list \<Rightarrow> (u8 list option \<times> u8 list) result" where
  "path_parse pathname name_store =
     bindR (byte_at pathname 0) (\<lambda>c.
     bindR (if c = slash then skip_slashes (tl pathname) else Inr pathname) (\<lambda>pathname.
     parse_name pathname name_store))"

lemma skip_slashes_length: "skip_slashes p = Inr q \<Longrightarrow> length q \<le> length p"
  by (induction p rule: skip_slashes.induct) (auto split: if_splits)

lemma parse_name_length: "parse_name p ns = Inr (Some q, ns') \<Longrightarrow> length q \<le> length p \<and> (p \<noteq> [] \<and> hd p \<noteq> slash \<longrightarrow> length q < length p)"
proof (induction p arbitrary: ns ns')
  case (Cons c cs)
  show ?case
  proof (cases "c \<noteq> slash \<and> c \<noteq> 0")
    case True
    then obtain n ns0 b where "ns = n # ns0" "parse_name cs ns0 = Inr (Some q, b)"
      using Cons.prems by (cases ns) (auto simp: mapR_Inr_iff)
    then show ?thesis using Cons.IH by fastforce
  qed (use Cons.prems in \<open>auto split: if_splits\<close>)
qed simp

lemma path_parse_length:
  assumes "path_parse p ns = Inr (Some q, ns')"
  shows "length q < length p"
proof (cases p)
  case Nil
  then show ?thesis using assms by (simp add: path_parse_def)
next
  case (Cons c cs)
  show ?thesis
  proof (cases "c = slash")
    case True
    then obtain p' where "skip_slashes cs = Inr p'" "parse_name p' ns = Inr (Some q, ns')"
      using assms by (auto simp: path_parse_def bindR_Inr_iff Cons)
    then show ?thesis using skip_slashes_length [of cs p'] parse_name_length [of p'] Cons by fastforce
  next
    case False
    then have "parse_name p ns = Inr (Some q, ns')" using assms by (simp add: path_parse_def Cons)
    then show ?thesis using False parse_name_length [of p] Cons by fastforce
  qed
qed

text \<open>The loops over a path parse the next name, or clear the buffer when the path is used up.\<close>

definition next_name :: "u8 list option \<Rightarrow> (u8 list option \<times> u8 list) result" where
  "next_name sub_path = (case sub_path of None \<Rightarrow> Inr (None, replicate 16 0) | Some p \<Rightarrow> path_parse p (replicate 16 0))"

definition path_left :: "u8 list option \<Rightarrow> u8 list \<Rightarrow> nat" where
  "path_left sub_path name = (case sub_path of None \<Rightarrow> if name = replicate 16 0 then 0 else 1 | Some p \<Rightarrow> length p + 2)"

lemma next_name_less:
  assumes "next_name p = Inr (p', name')" and "byte_at name 0 = Inr c" and "c \<noteq> 0"
  shows "path_left p' name' < path_left p name"
proof (cases p)
  case None
  then show ?thesis using assms by (auto simp: next_name_def path_left_def byte_at_Inr_iff)
next
  case (Some q)
  then show ?thesis using assms(1) path_parse_length [of q "replicate 16 0" "the p'" name']
    by (cases p') (auto simp: next_name_def path_left_def)
qed

function depth_loop :: "u8 list option \<Rightarrow> u8 list \<Rightarrow> u32 \<Rightarrow> u32 result" where
  "depth_loop p name depth =
     bindR (byte_at name 0) (\<lambda>c.
     if c \<noteq> 0 then bindR (next_name p) (\<lambda>(p, name). depth_loop p name (depth + 1)) else Inr depth)"
  by pat_completeness auto
termination
  by (relation "measure (\<lambda>(p, name, d). path_left p name)") (auto dest: next_name_less)

declare depth_loop.simps [simp del]

text \<open>\<open>name\<close> is the uninitialised local array of 16 bytes.\<close>

definition path_depth_cnt :: "u8 list \<Rightarrow> u8 list \<Rightarrow> u32 result" where
  "path_depth_cnt name pathname = bindR (path_parse pathname name) (\<lambda>(p, name). depth_loop p name 0)"

section \<open>Looking up a path\<close>

record path_search_record =
  searched_path :: "u8 list"
  parent_dir :: dirp
  file_type :: u32

definition empty_record :: path_search_record where
  "empty_record = \<lparr>searched_path = replicate 512 0, parent_dir = RootDir, file_type = FT_UNKNOWN\<rparr>"

definition is_root_path :: "u8 list \<Rightarrow> bool result" where
  "is_root_path pathname =
     bindR (strcmp (Some pathname) (Some [slash, 0])) (\<lambda>a. if a = 0 then Inr True else
     bindR (strcmp (Some pathname) (Some [slash, 46, 0])) (\<lambda>b. if b = 0 then Inr True else
     mapR (\<lambda>c. c = 0) (strcmp (Some pathname) (Some [slash, 46, 46, 0]))))"

text \<open>One round of the loop of \<^verbatim>\<open>search_file\<close> after the name was found or not. \<open>Inl\<close> is the end of the search.\<close>

record search_state =
  s_sub :: "u8 list option"
  s_name :: "u8 list"
  s_parent_no :: u32
  s_entry :: "u8 list"
  s_record :: path_search_record
  s_fs :: fsys

definition search_round :: "search_state \<Rightarrow> ((int \<times> path_search_record \<times> fsys) + search_state) result" where
  "search_round s =
     (let rec = s_record s in
      bindR (strlen (Some (searched_path rec))) (\<lambda>n.
      ASSERT (n < 512) ''strlen(searched_record->searched_path) < MAX_PATH_LEN''
      (bindR (strcat (Some (searched_path rec)) (Some [slash, 0])) (\<lambda>sp.
       bindR (strcat (Some sp) (Some (s_name s))) (\<lambda>sp.
       let rec = rec\<lparr>searched_path := sp\<rparr> in
       bindR (search_dir_entry (parent_dir rec) (s_name s) (s_entry s) (s_fs s)) (\<lambda>(found, dir_e, fs).
       if \<not> found then Inr (Inl (-1, rec, fs))
       else
         bindR (next_name (s_sub s)) (\<lambda>(sub, name).
         if de_f_type dir_e = FT_DIRECTORY then
           bindR (dir_node (parent_dir rec) fs) (\<lambda>i.
           bindR (dir_close (parent_dir rec) fs) (\<lambda>fs.
           bindR (dir_open (de_i_no dir_e) fs) (\<lambda>(p, fs).
           Inr (Inr \<lparr>s_sub = sub, s_name = name, s_parent_no = i_no i, s_entry = dir_e, s_record = rec\<lparr>parent_dir := p\<rparr>, s_fs = fs\<rparr>))))
         else if de_f_type dir_e = FT_REGULAR then
           Inr (Inl (sint (de_i_no dir_e), rec\<lparr>file_type := FT_REGULAR\<rparr>, fs))
         else
           Inr (Inr \<lparr>s_sub = sub, s_name = name, s_parent_no = s_parent_no s, s_entry = dir_e, s_record = rec, s_fs = fs\<rparr>))))))))"

text \<open>A round that goes on has taken the next name of the path.\<close>

lemma search_round_next: "search_round s = Inr (Inr s') \<Longrightarrow> next_name (s_sub s) = Inr (s_sub s', s_name s')"
  by (auto simp: search_round_def Let_def result_iffs split: if_splits)

function search_loop :: "search_state \<Rightarrow> (int \<times> path_search_record \<times> fsys) result" where
  "search_loop s =
     bindR (byte_at (s_name s) 0) (\<lambda>c.
     if c \<noteq> 0 then
       bindR (search_round s) (\<lambda>res. case res of Inl done' \<Rightarrow> Inr done' | Inr s' \<Rightarrow> search_loop s')
     else
       bindR (dir_close (parent_dir (s_record s)) (s_fs s)) (\<lambda>fs.
       mapR (\<lambda>(p, fs). (sint (de_i_no (s_entry s)), (s_record s)\<lparr>parent_dir := p, file_type := FT_DIRECTORY\<rparr>, fs))
         (dir_open (s_parent_no s) fs)))"
  by pat_completeness auto
termination
  by (relation "measure (\<lambda>s. path_left (s_sub s) (s_name s))") (auto dest: search_round_next intro: next_name_less)

declare search_loop.simps [simp del]

text \<open>\<open>dir_e\<close> is the uninitialised local entry of 24 bytes; the callers pass a record of zeros.\<close>

definition search_file :: "u8 list \<Rightarrow> u8 list \<Rightarrow> path_search_record \<Rightarrow> fsys \<Rightarrow> (int \<times> path_search_record \<times> fsys) result" where
  "search_file dir_e pathname rec fs =
     bindR (is_root_path pathname) (\<lambda>root.
     if root then
       mapR (\<lambda>sp. (0, \<lparr>searched_path = sp, parent_dir = RootDir, file_type = FT_DIRECTORY\<rparr>, fs)) (set_byte_at (searched_path rec) 0 0)
     else
       bindR (strlen (Some pathname)) (\<lambda>path_len.
       bindR (byte_at pathname 0) (\<lambda>c.
       ASSERT (c = slash \<and> path_len > 1 \<and> path_len < 512) ''pathname[0] == '/' && path_len > 1 && path_len < MAX_PATH_LEN''
       (let (ok, fs) = sys_malloc_ok fs in
        if \<not> ok then Inl (AssertFail ''dst_ != NULL'')
        else bindR (path_parse pathname (replicate 16 0)) (\<lambda>(sub, name).
          search_loop \<lparr>s_sub = sub, s_name = name, s_parent_no = 0, s_entry = dir_e,
            s_record = rec\<lparr>parent_dir := RootDir, file_type := FT_UNKNOWN\<rparr>, s_fs = fs\<rparr>)))))"

section \<open>The components of a path\<close>

function path_parts :: "u8 list \<Rightarrow> u8 list list" where
  "path_parts s = (let t = dropWhile (\<lambda>c. c = slash) s in
     if t = [] then [] else takeWhile (\<lambda>c. c \<noteq> slash) t # path_parts (dropWhile (\<lambda>c. c \<noteq> slash) t))"
  by pat_completeness auto
termination
proof (relation "measure length")
  fix s :: "u8 list" and t
  assume t: "t = dropWhile (\<lambda>c. c = slash) s" "t \<noteq> []"
  then have "hd t \<noteq> slash" using hd_dropWhile [of "\<lambda>c. c = slash" s] by simp
  then have "length (dropWhile (\<lambda>c. c \<noteq> slash) t) < length t" using t(2) length_dropWhile_le [of "\<lambda>c. c \<noteq> slash" "tl t"] by (cases t) auto
  also have "\<dots> \<le> length s" using t(1) length_dropWhile_le by simp
  finally show "(dropWhile (\<lambda>c. c \<noteq> slash) t, s) \<in> measure length" by simp
qed simp

declare path_parts.simps [simp del]

lemma skip_slashes_eq: "0 \<notin> set s \<Longrightarrow> skip_slashes (s @ 0 # r) = Inr (dropWhile (\<lambda>c. c = slash) s @ 0 # r)"
  by (induction s) auto

lemma parse_name_eq:
  "0 \<notin> set t \<Longrightarrow> parse_name (t @ 0 # r) ns = (let w = takeWhile (\<lambda>c. c \<noteq> slash) t; u = dropWhile (\<lambda>c. c \<noteq> slash) t in
     if length w \<le> length ns then Inr (if u = [] then None else Some (u @ 0 # r), w @ drop (length w) ns) else Inl OutOfBounds)"
proof (induction t arbitrary: ns)
  case (Cons c t)
  then show ?case by (cases ns) (auto simp: Let_def)
qed simp

lemma path_parse_eq:
  assumes "0 \<notin> set s" and "t = dropWhile (\<lambda>c. c = slash) s" and "w = takeWhile (\<lambda>c. c \<noteq> slash) t" and "u = dropWhile (\<lambda>c. c \<noteq> slash) t"
  shows "path_parse (s @ 0 # r) ns =
     (if length w \<le> length ns then Inr (if u = [] then None else Some (u @ 0 # r), w @ drop (length w) ns) else Inl OutOfBounds)"
proof -
  have t0: "0 \<notin> set t" using assms(1,2) set_dropWhileD by metis
  have "path_parse (s @ 0 # r) ns = parse_name (t @ 0 # r) ns"
  proof (cases s)
    case (Cons c cs)
    then show ?thesis using assms(1,2) skip_slashes_eq [of cs r] by (cases "c = slash") (simp_all add: path_parse_def)
  qed (use assms(2) in \<open>simp add: path_parse_def\<close>)
  then show ?thesis using parse_name_eq [OF t0, of r ns] unfolding Let_def assms(3,4) by (rule trans)
qed

definition name_overflow :: "u8 list \<Rightarrow> bool" where
  "name_overflow s \<longleftrightarrow> (\<exists>w \<in> set (path_parts s). 16 < length w)"

lemma depth_loop_eq:
  assumes "0 \<notin> set u" and "byte_at name 0 = Inr c" and "c \<noteq> 0"
  shows "depth_loop (Some (u @ 0 # r)) name d = (if name_overflow u then Inl OutOfBounds else Inr (d + 1 + of_nat (length (path_parts u))))"
  using assms
proof (induction u arbitrary: name c d rule: path_parts.induct)
  case (1 u)
  define t where "t = dropWhile (\<lambda>c. c = slash) u"
  define w v where "w = takeWhile (\<lambda>c. c \<noteq> slash) t" and "v = dropWhile (\<lambda>c. c \<noteq> slash) t"
  have pp: "path_parse (u @ 0 # r) (replicate 16 0) =
     (if length w \<le> 16 then Inr (if v = [] then None else Some (v @ 0 # r), w @ replicate (16 - length w) 0) else Inl OutOfBounds)"
    using path_parse_eq [OF 1(2) t_def w_def v_def, of r "replicate 16 0"] by simp
  have pu: "path_parts u = (if t = [] then [] else w # path_parts v)" by (subst path_parts.simps) (simp add: Let_def t_def w_def v_def)
  have step: "depth_loop (Some (u @ 0 # r)) name d = bindR (path_parse (u @ 0 # r) (replicate 16 0)) (\<lambda>(p, name). depth_loop p name (d + 1))"
    using 1(3,4) by (simp add: depth_loop.simps [of "Some (u @ 0 # r)"] next_name_def)
  show ?case
  proof (cases "t = []")
    case True
    then have "w = []" "v = []" by (simp_all add: w_def v_def)
    then show ?thesis using True pu pp step by (simp add: name_overflow_def depth_loop.simps [of None])
  next
    case False
    then have hd: "hd t \<noteq> slash" using hd_dropWhile [of "\<lambda>c. c = slash" u] by (simp add: t_def)
    then have wne: "w \<noteq> []" "hd w = hd t" using False by (cases t; simp add: w_def)+
    have t0: "0 \<notin> set t" using 1(2) set_dropWhileD unfolding t_def by metis
    then have w0: "hd w \<noteq> 0" using wne(2) hd_in_set [OF False] by metis
    have v0: "0 \<notin> set v" using t0 set_dropWhileD unfolding v_def by metis
    show ?thesis
    proof (cases "length w \<le> 16")
      case le: True
      let ?n = "w @ replicate (16 - length w) 0"
      have bn: "byte_at ?n 0 = Inr (hd w)" using wne by (simp add: byte_at_def hd_conv_nth nth_append)
      show ?thesis
      proof (cases "v = []")
        case True
        have "path_parts v = []" unfolding True by (subst path_parts.simps) simp
        then show ?thesis using True le pp step pu False bn w0
          by (simp add: name_overflow_def depth_loop.simps [of None ?n] next_name_def depth_loop.simps [of None "replicate 16 0"])
      next
        case vne: False
        have "depth_loop (Some (v @ 0 # r)) ?n (d + 1) = (if name_overflow v then Inl OutOfBounds else Inr (d + 1 + 1 + of_nat (length (path_parts v))))"
          using 1(1) [OF t_def False v0 [unfolded v_def] bn w0] by (simp add: v_def)
        then show ?thesis using vne le pp step pu False by (simp add: name_overflow_def ac_simps)
      qed
    next
      case gt: False
      then show ?thesis using pp step pu False by (auto simp: name_overflow_def)
    qed
  qed
qed

text \<open>
  \<^verbatim>\<open>path_depth_cnt\<close> on every path: it counts the components between the slashes, repeated and trailing
  slashes ignored, unless a component is longer than the 16 bytes of the name buffer, which
  \<^verbatim>\<open>path_parse\<close> then writes past; on a path without components the answer depends on the
  uninitialised buffer.
\<close>

theorem path_depth_characterised:
  assumes "0 \<notin> set s" and "length name = 16"
  shows "path_depth_cnt name (s @ 0 # r) =
     (if \<exists>w \<in> set (path_parts s). 16 < length w then Inl OutOfBounds
      else if path_parts s = [] then Inr (if name ! 0 = 0 then 0 else 1) else Inr (of_nat (length (path_parts s))))"
proof -
  define t where "t = dropWhile (\<lambda>c. c = slash) s"
  define w v where "w = takeWhile (\<lambda>c. c \<noteq> slash) t" and "v = dropWhile (\<lambda>c. c \<noteq> slash) t"
  have pp: "path_parse (s @ 0 # r) name =
     (if length w \<le> 16 then Inr (if v = [] then None else Some (v @ 0 # r), w @ drop (length w) name) else Inl OutOfBounds)"
    using path_parse_eq [OF assms(1) t_def w_def v_def, of r name] assms(2) by simp
  have ps: "path_parts s = (if t = [] then [] else w # path_parts v)" by (subst path_parts.simps) (simp add: Let_def t_def w_def v_def)
  have none: "depth_loop None n d = Inr (if n ! 0 = 0 then d else d + 1)" if "length n = 16" for n d
    using that by (simp add: depth_loop.simps [of None n] next_name_def depth_loop.simps [of None "replicate 16 0"])
  show ?thesis
  proof (cases "t = []")
    case True
    then have "w = []" "v = []" by (simp_all add: w_def v_def)
    then show ?thesis using True ps pp none [OF assms(2)] by (simp add: path_depth_cnt_def)
  next
    case False
    then have hd: "hd t \<noteq> slash" using hd_dropWhile [of "\<lambda>c. c = slash" s] by (simp add: t_def)
    then have wne: "w \<noteq> []" "hd w = hd t" using False by (cases t; simp add: w_def)+
    have t0: "0 \<notin> set t" using assms(1) set_dropWhileD unfolding t_def by metis
    then have w0: "hd w \<noteq> 0" using wne(2) hd_in_set [OF False] by metis
    have v0: "0 \<notin> set v" using t0 set_dropWhileD unfolding v_def by metis
    let ?n = "w @ drop (length w) name"
    have bn: "byte_at ?n 0 = Inr (hd w)" "?n ! 0 = hd w" using wne by (simp_all add: byte_at_def hd_conv_nth nth_append)
    show ?thesis
    proof (cases "length w \<le> 16")
      case le: True
      then have ln: "length ?n = 16" using assms(2) by simp
      show ?thesis
      proof (cases "v = []")
        case True
        have "path_parts v = []" unfolding True by (subst path_parts.simps) simp
        then show ?thesis using True le pp ps False none [OF ln] bn(2) w0 by (simp add: path_depth_cnt_def)
      next
        case vne: False
        then show ?thesis using le pp ps False depth_loop_eq [OF v0 bn(1) w0, of r 0] by (auto simp: path_depth_cnt_def name_overflow_def)
      qed
    next
      case gt: False
      then show ?thesis using pp ps False by (auto simp: path_depth_cnt_def)
    qed
  qed
qed

theorem path_depth_characterised_witness:
  "path_depth_cnt (replicate 16 9) ([47, 97, 47, 47, 98, 47] @ 0 # []) = Inr 2 \<and> path_depth_cnt (replicate 16 9) ([47] @ 0 # []) = Inr 1"
proof -
  have "path_parts [47, 97, 47, 47, 98, 47] = [[97], [98]]" "path_parts [47] = []" by (simp_all add: path_parts.simps)
  then show ?thesis
    using path_depth_characterised [of "[47, 97, 47, 47, 98, 47]" "replicate 16 9" "[]"] path_depth_characterised [of "[47]" "replicate 16 9" "[]"]
    by simp
qed

end
