(* ===== verification/Fs.thy ===== *)
theory Fs
  imports Path
begin

text \<open>
  Model of \<^verbatim>\<open>file_create\<close> of \<^verbatim>\<open>fs/file.c\<close> and of the system calls of \<^verbatim>\<open>fs/fs.c\<close> that work on the file system
  alone; reading and writing through a descriptor is in the theory of the descriptors, after the
  queues. \<open>g\<close> gives the bytes the stack holds at the calls that read a local variable before setting it.
\<close>

section \<open>Creating a file\<close>

definition push_inode :: "inode \<Rightarrow> fsys \<Rightarrow> fsys" where
  "push_inode i = upd_part (\<lambda>p. p\<lparr>open_inodes := i # open_inodes p\<rparr>)"

text \<open>The rollback gives the inode number back.\<close>

definition undo_inode :: "u32 \<Rightarrow> fsys \<Rightarrow> fsys result" where
  "undo_inode inode_no fs = mapR (\<lambda>b. upd_part (\<lambda>p. p\<lparr>inode_bitmap := b\<rparr>) fs) (bitmap_set (inode_bitmap (cur_part fs)) (unat inode_no) 0)"

definition file_create :: "dirp \<Rightarrow> u8 list \<Rightarrow> u32 \<Rightarrow> fsys \<Rightarrow> (int \<times> fsys) result" where
  "file_create pdir filename flag fs =
     (let (ok, fs) = sys_malloc_ok fs in
      if \<not> ok then Inr (-1, fs)
      else bindR (inode_bitmap_alloc fs) (\<lambda>(no, fs). case no of
          None \<Rightarrow> Inr (-1, fs)
        | Some inode_no \<Rightarrow>
            let (ok, fs) = sys_malloc_ok fs in
            if \<not> ok then mapR (\<lambda>fs. (-1, fs)) (undo_inode inode_no fs)
            else let new_file_inode = inode_init inode_no in
              case get_free_slot_in_global fs of
                None \<Rightarrow> mapR (\<lambda>fs. (-1, fs)) (undo_inode inode_no fs)
              | Some fd_idx \<Rightarrow>
                  let fs = upd_file fd_idx (\<lambda>_. \<lparr>fd_pos = 0, fd_flag = flag, fd_inode = InodeAt inode_no\<rparr>) fs in
                  bindR (create_dir_entry filename inode_no FT_REGULAR (replicate 24 0)) (\<lambda>new_dir_entry.
                  bindR (sync_dir_entry pdir new_dir_entry fs) (\<lambda>(done, fs).
                  if \<not> done then
                    mapR (\<lambda>fs. (-1, fs)) (undo_inode inode_no (upd_file fd_idx (\<lambda>_. \<lparr>fd_pos = 0, fd_flag = 0, fd_inode = NoInode\<rparr>) fs))
                  else
                    bindR (dir_node pdir fs) (\<lambda>pi.
                    bindR (inode_sync pi 1024 fs) (\<lambda>fs.
                    bindR (inode_sync new_file_inode 1024 fs) (\<lambda>fs.
                    bindR (bitmap_sync inode_no INODE_BITMAP fs) (\<lambda>fs.
                    Inr (pcb_fd_install fd_idx (push_inode (new_file_inode\<lparr>i_open_cnts := 1\<rparr>) fs))))))))))"

section \<open>Opening and seeking\<close>

definition close_parent :: "int \<Rightarrow> path_search_record \<Rightarrow> fsys \<Rightarrow> (int \<times> fsys) result" where
  "close_parent ret rec fs = mapR (\<lambda>fs. (ret, fs)) (dir_close (parent_dir rec) fs)"

text \<open>The branch that opens an existing file leaves the parent directory open.\<close>

definition sys_open :: "(nat \<Rightarrow> u8 list) \<Rightarrow> u8 list \<Rightarrow> u8 \<Rightarrow> fsys \<Rightarrow> (int \<times> fsys) result" where
  "sys_open g pathname flags fs =
     bindR (strlen (Some pathname)) (\<lambda>n.
     bindR (if n = 0 then Inl OutOfBounds else byte_at pathname (n - 1)) (\<lambda>c.
     if c = slash then Inr (-1, fs)
     else ASSERT (flags \<le> 7) ''flags <= 7''
       (bindR (path_depth_cnt (g 0) pathname) (\<lambda>pathname_depth.
        bindR (search_file (g 1) pathname empty_record fs) (\<lambda>(inode_no, rec, fs).
        if file_type rec = FT_DIRECTORY then close_parent (-1) rec fs
        else bindR (path_depth_cnt (g 2) (searched_path rec)) (\<lambda>path_searched_depth.
          if pathname_depth \<noteq> path_searched_depth then close_parent (-1) rec fs
          else if inode_no = -1 \<and> flags AND 4 = 0 then close_parent (-1) rec fs
          else if inode_no \<noteq> -1 \<and> flags AND 4 \<noteq> 0 then close_parent (-1) rec fs
          else if flags AND 4 \<noteq> 0 then
            bindR (strrchr (Some pathname) slash) (\<lambda>k. case k of
                None \<Rightarrow> Inl NullDeref
              | Some k \<Rightarrow>
                  bindR (file_create (parent_dir rec) (drop (k + 1) pathname) (ucast flags) fs) (\<lambda>(fd, fs).
                  close_parent fd rec fs))
          else file_open (of_int inode_no) (ucast flags) fs))))))"

definition fd_local2global :: "int \<Rightarrow> fsys \<Rightarrow> nat result" where
  "fd_local2global local_fd fs =
     bindR (byte_at (cur_fds fs) (nat local_fd)) (\<lambda>global_fd.
     ASSERT (0 \<le> global_fd \<and> global_fd < 32) ''global_fd >= 0 && global_fd < MAX_FILE_OPEN'' (Inr (nat global_fd)))"

text \<open>Positions and offsets are 32-bit signed numbers.\<close>

definition sys_lseek :: "int \<Rightarrow> u32 \<Rightarrow> u8 \<Rightarrow> fsys \<Rightarrow> (int \<times> fsys) result" where
  "sys_lseek fd offset whence fs =
     (if fd < 0 then Inr (-1, fs)
      else ASSERT (whence > 0 \<and> whence < 4) ''whence > 0 && whence < 4''
        (bindR (fd_local2global fd fs) (\<lambda>idx.
         bindR (file_inode idx fs) (\<lambda>r.
         bindR (the_inode r fs) (\<lambda>i.
         let file_size = i_size i;
             new_pos = (if whence = 1 then offset else if whence = 2 then file_size + offset else file_size + offset)
         in if sint new_pos < 0 \<or> sint new_pos > sint (file_size - 1) then Inr (-1, fs)
            else Inr (sint new_pos, upd_file idx (\<lambda>f. f\<lparr>fd_pos := new_pos\<rparr>) fs))))))"

section \<open>Removing a file\<close>

definition file_in_use :: "u32 \<Rightarrow> fsys \<Rightarrow> bool" where
  "file_in_use inode_no fs \<longleftrightarrow> (\<exists>f \<in> set (file_table fs). fd_inode f = InodeAt inode_no)"

definition sys_unlink :: "u8 list \<Rightarrow> u8 list \<Rightarrow> fsys \<Rightarrow> (int \<times> fsys) result" where
  "sys_unlink g pathname fs =
     bindR (strlen (Some pathname)) (\<lambda>n.
     ASSERT (n < 512) ''strlen(pathname) < MAX_PATH_LEN''
     (bindR (search_file g pathname empty_record fs) (\<lambda>(inode_no, rec, fs).
      ASSERT (inode_no \<noteq> 0) ''inode_no != 0''
      (if inode_no = -1 \<or> file_type rec = FT_DIRECTORY then close_parent (-1) rec fs
       else if file_in_use (of_int inode_no) fs then close_parent (-1) rec fs
       else let (ok, fs) = sys_malloc_ok fs in
         if \<not> ok then close_parent (-1) rec fs
         else bindR (delete_dir_entry (parent_dir rec) (of_int inode_no) 1024 fs) (\<lambda>(_, fs).
              bindR (inode_release (of_int inode_no) fs) (close_parent 0 rec))))))"

section \<open>Directories\<close>

definition dot_entries :: "u32 \<Rightarrow> u32 \<Rightarrow> u8 list" where
  "dot_entries self parent =
     dir_entry (46 # replicate 15 0) self FT_DIRECTORY @ dir_entry (46 # 46 # replicate 14 0) parent FT_DIRECTORY @ replicate 464 0"

definition sys_mkdir :: "(nat \<Rightarrow> u8 list) \<Rightarrow> u8 list \<Rightarrow> fsys \<Rightarrow> (int \<times> fsys) result" where
  "sys_mkdir g pathname fs =
     (let (ok, fs) = sys_malloc_ok fs in
      if \<not> ok then Inr (-1, fs)
      else bindR (search_file (g 0) pathname empty_record fs) (\<lambda>(found, rec, fs).
        if found \<noteq> -1 then close_parent (-1) rec fs
        else bindR (path_depth_cnt (g 1) pathname) (\<lambda>pathname_depth.
          bindR (path_depth_cnt (g 2) (searched_path rec)) (\<lambda>path_searched_depth.
          if pathname_depth \<noteq> path_searched_depth then close_parent (-1) rec fs
          else bindR (strrchr (Some (searched_path rec)) slash) (\<lambda>k. case k of
              None \<Rightarrow> Inl NullDeref
            | Some k \<Rightarrow>
                let dirname = drop (k + 1) (searched_path rec) in
                bindR (inode_bitmap_alloc fs) (\<lambda>(no, fs). case no of
                    None \<Rightarrow> close_parent (-1) rec fs
                  | Some inode_no \<Rightarrow>
                      bindR (block_bitmap_alloc fs) (\<lambda>(lba, fs). case lba of
                          None \<Rightarrow> bindR (undo_inode inode_no fs) (close_parent (-1) rec)
                        | Some block_lba \<Rightarrow>
                            let new_dir_inode = (inode_init inode_no)\<lparr>i_sectors := (replicate 13 0)[0 := block_lba],
                                                                       i_size := 2 * dir_entry_size (fsb fs)\<rparr>;
                                block_bitmap_idx = block_lba - data_start_lba (fsb fs) in
                            ASSERT (block_bitmap_idx \<noteq> 0) ''block_bitmap_idx != 0''
                            (bindR (bitmap_sync block_bitmap_idx BLOCK_BITMAP fs) (\<lambda>fs.
                             bindR (dir_node (parent_dir rec) fs) (\<lambda>pi.
                             bindR (fs_write block_lba (dot_entries inode_no (i_no pi)) 1 fs) (\<lambda>fs.
                             bindR (create_dir_entry dirname inode_no FT_DIRECTORY (replicate 24 0)) (\<lambda>new_dir_entry.
                             bindR (sync_dir_entry (parent_dir rec) new_dir_entry fs) (\<lambda>(done, fs).
                             if \<not> done then bindR (undo_inode inode_no fs) (close_parent (-1) rec)
                             else
                               bindR (dir_node (parent_dir rec) fs) (\<lambda>pi.
                               bindR (inode_sync pi 1024 fs) (\<lambda>fs.
                               bindR (inode_sync new_dir_inode 1024 fs) (\<lambda>fs.
                               bindR (bitmap_sync inode_no INODE_BITMAP fs) (close_parent 0 rec)))))))))))))))))"

text \<open>The second disjunct tests \<^verbatim>\<open>name[0]\<close> again, so \<^verbatim>\<open>/.\<close> is looked up like any other path.\<close>

definition sys_opendir :: "u8 list \<Rightarrow> u8 list \<Rightarrow> fsys \<Rightarrow> (dirp option \<times> fsys) result" where
  "sys_opendir g name fs =
     bindR (strlen (Some name)) (\<lambda>n.
     ASSERT (n < 512) ''strlen(name) < MAX_PATH_LEN''
     (bindR (byte_at name 0) (\<lambda>c0.
      bindR (if c0 = slash then mapR (\<lambda>c1. c1 = 0 \<or> c0 = 46) (byte_at name 1) else Inr False) (\<lambda>root.
      if root then Inr (Some RootDir, fs)
      else bindR (search_file g name empty_record fs) (\<lambda>(inode_no, rec, fs).
        bindR (if inode_no \<noteq> -1 \<and> file_type rec = FT_DIRECTORY then mapR (\<lambda>(p, fs). (Some p, fs)) (dir_open (of_int inode_no) fs)
               else Inr (None, fs)) (\<lambda>(ret, fs).
        mapR (\<lambda>fs. (ret, fs)) (dir_close (parent_dir rec) fs)))))))"

definition sys_closedir :: "dirp option \<Rightarrow> fsys \<Rightarrow> (int \<times> fsys) result" where
  "sys_closedir dir fs = (case dir of None \<Rightarrow> Inr (-1, fs) | Some p \<Rightarrow> mapR (\<lambda>fs. (0, fs)) (dir_close p fs))"

definition sys_readdir :: "dirp option \<Rightarrow> fsys \<Rightarrow> (u8 list option \<times> dirp \<times> fsys) result" where
  "sys_readdir dir fs = (case dir of None \<Rightarrow> Inl (AssertFail ''dir != NULL'') | Some p \<Rightarrow> dir_read p fs)"

definition sys_rewinddir :: "dirp \<Rightarrow> fsys \<Rightarrow> dirp \<times> fsys" where
  "sys_rewinddir dir fs = set_dir_pos dir 0 fs"

definition sys_rmdir :: "u8 list \<Rightarrow> u8 list \<Rightarrow> fsys \<Rightarrow> (int \<times> fsys) result" where
  "sys_rmdir g pathname fs =
     bindR (search_file g pathname empty_record fs) (\<lambda>(inode_no, rec, fs).
     ASSERT (inode_no \<noteq> 0) ''inode_no != 0''
     (if inode_no = -1 \<or> file_type rec = FT_REGULAR then close_parent (-1) rec fs
      else bindR (dir_open (of_int inode_no) fs) (\<lambda>(dir, fs).
        bindR (dir_is_empty dir fs) (\<lambda>empty.
        bindR (if \<not> empty then Inr (-1, fs) else dir_remove (parent_dir rec) dir fs) (\<lambda>(ret, fs).
        bindR (dir_close dir fs) (close_parent (if ret = 0 then 0 else -1) rec))))))"

section \<open>The working directory\<close>

definition get_parent_dir_inode_nr :: "u32 \<Rightarrow> fsys \<Rightarrow> (u32 \<times> fsys) result" where
  "get_parent_dir_inode_nr child_inode_nr fs =
     bindR (inode_open child_inode_nr fs) (\<lambda>(r, fs).
     bindR (the_inode r fs) (\<lambda>i.
     let block_lba = i_sectors i ! 0 in
     ASSERT (block_lba \<ge> data_start_lba (fsb fs)) ''block_lba >= cur_part->sb->data_start_lba''
     (bindR (inode_close r fs) (\<lambda>fs.
      bindR (fs_read block_lba 1 fs) (\<lambda>io_buf.
      bindR (de_at io_buf 1) (\<lambda>e.
      ASSERT (de_i_no e < 4096 \<and> de_f_type e = FT_DIRECTORY) ''dir_e[1].i_no < 4096 && dir_e[1].f_type == FT_DIRECTORY''
        (Inr (de_i_no e, fs))))))))"

function child_in_sector :: "u8 list \<Rightarrow> u32 \<Rightarrow> nat \<Rightarrow> nat \<Rightarrow> u8 list option result" where
  "child_in_sector buf c_inode_nr k cnt =
     (if k < cnt then bindR (de_at buf k) (\<lambda>e. if de_i_no e = c_inode_nr then Inr (Some e) else child_in_sector buf c_inode_nr (Suc k) cnt)
      else Inr None)"
  by pat_completeness auto
termination
  by (relation "measure (\<lambda>(buf, c, k, cnt). cnt - k)") auto

declare child_in_sector.simps [simp del]

fun child_in_blocks :: "u32 \<Rightarrow> nat \<Rightarrow> u32 list \<Rightarrow> fsys \<Rightarrow> u8 list option result" where
  "child_in_blocks c cnt [] fs = Inr None"
| "child_in_blocks c cnt (a # as) fs =
     (if a \<noteq> 0 then
        bindR (fs_read a 1 fs) (\<lambda>buf. bindR (child_in_sector buf c 0 cnt) (\<lambda>res. case res of
            Some e \<Rightarrow> Inr (Some e)
          | None \<Rightarrow> child_in_blocks c cnt as fs))
      else child_in_blocks c cnt as fs)"

text \<open>The result is \<open>None\<close> for the return value -1, or the extended path.\<close>

definition get_child_dir_name :: "u32 \<Rightarrow> u32 \<Rightarrow> u8 list \<Rightarrow> fsys \<Rightarrow> (u8 list option \<times> fsys) result" where
  "get_child_dir_name p_inode_nr c_inode_nr path fs =
     bindR (inode_open p_inode_nr fs) (\<lambda>(r, fs).
     bindR (the_inode r fs) (\<lambda>i.
     bindR (dir_blocks i fs) (\<lambda>all_blocks.
     let block_cnt = (if i_sectors i ! 12 \<noteq> 0 then 140 else 12) in
     bindR (inode_close r fs) (\<lambda>fs.
     bindR (dirents_per_sec fs) (\<lambda>cnt.
     bindR (child_in_blocks c_inode_nr cnt (take block_cnt all_blocks) fs) (\<lambda>res. case res of
         None \<Rightarrow> Inr (None, fs)
       | Some e \<Rightarrow>
           bindR (strcat (Some path) (Some [slash, 0])) (\<lambda>path.
           mapR (\<lambda>path. (Some path, fs)) (strcat (Some path) (Some e)))))))))"

text \<open>A path that was extended is longer, in the same memory: climbing to the root ends.\<close>

lemma strcpy_loop_grows: "strcpy_loop dst src = Inr d \<Longrightarrow> length d = length dst \<and> (src \<noteq> [] \<and> hd src \<noteq> 0 \<longrightarrow> str_of d \<noteq> [])"
  by (induction dst src arbitrary: d rule: strcpy_loop.induct) (auto simp: mapR_Inr_iff str_of_def split: if_splits)

lemma strcat_loop_grows: "strcat_loop dst src = Inr d \<Longrightarrow>
    length d = length dst \<and> length (str_of dst) \<le> length (str_of d) \<and> (src \<noteq> [] \<and> hd src \<noteq> 0 \<longrightarrow> length (str_of dst) < length (str_of d))"
proof (induction dst arbitrary: d)
  case (Cons c dst)
  show ?case
  proof (cases "c = 0")
    case True
    then show ?thesis using Cons.prems strcpy_loop_grows [of "c # dst" src d] by (auto simp: str_of_def)
  next
    case False
    then obtain d' where "strcat_loop dst src = Inr d'" "d = c # d'" using Cons.prems by (auto simp: mapR_Inr_iff)
    then show ?thesis using Cons.IH False by (auto simp: str_of_def)
  qed
qed simp

lemma get_child_dir_name_grows:
  assumes "get_child_dir_name p c path fs = Inr (Some path', fs')"
  shows "length path' = length path \<and> length (str_of path) < length (str_of path')"
proof -
  obtain q e where "strcat_loop path [slash, 0] = Inr q" "strcat_loop q e = Inr path'"
    using assms by (auto simp: get_child_dir_name_def Let_def result_iffs strcat_def split: option.splits)
  then show ?thesis using strcat_loop_grows [of path] strcat_loop_grows [of q e] by fastforce
qed

function cwd_loop :: "u32 \<Rightarrow> u8 list \<Rightarrow> fsys \<Rightarrow> (u8 list option \<times> fsys) result" where
  "cwd_loop child_inode_nr path fs =
     (if child_inode_nr \<noteq> 0 then
        bindR (get_parent_dir_inode_nr child_inode_nr fs) (\<lambda>(parent_inode_nr, fs).
        bindR (get_child_dir_name parent_inode_nr child_inode_nr path fs) (\<lambda>(res, fs). case res of
            None \<Rightarrow> Inr (None, fs)
          | Some path \<Rightarrow> cwd_loop parent_inode_nr path fs))
      else Inr (Some path, fs))"
  by pat_completeness auto
termination
proof (relation "measure (\<lambda>(c, path, fs). length path - length (str_of path))")
  fix c :: u32 and path :: "u8 list" and fs :: fsys and x xa fsa y xb fsb' path'
  assume "(xb, fsb') = y" "get_child_dir_name xa c path fsa = Inr y" "xb = Some path'"
  then have "length path' = length path" "length (str_of path) < length (str_of path')"
    using get_child_dir_name_grows by blast+
  moreover have "length (str_of path') \<le> length path'" by (simp add: str_of_def length_takeWhile_le)
  ultimately show "((xa, path', fsb'), (c, path, fs)) \<in> measure (\<lambda>(c, path, fs). length path - length (str_of path))" by simp
qed simp

declare cwd_loop.simps [simp del]

text \<open>The names were collected child first: the last name of \<^verbatim>\<open>full_path_reverse\<close> moves to the end of \<^verbatim>\<open>buf\<close>
  until none is left. The length is kept in 16 bits.\<close>

definition move_last :: "u8 list \<Rightarrow> u8 list \<Rightarrow> nat \<Rightarrow> (u8 list \<times> u8 list) result" where
  "move_last full buf k =
     bindR (strlen (Some buf)) (\<lambda>len.
     let len = len mod 2 ^ 16 in
     bindR (strcpy (Some (drop len buf)) (Some (drop k full))) (\<lambda>rest.
     Inr (full[k := 0], take len buf @ rest)))"

lemma strrchr_loop_bound: "strrchr_loop s ch i l = Inr (Some k) \<Longrightarrow> l = Some k \<or> i \<le> k \<and> k - i < length (str_of s)"
proof (induction s arbitrary: i l)
  case (Cons c s)
  show ?case
  proof (cases "c = 0")
    case False
    then show ?thesis using Cons.prems Cons.IH [of "Suc i"] by (fastforce simp: str_of_def split: if_splits)
  qed (use Cons.prems in simp)
qed simp

lemma str_of_cut: "k < length (str_of s) \<Longrightarrow> length (str_of (s[k := 0])) < length (str_of s)"
proof (induction s arbitrary: k)
  case (Cons c s)
  then show ?case by (cases k) (auto simp: str_of_def split: if_splits)
qed (simp add: str_of_def)

function rev_loop :: "u8 list \<Rightarrow> u8 list \<Rightarrow> u8 list result" where
  "rev_loop full buf =
     bindR (strrchr (Some full) slash) (\<lambda>last_slash. case last_slash of
         None \<Rightarrow> Inr buf
       | Some k \<Rightarrow> bindR (move_last full buf k) (\<lambda>(full, buf). rev_loop full buf))"
  by pat_completeness auto
termination
proof (relation "measure (\<lambda>(full, buf). length (str_of full))")
  fix full buf :: "u8 list" and x k y full' buf'
  assume "strrchr (Some full) slash = Inr x" "x = Some k" "move_last full buf k = Inr y" "(full', buf') = y"
  then have "full' = full[k := 0]" "k < length (str_of full)"
    using strrchr_loop_bound [of full slash 0 None k] by (auto simp: move_last_def Let_def bindR_Inr_iff strrchr_def)
  then show "((full', buf'), (full, buf)) \<in> measure (\<lambda>(full, buf). length (str_of full))" using str_of_cut by simp
qed simp

declare rev_loop.simps [simp del]

text \<open>\<open>None\<close> is the NULL that is returned on failure, otherwise the contents of \<^verbatim>\<open>buf\<close>.\<close>

definition sys_getcwd :: "u8 list \<Rightarrow> nat \<Rightarrow> fsys \<Rightarrow> (u8 list option \<times> fsys) result" where
  "sys_getcwd buf size' fs =
     (let (ok, fs) = sys_malloc_ok fs in
      if \<not> ok then Inr (None, fs)
      else ASSERT (cur_cwd fs < 4096) ''child_inode_nr >= 0 && child_inode_nr < 4096''
        (if cur_cwd fs = 0 then
           bindR (set_byte_at buf 0 slash) (\<lambda>buf. mapR (\<lambda>buf. (Some buf, fs)) (set_byte_at buf 1 0))
         else
           bindR (memset (Some buf) 0 size') (\<lambda>buf.
           bindR (cwd_loop (cur_cwd fs) (replicate 512 0) fs) (\<lambda>(res, fs). case res of
               None \<Rightarrow> Inr (None, fs)
             | Some full \<Rightarrow>
                 bindR (strlen (Some full)) (\<lambda>n.
                 ASSERT (n \<le> size') ''strlen(full_path_reverse) <= size'' (mapR (\<lambda>buf. (Some buf, fs)) (rev_loop full buf)))))))"

definition sys_chdir :: "u8 list \<Rightarrow> u8 list \<Rightarrow> fsys \<Rightarrow> (int \<times> fsys) result" where
  "sys_chdir g path fs =
     bindR (search_file g path empty_record fs) (\<lambda>(inode_no, rec, fs).
     if inode_no \<noteq> -1 \<and> file_type rec = FT_DIRECTORY then close_parent 0 rec (fs\<lparr>cur_cwd := of_int inode_no\<rparr>)
     else close_parent (-1) rec fs)"

record stat =
  st_ino :: u32
  st_size :: u32
  st_filetype :: u32

text \<open>The structure at \<^verbatim>\<open>buf\<close> is written on success only.\<close>

definition sys_stat :: "u8 list \<Rightarrow> u8 list \<Rightarrow> fsys \<Rightarrow> (int \<times> stat option \<times> fsys) result" where
  "sys_stat g path fs =
     bindR (is_root_path path) (\<lambda>root.
     if root then mapR (\<lambda>i. (0, Some \<lparr>st_ino = 0, st_size = i_size i, st_filetype = FT_DIRECTORY\<rparr>, fs)) (the_inode (dir_inode (root_dir fs)) fs)
     else bindR (search_file g path empty_record fs) (\<lambda>(inode_no, rec, fs).
       bindR (if inode_no \<noteq> -1 then
                bindR (inode_open (of_int inode_no) fs) (\<lambda>(r, fs).
                bindR (the_inode r fs) (\<lambda>i.
                mapR (\<lambda>fs. (0, Some \<lparr>st_ino = of_int inode_no, st_size = i_size i, st_filetype = file_type rec\<rparr>, fs)) (inode_close r fs)))
              else Inr (-1, None, fs)) (\<lambda>(ret, buf, fs).
       mapR (\<lambda>fs. (ret, buf, fs)) (dir_close (parent_dir rec) fs))))"

end
