(* ===== verification/File_Data.thy ===== *)
theory File_Data
  imports File
begin

text \<open>
  The contents of a file as one sequence of bytes, and that \<^verbatim>\<open>file_write\<close> and \<^verbatim>\<open>file_read\<close> implement
  appending to it and reading from it, over the block lists, the bitmap and the sectors of the disk.
\<close>

section \<open>Streams of sectors\<close>

definition stream :: "(nat \<Rightarrow> u8 list) \<Rightarrow> nat \<Rightarrow> u8 list" where
  "stream f n = concat (map f [0..<n])"

lemma stream_0 [simp]: "stream f 0 = []"
  by (simp add: stream_def)

lemma stream_Suc: "stream f (Suc n) = stream f n @ f n"
  by (simp add: stream_def)

lemma stream_length: "(\<And>k. k < n \<Longrightarrow> length (f k) = 512) \<Longrightarrow> length (stream f n) = 512 * n"
  by (induction n) (simp_all add: stream_Suc)

lemma stream_cong: "(\<And>k. k < n \<Longrightarrow> f k = g k) \<Longrightarrow> stream f n = stream g n"
  by (induction n) (simp_all add: stream_Suc)

lemma take_stream:
  assumes "\<And>k. k < n \<Longrightarrow> length (f k) = 512" and "q < n" and "o' \<le> 512"
  shows "take (512 * q + o') (stream f n) = stream f q @ take o' (f q)"
  using assms
proof (induction n)
  case (Suc n)
  have l: "length (stream f n) = 512 * n" using Suc.prems(1) by (simp add: stream_length)
  show ?case
  proof (cases "q < n")
    case True
    then have "512 * q + o' \<le> 512 * n" using Suc.prems(3) by linarith
    then show ?thesis using Suc True l by (simp add: stream_Suc)
  next
    case False
    then have "q = n" using Suc.prems(2) by simp
    then show ?thesis using l by (simp add: stream_Suc)
  qed
qed simp

lemma drop_stream:
  assumes "\<And>k. k < n \<Longrightarrow> length (f k) = 512" and "q < n" and "o' + c \<le> 512"
  shows "take c (drop (512 * q + o') (stream f n)) = take c (drop o' (f q))"
proof -
  have l: "length (stream f q) = 512 * q" using assms(1,2) by (intro stream_length) simp
  have "take (512 * q + (o' + c)) (stream f n) = stream f q @ take (o' + c) (f q)"
    using take_stream [OF assms(1,2), where o' = "o' + c"] assms(3) by simp
  then have "take c (drop (512 * q + o') (stream f n)) = drop (512 * q + o') (stream f q @ take (o' + c) (f q))"
    by (simp add: take_drop add.assoc add.commute)
  also have "\<dots> = drop o' (take (o' + c) (f q))" using l by simp
  finally show ?thesis by (simp add: take_drop add.commute)
qed

section \<open>Inodes of the cache\<close>

lemma the_inode_upd:
  assumes "the_inode r fs = Inr i" and "\<And>i. i_no (f i) = i_no i"
  shows "the_inode r (upd_inode r f fs) = Inr (f i)"
proof -
  have "find (\<lambda>i. i_no i = r) xs = Some i \<Longrightarrow> find (\<lambda>i. i_no i = r) (map (\<lambda>i. if i_no i = r then f i else i) xs) = Some (f i)" for xs
    by (induction xs) (auto simp: assms(2) split: if_splits)
  then show ?thesis using assms(1) by (auto simp: the_inode_def upd_inode_def upd_part_def split: option.splits)
qed

lemma the_inode_cong: "open_inodes (cur_part fs') = open_inodes (cur_part fs) \<Longrightarrow> the_inode r fs' = the_inode r fs"
  by (simp add: the_inode_def)

lemma the_inode_no: "the_inode r fs = Inr i \<Longrightarrow> i_no i = r"
  by (auto simp: the_inode_def find_Some_iff split: option.splits)

lemma upd_inode_fields [simp]:
  "hd_drive (upd_inode r f fs) = hd_drive fs" "fsb (upd_inode r f fs) = fsb fs" "block_bitmap (cur_part (upd_inode r f fs)) = block_bitmap (cur_part fs)"
  "file_table (upd_inode r f fs) = file_table fs" "mallocs (upd_inode r f fs) = mallocs fs" "part_dev (cur_part (upd_inode r f fs)) = part_dev (cur_part fs)"
  "start_lba (cur_part (upd_inode r f fs)) = start_lba (cur_part fs)" "sec_cnt (cur_part (upd_inode r f fs)) = sec_cnt (cur_part fs)"
  "inode_bitmap (cur_part (upd_inode r f fs)) = inode_bitmap (cur_part fs)" "cur_fds (upd_inode r f fs) = cur_fds fs" "cur_cwd (upd_inode r f fs) = cur_cwd fs"
  "root_dir (upd_inode r f fs) = root_dir fs"
  by (simp_all add: upd_inode_def upd_part_def)

lemma upd_file_fields [simp]:
  "hd_drive (upd_file k g fs) = hd_drive fs" "cur_part (upd_file k g fs) = cur_part fs" "mallocs (upd_file k g fs) = mallocs fs"
  "cur_fds (upd_file k g fs) = cur_fds fs" "cur_cwd (upd_file k g fs) = cur_cwd fs" "root_dir (upd_file k g fs) = root_dir fs"
  "file_table (upd_file k g fs) = (file_table fs)[k := g (file_table fs ! k)]"
  by (simp_all add: upd_file_def)

text \<open>Everything but the drive, the block bitmap, the open inodes and the positions of the open files.\<close>

definition fs_rest :: "fsys \<Rightarrow> fsys \<Rightarrow> bool" where
  "fs_rest fs fs' \<longleftrightarrow> fsb fs' = fsb fs \<and> start_lba (cur_part fs') = start_lba (cur_part fs) \<and> sec_cnt (cur_part fs') = sec_cnt (cur_part fs) \<and>
     part_dev (cur_part fs') = part_dev (cur_part fs) \<and> inode_bitmap (cur_part fs') = inode_bitmap (cur_part fs) \<and>
     cur_fds fs' = cur_fds fs \<and> cur_cwd fs' = cur_cwd fs \<and> mallocs fs' = mallocs fs \<and> root_dir fs' = root_dir fs \<and>
     map fd_inode (file_table fs') = map fd_inode (file_table fs)"

lemma fs_rest_refl [simp]: "fs_rest fs fs"
  by (simp add: fs_rest_def)

lemma fs_rest_trans: "fs_rest a b \<Longrightarrow> fs_rest b c \<Longrightarrow> fs_rest a c"
  by (simp add: fs_rest_def)

lemma fs_rest_upd [simp]: "fs_rest fs (upd_inode r f fs)" "fs_rest fs (fs\<lparr>hd_drive := d\<rparr>)"
  "fs_rest fs (upd_file k (\<lambda>f. f\<lparr>fd_pos := p f\<rparr>) fs)"
proof -
  have "map fd_inode (xs[k := (xs ! k)\<lparr>fd_pos := q\<rparr>]) = map fd_inode xs" for xs q
    by (cases "k < length xs") (simp_all add: map_update list_update_same_conv list_update_beyond)
  then show "fs_rest fs (upd_file k (\<lambda>f. f\<lparr>fd_pos := p f\<rparr>) fs)" by (simp add: fs_rest_def)
qed (simp_all add: fs_rest_def)

section \<open>The layout of the partition\<close>

definition wf_fs :: "fsys \<Rightarrow> bool" where
  "wf_fs fs \<longleftrightarrow> wf_disk fs \<and> wf_bitmap (block_bitmap (cur_part fs)) \<and>
     btmp_bytes_len (block_bitmap (cur_part fs)) = 512 * unat (block_bitmap_sects (fsb fs)) \<and>
     0 < unat (block_bitmap_lba (fsb fs)) \<and>
     unat (block_bitmap_lba (fsb fs)) + unat (block_bitmap_sects (fsb fs)) \<le> unat (inode_table_lba (fsb fs)) \<and>
     unat (inode_table_lba (fsb fs)) + 608 \<le> unat (data_start_lba (fsb fs)) \<and>
     (\<forall>k < bm_cap (block_bitmap (cur_part fs)). \<not> bm_bit (block_bitmap (cur_part fs)) k \<longrightarrow>
        unat (data_start_lba (fsb fs)) + k \<le> unat max_lba) \<and>
     bm_bit (block_bitmap (cur_part fs)) 0"

definition blk_bit :: "fsys \<Rightarrow> u32 \<Rightarrow> bool" where
  "blk_bit fs a \<longleftrightarrow> unat (data_start_lba (fsb fs)) \<le> unat a \<and>
     unat a - unat (data_start_lba (fsb fs)) < bm_cap (block_bitmap (cur_part fs)) \<and>
     bm_bit (block_bitmap (cur_part fs)) (unat a - unat (data_start_lba (fsb fs)))"

lemma wf_fsD:
  assumes "wf_fs fs"
  shows "wf_disk fs" "wf_bitmap (block_bitmap (cur_part fs))"
    "btmp_bytes_len (block_bitmap (cur_part fs)) = 512 * unat (block_bitmap_sects (fsb fs))"
    "0 < unat (block_bitmap_lba (fsb fs))"
    "unat (block_bitmap_lba (fsb fs)) + unat (block_bitmap_sects (fsb fs)) \<le> unat (inode_table_lba (fsb fs))"
    "unat (inode_table_lba (fsb fs)) + 608 \<le> unat (data_start_lba (fsb fs))"
    "\<And>k. k < bm_cap (block_bitmap (cur_part fs)) \<Longrightarrow> \<not> bm_bit (block_bitmap (cur_part fs)) k \<Longrightarrow>
        unat (data_start_lba (fsb fs)) + k \<le> unat max_lba"
    "bm_bit (block_bitmap (cur_part fs)) 0" "drive_ok (hd_drive fs)"
  using assms unfolding wf_fs_def wf_disk_def by blast+

lemma wf_fs_cong:
  assumes "wf_fs fs" and "fs_rest fs fs'" and "block_bitmap (cur_part fs') = block_bitmap (cur_part fs)" and "drive_ok (hd_drive fs')"
  shows "wf_fs fs'"
  using assms unfolding wf_fs_def wf_disk_def fs_rest_def by simp

lemma len32: "(2 :: nat) ^ LENGTH(32) = 2 ^ 32"
  by simp

text \<open>Writing a sector of the bitmap back.\<close>

lemma bitmap_sync_ok:
  assumes wf: "wf_fs fs" and k: "k < bm_cap (block_bitmap (cur_part fs))"
  obtains d where "bitmap_sync (of_nat k) BLOCK_BITMAP fs = Inr (fs\<lparr>hd_drive := d\<rparr>)" and "drive_ok d"
    and "\<forall>a. unat (inode_table_lba (fsb fs)) \<le> unat a \<longrightarrow> dsecs d a = dsecs (hd_drive fs) a"
proof -
  note w = wf_fsD [OF wf]
  let ?b = "block_bitmap (cur_part fs)" let ?l = "block_bitmap_lba (fsb fs)" let ?s = "unat (block_bitmap_sects (fsb fs))"
  have cap: "bm_cap ?b = 4096 * ?s" "bm_cap ?b < 2 ^ 31" and len: "512 * ?s \<le> length (bits ?b)"
    using w(2,3) by (simp_all add: bm_cap_def wf_bitmap_def)
  have uk: "unat (of_nat k :: u32) = k" using k cap(2) by (simp add: unat_of_nat)
  have off: "k div 4096 < ?s" using k cap(1) by (simp add: less_mult_imp_div_less mult.commute)
  have uq: "unat ((of_nat k :: u32) div 4096) = k div 4096" using uk by (simp add: unat_div)
  have "(of_nat k :: u32) div 4096 = of_nat (unat ((of_nat k :: u32) div 4096))" by simp
  then have q: "(of_nat k :: u32) div 4096 = of_nat (k div 4096)" unfolding uq .
  have tb: "unat (inode_table_lba (fsb fs)) + 608 \<le> Suc (unat max_lba)" using w(1) by (simp add: wf_disk_def)
  have rng: "unat ?l + ?s \<le> Suc (unat max_lba)" using w(5) tb by linarith
  note lr = lba_in_range [OF rng off]
  have uo: "unat (of_nat (k div 4096) * 512 :: u32) = 512 * (k div 4096)"
  proof -
    have "512 * (k div 4096) < 2 ^ 32" using off cap by simp
    then have "unat (of_nat (512 * (k div 4096)) :: u32) = 512 * (k div 4096)" by (simp only: unat_of_nat mod_less len32)
    then show ?thesis by (simp only: of_nat_mult of_nat_numeral mult.commute)
  qed
  obtain d where d: "ide_write (part_dev (cur_part fs)) (?l + of_nat (k div 4096)) (drop (512 * (k div 4096)) (bits ?b)) 1 (hd_drive fs) = Inr d"
    "drive_ok d" "dsecs d = (dsecs (hd_drive fs))(?l + of_nat (k div 4096) := take 512 (drop (512 * (k div 4096)) (bits ?b)))"
  proof (rule ide_write_1 [OF w(9) lr(1)])
    show "512 \<le> length (drop (512 * (k div 4096)) (bits ?b))" using off len by simp
  qed blast
  have "bitmap_sync (of_nat k) BLOCK_BITMAP fs = Inr (fs\<lparr>hd_drive := d\<rparr>)"
    unfolding bitmap_sync_def Let_def q uo using d(1) by (simp add: fs_write_def)
  moreover have "dsecs d a = dsecs (hd_drive fs) a" if "unat (inode_table_lba (fsb fs)) \<le> unat a" for a
    using that w(5) off lr(2) by (auto simp: d(3))
  ultimately show ?thesis using that d(2) by blast
qed

text \<open>Taking a free block.\<close>

lemma block_alloc_ok:
  assumes wf: "wf_fs fs" and free: "bm.free_bits (block_bitmap (cur_part fs)) \<noteq> {}"
  obtains k b where "block_bitmap_alloc fs = Inr (Some (data_start_lba (fsb fs) + of_nat k), upd_part (\<lambda>p. p\<lparr>block_bitmap := b\<rparr>) fs)"
    and "k \<in> bm.free_bits (block_bitmap (cur_part fs))" and "k < bm_cap (block_bitmap (cur_part fs))" and "0 < k"
    and "unat (data_start_lba (fsb fs) + of_nat k) = unat (data_start_lba (fsb fs)) + k"
    and "data_start_lba (fsb fs) + of_nat k \<le> max_lba"
    and "wf_fs (upd_part (\<lambda>p. p\<lparr>block_bitmap := b\<rparr>) fs)" and "bm_cap b = bm_cap (block_bitmap (cur_part fs))"
    and "\<forall>j. bm_bit b j \<longleftrightarrow> j = k \<or> bm_bit (block_bitmap (cur_part fs)) j"
    and "bm.free_bits b = bm.free_bits (block_bitmap (cur_part fs)) - {k}"
proof -
  note w = wf_fsD [OF wf]
  let ?b = "block_bitmap (cur_part fs)" let ?ds = "data_start_lba (fsb fs)"
  from bm.alloc_one [OF w(2) free] obtain k b where k: "bitmap_scan ?b 1 = Inr (int k)" "bitmap_set ?b k 1 = Inr b"
    "k \<in> bm.free_bits ?b" "wf_bitmap b" "bm_cap b = bm_cap ?b" "\<forall>j. bm_bit b j \<longleftrightarrow> j = k \<or> bm_bit ?b j"
    "bm.free_bits b = bm.free_bits ?b - {k}" by metis
  have kc: "k < bm_cap ?b" "\<not> bm_bit ?b k" using k(3) by (simp_all add: bm.free_bits_def)
  have m: "unat ?ds + k \<le> unat max_lba" using w(7) kc by blast
  have u: "unat (?ds + of_nat k) = unat ?ds + k"
    using m by (intro lba_in_range(2) [of ?ds "Suc k"]) auto
  have "k \<noteq> 0" using kc(2) w(8) by (metis (full_types))
  have "btmp_bytes_len b = btmp_bytes_len ?b" using k(5) by (simp add: bm_cap_def)
  then have "wf_fs (upd_part (\<lambda>p. p\<lparr>block_bitmap := b\<rparr>) fs)"
    using wf k(4,5,6) unfolding wf_fs_def wf_disk_def upd_part_def by simp
  moreover have "block_bitmap_alloc fs = Inr (Some (?ds + of_nat k), upd_part (\<lambda>p. p\<lparr>block_bitmap := b\<rparr>) fs)"
    using k(1,2) by (simp add: block_bitmap_alloc_def)
  ultimately show ?thesis
    using that [of k b] k u m kc \<open>k \<noteq> 0\<close> by (simp add: word_le_nat_alt)
qed

text \<open>The effect of allocating the blocks \<open>bs\<close>: they were free and are taken now, nothing else was freed
  or taken, and only sectors of the bitmap were written.\<close>

definition allocated :: "fsys \<Rightarrow> fsys \<Rightarrow> u32 list \<Rightarrow> bool" where
  "allocated fs fs' bs \<longleftrightarrow> wf_fs fs' \<and> fs_rest fs fs' \<and> file_table fs' = file_table fs \<and> distinct bs \<and>
     (\<forall>a \<in> set bs. a \<noteq> 0 \<and> a \<le> max_lba \<and> \<not> blk_bit fs a) \<and>
     (\<forall>a. blk_bit fs' a \<longleftrightarrow> blk_bit fs a \<or> a \<in> set bs) \<and>
     card (bm.free_bits (block_bitmap (cur_part fs'))) + length bs = card (bm.free_bits (block_bitmap (cur_part fs))) \<and>
     (\<forall>a. unat (inode_table_lba (fsb fs)) \<le> unat a \<longrightarrow> dsecs (hd_drive fs') a = dsecs (hd_drive fs) a)"

lemma allocated_trans:
  assumes a: "allocated fs fs1 bs" and b: "allocated fs1 fs2 cs"
  shows "allocated fs fs2 (bs @ cs)"
proof -
  have "fsb fs1 = fsb fs" using a by (simp add: allocated_def fs_rest_def)
  moreover have "set bs \<inter> set cs = {}" using a b by (auto simp: allocated_def)
  ultimately show ?thesis
    using a b fs_rest_trans [of fs fs1 fs2] unfolding allocated_def by auto
qed

lemma allocated_refl: "wf_fs fs \<Longrightarrow> allocated fs fs []"
  by (simp add: allocated_def)

lemma allocated_upd_inode: "allocated fs fs' bs \<Longrightarrow> allocated fs (upd_inode r f fs') bs"
proof -
  assume a: "allocated fs fs' bs"
  have "wf_fs (upd_inode r f fs')"
    by (rule wf_fs_cong [of fs']) (use a wf_fsD(9) in \<open>auto simp: allocated_def\<close>)
  moreover have "blk_bit (upd_inode r f fs') = blk_bit fs'" by (simp add: blk_bit_def fun_eq_iff)
  moreover have "fs_rest fs (upd_inode r f fs')" using a fs_rest_trans [of fs fs' "upd_inode r f fs'"] by (simp add: allocated_def)
  ultimately show ?thesis using a by (simp add: allocated_def)
qed

lemma allocated_sync:
  assumes a: "allocated fs fs' bs" and k: "k < bm_cap (block_bitmap (cur_part fs'))"
  obtains d where "bitmap_sync (of_nat k) BLOCK_BITMAP fs' = Inr (fs'\<lparr>hd_drive := d\<rparr>)" and "allocated fs (fs'\<lparr>hd_drive := d\<rparr>) bs"
proof -
  have wf: "wf_fs fs'" using a by (simp add: allocated_def)
  obtain d where d: "bitmap_sync (of_nat k) BLOCK_BITMAP fs' = Inr (fs'\<lparr>hd_drive := d\<rparr>)" "drive_ok d"
    "\<forall>a. unat (inode_table_lba (fsb fs')) \<le> unat a \<longrightarrow> dsecs d a = dsecs (hd_drive fs') a"
    by (rule bitmap_sync_ok [OF wf k])
  have "wf_fs (fs'\<lparr>hd_drive := d\<rparr>)" by (rule wf_fs_cong [OF wf]) (simp_all add: d(2))
  moreover have "blk_bit (fs'\<lparr>hd_drive := d\<rparr>) = blk_bit fs'" by (simp add: blk_bit_def fun_eq_iff)
  moreover have "fs_rest fs (fs'\<lparr>hd_drive := d\<rparr>)" using a fs_rest_trans [of fs fs' "fs'\<lparr>hd_drive := d\<rparr>"] by (simp add: allocated_def)
  moreover have "fsb fs' = fsb fs" using a by (simp add: allocated_def fs_rest_def)
  ultimately have "allocated fs (fs'\<lparr>hd_drive := d\<rparr>) bs" using a d(3) by (simp add: allocated_def)
  then show ?thesis using that d(1) by blast
qed

lemma allocate_one:
  assumes wf: "wf_fs fs" and free: "bm.free_bits (block_bitmap (cur_part fs)) \<noteq> {}"
  obtains a fs' k where "block_bitmap_alloc fs = Inr (Some a, fs')" and "allocated fs fs' [a]"
    and "a - data_start_lba (fsb fs) = of_nat k" and "0 < k" and "k < bm_cap (block_bitmap (cur_part fs'))"
    and "\<And>r. the_inode r fs' = the_inode r fs"
proof -
  let ?ds = "data_start_lba (fsb fs)"
  obtain k b where k: "block_bitmap_alloc fs = Inr (Some (?ds + of_nat k), upd_part (\<lambda>p. p\<lparr>block_bitmap := b\<rparr>) fs)"
    "k \<in> bm.free_bits (block_bitmap (cur_part fs))" "k < bm_cap (block_bitmap (cur_part fs))" "0 < k"
    "unat (?ds + of_nat k) = unat ?ds + k" "?ds + of_nat k \<le> max_lba"
    "wf_fs (upd_part (\<lambda>p. p\<lparr>block_bitmap := b\<rparr>) fs)" "bm_cap b = bm_cap (block_bitmap (cur_part fs))"
    "\<forall>j. bm_bit b j \<longleftrightarrow> j = k \<or> bm_bit (block_bitmap (cur_part fs)) j"
    "bm.free_bits b = bm.free_bits (block_bitmap (cur_part fs)) - {k}"
    by (rule block_alloc_ok [OF wf free])
  define F where "F = upd_part (\<lambda>p. p\<lparr>block_bitmap := b\<rparr>) fs"
  let ?a = "?ds + of_nat k"
  have F: "fs_rest fs F" "file_table F = file_table fs" "hd_drive F = hd_drive fs" "block_bitmap (cur_part F) = b" "fsb F = fsb fs"
    by (simp_all add: F_def upd_part_def fs_rest_def)
  have nb: "\<not> blk_bit fs ?a" using k(2,5) by (simp add: blk_bit_def bm.free_bits_def)
  have bit: "blk_bit F a \<longleftrightarrow> blk_bit fs a \<or> a = ?a" for a
  proof (cases "unat ?ds \<le> unat a \<and> unat a - unat ?ds = k")
    case True
    then have "unat a = unat ?a" using k(5) by linarith
    then have "a = ?a" by (simp only: word_unat_eq_iff)
    then show ?thesis using k(3,5,8,9) by (simp add: blk_bit_def F)
  next
    case False
    then have "unat a \<noteq> unat ?a" using k(5) by linarith
    then have "a \<noteq> ?a" by (simp only: word_unat_eq_iff) simp
    moreover have "bm_bit b (unat a - unat ?ds) = bm_bit (block_bitmap (cur_part fs)) (unat a - unat ?ds)" if "unat ?ds \<le> unat a"
      using that False k(9) by blast
    ultimately show ?thesis unfolding blk_bit_def F k(8) by blast
  qed
  have "0 < unat ?ds" using wf_fsD(4-6) [OF wf] by linarith
  then have "?a \<noteq> 0" using k(5) by auto
  moreover have "card (bm.free_bits b) + 1 = card (bm.free_bits (block_bitmap (cur_part fs)))"
    using card_Suc_Diff1 [OF bm.finite_free_bits k(2)] by (simp only: k(10) Suc_eq_plus1)
  ultimately have "allocated fs F [?a]"
    using k(6) k(7) [folded F_def] nb F(1-4) unfolding allocated_def bit by simp
  moreover have "the_inode r F = the_inode r fs" for r by (simp add: F_def the_inode_def upd_part_def)
  ultimately show ?thesis using that [OF k(1) [folded F_def]] k(3,4,8) F(4) by simp
qed

text \<open>The positions from \<open>idx\<close> on hold \<open>bs\<close>, the others are unchanged.\<close>

definition run_put :: "nat \<Rightarrow> u32 list \<Rightarrow> u32 list \<Rightarrow> u32 list" where
  "run_put idx bs xs = map (\<lambda>k. if idx \<le> k \<and> k < idx + length bs then bs ! (k - idx) else xs ! k) [0..<length xs]"

lemma run_put_length [simp]: "length (run_put idx bs xs) = length xs"
  by (simp add: run_put_def)

lemma run_put_nth: "k < length xs \<Longrightarrow>
    run_put idx bs xs ! k = (if idx \<le> k \<and> k < idx + length bs then bs ! (k - idx) else xs ! k)"
  by (simp add: run_put_def)

lemma run_put_Nil [simp]: "run_put idx [] xs = xs"
  by (rule nth_equalityI) (auto simp: run_put_nth)

lemma run_put_Cons: "run_put (Suc idx) bs (xs[idx := a]) = run_put idx (a # bs) xs" if "idx < length xs"
  by (rule nth_equalityI) (use that in \<open>auto simp: run_put_nth nth_Cons' nth_list_update\<close>)

text \<open>Blocks below index 12 are recorded in the inode.\<close>

definition put_direct :: "nat \<Rightarrow> u32 list \<Rightarrow> inode \<Rightarrow> inode" where
  "put_direct idx bs i = i\<lparr>i_sectors := run_put idx (take (12 - idx) bs) (i_sectors i)\<rparr>"

lemma put_direct_Nil [simp]: "put_direct idx [] i = i"
  by (simp add: put_direct_def)

lemma put_direct_Cons:
  assumes "length (i_sectors i) = 13"
  shows "put_direct (Suc idx) bs (if idx < 12 then i\<lparr>i_sectors := (i_sectors i)[idx := a]\<rparr> else i) = put_direct idx (a # bs) i"
proof (cases "idx < 12")
  case True
  have "12 - idx = Suc (12 - Suc idx)" using True by simp
  then show ?thesis using True assms run_put_Cons [of idx "i_sectors i" "take (12 - Suc idx) bs" a] by (simp add: put_direct_def)
qed (simp add: put_direct_def)

lemma alloc_blocks_ok:
  assumes "wf_fs fs" and "the_inode r fs = Inr i" and "length (i_sectors i) = 13" and "length all = 140"
    and "idx \<le> will" and "will \<le> 140" and "will - idx \<le> card (bm.free_bits (block_bitmap (cur_part fs)))"
    and "\<forall>k. idx \<le> k \<and> k < will \<and> k < 12 \<longrightarrow> i_sectors i ! k = 0"
  shows "\<exists>bs fs'. alloc_blocks r idx will all fs = Inr (Some (run_put idx bs all), fs') \<and> length bs = will - idx \<and>
     allocated fs fs' bs \<and> the_inode r fs' = Inr (put_direct idx bs i)"
  using assms
proof (induction "will - idx" arbitrary: idx all fs i)
  case 0
  then show ?case using allocated_refl by (intro exI [of _ "[]"] exI [of _ fs]) (simp add: alloc_blocks.simps)
next
  case (Suc n)
  have lt: "idx < will" using Suc.hyps(2) by simp
  have "bm.free_bits (block_bitmap (cur_part fs)) \<noteq> {}" using Suc.prems(7) lt by auto
  then obtain a fs1 k where a: "block_bitmap_alloc fs = Inr (Some a, fs1)" "allocated fs fs1 [a]"
    "a - data_start_lba (fsb fs) = of_nat k" "k < bm_cap (block_bitmap (cur_part fs1))" "the_inode r fs1 = the_inode r fs"
    using allocate_one [OF Suc.prems(1)] by metis
  let ?i = "if idx < 12 then i\<lparr>i_sectors := (i_sectors i)[idx := a]\<rparr> else i"
  define fs2 where "fs2 = (if idx < 12 then set_sector r idx a fs1 else fs1)"
  have al2: "allocated fs fs2 [a]" using a(2) allocated_upd_inode by (simp add: fs2_def set_sector_def)
  have ti2: "the_inode r fs2 = Inr ?i"
    using Suc.prems(2) a(5) by (auto simp: fs2_def set_sector_def intro!: the_inode_upd)
  have sb: "fsb fs2 = fsb fs" and cap: "bm_cap (block_bitmap (cur_part fs2)) = bm_cap (block_bitmap (cur_part fs1))"
    using al2 by (auto simp: allocated_def fs_rest_def fs2_def set_sector_def)
  obtain d where d: "bitmap_sync (of_nat k) BLOCK_BITMAP fs2 = Inr (fs2\<lparr>hd_drive := d\<rparr>)" "allocated fs (fs2\<lparr>hd_drive := d\<rparr>) [a]"
    using allocated_sync [OF al2] a(4) cap by metis
  let ?fs3 = "fs2\<lparr>hd_drive := d\<rparr>"
  have ti3: "the_inode r ?fs3 = Inr ?i" using ti2 by (simp add: the_inode_def)
  have "alloc_blocks r idx will all fs = alloc_blocks r (Suc idx) will (all[idx := a]) ?fs3"
  proof -
    have "bindR (if idx < 12 then bindR (the_inode r fs1) (\<lambda>i. ASSERT (i_sectors i ! idx = 0) ''i_sectors[block_idx] == 0'' (Inr (set_sector r idx a fs1)))
        else Inr fs1) (\<lambda>fs. bindR (bitmap_sync (a - data_start_lba (fsb fs)) BLOCK_BITMAP fs) (alloc_blocks r (Suc idx) will (all[idx := a])))
      = alloc_blocks r (Suc idx) will (all[idx := a]) ?fs3"
      using Suc.prems(2,8) lt a(3,5) d(1) sb by (cases "idx < 12") (simp_all add: fs2_def)
    then show ?thesis using lt a(1) by (simp add: alloc_blocks.simps [of r idx will all fs])
  qed
  moreover have "\<exists>bs fs'. alloc_blocks r (Suc idx) will (all[idx := a]) ?fs3 = Inr (Some (run_put (Suc idx) bs (all[idx := a])), fs') \<and>
     length bs = will - Suc idx \<and> allocated ?fs3 fs' bs \<and> the_inode r fs' = Inr (put_direct (Suc idx) bs ?i)"
  proof (rule Suc.hyps(1) [OF _ _ ti3])
    show "n = will - Suc idx" using Suc.hyps(2) by simp
    show "wf_fs ?fs3" using d(2) by (simp add: allocated_def)
    show "length (i_sectors ?i) = 13" "length (all[idx := a]) = 140" using Suc.prems(3,4) by simp_all
    show "Suc idx \<le> will" "will \<le> 140" using lt Suc.prems(6) by simp_all
    show "will - Suc idx \<le> card (bm.free_bits (block_bitmap (cur_part ?fs3)))"
    proof -
      have "card (bm.free_bits (block_bitmap (cur_part ?fs3))) + length [a] = card (bm.free_bits (block_bitmap (cur_part fs)))"
        using d(2) unfolding allocated_def by blast
      then show ?thesis using Suc.prems(7) by (simp only: list.size)
    qed
    show "\<forall>k. Suc idx \<le> k \<and> k < will \<and> k < 12 \<longrightarrow> i_sectors ?i ! k = 0" using Suc.prems(8) by auto
  qed
  then obtain bs fs' where r: "alloc_blocks r (Suc idx) will (all[idx := a]) ?fs3 = Inr (Some (run_put (Suc idx) bs (all[idx := a])), fs')"
     "length bs = will - Suc idx" "allocated ?fs3 fs' bs" "the_inode r fs' = Inr (put_direct (Suc idx) bs ?i)" by blast
  have "allocated fs fs' (a # bs)" using allocated_trans [OF d(2) r(3)] by simp
  moreover have "run_put (Suc idx) bs (all[idx := a]) = run_put idx (a # bs) all"
    using run_put_Cons lt Suc.prems(4,6) by simp
  moreover have "put_direct (Suc idx) bs ?i = put_direct idx (a # bs) i" by (rule put_direct_Cons [OF Suc.prems(3)])
  ultimately show ?case using r lt by (intro exI [of _ "a # bs"] exI [of _ fs']) simp
qed

section \<open>The blocks of a file\<close>

definition blocks_of :: "inode \<Rightarrow> drive \<Rightarrow> u32 list" where
  "blocks_of i d = take 12 (i_sectors i) @ (if i_sectors i ! 12 = 0 then replicate 128 0 else table_words (dsecs d (i_sectors i ! 12)))"

definition owned_blocks :: "inode \<Rightarrow> drive \<Rightarrow> nat \<Rightarrow> u32 list" where
  "owned_blocks i d n = take n (blocks_of i d) @ (if 12 < n then [i_sectors i ! 12] else [])"

text \<open>The file has exactly the blocks \<open>0..<n\<close>, an indirect table when it needs one, all different, taken in the
  bitmap and on the disk.\<close>

definition file_blks :: "fsys \<Rightarrow> inode \<Rightarrow> nat \<Rightarrow> bool" where
  "file_blks fs i n \<longleftrightarrow> length (i_sectors i) = 13 \<and> n \<le> 140 \<and>
     (\<forall>k < 140. blocks_of i (hd_drive fs) ! k \<noteq> 0 \<longleftrightarrow> k < n) \<and> (i_sectors i ! 12 \<noteq> 0 \<longleftrightarrow> 12 < n) \<and>
     distinct (owned_blocks i (hd_drive fs) n) \<and> (\<forall>a \<in> set (owned_blocks i (hd_drive fs) n). blk_bit fs a \<and> a \<le> max_lba)"

lemma table_words_length [simp]: "length (table_words bs) = 128"
  by (simp add: table_words_def)

lemma blocks_of_length [simp]: "length (i_sectors i) = 13 \<Longrightarrow> length (blocks_of i d) = 140"
  by (simp add: blocks_of_def)

lemma table_words_enc:
  assumes "length ws = 128"
  shows "table_words (concat (map le32 ws)) = ws"
proof (rule nth_equalityI)
  fix k assume "k < length (table_words (concat (map le32 ws)))"
  then have "k < 128" by simp
  then show "table_words (concat (map le32 ws)) ! k = ws ! k"
    using rd32_concat [of k ws "[]" "[]"] assms by (simp add: table_words_def)
qed (simp add: assms)

lemma file_blksD:
  assumes "file_blks fs i n"
  shows "length (i_sectors i) = 13" "n \<le> 140" "\<And>k. k < 140 \<Longrightarrow> blocks_of i (hd_drive fs) ! k \<noteq> 0 \<longleftrightarrow> k < n"
    "i_sectors i ! 12 \<noteq> 0 \<longleftrightarrow> 12 < n" "distinct (owned_blocks i (hd_drive fs) n)"
    "\<And>a. a \<in> set (owned_blocks i (hd_drive fs) n) \<Longrightarrow> blk_bit fs a \<and> a \<le> max_lba"
  using assms unfolding file_blks_def by blast+

text \<open>A file that grew by the blocks \<open>bs\<close>, with \<open>ts\<close> the new indirect table if there is one.\<close>

lemma file_blks_extend:
  assumes fb: "file_blks fs i has" and al: "allocated fs fs1 (ts @ bs)" and bit: "blk_bit fs' = blk_bit fs1"
    and len: "length (i_sectors i') = 13" and will: "has + length bs \<le> 140"
    and B: "\<And>k. k < 140 \<Longrightarrow> blocks_of i' (hd_drive fs') ! k =
       (if has \<le> k \<and> k < has + length bs then bs ! (k - has) else blocks_of i (hd_drive fs) ! k)"
    and T: "i_sectors i' ! 12 = (if ts = [] then i_sectors i ! 12 else hd ts)"
    and ts: "if has \<le> 12 \<and> 12 < has + length bs then length ts = 1 else ts = []"
  shows "file_blks fs' i' (has + length bs)" and "set (owned_blocks i' (hd_drive fs') (has + length bs)) = set (owned_blocks i (hd_drive fs) has) \<union> set (ts @ bs)"
proof -
  let ?n = "has + length bs" let ?B = "blocks_of i (hd_drive fs)" let ?B' = "blocks_of i' (hd_drive fs')"
  note f = file_blksD [OF fb]
  have tk: "take ?n ?B' = take has ?B @ bs"
  proof (rule nth_equalityI)
    show "length (take ?n ?B') = length (take has ?B @ bs)" using len f(1) will by simp
    fix k assume "k < length (take ?n ?B')"
    then show "take ?n ?B' ! k = (take has ?B @ bs) ! k" using len f(1) will B [of k] by (simp add: nth_append)
  qed
  have bnz: "a \<noteq> 0 \<and> a \<le> max_lba \<and> \<not> blk_bit fs a" if "a \<in> set (ts @ bs)" for a using al that by (simp add: allocated_def)
  have db: "distinct (ts @ bs)" and bb: "blk_bit fs' a \<longleftrightarrow> blk_bit fs a \<or> a \<in> set (ts @ bs)" for a
    using al bit by (simp_all add: allocated_def)
  have own: "owned_blocks i' (hd_drive fs') ?n = take has ?B @ bs @ (if 12 < has then [i_sectors i ! 12] else ts)"
    using ts T tk by (cases ts) (auto simp: owned_blocks_def split: if_splits)
  have old: "blk_bit fs a" if "a \<in> set (owned_blocks i (hd_drive fs) has)" for a using f(6) that by blast
  show set': "set (owned_blocks i' (hd_drive fs') ?n) = set (owned_blocks i (hd_drive fs) has) \<union> set (ts @ bs)"
    using ts unfolding own by (auto simp: owned_blocks_def split: if_splits)
  have disj: "set (owned_blocks i (hd_drive fs) has) \<inter> set (ts @ bs) = {}" using old bnz by blast
  have "distinct (owned_blocks i' (hd_drive fs') ?n)"
    using f(5) db disj ts unfolding own by (auto simp: owned_blocks_def split: if_splits)
  moreover have "?B' ! k \<noteq> 0 \<longleftrightarrow> k < ?n" if "k < 140" for k
    using B [OF that] f(3) [OF that] bnz nth_mem [of "k - has" bs] by auto
  moreover have "i_sectors i' ! 12 \<noteq> 0 \<longleftrightarrow> 12 < ?n"
    using T ts f(4) bnz by (cases ts) (auto split: if_splits)
  moreover have "blk_bit fs' a \<and> a \<le> max_lba" if "a \<in> set (owned_blocks i' (hd_drive fs') ?n)" for a
    using that f(6) bnz unfolding set' bb by blast
  ultimately show "file_blks fs' i' ?n" using len will by (simp add: file_blks_def)
qed

text \<open>What collecting the blocks for a file that grows to \<open>n\<close> blocks achieves.\<close>

definition grown :: "fsys \<Rightarrow> inode \<Rightarrow> nat \<Rightarrow> u32 list \<Rightarrow> fsys \<Rightarrow> inode \<Rightarrow> nat \<Rightarrow> bool" where
  "grown fs i has all fs' i' n \<longleftrightarrow> wf_fs fs' \<and> fs_rest fs fs' \<and> file_table fs' = file_table fs \<and> file_blks fs' i' n \<and>
     i' = i\<lparr>i_sectors := i_sectors i'\<rparr> \<and> (\<forall>k. has - 1 \<le> k \<and> k < n \<longrightarrow> all ! k = blocks_of i' (hd_drive fs') ! k) \<and>
     (\<forall>k < has. blocks_of i' (hd_drive fs') ! k = blocks_of i (hd_drive fs) ! k) \<and>
     (\<forall>a. blk_bit fs a \<longrightarrow> blk_bit fs' a) \<and>
     (\<forall>a \<in> set (owned_blocks i' (hd_drive fs') n). a \<in> set (owned_blocks i (hd_drive fs) has) \<or> \<not> blk_bit fs a) \<and>
     (\<forall>a. blk_bit fs a \<and> (12 < has \<longrightarrow> a \<noteq> i_sectors i ! 12) \<longrightarrow> dsecs (hd_drive fs') a = dsecs (hd_drive fs) a)"

lemma blk_bit_high: "wf_fs fs \<Longrightarrow> blk_bit fs a \<Longrightarrow> unat (inode_table_lba (fsb fs)) + 608 \<le> unat a"
  using wf_fsD(6) [of fs] by (auto simp: blk_bit_def)

lemma fs_read_1: "wf_fs fs \<Longrightarrow> a \<le> max_lba \<Longrightarrow> fs_read a 1 fs = Inr (dsecs (hd_drive fs) a)"
  using ide_read_1 wf_fsD(9) by (simp add: fs_read_def)

lemma fs_write_1:
  assumes "wf_fs fs" and "a \<le> max_lba" and "length bs = 512"
  obtains d where "fs_write a bs 1 fs = Inr (fs\<lparr>hd_drive := d\<rparr>)" and "dsecs d = (dsecs (hd_drive fs))(a := bs)"
    and "wf_fs (fs\<lparr>hd_drive := d\<rparr>)"
proof -
  have l: "512 \<le> length bs" using assms(3) by simp
  obtain d where d: "ide_write (part_dev (cur_part fs)) a bs 1 (hd_drive fs) = Inr d" "drive_ok d" "dsecs d = (dsecs (hd_drive fs))(a := take 512 bs)"
    by (rule ide_write_1 [OF wf_fsD(9) [OF assms(1)] assms(2) l])
  have "wf_fs (fs\<lparr>hd_drive := d\<rparr>)" by (rule wf_fs_cong [OF assms(1)]) (simp_all add: d(2))
  then show ?thesis using that d assms(3) by (simp add: fs_write_def)
qed

text \<open>The direct part: the new inode's sectors after the loop.\<close>

lemma put_direct_nth:
  assumes "length (i_sectors i) = 13" and "k < 13"
  shows "i_sectors (put_direct idx bs i) ! k = (if idx \<le> k \<and> k < idx + length bs \<and> k < 12 then bs ! (k - idx) else i_sectors i ! k)"
  using assms by (auto simp: put_direct_def run_put_nth)

lemma put_direct_length [simp]: "length (i_sectors (put_direct idx bs i)) = length (i_sectors i)"
  by (simp add: put_direct_def)

text \<open>No new block is needed.\<close>

lemma collect_same:
  assumes wf: "wf_fs fs" and ti: "the_inode r fs = Inr i" and fb: "file_blks fs i has" and pos: "0 < has"
  shows "\<exists>all. collect_blocks r has has fs = Inr (Some all, fs) \<and> grown fs i has all fs i has"
proof -
  note f = file_blksD [OF fb]
  have g: "grown fs i has all fs i has" if "\<forall>k. has - 1 \<le> k \<and> k < has \<longrightarrow> all ! k = blocks_of i (hd_drive fs) ! k" for all
    using that wf fb by (simp add: grown_def)
  show ?thesis
  proof (cases "has \<le> 12")
    case True
    let ?all = "(replicate 140 (0 :: u32))[has - 1 := i_sectors i ! (has - 1)]"
    have "\<forall>k. has - 1 \<le> k \<and> k < has \<longrightarrow> ?all ! k = blocks_of i (hd_drive fs) ! k"
      using True pos f(1) by (auto simp: blocks_of_def nth_append nth_list_update)
    then show ?thesis using g True ti by (intro exI [of _ ?all]) (simp add: collect_blocks_def)
  next
    case False
    then have t: "i_sectors i ! 12 \<noteq> 0" "i_sectors i ! 12 \<in> set (owned_blocks i (hd_drive fs) has)"
      using f(4) by (simp_all add: owned_blocks_def)
    then have mx: "i_sectors i ! 12 \<le> max_lba" using f(6) by blast
    let ?all = "take 12 (replicate 140 0) @ table_words (dsecs (hd_drive fs) (i_sectors i ! 12))"
    have "\<forall>k. has - 1 \<le> k \<and> k < has \<longrightarrow> ?all ! k = blocks_of i (hd_drive fs) ! k"
      using False t(1) f(1) by (auto simp: blocks_of_def nth_append)
    then show ?thesis using g False ti t(1) fs_read_1 [OF wf mx]
      by (intro exI [of _ ?all]) (simp add: collect_blocks_def load_table_def)
  qed
qed

text \<open>What has to be shown of a run that allocated blocks.\<close>

lemma grown_alloc:
  assumes wf: "wf_fs fs" "wf_fs fs'" and fb: "file_blks fs i has" and al: "allocated fs fs1 (ts @ bs)" and bit: "blk_bit fs' = blk_bit fs1"
    and rest: "fs_rest fs fs'" "file_table fs' = file_table fs"
    and i': "i' = put_direct has bs (if ts = [] then i else i\<lparr>i_sectors := (i_sectors i)[12 := hd ts]\<rparr>)"
    and will: "has + length bs = will" "will \<le> 140" and ts: "if has \<le> 12 \<and> 12 < will then length ts = 1 else ts = []"
    and B: "\<And>k. 12 \<le> k \<Longrightarrow> k < 140 \<Longrightarrow> blocks_of i' (hd_drive fs') ! k =
       (if has \<le> k \<and> k < has + length bs then bs ! (k - has) else blocks_of i (hd_drive fs) ! k)"
    and all: "\<And>k. has - 1 \<le> k \<Longrightarrow> k < will \<Longrightarrow> all ! k = blocks_of i' (hd_drive fs') ! k"
    and dr: "\<And>a. unat (inode_table_lba (fsb fs)) \<le> unat a \<Longrightarrow> a \<noteq> i_sectors i' ! 12 \<or> will \<le> 12 \<Longrightarrow> dsecs (hd_drive fs') a = dsecs (hd_drive fs) a"
  shows "grown fs i has all fs' i' will"
proof -
  note f = file_blksD [OF fb]
  define j where "j = (if ts = [] then i else i\<lparr>i_sectors := (i_sectors i)[12 := hd ts]\<rparr>)"
  have lj: "length (i_sectors j) = 13" using f(1) by (simp add: j_def)
  have jk: "i_sectors j ! k = i_sectors i ! k" if "k < 12" for k using that by (simp add: j_def)
  have ij: "i' = put_direct has bs j" using i' by (simp add: j_def)
  have len: "length (i_sectors i') = 13" using lj by (simp add: ij)
  have T: "i_sectors i' ! 12 = (if ts = [] then i_sectors i ! 12 else hd ts)"
    using put_direct_nth [OF lj, of 12 has bs] f(1) by (simp add: ij j_def)
  have B': "blocks_of i' (hd_drive fs') ! k =
       (if has \<le> k \<and> k < has + length bs then bs ! (k - has) else blocks_of i (hd_drive fs) ! k)" if k: "k < 140" for k
  proof (cases "k < 12")
    case True
    then show ?thesis using put_direct_nth [OF lj, of k has bs] jk [OF True] len f(1) by (simp add: ij blocks_of_def nth_append)
  next
    case False
    then show ?thesis using B k by simp
  qed
  note ex = file_blks_extend [OF fb al bit len will(2) [folded will(1)] B' T ts [folded will(1)], unfolded will(1)]
  have new: "a \<notin> set (ts @ bs)" if "blk_bit fs a" for a using that al unfolding allocated_def by blast
  have fr: "a \<noteq> i_sectors i' ! 12 \<or> will \<le> 12" if "blk_bit fs a" "12 < has \<longrightarrow> a \<noteq> i_sectors i ! 12" for a
  proof (cases ts)
    case Nil
    then have "12 < has \<or> will \<le> 12" using ts by (auto split: if_splits)
    then show ?thesis using Nil T that(2) by auto
  next
    case (Cons t u)
    then show ?thesis using T new [OF that(1)] by auto
  qed
  show ?thesis
    unfolding grown_def
  proof (intro conjI)
    show "i' = i\<lparr>i_sectors := i_sectors i'\<rparr>" by (simp add: i' put_direct_def)
    show "\<forall>k. has - 1 \<le> k \<and> k < will \<longrightarrow> all ! k = blocks_of i' (hd_drive fs') ! k" using all by blast
    show "\<forall>k < has. blocks_of i' (hd_drive fs') ! k = blocks_of i (hd_drive fs) ! k" using B' f(2) by simp
    show "\<forall>a. blk_bit fs a \<longrightarrow> blk_bit fs' a" using al unfolding bit allocated_def by blast
    show "\<forall>a \<in> set (owned_blocks i' (hd_drive fs') will). a \<in> set (owned_blocks i (hd_drive fs) has) \<or> \<not> blk_bit fs a"
      using ex(2) new by blast
    show "\<forall>a. blk_bit fs a \<and> (12 < has \<longrightarrow> a \<noteq> i_sectors i ! 12) \<longrightarrow> dsecs (hd_drive fs') a = dsecs (hd_drive fs) a"
    proof (intro allI impI, elim conjE)
      fix a assume "blk_bit fs a" "12 < has \<longrightarrow> a \<noteq> i_sectors i ! 12"
      then show "dsecs (hd_drive fs') a = dsecs (hd_drive fs) a"
        using blk_bit_high [OF wf(1)] fr by (intro dr) (auto dest: add_leD1)
    qed
    show "file_blks fs' i' will" by (rule ex(1))
  qed (fact wf(2) rest)+
qed

text \<open>New direct blocks only.\<close>

lemma collect_direct:
  assumes wf: "wf_fs fs" and ti: "the_inode r fs = Inr i" and fb: "file_blks fs i has" and pos: "0 < has" "has < will" "will \<le> 12"
    and free: "will - has \<le> card (bm.free_bits (block_bitmap (cur_part fs)))"
  shows "\<exists>all fs' i'. collect_blocks r has will fs = Inr (Some all, fs') \<and> the_inode r fs' = Inr i' \<and> grown fs i has all fs' i' will"
proof -
  note f = file_blksD [OF fb]
  let ?all = "(replicate 140 (0 :: u32))[has - 1 := i_sectors i ! (has - 1)]"
  have B0: "blocks_of i (hd_drive fs) ! k = i_sectors i ! k" if "k < 12" for k using that f(1) by (simp add: blocks_of_def nth_append)
  have z: "i_sectors i ! k = 0" if "has \<le> k" "k < 12" for k using f(3) [of k] B0 [of k] that by simp
  have nz: "i_sectors i ! (has - 1) \<noteq> 0" using f(3) [of "has - 1"] B0 [of "has - 1"] pos by simp
  have t0: "i_sectors i ! 12 = 0" using f(4) pos by simp
  obtain bs fs' where r: "alloc_blocks r has will ?all fs = Inr (Some (run_put has bs ?all), fs')" "length bs = will - has"
     "allocated fs fs' bs" "the_inode r fs' = Inr (put_direct has bs i)"
    using alloc_blocks_ok [OF wf ti f(1), of ?all has will] z pos free by auto
  let ?i = "put_direct has bs i"
  have hw: "has + length bs = will" using r(2) pos by simp
  have i12: "i_sectors ?i ! 12 = 0" using put_direct_nth [OF f(1), of 12] t0 by simp
  have lB: "length (i_sectors ?i) = 13" using f(1) by simp
  have Bk: "blocks_of ?i (hd_drive fs') ! k = i_sectors ?i ! k" if "k < 12" for k using that lB by (simp add: blocks_of_def nth_append)
  have "grown fs i has (run_put has bs ?all) fs' ?i will"
  proof (rule grown_alloc [where ts = "[]" and bs = bs and ?fs1.0 = fs'])
    show "wf_fs fs'" "fs_rest fs fs'" "file_table fs' = file_table fs" "allocated fs fs' ([] @ bs)" using r(3) by (simp_all add: allocated_def)
    show "if has \<le> 12 \<and> 12 < will then length [] = 1 else [] = []" using pos by simp
    show "blocks_of ?i (hd_drive fs') ! k = (if has \<le> k \<and> k < has + length bs then bs ! (k - has) else blocks_of i (hd_drive fs) ! k)"
      if "12 \<le> k" "k < 140" for k
      using that hw pos i12 t0 lB f(1) by (simp add: blocks_of_def nth_append)
    show "run_put has bs ?all ! k = blocks_of ?i (hd_drive fs') ! k" if "has - 1 \<le> k" "k < will" for k
    proof -
      have k: "k < 12" "k < 13" "k < 140" using that pos by simp_all
      show ?thesis unfolding Bk [OF k(1)] put_direct_nth [OF f(1) k(2)]
        using that hw pos k by (auto simp: run_put_nth nth_list_update)
    qed
    show "dsecs (hd_drive fs') a = dsecs (hd_drive fs) a" if "unat (inode_table_lba (fsb fs)) \<le> unat a" for a
      using r(3) that unfolding allocated_def by blast
  qed (use wf fb hw pos in simp_all)
  moreover have "collect_blocks r has will fs = Inr (Some (run_put has bs ?all), fs')"
    using ti pos nz r(1) by (simp add: collect_blocks_def)
  ultimately show ?thesis using r(4) by blast
qed

text \<open>The indirect table is written last.\<close>

lemma table_write:
  assumes wf: "wf_fs fs" and tab: "tab \<le> max_lba" "tab \<noteq> 0" and len: "length all = 140"
  obtains d where "fs_write tab (table_enc all) 1 fs = Inr (fs\<lparr>hd_drive := d\<rparr>)" and "wf_fs (fs\<lparr>hd_drive := d\<rparr>)"
    and "\<And>a. a \<noteq> tab \<Longrightarrow> dsecs d a = dsecs (hd_drive fs) a"
    and "\<And>i k. length (i_sectors i) = 13 \<Longrightarrow> i_sectors i ! 12 = tab \<Longrightarrow> 12 \<le> k \<Longrightarrow> k < 140 \<Longrightarrow> blocks_of i d ! k = all ! k"
proof -
  let ?ws = "take 128 (drop 12 all)"
  have l: "length ?ws = 128" using len by simp
  have "length (concat (map le32 ws)) = 4 * length ws" for ws by (induction ws) (simp_all add: le32_def)
  then have "length (table_enc all) = 512" using l by (simp add: table_enc_def)
  then obtain d where d: "fs_write tab (table_enc all) 1 fs = Inr (fs\<lparr>hd_drive := d\<rparr>)" "dsecs d = (dsecs (hd_drive fs))(tab := table_enc all)"
    "wf_fs (fs\<lparr>hd_drive := d\<rparr>)" using fs_write_1 [OF wf tab(1)] by metis
  have "blocks_of i d ! k = all ! k" if "length (i_sectors i) = 13" "i_sectors i ! 12 = tab" "12 \<le> k" "k < 140" for i k
    using that tab(2) table_words_enc [OF l] len by (simp add: blocks_of_def nth_append d(2) table_enc_def)
  then show ?thesis using that d by simp
qed

lemma collect_table:
  assumes wf: "wf_fs fs" and fb: "file_blks fs i has" and al: "allocated fs fs1 (ts @ bs)" and ti: "the_inode r fs1 = Inr i'"
    and i': "i' = put_direct has bs (if ts = [] then i else i\<lparr>i_sectors := (i_sectors i)[12 := hd ts]\<rparr>)"
    and will: "has + length bs = will" "will \<le> 140" "12 < will" "0 < has" and ts: "if has \<le> 12 then length ts = 1 else ts = []"
    and tab: "tab = (if ts = [] then i_sectors i ! 12 else hd ts)" "length all = 140" and all: "all ! (has - 1) = blocks_of i (hd_drive fs) ! (has - 1)"
    "\<And>k. 12 \<le> k \<Longrightarrow> k < 140 \<Longrightarrow> all ! k = blocks_of i (hd_drive fs) ! k"
  shows "\<exists>fs'. fs_write tab (table_enc (run_put has bs all)) 1 fs1 = Inr fs' \<and> the_inode r fs' = Inr i' \<and> grown fs i has (run_put has bs all) fs' i' will"
proof -
  note f = file_blksD [OF fb]
  have wf1: "wf_fs fs1" using al by (simp add: allocated_def)
  have len: "length (i_sectors i') = 13" using f(1) by (simp add: i')
  have jl: "length (i_sectors (if ts = [] then i else i\<lparr>i_sectors := (i_sectors i)[12 := hd ts]\<rparr>)) = 13" using f(1) by simp
  have T: "i_sectors i' ! 12 = tab" using put_direct_nth [OF jl, of 12 has bs] f(1) by (simp add: i' tab)
  have tb: "tab \<le> max_lba" "tab \<noteq> 0"
  proof -
    have "tab \<le> max_lba \<and> tab \<noteq> 0"
    proof (cases ts)
      case Nil
      then have "12 < has" using ts by (auto split: if_splits)
      then show ?thesis using Nil f(4) f(6) [of tab] by (simp add: tab owned_blocks_def)
    next
      case (Cons t u)
      then show ?thesis using al by (simp add: tab allocated_def)
    qed
    then show "tab \<le> max_lba" "tab \<noteq> 0" by simp_all
  qed
  have la: "length (run_put has bs all) = 140" using tab(2) by simp
  obtain d where d: "fs_write tab (table_enc (run_put has bs all)) 1 fs1 = Inr (fs1\<lparr>hd_drive := d\<rparr>)" "wf_fs (fs1\<lparr>hd_drive := d\<rparr>)"
    "\<And>a. a \<noteq> tab \<Longrightarrow> dsecs d a = dsecs (hd_drive fs1) a"
    "\<And>i k. length (i_sectors i) = 13 \<Longrightarrow> i_sectors i ! 12 = tab \<Longrightarrow> 12 \<le> k \<Longrightarrow> k < 140 \<Longrightarrow> blocks_of i d ! k = run_put has bs all ! k"
    by (rule table_write [OF wf1 tb la]) blast
  let ?F = "fs1\<lparr>hd_drive := d\<rparr>"
  have Bk: "blocks_of i' d ! k = run_put has bs all ! k" if "12 \<le> k" "k < 140" for k using d(4) len T that by blast
  have "grown fs i has (run_put has bs all) ?F i' will"
  proof (rule grown_alloc [OF wf d(2) fb al])
    show "blk_bit ?F = blk_bit fs1" by (simp add: blk_bit_def fun_eq_iff)
    show "fs_rest fs ?F" using al fs_rest_trans [of fs fs1 ?F] by (simp add: allocated_def)
    show "file_table ?F = file_table fs" using al by (simp add: allocated_def)
    show "if has \<le> 12 \<and> 12 < will then length ts = 1 else ts = []" using ts will(3) by simp
    show "blocks_of i' (hd_drive ?F) ! k = (if has \<le> k \<and> k < has + length bs then bs ! (k - has) else blocks_of i (hd_drive fs) ! k)"
      if "12 \<le> k" "k < 140" for k using Bk [OF that] all(2) [OF that] that tab(2) by (simp add: run_put_nth)
    show "run_put has bs all ! k = blocks_of i' (hd_drive ?F) ! k" if k: "has - 1 \<le> k" "k < will" for k
    proof (cases "k < 12")
      case True
      then have "blocks_of i' d ! k = i_sectors i' ! k" using len by (simp add: blocks_of_def nth_append)
      moreover have "k = has - 1 \<or> has \<le> k" using k(1) by linarith
      then have "i_sectors i' ! k = run_put has bs all ! k"
        using put_direct_nth [OF jl, of k has bs] True k all(1) tab(2) will f(1) by (auto simp: i' run_put_nth blocks_of_def nth_append)
      ultimately show ?thesis by simp
    next
      case False
      then show ?thesis using Bk will(2) k by simp
    qed
    show "dsecs (hd_drive ?F) a = dsecs (hd_drive fs) a" if "unat (inode_table_lba (fsb fs)) \<le> unat a" "a \<noteq> i_sectors i' ! 12 \<or> will \<le> 12" for a
    proof -
      have "dsecs (hd_drive fs1) a = dsecs (hd_drive fs) a" using al that(1) unfolding allocated_def by blast
      then show ?thesis using d(3) [of a] that(2) T will(3) by simp
    qed
  qed (fact i' will(1,2))+
  moreover have "the_inode r ?F = Inr i'" using ti by (simp add: the_inode_def)
  ultimately show ?thesis using d(1) by blast
qed

text \<open>The file outgrows its direct blocks.\<close>

lemma collect_new_table:
  assumes wf: "wf_fs fs" and ti: "the_inode r fs = Inr i" and fb: "file_blks fs i has" and pos: "0 < has" "has \<le> 12" "12 < will" "will \<le> 140"
    and free: "Suc (will - has) \<le> card (bm.free_bits (block_bitmap (cur_part fs)))"
  shows "\<exists>all fs' i'. collect_blocks r has will fs = Inr (Some all, fs') \<and> the_inode r fs' = Inr i' \<and> grown fs i has all fs' i' will"
proof -
  note f = file_blksD [OF fb]
  let ?all = "(replicate 140 (0 :: u32))[has - 1 := i_sectors i ! (has - 1)]"
  have t0: "i_sectors i ! 12 = 0" using f(4) pos by simp
  have B0: "blocks_of i (hd_drive fs) ! k = i_sectors i ! k" if "k < 12" for k using that f(1) by (simp add: blocks_of_def nth_append)
  have z: "i_sectors i ! k = 0" if "has \<le> k" "k < 12" for k using f(3) [of k] B0 [of k] that by simp
  have "bm.free_bits (block_bitmap (cur_part fs)) \<noteq> {}" using free by auto
  then obtain tab fs1 where a: "block_bitmap_alloc fs = Inr (Some tab, fs1)" "allocated fs fs1 [tab]" "the_inode r fs1 = the_inode r fs"
    using allocate_one [OF wf] by metis
  let ?j = "i\<lparr>i_sectors := (i_sectors i)[12 := tab]\<rparr>"
  define fs2 where "fs2 = set_sector r 12 tab fs1"
  have al2: "allocated fs fs2 [tab]" using a(2) allocated_upd_inode by (simp add: fs2_def set_sector_def)
  have wf2: "wf_fs fs2" and card2: "card (bm.free_bits (block_bitmap (cur_part fs2))) + length [tab] = card (bm.free_bits (block_bitmap (cur_part fs)))"
    using al2 unfolding allocated_def by blast+
  have ti2: "the_inode r fs2 = Inr ?j" using ti a(3) by (auto simp: fs2_def set_sector_def intro!: the_inode_upd)
  have "\<exists>bs fs'. alloc_blocks r has will ?all fs2 = Inr (Some (run_put has bs ?all), fs') \<and> length bs = will - has \<and>
     allocated fs2 fs' bs \<and> the_inode r fs' = Inr (put_direct has bs ?j)"
    using z card2 free pos f(1) by (intro alloc_blocks_ok [OF wf2 ti2]) simp_all
  then obtain bs fs3 where r: "alloc_blocks r has will ?all fs2 = Inr (Some (run_put has bs ?all), fs3)" "length bs = will - has"
     "allocated fs2 fs3 bs" "the_inode r fs3 = Inr (put_direct has bs ?j)" by blast
  have "\<exists>fs'. fs_write tab (table_enc (run_put has bs ?all)) 1 fs3 = Inr fs' \<and> the_inode r fs' = Inr (put_direct has bs ?j) \<and>
      grown fs i has (run_put has bs ?all) fs' (put_direct has bs ?j) will"
  proof (rule collect_table [OF wf fb _ r(4), where ts = "[tab]"])
    show "allocated fs fs3 ([tab] @ bs)" by (rule allocated_trans [OF al2 r(3)])
    show "?all ! (has - 1) = blocks_of i (hd_drive fs) ! (has - 1)" using B0 pos by simp
    show "?all ! k = blocks_of i (hd_drive fs) ! k" if "12 \<le> k" "k < 140" for k
      using that pos t0 f(1) by (simp add: blocks_of_def nth_append)
  qed (use pos r(2) in simp_all)
  then obtain fs' where w: "fs_write tab (table_enc (run_put has bs ?all)) 1 fs3 = Inr fs'" "the_inode r fs' = Inr (put_direct has bs ?j)"
      "grown fs i has (run_put has bs ?all) fs' (put_direct has bs ?j) will" by blast
  have "collect_blocks r has will fs = Inr (Some (run_put has bs ?all), fs')"
    using ti pos t0 a(1) r(1) w(1) by (simp add: collect_blocks_def fs2_def)
  then show ?thesis using w by blast
qed

text \<open>The file already has its indirect table.\<close>

lemma collect_old_table:
  assumes wf: "wf_fs fs" and ti: "the_inode r fs = Inr i" and fb: "file_blks fs i has" and pos: "12 < has" "has < will" "will \<le> 140"
    and free: "will - has \<le> card (bm.free_bits (block_bitmap (cur_part fs)))"
  shows "\<exists>all fs' i'. collect_blocks r has will fs = Inr (Some all, fs') \<and> the_inode r fs' = Inr i' \<and> grown fs i has all fs' i' will"
proof -
  note f = file_blksD [OF fb]
  let ?tab = "i_sectors i ! 12"
  let ?all = "take 12 (replicate 140 0) @ table_words (dsecs (hd_drive fs) ?tab)"
  have t: "?tab \<noteq> 0" "?tab \<in> set (owned_blocks i (hd_drive fs) has)" using f(4) pos by (simp_all add: owned_blocks_def)
  then have mx: "?tab \<le> max_lba" using f(6) by blast
  have B0: "?all ! k = blocks_of i (hd_drive fs) ! k" if "12 \<le> k" for k
    using that t(1) f(1) by (simp add: blocks_of_def nth_append)
  have "\<exists>bs fs'. alloc_blocks r has will ?all fs = Inr (Some (run_put has bs ?all), fs') \<and> length bs = will - has \<and>
     allocated fs fs' bs \<and> the_inode r fs' = Inr (put_direct has bs i)"
    using free pos f(1) by (intro alloc_blocks_ok [OF wf ti]) auto
  then obtain bs fs1 where r: "alloc_blocks r has will ?all fs = Inr (Some (run_put has bs ?all), fs1)" "length bs = will - has"
     "allocated fs fs1 bs" "the_inode r fs1 = Inr (put_direct has bs i)" by blast
  have "\<exists>fs'. fs_write ?tab (table_enc (run_put has bs ?all)) 1 fs1 = Inr fs' \<and> the_inode r fs' = Inr (put_direct has bs i) \<and>
      grown fs i has (run_put has bs ?all) fs' (put_direct has bs i) will"
    by (rule collect_table [OF wf fb _ r(4), where ts = "[]"]) (use pos r(2,3) B0 in simp_all)
  then obtain fs' where w: "fs_write ?tab (table_enc (run_put has bs ?all)) 1 fs1 = Inr fs'" "the_inode r fs' = Inr (put_direct has bs i)"
      "grown fs i has (run_put has bs ?all) fs' (put_direct has bs i) will" by blast
  have "collect_blocks r has will fs = Inr (Some (run_put has bs ?all), fs')"
    using ti pos t(1) fs_read_1 [OF wf mx] r(1) w(1) by (simp add: collect_blocks_def load_table_def)
  then show ?thesis using w by blast
qed

lemma collect_blocks_ok:
  assumes wf: "wf_fs fs" and ti: "the_inode r fs = Inr i" and fb: "file_blks fs i has" and pos: "0 < has" "has \<le> will" "will \<le> 140"
    and free: "will - has < card (bm.free_bits (block_bitmap (cur_part fs)))"
  shows "\<exists>all fs' i'. collect_blocks r has will fs = Inr (Some all, fs') \<and> the_inode r fs' = Inr i' \<and> grown fs i has all fs' i' will"
proof -
  consider "will = has" | "has < will" "will \<le> 12" | "has \<le> 12" "12 < will" | "12 < has" "has < will" using pos by linarith
  then show ?thesis
    using collect_same [OF wf ti fb pos(1)] collect_direct [OF wf ti fb pos(1)] collect_new_table [OF wf ti fb pos(1)]
      collect_old_table [OF wf ti fb] ti free pos(3) by cases auto
qed

end
