(* ===== verification/File_Rw.thy ===== *)
theory File_Rw
  imports File_Data
begin

text \<open>
  \<^verbatim>\<open>file_write\<close> appends to the contents of a file and \<^verbatim>\<open>file_read\<close> reads from them: the loops over the
  sectors, composed with the collection of the blocks, the bitmap and the write-back of the inode.
\<close>

section \<open>The write loop\<close>

definition sec_stream :: "drive \<Rightarrow> u32 list \<Rightarrow> nat \<Rightarrow> u8 list" where
  "sec_stream d B = stream (\<lambda>k. dsecs d (B ! k))"

text \<open>Overwriting one sector from an offset on.\<close>

lemma stream_overwrite:
  assumes d: "drive_ok d" and B: "distinct (take n B)" "n \<le> length B" and q: "q < n" and off: "off + length ys \<le> 512"
    and buf: "length buf = 512" "take off buf = take off (dsecs d (B ! q))"
    and d': "dsecs d' = (dsecs d)(B ! q := take off buf @ ys @ drop (off + length ys) buf)"
  shows "take (512 * q + off + length ys) (sec_stream d' B n) = take (512 * q + off) (sec_stream d B n) @ ys"
proof -
  have ne: "B ! k \<noteq> B ! q" if "k < q" for k
    using nth_eq_iff_index_eq [OF B(1), of k q] that q B(2) by simp
  have l: "length (dsecs d a) = 512" "length (dsecs d' a) = 512" for a
    using d buf(1) off by (auto simp: drive_ok_def d')
  have "take (512 * q + (off + length ys)) (sec_stream d' B n) = stream (\<lambda>k. dsecs d' (B ! k)) q @ take (off + length ys) (dsecs d' (B ! q))"
    unfolding sec_stream_def by (rule take_stream) (use l q off in auto)
  also have "stream (\<lambda>k. dsecs d' (B ! k)) q = stream (\<lambda>k. dsecs d (B ! k)) q" by (rule stream_cong) (simp add: d' ne)
  also have "take (off + length ys) (dsecs d' (B ! q)) = take off (dsecs d (B ! q)) @ ys"
    using buf off l(1) [of "B ! q"] by (simp add: d')
  also have "stream (\<lambda>k. dsecs d (B ! k)) q @ take off (dsecs d (B ! q)) @ ys = take (512 * q + off) (sec_stream d B n) @ ys"
    using take_stream [of n "\<lambda>k. dsecs d (B ! k)" q off] l q off by (simp add: sec_stream_def)
  finally show ?thesis by (simp add: add.assoc)
qed

lemma patch_in: "off + length xs \<le> length buf \<Longrightarrow> patch off xs buf = Inr (take off buf @ xs @ drop (off + length xs) buf)"
  by (simp add: patch_def)

text \<open>The state after appending \<open>src\<close> to the sectors \<open>B\<close> of the file behind descriptor \<open>idx\<close>.\<close>

definition appended :: "nat \<Rightarrow> u32 \<Rightarrow> inode \<Rightarrow> u32 list \<Rightarrow> nat \<Rightarrow> u8 list \<Rightarrow> fsys \<Rightarrow> fsys \<Rightarrow> bool" where
  "appended idx r i B n src fs fs' \<longleftrightarrow> wf_fs fs' \<and> fs_rest fs fs' \<and> block_bitmap (cur_part fs') = block_bitmap (cur_part fs) \<and>
     the_inode r fs' = Inr (i\<lparr>i_size := i_size i + of_nat (length src)\<rparr>) \<and>
     file_table fs' = (file_table fs)[idx := (file_table fs ! idx)\<lparr>fd_pos := fd_pos (file_table fs ! idx) + of_nat (length src)\<rparr>] \<and>
     (\<forall>a. a \<notin> set (take n B) \<longrightarrow> dsecs (hd_drive fs') a = dsecs (hd_drive fs) a) \<and>
     take (unat (i_size i) + length src) (sec_stream (hd_drive fs') B n) = take (unat (i_size i)) (sec_stream (hd_drive fs) B n) @ src"

lemma appended_Nil: "wf_fs fs \<Longrightarrow> the_inode r fs = Inr i \<Longrightarrow> appended idx r i B n [] fs fs"
  by (simp add: appended_def)

lemma appended_trans:
  assumes a: "appended idx r i B n xs fs fs1" and b: "appended idx r (i\<lparr>i_size := i_size i + of_nat (length xs)\<rparr>) B n ys fs1 fs2"
    and u: "unat (i_size i + of_nat (length xs)) = unat (i_size i) + length xs"
  shows "appended idx r i B n (xs @ ys) fs fs2"
proof -
  have ft: "file_table fs1 = (file_table fs)[idx := (file_table fs ! idx)\<lparr>fd_pos := fd_pos (file_table fs ! idx) + of_nat (length xs)\<rparr>]"
    "file_table fs2 = (file_table fs1)[idx := (file_table fs1 ! idx)\<lparr>fd_pos := fd_pos (file_table fs1 ! idx) + of_nat (length ys)\<rparr>]"
    using a b by (simp_all add: appended_def)
  have "file_table fs2 = (file_table fs)[idx := (file_table fs ! idx)\<lparr>fd_pos := fd_pos (file_table fs ! idx) + of_nat (length (xs @ ys))\<rparr>]"
    unfolding ft by (cases "idx < length (file_table fs)") (simp_all add: list_update_beyond add.assoc)
  moreover have "fs_rest fs fs2" using a b fs_rest_trans by (auto simp: appended_def)
  ultimately show ?thesis using a b unfolding appended_def by (simp add: u add.assoc)
qed

lemma write_step:
  assumes wf: "wf_fs fs" and ti: "the_inode r fs = Inr i" and sz: "unat (i_size i) = 512 * q + off" and q: "q < n"
    and B: "distinct (take n B)" "n \<le> length B" "B ! q \<le> max_lba" and off: "off + length ys \<le> 512"
    and buf: "length buf = 512" "take off buf = take off (dsecs (hd_drive fs) (B ! q))"
  obtains fs' where "fs_write (B ! q) (take off buf @ ys @ drop (off + length ys) buf) 1 fs = Inr fs'"
    and "appended idx r i B n ys fs (upd_file idx (\<lambda>f. f\<lparr>fd_pos := fd_pos f + of_nat (length ys)\<rparr>)
            (upd_inode r (\<lambda>i. i\<lparr>i_size := i_size i + of_nat (length ys)\<rparr>) fs'))"
proof -
  let ?b = "take off buf @ ys @ drop (off + length ys) buf"
  have "length ?b = 512" using buf(1) off by simp
  then obtain d where d: "fs_write (B ! q) ?b 1 fs = Inr (fs\<lparr>hd_drive := d\<rparr>)" "dsecs d = (dsecs (hd_drive fs))(B ! q := ?b)"
    "wf_fs (fs\<lparr>hd_drive := d\<rparr>)" using fs_write_1 [OF wf B(3)] by metis
  let ?u = "upd_inode r (\<lambda>i. i\<lparr>i_size := i_size i + of_nat (length ys)\<rparr>) (fs\<lparr>hd_drive := d\<rparr>)"
  let ?f = "\<lambda>f. f\<lparr>fd_pos := fd_pos f + of_nat (length ys)\<rparr>"
  have "the_inode r (fs\<lparr>hd_drive := d\<rparr>) = Inr i" using ti by (simp add: the_inode_def)
  then have "the_inode r ?u = Inr (i\<lparr>i_size := i_size i + of_nat (length ys)\<rparr>)" by (rule the_inode_upd) simp
  then have "the_inode r (upd_file idx ?f ?u) = Inr (i\<lparr>i_size := i_size i + of_nat (length ys)\<rparr>)" by (simp add: the_inode_def)
  moreover have fr: "fs_rest fs (upd_file idx ?f ?u)"
    by (rule fs_rest_trans [OF fs_rest_trans [OF fs_rest_upd(2) fs_rest_upd(1)] fs_rest_upd(3)])
  moreover have "wf_fs (upd_file idx ?f ?u)" using wf_fsD(9) [OF d(3)] by (intro wf_fs_cong [OF wf fr]) simp_all
  moreover have "B ! q \<in> set (take n B)" using q B(2) by (auto simp: in_set_conv_nth intro!: exI [of _ q])
  ultimately have "appended idx r i B n ys fs (upd_file idx ?f ?u)"
    using stream_overwrite [OF wf_fsD(9) [OF wf] B(1,2) q off buf d(2)] by (auto simp: appended_def d(2) sz)
  then show ?thesis using that d(1) by blast
qed

lemma write_data_ok:
  assumes "wf_fs fs" and "the_inode r fs = Inr i" and "unat (i_size i) + length src < 512 * n" and "n \<le> 140"
    and "distinct (take n B)" and "n \<le> length B" and "\<forall>k < n. B ! k \<le> max_lba"
    and "\<forall>k. unat (i_size i) div 512 \<le> k \<and> k < n \<longrightarrow> all ! k = B ! k" and "first \<or> unat (i_size i) mod 512 = 0 \<or> src = []"
  shows "\<exists>fs'. write_data idx r all src first fs = Inr fs' \<and> appended idx r i B n src fs fs'"
  using assms
proof (induction "length src" arbitrary: src first fs i rule: less_induct)
  case (less src first fs i)
  show ?case
  proof (cases "src = []")
    case True
    then show ?thesis using appended_Nil [OF less.prems(1,2)] by (simp add: write_data.simps)
  next
    case False
    define q off where "q = unat (i_size i) div 512" and "off = unat (i_size i) mod 512"
    define c where "c = min (length src) (512 - off)"
    have sz: "unat (i_size i) = 512 * q + off" and o5: "off < 512" by (simp_all add: q_def off_def)
    have qn: "q < n" using less.prems(3) sz by linarith
    have c: "0 < c" "off + c \<le> 512" "c \<le> length src" "length (take c src) = c" using False o5 by (simp_all add: c_def)
    have w: "unat (i_size i div 512) = q" "unat (i_size i mod 512) = off" by (simp_all add: q_def off_def unat_div unat_mod)
    have al: "all ! q = B ! q" "B ! q \<le> max_lba" using less.prems(7,8) qn by (auto simp: q_def)
    define buf where "buf = (if first then dsecs (hd_drive fs) (B ! q) else replicate 512 0)"
    have buf: "length buf = 512" "take off buf = take off (dsecs (hd_drive fs) (B ! q))"
      using wf_fsD(9) [OF less.prems(1)] less.prems(9) False by (auto simp: buf_def drive_ok_def off_def)
    have off: "off + length (take c src) \<le> 512" using c by simp
    obtain fs1 where f1: "fs_write (B ! q) (take off buf @ take c src @ drop (off + length (take c src)) buf) 1 fs = Inr fs1"
      "appended idx r i B n (take c src) fs (upd_file idx (\<lambda>f. f\<lparr>fd_pos := fd_pos f + of_nat (length (take c src))\<rparr>)
            (upd_inode r (\<lambda>i. i\<lparr>i_size := i_size i + of_nat (length (take c src))\<rparr>) fs1))"
      by (rule write_step [OF less.prems(1,2) sz qn less.prems(5,6) al(2) off buf, where idx = idx]) blast
    define fs2 where "fs2 = upd_file idx (\<lambda>f. f\<lparr>fd_pos := fd_pos f + of_nat c\<rparr>) (upd_inode r (\<lambda>i. i\<lparr>i_size := i_size i + of_nat c\<rparr>) fs1)"
    have ap: "appended idx r i B n (take c src) fs fs2" using f1(2) by (simp only: fs2_def c(4))
    let ?i = "i\<lparr>i_size := i_size i + of_nat (length (take c src))\<rparr>"
    have u: "unat (i_size i + of_nat (length (take c src))) = unat (i_size i) + length (take c src)"
      using less.prems(3,4) c by (simp add: unat_word_ariths unat_of_nat)
    have "bindR (if first then fs_read (B ! q) 1 fs else Inr (replicate 512 0)) f = f buf" for f :: "u8 list \<Rightarrow> fsys result"
      using fs_read_1 [OF less.prems(1) al(2)] by (simp add: buf_def)
    moreover have "write_data idx r all src first fs =
        bindR (if first then fs_read (B ! q) 1 fs else Inr (replicate 512 0)) (\<lambda>io_buf.
        bindR (patch off (take c src) io_buf) (\<lambda>io_buf. bindR (fs_write (B ! q) io_buf 1 fs) (\<lambda>fs.
        write_data idx r all (drop c src) False (upd_file idx (\<lambda>f. f\<lparr>fd_pos := fd_pos f + of_nat c\<rparr>)
            (upd_inode r (\<lambda>i. i\<lparr>i_size := i_size i + of_nat c\<rparr>) fs)))))"
      using False less.prems(2) by (simp add: write_data.simps [of idx r all src] Let_def w al(1) c_def [symmetric])
    ultimately have "write_data idx r all src first fs = write_data idx r all (drop c src) False fs2"
      using f1(1) buf(1) off c(4) by (simp add: patch_in fs2_def)
    moreover have "\<exists>fs'. write_data idx r all (drop c src) False fs2 = Inr fs' \<and> appended idx r ?i B n (drop c src) fs2 fs'"
    proof (rule less.hyps)
      show "length (drop c src) < length src" using c by simp
      show "wf_fs fs2" "the_inode r fs2 = Inr ?i" using ap by (simp_all add: appended_def)
      show "unat (i_size ?i) + length (drop c src) < 512 * n" using u c less.prems(3) by simp
      show "\<forall>k. unat (i_size ?i) div 512 \<le> k \<and> k < n \<longrightarrow> all ! k = B ! k"
        using less.prems(8) u by (auto dest: order_trans [OF div_le_mono [of "unat (i_size i)"], rotated])
      show "False \<or> unat (i_size ?i) mod 512 = 0 \<or> drop c src = []"
      proof (cases "length src \<le> 512 - off")
        case True
        then show ?thesis by (simp add: c_def)
      next
        case False
        then have "unat (i_size ?i) = 512 * (q + 1)" using u sz o5 by (simp add: c_def)
        then show ?thesis by simp
      qed
    qed (fact less.prems)+
    ultimately show ?thesis using appended_trans [OF ap _ u] by (metis append_take_drop_id)
  qed
qed

section \<open>The contents of a file\<close>

definition file_bytes :: "fsys \<Rightarrow> inode \<Rightarrow> u8 list" where
  "file_bytes fs i = take (unat (i_size i)) (sec_stream (hd_drive fs) (blocks_of i (hd_drive fs)) (unat (i_size i) div 512 + 1))"

text \<open>A file has no block before its first write, and afterwards one more than it has full sectors.\<close>

definition nblk :: "inode \<Rightarrow> nat" where
  "nblk i = (if i_sectors i ! 0 = 0 then 0 else unat (i_size i) div 512 + 1)"

definition file_ok :: "fsys \<Rightarrow> inode \<Rightarrow> bool" where
  "file_ok fs i \<longleftrightarrow> file_blks fs i (nblk i) \<and> (i_sectors i ! 0 = 0 \<longrightarrow> i_size i = 0)"

lemma grown_trans:
  assumes a: "grown fs i has all fs1 i1 m" and b: "grown fs1 i1 m all' fs2 i2 n" and m: "m \<le> 12" "has \<le> m"
  shows "grown fs i has (blocks_of i2 (hd_drive fs2)) fs2 i2 n"
proof -
  have ieq: "i1 = i\<lparr>i_sectors := i_sectors i1\<rparr>" "i2 = i1\<lparr>i_sectors := i_sectors i2\<rparr>" using a b unfolding grown_def by blast+
  have "i1\<lparr>i_sectors := i_sectors i2\<rparr> = i\<lparr>i_sectors := i_sectors i2\<rparr>" by (subst ieq(1)) simp
  then have "i2 = i\<lparr>i_sectors := i_sectors i2\<rparr>" by (rule trans [OF ieq(2)])
  moreover have "fs_rest fs fs2" using a b fs_rest_trans unfolding grown_def by blast
  moreover have "file_table fs2 = file_table fs" using a b by (simp add: grown_def)
  moreover have "\<forall>k < has. blocks_of i2 (hd_drive fs2) ! k = blocks_of i (hd_drive fs) ! k" using a b m(2) by (auto simp: grown_def)
  moreover have "\<forall>a \<in> set (owned_blocks i2 (hd_drive fs2) n). a \<in> set (owned_blocks i (hd_drive fs) has) \<or> \<not> blk_bit fs a"
    using a b unfolding grown_def by blast
  moreover have "dsecs (hd_drive fs2) x = dsecs (hd_drive fs) x" if "blk_bit fs x" "12 < has \<longrightarrow> x \<noteq> i_sectors i ! 12" for x
  proof -
    have "dsecs (hd_drive fs1) x = dsecs (hd_drive fs) x" "blk_bit fs1 x" using a that unfolding grown_def by blast+
    moreover have "dsecs (hd_drive fs2) x = dsecs (hd_drive fs1) x" using b m(1) calculation(2) unfolding grown_def by (meson leD)
    ultimately show ?thesis by simp
  qed
  moreover have "wf_fs fs2" "file_blks fs2 i2 n" using b by (simp_all only: grown_def)
  moreover have "\<forall>x. blk_bit fs x \<longrightarrow> blk_bit fs2 x" using a b unfolding grown_def by blast
  ultimately show ?thesis unfolding grown_def by blast
qed

lemma first_block_new:
  assumes wf: "wf_fs fs" and ti: "the_inode r fs = Inr i" and fb: "file_blks fs i 0" and free: "bm.free_bits (block_bitmap (cur_part fs)) \<noteq> {}"
  shows "\<exists>fs' i'. first_block r fs = Inr (True, fs') \<and> the_inode r fs' = Inr i' \<and> grown fs i 0 (blocks_of i' (hd_drive fs')) fs' i' 1 \<and>
     Suc (card (bm.free_bits (block_bitmap (cur_part fs')))) = card (bm.free_bits (block_bitmap (cur_part fs)))"
proof -
  note f = file_blksD [OF fb]
  have s0: "i_sectors i ! 0 = 0" "i_sectors i ! 12 = 0" using f(1) f(3) [of 0] f(4) by (simp_all add: blocks_of_def nth_append)
  obtain a fs1 k where a: "block_bitmap_alloc fs = Inr (Some a, fs1)" "allocated fs fs1 [a]"
    "a - data_start_lba (fsb fs) = of_nat k" "0 < k" "k < bm_cap (block_bitmap (cur_part fs1))" "the_inode r fs1 = the_inode r fs"
    using allocate_one [OF wf free] by metis
  let ?i = "i\<lparr>i_sectors := (i_sectors i)[0 := a]\<rparr>"
  define fs2 where "fs2 = set_sector r 0 a fs1"
  have al2: "allocated fs fs2 [a]" using a(2) allocated_upd_inode by (simp add: fs2_def set_sector_def)
  have ti2: "the_inode r fs2 = Inr ?i" using ti a(6) by (auto simp: fs2_def set_sector_def intro!: the_inode_upd)
  have sb: "fsb fs2 = fsb fs" and cap: "k < bm_cap (block_bitmap (cur_part fs2))" and wf2: "wf_fs fs2"
    using al2 a(5) by (auto simp: allocated_def fs_rest_def fs2_def set_sector_def)
  obtain d where d: "bitmap_sync (of_nat k) BLOCK_BITMAP fs2 = Inr (fs2\<lparr>hd_drive := d\<rparr>)" "allocated fs (fs2\<lparr>hd_drive := d\<rparr>) [a]"
    using allocated_sync [OF al2 cap] by metis
  let ?F = "fs2\<lparr>hd_drive := d\<rparr>"
  have "k < 2 ^ 32" using cap wf_fsD(2) [OF wf2] by (simp add: wf_bitmap_def bm_cap_def)
  then have "(of_nat k :: u32) \<noteq> 0" using a(4) by (simp add: word_unat_eq_iff unat_of_nat)
  then have "a \<noteq> data_start_lba (fsb fs)" using a(3) by auto
  then have "first_block r fs = Inr (True, ?F)"
    using ti s0 a(1,3) d(1) sb by (simp add: first_block_def fs2_def [symmetric] Let_def)
  moreover have "the_inode r ?F = Inr ?i" using ti2 by (simp add: the_inode_def)
  moreover have pd: "put_direct 0 [a] i = ?i"
    using f(1) put_direct_Cons [of i 0 "[]" a] by simp
  moreover have "grown fs i 0 (blocks_of ?i (hd_drive ?F)) ?F ?i 1"
  proof (rule grown_alloc [OF wf _ fb, where ts = "[]" and bs = "[a]" and ?fs1.0 = ?F])
    show "wf_fs ?F" "fs_rest fs ?F" "file_table ?F = file_table fs" "allocated fs ?F ([] @ [a])" using d(2) by (simp_all add: allocated_def)
    show "?i = put_direct 0 [a] (if [] = [] then i else i\<lparr>i_sectors := (i_sectors i)[12 := hd []]\<rparr>)" using pd by simp
    show "blocks_of ?i (hd_drive ?F) ! k = (if 0 \<le> k \<and> k < 0 + length [a] then [a] ! (k - 0) else blocks_of i (hd_drive fs) ! k)"
      if "12 \<le> k" "k < 140" for k using that s0 f(1) by (simp add: blocks_of_def nth_append)
    show "dsecs (hd_drive ?F) x = dsecs (hd_drive fs) x" if "unat (inode_table_lba (fsb fs)) \<le> unat x" for x
      using d(2) that unfolding allocated_def by blast
  qed simp_all
  moreover have "card (bm.free_bits (block_bitmap (cur_part ?F))) + length [a] = card (bm.free_bits (block_bitmap (cur_part fs)))"
    using d(2) unfolding allocated_def by blast
  ultimately show ?thesis by (intro exI [of _ ?F] exI [of _ ?i]) simp
qed

text \<open>All blocks of the file and of the data to come are there.\<close>

lemma blocks_ready:
  assumes wf: "wf_fs fs" and ti: "the_inode r fs = Inr i" and fo: "file_ok fs i" and will: "unat (i_size i) div 512 < will" "will \<le> 140"
    and free: "will - nblk i < card (bm.free_bits (block_bitmap (cur_part fs)))"
  shows "\<exists>fs1 all fs' i'. first_block r fs = Inr (True, fs1) \<and> collect_blocks r (unat (i_size i) div 512 + 1) will fs1 = Inr (Some all, fs') \<and>
     the_inode r fs' = Inr i' \<and> grown fs i (nblk i) (blocks_of i' (hd_drive fs')) fs' i' will \<and>
     (\<forall>k. unat (i_size i) div 512 \<le> k \<and> k < will \<longrightarrow> all ! k = blocks_of i' (hd_drive fs') ! k)"
proof (cases "i_sectors i ! 0 = 0")
  case True
  then have sz: "i_size i = 0" and nb: "nblk i = 0" and fb: "file_blks fs i 0" using fo by (auto simp: file_ok_def nblk_def)
  have "bm.free_bits (block_bitmap (cur_part fs)) \<noteq> {}" using free by auto
  from first_block_new [OF wf ti fb this] obtain fs1 i1 where f: "first_block r fs = Inr (True, fs1)" "the_inode r fs1 = Inr i1"
    "grown fs i 0 (blocks_of i1 (hd_drive fs1)) fs1 i1 1" "Suc (card (bm.free_bits (block_bitmap (cur_part fs1)))) = card (bm.free_bits (block_bitmap (cur_part fs)))"
    by blast
  have wf1: "wf_fs fs1" "file_blks fs1 i1 1" using f(3) unfolding grown_def by blast+
  have "will - 1 < card (bm.free_bits (block_bitmap (cur_part fs1)))" using f(4) free nb will(1) by linarith
  then obtain all fs2 i2 where c: "collect_blocks r 1 will fs1 = Inr (Some all, fs2)" "the_inode r fs2 = Inr i2" "grown fs1 i1 1 all fs2 i2 will"
    using collect_blocks_ok [OF wf1(1) f(2) wf1(2), of will] will by auto
  have "grown fs i 0 (blocks_of i2 (hd_drive fs2)) fs2 i2 will" by (rule grown_trans [OF f(3) c(3)]) simp_all
  moreover have "\<forall>k. k < will \<longrightarrow> all ! k = blocks_of i2 (hd_drive fs2) ! k" using c(3) by (simp add: grown_def)
  ultimately show ?thesis using f(1) c(1,2) sz nb by auto
next
  case False
  then have nb: "nblk i = unat (i_size i) div 512 + 1" and fb: "file_blks fs i (unat (i_size i) div 512 + 1)" using fo by (auto simp: file_ok_def nblk_def)
  obtain all fs2 i2 where c: "collect_blocks r (unat (i_size i) div 512 + 1) will fs = Inr (Some all, fs2)" "the_inode r fs2 = Inr i2"
    "grown fs i (unat (i_size i) div 512 + 1) all fs2 i2 will"
    using collect_blocks_ok [OF wf ti fb, of will] will free nb by auto
  have "first_block r fs = Inr (True, fs)" using False ti by (simp add: first_block_def)
  moreover have "grown fs i (nblk i) (blocks_of i2 (hd_drive fs2)) fs2 i2 will" "\<forall>k. unat (i_size i) div 512 \<le> k \<and> k < will \<longrightarrow> all ! k = blocks_of i2 (hd_drive fs2) ! k"
    using c(3) unfolding nb grown_def by auto
  ultimately show ?thesis using c(1,2) by blast
qed

section \<open>Appending\<close>

lemma owned_blocks_split:
  assumes "file_blks fs i n"
  shows "distinct (take n (blocks_of i (hd_drive fs)))" "12 < n \<Longrightarrow> i_sectors i ! 12 \<notin> set (take n (blocks_of i (hd_drive fs)))"
    "\<And>k. k < n \<Longrightarrow> blocks_of i (hd_drive fs) ! k \<in> set (take n (blocks_of i (hd_drive fs)))"
    "\<And>k. k < n \<Longrightarrow> blk_bit fs (blocks_of i (hd_drive fs) ! k) \<and> blocks_of i (hd_drive fs) ! k \<le> max_lba"
    "12 < n \<Longrightarrow> blk_bit fs (i_sectors i ! 12)"
proof -
  note f = file_blksD [OF assms]
  show m: "blocks_of i (hd_drive fs) ! k \<in> set (take n (blocks_of i (hd_drive fs)))" if "k < n" for k
    using that f(1,2) by (auto simp: in_set_conv_nth intro!: exI [of _ k])
  show "blk_bit fs (blocks_of i (hd_drive fs) ! k) \<and> blocks_of i (hd_drive fs) ! k \<le> max_lba" if "k < n" for k
    using m [OF that] by (intro f(6)) (simp add: owned_blocks_def)
  show "distinct (take n (blocks_of i (hd_drive fs)))" "12 < n \<Longrightarrow> i_sectors i ! 12 \<notin> set (take n (blocks_of i (hd_drive fs)))"
    using f(5) by (auto simp: owned_blocks_def split: if_splits)
  show "blk_bit fs (i_sectors i ! 12)" if "12 < n" using that f(6) [of "i_sectors i ! 12"] by (simp add: owned_blocks_def)
qed

text \<open>A block list does not change while its table block does not.\<close>

lemma blocks_of_cong: "i_sectors i' = i_sectors i \<Longrightarrow> i_sectors i ! 12 \<noteq> 0 \<longrightarrow> dsecs d' (i_sectors i ! 12) = dsecs d (i_sectors i ! 12) \<Longrightarrow> blocks_of i' d' = blocks_of i d"
  by (simp add: blocks_of_def)

lemma sec_stream_prefix:
  assumes "drive_ok d" "drive_ok d'" and "\<And>k. k \<le> sz div 512 \<Longrightarrow> dsecs d' (B' ! k) = dsecs d (B ! k)" and "sz div 512 < m" "sz div 512 < n"
  shows "take sz (sec_stream d' B' m) = take sz (sec_stream d B n)"
proof -
  have "take (512 * (sz div 512) + sz mod 512) (sec_stream e C l) = stream (\<lambda>k. dsecs e (C ! k)) (sz div 512) @ take (sz mod 512) (dsecs e (C ! (sz div 512)))"
    if "drive_ok e" "sz div 512 < l" for e C l
    unfolding sec_stream_def using that by (intro take_stream) (auto simp: drive_ok_def)
  then have p: "take sz (sec_stream e C l) = stream (\<lambda>k. dsecs e (C ! k)) (sz div 512) @ take (sz mod 512) (dsecs e (C ! (sz div 512)))"
    if "drive_ok e" "sz div 512 < l" for e C l using that by simp
  have "stream (\<lambda>k. dsecs d' (B' ! k)) (sz div 512) = stream (\<lambda>k. dsecs d (B ! k)) (sz div 512)" using assms(3) by (intro stream_cong) simp
  then show ?thesis using p assms by simp
qed

lemma grown_bytes:
  assumes g: "grown fs i (nblk i) all fs' i' n" and fo: "file_ok fs i" and wf: "wf_fs fs" and n: "unat (i_size i) div 512 < n"
  shows "take (unat (i_size i)) (sec_stream (hd_drive fs') (blocks_of i' (hd_drive fs')) n) = file_bytes fs i"
proof (cases "i_sectors i ! 0 = 0")
  case True
  then show ?thesis using fo by (simp add: file_ok_def file_bytes_def)
next
  case False
  then have nb: "nblk i = unat (i_size i) div 512 + 1" by (simp add: nblk_def)
  note o = owned_blocks_split [OF fo [unfolded file_ok_def, THEN conjunct1]]
  have wf': "wf_fs fs'" using g by (simp only: grown_def)
  have "dsecs (hd_drive fs') (blocks_of i' (hd_drive fs') ! k) = dsecs (hd_drive fs) (blocks_of i (hd_drive fs) ! k)" if "k \<le> unat (i_size i) div 512" for k
  proof -
    have k: "k < nblk i" using that nb by simp
    then have "12 < nblk i \<longrightarrow> blocks_of i (hd_drive fs) ! k \<noteq> i_sectors i ! 12" using o(2,3) by metis
    moreover have "blocks_of i' (hd_drive fs') ! k = blocks_of i (hd_drive fs) ! k" using g k unfolding grown_def by blast
    ultimately show ?thesis using g o(4) [OF k] unfolding grown_def by simp
  qed
  then show ?thesis unfolding file_bytes_def using wf_fsD(9) wf wf' n by (intro sec_stream_prefix) auto
qed

lemma append_finish:
  assumes wf: "wf_fs fs" and fb: "file_blks fs i n" and ap: "appended idx r i (blocks_of i (hd_drive fs)) n src fs fs2"
    and u: "unat (i_size i + of_nat (length src)) = unat (i_size i) + length src" and n: "n = (unat (i_size i) + length src) div 512 + 1"
    and d: "table_stored fs2 no bs d"
  defines "i' \<equiv> i\<lparr>i_size := i_size i + of_nat (length src)\<rparr>" and "F \<equiv> fs2\<lparr>hd_drive := d\<rparr>"
  shows "wf_fs F" "file_ok F i'" "blk_bit F = blk_bit fs" "owned_blocks i' (hd_drive F) n = owned_blocks i (hd_drive fs) n"
    "file_bytes F i' = take (unat (i_size i)) (sec_stream (hd_drive fs) (blocks_of i (hd_drive fs)) n) @ src"
    "\<And>a. blk_bit fs a \<Longrightarrow> a \<notin> set (owned_blocks i (hd_drive fs) n) \<Longrightarrow> dsecs (hd_drive F) a = dsecs (hd_drive fs) a"
proof -
  let ?B = "blocks_of i (hd_drive fs)"
  note f = file_blksD [OF fb] and o = owned_blocks_split [OF fb]
  have a: "wf_fs fs2" "fs_rest fs fs2" "block_bitmap (cur_part fs2) = block_bitmap (cur_part fs)"
    "\<And>a. a \<notin> set (take n ?B) \<Longrightarrow> dsecs (hd_drive fs2) a = dsecs (hd_drive fs) a"
    "take (unat (i_size i) + length src) (sec_stream (hd_drive fs2) ?B n) = take (unat (i_size i)) (sec_stream (hd_drive fs) ?B n) @ src"
    using ap by (simp_all add: appended_def)
  have dok: "drive_ok d" and hi: "\<And>a. unat (inode_table_lba (fsb fs2)) + 608 \<le> unat a \<Longrightarrow> dsecs d a = dsecs (hd_drive fs2) a"
    using d by (simp_all add: table_stored_def)
  show wfF: "wf_fs F" using dok by (intro wf_fs_cong [OF a(1)]) (simp_all add: F_def)
  have sb: "fsb fs2 = fsb fs" using a(2) by (simp add: fs_rest_def)
  have kp: "dsecs d x = dsecs (hd_drive fs2) x" if "blk_bit fs x" for x using hi blk_bit_high [OF wf that] by (simp add: sb)
  show bb: "blk_bit F = blk_bit fs" by (simp add: blk_bit_def fun_eq_iff F_def sb a(3))
  have B: "blocks_of i' (hd_drive F) = ?B"
  proof (rule blocks_of_cong)
    show "i_sectors i ! 12 \<noteq> 0 \<longrightarrow> dsecs (hd_drive F) (i_sectors i ! 12) = dsecs (hd_drive fs) (i_sectors i ! 12)"
      using f(4) o(2,5) kp a(4) by (simp add: F_def)
  qed (simp add: i'_def)
  show ow: "owned_blocks i' (hd_drive F) n = owned_blocks i (hd_drive fs) n" by (simp add: owned_blocks_def B) (simp add: i'_def)
  have fb': "file_blks F i' n"
    unfolding file_blks_def B ow bb using fb by (simp add: i'_def file_blks_def)
  have "?B ! 0 = i_sectors i ! 0" using f(1) by (simp add: blocks_of_def nth_append)
  then have "i_sectors i ! 0 \<noteq> 0" using f(3) [of 0] n by simp
  moreover have us: "unat (i_size i') = unat (i_size i) + length src" using u by (simp add: i'_def)
  ultimately show "file_ok F i'" using fb' unfolding file_ok_def nblk_def us by (simp add: i'_def n)
  have "sec_stream (hd_drive F) ?B n = sec_stream (hd_drive fs2) ?B n"
    unfolding sec_stream_def using kp o(4) by (intro stream_cong) (simp add: F_def)
  then show "file_bytes F i' = take (unat (i_size i)) (sec_stream (hd_drive fs) ?B n) @ src"
    using a(5) unfolding file_bytes_def B us by (simp add: n)
  show "dsecs (hd_drive F) x = dsecs (hd_drive fs) x" if "blk_bit fs x" "x \<notin> set (owned_blocks i (hd_drive fs) n)" for x
    using that kp a(4) by (auto simp: F_def owned_blocks_def)
qed

text \<open>The run of \<^verbatim>\<open>file_write\<close> up to the write-back of the inode.\<close>

lemma file_write_run:
  assumes "wf_fs fs" and "fd_inode (file_table fs ! idx) = InodeAt r" and "the_inode r fs = Inr i" and "file_ok fs i" and "mallocs fs = []"
    and "unat (i_size i) + length src < 71680" and "length src div 512 + 2 < card (bm.free_bits (block_bitmap (cur_part fs)))"
  obtains F i' fs2 n where "n = (unat (i_size i') + length src) div 512 + 1" and "unat (i_size i' + of_nat (length src)) = unat (i_size i') + length src"
    and "file_write idx src fs = mapR (\<lambda>fs. (int (length src), fs)) (inode_sync (i'\<lparr>i_size := i_size i' + of_nat (length src)\<rparr>) 512 fs2)"
    and "wf_fs F" and "file_blks F i' n" and "appended idx r i' (blocks_of i' (hd_drive F)) n src F fs2"
    and "i_size i' = i_size i" and "i_no i' = r"
    and "take (unat (i_size i)) (sec_stream (hd_drive F) (blocks_of i' (hd_drive F)) n) = file_bytes fs i"
    and "\<And>a. blk_bit fs a \<Longrightarrow> a \<notin> set (owned_blocks i (hd_drive fs) (nblk i)) \<Longrightarrow>
           dsecs (hd_drive F) a = dsecs (hd_drive fs) a \<and> blk_bit F a \<and> a \<notin> set (owned_blocks i' (hd_drive F) n)"
proof -
  let ?s = "unat (i_size i)" let ?n = "length src" let ?will = "(?s + ?n) div 512 + 1"
  have u: "unat (i_size i + of_nat ?n) = ?s + ?n" "unat (of_nat ?n :: u32) = ?n" using assms(6) by (simp_all add: unat_word_ariths unat_of_nat)
  have guard: "\<not> 512 * 140 < i_size i + of_nat ?n" using u assms(6) by (simp add: word_less_nat_alt)
  have has: "unat (i_size i div 512 + 1) = ?s div 512 + 1" and will: "unat ((i_size i + of_nat ?n) div 512 + 1) = ?will"
    using u(1) assms(6) by (simp_all add: unat_word_ariths unat_div)
  have w140: "?s div 512 < ?will" "?will \<le> 140" using assms(6) by (simp_all add: less_Suc_eq_le div_le_mono)
  have w2: "?will \<le> ?s div 512 + ?n div 512 + 2" by linarith
  have "?will - nblk i \<le> ?n div 512 + 2"
  proof (cases "i_sectors i ! 0 = 0")
    case True
    then have "i_size i = 0" using assms(4) by (simp add: file_ok_def)
    then show ?thesis using True by (simp add: nblk_def)
  qed (use w2 in \<open>simp add: nblk_def\<close>)
  then have "?will - nblk i < card (bm.free_bits (block_bitmap (cur_part fs)))" using assms(7) by linarith
  from blocks_ready [OF assms(1,3,4) w140 this] obtain fs0 all fs1 i1 where b: "first_block r fs = Inr (True, fs0)"
    "collect_blocks r (?s div 512 + 1) ?will fs0 = Inr (Some all, fs1)" "the_inode r fs1 = Inr i1"
    "grown fs i (nblk i) (blocks_of i1 (hd_drive fs1)) fs1 i1 ?will"
    "\<forall>k. ?s div 512 \<le> k \<and> k < ?will \<longrightarrow> all ! k = blocks_of i1 (hd_drive fs1) ! k" by blast
  let ?B = "blocks_of i1 (hd_drive fs1)"
  have g: "wf_fs fs1" "file_blks fs1 i1 ?will" "i1 = i\<lparr>i_sectors := i_sectors i1\<rparr>" using b(4) unfolding grown_def by blast+
  have sz: "i_size i1 = i_size i" "i_no i1 = r" using arg_cong [OF g(3), of i_size] the_inode_no [OF b(3)] by simp_all
  note o = owned_blocks_split [OF g(2)] and f = file_blksD [OF g(2)]
  define F1 where "F1 = upd_file idx (\<lambda>f. f\<lparr>fd_pos := i_size i - 1\<rparr>) fs1"
  have F1: "hd_drive F1 = hd_drive fs1" "block_bitmap (cur_part F1) = block_bitmap (cur_part fs1)" "fs_rest fs1 F1" "fsb F1 = fsb fs1"
    and tF: "the_inode r F1 = Inr i1" using b(3) fs_rest_upd(3) by (simp_all add: F1_def the_inode_def)
  have wF: "wf_fs F1" using F1 wf_fsD(9) [OF g(1)] by (intro wf_fs_cong [OF g(1)]) simp_all
  have bbF: "blk_bit F1 = blk_bit fs1" by (simp add: blk_bit_def fun_eq_iff F1)
  have fF: "file_blks F1 i1 ?will" using g(2) by (simp add: file_blks_def F1 bbF)
  have "\<exists>fs'. write_data idx r all src True F1 = Inr fs' \<and> appended idx r i1 ?B ?will src F1 fs'"
  proof (rule write_data_ok [OF wF tF])
    have "?s + ?n < 512 * ?will" by simp
    then show "unat (i_size i1) + length src < 512 * ?will" by (simp only: sz)
    show "\<forall>k < ?will. ?B ! k \<le> max_lba" "distinct (take ?will ?B)" "?will \<le> length ?B" using o(1,4) f(1,2) by simp_all
    show "\<forall>k. unat (i_size i1) div 512 \<le> k \<and> k < ?will \<longrightarrow> all ! k = ?B ! k" using b(5) by (simp only: sz)
  qed (use w140(2) in simp_all)
  then obtain fs2 where w: "write_data idx r all src True F1 = Inr fs2" "appended idx r i1 (blocks_of i1 (hd_drive F1)) ?will src F1 fs2" by (auto simp: F1(1))
  have ti2: "the_inode r fs2 = Inr (i1\<lparr>i_size := i_size i1 + of_nat ?n\<rparr>)" using w(2) by (simp add: appended_def)
  have "file_write idx src fs = mapR (\<lambda>fs. (int ?n, fs)) (inode_sync (i1\<lparr>i_size := i_size i1 + of_nat ?n\<rparr>) 512 fs2)"
    using assms(2,3,5) guard b(1,2) has will w140(2) w(1) ti2
    by (simp add: file_write_def file_inode_def sys_malloc_ok_def F1_def Let_def)
  moreover have "dsecs (hd_drive F1) a = dsecs (hd_drive fs) a \<and> blk_bit F1 a \<and> a \<notin> set (owned_blocks i1 (hd_drive F1) ?will)"
    if a: "blk_bit fs a" "a \<notin> set (owned_blocks i (hd_drive fs) (nblk i))" for a
  proof -
    have "blk_bit fs1 a" "a \<notin> set (owned_blocks i1 (hd_drive fs1) ?will)" using b(4) a unfolding grown_def by blast+
    moreover have "12 < nblk i \<longrightarrow> a \<noteq> i_sectors i ! 12" using a(2) by (auto simp: owned_blocks_def)
    then have "dsecs (hd_drive fs1) a = dsecs (hd_drive fs) a" using b(4) a(1) unfolding grown_def by blast
    ultimately show ?thesis by (simp add: bbF F1)
  qed
  ultimately show ?thesis
    using that [of ?will i1 fs2 F1] u sz wF fF w(2) grown_bytes [OF b(4) assms(4,1) w140(1)] by (simp add: F1(1))
qed

section \<open>Properties of writing\<close>


text \<open>
  C39. \<^verbatim>\<open>file_write\<close> hands a buffer of one sector to \<^verbatim>\<open>inode_sync\<close>, which needs two when the inode entry
  straddles a sector boundary (inode 6 is the first): under the same conditions, a write to such a file
  never succeeds but reads past the end of its buffer, after the data and the bitmap have been written.
\<close>

theorem file_write_straddling_inode:
  assumes "wf_fs fs" and "fd_inode (file_table fs ! idx) = InodeAt r" and "the_inode r fs = Inr i" and "file_ok fs i" and "mallocs fs = []"
    and "unat (i_size i) + length src < 71680" and "length src div 512 + 2 < card (bm.free_bits (block_bitmap (cur_part fs)))"
    and "512 < sector_room (unat r mod 256)"
  shows "file_write idx src fs = Inl OutOfBounds"
proof -
  obtain i1 fs2 F n where R: "file_write idx src fs = mapR (\<lambda>fs. (int (length src), fs)) (inode_sync (i1\<lparr>i_size := i_size i1 + of_nat (length src)\<rparr>) 512 fs2)"
    "appended idx r i1 (blocks_of i1 (hd_drive F)) n src F fs2" "i_no i1 = r"
    by (rule file_write_run [OF assms(1-7)]) blast
  have "wf_disk fs2" using R(2) by (simp add: appended_def wf_fs_def)
  then show ?thesis using inode_sync_short [of fs2 512] assms(8) R(1,3) by simp
qed

section \<open>Reading\<close>

lemma upd_file_add:
  assumes "idx < length (file_table fs)"
  shows "upd_file idx (\<lambda>f. f\<lparr>fd_pos := fd_pos f + b\<rparr>) (upd_file idx (\<lambda>f. f\<lparr>fd_pos := fd_pos f + a\<rparr>) fs) =
    upd_file idx (\<lambda>f. f\<lparr>fd_pos := fd_pos f + (a + b)\<rparr>) fs"
  using assms by (simp add: upd_file_def add.assoc)

lemma read_data_ok:
  assumes "wf_fs fs" and "idx < length (file_table fs)" and "unat (fd_pos (file_table fs ! idx)) = pos" and "pos + n \<le> 512 * m" and "m \<le> 140"
    and "\<forall>k. pos div 512 \<le> k \<and> 512 * k < pos + n \<longrightarrow> all ! k = B ! k \<and> B ! k \<le> max_lba"
  shows "read_data idx all n fs = Inr (take n (drop pos (sec_stream (hd_drive fs) B m)), upd_file idx (\<lambda>f. f\<lparr>fd_pos := fd_pos f + of_nat n\<rparr>) fs)"
  using assms
proof (induction n arbitrary: fs pos rule: less_induct)
  case (less n fs pos)
  show ?case
  proof (cases "n = 0")
    case True
    have "upd_file idx (\<lambda>f. f\<lparr>fd_pos := fd_pos f\<rparr>) fs = fs" using less.prems(2) by (simp add: upd_file_def)
    then show ?thesis using True by (simp add: read_data.simps)
  next
    case False
    define q off where "q = pos div 512" and "off = pos mod 512"
    define c where "c = min n (512 - off)"
    have sz: "pos = 512 * q + off" and o5: "off < 512" by (simp_all add: q_def off_def)
    have c: "0 < c" "off + c \<le> 512" "c \<le> n" using False o5 by (simp_all add: c_def)
    have qm: "q < m" using sz less.prems(4) False by linarith
    have w: "unat (fd_pos (file_table fs ! idx) div 512) = q" "unat (fd_pos (file_table fs ! idx) mod 512) = off"
      using less.prems(3) by (simp_all add: q_def off_def unat_div unat_mod)
    have "pos div 512 \<le> q" "512 * q < pos + n" using sz False q_def by linarith+
    then have al: "all ! q = B ! q" "B ! q \<le> max_lba" using less.prems(6) by blast+
    define fs1 where "fs1 = upd_file idx (\<lambda>f. f\<lparr>fd_pos := fd_pos f + of_nat c\<rparr>) fs"
    have fr: "fs_rest fs fs1" unfolding fs1_def by (rule fs_rest_upd(3))
    have "wf_fs fs1" using wf_fsD(9) [OF less.prems(1)] by (intro wf_fs_cong [OF less.prems(1) fr]) (simp_all add: fs1_def)
    moreover have "unat (fd_pos (file_table fs1 ! idx)) = pos + c"
      using less.prems(2-5) c by (simp add: fs1_def unat_word_ariths unat_of_nat)
    moreover have "\<forall>k. (pos + c) div 512 \<le> k \<and> 512 * k < pos + c + (n - c) \<longrightarrow> all ! k = B ! k \<and> B ! k \<le> max_lba"
      using less.prems(6) c(3) div_le_mono [of pos "pos + c" 512] by auto
    ultimately have "read_data idx all (n - c) fs1 = Inr (take (n - c) (drop (pos + c) (sec_stream (hd_drive fs1) B m)),
        upd_file idx (\<lambda>f. f\<lparr>fd_pos := fd_pos f + of_nat (n - c)\<rparr>) fs1)"
      using less.prems(2,4,5) c by (intro less.IH) (simp_all add: fs1_def)
    moreover have "upd_file idx (\<lambda>f. f\<lparr>fd_pos := fd_pos f + of_nat (n - c)\<rparr>) fs1 = upd_file idx (\<lambda>f. f\<lparr>fd_pos := fd_pos f + of_nat n\<rparr>) fs"
      using upd_file_add [OF less.prems(2), of "of_nat (n - c)" "of_nat c"] c(3) by (simp add: fs1_def flip: of_nat_add)
    moreover have "take c (drop off (dsecs (hd_drive fs) (B ! q))) @ take (n - c) (drop (pos + c) (sec_stream (hd_drive fs) B m)) =
        take n (drop pos (sec_stream (hd_drive fs) B m))"
    proof -
      have "take c (drop (512 * q + off) (sec_stream (hd_drive fs) B m)) = take c (drop off (dsecs (hd_drive fs) (B ! q)))"
        unfolding sec_stream_def using wf_fsD(9) [OF less.prems(1)] qm c(2) by (intro drop_stream) (simp_all add: drive_ok_def)
      then have "take c (drop pos (sec_stream (hd_drive fs) B m)) = take c (drop off (dsecs (hd_drive fs) (B ! q)))" by (simp only: sz)
      then show ?thesis using c(3) take_add [of c "n - c" "drop pos (sec_stream (hd_drive fs) B m)"] by (simp add: add.commute)
    qed
    moreover have "read_data idx all n fs = bindR (fs_read (B ! q) 1 fs) (\<lambda>io_buf.
        mapR (\<lambda>(rest, fs). (take c (drop off io_buf) @ rest, fs)) (read_data idx all (n - c) fs1))"
      using False by (simp add: read_data.simps [of idx all n] Let_def w al(1) c_def [symmetric] fs1_def)
    ultimately show ?thesis using fs_read_1 [OF less.prems(1) al(2)] by (simp add: fs1_def)
  qed
qed

lemma read_blocks_ok:
  assumes wf: "wf_fs fs" and fb: "file_blks fs i n" and se: "start \<le> end'" "end' < n"
  obtains all where "read_blocks i start end' fs = Inr all" and "\<And>k. start \<le> k \<Longrightarrow> k \<le> end' \<Longrightarrow> all ! k = blocks_of i (hd_drive fs) ! k"
proof -
  note f = file_blksD [OF fb]
  let ?B = "blocks_of i (hd_drive fs)"
  have lo: "?B ! k = i_sectors i ! k" if "k < 12" for k using that f(1) by (simp add: blocks_of_def nth_append)
  show ?thesis
  proof (cases "end' < 12")
    case True
    then show ?thesis using that se lo f(2) by (cases "end' = start") (force simp: read_blocks_def Let_def)+
  next
    case False
    then have t: "i_sectors i ! 12 \<noteq> 0" "i_sectors i ! 12 \<in> set (owned_blocks i (hd_drive fs) n)" using f(4) se by (simp_all add: owned_blocks_def)
    then have mx: "i_sectors i ! 12 \<le> max_lba" using f(6) by blast
    have ld: "load_table (i_sectors i ! 12) all fs = Inr (take 12 all @ table_words (dsecs (hd_drive fs) (i_sectors i ! 12)))" for all
      using fs_read_1 [OF wf mx] by (simp add: load_table_def)
    have "(take 12 all @ table_words (dsecs (hd_drive fs) (i_sectors i ! 12))) ! k = ?B ! k"
      if "12 \<le> k \<or> all ! k = i_sectors i ! k" "length all = 140" for all k
      using that t(1) f(1) by (auto simp: blocks_of_def nth_append)
    note hi = this
    show ?thesis
    proof (cases "start < 12")
      case True
      let ?all = "map (\<lambda>k. if start \<le> k \<and> k < 12 then i_sectors i ! k else 0) [0..<140]"
      have "read_blocks i start end' fs = Inr (take 12 ?all @ table_words (dsecs (hd_drive fs) (i_sectors i ! 12)))"
        using True False t(1) by (simp add: read_blocks_def Let_def ld)
      moreover have "12 \<le> k \<or> ?all ! k = i_sectors i ! k" if "start \<le> k" for k using that by (cases "12 \<le> k") simp_all
      ultimately show ?thesis using that hi [of _ ?all] by simp
    next
      case F2: False
      have "read_blocks i start end' fs = Inr (take 12 (replicate 140 0) @ table_words (dsecs (hd_drive fs) (i_sectors i ! 12)))"
        using F2 False t(1) by (simp add: read_blocks_def Let_def ld)
      then show ?thesis using that hi [of _ "replicate 140 0"] F2 by simp
    qed
  qed
qed

lemma file_read_ok:
  assumes "wf_fs fs" and "idx < length (file_table fs)" and "fd_inode (file_table fs ! idx) = InodeAt r" and "the_inode r fs = Inr i"
    and "file_ok fs i" and "mallocs fs = []" and "fd_pos (file_table fs ! idx) = pos" and "pos < i_size i"
    and "n = min (unat count) (unat (i_size i) - unat pos)" and "unat pos + unat count < 2 ^ 32" and "unat pos + n < 71168"
  shows "file_read idx count fs = Inr (int n, take n (drop (unat pos) (file_bytes fs i)), upd_file idx (\<lambda>f. f\<lparr>fd_pos := pos + of_nat n\<rparr>) fs)"
proof -
  let ?p = "unat pos" let ?s = "unat (i_size i)" let ?B = "blocks_of i (hd_drive fs)"
  have ps: "?p < ?s" using assms(8) by (simp add: word_less_nat_alt)
  have up: "unat (pos + count) = ?p + unat count" using assms(10) by (simp add: unat_word_ariths)
  define size where "size = (if pos + count > i_size i then i_size i - pos else count)"
  have us: "unat size = n"
    using ps assms(9) up by (auto simp: size_def word_less_nat_alt unat_sub_if' not_less min_def)
  have gd: "\<not> (pos + count > i_size i \<and> size = 0)" using assms(8) by (auto simp: size_def)
  have ue: "unat ((pos + size) div 512) = (?p + n) div 512"
    using us assms(11) by (simp add: unat_div unat_word_ariths)
  have "i_sectors i ! 0 \<noteq> 0" using assms(5,8) by (auto simp: file_ok_def)
  then have fb: "file_blks fs i (?s div 512 + 1)" using assms(5) by (simp add: file_ok_def nblk_def)
  have pn: "?p + n \<le> ?s" using assms(9) ps by simp
  have m: "?p div 512 \<le> (?p + n) div 512" "(?p + n) div 512 < ?s div 512 + 1" "?p div 512 < 139" "(?p + n) div 512 < 139"
    using pn assms(11) by (simp_all add: div_le_mono less_Suc_eq_le div_less_iff_less_mult)
  obtain all where all: "read_blocks i (?p div 512) ((?p + n) div 512) fs = Inr all"
    "\<And>k. ?p div 512 \<le> k \<Longrightarrow> k \<le> (?p + n) div 512 \<Longrightarrow> all ! k = ?B ! k" by (rule read_blocks_ok [OF assms(1) fb m(1,2)]) blast
  have "read_data idx all n fs = Inr (take n (drop ?p (sec_stream (hd_drive fs) ?B (?s div 512 + 1))), upd_file idx (\<lambda>f. f\<lparr>fd_pos := fd_pos f + of_nat n\<rparr>) fs)"
  proof (rule read_data_ok)
    have "?s \<le> 512 * (?s div 512 + 1)" by simp
    then show "?p + n \<le> 512 * (?s div 512 + 1)" using pn by (rule order_trans [rotated])
    show "\<forall>k. ?p div 512 \<le> k \<and> 512 * k < ?p + n \<longrightarrow> all ! k = ?B ! k \<and> ?B ! k \<le> max_lba"
    proof (intro allI impI)
      fix k assume k: "?p div 512 \<le> k \<and> 512 * k < ?p + n"
      then have "k \<le> (?p + n) div 512" by (simp add: less_eq_div_iff_mult_less_eq)
      then show "all ! k = ?B ! k \<and> ?B ! k \<le> max_lba" using all(2) k m(2) owned_blocks_split(4) [OF fb, of k] by simp
    qed
    show "?s div 512 + 1 \<le> 140" using file_blksD(2) [OF fb] .
  qed (use assms in simp_all)
  moreover have "take n (drop ?p (sec_stream (hd_drive fs) ?B (?s div 512 + 1))) = take n (drop ?p (file_bytes fs i))"
    using pn by (simp add: file_bytes_def drop_take min_def)
  moreover have "upd_file idx (\<lambda>f. f\<lparr>fd_pos := fd_pos f + of_nat n\<rparr>) fs = upd_file idx (\<lambda>f. f\<lparr>fd_pos := pos + of_nat n\<rparr>) fs"
    using assms(7) by (simp add: upd_file_def)
  moreover have "file_read idx count fs = mapR (\<lambda>(bs, fs). (int n, bs, fs)) (read_data idx all n fs)"
  proof (cases "pos + count > i_size i")
    case True
    then have sz: "size = i_size i - pos" "i_size i - pos \<noteq> 0" using gd by (simp_all add: size_def)
    then show ?thesis using assms(3,4,6,7) True us [unfolded sz] ue [unfolded sz] m(3,4) all(1)
      by (simp add: file_read_def file_inode_def sys_malloc_ok_def Let_def unat_div)
  next
    case False
    then have sz: "size = count" by (simp add: size_def)
    show ?thesis using assms(3,4,6,7) False us [unfolded sz] ue [unfolded sz] m(3,4) all(1)
      by (simp add: file_read_def file_inode_def sys_malloc_ok_def Let_def unat_div)
  qed
  ultimately show ?thesis by simp
qed

lemma file_bytes_length: "wf_fs fs \<Longrightarrow> length (file_bytes fs i) = unat (i_size i)"
proof -
  assume "wf_fs fs"
  then have "length (dsecs (hd_drive fs) a) = 512" for a using wf_fsD(9) by (simp add: drive_ok_def)
  then have "length (sec_stream (hd_drive fs) (blocks_of i (hd_drive fs)) n) = 512 * n" for n unfolding sec_stream_def by (rule stream_length)
  then show ?thesis by (simp add: file_bytes_def)
qed

text \<open>
  C17. \<^verbatim>\<open>file_read\<close> reads: below the limit of 139 blocks, reading \<open>count\<close> bytes at a position inside the file
  stores the bytes of the contents from that position on, as many as asked for or as there are, returns
  their number and advances the position by it; nothing else changes.
\<close>

theorem file_read_contents:
  assumes "wf_fs fs" and "idx < length (file_table fs)" and "fd_inode (file_table fs ! idx) = InodeAt r" and "the_inode r fs = Inr i"
    and "file_ok fs i" and "mallocs fs = []" and "fd_pos (file_table fs ! idx) = pos" and "pos < i_size i"
    and "n = min (unat count) (unat (i_size i) - unat pos)" and "unat pos + unat count < 2 ^ 32" and "unat pos + n < 71168"
  shows "file_read idx count fs = Inr (int n, take n (drop (unat pos) (file_bytes fs i)), upd_file idx (\<lambda>f. f\<lparr>fd_pos := pos + of_nat n\<rparr>) fs)"
  using assms by (rule file_read_ok)

section \<open>Samples\<close>

text \<open>A file system with one open file, whose descriptor is 3; \<open>b\<close> is the first byte of the block bitmap.\<close>

definition sample_open :: "u8 \<Rightarrow> inode \<Rightarrow> fsys" where
  "sample_open b i = upd_part (\<lambda>p. p\<lparr>open_inodes := [i], block_bitmap := \<lparr>btmp_bytes_len = 12800, bits = b # replicate 12799 0\<rparr>\<rparr>)
     (sample_fs\<lparr>file_table := (file_table sample_fs)[3 := \<lparr>fd_pos = 0, fd_flag = 2, fd_inode = InodeAt (i_no i)\<rparr>]\<rparr>)"

lemma sample_open_fields:
  "file_table (sample_open b i) ! 3 = \<lparr>fd_pos = 0, fd_flag = 2, fd_inode = InodeAt (i_no i)\<rparr>" "length (file_table (sample_open b i)) = 32"
  "the_inode (i_no i) (sample_open b i) = Inr i" "mallocs (sample_open b i) = []" "fsb (sample_open b i) = fsb sample_fs" "hd_drive (sample_open b i) = sample_drive"
  "block_bitmap (cur_part (sample_open b i)) = \<lparr>btmp_bytes_len = 12800, bits = b # replicate 12799 0\<rparr>"
  by (simp_all add: sample_open_def sample_fs_def upd_part_def the_inode_def)

lemma sample_open_wf:
  assumes "bit b 0"
  shows "wf_fs (sample_open b i)"
proof -
  have "wf_disk (sample_open b i)" using sample_wf_disk by (simp add: wf_disk_def sample_open_def upd_part_def)
  then show ?thesis using assms unfolding wf_fs_def sample_open_fields
    by (auto simp: sample_fs_def wf_bitmap_def bm_cap_def bm_bit_def max_lba_def)
qed

lemma sample_open_card: "2 < card (bm.free_bits (block_bitmap (cur_part (sample_open b i))))"
proof -
  have "{8, 9, 10} \<subseteq> bm.free_bits (block_bitmap (cur_part (sample_open b i)))"
    unfolding sample_open_fields bm.free_bits_def bm_cap_def bm_bit_def by simp
  then have "card {8, 9, 10 :: nat} \<le> card (bm.free_bits (block_bitmap (cur_part (sample_open b i))))" by (rule card_mono [OF bm.finite_free_bits])
  then show ?thesis by simp
qed

lemma sample_open_new: "i_no i = n \<Longrightarrow> i = inode_init n \<Longrightarrow> file_ok (sample_open b i) i"
  by (simp add: file_ok_def nblk_def file_blks_def inode_init_def blocks_of_def owned_blocks_def nth_append)


theorem file_write_straddling_inode_witness:
  "file_write 3 [7, 8, 9] (sample_open 1 (inode_init 6)) = Inl OutOfBounds"
proof -
  let ?i = "inode_init 6"
  have i: "i_no ?i = 6" "i_size ?i = 0" by (simp_all add: inode_init_def)
  show ?thesis
    using file_write_straddling_inode [of "sample_open 1 ?i" 3 6 ?i "[7, 8, 9]"] sample_open_wf [of 1 ?i] sample_open_fields [where b = 1 and i = "?i"] sample_open_card [of 1 ?i]
      sample_open_new [of ?i 6 1] by (auto simp: i sector_room_def)
qed

definition sample_inode :: inode where
  "sample_inode = \<lparr>i_no = 5, i_size = 10, i_open_cnts = 1, write_deny = False, i_sectors = 2685 # replicate 12 0\<rparr>"

lemma sample_file_ok: "file_ok (sample_open 3 sample_inode) sample_inode"
proof -
  have B: "blocks_of sample_inode d = 2685 # replicate 139 0" for d
    by (simp add: blocks_of_def sample_inode_def numeral_eq_Suc)
  have "blk_bit (sample_open 3 sample_inode) 2685"
    by (simp add: blk_bit_def sample_open_fields bm_cap_def bm_bit_def) (simp add: sample_fs_def)
  then show ?thesis
    by (auto simp: file_ok_def nblk_def file_blks_def owned_blocks_def B nth_Cons' max_lba_def) (simp_all add: sample_inode_def)
qed

theorem file_read_contents_witness:
  "\<exists>fs'. file_read 3 20 (sample_open 3 sample_inode) = Inr (10, replicate 10 0, fs')"
proof -
  have i: "i_no sample_inode = 5" "i_size sample_inode = 10" by (simp_all add: sample_inode_def)
  have "file_bytes (sample_open 3 sample_inode) sample_inode = replicate 10 0"
    by (simp add: file_bytes_def i sec_stream_def stream_Suc sample_open_fields sample_drive_def)
  then show ?thesis
    using file_read_contents [of "sample_open 3 sample_inode" 3 5 sample_inode 0 10 20] sample_open_wf [of 3 sample_inode]
      sample_open_fields [where b = 3 and i = sample_inode] sample_file_ok by (auto simp: i)
qed

end
