(* ===== verification/Format.thy ===== *)
theory Format
  imports Fs File_Rw
begin

text \<open>
  Model of \<^verbatim>\<open>partition_format\<close>, \<^verbatim>\<open>mount_partition\<close> and \<^verbatim>\<open>filesys_init\<close> of \<^verbatim>\<open>fs/fs.c\<close>: the layout of a partition (boot
  sector, super block, block bitmap, inode bitmap, inode table, data), and that a formatted partition,
  once mounted, is a well-formed file system with an empty root directory. \<open>pad\<close> is the uninitialised
  tail of the local super block.
\<close>

section \<open>The super block\<close>

definition free_sects :: "u32 \<Rightarrow> u32" where
  "free_sects cnt = cnt - (1 + 1 + DIV_ROUND_UP 4096 4096 + DIV_ROUND_UP (76 * 4096) 512)"

definition block_bitmap_bit_len :: "u32 \<Rightarrow> u32" where
  "block_bitmap_bit_len cnt = free_sects cnt - DIV_ROUND_UP (free_sects cnt) 4096"

definition format_sb :: "u32 \<Rightarrow> u32 \<Rightarrow> super_block" where
  "format_sb start cnt =
     (let bb = DIV_ROUND_UP (block_bitmap_bit_len cnt) 4096; ib = DIV_ROUND_UP 4096 4096; it = DIV_ROUND_UP (76 * 4096) 512 in
      \<lparr>magic = 0x19590318, sb_sec_cnt = cnt, inode_cnt = 4096, part_lba_base = start,
       block_bitmap_lba = start + 2, block_bitmap_sects = bb, inode_bitmap_lba = start + 2 + bb, inode_bitmap_sects = ib,
       inode_table_lba = start + 2 + bb + ib, inode_table_sects = it, data_start_lba = start + 2 + bb + ib + it,
       root_inode_no = 0, dir_entry_size = 24\<rparr>)"

definition sb_words :: "super_block \<Rightarrow> u32 list" where
  "sb_words b = [magic b, sb_sec_cnt b, inode_cnt b, part_lba_base b, block_bitmap_lba b, block_bitmap_sects b, inode_bitmap_lba b,
     inode_bitmap_sects b, inode_table_lba b, inode_table_sects b, data_start_lba b, root_inode_no b, dir_entry_size b]"

definition enc_sb :: "super_block \<Rightarrow> u8 list \<Rightarrow> u8 list" where
  "enc_sb b pad = concat (map le32 (sb_words b)) @ pad"

definition dec_sb :: "u8 list \<Rightarrow> super_block" where
  "dec_sb bs = \<lparr>magic = rd32 bs 0, sb_sec_cnt = rd32 bs 4, inode_cnt = rd32 bs 8, part_lba_base = rd32 bs 12, block_bitmap_lba = rd32 bs 16,
     block_bitmap_sects = rd32 bs 20, inode_bitmap_lba = rd32 bs 24, inode_bitmap_sects = rd32 bs 28, inode_table_lba = rd32 bs 32,
     inode_table_sects = rd32 bs 36, data_start_lba = rd32 bs 40, root_inode_no = rd32 bs 44, dir_entry_size = rd32 bs 48\<rparr>"

section \<open>Formatting\<close>

definition disk_write :: "u8 \<Rightarrow> u32 \<Rightarrow> u8 list \<Rightarrow> u32 \<Rightarrow> fsys \<Rightarrow> fsys result" where
  "disk_write dev lba bs n fs = mapR (\<lambda>d. fs\<lparr>hd_drive := d\<rparr>) (ide_write dev lba bs (unat n) (hd_drive fs))"

text \<open>\<^verbatim>\<open>while(bit_idx <= block_bitmap_last_bit) buf[last_byte] &= ~(1 << bit_idx++);\<close>\<close>

definition clear_low_bits :: "nat \<Rightarrow> u8 \<Rightarrow> u8" where
  "clear_low_bits last_bit b = fold (\<lambda>k b. b AND NOT (push_bit k 1)) [0..<Suc last_bit] b"

definition block_bitmap_image :: "nat \<Rightarrow> u32 \<Rightarrow> u8 list result" where
  "block_bitmap_image buf_size bit_len =
     (let last_byte = unat (bit_len div 8); last_bit = unat (bit_len mod 8); last_size = 512 - last_byte mod 512 in
      bindR (set_byte_at (replicate buf_size 0) 0 1) (\<lambda>buf.
      bindR (patch last_byte (replicate last_size 0xff) buf) (\<lambda>buf.
      bindR (byte_at buf last_byte) (\<lambda>b. set_byte_at buf last_byte (clear_low_bits last_bit b)))))"

definition root_inode :: "super_block \<Rightarrow> inode" where
  "root_inode b = \<lparr>i_no = 0, i_size = dir_entry_size b * 2, i_open_cnts = 0, write_deny = False, i_sectors = data_start_lba b # replicate 12 0\<rparr>"

definition partition_format :: "u8 list \<Rightarrow> u8 \<Rightarrow> u32 \<Rightarrow> u32 \<Rightarrow> fsys \<Rightarrow> fsys result" where
  "partition_format pad dev start cnt fs =
     (let b = format_sb start cnt;
          m = max (block_bitmap_sects b) (inode_bitmap_sects b); buf_size = unat (max m (inode_table_sects b) * 512) in
      bindR (disk_write dev (start + 1) (enc_sb b pad) 1 fs) (\<lambda>fs.
      let (ok, fs) = sys_malloc_ok fs in
      if \<not> ok then Inl NullDeref
      else bindR (block_bitmap_image buf_size (block_bitmap_bit_len cnt)) (\<lambda>buf.
        bindR (disk_write dev (block_bitmap_lba b) buf (block_bitmap_sects b) fs) (\<lambda>fs.
        bindR (set_byte_at (replicate buf_size 0) 0 1) (\<lambda>buf.
        bindR (disk_write dev (inode_bitmap_lba b) buf (inode_bitmap_sects b) fs) (\<lambda>fs.
        bindR (patch 0 (enc_inode (root_inode b)) (replicate buf_size 0)) (\<lambda>buf.
        bindR (disk_write dev (inode_table_lba b) buf (inode_table_sects b) fs) (\<lambda>fs.
        bindR (patch 0 (dot_entries 0 0) (replicate buf_size 0)) (\<lambda>buf.
        disk_write dev (data_start_lba b) buf 1 fs)))))))))"

section \<open>Mounting\<close>

text \<open>The partition was found by its name; the memory for the super block and the bitmaps is checked with \<^verbatim>\<open>PANIC\<close>.\<close>

definition mount_partition :: "u8 \<Rightarrow> u32 \<Rightarrow> u32 \<Rightarrow> fsys \<Rightarrow> fsys result" where
  "mount_partition dev start cnt fs =
     (let (ok1, fs) = sys_malloc_ok fs; (ok2, fs) = sys_malloc_ok fs in
      if \<not> ok2 then Inl (KPanic ''alloc memsory for partition sb failed'')
      else if \<not> ok1 then Inl (AssertFail ''dst_ != NULL'')
      else bindR (ide_read dev (start + 1) 1 (hd_drive fs)) (\<lambda>sb_buf.
        let b = dec_sb sb_buf; (ok, fs) = sys_malloc_ok fs in
        if \<not> ok then Inl (KPanic ''alloc memory for block bitmap failed'')
        else bindR (ide_read dev (block_bitmap_lba b) (unat (block_bitmap_sects b)) (hd_drive fs)) (\<lambda>bbits.
          let (ok, fs) = sys_malloc_ok fs in
          if \<not> ok then Inl (KPanic ''alloc memory for inode bitmap failed'')
          else bindR (ide_read dev (inode_bitmap_lba b) (unat (inode_bitmap_sects b)) (hd_drive fs)) (\<lambda>ibits.
            Inr (fs\<lparr>cur_part := \<lparr>start_lba = start, sec_cnt = cnt, part_dev = dev, sb = b,
               block_bitmap = \<lparr>btmp_bytes_len = unat (block_bitmap_sects b * 512), bits = bbits\<rparr>,
               inode_bitmap = \<lparr>btmp_bytes_len = unat (inode_bitmap_sects b * 512), bits = ibits\<rparr>, open_inodes = []\<rparr>\<rparr>)))))"

section \<open>Initialisation\<close>

record part_desc =
  pd_name :: "u8 list"
  pd_start :: u32
  pd_cnt :: u32

text \<open>The partitions of one disk: those that exist and have no file system are formatted.\<close>

fun format_parts :: "(nat \<Rightarrow> u8 list) \<Rightarrow> u8 \<Rightarrow> part_desc list \<Rightarrow> nat \<Rightarrow> fsys \<Rightarrow> fsys result" where
  "format_parts g dev [] part_idx fs = Inr fs"
| "format_parts g dev (p # ps) part_idx fs =
     bindR (if pd_cnt p \<noteq> 0 then
              bindR (ide_read dev (pd_start p + 1) 1 (hd_drive fs)) (\<lambda>sb_buf.
              if magic (dec_sb sb_buf) = 0x19590318 then Inr fs
              else partition_format (g part_idx) dev (pd_start p) (pd_cnt p) fs)
            else Inr fs) (format_parts g dev ps (Suc part_idx))"

fun mount_first :: "u8 list \<Rightarrow> u8 \<Rightarrow> part_desc list \<Rightarrow> fsys \<Rightarrow> fsys result" where
  "mount_first name dev [] fs = Inr fs"
| "mount_first name dev (p # ps) fs =
     bindR (strcmp (Some (pd_name p)) (Some name)) (\<lambda>c.
     if c = 0 then mount_partition dev (pd_start p) (pd_cnt p) fs else mount_first name dev ps fs)"

text \<open>One channel with its slave disk, whose 12 partitions are \<open>parts\<close>; the partition list holds them in this order.\<close>

definition filesys_init :: "(nat \<Rightarrow> u8 list) \<Rightarrow> u8 \<Rightarrow> part_desc list \<Rightarrow> fsys \<Rightarrow> fsys result" where
  "filesys_init g dev parts fs =
     (let (ok, fs) = sys_malloc_ok fs in
      if \<not> ok then Inl (KPanic ''filesys_init: sys_malloc for sb_buf failed'')
      else bindR (format_parts g dev (take 12 parts) 0 fs) (\<lambda>fs.
        bindR (mount_first [115, 100, 98, 49, 0] dev (filter (\<lambda>p. pd_cnt p \<noteq> 0) parts) fs) (\<lambda>fs.
        bindR (open_root_dir fs) (\<lambda>fs.
        Inr (fs\<lparr>file_table := map (\<lambda>f. f\<lparr>fd_inode := NoInode\<rparr>) (file_table fs)\<rparr>)))))"

section \<open>The layout\<close>

definition fit :: "u32 \<Rightarrow> u32 \<Rightarrow> bool" where
  "fit start cnt \<longleftrightarrow> 700 \<le> unat cnt \<and> unat start + unat cnt \<le> unat max_lba"

definition data_blocks :: "nat \<Rightarrow> nat" where
  "data_blocks n = (n - 611) - ((n - 611) + 4095) div 4096"

definition bitmap_sects :: "nat \<Rightarrow> nat" where
  "bitmap_sects n = (data_blocks n + 4095) div 4096"

lemma unat_div_round_up: "unat x + 4096 < 2 ^ 32 \<Longrightarrow> unat (DIV_ROUND_UP x 4096) = (unat x + 4095) div 4096"
proof -
  assume a: "unat x + 4096 < 2 ^ 32"
  have "unat (4095 + x) = unat x + 4095" using a by (simp add: unat_word_ariths)
  then show ?thesis by (simp add: DIV_ROUND_UP_def unat_div)
qed

lemma round_up_consts: "DIV_ROUND_UP 4096 4096 = 1" "DIV_ROUND_UP 311296 512 = 608"
  by (simp_all add: DIV_ROUND_UP_def)

lemma data_blocks_bounds:
  assumes "700 \<le> n" "n \<le> 163839"
  shows "8 \<le> data_blocks n" "data_blocks n < 4096 * 40" "1 \<le> bitmap_sects n" "bitmap_sects n \<le> 40" "data_blocks n \<le> 4096 * bitmap_sects n"
    "611 + bitmap_sects n + data_blocks n \<le> n"
  using assms unfolding data_blocks_def bitmap_sects_def by linarith+

lemma max_lba_nat: "unat max_lba = 163839"
  by (simp add: max_lba_def)

lemma fit_bounds:
  assumes "fit start cnt"
  shows "700 \<le> unat cnt" "unat cnt \<le> 163839" "unat start + unat cnt \<le> 163839"
  using assms by (simp_all add: fit_def max_lba_nat)

lemma unat_bit_len:
  assumes "fit start cnt"
  shows "unat (block_bitmap_bit_len cnt) = data_blocks (unat cnt)"
proof -
  note b = fit_bounds [OF assms]
  have f: "unat (free_sects cnt) = unat cnt - 611" using b by (simp add: free_sects_def round_up_consts unat_sub_if')
  have "(unat cnt - 611 + 4095) div 4096 \<le> unat cnt - 611" using b by linarith
  then show ?thesis using b unat_div_round_up [of "free_sects cnt"] by (simp add: block_bitmap_bit_len_def data_blocks_def unat_sub_if' f)
qed

lemma unat_plus_small: "unat (x :: u32) + unat y < 2 ^ 32 \<Longrightarrow> unat (x + y) = unat x + unat y"
  by (simp add: unat_word_ariths)

lemma format_layout:
  assumes "fit start cnt"
  defines "b \<equiv> format_sb start cnt" and "s \<equiv> bitmap_sects (unat cnt)"
  shows "unat (block_bitmap_lba b) = unat start + 2" "unat (block_bitmap_sects b) = s" "unat (inode_bitmap_lba b) = unat start + 2 + s"
    "inode_bitmap_sects b = 1" "unat (inode_table_lba b) = unat start + 3 + s" "inode_table_sects b = 608"
    "unat (data_start_lba b) = unat start + 611 + s" "dir_entry_size b = 24" "root_inode_no b = 0"
proof -
  note f = fit_bounds [OF assms(1)] and d = data_blocks_bounds [OF fit_bounds(1,2) [OF assms(1)]]
  define bb where "bb = DIV_ROUND_UP (block_bitmap_bit_len cnt) 4096"
  have bb: "unat bb = s" using unat_div_round_up [of "block_bitmap_bit_len cnt"] d(2) unat_bit_len [OF assms(1)] by (simp add: bb_def s_def bitmap_sects_def)
  have B: "b = \<lparr>magic = 0x19590318, sb_sec_cnt = cnt, inode_cnt = 4096, part_lba_base = start,
       block_bitmap_lba = start + 2, block_bitmap_sects = bb, inode_bitmap_lba = start + 2 + bb, inode_bitmap_sects = 1,
       inode_table_lba = start + 2 + bb + 1, inode_table_sects = 608, data_start_lba = start + 2 + bb + 1 + 608,
       root_inode_no = 0, dir_entry_size = 24\<rparr>" by (simp add: b_def format_sb_def Let_def round_up_consts bb_def)
  have s40: "s \<le> 40" using d(4) by (simp add: s_def)
  have u0: "unat (start + 2) = unat start + 2" using f unat_plus_small [of start 2] by simp
  have u: "unat (start + 2 + bb) = unat start + 2 + s" using bb f s40 u0 unat_plus_small [of "start + 2" bb] by simp
  have u1: "unat (start + 2 + bb + 1) = unat start + 3 + s" using f s40 u unat_plus_small [of "start + 2 + bb" 1] by simp
  have u2: "unat (start + 2 + bb + 1 + 608) = unat start + 611 + s" using f s40 u1 unat_plus_small [of "start + 2 + bb + 1" 608] by simp
  show "unat (block_bitmap_lba b) = unat start + 2" using u0 by (simp add: B)
  show "unat (block_bitmap_sects b) = s" "unat (inode_bitmap_lba b) = unat start + 2 + s" "inode_bitmap_sects b = 1"
    "unat (inode_table_lba b) = unat start + 3 + s" "inode_table_sects b = 608" "unat (data_start_lba b) = unat start + 611 + s"
    "dir_entry_size b = 24" "root_inode_no b = 0"
    using bb u u1 u2 by (simp_all only: B super_block.simps)
qed

section \<open>The bitmap of a new partition\<close>

lemma bit_clear_one: "bit ((x :: u8) AND NOT (push_bit m 1)) j \<longleftrightarrow> bit x j \<and> j \<noteq> m"
  using bit_imp_le_length [of x j] by (auto simp: bit_simps)

lemma bit_clear_low_bits: "bit (clear_low_bits n b) j \<longleftrightarrow> bit b j \<and> n < j"
proof -
  have "bit (fold (\<lambda>k b. b AND NOT (push_bit k 1)) [0..<m] b) j \<longleftrightarrow> bit b j \<and> m \<le> j" for m
  proof (induction m)
    case (Suc m)
    have "bit (fold (\<lambda>k b. b AND NOT (push_bit k 1)) [0..<Suc m] b) j \<longleftrightarrow> (bit b j \<and> m \<le> j) \<and> j \<noteq> m"
      unfolding upt_Suc_append [OF le0] fold_append comp_apply fold_simps bit_clear_one Suc ..
    then show ?case by (simp only: Suc_le_eq less_le) blast
  qed simp
  then show ?thesis unfolding clear_low_bits_def by (simp only: Suc_le_eq)
qed

lemma block_bitmap_image_ok:
  assumes n: "8 \<le> unat bl" and sz: "512 * (unat bl div 4096 + 1) \<le> size'"
  obtains buf where "block_bitmap_image size' bl = Inr buf" and "length buf = size'"
    and "\<And>k. k div 8 < 512 * (unat bl div 4096 + 1) \<Longrightarrow> bit (buf ! (k div 8)) (k mod 8) \<longleftrightarrow> k = 0 \<or> unat bl < k"
proof -
  define B where "B = unat bl"
  let ?lb = "B div 8" let ?ls = "512 - ?lb mod 512" let ?z = "(replicate size' (0 :: u8))[0 := 1]"
  have lb: "unat (bl div 8) = ?lb" "unat (bl mod 8) = B mod 8" by (simp_all add: unat_div unat_mod B_def)
  have end': "?lb + ?ls = 512 * (B div 4096 + 1)" 
  proof -
    have "B div 8 div 512 = B div 4096" by (simp flip: div_mult2_eq)
    moreover have r: "r < 512 \<Longrightarrow> 512 * q + r + (512 - r) = 512 * (q + 1)" for q r :: nat by simp
    have "?lb + ?ls = 512 * (?lb div 512 + 1)" using r [of "?lb mod 512" "?lb div 512"] by (simp only: mult_div_mod_eq mod_less_divisor zero_less_numeral simp_thms)
    ultimately show ?thesis by (simp only:)
  qed
  have le: "?lb + ?ls \<le> size'" using sz end' by (simp add: B_def)
  have lt: "?lb < size'" "0 < size'" "1 \<le> ?lb" using le n by (simp_all add: B_def)
  define buf0 where "buf0 = take ?lb ?z @ replicate ?ls 0xff @ drop (?lb + ?ls) ?z"
  have l0: "length buf0 = size'" using le by (simp add: buf0_def)
  have pa: "patch ?lb (replicate ?ls 0xff) ?z = Inr buf0" using le by (simp add: patch_def buf0_def)
  have "block_bitmap_image size' bl = Inr (buf0[?lb := clear_low_bits (B mod 8) (buf0 ! ?lb)])"
    using pa lt l0 by (simp add: block_bitmap_image_def Let_def lb)
  moreover have "bit (buf0[?lb := clear_low_bits (B mod 8) (buf0 ! ?lb)] ! (k div 8)) (k mod 8) \<longleftrightarrow> k = 0 \<or> B < k"
    if k: "k div 8 < 512 * (B div 4096 + 1)" for k
  proof -
    have m8: "k mod 8 < 8" by simp
    have "(0xff :: u8) = - 1" by simp
    then have ff: "bit (0xff :: u8) (k mod 8)" using m8 by (simp only: bit_minus_1_iff possible_bit_word) simp
    have b0: "buf0 ! (k div 8) = (if k div 8 < ?lb then ?z ! (k div 8) else 0xff)"
    proof (cases "k div 8 < ?lb")
      case False
      then have "k div 8 - ?lb < ?ls" using k end' by linarith
      then show ?thesis using False le lt(1) by (simp add: buf0_def nth_append min_def)
    qed (use le in \<open>simp add: buf0_def nth_append\<close>)
    consider "k div 8 < ?lb" | "k div 8 = ?lb" | "?lb < k div 8" by linarith
    then show ?thesis
    proof cases
      case 1
      then have "k < B" by linarith
      moreover have "bit (?z ! (k div 8)) (k mod 8) \<longleftrightarrow> k = 0"
        using 1 lt by (cases "k div 8 = 0") (auto simp: nth_list_update bit_1_iff)
      ultimately show ?thesis using 1 b0 by simp
    next
      case 2
      then have "B mod 8 < k mod 8 \<longleftrightarrow> B < k" by (metis div_mult_mod_eq nat_add_left_cancel_less)
      moreover have "k \<noteq> 0" using 2 lt by auto
      ultimately show ?thesis using 2 b0 l0 lt ff by (simp add: bit_clear_low_bits)
    next
      case 3
      then have "B < k" by linarith
      then show ?thesis using 3 b0 ff by simp
    qed
  qed
  ultimately show ?thesis using that l0 by (simp add: B_def)
qed

section \<open>Formatting and mounting\<close>

lemma disk_write_ok:
  assumes "drive_ok (hd_drive fs)" and "0 < unat n" and "unat lba + unat n \<le> Suc (unat max_lba)" and "512 * unat n \<le> length bs"
  obtains d where "disk_write dev lba bs n fs = Inr (fs\<lparr>hd_drive := d\<rparr>)" and "drive_ok d" and "dsecs d = written (hd_drive fs) lba (unat n) bs"
proof -
  obtain d where "ide_write dev lba bs (unat n) (hd_drive fs) = Inr d" "drive_ok d" "dsecs d = written (hd_drive fs) lba (unat n) bs"
    by (rule ide_write_ok [OF assms])
  then show ?thesis using that by (simp add: disk_write_def)
qed

lemma sectors_keep:
  assumes "dsecs d' = written d l m bs" and "unat lba + n < 2 ^ 32" and "unat lba + n \<le> unat l \<or> unat l + m \<le> unat lba"
  shows "sectors d' lba n = sectors d lba n"
proof -
  have "dsecs d' (lba + of_nat i) = dsecs d (lba + of_nat i)" if "i < n" for i
  proof -
    have "unat (lba + of_nat i) = unat lba + i" using that assms(2) by (simp add: unat_word_ariths unat_of_nat)
    then show ?thesis using that assms(3) by (auto simp: assms(1) written_def)
  qed
  then show ?thesis unfolding sectors_def by (intro arg_cong [of _ _ concat] map_cong) auto
qed

lemma dec_enc_sb: "dec_sb (enc_sb b pad) = b"
proof -
  have w: "rd32 (enc_sb b pad) (4 * k) = sb_words b ! k" if "k < 13" for k
    using rd32_concat [of k "sb_words b" "[]" pad] that by (simp add: enc_sb_def) (simp add: sb_words_def)
  show ?thesis
    using w [of 0] w [of 1] w [of 2] w [of 3] w [of 4] w [of 5] w [of 6] w [of 7] w [of 8] w [of 9] w [of 10] w [of 11] w [of 12]
    by (cases b) (simp add: dec_sb_def sb_words_def)
qed

text \<open>The five writes of \<^verbatim>\<open>partition_format\<close>, and what each region of the partition holds afterwards.\<close>

lemma partition_format_ok:
  assumes d0: "drive_ok (hd_drive fs)" and m: "mallocs fs = []" and fit: "fit start cnt" and pad: "length pad = 460"
  defines "b \<equiv> format_sb start cnt" and "s \<equiv> bitmap_sects (unat cnt)"
  obtains d bm where "partition_format pad dev start cnt fs = Inr (fs\<lparr>hd_drive := d\<rparr>)" and "drive_ok d"
    and "block_bitmap_image 311296 (block_bitmap_bit_len cnt) = Inr bm" and "length bm = 311296"
    and "sectors d (start + 1) 1 = enc_sb b pad" and "sectors d (block_bitmap_lba b) s = take (512 * s) bm"
    and "sectors d (inode_bitmap_lba b) 1 = (replicate 512 0)[0 := 1]"
    and "sectors d (inode_table_lba b) 608 = enc_inode (root_inode b) @ replicate 311220 0"
    and "sectors d (data_start_lba b) 1 = dot_entries 0 0"
    and "\<And>a. unat a \<le> unat start \<or> unat start + unat cnt \<le> unat a \<Longrightarrow> dsecs d a = dsecs (hd_drive fs) a"
proof -
  note f = fit_bounds [OF fit] and l = format_layout [OF fit, folded b_def s_def]
  note db = data_blocks_bounds [OF f(1,2), folded s_def]
  have sb1: "unat (start + 1) = unat start + 1" using f unat_plus_small [of start 1] by simp
  have sz: "unat (max (max (block_bitmap_sects b) (inode_bitmap_sects b)) (inode_table_sects b) * 512) = 311296"
  proof -
    have "block_bitmap_sects b \<le> 608" using l(2) db(4) by (simp add: word_le_nat_alt)
    then have "max (max (block_bitmap_sects b) (inode_bitmap_sects b)) (inode_table_sects b) = 608" by (simp add: l(4,6) max_def)
    then show ?thesis by simp
  qed
  have bl: "8 \<le> unat (block_bitmap_bit_len cnt)" "512 * (unat (block_bitmap_bit_len cnt) div 4096 + 1) \<le> 311296"
    using unat_bit_len [OF fit] db(1,2) by auto
  obtain bm where bm: "block_bitmap_image 311296 (block_bitmap_bit_len cnt) = Inr bm" "length bm = 311296"
    by (rule block_bitmap_image_ok [OF bl])
  have ls: "length (enc_sb b pad) = 512" using pad by (simp add: enc_sb_def concat_le32_length sb_words_def)
  let ?i = "enc_inode (root_inode b) @ replicate 311220 0" let ?ib = "(replicate 311296 (0 :: u8))[0 := 1]" let ?r = "dot_entries 0 0 @ replicate 310784 0"
  have wi: "length (enc_inode (root_inode b)) = 76" using enc_inode_length [of "root_inode b"] by (simp add: wf_inode_def root_inode_def INODE_SIZE_def)
  have ld: "length (dot_entries 0 0) = 512" by (simp add: dot_entries_def dir_entry_def)
  have p1: "set_byte_at (replicate 311296 0) 0 1 = Inr ?ib" by (simp add: set_byte_at_def)
  have p2: "patch 0 (enc_inode (root_inode b)) (replicate 311296 0) = Inr ?i" using wi by (simp add: patch_def)
  have p3: "patch 0 (dot_entries 0 0) (replicate 311296 0) = Inr ?r" using ld by (simp add: patch_def)
  obtain d1 where d1: "disk_write dev (start + 1) (enc_sb b pad) 1 fs = Inr (fs\<lparr>hd_drive := d1\<rparr>)" "drive_ok d1"
    "dsecs d1 = written (hd_drive fs) (start + 1) 1 (enc_sb b pad)"
    using disk_write_ok [OF d0, of 1 "start + 1" "enc_sb b pad" dev] sb1 f ls by (auto simp: max_lba_nat)
  obtain d2 where d2: "disk_write dev (block_bitmap_lba b) bm (block_bitmap_sects b) (fs\<lparr>hd_drive := d1\<rparr>) = Inr (fs\<lparr>hd_drive := d2\<rparr>)" "drive_ok d2"
    "dsecs d2 = written d1 (block_bitmap_lba b) s bm"
    using disk_write_ok [of "fs\<lparr>hd_drive := d1\<rparr>" "block_bitmap_sects b" "block_bitmap_lba b" bm dev] l(1,2) f db d1(2) bm(2) by (auto simp: max_lba_nat)
  obtain d3 where d3: "disk_write dev (inode_bitmap_lba b) ?ib (inode_bitmap_sects b) (fs\<lparr>hd_drive := d2\<rparr>) = Inr (fs\<lparr>hd_drive := d3\<rparr>)" "drive_ok d3"
    "dsecs d3 = written d2 (inode_bitmap_lba b) 1 ?ib"
    using disk_write_ok [of "fs\<lparr>hd_drive := d2\<rparr>" "inode_bitmap_sects b" "inode_bitmap_lba b" ?ib dev] l(3,4) f db d2(2) by (auto simp: max_lba_nat)
  obtain d4 where d4: "disk_write dev (inode_table_lba b) ?i (inode_table_sects b) (fs\<lparr>hd_drive := d3\<rparr>) = Inr (fs\<lparr>hd_drive := d4\<rparr>)" "drive_ok d4"
    "dsecs d4 = written d3 (inode_table_lba b) 608 ?i"
    using disk_write_ok [of "fs\<lparr>hd_drive := d3\<rparr>" "inode_table_sects b" "inode_table_lba b" ?i dev] l(5,6) f db d3(2) wi by (auto simp: max_lba_nat)
  obtain d5 where d5: "disk_write dev (data_start_lba b) ?r 1 (fs\<lparr>hd_drive := d4\<rparr>) = Inr (fs\<lparr>hd_drive := d5\<rparr>)" "drive_ok d5"
    "dsecs d5 = written d4 (data_start_lba b) 1 ?r"
    using disk_write_ok [of "fs\<lparr>hd_drive := d4\<rparr>" 1 "data_start_lba b" ?r dev] l(7) f db d4(2) ld by (auto simp: max_lba_nat)
  show ?thesis
  proof (rule that [of d5 bm])
    show "partition_format pad dev start cnt fs = Inr (fs\<lparr>hd_drive := d5\<rparr>)"
      using d1(1) d2(1) d3(1) d4(1) d5(1) bm(1) p1 p2 p3 m
      by (simp add: partition_format_def Let_def sys_malloc_ok_def b_def [symmetric] sz)
    have k: "sectors d5 lba n = sectors d1 lba n" if "unat lba + n \<le> unat start + 2" for lba n
      using that l f db sectors_keep [OF d2(3)] sectors_keep [OF d3(3)] sectors_keep [OF d4(3)] sectors_keep [OF d5(3)] by simp
    show "sectors d5 (start + 1) 1 = enc_sb b pad"
      using k [of "start + 1" 1] sb1 f sectors_written [OF _ _ d1(3)] ls by simp
    show "sectors d5 (block_bitmap_lba b) s = take (512 * s) bm"
      using l f db sectors_keep [OF d3(3)] sectors_keep [OF d4(3)] sectors_keep [OF d5(3)] sectors_written [OF _ _ d2(3)] bm(2) by simp
    show "sectors d5 (inode_bitmap_lba b) 1 = (replicate 512 0)[0 := 1]"
      using l f db sectors_keep [OF d4(3), of "inode_bitmap_lba b" 1] sectors_keep [OF d5(3), of "inode_bitmap_lba b" 1] sectors_written [OF _ _ d3(3)]
      by (simp add: take_update_swap)
    show "sectors d5 (inode_table_lba b) 608 = ?i"
      using l f db sectors_keep [OF d5(3)] sectors_written [OF _ _ d4(3)] wi by simp
    show "sectors d5 (data_start_lba b) 1 = dot_entries 0 0"
      using l f db sectors_written [OF _ _ d5(3)] ld by simp
    show "dsecs d5 a = dsecs (hd_drive fs) a" if "unat a \<le> unat start \<or> unat start + unat cnt \<le> unat a" for a
      using that l sb1 f db by (auto simp: d5(3) d4(3) d3(3) d2(3) d1(3) written_def)
  qed (fact d5(2) bm)+
qed

lemma mounted_ok:
  assumes d0: "drive_ok (hd_drive fs)" and m: "mallocs fs = []" and fit: "fit start cnt" and pad: "length pad = 460"
  obtains d p where "partition_format pad dev start cnt fs = Inr (fs\<lparr>hd_drive := d\<rparr>)"
    and "mount_partition dev start cnt (fs\<lparr>hd_drive := d\<rparr>) = Inr (fs\<lparr>hd_drive := d, cur_part := p\<rparr>)"
    and "wf_fs (fs\<lparr>hd_drive := d, cur_part := p\<rparr>)" and "sb p = format_sb start cnt"
    and "disk_inode (fs\<lparr>hd_drive := d, cur_part := p\<rparr>) 0 = root_inode (sb p)" and "dsecs d (data_start_lba (sb p)) = dot_entries 0 0"
    and "bm_cap (block_bitmap p) = 4096 * bitmap_sects (unat cnt)"
    and "\<And>k. k < bm_cap (block_bitmap p) \<Longrightarrow> bm_bit (block_bitmap p) k \<longleftrightarrow> k = 0 \<or> data_blocks (unat cnt) < k"
    and "\<And>k. k < 4096 \<Longrightarrow> bm_bit (inode_bitmap p) k \<longleftrightarrow> k = 0"
    and "\<And>a. unat a \<le> unat start \<or> unat start + unat cnt \<le> unat a \<Longrightarrow> dsecs d a = dsecs (hd_drive fs) a"
proof -
  define b s where "b = format_sb start cnt" and "s = bitmap_sects (unat cnt)"
  note f = fit_bounds [OF fit] and l = format_layout [OF fit, folded b_def s_def]
  note db = data_blocks_bounds [OF f(1,2), folded s_def]
  obtain d bm where F: "partition_format pad dev start cnt fs = Inr (fs\<lparr>hd_drive := d\<rparr>)" "drive_ok d"
    "block_bitmap_image 311296 (block_bitmap_bit_len cnt) = Inr bm" "length bm = 311296"
    "sectors d (start + 1) 1 = enc_sb b pad" "sectors d (block_bitmap_lba b) s = take (512 * s) bm"
    "sectors d (inode_bitmap_lba b) 1 = (replicate 512 0)[0 := 1]"
    "sectors d (inode_table_lba b) 608 = enc_inode (root_inode b) @ replicate 311220 0" "sectors d (data_start_lba b) 1 = dot_entries 0 0"
    "\<And>a. unat a \<le> unat start \<or> unat start + unat cnt \<le> unat a \<Longrightarrow> dsecs d a = dsecs (hd_drive fs) a"
    by (rule partition_format_ok [OF d0 m fit pad, of dev, folded b_def s_def]) blast
  let ?p = "\<lparr>start_lba = start, sec_cnt = cnt, part_dev = dev, sb = b, block_bitmap = \<lparr>btmp_bytes_len = 512 * s, bits = take (512 * s) bm\<rparr>,
     inode_bitmap = \<lparr>btmp_bytes_len = 512, bits = (replicate 512 0)[0 := 1]\<rparr>, open_inodes = []\<rparr>"
  have sb1: "unat (start + 1) = unat start + 1" using f unat_plus_small [of start 1] by simp
  have r1: "ide_read dev (start + 1) 1 d = Inr (enc_sb b pad)" using ide_read_eq [OF F(2), of 1 "start + 1" dev] F(5) sb1 f by (simp add: max_lba_nat)
  have r2: "ide_read dev (block_bitmap_lba b) s d = Inr (take (512 * s) bm)" using ide_read_eq [OF F(2), of s "block_bitmap_lba b" dev] F(6) l f db by (simp add: max_lba_nat)
  have r3: "ide_read dev (inode_bitmap_lba b) 1 d = Inr ((replicate 512 0)[0 := 1])" using ide_read_eq [OF F(2), of 1 "inode_bitmap_lba b" dev] F(7) l f db by (simp add: max_lba_nat)
  have b512: "unat (block_bitmap_sects b * 512) = 512 * s" using l(2) db(4) by (simp add: unat_word_ariths)
  have mnt: "mount_partition dev start cnt (fs\<lparr>hd_drive := d\<rparr>) = Inr (fs\<lparr>hd_drive := d, cur_part := ?p\<rparr>)"
    using m r1 r2 r3 by (simp add: mount_partition_def sys_malloc_ok_def Let_def dec_enc_sb l(2,4) b512)
  have cap: "bm_cap (block_bitmap ?p) = 4096 * s" by (simp add: bm_cap_def)
  have bl: "8 \<le> unat (block_bitmap_bit_len cnt)" "512 * (unat (block_bitmap_bit_len cnt) div 4096 + 1) \<le> 311296"
    using unat_bit_len [OF fit] db(1,2) by auto
  have bit: "bm_bit (block_bitmap ?p) k \<longleftrightarrow> k = 0 \<or> data_blocks (unat cnt) < k" if k: "k < bm_cap (block_bitmap ?p)" for k
  proof -
    have k8: "k div 8 < 512 * s" using k cap by auto
    moreover have "s \<le> data_blocks (unat cnt) div 4096 + 1" by (simp add: s_def bitmap_sects_def)
    ultimately have "k div 8 < 512 * (unat (block_bitmap_bit_len cnt) div 4096 + 1)" using unat_bit_len [OF fit] by simp
    then have "bit (bm ! (k div 8)) (k mod 8) \<longleftrightarrow> k = 0 \<or> data_blocks (unat cnt) < k"
      using block_bitmap_image_ok [OF bl] F(3) unat_bit_len [OF fit] by (metis Inr_inject)
    then show ?thesis using k8 by (simp add: bm_bit_def)
  qed
  have ibit: "bm_bit (inode_bitmap ?p) k \<longleftrightarrow> k = 0" if "k < 4096" for k
    using that by (cases "k div 8 = 0") (auto simp: bm_bit_def nth_list_update bit_1_iff)
  have "wf_disk (fs\<lparr>hd_drive := d, cur_part := ?p\<rparr>)"
    using F(2) l f db unat_plus_small [of start cnt] by (simp add: wf_disk_def max_lba_nat)
  moreover have "unat (data_start_lba b) + k \<le> unat max_lba" if "k < 4096 * s" "\<not> bm_bit (block_bitmap ?p) k" for k
    using that bit [of k] l(7) f db(6) cap by (simp add: max_lba_nat)
  moreover have "bm_bit (block_bitmap ?p) 0" using bit [of 0] cap db by simp
  ultimately have "wf_fs (fs\<lparr>hd_drive := d, cur_part := ?p\<rparr>)"
    using l db F(4) cap by (simp add: wf_fs_def wf_bitmap_def)
  moreover have "disk_inode (fs\<lparr>hd_drive := d, cur_part := ?p\<rparr>) 0 = root_inode b"
  proof -
    have w: "wf_inode (root_inode b)" by (simp add: wf_inode_def root_inode_def)
    show ?thesis using dec_enc_inode [OF w, of "[]"] enc_inode_length [OF w] F(8) by (simp add: disk_inode_def table_bytes_def INODE_SIZE_def)
  qed
  ultimately show ?thesis
    using that [of d ?p] F(1,9,10) mnt cap bit ibit by (simp add: b_def [symmetric] s_def [symmetric])
qed

section \<open>Properties\<close>


text \<open>
  The loop that clears the valid bits of the last bitmap byte clears one too many: unless the number of data
  blocks is a multiple of 4096, the bit after the last block is free in the new bitmap, and when the
  block bitmap did not shrink in the second rounding that bit stands for the first sector behind the
  partition.
\<close>

theorem format_frees_sector_behind_partition:
  assumes "drive_ok (hd_drive fs)" and "mallocs fs = []" and "fit start cnt" and "length pad = 460"
    and "data_blocks (unat cnt) mod 4096 \<noteq> 0" and "bitmap_sects (unat cnt) = (unat cnt - 611 + 4095) div 4096"
  shows "\<exists>fs1 fs2. partition_format pad dev start cnt fs = Inr fs1 \<and> mount_partition dev start cnt fs1 = Inr fs2 \<and>
     data_blocks (unat cnt) \<in> bm.free_bits (block_bitmap (cur_part fs2)) \<and>
     unat (data_start_lba (fsb fs2)) + data_blocks (unat cnt) = unat start + unat cnt"
proof (rule mounted_ok [OF assms(1-4), of dev])
  note f = fit_bounds [OF assms(3)] and db = data_blocks_bounds [OF fit_bounds(1,2) [OF assms(3)]]
  fix d p
  assume a: "partition_format pad dev start cnt fs = Inr (fs\<lparr>hd_drive := d\<rparr>)"
    "mount_partition dev start cnt (fs\<lparr>hd_drive := d\<rparr>) = Inr (fs\<lparr>hd_drive := d, cur_part := p\<rparr>)" "sb p = format_sb start cnt"
    "bm_cap (block_bitmap p) = 4096 * bitmap_sects (unat cnt)"
    "\<And>k. k < bm_cap (block_bitmap p) \<Longrightarrow> bm_bit (block_bitmap p) k \<longleftrightarrow> k = 0 \<or> data_blocks (unat cnt) < k"
  have "data_blocks (unat cnt) \<noteq> 4096 * bitmap_sects (unat cnt)" using assms(5) by auto
  then have "data_blocks (unat cnt) < 4096 * bitmap_sects (unat cnt)" using db(5) by linarith
  then have "data_blocks (unat cnt) \<in> bm.free_bits (block_bitmap p)" using a(4,5) db(1) by (simp add: bm.free_bits_def)
  moreover have "611 + bitmap_sects (unat cnt) + data_blocks (unat cnt) = unat cnt" unfolding assms(6) data_blocks_def using f by linarith
  ultimately show ?thesis using a(1-3) format_layout(7) [OF assms(3)]
    by (intro exI [of _ "fs\<lparr>hd_drive := d\<rparr>"] exI [of _ "fs\<lparr>hd_drive := d, cur_part := p\<rparr>"]) simp
qed


theorem format_frees_sector_behind_partition_witness:
  "\<exists>fs1 fs2. partition_format (replicate 460 7) 1 2048 20000 sample_fs = Inr fs1 \<and> mount_partition 1 2048 20000 fs1 = Inr fs2 \<and>
     19384 \<in> bm.free_bits (block_bitmap (cur_part fs2)) \<and> unat (data_start_lba (fsb fs2)) + 19384 = 22048"
  using format_frees_sector_behind_partition [of sample_fs 2048 20000 "replicate 460 7" 1] sample_drive_ok
  by (auto simp: sample_fs_def fit_def max_lba_nat data_blocks_def bitmap_sects_def)

end
