(* ===== verification/Dir_Props.thy ===== *)
theory Dir_Props
  imports Dir File_Rw
begin

text \<open>
  A directory as the list of its entries, and that searching and adding an entry implement lookup and
  insertion on that list.
\<close>

section \<open>Entries of a directory\<close>

definition slot :: "u8 list \<Rightarrow> nat \<Rightarrow> u8 list" where
  "slot buf k = take 24 (drop (24 * k) buf)"

definition slots :: "u8 list \<Rightarrow> u8 list list" where
  "slots buf = map (slot buf) [0..<21]"

definition entries_of :: "drive \<Rightarrow> u32 list \<Rightarrow> u8 list list" where
  "entries_of d as = concat (map (\<lambda>a. slots (dsecs d a)) (filter (\<lambda>a. a \<noteq> 0) as))"

definition dir_entries :: "fsys \<Rightarrow> inode \<Rightarrow> u8 list list" where
  "dir_entries fs i = entries_of (hd_drive fs) (take 12 (i_sectors i))"

definition named :: "u8 list \<Rightarrow> u8 list \<Rightarrow> bool" where
  "named nm e \<longleftrightarrow> take (Suc (length nm)) e = nm @ [0]"

definition free_slot :: "u8 list \<Rightarrow> bool" where
  "free_slot e \<longleftrightarrow> de_f_type e = FT_UNKNOWN"

text \<open>A directory with direct blocks only; unused slots have an empty name, and the size counts the used ones.\<close>

definition dir_ok :: "fsys \<Rightarrow> inode \<Rightarrow> bool" where
  "dir_ok fs i \<longleftrightarrow> length (i_sectors i) = 13 \<and> i_sectors i ! 12 = 0 \<and> dir_entry_size (fsb fs) = 24 \<and>
     distinct (filter (\<lambda>a. a \<noteq> 0) (take 12 (i_sectors i))) \<and>
     (\<forall>a \<in> set (take 12 (i_sectors i)). a \<noteq> 0 \<longrightarrow> blk_bit fs a \<and> a \<le> max_lba) \<and>
     (\<forall>e \<in> set (dir_entries fs i). free_slot e \<longrightarrow> hd e = 0) \<and>
     i_size i = of_nat (24 * length (filter (\<lambda>e. \<not> free_slot e) (dir_entries fs i)))"

lemma dir_okD:
  assumes "dir_ok fs i"
  shows "length (i_sectors i) = 13" "i_sectors i ! 12 = 0" "dir_entry_size (fsb fs) = 24" "distinct (filter (\<lambda>a. a \<noteq> 0) (take 12 (i_sectors i)))"
    "\<And>a. a \<in> set (take 12 (i_sectors i)) \<Longrightarrow> a \<noteq> 0 \<Longrightarrow> blk_bit fs a \<and> a \<le> max_lba"
    "\<And>e. e \<in> set (dir_entries fs i) \<Longrightarrow> free_slot e \<Longrightarrow> hd e = 0"
    "i_size i = of_nat (24 * length (filter (\<lambda>e. \<not> free_slot e) (dir_entries fs i)))"
  using assms unfolding dir_ok_def by blast+

lemma entries_of_simps [simp]:
  "entries_of d [] = []" "entries_of d (as @ bs) = entries_of d as @ entries_of d bs"
  "entries_of d (a # as) = (if a = 0 then entries_of d as else slots (dsecs d a) @ entries_of d as)"
  by (simp_all add: entries_of_def)

lemma entries_of_cong: "(\<And>a. a \<in> set as \<Longrightarrow> a \<noteq> 0 \<Longrightarrow> dsecs d' a = dsecs d a) \<Longrightarrow> entries_of d' as = entries_of d as"
  by (induction as) auto

lemma slots_length [simp]: "length (slots buf) = 21"
  by (simp add: slots_def)

lemma slots_patch:
  assumes "length buf = 512" and "length e = 24" and "k < 21"
  shows "slots (take (24 * k) buf @ e @ drop (24 * k + 24) buf) = (slots buf)[k := e]"
proof (rule nth_equalityI)
  fix j assume "j < length (slots (take (24 * k) buf @ e @ drop (24 * k + 24) buf))"
  then have j: "j < 21" by simp
  then show "slots (take (24 * k) buf @ e @ drop (24 * k + 24) buf) ! j = (slots buf)[k := e] ! j"
    using slot_patch [OF assms(2), of k buf j] assms by (simp add: slots_def slot_def nth_list_update)
qed simp

lemma slots_new:
  assumes "length e = 24"
  shows "slots (e @ replicate 488 0) = e # replicate 20 (replicate 24 0)"
proof -
  have "e @ replicate 488 0 = take (24 * 0) (replicate 512 0) @ e @ drop (24 * 0 + 24) (replicate 512 0)" by simp
  then have "slots (e @ replicate 488 0) = (slots (replicate 512 0))[0 := e]" using slots_patch [of "replicate 512 0" e 0] assms by simp
  moreover have "slots (replicate 512 0) = replicate 21 (replicate 24 0)"
    by (rule nth_equalityI) (simp_all add: slots_def slot_def)
  ultimately show ?thesis by (simp add: numeral_eq_Suc)
qed

section \<open>Searching\<close>

lemma strcmp_named:
  assumes "0 \<notin> set nm" and "length nm < length e"
  shows "\<exists>c. strcmp (Some e) (Some (nm @ 0 # r)) = Inr c \<and> (c = 0 \<longleftrightarrow> named nm e)"
proof -
  have "\<exists>c. strcmp_loop e (nm @ 0 # r) = Inr c \<and> (c = 0 \<longleftrightarrow> take (Suc (length nm)) e = nm @ [0])"
    using assms
  proof (induction nm arbitrary: e)
    case Nil
    then show ?case using sint_neq_iff [of "hd e" 0] by (cases e) auto
  next
    case (Cons n nm)
    then obtain x xs where e: "e = x # xs" by (cases e) auto
    show ?case
    proof (cases "x = n")
      case True
      then show ?thesis using Cons.IH [of xs] Cons.prems e by auto
    next
      case False
      then show ?thesis using e sint_neq_iff [of x n] by auto
    qed
  qed
  then show ?thesis by (simp add: strcmp_def named_def)
qed

lemma named_slot: "length nm < 24 \<Longrightarrow> named nm (drop (24 * k) buf) \<longleftrightarrow> named nm (slot buf k)"
  by (simp add: named_def slot_def min_def)

lemma search_sector_eq:
  assumes "length buf = 512" and "0 \<notin> set nm" and "length nm < 24" and "k \<le> 21"
  shows "search_sector buf (nm @ 0 # r) k 21 = Inr (map_option (\<lambda>k. drop (24 * k) buf) (find (\<lambda>k. named nm (slot buf k)) [k..<21]))"
  using assms(4)
proof (induction "21 - k" arbitrary: k)
  case 0
  then show ?case by (simp add: search_sector.simps)
next
  case (Suc n)
  have k: "k < 21" using Suc.hyps(2) by simp
  have ln: "length nm < length (drop (24 * k) buf)" using assms(1,3) k unfolding length_drop by linarith
  obtain c where c: "strcmp (Some (drop (24 * k) buf)) (Some (nm @ 0 # r)) = Inr c" "c = 0 \<longleftrightarrow> named nm (slot buf k)"
    using strcmp_named [OF assms(2) ln, of r] named_slot [OF assms(3)] by auto
  have "de_at buf k = Inr (drop (24 * k) buf)" using assms(1) k by (simp add: de_at_def)
  moreover have "search_sector buf (nm @ 0 # r) (Suc k) 21 = Inr (map_option (\<lambda>k. drop (24 * k) buf) (find (\<lambda>k. named nm (slot buf k)) [Suc k..<21]))"
    using Suc.hyps k by simp
  ultimately show ?case using c k upt_conv_Cons [OF k] by (simp add: search_sector.simps [of buf _ k])
qed

lemma find_map_Some: "find P (map f xs) = map_option f (find (P \<circ> f) xs)"
  by (induction xs) auto

lemma find_append: "find P (xs @ ys) = (case find P xs of None \<Rightarrow> find P ys | Some x \<Rightarrow> Some x)"
  by (induction xs) auto

lemma search_blocks_eq:
  assumes "wf_fs fs" and "0 \<notin> set nm" and "length nm < 24" and "\<forall>a \<in> set as. a \<noteq> 0 \<longrightarrow> a \<le> max_lba"
  shows "\<exists>res. search_blocks (nm @ 0 # r) 21 as fs = Inr res \<and> map_option (take 24) res = find (named nm) (entries_of (hd_drive fs) as)"
  using assms(4)
proof (induction as)
  case (Cons a as)
  show ?case
  proof (cases "a = 0")
    case True
    then show ?thesis using Cons by simp
  next
    case False
    let ?b = "dsecs (hd_drive fs) a"
    have l: "length ?b = 512" using wf_fsD(9) [OF assms(1)] by (simp add: drive_ok_def)
    have rd: "fs_read a 1 fs = Inr ?b" using fs_read_1 [OF assms(1)] Cons.prems False by simp
    have ss: "search_sector ?b (nm @ 0 # r) 0 21 = Inr (map_option (\<lambda>k. drop (24 * k) ?b) (find (\<lambda>k. named nm (slot ?b k)) [0..<21]))"
      by (rule search_sector_eq [OF l assms(2,3)]) simp
    have fs': "find (named nm) (slots ?b) = map_option (slot ?b) (find (\<lambda>k. named nm (slot ?b k)) [0..<21])"
      by (simp add: slots_def find_map_Some comp_def)
    obtain res where "search_blocks (nm @ 0 # r) 21 as fs = Inr res" "map_option (take 24) res = find (named nm) (entries_of (hd_drive fs) as)"
      using Cons by auto
    then show ?thesis using False rd ss fs'
      by (cases "find (\<lambda>k. named nm (slot ?b k)) [0..<21]") (auto simp: find_append slot_def)
  qed
qed simp

text \<open>Searching is lookup in the list of entries.\<close>

lemma search_dir_entry_eq:
  assumes "wf_fs fs" and "dir_node p fs = Inr i" and "dir_ok fs i" and "mallocs fs = []" and "0 \<notin> set nm" and "length nm < 16" and "length dir_e = 24"
  shows "search_dir_entry p (nm @ 0 # r) dir_e fs = Inr (case find (named nm) (dir_entries fs i) of
     None \<Rightarrow> (False, dir_e, fs) | Some e \<Rightarrow> (True, e, fs))"
proof -
  note o = dir_okD [OF assms(3)]
  let ?as = "take 12 (i_sectors i) @ replicate 128 0"
  have mx: "\<forall>a \<in> set ?as. a \<noteq> 0 \<longrightarrow> a \<le> max_lba" using o(5) by auto
  have z: "entries_of d (replicate n 0) = []" for d n by (induction n) auto
  have l24: "length nm < 24" using assms(6) by simp
  obtain res where res: "search_blocks (nm @ 0 # r) 21 ?as fs = Inr res" "map_option (take 24) res = find (named nm) (entries_of (hd_drive fs) ?as)"
    using search_blocks_eq [OF assms(1,5) l24 mx] by blast
  have en: "entries_of (hd_drive fs) ?as = dir_entries fs i" by (simp add: dir_entries_def z)
  have sl: "length e = 24" if "e \<in> set (dir_entries fs i)" for e
  proof -
    have "e \<in> set (slots buf) \<Longrightarrow> length buf = 512 \<Longrightarrow> length e = 24" for buf by (auto simp: slots_def slot_def)
    then show ?thesis using that wf_fsD(9) [OF assms(1)] by (auto simp: dir_entries_def entries_of_def drive_ok_def)
  qed
  show ?thesis
  proof (cases res)
    case None
    then show ?thesis using assms(2,4) o(2,3) res en by (simp add: search_dir_entry_def dir_blocks_def sys_malloc_ok_def dirents_per_sec_def)
  next
    case (Some x)
    then have f: "find (named nm) (dir_entries fs i) = Some (take 24 x)" using res(2) en by simp
    then have "take 24 x \<in> set (dir_entries fs i)" by (auto simp: find_Some_iff)
    then have "24 \<le> length x" using sl [of "take 24 x"] by simp
    then show ?thesis using Some assms(2,4,7) o(2,3) res(1) f
      by (simp add: search_dir_entry_def dir_blocks_def sys_malloc_ok_def dirents_per_sec_def copy_de_def patch_def)
  qed
qed

section \<open>Adding an entry\<close>

lemma free_slot_drop: "de_f_type (drop (24 * k) buf) = FT_UNKNOWN \<longleftrightarrow> free_slot (slot buf k)"
  by (simp add: de_f_type_def free_slot_def slot_def rd32_take)

lemma free_entry_eq:
  assumes "length buf = 512" and "k \<le> 21"
  shows "free_entry buf k 21 = Inr (find (\<lambda>k. free_slot (slot buf k)) [k..<21])"
  using assms(2)
proof (induction "21 - k" arbitrary: k)
  case 0
  then show ?case by (simp add: free_entry.simps)
next
  case (Suc n)
  have k: "k < 21" using Suc.hyps(2) by simp
  then have "de_at buf k = Inr (drop (24 * k) buf)" using assms(1) by (simp add: de_at_def)
  moreover have "free_entry buf (Suc k) 21 = Inr (find (\<lambda>k. free_slot (slot buf k)) [Suc k..<21])" using Suc.hyps k by simp
  ultimately show ?case using k upt_conv_Cons [OF k] by (simp add: free_entry.simps [of buf k] free_slot_drop)
qed

text \<open>The list of entries after an insertion: the new entry replaces a free slot, or begins a new block.\<close>

definition inserted :: "u8 list \<Rightarrow> u8 list list \<Rightarrow> u8 list list \<Rightarrow> bool" where
  "inserted e xs xs' \<longleftrightarrow> (\<exists>us ws zs vs. xs = us @ ws @ vs \<and> xs' = us @ e # zs @ vs \<and>
     (\<forall>w \<in> set ws. free_slot w) \<and> (\<forall>z \<in> set zs. free_slot z \<and> hd z = 0))"

lemma insertedI: "xs = us @ ws @ vs \<Longrightarrow> xs' = us @ e # zs @ vs \<Longrightarrow> \<forall>w \<in> set ws. free_slot w \<Longrightarrow> \<forall>z \<in> set zs. free_slot z \<and> hd z = 0 \<Longrightarrow> inserted e xs xs'"
  by (auto simp: inserted_def)

lemma inserted_live:
  assumes "inserted e xs xs'" and "\<not> free_slot e"
  shows "length (filter (\<lambda>e. \<not> free_slot e) xs') = Suc (length (filter (\<lambda>e. \<not> free_slot e) xs))"
  using assms by (auto simp: inserted_def filter_False)

lemma inserted_find:
  assumes "inserted e xs xs'" and "\<forall>x \<in> set xs. free_slot x \<longrightarrow> hd x = 0" and "nm \<noteq> []" and "0 \<notin> set nm" and "\<And>x. x \<in> set xs' \<Longrightarrow> x \<noteq> []"
    and "\<And>x. x \<in> set xs \<Longrightarrow> x \<noteq> []"
  shows "\<not> named nm e \<Longrightarrow> find (named nm) xs' = find (named nm) xs"
    and "named nm e \<Longrightarrow> find (named nm) xs = None \<Longrightarrow> find (named nm) xs' = Some e"
proof -
  obtain us ws zs vs where x: "xs = us @ ws @ vs" "xs' = us @ e # zs @ vs" "\<forall>w \<in> set ws. free_slot w" "\<forall>z \<in> set zs. free_slot z \<and> hd z = 0"
    using assms(1) by (auto simp: inserted_def)
  have nn: "\<not> named nm y" if "hd y = 0" "y \<noteq> []" for y
    using that assms(3,4) by (cases y; cases nm) (auto simp: named_def)
  have "find (named nm) ws = None" using nn x assms(2,6) by (auto simp: find_None_iff)
  moreover have "find (named nm) zs = None" using nn x assms(5) by (auto simp: find_None_iff)
  ultimately show "\<not> named nm e \<Longrightarrow> find (named nm) xs' = find (named nm) xs"
    and "named nm e \<Longrightarrow> find (named nm) xs = None \<Longrightarrow> find (named nm) xs' = Some e"
    by (auto simp: x find_append split: option.splits)
qed

definition dir_put :: "fsys \<Rightarrow> inode \<Rightarrow> u8 list \<Rightarrow> fsys \<Rightarrow> inode \<Rightarrow> bool" where
  "dir_put fs i e fs' i' \<longleftrightarrow> wf_fs fs' \<and> fs_rest fs fs' \<and> length (i_sectors i') = 13 \<and> i_sectors i' ! 12 = 0 \<and> i_size i' = i_size i + 24 \<and>
     distinct (filter (\<lambda>a. a \<noteq> 0) (take 12 (i_sectors i'))) \<and>
     (\<forall>a \<in> set (take 12 (i_sectors i')). a \<noteq> 0 \<longrightarrow> blk_bit fs' a \<and> a \<le> max_lba) \<and>
     (\<forall>a. blk_bit fs a \<longrightarrow> blk_bit fs' a) \<and>
     (\<forall>a. blk_bit fs a \<and> a \<notin> set (take 12 (i_sectors i)) \<longrightarrow> dsecs (hd_drive fs') a = dsecs (hd_drive fs) a) \<and>
     inserted e (dir_entries fs i) (dir_entries fs' i')"

lemma grow_dir_inode: "the_inode r fs = Inr i \<Longrightarrow> the_inode r (grow_dir r fs) = Inr (i\<lparr>i_size := i_size i + dir_entry_size (fsb fs)\<rparr>)"
  unfolding grow_dir_def by (rule the_inode_upd) simp_all

text \<open>The entry goes into a block that the directory has.\<close>

lemma put_old:
  assumes wf: "wf_fs fs" and ti: "the_inode r fs = Inr i" and ok: "dir_ok fs i" and e: "length e = 24"
    and j: "j < 12" "i_sectors i ! j = a" "a \<noteq> 0" and k: "find (\<lambda>k. free_slot (slot (dsecs (hd_drive fs) a) k)) [0..<21] = Some k"
  shows "\<exists>fs' i'. sync_blocks r e 21 j (take 12 (i_sectors i) @ replicate 128 0) fs = Inr (True, fs') \<and> the_inode r fs' = Inr i' \<and> dir_put fs i e fs' i'"
proof -
  note o = dir_okD [OF ok]
  let ?as = "take 12 (i_sectors i)" let ?b = "dsecs (hd_drive fs) a"
  have aj: "(?as @ replicate 128 0) ! j = a" "?as ! j = a" using j o(1) by (simp_all add: nth_append)
  have am: "a \<in> set ?as" using aj(2) j(1) o(1) nth_mem [of j ?as] by simp
  have mx: "a \<le> max_lba" using o(5) [OF am j(3)] by simp
  have lb: "length ?b = 512" using wf_fsD(9) [OF wf] by (simp add: drive_ok_def)
  have k21: "k < 21" "free_slot (slot ?b k)" using k by (auto simp: find_Some_iff)
  let ?b' = "take (24 * k) ?b @ e @ drop (24 * k + 24) ?b"
  have lb': "length ?b' = 512" using lb e k21 by simp
  obtain d where d: "fs_write a ?b' 1 fs = Inr (fs\<lparr>hd_drive := d\<rparr>)" "dsecs d = (dsecs (hd_drive fs))(a := ?b')" "wf_fs (fs\<lparr>hd_drive := d\<rparr>)"
    using fs_write_1 [OF wf mx lb'] by metis
  let ?F = "grow_dir r (fs\<lparr>hd_drive := d\<rparr>)" let ?i = "i\<lparr>i_size := i_size i + 24\<rparr>"
  have sy: "sync_blocks r e 21 j (?as @ replicate 128 0) fs = Inr (True, ?F)"
    using j(1,3) aj(1) fs_read_1 [OF wf mx] free_entry_eq [OF lb, of 0] k d(1) k21 e lb o(3)
    by (simp add: sync_blocks.simps [of r e 21 j] copy_de_def patch_def)
  have tF: "the_inode r ?F = Inr ?i"
    using grow_dir_inode [of r "fs\<lparr>hd_drive := d\<rparr>" i] ti o(3) by (simp add: the_inode_def [of r "fs\<lparr>hd_drive := d\<rparr>"] the_inode_def [of r fs])
  have F: "hd_drive ?F = d" "fs_rest fs ?F" "block_bitmap (cur_part ?F) = block_bitmap (cur_part fs)" "fsb ?F = fsb fs"
    using fs_rest_trans [OF fs_rest_upd(2) fs_rest_upd(1)] by (simp_all add: grow_dir_def)
  have wF: "wf_fs ?F" using wf_fsD(9) [OF d(3)] by (intro wf_fs_cong [OF wf F(2,3)]) (simp add: F)
  have bb: "blk_bit ?F = blk_bit fs" by (simp add: blk_bit_def fun_eq_iff F)
  have sp: "?as = take j ?as @ a # drop (Suc j) ?as" using id_take_nth_drop [of j ?as] aj(2) j(1) o(1) by simp
  have dis: "a \<notin> set (take j ?as)" "a \<notin> set (drop (Suc j) ?as)" using o(4) j(3) arg_cong [OF sp, of "filter (\<lambda>a. a \<noteq> 0)"] by auto
  define L where "L = slots ?b"
  define As where "As = ?as"
  define E1 E2 where "E1 = entries_of (hd_drive fs) (take j As)" and "E2 = entries_of (hd_drive fs) (drop (Suc j) As)"
  have E: "entries_of d (take j As) = E1" "entries_of d (drop (Suc j) As) = E2"
    unfolding E1_def E2_def using dis by (auto simp: d(2) As_def intro!: entries_of_cong)
  note spa = sp [folded As_def]
  have old: "dir_entries fs i = E1 @ L @ E2"
    using arg_cong [OF spa, of "entries_of (hd_drive fs)"] by (simp add: dir_entries_def j(3) E1_def E2_def L_def As_def [symmetric])
  have new: "dir_entries ?F ?i = E1 @ L[k := e] @ E2"
    using arg_cong [OF spa, of "entries_of d"] by (simp add: dir_entries_def F(1) j(3) E d(2) L_def slots_patch [OF lb e k21(1)] As_def [symmetric])
  have Lk: "L = take k L @ [slot ?b k] @ drop (Suc k) L" "L[k := e] = take k L @ e # drop (Suc k) L"
    using id_take_nth_drop [of k L] k21(1) upd_conv_take_nth_drop [of k L e] by (simp_all add: L_def slots_def)
  have "inserted e (dir_entries fs i) (dir_entries ?F ?i)"
  proof (rule insertedI)
    show "dir_entries fs i = (E1 @ take k L) @ [slot ?b k] @ (drop (Suc k) L @ E2)" unfolding old by (subst Lk(1)) simp
    show "dir_entries ?F ?i = (E1 @ take k L) @ e # [] @ (drop (Suc k) L @ E2)" unfolding new Lk(2) by simp
  qed (use k21(2) in simp_all)
  moreover have "dsecs d x = dsecs (hd_drive fs) x" if "x \<notin> set ?as" for x using that am by (auto simp: d(2))
  ultimately have "dir_put fs i e ?F ?i" using wF F o by (simp add: dir_put_def bb)
  then show ?thesis using sy tF by blast
qed

text \<open>The entry starts a new block.\<close>

lemma put_new:
  assumes wf: "wf_fs fs" and ti: "the_inode r fs = Inr i" and ok: "dir_ok fs i" and e: "length e = 24"
    and j: "j < 12" "i_sectors i ! j = 0" and free: "bm.free_bits (block_bitmap (cur_part fs)) \<noteq> {}"
  shows "\<exists>fs' i'. sync_blocks r e 21 j (take 12 (i_sectors i) @ replicate 128 0) fs = Inr (True, fs') \<and> the_inode r fs' = Inr i' \<and> dir_put fs i e fs' i'"
proof -
  note o = dir_okD [OF ok]
  define As where "As = take 12 (i_sectors i)"
  have lA: "length As = 12" and jA: "As ! j = 0" "(As @ replicate 128 0) ! j = 0" using o(1) j by (simp_all add: As_def nth_append)
  obtain a fs1 k where a: "block_bitmap_alloc fs = Inr (Some a, fs1)" "allocated fs fs1 [a]"
    "a - data_start_lba (fsb fs) = of_nat k" "k < bm_cap (block_bitmap (cur_part fs1))" "the_inode r fs1 = the_inode r fs"
    using allocate_one [OF wf free] by metis
  have sb1: "fsb fs1 = fsb fs" and wf1: "wf_fs fs1" using a(2) by (simp_all add: allocated_def fs_rest_def)
  have k31: "k < 2 ^ 31" using a(4) wf_fsD(2) [OF wf1] by (simp add: wf_bitmap_def bm_cap_def)
  have km: "(of_nat k :: u32) \<noteq> - 1"
  proof
    assume "(of_nat k :: u32) = - 1"
    then have "of_nat (Suc k) = (0 :: u32)" by simp
    then have "unat (of_nat (Suc k) :: u32) = 0" by (simp only: unat_0)
    then have "Suc k mod 2 ^ LENGTH(32) = 0" by (simp only: unat_of_nat)
    then show False using k31 by (simp add: unat_of_nat)
  qed
  obtain d1 where d1: "bitmap_sync (of_nat k) BLOCK_BITMAP fs1 = Inr (fs1\<lparr>hd_drive := d1\<rparr>)" "allocated fs (fs1\<lparr>hd_drive := d1\<rparr>) [a]"
    using allocated_sync [OF a(2,4)] by metis
  define fs2 where "fs2 = set_sector r j a (fs1\<lparr>hd_drive := d1\<rparr>)"
  have al2: "allocated fs fs2 [a]" using d1(2) allocated_upd_inode by (simp add: fs2_def set_sector_def)
  have "the_inode r (fs1\<lparr>hd_drive := d1\<rparr>) = Inr i" using ti a(5) by (simp add: the_inode_def)
  then have ti2: "the_inode r fs2 = Inr (i\<lparr>i_sectors := (i_sectors i)[j := a]\<rparr>)"
    by (auto simp: fs2_def set_sector_def intro!: the_inode_upd)
  have nb: "new_dir_block r j (As @ replicate 128 0) fs = Inr (Some ((As @ replicate 128 0)[j := a]), fs2)"
    using a(1,3) d1(1) km sb1 j(1) by (simp add: new_dir_block_def fs2_def)
  have w2: "wf_fs fs2" "fs_rest fs fs2" "a \<noteq> 0" "a \<le> max_lba" "\<not> blk_bit fs a" "\<And>x. blk_bit fs2 x \<longleftrightarrow> blk_bit fs x \<or> x = a"
    "\<And>x. unat (inode_table_lba (fsb fs)) \<le> unat x \<Longrightarrow> dsecs (hd_drive fs2) x = dsecs (hd_drive fs) x"
    using al2 by (auto simp: allocated_def)
  have l512: "length (e @ replicate 488 0) = 512" using e by simp
  obtain d where d: "fs_write a (e @ replicate 488 0) 1 fs2 = Inr (fs2\<lparr>hd_drive := d\<rparr>)" "dsecs d = (dsecs (hd_drive fs2))(a := e @ replicate 488 0)" "wf_fs (fs2\<lparr>hd_drive := d\<rparr>)"
    using fs_write_1 [OF w2(1,4) l512] by metis
  let ?F = "grow_dir r (fs2\<lparr>hd_drive := d\<rparr>)" let ?i = "i\<lparr>i_sectors := (i_sectors i)[j := a], i_size := i_size i + 24\<rparr>"
  have sb2: "fsb fs2 = fsb fs" using w2(2) by (simp add: fs_rest_def)
  have sy: "sync_blocks r e 21 j (As @ replicate 128 0) fs = Inr (True, ?F)"
    using j jA nb d(1) e o(3) sb2 lA by (simp add: sync_blocks.simps [of r e 21 j] copy_de_def patch_def)
  have "the_inode r (fs2\<lparr>hd_drive := d\<rparr>) = Inr (i\<lparr>i_sectors := (i_sectors i)[j := a]\<rparr>)" using ti2 by (simp add: the_inode_def)
  then have tF: "the_inode r ?F = Inr ?i" using grow_dir_inode o(3) sb2 by fastforce
  have F: "hd_drive ?F = d" "fs_rest fs ?F" "block_bitmap (cur_part ?F) = block_bitmap (cur_part fs2)" "fsb ?F = fsb fs"
    using fs_rest_trans [OF w2(2) fs_rest_trans [OF fs_rest_upd(2) fs_rest_upd(1)]] sb2 by (simp_all add: grow_dir_def)
  have "fs_rest fs2 ?F" using fs_rest_trans [OF fs_rest_upd(2) fs_rest_upd(1)] by (simp add: grow_dir_def)
  then have wF: "wf_fs ?F" using wf_fsD(9) [OF d(3)] F by (intro wf_fs_cong [OF w2(1)]) simp_all
  have bb: "blk_bit ?F x \<longleftrightarrow> blk_bit fs x \<or> x = a" for x using w2(6) [of x] by (simp add: blk_bit_def F sb2)
  have keep: "dsecs d x = dsecs (hd_drive fs) x" if "blk_bit fs x" for x
    using that w2(5,7) blk_bit_high [OF wf that] by (auto simp: d(2))
  have oA: "\<And>x. x \<in> set As \<Longrightarrow> x \<noteq> 0 \<Longrightarrow> blk_bit fs x \<and> x \<le> max_lba" "distinct (filter (\<lambda>x. x \<noteq> 0) As)" using o(4,5) by (simp_all add: As_def)
  have spa: "As = take j As @ 0 # drop (Suc j) As" "As[j := a] = take j As @ a # drop (Suc j) As"
    using id_take_nth_drop [of j As] upd_conv_take_nth_drop [of j As a] jA(1) j(1) lA by simp_all
  have tk: "take 12 ((i_sectors i)[j := a]) = As[j := a]" using j(1) by (simp add: As_def take_update_swap)
  have sA: "set (take j As) \<subseteq> set As" "set (drop (Suc j) As) \<subseteq> set As" by (auto dest: in_set_takeD in_set_dropD)
  have sub: "x \<in> set (As[j := a]) \<Longrightarrow> x = a \<or> x \<in> set As" for x using set_update_subset_insert [of As j a] by blast
  define E1 E2 where "E1 = entries_of (hd_drive fs) (take j As)" and "E2 = entries_of (hd_drive fs) (drop (Suc j) As)"
  have E: "entries_of d (take j As) = E1" "entries_of d (drop (Suc j) As) = E2"
    unfolding E1_def E2_def using oA(1) sA keep by (auto intro!: entries_of_cong)
  have old: "dir_entries fs i = E1 @ E2"
    using arg_cong [OF spa(1), of "entries_of (hd_drive fs)"] by (simp add: dir_entries_def E1_def E2_def As_def [symmetric])
  have new: "dir_entries ?F ?i = E1 @ (e # replicate 20 (replicate 24 0)) @ E2"
    using w2(3) by (simp add: dir_entries_def F(1) tk spa(2) E d(2) slots_new [OF e])
  have "inserted e (dir_entries fs i) (dir_entries ?F ?i)"
  proof (rule insertedI)
    show "dir_entries fs i = E1 @ [] @ E2" "dir_entries ?F ?i = E1 @ e # replicate 20 (replicate 24 0) @ E2" using old new by simp_all
  qed (auto simp: free_slot_def de_f_type_def rd32_def FT_UNKNOWN_def)
  moreover have "distinct (filter (\<lambda>x. x \<noteq> 0) (As[j := a]))"
    unfolding spa(2) using oA arg_cong [OF spa(1), of "filter (\<lambda>x. x \<noteq> 0)"] sA w2(3,5) by auto
  moreover have "\<forall>x \<in> set (As[j := a]). x \<noteq> 0 \<longrightarrow> blk_bit ?F x \<and> x \<le> max_lba" using sub oA(1) w2(4) bb by blast
  ultimately have "dir_put fs i e ?F ?i" using wF F o(1,2) j(1) keep by (simp add: dir_put_def tk bb)
  then show ?thesis using sy tF unfolding As_def by blast
qed

text \<open>A directory whose direct blocks have room.\<close>

definition has_room :: "fsys \<Rightarrow> inode \<Rightarrow> bool" where
  "has_room fs i \<longleftrightarrow> (\<exists>j < 12. i_sectors i ! j = 0 \<or> (\<exists>e \<in> set (slots (dsecs (hd_drive fs) (i_sectors i ! j))). free_slot e))"

lemma sync_blocks_ok:
  assumes wf: "wf_fs fs" and ti: "the_inode r fs = Inr i" and ok: "dir_ok fs i" and e: "length e = 24" and free: "bm.free_bits (block_bitmap (cur_part fs)) \<noteq> {}"
    and room: "idx \<le> j" "j < 12" "i_sectors i ! j = 0 \<or> (\<exists>e \<in> set (slots (dsecs (hd_drive fs) (i_sectors i ! j))). free_slot e)"
  shows "\<exists>fs' i'. sync_blocks r e 21 idx (take 12 (i_sectors i) @ replicate 128 0) fs = Inr (True, fs') \<and> the_inode r fs' = Inr i' \<and> dir_put fs i e fs' i'"
  using room
proof (induction "12 - idx" arbitrary: idx)
  case (Suc n)
  note o = dir_okD [OF ok]
  let ?a = "i_sectors i ! idx" let ?find = "find (\<lambda>k. free_slot (slot (dsecs (hd_drive fs) ?a) k)) [0..<21]"
  have i12: "idx < 12" using Suc.hyps(2) by simp
  show ?case
  proof (cases "?a = 0")
    case True
    then show ?thesis using put_new [OF wf ti ok e i12 _ free] by blast
  next
    case a0: False
    show ?thesis
    proof (cases ?find)
      case (Some k)
      then show ?thesis using put_old [OF wf ti ok e i12 refl a0] by blast
    next
      case None
      have all: "(take 12 (i_sectors i) @ replicate 128 0) ! idx = ?a" using o(1) i12 by (simp add: nth_append)
      have "?a \<in> set (take 12 (i_sectors i))" using o(1) i12 by (auto simp: in_set_conv_nth intro!: exI [of _ idx])
      then have mx: "?a \<le> max_lba" using o(5) a0 by blast
      have lb: "length (dsecs (hd_drive fs) ?a) = 512" using wf_fsD(9) [OF wf] by (simp add: drive_ok_def)
      have "idx \<noteq> j" using None a0 Suc.prems(3) by (auto simp: slots_def find_None_iff)
      then have "\<exists>fs' i'. sync_blocks r e 21 (Suc idx) (take 12 (i_sectors i) @ replicate 128 0) fs = Inr (True, fs') \<and> the_inode r fs' = Inr i' \<and> dir_put fs i e fs' i'"
        using Suc.hyps Suc.prems by simp
      then show ?thesis using a0 i12 all None fs_read_1 [OF wf mx] free_entry_eq [OF lb, of 0] by (simp add: sync_blocks.simps [of r e 21 idx])
    qed
  qed
qed simp

lemma dir_put_ok:
  assumes ok: "dir_ok fs i" and put: "dir_put fs i e fs' i'" and e: "\<not> free_slot e"
  shows "dir_ok fs' i'"
proof -
  note o = dir_okD [OF ok]
  have ins: "inserted e (dir_entries fs i) (dir_entries fs' i')" and sz: "i_size i' = i_size i + 24" and fr: "fs_rest fs fs'" using put unfolding dir_put_def by blast+
  have "hd x = 0" if "x \<in> set (dir_entries fs' i')" "free_slot x" for x
    using ins that e o(6) by (auto simp: inserted_def)
  moreover have "i_size i' = of_nat (24 * length (filter (\<lambda>e. \<not> free_slot e) (dir_entries fs' i')))"
    unfolding inserted_live [OF ins e] sz o(7) by simp
  moreover have "dir_entry_size (fsb fs') = 24" using fr o(3) by (simp add: fs_rest_def)
  ultimately show ?thesis using put unfolding dir_ok_def dir_put_def by blast
qed

lemma live_bound: "length (filter (\<lambda>e. \<not> free_slot e) (dir_entries fs i)) \<le> 252"
proof -
  have "length (entries_of d as) \<le> 21 * length as" for d as by (induction as) auto
  then have "length (dir_entries fs i) \<le> 21 * length (take 12 (i_sectors i))" unfolding dir_entries_def .
  also have "\<dots> \<le> 252" by simp
  finally show ?thesis using length_filter_le [of _ "dir_entries fs i"] by (meson le_trans)
qed

lemma sync_dir_entry_ok:
  assumes wf: "wf_fs fs" and ti: "dir_node p fs = Inr i" and ok: "dir_ok fs i" and e: "length e = 24" and room: "has_room fs i"
    and free: "bm.free_bits (block_bitmap (cur_part fs)) \<noteq> {}"
  shows "\<exists>fs' i'. sync_dir_entry p e fs = Inr (True, fs') \<and> dir_node p fs' = Inr i' \<and> dir_put fs i e fs' i'"
proof -
  note o = dir_okD [OF ok]
  let ?r = "dir_inode (dir_of p fs)"
  have ti': "the_inode ?r fs = Inr i" using ti by (simp add: dir_node_def)
  obtain j where j: "j < 12" "i_sectors i ! j = 0 \<or> (\<exists>e \<in> set (slots (dsecs (hd_drive fs) (i_sectors i ! j))). free_slot e)"
    using room by (auto simp: has_room_def)
  obtain fs' i' where s: "sync_blocks ?r e 21 0 (take 12 (i_sectors i) @ replicate 128 0) fs = Inr (True, fs')" "the_inode ?r fs' = Inr i'" "dir_put fs i e fs' i'"
    using sync_blocks_ok [OF wf ti' ok e free _ j] by blast
  have "unat (i_size i) = 24 * length (filter (\<lambda>e. \<not> free_slot e) (dir_entries fs i))"
    using live_bound [of fs i] unfolding o(7) unat_of_nat by simp
  then have md: "i_size i mod dir_entry_size (fsb fs) = 0" by (simp add: o(3) word_unat_eq_iff unat_mod)
  have "root_dir fs' = root_dir fs" using s(3) by (simp add: dir_put_def fs_rest_def)
  then have "dir_of p fs' = dir_of p fs" by (cases p) (simp_all add: dir_of_def)
  then show ?thesis using s ti md o(3) by (simp add: sync_dir_entry_def dirents_per_sec_def dir_node_def)
qed

section \<open>Properties\<close>

text \<open>The name field of an entry.\<close>

definition name_field :: "u8 list \<Rightarrow> u8 list" where
  "name_field nm = nm @ replicate (16 - length nm) 0"

lemma named_entry:
  assumes "length nm < 16" "length nm' < 16" "0 \<notin> set nm" "0 \<notin> set nm'"
  shows "named nm' (dir_entry (name_field nm) ino ty) \<longleftrightarrow> nm' = nm"
proof -
  have "takeWhile (\<lambda>c. c \<noteq> 0) (m @ 0 # r) = m" if "0 \<notin> set m" for m r using that by (induction m) auto
  note tw = this
  obtain r where r: "dir_entry (name_field nm) ino ty = nm @ 0 # r"
    using assms(1) by (cases "16 - length nm") (auto simp: dir_entry_def name_field_def)
  show ?thesis
  proof
    assume "named nm' (dir_entry (name_field nm) ino ty)"
    then have "nm' @ [0] = take (Suc (length nm')) (nm @ 0 # r)" by (simp add: named_def r)
    then obtain q where "nm @ 0 # r = nm' @ 0 # q" by (metis append_take_drop_id append.assoc append_Cons append_Nil)
    then show "nm' = nm" using tw assms(3,4) by metis
  qed (simp add: named_def r)
qed

lemma entry_length: "length nm < 16 \<Longrightarrow> length (dir_entry (name_field nm) ino ty) = 24"
  by (simp add: dir_entry_def name_field_def)

lemma entry_type: "length nm < 16 \<Longrightarrow> de_f_type (dir_entry (name_field nm) ino ty) = ty"
  using rd32_le32 [of "name_field nm @ le32 ino" ty "[]"] by (simp add: de_f_type_def dir_entry_def name_field_def)

lemma entry_ino: "length nm < 16 \<Longrightarrow> de_i_no (dir_entry (name_field nm) ino ty) = ino"
  using rd32_le32 [of "name_field nm" ino "le32 ty"] by (simp add: de_i_no_def dir_entry_def name_field_def)

lemma dir_entries_lengths: "wf_fs fs \<Longrightarrow> e \<in> set (dir_entries fs i) \<Longrightarrow> e \<noteq> []"
proof -
  assume w: "wf_fs fs" and e: "e \<in> set (dir_entries fs i)"
  have "x \<noteq> []" if "x \<in> set (slots buf)" "length buf = 512" for x buf using that by (auto simp: slots_def slot_def)
  then show ?thesis using e wf_fsD(9) [OF w] by (auto simp: dir_entries_def entries_of_def drive_ok_def)
qed

text \<open>
  C5. A directory implements a finite map from names to inode numbers: in a well-formed directory with direct
  blocks and room, \<^verbatim>\<open>sync_dir_entry\<close> of an entry whose name is not there succeeds, keeps the directory
  well-formed and its size in step with the entries, and afterwards \<^verbatim>\<open>search_dir_entry\<close> finds
  exactly that entry under its name and the same result as before under every other name; the blocks
  of all other files and directories keep their contents.
\<close>

theorem dir_insert_lookup:
  assumes "wf_fs fs" and "dir_node p fs = Inr i" and "dir_ok fs i" and "mallocs fs = []" and "has_room fs i"
    and "bm.free_bits (block_bitmap (cur_part fs)) \<noteq> {}" and "nm \<noteq> []" and "0 \<notin> set nm" and "length nm < 16" and "ty \<noteq> FT_UNKNOWN"
    and "e = dir_entry (name_field nm) ino ty" and "length buf = 24" and "search_dir_entry p (nm @ [0]) buf fs = Inr (False, buf, fs)"
  shows "\<exists>fs' i'. sync_dir_entry p e fs = Inr (True, fs') \<and> wf_fs fs' \<and> dir_node p fs' = Inr i' \<and> dir_ok fs' i' \<and> i_size i' = i_size i + 24 \<and>
     search_dir_entry p (nm @ [0]) buf fs' = Inr (True, e, fs') \<and>
     (\<forall>nm'. nm' \<noteq> [] \<and> nm' \<noteq> nm \<and> 0 \<notin> set nm' \<and> length nm' < 16 \<longrightarrow>
        mapR (\<lambda>(found, x, _). (found, x)) (search_dir_entry p (nm' @ [0]) buf fs') =
        mapR (\<lambda>(found, x, _). (found, x)) (search_dir_entry p (nm' @ [0]) buf fs)) \<and>
     (\<forall>a. blk_bit fs a \<and> a \<notin> set (take 12 (i_sectors i)) \<longrightarrow> dsecs (hd_drive fs') a = dsecs (hd_drive fs) a)"
proof -
  have le: "length e = 24" and te: "\<not> free_slot e" using assms(9,10,11) by (simp_all add: entry_length entry_type free_slot_def)
  obtain fs' i' where s: "sync_dir_entry p e fs = Inr (True, fs')" "dir_node p fs' = Inr i'" "dir_put fs i e fs' i'"
    using sync_dir_entry_ok [OF assms(1-3) le assms(5,6)] by blast
  have ok': "dir_ok fs' i'" using dir_put_ok [OF assms(3) s(3) te] .
  have wf': "wf_fs fs'" and ins: "inserted e (dir_entries fs i) (dir_entries fs' i')" and m': "mallocs fs' = []"
    using s(3) assms(4) by (auto simp: dir_put_def fs_rest_def)
  have ne: "x \<noteq> []" if "x \<in> set (dir_entries fs i) \<or> x \<in> set (dir_entries fs' i')" for x
    using that dir_entries_lengths [OF assms(1)] dir_entries_lengths [OF wf'] by blast
  have fz: "\<forall>x \<in> set (dir_entries fs i). free_slot x \<longrightarrow> hd x = 0" using dir_okD(6) [OF assms(3)] by blast
  have sr: "search_dir_entry p (n @ [0]) buf fs = Inr (case find (named n) (dir_entries fs i) of None \<Rightarrow> (False, buf, fs) | Some x \<Rightarrow> (True, x, fs))"
    "search_dir_entry p (n @ [0]) buf fs' = Inr (case find (named n) (dir_entries fs' i') of None \<Rightarrow> (False, buf, fs') | Some x \<Rightarrow> (True, x, fs'))"
    if "0 \<notin> set n" "length n < 16" for n
    using search_dir_entry_eq [OF assms(1-4) that assms(12), of "[]"] search_dir_entry_eq [OF wf' s(2) ok' m' that assms(12), of "[]"] by simp_all
  have "find (named nm) (dir_entries fs i) = None"
    using sr(1) [OF assms(8,9)] assms(13) by (auto split: option.splits)
  then have f: "find (named nm) (dir_entries fs' i') = Some e"
    using inserted_find(2) [OF ins fz assms(7,8)] ne named_entry [OF assms(9,9,8,8)] assms(11) by blast
  have g: "find (named n) (dir_entries fs' i') = find (named n) (dir_entries fs i)" if n: "n \<noteq> []" "n \<noteq> nm" "0 \<notin> set n" "length n < 16" for n
    using inserted_find(1) [OF ins fz n(1,3)] ne named_entry [OF assms(9) n(4) assms(8) n(3)] assms(11) n(2) by blast
  have "i_size i' = i_size i + 24" "\<forall>a. blk_bit fs a \<and> a \<notin> set (take 12 (i_sectors i)) \<longrightarrow> dsecs (hd_drive fs') a = dsecs (hd_drive fs) a"
    using s(3) unfolding dir_put_def by blast+
  then show ?thesis
    using s(1,2) ok' wf' sr(2) [OF assms(8,9)] f g sr by (intro exI [of _ fs'] exI [of _ i']) (auto split: option.splits)
qed

definition sample_dir :: inode where
  "sample_dir = \<lparr>i_no = 0, i_size = 0, i_open_cnts = 1, write_deny = False, i_sectors = 2684 # replicate 12 0\<rparr>"

lemma sample_dir_node: "dir_node RootDir (sample_open 1 sample_dir) = Inr sample_dir"
  using sample_open_fields(3) [of sample_dir 1] by (simp add: dir_node_def dir_of_def) (simp add: sample_open_def upd_part_def sample_fs_def sample_dir_def)

lemma sample_dir_entries: "dir_entries (sample_open 1 sample_dir) sample_dir = replicate 21 (replicate 24 0)"
proof -
  have "slots (replicate 512 0) = replicate 21 (replicate 24 0)" by (rule nth_equalityI) (simp_all add: slots_def slot_def)
  moreover have "take 12 (i_sectors sample_dir) = 2684 # replicate 11 0" by (simp add: sample_dir_def take_Cons')
  moreover have "entries_of d (replicate n 0) = []" for d n by (induction n) auto
  ultimately show ?thesis by (simp add: dir_entries_def sample_open_fields sample_drive_def)
qed

lemma sample_dir_ok: "dir_ok (sample_open 1 sample_dir) sample_dir"
proof -
  have t: "take 12 (i_sectors sample_dir) = 2684 # replicate 11 0" by (simp add: sample_dir_def take_Cons')
  have "blk_bit (sample_open 1 sample_dir) 2684"
    by (simp add: blk_bit_def sample_open_fields bm_cap_def bm_bit_def) (simp add: sample_fs_def)
  moreover have "free_slot (replicate 24 0)" by (simp add: free_slot_def de_f_type_def rd32_def FT_UNKNOWN_def)
  ultimately show ?thesis
    unfolding dir_ok_def sample_dir_entries t by (simp add: max_lba_def sample_open_fields) (simp add: sample_dir_def sample_fs_def)
qed

theorem dir_insert_lookup_witness:
  "\<exists>fs'. sync_dir_entry RootDir (dir_entry (name_field [97]) 5 FT_REGULAR) (sample_open 1 sample_dir) = Inr (True, fs') \<and>
     search_dir_entry RootDir [97, 0] (replicate 24 0) fs' = Inr (True, dir_entry (name_field [97]) 5 FT_REGULAR, fs')"
proof -
  let ?fs = "sample_open 1 sample_dir"
  have wf: "wf_fs ?fs" by (rule sample_open_wf) simp
  have m: "mallocs ?fs = []" by (rule sample_open_fields)
  have "find (named [97]) (replicate 21 (replicate 24 0)) = None" by (auto simp: find_None_iff named_def)
  then have s: "search_dir_entry RootDir ([97] @ [0]) (replicate 24 0) ?fs = Inr (False, replicate 24 0, ?fs)"
    using search_dir_entry_eq [OF wf sample_dir_node sample_dir_ok m, of "[97]" "replicate 24 0" "[]"] by (simp add: sample_dir_entries)
  have r: "has_room ?fs sample_dir" unfolding has_room_def by (rule exI [of _ 1]) (simp add: sample_dir_def)
  have f: "bm.free_bits (block_bitmap (cur_part ?fs)) \<noteq> {}" using sample_open_card [of 1 sample_dir] by auto
  show ?thesis
    using dir_insert_lookup [OF wf sample_dir_node sample_dir_ok m r f, of "[97]" FT_REGULAR "dir_entry (name_field [97]) 5 FT_REGULAR" 5 "replicate 24 0"] s
    by (auto simp: FT_REGULAR_def FT_UNKNOWN_def)
qed

end
