(* ===== verification/Ioqueue.thy ===== *)
theory Ioqueue
  imports Thread
begin

text \<open>
  Model of \<^verbatim>\<open>device/ioqueue.c\<close>: the ring buffer of the keyboard and of the pipes, with the threads that wait
  on it. The lock of a queue is lock number \<open>l\<close> of the threads. The functions run with interrupts off,
  which their assertions require. An operation that cannot go on gives up the processor: its result
  is then \<open>None\<close>, and the continuation that runs when the thread is resumed has a definition of its own.
\<close>

record ioqueue =
  producer :: u32
  consumer :: u32
  ioq_buf :: "u8 list"
  ioq_head :: nat
  ioq_tail :: nat

definition bufsize :: nat where
  "bufsize = 2048"

text \<open>\<^verbatim>\<open>ioqueue_init\<close> does not set \<^verbatim>\<open>tail\<close>.\<close>

definition ioqueue_init :: "nat \<Rightarrow> ioqueue \<Rightarrow> kthreads \<Rightarrow> ioqueue \<times> kthreads" where
  "ioqueue_init l q s = (q\<lparr>producer := 0, consumer := 0, ioq_head := 0\<rparr>, upd_lock l (\<lambda>_. lock_init) s)"

definition next_pos :: "nat \<Rightarrow> nat" where
  "next_pos pos = (pos + 1) mod bufsize"

definition ioq_full :: "ioqueue \<Rightarrow> bool" where
  "ioq_full q \<longleftrightarrow> next_pos (ioq_head q) = ioq_tail q"

definition ioq_empty :: "ioqueue \<Rightarrow> bool" where
  "ioq_empty q \<longleftrightarrow> ioq_head q = ioq_tail q"

definition ioq_length :: "ioqueue \<Rightarrow> nat" where
  "ioq_length q = (if ioq_tail q \<le> ioq_head q then ioq_head q - ioq_tail q else bufsize - (ioq_tail q - ioq_head q))"

section \<open>Waiting and waking\<close>

text \<open>\<^verbatim>\<open>ioq_wait\<close>: the result is the new value of the waiter's field.\<close>

definition ioq_wait :: "u32 \<Rightarrow> kthreads \<Rightarrow> (u32 \<times> kthreads) result" where
  "ioq_wait waiter s = ASSERT (waiter = 0) ''*waiter==NULL && waiter!=NULL'' (mapR (\<lambda>s'. (running_thread s, s')) (thread_block TASK_BLOCKED s))"

definition wakeup :: "u32 \<Rightarrow> kthreads \<Rightarrow> (u32 \<times> kthreads) result" where
  "wakeup waiter s = ASSERT (waiter \<noteq> 0) ''*waiter != NULL'' (mapR (\<lambda>s. (0, s)) (thread_unblock waiter s))"

section \<open>Taking a character\<close>

definition take_char :: "ioqueue \<Rightarrow> kthreads \<Rightarrow> (u8 \<times> ioqueue \<times> kthreads) result" where
  "take_char q s =
     bindR (byte_at (ioq_buf q) (ioq_tail q)) (\<lambda>byte.
     let q = q\<lparr>ioq_tail := next_pos (ioq_tail q)\<rparr>
     in if producer q \<noteq> 0 then mapR (\<lambda>(w, s). (byte, q\<lparr>producer := w\<rparr>, s)) (wakeup (producer q) s)
        else Inr (byte, q, s))"

text \<open>The body of the loop once the lock is held, from the start, and after the thread was woken.\<close>

definition get_locked :: "ioqueue \<Rightarrow> kthreads \<Rightarrow> (u8 option \<times> ioqueue \<times> kthreads) result" where
  "get_locked q s = mapR (\<lambda>(w, s). (None, q\<lparr>consumer := w\<rparr>, s)) (ioq_wait (consumer q) s)"

definition ioq_getchar :: "nat \<Rightarrow> ioqueue \<Rightarrow> kthreads \<Rightarrow> (u8 option \<times> ioqueue \<times> kthreads) result" where
  "ioq_getchar l q s =
     (if ioq_empty q then
        bindR (lock_acquire l s) (\<lambda>s'. if holder (locks s' l) = running_thread s then get_locked q s' else Inr (None, q, s'))
      else mapR (\<lambda>(c, q, s). (Some c, q, s)) (take_char q s))"

text \<open>The thread blocked in \<^verbatim>\<open>lock_acquire\<close> goes on with the lock, or blocks again.\<close>

definition ioq_getchar_resumed :: "nat \<Rightarrow> ioqueue \<Rightarrow> kthreads \<Rightarrow> (u8 option \<times> ioqueue \<times> kthreads) result" where
  "ioq_getchar_resumed l q s =
     bindR (lock_take l s) (\<lambda>s'. if holder (locks s' l) = running_thread s then get_locked q s' else Inr (None, q, s'))"

definition ioq_getchar_woken :: "nat \<Rightarrow> ioqueue \<Rightarrow> kthreads \<Rightarrow> (u8 option \<times> ioqueue \<times> kthreads) result" where
  "ioq_getchar_woken l q s = bindR (lock_release l s) (ioq_getchar l q)"

section \<open>Putting a character\<close>

definition put_char :: "u8 \<Rightarrow> ioqueue \<Rightarrow> kthreads \<Rightarrow> (ioqueue \<times> kthreads) result" where
  "put_char byte q s =
     bindR (set_byte_at (ioq_buf q) (ioq_head q) byte) (\<lambda>buf.
     let q = q\<lparr>ioq_buf := buf, ioq_head := next_pos (ioq_head q)\<rparr>
     in if consumer q \<noteq> 0 then mapR (\<lambda>(w, s). (q\<lparr>consumer := w\<rparr>, s)) (wakeup (consumer q) s)
        else Inr (q, s))"

definition put_locked :: "ioqueue \<Rightarrow> kthreads \<Rightarrow> (bool \<times> ioqueue \<times> kthreads) result" where
  "put_locked q s = mapR (\<lambda>(w, s). (False, q\<lparr>producer := w\<rparr>, s)) (ioq_wait (producer q) s)"

definition ioq_putchar :: "nat \<Rightarrow> u8 \<Rightarrow> ioqueue \<Rightarrow> kthreads \<Rightarrow> (bool \<times> ioqueue \<times> kthreads) result" where
  "ioq_putchar l byte q s =
     (if ioq_full q then
        bindR (lock_acquire l s) (\<lambda>s'. if holder (locks s' l) = running_thread s then put_locked q s' else Inr (False, q, s'))
      else mapR (\<lambda>(q, s). (True, q, s)) (put_char byte q s))"

definition ioq_putchar_resumed :: "nat \<Rightarrow> ioqueue \<Rightarrow> kthreads \<Rightarrow> (bool \<times> ioqueue \<times> kthreads) result" where
  "ioq_putchar_resumed l q s =
     bindR (lock_take l s) (\<lambda>s'. if holder (locks s' l) = running_thread s then put_locked q s' else Inr (False, q, s'))"

definition ioq_putchar_woken :: "nat \<Rightarrow> u8 \<Rightarrow> ioqueue \<Rightarrow> kthreads \<Rightarrow> (bool \<times> ioqueue \<times> kthreads) result" where
  "ioq_putchar_woken l byte q s = bindR (lock_release l s) (ioq_putchar l byte q)"

section \<open>Queues of bytes\<close>

text \<open>What a client of a bounded queue relies on.\<close>

locale byte_queue =
  fixes inv :: "'q \<Rightarrow> bool" and cont :: "'q \<Rightarrow> u8 list" and put :: "u8 \<Rightarrow> 'q \<Rightarrow> 'q" and get :: "'q \<Rightarrow> u8 \<times> 'q"
    and full :: "'q \<Rightarrow> bool" and empty :: "'q \<Rightarrow> bool" and cap :: nat
  assumes put_ok: "inv q \<Longrightarrow> \<not> full q \<Longrightarrow> inv (put c q) \<and> cont (put c q) = cont q @ [c]"
    and get_ok: "inv q \<Longrightarrow> \<not> empty q \<Longrightarrow> inv (snd (get q)) \<and> cont q = fst (get q) # cont (snd (get q))"
    and full_iff: "inv q \<Longrightarrow> full q \<longleftrightarrow> length (cont q) = cap"
    and empty_iff: "inv q \<Longrightarrow> empty q \<longleftrightarrow> cont q = []"
    and bounded: "inv q \<Longrightarrow> length (cont q) \<le> cap"
begin

primrec put_all :: "u8 list \<Rightarrow> 'q \<Rightarrow> 'q" where
  "put_all [] q = q"
| "put_all (c # cs) q = put_all cs (put c q)"

primrec get_all :: "nat \<Rightarrow> 'q \<Rightarrow> u8 list \<times> 'q" where
  "get_all 0 q = ([], q)"
| "get_all (Suc n) q = (fst (get q) # fst (get_all n (snd (get q))), snd (get_all n (snd (get q))))"

lemma put_all_ok: "inv q \<Longrightarrow> length (cont q) + length cs \<le> cap \<Longrightarrow> inv (put_all cs q) \<and> cont (put_all cs q) = cont q @ cs"
proof (induction cs arbitrary: q)
  case (Cons c cs)
  have "\<not> full q" using full_iff [OF Cons.prems(1)] Cons.prems(2) by simp
  then show ?case using Cons.IH [of "put c q"] Cons.prems put_ok [OF Cons.prems(1), of c] by simp
qed simp

lemma get_all_ok: "inv q \<Longrightarrow> n \<le> length (cont q) \<Longrightarrow>
    inv (snd (get_all n q)) \<and> fst (get_all n q) = take n (cont q) \<and> cont (snd (get_all n q)) = drop n (cont q)"
proof (induction n arbitrary: q)
  case (Suc n)
  have "\<not> empty q" using empty_iff [OF Suc.prems(1)] Suc.prems(2) by auto
  then have g: "inv (snd (get q))" "cont q = fst (get q) # cont (snd (get q))" using get_ok [OF Suc.prems(1)] by blast+
  then have "length (cont q) = Suc (length (cont (snd (get q))))" using arg_cong [OF g(2), of length] by simp
  then have "n \<le> length (cont (snd (get q)))" using Suc.prems(2) by simp
  note ih = Suc.IH [OF g(1) this]
  then show ?case using g(2) by (metis fst_conv get_all.simps(2) snd_conv take_Suc_Cons drop_Suc_Cons)
qed simp

lemma fifo: "inv q \<Longrightarrow> cont q = [] \<Longrightarrow> length cs \<le> cap \<Longrightarrow> fst (get_all (length cs) (put_all cs q)) = cs"
  using put_all_ok [of q cs] get_all_ok [of "put_all cs q" "length cs"] by simp

end

section \<open>The ring buffer is a queue of at most 2047 bytes\<close>

definition ioq_inv :: "ioqueue \<Rightarrow> bool" where
  "ioq_inv q \<longleftrightarrow> length (ioq_buf q) = bufsize \<and> ioq_head q < bufsize \<and> ioq_tail q < bufsize"

definition ioq_list :: "ioqueue \<Rightarrow> u8 list" where
  "ioq_list q = map (\<lambda>k. ioq_buf q ! ((ioq_tail q + k) mod bufsize)) [0..<ioq_length q]"

definition ring_put :: "u8 \<Rightarrow> ioqueue \<Rightarrow> ioqueue" where
  "ring_put c q = q\<lparr>ioq_buf := (ioq_buf q)[ioq_head q := c], ioq_head := next_pos (ioq_head q)\<rparr>"

definition ring_get :: "ioqueue \<Rightarrow> u8 \<times> ioqueue" where
  "ring_get q = (ioq_buf q ! ioq_tail q, q\<lparr>ioq_tail := next_pos (ioq_tail q)\<rparr>)"

lemma next_pos_cases: "p < bufsize \<Longrightarrow> next_pos p = (if p = bufsize - 1 then 0 else p + 1)"
  by (simp add: next_pos_def bufsize_def)

lemma mod_bufsize: "x < 2 * bufsize \<Longrightarrow> x mod bufsize = (if x < bufsize then x else x - bufsize)"
  using le_mod_geq [of bufsize x] by simp

lemma ioq_length_list [simp]: "length (ioq_list q) = ioq_length q"
  by (simp add: ioq_list_def)

lemma ioq_inv_length: "ioq_inv q \<Longrightarrow> ioq_length q < bufsize"
  by (auto simp: ioq_inv_def ioq_length_def)

lemma ioq_head_pos: "ioq_inv q \<Longrightarrow> (ioq_tail q + ioq_length q) mod bufsize = ioq_head q"
  by (auto simp: ioq_inv_def ioq_length_def)

lemma ring_put_ok:
  assumes inv: "ioq_inv q" and nf: "\<not> ioq_full q"
  shows "ioq_inv (ring_put c q) \<and> ioq_list (ring_put c q) = ioq_list q @ [c]"
proof -
  have b: "ioq_head q < bufsize" "ioq_tail q < bufsize" "length (ioq_buf q) = bufsize" using inv by (simp_all add: ioq_inv_def)
  have len: "ioq_length (ring_put c q) = Suc (ioq_length q)"
    using b nf by (auto simp: ioq_full_def ioq_length_def ring_put_def next_pos_cases bufsize_def)
  have ne: "(ioq_tail q + k) mod bufsize \<noteq> ioq_head q" if "k < ioq_length q" for k
    using that b mod_bufsize [of "ioq_tail q + k"] by (auto simp: ioq_length_def split: if_splits)
  have "ioq_list (ring_put c q) = map (\<lambda>k. (ioq_buf q)[ioq_head q := c] ! ((ioq_tail q + k) mod bufsize)) [0..<Suc (ioq_length q)]"
    unfolding ioq_list_def len by (simp add: ring_put_def)
  also have "\<dots> = ioq_list q @ [c]" using ne [symmetric] ioq_head_pos [OF inv] b by (simp add: ioq_list_def)
  finally show ?thesis using b by (simp add: ioq_inv_def ring_put_def next_pos_cases) (simp add: bufsize_def)
qed

lemma ring_get_ok:
  assumes inv: "ioq_inv q" and ne: "\<not> ioq_empty q"
  shows "ioq_inv (snd (ring_get q)) \<and> ioq_list q = fst (ring_get q) # ioq_list (snd (ring_get q))"
proof -
  have b: "ioq_head q < bufsize" "ioq_tail q < bufsize" "length (ioq_buf q) = bufsize" using inv by (simp_all add: ioq_inv_def)
  let ?q = "snd (ring_get q)"
  have len: "ioq_length q = Suc (ioq_length ?q)"
    using b ne by (auto simp: ioq_empty_def ioq_length_def ring_get_def next_pos_cases bufsize_def)
  have "(ioq_tail q + Suc k) mod bufsize = (next_pos (ioq_tail q) + k) mod bufsize" for k
    by (simp add: next_pos_def mod_add_left_eq)
  then have "ioq_list q = ioq_buf q ! ioq_tail q # ioq_list ?q"
    unfolding ioq_list_def len map_upt_Suc using b(2) by (simp add: ring_get_def)
  then show ?thesis using b by (simp add: ioq_inv_def ring_get_def next_pos_cases) (simp add: bufsize_def)
qed

interpretation ring: byte_queue ioq_inv ioq_list ring_put ring_get ioq_full ioq_empty 2047
proof
  show "ioq_full q \<longleftrightarrow> length (ioq_list q) = 2047" if "ioq_inv q" for q
    using that by (auto simp: ioq_inv_def ioq_full_def ioq_length_def next_pos_cases bufsize_def)
  show "ioq_empty q \<longleftrightarrow> ioq_list q = []" if "ioq_inv q" for q
    using that by (auto simp: ioq_inv_def ioq_empty_def ioq_list_def ioq_length_def bufsize_def)
  show "length (ioq_list q) \<le> 2047" if "ioq_inv q" for q using ioq_inv_length [OF that] by (simp add: bufsize_def)
qed (use ring_put_ok ring_get_ok in blast)+

end
