(* ===== verification/Pipe.thy ===== *)
theory Pipe
  imports Ioqueue Fs Locks
begin

text \<open>
  Models of \<^verbatim>\<open>device/console.c\<close>, of \<^verbatim>\<open>shell/pipe.c\<close>, and of the system calls of \<^verbatim>\<open>fs/fs.c\<close> that pick
  between the console, the keyboard, a pipe and a file: \<^verbatim>\<open>sys_close\<close>, \<^verbatim>\<open>sys_write\<close> and \<^verbatim>\<open>sys_read\<close>. Their state
  puts the file system and the threads side by side; a ring buffer lives at an address, and the
  lock inside it has the number of that address. A call that blocks has the result \<open>None\<close> and the
  bytes transferred so far; the rest of its loop is what it does when the thread runs again.
\<close>

record kio =
  kfs :: fsys
  kth :: kthreads
  queues :: "u32 \<Rightarrow> ioqueue"
  kbd_buf :: u32
  screen :: "u8 list"

section \<open>The console\<close>

definition console_lock :: nat where
  "console_lock = 0"

definition console_init :: "kio \<Rightarrow> kio" where
  "console_init k = k\<lparr>kth := upd_lock console_lock (\<lambda>_. lock_init) (kth k)\<rparr>"

definition console_acquire :: "kio \<Rightarrow> (bool \<times> kio) result" where
  "console_acquire k =
     mapR (\<lambda>s. (holder (locks s console_lock) = running_thread (kth k), k\<lparr>kth := s\<rparr>)) (lock_acquire console_lock (kth k))"

definition console_release :: "kio \<Rightarrow> kio result" where
  "console_release k = mapR (\<lambda>s. k\<lparr>kth := s\<rparr>) (lock_release console_lock (kth k))"

text \<open>Printing with the console locked; \<open>False\<close> when the thread has to wait for the lock first.\<close>

definition console_print :: "u8 list \<Rightarrow> kio \<Rightarrow> (bool \<times> kio) result" where
  "console_print cs k =
     bindR (console_acquire k) (\<lambda>(got, k).
     if got then mapR (\<lambda>k. (True, k)) (console_release (k\<lparr>screen := screen k @ cs\<rparr>)) else Inr (False, k))"

definition console_put_str :: "u8 list \<Rightarrow> kio \<Rightarrow> (bool \<times> kio) result" where
  "console_put_str str k = (if 0 \<in> set str then console_print (takeWhile (\<lambda>c. c \<noteq> 0) str) k else Inl OutOfBounds)"

definition console_put_char :: "u8 \<Rightarrow> kio \<Rightarrow> (bool \<times> kio) result" where
  "console_put_char c = console_print [c]"

definition sys_putchar :: "u8 \<Rightarrow> kio \<Rightarrow> (bool \<times> kio) result" where
  "sys_putchar = console_put_char"

section \<open>Pipes\<close>

definition PIPE_FLAG :: u32 where
  "PIPE_FLAG = 0xFFFF"

definition is_pipe :: "int \<Rightarrow> kio \<Rightarrow> bool result" where
  "is_pipe local_fd k =
     mapR (\<lambda>g. fd_flag (file_table (kfs k) ! g) = PIPE_FLAG) (fd_local2global local_fd (kfs k))"

text \<open>The ring buffer that \<^verbatim>\<open>fd_inode\<close> points to, when it is one.\<close>

definition pipe_at :: "nat \<Rightarrow> kio \<Rightarrow> u32 result" where
  "pipe_at g k = (case fd_inode (file_table (kfs k) ! g) of PipeAt a \<Rightarrow> Inr a | NoInode \<Rightarrow> Inl NullDeref | InodeAt r \<Rightarrow> Inl PageFault)"

definition zero_ioq :: ioqueue where
  "zero_ioq = \<lparr>producer = 0, consumer = 0, ioq_buf = replicate bufsize 0, ioq_head = 0, ioq_tail = 0\<rparr>"

definition upd_slot :: "nat \<Rightarrow> (kfile \<Rightarrow> kfile) \<Rightarrow> kio \<Rightarrow> kio" where
  "upd_slot g f k = k\<lparr>kfs := upd_file g f (kfs k)\<rparr>"

definition install_fd :: "nat \<Rightarrow> kio \<Rightarrow> int \<times> kio" where
  "install_fd g k = (let (fd, fs) = pcb_fd_install g (kfs k) in (fd, k\<lparr>kfs := fs\<rparr>))"

text \<open>\<^verbatim>\<open>sys_pipe\<close> looks neither at a failed search for a slot, whose \<^verbatim>\<open>-1\<close> it uses as an index, nor at a failed
  allocation, through which \<^verbatim>\<open>ioqueue_init\<close> writes. The page comes cleared.\<close>

definition sys_pipe :: "kio \<Rightarrow> (int \<times> int \<times> int \<times> kio) result" where
  "sys_pipe k =
     (case get_free_slot_in_global (kfs k) of
        None \<Rightarrow> Inl OutOfBounds
      | Some g \<Rightarrow>
          bindR (get_kernel_pages 1 (tmem (kth k))) (\<lambda>(a, m).
          if a = 0 then Inl NullDeref
          else
            let (q, s) = ioqueue_init (unat a) zero_ioq ((kth k)\<lparr>tmem := m\<rparr>);
                k = upd_slot g (\<lambda>_. \<lparr>fd_pos = 2, fd_flag = PIPE_FLAG, fd_inode = PipeAt a\<rparr>)
                      (k\<lparr>kth := s, queues := (queues k)(a := q)\<rparr>);
                (fd0, k) = install_fd g k;
                (fd1, k) = install_fd g k
            in Inr (0, fd0, fd1, k)))"

text \<open>The loops of reading and writing, with what is left to do when the thread blocks.\<close>

fun get_loop :: "nat \<Rightarrow> nat \<Rightarrow> ioqueue \<Rightarrow> kthreads \<Rightarrow> (u8 list \<times> nat \<times> ioqueue \<times> kthreads) result" where
  "get_loop l 0 q s = Inr ([], 0, q, s)"
| "get_loop l (Suc n) q s =
     bindR (ioq_getchar l q s) (\<lambda>(c, q, s). case c of
         None \<Rightarrow> Inr ([], Suc n, q, s)
       | Some c \<Rightarrow> mapR (\<lambda>(cs, r). (c # cs, r)) (get_loop l n q s))"

fun put_loop :: "nat \<Rightarrow> u8 list \<Rightarrow> ioqueue \<Rightarrow> kthreads \<Rightarrow> (u8 list \<times> ioqueue \<times> kthreads) result" where
  "put_loop l [] q s = Inr ([], q, s)"
| "put_loop l (c # cs) q s =
     bindR (ioq_putchar l c q s) (\<lambda>(ok, q, s). if ok then put_loop l cs q s else Inr (c # cs, q, s))"

definition queue_get :: "u32 \<Rightarrow> nat \<Rightarrow> kio \<Rightarrow> (int option \<times> u8 list \<times> kio) result" where
  "queue_get a sz k =
     mapR (\<lambda>(cs, left, q, s). (if left = 0 then Some (int sz) else None, cs, k\<lparr>kth := s, queues := (queues k)(a := q)\<rparr>))
       (get_loop (unat a) sz (queues k a) (kth k))"

definition queue_put :: "u32 \<Rightarrow> u8 list \<Rightarrow> kio \<Rightarrow> (int option \<times> kio) result" where
  "queue_put a cs k =
     mapR (\<lambda>(left, q, s). (if left = [] then Some (int (length cs)) else None, k\<lparr>kth := s, queues := (queues k)(a := q)\<rparr>))
       (put_loop (unat a) cs (queues k a) (kth k))"

definition pipe_read :: "int \<Rightarrow> u32 \<Rightarrow> kio \<Rightarrow> (int option \<times> u8 list \<times> kio) result" where
  "pipe_read fd count k =
     bindR (fd_local2global fd (kfs k)) (\<lambda>g.
     bindR (pipe_at g k) (\<lambda>a.
     let ioq_len = ioq_length (queues k a)
     in queue_get a (if ioq_len > unat count then unat count else ioq_len) k))"

definition pipe_write :: "int \<Rightarrow> u8 list \<Rightarrow> u32 \<Rightarrow> kio \<Rightarrow> (int option \<times> kio) result" where
  "pipe_write fd buf count k =
     bindR (fd_local2global fd (kfs k)) (\<lambda>g.
     bindR (pipe_at g k) (\<lambda>a.
     let ioq_left = bufsize - ioq_length (queues k a);
         sz = (if ioq_left > unat count then unat count else ioq_left)
     in if sz \<le> length buf then queue_put a (take sz buf) k else Inl OutOfBounds))"

section \<open>The system calls\<close>

text \<open>\<^verbatim>\<open>fd_pos\<close> counts the descriptors of a pipe.\<close>

definition sys_close :: "int \<Rightarrow> kio \<Rightarrow> (int \<times> kio) result" where
  "sys_close fd k =
     (if fd > 2 then
        bindR (fd_local2global fd (kfs k)) (\<lambda>g.
        bindR (is_pipe fd k) (\<lambda>p.
        mapR (\<lambda>(ret, k). (ret, k\<lparr>kfs := (kfs k)\<lparr>cur_fds := (cur_fds (kfs k))[nat fd := -1]\<rparr>\<rparr>))
          (if p then
             let pos = fd_pos (file_table (kfs k) ! g) - 1; k = upd_slot g (\<lambda>f. f\<lparr>fd_pos := pos\<rparr>) k in
             if pos = 0 then
               bindR (pipe_at g k) (\<lambda>a.
               mapR (\<lambda>m. (0, upd_slot g (\<lambda>f. f\<lparr>fd_inode := NoInode\<rparr>) (k\<lparr>kth := (kth k)\<lparr>tmem := m\<rparr>\<rparr>)))
                 (mfree_page PF_KERNEL a 1 (tmem (kth k))))
             else Inr (0, k)
           else mapR (\<lambda>(ret, fs). (ret, k\<lparr>kfs := fs\<rparr>)) (file_close g (kfs k)))))
      else Inr (-1, k))"

text \<open>The message of a refused write goes to the console; its text is left out.\<close>

definition sys_write :: "int \<Rightarrow> u8 list \<Rightarrow> u32 \<Rightarrow> u8 list \<Rightarrow> kio \<Rightarrow> (int option \<times> kio) result" where
  "sys_write fd buf count msg k =
     (if fd < 0 then Inr (Some (-1), k)
      else bindR (is_pipe fd k) (\<lambda>p.
        if p then pipe_write fd buf count k
        else if fd = 1 then
          bindR (memcpy (Some (replicate 1024 0)) (Some buf) (unat count)) (\<lambda>tmp_buf.
          mapR (\<lambda>(ok, k). (if ok then Some (sint count) else None, k)) (console_put_str tmp_buf k))
        else
          bindR (fd_local2global fd (kfs k)) (\<lambda>g.
          if wants_write (fd_flag (file_table (kfs k) ! g)) then
            mapR (\<lambda>(n, fs). (Some n, k\<lparr>kfs := fs\<rparr>)) (if unat count \<le> length buf then file_write g (take (unat count) buf) (kfs k) else Inl OutOfBounds)
          else mapR (\<lambda>(ok, k). (if ok then Some (-1) else None, k)) (console_put_str msg k))))"

definition sys_read :: "int \<Rightarrow> u32 \<Rightarrow> kio \<Rightarrow> (int option \<times> u8 list \<times> kio) result" where
  "sys_read fd count k =
     (if fd < 0 \<or> fd = 1 \<or> fd = 2 then Inr (Some (-1), [], k)
      else bindR (is_pipe fd k) (\<lambda>p.
        if p then pipe_read fd count k
        else if fd = 0 then
          mapR (\<lambda>(r, cs, k). (if count = 0 then Some (-1) else r, cs, k)) (queue_get (kbd_buf k) (unat count) k)
        else
          bindR (fd_local2global fd (kfs k)) (\<lambda>g.
          mapR (\<lambda>(n, cs, fs). (Some n, cs, k\<lparr>kfs := fs\<rparr>)) (file_read g count (kfs k)))))"

end
