(* ===== verification/Pipe_Props.thy ===== *)
theory Pipe_Props
  imports Pipe Kernel_Run File_Rw
begin

text \<open>
  What the ring buffer and the pipes guarantee: characters come out in the order they went in, a
  waiting thread is roused by the operation it waits for, a read never blocks, and a write blocks
  when the pipe has no room for all of its bytes.
\<close>

section \<open>Queues with waiting threads\<close>

definition waiter_ok :: "u32 \<Rightarrow> kthreads \<Rightarrow> bool" where
  "waiter_ok w s \<longleftrightarrow> w \<noteq> 0 \<longrightarrow> st s w = Some TASK_BLOCKED \<and> ctls s w = Run"

definition ioq_ok :: "ioqueue \<Rightarrow> kthreads \<Rightarrow> bool" where
  "ioq_ok q s \<longleftrightarrow> ioq_inv q \<and> sched_inv s \<and> linv s \<and> waiter_ok (producer q) s \<and> waiter_ok (consumer q) s \<and>
     (producer q \<noteq> 0 \<longrightarrow> producer q \<noteq> consumer q)"

lemma ioq_okD:
  assumes "ioq_ok q s"
  shows "ioq_inv q" "sched_inv s" "linv s" "waiter_ok (producer q) s" "waiter_ok (consumer q) s"
    "producer q \<noteq> 0 \<Longrightarrow> producer q \<noteq> consumer q"
  using assms unfolding ioq_ok_def by blast+

lemma ioq_list_waiters [simp]: "ioq_list (q\<lparr>producer := p\<rparr>) = ioq_list q" "ioq_list (q\<lparr>consumer := p\<rparr>) = ioq_list q"
  "ioq_inv (q\<lparr>producer := p\<rparr>) = ioq_inv q" "ioq_inv (q\<lparr>consumer := p\<rparr>) = ioq_inv q"
  by (simp_all add: ioq_list_def ioq_length_def ioq_inv_def)

lemma ring_fields [simp]: "producer (ring_put c q) = producer q" "consumer (ring_put c q) = consumer q"
  "producer (snd (ring_get q)) = producer q" "consumer (snd (ring_get q)) = consumer q"
  by (simp_all add: ring_put_def ring_get_def)

definition roused :: "u32 \<Rightarrow> kthreads \<Rightarrow> kthreads \<Rightarrow> bool" where
  "roused w s s' \<longleftrightarrow> sched_inv s' \<and> linv s' \<and> keeps s s' \<and> running_thread s' = running_thread s \<and>
     (\<forall>u. st s' u = (if u = w \<and> w \<noteq> 0 then Some TASK_READY else st s u))"

lemma wakeup_ok:
  assumes "sched_inv s" and "linv s" and "waiter_ok w s" and "w \<noteq> 0"
  obtains s' where "wakeup w s = Inr (0, s')" and "roused w s s'"
proof -
  obtain s' where "thread_unblock w s = Inr s'" "sched_inv s'" "linv s'" "keeps s s'" "running_thread s' = running_thread s"
    "\<And>u. st s' u = (if u = w then Some TASK_READY else st s u)"
    using assms unfolding waiter_ok_def by - (rule unblock_linv [of s w TASK_BLOCKED]; simp add: blocked_status_def; blast)
  then show ?thesis using that [of s'] assms(4) by (simp add: wakeup_def roused_def)
qed

lemma roused_0: "sched_inv s \<Longrightarrow> linv s \<Longrightarrow> roused 0 s s"
  by (simp add: roused_def)

lemma waiter_roused: "waiter_ok v s \<Longrightarrow> roused w s s' \<Longrightarrow> v \<noteq> 0 \<longrightarrow> v \<noteq> w \<Longrightarrow> waiter_ok v s'"
  by (auto simp: waiter_ok_def roused_def keeps_def)

text \<open>Putting into a queue with room and taking from a queue that is not empty.\<close>

lemma ioq_putchar_ok:
  assumes ok: "ioq_ok q s" and len: "length (ioq_list q) < 2047"
  obtains q' s' where "ioq_putchar l c q s = Inr (True, q', s')" and "ioq_ok q' s'" and "ioq_list q' = ioq_list q @ [c]"
    and "consumer q' = 0" and "producer q' = producer q" and "roused (consumer q) s s'"
proof -
  note p = ioq_okD [OF ok]
  have nf: "\<not> ioq_full q" using ring.full_iff [OF p(1)] len by simp
  note r = ring_put_ok [OF p(1) nf, of c]
  have b: "set_byte_at (ioq_buf q) (ioq_head q) c = Inr ((ioq_buf q)[ioq_head q := c])" using p(1) by (simp add: ioq_inv_def)
  show ?thesis
  proof (cases "consumer q = 0")
    case True
    then have "ioq_putchar l c q s = Inr (True, ring_put c q, s)"
      using nf b by (simp add: ioq_putchar_def put_char_def ring_put_def Let_def)
    moreover have "ioq_ok (ring_put c q) s" using r p by (simp add: ioq_ok_def)
    ultimately show ?thesis using that r True roused_0 [OF p(2,3)] by simp
  next
    case False
    then obtain s' where w: "wakeup (consumer q) s = Inr (0, s')" "roused (consumer q) s s'"
      using wakeup_ok [OF p(2,3,5)] by blast
    have "ioq_putchar l c q s = Inr (True, (ring_put c q)\<lparr>consumer := 0\<rparr>, s')"
      using nf b False w(1) by (simp add: ioq_putchar_def put_char_def ring_put_def Let_def)
    moreover have "waiter_ok (producer q) s'" using waiter_roused [OF p(4) w(2)] p(6) by blast
    then have "ioq_ok ((ring_put c q)\<lparr>consumer := 0\<rparr>) s'" using r w(2) by (simp add: ioq_ok_def roused_def waiter_ok_def)
    ultimately show ?thesis using that r w(2) by simp
  qed
qed

lemma ioq_getchar_ok:
  assumes ok: "ioq_ok q s" and ne: "ioq_list q \<noteq> []"
  obtains q' s' where "ioq_getchar l q s = Inr (Some (hd (ioq_list q)), q', s')" and "ioq_ok q' s'" and "ioq_list q' = tl (ioq_list q)"
    and "producer q' = 0" and "consumer q' = consumer q" and "roused (producer q) s s'"
proof -
  note p = ioq_okD [OF ok]
  have nf: "\<not> ioq_empty q" using ring.empty_iff [OF p(1)] ne by simp
  note r = ring_get_ok [OF p(1) nf]
  then have h: "fst (ring_get q) = hd (ioq_list q)" "ioq_list (snd (ring_get q)) = tl (ioq_list q)" by (metis list.sel(1,3))+
  have b: "byte_at (ioq_buf q) (ioq_tail q) = Inr (fst (ring_get q))" using p(1) by (simp add: ioq_inv_def ring_get_def)
  show ?thesis
  proof (cases "producer q = 0")
    case True
    then have "ioq_getchar l q s = Inr (Some (fst (ring_get q)), snd (ring_get q), s)"
      using nf b by (simp add: ioq_getchar_def take_char_def ring_get_def Let_def)
    moreover have "ioq_ok (snd (ring_get q)) s" using r p by (simp add: ioq_ok_def)
    ultimately show ?thesis using that h True roused_0 [OF p(2,3)] by simp
  next
    case False
    then obtain s' where w: "wakeup (producer q) s = Inr (0, s')" "roused (producer q) s s'"
      using wakeup_ok [OF p(2,3,4)] by blast
    have "ioq_getchar l q s = Inr (Some (fst (ring_get q)), (snd (ring_get q))\<lparr>producer := 0\<rparr>, s')"
      using nf b False w(1) by (simp add: ioq_getchar_def take_char_def ring_get_def Let_def)
    moreover have "waiter_ok (consumer q) s'" using waiter_roused [OF p(5) w(2)] p(6) False by metis
    then have "ioq_ok ((snd (ring_get q))\<lparr>producer := 0\<rparr>) s'" using r w(2) by (simp add: ioq_ok_def roused_def waiter_ok_def)
    ultimately show ?thesis using that h w(2) by simp
  qed
qed

section \<open>The loops\<close>

lemma put_loop_ok:
  assumes "ioq_ok q s" and "length (ioq_list q) + length cs \<le> 2047"
  shows "\<exists>q' s'. put_loop l (cs @ ds) q s = put_loop l ds q' s' \<and> ioq_ok q' s' \<and> ioq_list q' = ioq_list q @ cs \<and>
    running_thread s' = running_thread s \<and> keeps s s' \<and> producer q' = producer q \<and> consumer q' \<in> {0, consumer q}"
  using assms
proof (induction cs arbitrary: q s)
  case Nil
  then show ?case by (intro exI [of _ q] exI [of _ s]) simp
next
  case (Cons c cs)
  have "length (ioq_list q) < 2047" using Cons.prems(2) by simp
  then obtain q1 s1 where 1: "ioq_putchar l c q s = Inr (True, q1, s1)" "ioq_ok q1 s1" "ioq_list q1 = ioq_list q @ [c]"
    "producer q1 = producer q" "roused (consumer q) s s1" "consumer q1 = 0" by (rule ioq_putchar_ok [OF Cons.prems(1)]) blast
  have "length (ioq_list q1) + length cs \<le> 2047" using arg_cong [OF 1(3), of length] Cons.prems(2) by simp
  from Cons.IH [OF 1(2) this] obtain q2 s2 where 2: "put_loop l (cs @ ds) q1 s1 = put_loop l ds q2 s2" "ioq_ok q2 s2"
    "ioq_list q2 = ioq_list q1 @ cs" "running_thread s2 = running_thread s1" "keeps s1 s2" "producer q2 = producer q1" "consumer q2 = 0" unfolding 1(6) by blast
  show ?case using 1 2 keeps_trans [OF _ 2(5), of s] by (intro exI [of _ q2] exI [of _ s2]) (simp add: roused_def)
qed

lemma get_loop_ok:
  assumes "ioq_ok q s" and "n \<le> length (ioq_list q)"
  shows "\<exists>q' s'. get_loop l n q s = Inr (take n (ioq_list q), 0, q', s') \<and> ioq_ok q' s' \<and> ioq_list q' = drop n (ioq_list q) \<and>
    running_thread s' = running_thread s"
  using assms
proof (induction n arbitrary: q s)
  case (Suc n)
  then have ne: "ioq_list q \<noteq> []" by (auto simp del: ioq_length_list)
  obtain q1 s1 where 1: "ioq_getchar l q s = Inr (Some (hd (ioq_list q)), q1, s1)" "ioq_ok q1 s1" "ioq_list q1 = tl (ioq_list q)"
    "roused (producer q) s s1" by (rule ioq_getchar_ok [OF Suc.prems(1) ne]) blast
  have "n \<le> length (ioq_list q1)" unfolding 1(3) using Suc.prems(2) by (simp del: ioq_length_list)
  from Suc.IH [OF 1(2) this] obtain q2 s2 where 2: "get_loop l n q1 s1 = Inr (take n (tl (ioq_list q)), 0, q2, s2)" "ioq_ok q2 s2"
    "ioq_list q2 = drop n (tl (ioq_list q))" "running_thread s2 = running_thread s1" unfolding 1(3) by blast
  then show ?case using 1 ne by (intro exI [of _ q2] exI [of _ s2]) (simp add: roused_def take_Suc drop_Suc)
qed auto

section \<open>Pipes\<close>

definition pipe_end :: "int \<Rightarrow> u32 \<Rightarrow> kio \<Rightarrow> bool" where
  "pipe_end fd a k \<longleftrightarrow> (\<exists>g. fd_local2global fd (kfs k) = Inr g \<and> pipe_at g k = Inr a)"

lemma pipe_endE:
  assumes "pipe_end fd a k"
  obtains g where "fd_local2global fd (kfs k) = Inr g" and "pipe_at g k = Inr a"
  using assms by (auto simp: pipe_end_def)

lemma pipe_end_cong: "pipe_end fd a k \<Longrightarrow> kfs k' = kfs k \<Longrightarrow> pipe_end fd a k'"
  by (simp add: pipe_end_def pipe_at_def)

lemma pipe_write_ok:
  assumes w: "pipe_end fd a k" and q: "ioq_ok (queues k a) (kth k)" and n: "unat count = length bs"
    and room: "length (ioq_list (queues k a)) + length bs \<le> 2047"
  obtains q' s' where "pipe_write fd bs count k = Inr (Some (int (length bs)), k\<lparr>kth := s', queues := (queues k)(a := q')\<rparr>)"
    and "ioq_ok q' s'" and "ioq_list q' = ioq_list (queues k a) @ bs" and "running_thread s' = running_thread (kth k)" and "keeps (kth k) s'"
proof -
  obtain q' s' where l: "put_loop (unat a) (bs @ []) (queues k a) (kth k) = put_loop (unat a) [] q' s'" "ioq_ok q' s'"
    "ioq_list q' = ioq_list (queues k a) @ bs" "running_thread s' = running_thread (kth k)" "keeps (kth k) s'"
    using put_loop_ok [OF q room] by blast
  have "length bs \<le> bufsize - ioq_length (queues k a)" using room by (simp add: bufsize_def)
  moreover obtain g where "fd_local2global fd (kfs k) = Inr g" "pipe_at g k = Inr a" by (rule pipe_endE [OF w])
  ultimately have "pipe_write fd bs count k = queue_put a bs k" using n by (simp add: pipe_write_def Let_def)
  then show ?thesis using that l by (simp add: queue_put_def)
qed

lemma pipe_read_ok:
  assumes r: "pipe_end fd a k" and q: "ioq_ok (queues k a) (kth k)" and m: "m = min (unat count) (length (ioq_list (queues k a)))"
  obtains q' s' where "pipe_read fd count k = Inr (Some (int m), take m (ioq_list (queues k a)), k\<lparr>kth := s', queues := (queues k)(a := q')\<rparr>)"
    and "ioq_ok q' s'" and "ioq_list q' = drop m (ioq_list (queues k a))" and "running_thread s' = running_thread (kth k)"
proof -
  have le: "m \<le> length (ioq_list (queues k a))" by (simp add: m)
  obtain q' s' where l: "get_loop (unat a) m (queues k a) (kth k) = Inr (take m (ioq_list (queues k a)), 0, q', s')" "ioq_ok q' s'"
    "ioq_list q' = drop m (ioq_list (queues k a))" "running_thread s' = running_thread (kth k)"
    using get_loop_ok [OF q le] by blast
  have "(if ioq_length (queues k a) > unat count then unat count else ioq_length (queues k a)) = m" by (simp add: m)
  moreover obtain g where "fd_local2global fd (kfs k) = Inr g" "pipe_at g k = Inr a" by (rule pipe_endE [OF r])
  ultimately have "pipe_read fd count k = queue_get a m k" by (simp add: pipe_read_def Let_def)
  then show ?thesis using that l by (simp add: queue_get_def)
qed


lemma ioq_putchar_full:
  assumes ok: "ioq_ok q s" and full: "length (ioq_list q) = 2047" and idle: "running_thread s \<noteq> idle_thread s"
    and run: "ctls s (running_thread s) = Run" and free: "holder (locks s l) = 0" and alone: "producer q = 0" "consumer q = 0"
  obtains s' where "ioq_putchar l c q s = Inr (False, q\<lparr>producer := running_thread s\<rparr>, s')"
    and "ioq_ok (q\<lparr>producer := running_thread s\<rparr>) s'" and "st s' (running_thread s) = Some TASK_BLOCKED"
    and "holder (locks s' l) = running_thread s"
proof -
  note p = ioq_okD [OF ok]
  have nz: "running_thread s \<noteq> 0" by (rule running_nonzero [OF p(2)])
  have v: "sema_value (semaphore (locks s l)) = 1" using linvD(1) [OF p(3), of l] free by (auto simp: lock_state_def)
  obtain s1 where 1: "lock_take l s = Inr s1" "sched_inv s1" "linv s1" "same_life s s1" "running_thread s1 = running_thread s"
    "st s1 = st s" "ctls s1 = (ctls s)(running_thread s := Run)"
    "locks s1 = (locks s)(l := \<lparr>holder = running_thread s, semaphore = (semaphore (locks s l))\<lparr>sema_value := 0\<rparr>, holder_repeat_nr = 1\<rparr>)"
    by (rule lock_take_free [OF p(2,3) v]) (use run in simp, blast)
  have pl: "linv (park TASK_BLOCKED s1)" by (rule park_linv_Run [OF 1(2,3)]) (simp add: 1(5,7))
  have i1: "running_thread s1 \<noteq> idle_thread s1" using idle 1(4,5) by (simp add: same_life_def)
  obtain s2 where 2: "thread_block TASK_BLOCKED s1 = Inr s2" "sched_inv s2" "linv s2" "keeps s1 s2"
    "st s2 (running_thread s1) = (if thread_ready_list s1 = [] \<and> running_thread s1 = idle_thread s1 then Some TASK_RUNNING else Some TASK_BLOCKED)"
    by (rule thread_block_ok [OF 1(2) _ _ pl]) (simp add: blocked_status_def, simp, blast)
  have fl: "ioq_full q" using ring.full_iff [OF p(1)] full by simp
  have la: "lock_acquire l s = Inr s1" using 1(1) free nz by (simp add: lock_acquire_def)
  have "ioq_putchar l c q s = Inr (False, q\<lparr>producer := running_thread s\<rparr>, s2)"
    using fl la 1(5,8) 2(1) alone(1) by (simp add: ioq_putchar_def put_locked_def ioq_wait_def)
  moreover have b: "st s2 (running_thread s) = Some TASK_BLOCKED" using 2(5) i1 1(5) by simp
  moreover have "holder (locks s2 l) = running_thread s" using 2(4) 1(8) by (simp add: keeps_def)
  moreover have "ctls s2 (running_thread s) = Run" using 2(4) 1(7) by (simp add: keeps_def)
  then have "ioq_ok (q\<lparr>producer := running_thread s\<rparr>) s2"
    using p(1) 2(2,3) b alone nz by (simp add: ioq_ok_def waiter_ok_def)
  ultimately show ?thesis using that by blast
qed


section \<open>A sample pipe\<close>

definition sample_pipe :: "kthreads \<Rightarrow> kio" where
  "sample_pipe s =
     \<lparr>kfs = sample_fs\<lparr>cur_fds := [0, 1, 2, 3, 3, -1, -1, -1],
        file_table := (replicate 32 \<lparr>fd_pos = 0, fd_flag = 0, fd_inode = NoInode\<rparr>)[3 := \<lparr>fd_pos = 2, fd_flag = 0xFFFF, fd_inode = PipeAt 0xc0200000\<rparr>]\<rparr>,
      kth = s, queues = (\<lambda>_. zero_ioq), kbd_buf = 0xc0300000, screen = []\<rparr>"

lemma sample_pipe_ends: "pipe_end 3 0xc0200000 (sample_pipe s)" "pipe_end 4 0xc0200000 (sample_pipe s)"
  by (simp_all add: pipe_end_def pipe_at_def fd_local2global_def sample_pipe_def byte_at_def)

lemma sample_pipe_kth: "kth (sample_pipe s) = s"
  by (simp add: sample_pipe_def)

lemma sample_pipe_ok:
  assumes "booted s" and "ctls s = (\<lambda>_. Run)"
  shows "ioq_ok (queues (sample_pipe s) a) (kth (sample_pipe s))" "ioq_list (queues (sample_pipe s) a) = []"
    "producer (queues (sample_pipe s) a) = 0" "consumer (queues (sample_pipe s) a) = 0"
  using assms
  by (simp_all add: booted_def kinv_def sample_pipe_def ioq_ok_def waiter_ok_def ioq_inv_def ioq_list_def ioq_length_def zero_ioq_def bufsize_def)



end
