(* ===== verification/Keyboard.thy ===== *)
theory Keyboard
  imports Pipe_Props
begin

text \<open>
  Model of \<^verbatim>\<open>device/keyboard.c\<close>: the interrupt handler turns the scancodes of the keyboard controller into
  characters in the ring buffer \<^verbatim>\<open>kbd_buf\<close>, and keeps track of the modifier keys.
\<close>

record keyboard =
  ctrl_status :: bool
  shift_status :: bool
  alt_status :: bool
  caps_lock_status :: bool
  ext_scancode :: bool

definition keymap :: "(u8 \<times> u8) list" where
  "keymap =
    [(0, 0), (27, 27), (49, 33), (50, 64), (51, 35), (52, 36), (53, 37), (54, 94),
     (55, 38), (56, 42), (57, 40), (48, 41), (45, 95), (61, 43), (8, 8), (9, 9),
     (113, 81), (119, 87), (101, 69), (114, 82), (116, 84), (121, 89), (117, 85), (105, 73),
     (111, 79), (112, 80), (91, 123), (93, 125), (13, 13), (0, 0), (97, 65), (115, 83),
     (100, 68), (102, 70), (103, 71), (104, 72), (106, 74), (107, 75), (108, 76), (59, 58),
     (39, 34), (96, 126), (0, 0), (92, 124), (122, 90), (120, 88), (99, 67), (118, 86),
     (98, 66), (110, 78), (109, 77), (44, 60), (46, 62), (47, 63), (0, 0), (42, 42),
     (0, 0), (32, 32), (0, 0)]"

text \<open>The keys with two symbols, as opposed to the letters, which the caps lock changes too.\<close>

definition two_symbols :: "u16 \<Rightarrow> bool" where
  "two_symbols scancode \<longleftrightarrow> scancode < 0x0e \<or> scancode \<in> {0x29, 0x1a, 0x1b, 0x2b, 0x27, 0x28, 0x33, 0x34, 0x35}"

definition use_shift :: "u16 \<Rightarrow> keyboard \<Rightarrow> bool" where
  "use_shift scancode kb \<longleftrightarrow>
     (if two_symbols scancode then shift_status kb
      else if shift_status kb \<and> caps_lock_status kb then False
      else if shift_status kb \<or> caps_lock_status kb then True
      else False)"

text \<open>What a key does: nothing more, a character for the buffer, or the message on an unknown key.\<close>

datatype key_event = NoKey | Typed u8 | UnknownKey

definition break_key :: "u16 \<Rightarrow> keyboard \<Rightarrow> keyboard" where
  "break_key make_code kb =
     (if make_code = 0x1d \<or> make_code = 0xe01d then kb\<lparr>ctrl_status := False\<rparr>
      else if make_code = 0x38 \<or> make_code = 0xe038 then kb\<lparr>alt_status := False\<rparr>
      else if make_code = 0x2a \<or> make_code = 0x36 then kb\<lparr>shift_status := False\<rparr>
      else kb)"

definition hold_key :: "u16 \<Rightarrow> keyboard \<Rightarrow> keyboard" where
  "hold_key scancode kb =
     (if scancode = 0x1d \<or> scancode = 0xe01d then kb\<lparr>ctrl_status := True\<rparr>
      else if scancode = 0x2a \<or> scancode = 0x36 then kb\<lparr>shift_status := True\<rparr>
      else if scancode = 0x38 \<or> scancode = 0xe038 then kb\<lparr>alt_status := True\<rparr>
      else if scancode = 0x3a then kb\<lparr>caps_lock_status := \<not> caps_lock_status kb\<rparr>
      else kb)"

definition make_key :: "u16 \<Rightarrow> keyboard \<Rightarrow> (keyboard \<times> key_event) result" where
  "make_key scancode kb =
     (let shift = use_shift scancode kb; scancode = scancode AND 0x00ff in
      bindR (byte_at keymap (unat scancode)) (\<lambda>e.
      let cur_char = (if shift then snd e else fst e) in
      if cur_char \<noteq> 0 then
        Inr (kb, Typed (if ctrl_status kb \<and> cur_char = 108 \<or> ctrl_status kb \<and> cur_char = 117 then cur_char - 97 else cur_char))
      else Inr (hold_key scancode kb, NoKey)))"

definition scan :: "u8 \<Rightarrow> keyboard \<Rightarrow> (keyboard \<times> key_event) result" where
  "scan byte kb =
     (let scancode = ucast byte :: u16 in
      if scancode = 0xe0 then Inr (kb\<lparr>ext_scancode := True\<rparr>, NoKey)
      else
        let scancode = (if ext_scancode kb then 0xe000 OR scancode else scancode);
            kb = kb\<lparr>ext_scancode := False\<rparr>
        in if scancode AND 0x0080 \<noteq> 0 then Inr (break_key (scancode AND 0xff7f) kb, NoKey)
           else if 0 < scancode \<and> scancode < 0x3b \<or> scancode = 0xe038 \<or> scancode = 0xe01d then make_key scancode kb
           else Inr (kb, UnknownKey))"

definition unknow_key :: "u8 list" where
  "unknow_key = map of_char ''unknow key '' @ [10]"

definition intr_keyboard_handler :: "u8 \<Rightarrow> keyboard \<Rightarrow> kio \<Rightarrow> (keyboard \<times> kio) result" where
  "intr_keyboard_handler byte kb k =
     bindR (scan byte kb) (\<lambda>(kb, ev). case ev of
         NoKey \<Rightarrow> Inr (kb, k)
       | UnknownKey \<Rightarrow> Inr (kb, k\<lparr>screen := screen k @ unknow_key\<rparr>)
       | Typed c \<Rightarrow>
           let a = kbd_buf k in
           if ioq_full (queues k a) then Inr (kb, k)
           else mapR (\<lambda>(_, q, s). (kb, k\<lparr>kth := s, queues := (queues k)(a := q)\<rparr>)) (ioq_putchar (unat a) c (queues k a) (kth k)))"

definition keyboard_init :: "kio \<Rightarrow> kio" where
  "keyboard_init k =
     (let (q, s) = ioqueue_init (unat (kbd_buf k)) (queues k (kbd_buf k)) (kth k)
      in k\<lparr>kth := s, queues := (queues k)(kbd_buf k := q)\<rparr>)"

section \<open>A keyboard layout\<close>

text \<open>The layout, row by row, independent of the driver's table.\<close>

definition letters :: "(nat \<times> string) list" where
  "letters = [(0x10, ''qwertyuiop''), (0x1e, ''asdfghjkl''), (0x2c, ''zxcvbnm'')]"

definition symbols :: "(nat \<times> string \<times> string) list" where
  "symbols = [(0x02, ''1234567890-='', ''!@#$%^&*()_+''), (0x1a, ''[]'', ''{}''), (0x27, '';'' @ [CHR 0x27, CHR 0x60], '':'' @ [CHR 0x22] @ ''~''),
     (0x2b, [CHR 0x5c], ''|''), (0x33, '',./'', ''<>?''), (0x37, ''*'', ''*''), (0x39, '' '', '' '')]"

definition controls :: "(nat \<times> u8) list" where
  "controls = [(0x01, 27), (0x0e, 8), (0x0f, 9), (0x1c, 13)]"

fun in_row :: "nat \<Rightarrow> (nat \<times> string) list \<Rightarrow> u8 option" where
  "in_row n [] = None"
| "in_row n ((b, r) # rs) = (if b \<le> n \<and> n < b + length r then Some (of_char (r ! (n - b))) else in_row n rs)"

definition typed :: "nat \<Rightarrow> keyboard \<Rightarrow> u8 option" where
  "typed n kb =
     (case in_row n letters of
        Some c \<Rightarrow> Some (if shift_status kb \<noteq> caps_lock_status kb then c - 32
                        else if ctrl_status kb \<and> n \<in> {0x26, 0x16} then c - 97 else c)
      | None \<Rightarrow>
          (case in_row n (map (\<lambda>(b, r, r'). (b, if shift_status kb then r' else r)) symbols) of
             Some c \<Rightarrow> Some c
           | None \<Rightarrow> map_of controls n))"

definition press :: "nat \<Rightarrow> bool \<Rightarrow> bool \<Rightarrow> keyboard \<Rightarrow> keyboard" where
  "press key ext down kb =
     (if key = 0x1d then kb\<lparr>ctrl_status := down\<rparr>
      else if key = 0x38 then kb\<lparr>alt_status := down\<rparr>
      else if ext then kb
      else if key \<in> {0x2a, 0x36} then kb\<lparr>shift_status := down\<rparr>
      else if key = 0x3a \<and> down then kb\<lparr>caps_lock_status := \<not> caps_lock_status kb\<rparr>
      else kb)"

definition key_ref :: "nat \<Rightarrow> keyboard \<Rightarrow> keyboard \<times> key_event" where
  "key_ref n kb =
     (if n = 0xe0 then (kb\<lparr>ext_scancode := True\<rparr>, NoKey)
      else let ext = ext_scancode kb; kb = kb\<lparr>ext_scancode := False\<rparr> in
        if 0x80 \<le> n then (press (n - 0x80) ext False kb, NoKey)
        else if ext \<and> n \<notin> {0x1d, 0x38} \<or> n = 0 \<or> 0x3b \<le> n then (kb, UnknownKey)
        else case typed n kb of Some c \<Rightarrow> (kb, Typed c) | None \<Rightarrow> (press n ext True kb, NoKey))"

lemmas scan_defs = scan_def key_ref_def break_key_def press_def Let_def
lemmas key_defs = make_key_def hold_key_def use_shift_def two_symbols_def keymap_def typed_def letters_def symbols_def controls_def byte_at_def

lemma scan_make1: "\<forall>n\<in>set [0..<0x10]. scan (of_nat n) kb = Inr (key_ref n kb)"
  by (simp add: upt_rec scan_defs key_defs)

lemma scan_make2: "\<forall>n\<in>set [0x10..<0x20]. scan (of_nat n) kb = Inr (key_ref n kb)"
  by (simp add: upt_rec scan_defs key_defs)

lemma scan_make3: "\<forall>n\<in>set [0x20..<0x30]. scan (of_nat n) kb = Inr (key_ref n kb)"
  by (simp add: upt_rec scan_defs key_defs)

lemma scan_make4: "\<forall>n\<in>set [0x30..<0x3b]. scan (of_nat n) kb = Inr (key_ref n kb)"
  by (simp add: upt_rec scan_defs key_defs)

text \<open>The codes above the table need only arithmetic.\<close>

lemma ucast_byte: "n < 256 \<Longrightarrow> (ucast (of_nat n :: u8) :: u16) = of_nat n"
  by (simp add: unsigned_of_nat take_bit_nat_eq_self)

lemma of_nat_u16: "n < 65536 \<Longrightarrow> (of_nat n :: u16) = w \<longleftrightarrow> n = unat w"
  by (auto simp: unsigned_of_nat take_bit_nat_eq_self)

lemma unknown_bits: "\<forall>n\<in>set [0x3b..<0x80]. of_nat n AND 0x80 = (0 :: u16) \<and> (0xe000 OR of_nat n) AND 0x80 = (0 :: u16) \<and>
    \<not> of_nat n < (0x3b :: u16) \<and> \<not> 0xe000 OR of_nat n < (0x3b :: u16) \<and> of_nat n \<notin> {0xe0, 0xe038, 0xe01d :: u16} \<and>
    0xe000 OR of_nat n \<notin> {0xe038, 0xe01d :: u16}"
  by (simp add: upt_rec)

lemma break_bits: "\<forall>n\<in>set [0x80..<0x100]. of_nat n AND 0x80 = (0x80 :: u16) \<and> (0xe000 OR of_nat n) AND 0x80 = (0x80 :: u16) \<and>
    of_nat n AND 0xff7f = (of_nat (n - 0x80) :: u16) \<and> (0xe000 OR of_nat n) AND 0xff7f = (of_nat (0xe000 + (n - 0x80)) :: u16)"
  by (simp add: upt_rec)

lemma scan_unknown:
  assumes "0x3b \<le> n" "n < 0x80"
  shows "scan (of_nat n) kb = Inr (key_ref n kb)"
proof -
  have u: "(ucast (of_nat n :: u8) :: u16) = of_nat n" using assms ucast_byte by simp
  have "n \<in> set [0x3b..<0x80]" unfolding set_upt using assms by simp
  note b = bspec [OF unknown_bits this]
  then show ?thesis using assms unfolding scan_def key_ref_def Let_def u by auto
qed

lemma scan_break:
  assumes "0x80 \<le> n" "n < 0x100"
  shows "scan (of_nat n) kb = Inr (key_ref n kb)"
proof -
  have u: "(ucast (of_nat n :: u8) :: u16) = of_nat n" using assms ucast_byte by simp
  have e0: "(of_nat n :: u16) = 0xe0 \<longleftrightarrow> n = 0xe0" using of_nat_u16 [of n] assms by simp
  have "n \<in> set [0x80..<0x100]" unfolding set_upt using assms by simp
  note b = bspec [OF break_bits this]
  have c: "break_key (of_nat (n - 0x80)) k = press (n - 0x80) False False k"
    "break_key (of_nat (0xe000 + (n - 0x80))) k = press (n - 0x80) True False k" for k :: keyboard
    using of_nat_u16 [of "n - 0x80"] of_nat_u16 [of "0xe000 + (n - 0x80)"] assms by (auto simp: break_key_def press_def)
  show ?thesis using b c assms unfolding scan_def key_ref_def Let_def u e0 by auto
qed

lemma scan_make: "n < 0x3b \<Longrightarrow> scan (of_nat n) kb = Inr (key_ref n kb)"
  using bspec [OF scan_make1 [of kb], of n] bspec [OF scan_make2 [of kb], of n] bspec [OF scan_make3 [of kb], of n] bspec [OF scan_make4 [of kb], of n]
  unfolding set_upt atLeastLessThan_iff by (meson not_less zero_le)

lemma scan_eq: "scan byte kb = Inr (key_ref (unat byte) kb)"
proof -
  have "unat byte < 0x100" using unsigned_less [of byte] by simp
  then have "scan (of_nat (unat byte)) kb = Inr (key_ref (unat byte) kb)"
    using scan_make [of "unat byte" kb] scan_unknown [of "unat byte" kb] scan_break [of "unat byte" kb] by (meson not_less)
  then show ?thesis by simp
qed



end
