(* ===== verification/Stdio.thy ===== *)
theory Stdio
  imports Pipe
begin

text \<open>
  Model of \<^verbatim>\<open>lib/stdio.c\<close> and \<^verbatim>\<open>lib/kernel/stdio_kernel.c\<close>: formatted output. The buffer that is written is a
  list of bytes with the position of \<^verbatim>\<open>buf_ptr\<close>; an argument of the variable list is a 32-bit slot, which may be
  a pointer to a string.
\<close>

datatype vararg = Num u32 | Ptr u32 "u8 list"

fun slot :: "vararg \<Rightarrow> u32" where
  "slot (Num n) = n"
| "slot (Ptr p s) = p"

type_synonym cursor = "u8 list \<times> nat"

definition emit :: "u8 \<Rightarrow> cursor \<Rightarrow> cursor result" where
  "emit c w = mapR (\<lambda>b. (b, Suc (snd w))) (set_byte_at (fst w) (snd w) c)"

definition digit :: "u32 \<Rightarrow> u8" where
  "digit m = (if m < 10 then ucast m + 48 else ucast m - 10 + 65)"

text \<open>\<^verbatim>\<open>itoa\<close>; base 1 would recurse without end, base 0 raises the divide exception.\<close>

function itoa :: "u32 \<Rightarrow> u8 \<Rightarrow> cursor \<Rightarrow> cursor result" where
  "itoa val base w =
     (if base = 0 then Inl (KPanic ''#DE Divide Error'')
      else let m = val mod ucast base; i = val div ucast base in
        bindR (if i \<noteq> 0 then (if base = 1 then Inl Diverges else itoa i base w) else Inr w) (emit (digit m)))"
  by pat_completeness auto
termination
proof (relation "measure (\<lambda>(v, b, w). unat v)")
  fix val :: u32 and base :: u8 and w :: cursor and m i :: u32
  assume b: "base \<noteq> 0" "base \<noteq> 1" and i: "i = val div ucast base" "i \<noteq> 0"
  have "unat base \<noteq> unat (0 :: u8)" "unat base \<noteq> unat (1 :: u8)" using b unsigned_word_eqI by metis+
  then have "1 < unat base" by simp
  moreover have "val \<noteq> 0" using i by auto
  then have "unat val \<noteq> 0" by (metis unsigned_0 unsigned_word_eqI)
  ultimately show "((i, base, w), (val, base, w)) \<in> measure (\<lambda>(v, b, w). unat v)"
    by (simp add: i(1) unat_div unat_ucast_8_32)
qed simp

declare itoa.simps [simp del]

definition put_string :: "u8 list \<Rightarrow> cursor \<Rightarrow> cursor result" where
  "put_string s w =
     bindR (strcpy (Some (drop (snd w) (fst w))) (Some s)) (\<lambda>t.
     mapR (\<lambda>n. (take (snd w) (fst w) @ t, snd w + n)) (strlen (Some s)))"

definition conv :: "u8 \<Rightarrow> vararg \<Rightarrow> cursor \<Rightarrow> cursor result" where
  "conv d a w =
     (if d = 115 then
        (case a of Ptr p s \<Rightarrow> put_string s w
         | Num n \<Rightarrow> if n = 0 then Inl (AssertFail ''dst_ != NULL && src_ != NULL'') else Inl PageFault)
      else if d = 99 then emit (ucast (slot a)) w
      else if d = 100 then
        (if sint (slot a) < 0 then bindR (emit 45 w) (itoa (0 - slot a) 10) else itoa (slot a) 10 w)
      else itoa (slot a) 16 w)"

definition conversions :: "u8 set" where
  "conversions = {115, 99, 100, 120}"

text \<open>The loop of \<^verbatim>\<open>vsprintf\<close>. A percent sign before any other character is dropped; an argument that was not passed
  is read from the stack behind the list.\<close>

fun vs_loop :: "u8 list \<Rightarrow> vararg list \<Rightarrow> cursor \<Rightarrow> cursor result" where
  "vs_loop [] args w = Inl OutOfBounds"
| "vs_loop (c # f) args w =
     (if c = 0 then Inr w
      else if c \<noteq> 37 then bindR (emit c w) (vs_loop f args)
      else case f of
        [] \<Rightarrow> Inl OutOfBounds
      | d # f' \<Rightarrow>
          if d \<in> conversions then
            (case args of [] \<Rightarrow> Inl OutOfBounds | a # args' \<Rightarrow> bindR (conv d a w) (vs_loop f' args'))
          else vs_loop f args w)"

definition vsprintf :: "u8 list \<Rightarrow> u8 list \<Rightarrow> vararg list \<Rightarrow> (nat \<times> u8 list) result" where
  "vsprintf str fmt args =
     bindR (vs_loop fmt args (str, 0)) (\<lambda>(buf, pos). mapR (\<lambda>n. (n, buf)) (strlen (Some buf)))"

definition sprintf :: "u8 list \<Rightarrow> u8 list \<Rightarrow> vararg list \<Rightarrow> (nat \<times> u8 list) result" where
  "sprintf = vsprintf"

definition printf :: "u8 list \<Rightarrow> vararg list \<Rightarrow> kio \<Rightarrow> (int option \<times> kio) result" where
  "printf fmt args k =
     bindR (vsprintf (replicate 1024 0) fmt args) (\<lambda>(_, buf).
     bindR (strlen (Some buf)) (\<lambda>n. sys_write 1 buf (of_nat n) [] k))"

definition printk :: "u8 list \<Rightarrow> vararg list \<Rightarrow> kio \<Rightarrow> (bool \<times> kio) result" where
  "printk fmt args k = bindR (vsprintf (replicate 1024 0) fmt args) (\<lambda>(_, buf). console_put_str buf k)"

section \<open>Numbers\<close>

text \<open>The digits of a number and reading them back.\<close>

definition dig :: "nat \<Rightarrow> u8" where
  "dig d = (if d < 10 then of_nat (d + 48) else of_nat (d + 55))"

fun digits :: "nat \<Rightarrow> nat \<Rightarrow> u8 list" where
  "digits b n = (if b < 2 \<or> n < b then [dig n] else digits b (n div b) @ [dig (n mod b)])"

declare digits.simps [simp del]

definition undig :: "u8 \<Rightarrow> nat" where
  "undig c = (if unat c < 58 then unat c - 48 else unat c - 55)"

definition read_num :: "nat \<Rightarrow> u8 list \<Rightarrow> nat" where
  "read_num b cs = foldl (\<lambda>n c. b * n + undig c) 0 cs"

definition show_int :: "int \<Rightarrow> u8 list" where
  "show_int i = (if i < 0 then [45] else []) @ digits 10 (nat \<bar>i\<bar>)"

lemma unat_of_nat_u8: "n < 256 \<Longrightarrow> unat (of_nat n :: u8) = n"
  by (simp add: unsigned_of_nat take_bit_nat_eq_self)

lemma undig_dig: "d < 36 \<Longrightarrow> undig (dig d) = d"
  using unat_of_nat_u8 [of "d + 48"] unat_of_nat_u8 [of "d + 55"] by (auto simp: undig_def dig_def simp del: of_nat_add)

lemma digits_step: "2 \<le> b \<Longrightarrow> b \<le> n \<Longrightarrow> digits b n = digits b (n div b) @ [dig (n mod b)]"
  by (subst digits.simps) simp

lemma digits_one: "n < b \<Longrightarrow> digits b n = [dig n]"
  by (subst digits.simps) simp

lemma digits_induct [consumes 1, case_names one step]:
  assumes "2 \<le> b" and "\<And>n. n < b \<Longrightarrow> P n" and "\<And>n. b \<le> n \<Longrightarrow> P (n div b) \<Longrightarrow> P n"
  shows "P (n :: nat)"
proof (induction n rule: less_induct)
  case (less n)
  then show ?case using assms by (cases "n < b") (auto simp: not_less)
qed

lemma read_digits:
  assumes b: "2 \<le> b" "b \<le> 36"
  shows "read_num b (digits b n) = n"
  using b(1)
proof (induction n rule: digits_induct)
  case (one n)
  then show ?case using b by (simp add: digits_one read_num_def undig_dig)
next
  case (step n)
  have "n mod b < 36" using b mod_less_divisor [of b n] by linarith
  then show ?case using step b by (simp add: digits_step read_num_def undig_dig)
qed

lemma digits_length:
  assumes b: "2 \<le> b"
  shows "n < b ^ length (digits b n) \<and> (n \<noteq> 0 \<longrightarrow> b ^ (length (digits b n) - 1) \<le> n)"
  using b
proof (induction n rule: digits_induct)
  case (one n)
  then show ?case by (simp add: digits_one)
next
  case (step n)
  let ?l = "length (digits b (n div b))"
  have nz: "n div b \<noteq> 0" using step b by (simp add: div_eq_0_iff)
  have l: "length (digits b n) = Suc ?l" using step b by (simp add: digits_step)
  have l1: "?l \<noteq> 0" by (subst digits.simps) simp
  have "n div b < b ^ ?l" "b ^ (?l - 1) \<le> n div b" using step nz by blast+
  then have "n < b ^ Suc ?l" "b * b ^ (?l - 1) \<le> n"
    using b by (simp_all add: div_less_iff_less_mult less_eq_div_iff_mult_less_eq mult.commute)
  then show ?case using l l1 by (cases ?l) auto
qed

text \<open>Digits are no zero bytes, and small numbers have few of them.\<close>

lemma dig_nonzero: "d < 36 \<Longrightarrow> dig d \<noteq> 0"
  using undig_dig [of d] unat_of_nat_u8 [of "d + 48"] unat_of_nat_u8 [of "d + 55"]
  by (auto simp: dig_def simp del: of_nat_add split: if_splits)

lemma digits_nonzero:
  assumes "2 \<le> b" "b \<le> 36"
  shows "0 \<notin> set (digits b n)"
  using assms(1)
proof (induction n rule: digits_induct)
  case (one n)
  then show ?case using assms dig_nonzero [of n] by (simp add: digits_one)
next
  case (step n)
  have "n mod b < 36" using assms mod_less_divisor [of b n] by linarith
  then show ?case using step assms dig_nonzero [of "n mod b"] by (simp add: digits_step)
qed

lemma digits_short:
  assumes "2 \<le> b" and "n < b ^ m" and "0 < m"
  shows "length (digits b n) \<le> m"
proof (cases "n = 0")
  case True
  then show ?thesis using assms by (simp add: digits_one)
next
  case False
  then have "b ^ (length (digits b n) - 1) < b ^ m" using digits_length [OF assms(1), of n] assms(2) by simp
  then have "length (digits b n) - 1 < m" using assms(1) by (simp add: power_strict_increasing_iff)
  then show ?thesis by simp
qed

section \<open>What is printed\<close>

fun emits :: "u8 list \<Rightarrow> cursor \<Rightarrow> cursor result" where
  "emits [] w = Inr w"
| "emits (c # cs) w = bindR (emit c w) (emits cs)"

lemma emits_append: "emits (cs @ ds) w = bindR (emits cs w) (emits ds)"
  by (induction cs arbitrary: w) (simp_all add: bindR_def split: sum.split)

lemma emit_zeros: "emit c (out @ replicate n 0, length out) =
    (if n = 0 then Inl OutOfBounds else Inr ((out @ [c]) @ replicate (n - 1) 0, length (out @ [c])))"
  by (cases n) (simp_all add: emit_def set_byte_at_def list_update_append)

lemma emits_zeros: "emits cs (out @ replicate n 0, length out) =
    (if length cs \<le> n then Inr ((out @ cs) @ replicate (n - length cs) 0, length (out @ cs)) else Inl OutOfBounds)"
proof (induction cs arbitrary: out n)
  case (Cons c cs)
  show ?case
  proof (cases n)
    case (Suc k)
    then show ?thesis using Cons.IH [of "out @ [c]" k] emit_zeros [of c out n] by simp
  qed (simp add: emit_zeros [of c out 0, simplified])
qed simp

lemma unat_base: "2 \<le> unat base \<Longrightarrow> base \<noteq> 0 \<and> base \<noteq> (1 :: u8)"
  by auto

lemma unat_of_nat_u32: "n < 2 ^ 32 \<Longrightarrow> unat (of_nat n :: u32) = n"
  by (simp add: unsigned_of_nat take_bit_nat_eq_self)

lemma digit_dig: "digit m = dig (unat m)"
proof -
  have "m < 10 \<longleftrightarrow> unat m < 10" by (simp add: word_less_nat_alt)
  moreover have "(ucast m :: u8) = of_nat (unat m)" by simp
  ultimately show ?thesis by (simp add: digit_def dig_def)
qed

lemma emits_Nil [simp]: "emits [] = Inr"
  by (rule ext) simp

lemma bindR_Inr [simp]: "bindR m Inr = m"
  by (cases m) simp_all

lemma emits_one [simp]: "emits [c] = emit c"
  by (rule ext) simp

lemma itoa_emits:
  assumes b: "2 \<le> unat base"
  shows "itoa val base w = emits (digits (unat base) (unat val)) w"
proof (induction "unat val" arbitrary: val rule: less_induct)
  case less
  let ?b = "unat base" and ?i = "val div ucast base" and ?m = "val mod ucast base"
  have u: "unat ?i = unat val div ?b" "unat ?m = unat val mod ?b" by (simp_all add: unat_div unat_mod unat_ucast_8_32)
  have nz: "?i = 0 \<longleftrightarrow> unat val < ?b" using u(1) b by (metis div_eq_0_iff not_numeral_le_zero unsigned_0 unsigned_word_eqI)
  have it: "itoa val base w = bindR (if ?i \<noteq> 0 then itoa ?i base w else Inr w) (emit (dig (unat val mod ?b)))"
    using unat_base [OF b] by (subst itoa.simps) (simp add: Let_def digit_dig u)
  show ?case
  proof (cases "unat val < ?b")
    case True
    then show ?thesis using it nz by (simp add: digits_one)
  next
    case False
    then have "unat ?i < unat val" unfolding u(1) using b by simp
    from less [OF this] have "itoa ?i base w = emits (digits ?b (unat val div ?b)) w" unfolding u(1) .
    then show ?thesis using it nz False b by (simp add: digits_step emits_append)
  qed
qed

text \<open>
  C31. \<^verbatim>\<open>itoa\<close> prints any 32-bit number in any base from 2 to 36: it writes as many digits as the number has, no leading
  zeros, at the cursor and nowhere else, and reading the digits back gives the number.
\<close>

theorem itoa_prints_number:
  assumes "2 \<le> unat base" and "unat base \<le> 36" and "32 \<le> n"
  shows "\<exists>ds. itoa val base (out @ replicate n 0, length out) = Inr (out @ ds @ replicate (n - length ds) 0, length out + length ds) \<and>
     read_num (unat base) ds = unat val \<and> unat val < unat base ^ length ds \<and>
     (val \<noteq> 0 \<longrightarrow> unat base ^ (length ds - 1) \<le> unat val) \<and> length ds \<le> 32"
proof -
  define ds where "ds = digits (unat base) (unat val)"
  have len: "unat val < unat base ^ length ds" "unat val \<noteq> 0 \<longrightarrow> unat base ^ (length ds - 1) \<le> unat val"
    using digits_length [OF assms(1)] unfolding ds_def by blast+
  have "length ds \<le> 32"
  proof (rule ccontr)
    assume a: "\<not> length ds \<le> 32"
    have "digits (unat base) 0 = [dig 0]" using assms(1) by (simp add: digits_one)
    then have "unat val \<noteq> 0" using a by (intro notI) (simp add: ds_def)
    then have "(2 :: nat) ^ (length ds - 1) \<le> unat val"
      using len(2) power_mono [OF assms(1), of "length ds - 1"] by linarith
    moreover have "(2 :: nat) ^ 32 \<le> 2 ^ (length ds - 1)" using a by (intro power_increasing) auto
    moreover have "unat val < 2 ^ 32" using unsigned_less [of val] by simp
    ultimately show False by linarith
  qed
  moreover have "val \<noteq> 0 \<longrightarrow> unat val \<noteq> 0" by (metis unsigned_0 unsigned_word_eqI)
  moreover have "itoa val base w = emits ds w" for w unfolding ds_def by (rule itoa_emits [OF assms(1)])
  moreover have "read_num (unat base) ds = unat val" unfolding ds_def by (rule read_digits [OF assms(1,2)])
  ultimately show ?thesis using emits_zeros [of ds out n] len assms(3) by (intro exI [of _ ds]) simp
qed

theorem itoa_prints_number_witness:
  "\<exists>ds. itoa 4294967295 10 ([45] @ replicate 40 0, length [45 :: u8]) = Inr ([45] @ ds @ replicate (40 - length ds) 0, length [45 :: u8] + length ds) \<and>
     read_num 10 ds = 4294967295"
  using itoa_prints_number [of 10 40 4294967295 "[45]"] by auto

section \<open>Formats\<close>

text \<open>What a format and its arguments stand for.\<close>

fun arg_text :: "u8 \<Rightarrow> vararg \<Rightarrow> u8 list option" where
  "arg_text d (Num n) =
     (if d = 115 then None else Some (if d = 99 then [ucast n] else if d = 100 then show_int (sint n) else digits 16 (unat n)))"
| "arg_text d (Ptr p s) =
     (if d = 115 then (if 0 \<in> set s then Some (str_of s) else None)
      else Some (if d = 99 then [ucast p] else if d = 100 then show_int (sint p) else digits 16 (unat p)))"

fun render :: "u8 list \<Rightarrow> vararg list \<Rightarrow> u8 list option" where
  "render [] args = Some []"
| "render (c # f) args =
     (if c \<noteq> 37 then map_option (Cons c) (render f args)
      else case f of
        [] \<Rightarrow> Some []
      | d # f' \<Rightarrow>
          if d \<in> conversions then
            (case args of [] \<Rightarrow> None
             | a # args' \<Rightarrow> Option.bind (arg_text d a) (\<lambda>t. map_option ((@) t) (render f' args')))
          else render f args)"

lemma put_string_zeros:
  assumes "0 \<in> set s"
  shows "put_string s (out @ replicate n 0, length out) =
    (if length (str_of s) < n then Inr ((out @ str_of s) @ replicate (n - length (str_of s)) 0, length (out @ str_of s)) else Inl OutOfBounds)"
proof -
  have h: "holds_str s (str_of s)" using assms by (simp add: holds_str_iff)
  show ?thesis
  proof (cases "length (str_of s) < n")
    case True
    have "0 # replicate (n - Suc (length (str_of s))) 0 = replicate (n - length (str_of s)) (0 :: u8)"
      using True by (simp add: Suc_diff_Suc flip: replicate_Suc)
    then show ?thesis
      using True strcpy_loop_eq [OF h, of "replicate n 0"] strlen_loop_eq [OF h] by (simp add: put_string_def strcpy_def strlen_def)
  next
    case False
    then show ?thesis using strcpy_loop_small [OF h, of "replicate n 0"] by (simp add: put_string_def strcpy_def)
  qed
qed

lemma sint_neg_unat: "sint (n :: u32) < 0 \<Longrightarrow> unat (0 - n) = nat \<bar>sint n\<bar>"
proof -
  assume "sint n < 0"
  then have b: "2 ^ 31 \<le> uint n" "sint n = uint n - 2 ^ 32" using uint_ge_0 [of n] by (simp_all add: sint_u32 split: if_splits)
  have l: "uint n < 2 ^ 32" using uint_lt2p [of n] by simp
  have "uint (0 - n) = (- uint n) mod 2 ^ 32" by (simp add: uint_word_ariths)
  also have "\<dots> = (2 ^ 32 - uint n) mod 2 ^ 32" by (simp add: mod_diff_left_eq [symmetric])
  also have "\<dots> = 2 ^ 32 - uint n" using b(1) l by (intro mod_pos_pos_trivial) simp_all
  finally have "unat (0 - n) = nat (2 ^ 32 - uint n)" unfolding unat_eq_nat_uint by simp
  then show ?thesis using b l by simp
qed

lemma sint_pos_unat: "0 \<le> sint (n :: u32) \<Longrightarrow> unat n = nat \<bar>sint n\<bar>"
  using uint_lt2p [of n] by (auto simp: sint_u32 split: if_splits)

lemma itoa_fun: "itoa val 10 = emits (digits 10 (unat val))" "itoa val 16 = emits (digits 16 (unat val))"
  using itoa_emits [of 10 val] itoa_emits [of 16 val] by auto

lemma conv_zeros:
  assumes d: "d \<in> conversions" and t: "arg_text d a = Some t"
  shows "conv d a (out @ replicate n 0, length out) =
    (if length t < n \<or> length t = n \<and> d \<noteq> 115 then Inr ((out @ t) @ replicate (n - length t) 0, length (out @ t)) else Inl OutOfBounds)"
proof -
  have i: "conv d a w = emits t w" if "d \<noteq> 115" for w
  proof -
    have "conv d a w = (if d = 99 then emits [ucast (slot a)] w
      else if d = 100 then emits (show_int (sint (slot a))) w else emits (digits 16 (unat (slot a))) w)"
      using that sint_neg_unat [of "slot a"] sint_pos_unat [of "slot a"]
      by (auto simp: conv_def show_int_def emits_append itoa_fun)
    moreover have "t = (if d = 99 then [ucast (slot a)] else if d = 100 then show_int (sint (slot a)) else digits 16 (unat (slot a)))"
      using t that by (cases a) auto
    ultimately show ?thesis by simp
  qed
  show ?thesis
  proof (cases "d = 115")
    case True
    then obtain p s where a: "a = Ptr p s" "0 \<in> set s" "t = str_of s" using t by (cases a) (auto split: if_splits)
    then show ?thesis using True put_string_zeros [OF a(2), of out n] by (auto simp: conv_def)
  next
    case False
    then show ?thesis using i emits_zeros [of t out n] by auto
  qed
qed

text \<open>What fits is rendered; what does not is written behind the buffer. Without \<^verbatim>\<open>%s\<close> at its end an output may
  fill the buffer to the last byte.\<close>

definition zeros :: "u8 list \<Rightarrow> nat \<Rightarrow> cursor" where
  "zeros pre n = (pre @ replicate n 0, length pre)"

definition renders :: "u8 list \<Rightarrow> nat \<Rightarrow> u8 list \<Rightarrow> cursor result \<Rightarrow> bool" where
  "renders out n pre x \<longleftrightarrow>
     (case x of Inr w \<Rightarrow> length out \<le> n \<and> w = zeros (pre @ out) (n - length out) | Inl e \<Rightarrow> e = OutOfBounds \<and> n \<le> length out)"

lemma renders_bind:
  assumes "x = (if length t < n \<or> length t = n \<and> b then Inr (zeros (pre @ t) (n - length t)) else Inl OutOfBounds)"
    and "length t \<le> n \<Longrightarrow> renders out (n - length t) (pre @ t) (g (zeros (pre @ t) (n - length t)))"
  shows "renders (t @ out) n pre (bindR x g)"
proof (cases "length t < n \<or> length t = n \<and> b")
  case True
  then have "renders out (n - length t) (pre @ t) (g (zeros (pre @ t) (n - length t)))" using assms(2) by linarith
  then show ?thesis using True assms(1) by (auto simp: renders_def split: sum.splits)
qed (use assms(1) in \<open>auto simp: renders_def\<close>)

lemma vs_loop_renders:
  assumes "0 \<notin> set f" and "render f args = Some out"
  shows "renders out n pre (vs_loop (f @ 0 # r) args (zeros pre n))"
  using assms
proof (induction f args arbitrary: pre n out rule: render.induct)
  case (1 args)
  then show ?case by (simp add: renders_def)
next
  case (2 c f args)
  note prems = 2(4,5)
  show ?case
  proof (cases "c = 37")
    case False
    then obtain o' where o': "render f args = Some o'" "out = [c] @ o'" using prems by auto
    have e: "emit c (zeros pre n) = (if length [c] < n \<or> length [c] = n \<and> True then Inr (zeros (pre @ [c]) (n - length [c])) else Inl OutOfBounds)"
      using emit_zeros [of c pre n] by (auto simp: zeros_def)
    have "renders ([c] @ o') n pre (bindR (emit c (zeros pre n)) (vs_loop (f @ 0 # r) args))"
      using prems(1) o'(1) by (intro renders_bind [OF e] 2(1) [OF False]) auto
    then show ?thesis using False prems(1) o'(2) by simp
  next
    case True
    show ?thesis
    proof (cases f)
      case Nil
      then show ?thesis using True prems by (simp add: renders_def conversions_def)
    next
      case (Cons d f')
      show ?thesis
      proof (cases "d \<in> conversions")
        case conv: True
        from conv Cons True prems(2) obtain a args' t o' where a: "args = a # args'" "arg_text d a = Some t" "render f' args' = Some o'" "out = t @ o'"
          by (cases args) (auto simp: bind_eq_Some_conv)
        have e: "conv d a (zeros pre n) = (if length t < n \<or> length t = n \<and> d \<noteq> 115 then Inr (zeros (pre @ t) (n - length t)) else Inl OutOfBounds)"
          using conv_zeros [OF conv a(2), of pre n] by (simp add: zeros_def)
        have "renders (t @ o') n pre (bindR (conv d a (zeros pre n)) (vs_loop (f' @ 0 # r) args'))"
          using prems(1) True a Cons by (intro renders_bind [OF e] 2(2) [OF _ Cons conv a(1,2)]) auto
        then show ?thesis using True conv Cons a(1,4) by simp
      next
        case other: False
        have "renders out n pre (vs_loop (f @ 0 # r) args (zeros pre n))"
          by (rule 2(3) [OF _ Cons other]) (use prems True Cons other in auto)
        then show ?thesis using True other Cons by simp
      qed
    qed
  qed
qed

lemma vsprintf_ok:
  assumes "0 \<notin> set f" and "render f args = Some out" and "0 \<notin> set out"
  shows "vsprintf (replicate n 0) (f @ 0 # r) args =
     (if length out < n then Inr (length out, out @ replicate (n - length out) 0) else Inl OutOfBounds)"
proof -
  have v: "renders out n [] (vs_loop (f @ 0 # r) args (replicate n 0, 0))"
    using vs_loop_renders [OF assms(1,2), of n "[]" r] by (simp add: zeros_def)
  show ?thesis
  proof (cases "vs_loop (f @ 0 # r) args (replicate n 0, 0)")
    case (Inl e)
    then show ?thesis using v by (auto simp: renders_def vsprintf_def)
  next
    case (Inr w)
    then have w: "length out \<le> n" "w = (out @ replicate (n - length out) 0, length out)" using v by (auto simp: renders_def zeros_def)
    have "strlen (Some (out @ replicate (n - length out) 0)) = (if length out < n then Inr (length out) else Inl OutOfBounds)"
    proof (cases "length out < n")
      case True
      then have "holds_str (out @ replicate (n - length out) 0) out"
        using assms(3) by (auto simp: holds_str_def intro!: exI [of _ "replicate (n - length out - 1) 0"] simp flip: replicate_Suc)
      then show ?thesis using True strlen_loop_eq by (simp add: strlen_def)
    next
      case False
      then show ?thesis using strlen_loop_unterminated [OF assms(3)] by (simp add: strlen_def)
    qed
    then show ?thesis using w Inr by (simp add: vsprintf_def)
  qed
qed

text \<open>
  C8. \<^verbatim>\<open>vsprintf\<close> does what its format says, for every format and every list of arguments with the types the
  format asks for: into a cleared buffer it writes exactly the rendered text and returns its length. If the text
  with its terminator does not fit, it runs over the end of the buffer, as there is no bound.
\<close>

theorem vsprintf_renders:
  assumes "0 \<notin> set f" and "render f args = Some out" and "0 \<notin> set out"
  shows "vsprintf (replicate n 0) (f @ 0 # r) args =
     (if length out < n then Inr (length out, out @ replicate (n - length out) 0) else Inl OutOfBounds)"
  using assms by (rule vsprintf_ok)

theorem vsprintf_renders_witness:
  "vsprintf (replicate 16 0) ([110, 61, 37, 100, 37, 115] @ 0 # []) [Num (- 42), Ptr 0xc0100000 [111, 107, 0]] =
     Inr (7, [110, 61, 45, 52, 50, 111, 107] @ replicate 9 0)"
proof -
  have "digits 10 42 = [52, 50]" by (simp add: digits_step digits_one dig_def)
  then have "show_int (sint (- 42 :: u32)) = [45, 52, 50]" by (simp add: show_int_def)
  then have "render [110, 61, 37, 100, 37, 115] [Num (- 42), Ptr 0xc0100000 [111, 107, 0]] = Some [110, 61, 45, 52, 50, 111, 107]"
    by (simp add: conversions_def str_of_def)
  from vsprintf_renders [OF _ this, of 16 "[]"] show ?thesis by simp
qed

end
