(* ===== verification/Shell.thy ===== *)
theory Shell
  imports Path Fs
begin

text \<open>
  Model of the text processing of the shell: the normalisation of paths in \<^verbatim>\<open>shell/buildin_cmd.c\<close>, the built-in
  commands that change the file system, and the line editor and the splitting of a command line in
  \<^verbatim>\<open>shell/shell.c\<close>. The system calls run the kernel's functions directly; the messages that the commands
  print are left out.
\<close>

section \<open>Clean paths\<close>

definition root_str :: "u8 list" where
  "root_str = [47, 0]"

definition go_up :: "u8 list \<Rightarrow> u8 list result" where
  "go_up new =
     bindR (strrchr (Some new) slash) (\<lambda>slash_ptr. case slash_ptr of
         None \<Rightarrow> Inl NullDeref
       | Some i \<Rightarrow> if i \<noteq> 0 then set_byte_at new i 0 else set_byte_at new (i + 1) 0)"

definition go_down :: "u8 list \<Rightarrow> u8 list \<Rightarrow> u8 list result" where
  "go_down name new =
     bindR (strcmp (Some new) (Some root_str)) (\<lambda>c.
     bindR (if c \<noteq> 0 then strcat (Some new) (Some root_str) else Inr new) (\<lambda>new. strcat (Some new) (Some name)))"

definition wash_name :: "u8 list \<Rightarrow> u8 list \<Rightarrow> u8 list result" where
  "wash_name name new =
     bindR (strcmp (Some dotdot) (Some name)) (\<lambda>c.
     if c = 0 then go_up new
     else bindR (strcmp (Some dot) (Some name)) (\<lambda>c. if c \<noteq> 0 then go_down name new else Inr new))"

function wash_loop :: "u8 list option \<Rightarrow> u8 list \<Rightarrow> u8 list \<Rightarrow> u8 list result" where
  "wash_loop sub_path name new =
     bindR (byte_at name 0) (\<lambda>c.
     if c \<noteq> 0 then
       bindR (wash_name name new) (\<lambda>new.
       bindR (next_name sub_path) (\<lambda>(sub_path, name). wash_loop sub_path name new))
     else Inr new)"
  by pat_completeness auto
termination
  by (relation "measure (\<lambda>(p, name, new). path_left p name)") (auto dest: next_name_less)

declare wash_loop.simps [simp del]

definition wash_path :: "u8 list \<Rightarrow> u8 list \<Rightarrow> u8 list result" where
  "wash_path old new =
     bindR (byte_at old 0) (\<lambda>c.
     ASSERT (c = slash) ''old_abs_path[0] == '/' ''
     (bindR (path_parse old (replicate 16 0)) (\<lambda>(sub_path, name).
      bindR (byte_at name 0) (\<lambda>c.
      if c = 0 then bindR (set_byte_at new 0 slash) (\<lambda>new. set_byte_at new 1 0)
      else
        bindR (set_byte_at new 0 0) (\<lambda>new.
        bindR (strcat (Some new) (Some root_str)) (wash_loop sub_path name))))))"

text \<open>A failed \<^verbatim>\<open>getcwd\<close> is ignored; the uninitialised buffer is cleared first.\<close>

definition make_clear_abs_path :: "u8 list \<Rightarrow> u8 list \<Rightarrow> fsys \<Rightarrow> (u8 list \<times> fsys) result" where
  "make_clear_abs_path path final_path fs =
     bindR (byte_at path 0) (\<lambda>c.
     bindR (if c \<noteq> slash then
              bindR (sys_getcwd (replicate 512 0) 512 fs) (\<lambda>(cwd, fs). case cwd of
                  None \<Rightarrow> Inr (replicate 512 0, fs)
                | Some abs_path \<Rightarrow>
                    bindR (byte_at abs_path 0) (\<lambda>c0.
                    bindR (byte_at abs_path 1) (\<lambda>c1.
                    if \<not> (c0 = slash \<and> c1 = 0) then mapR (\<lambda>a. (a, fs)) (strcat (Some abs_path) (Some root_str))
                    else Inr (abs_path, fs))))
            else Inr (replicate 512 0, fs)) (\<lambda>(abs_path, fs).
     bindR (strcat (Some abs_path) (Some path)) (\<lambda>abs_path.
     mapR (\<lambda>p. (p, fs)) (wash_path abs_path final_path))))"

section \<open>Built-in commands\<close>

text \<open>\<open>final_path\<close> is the shell's global buffer; \<open>argv\<close> holds the strings of the arguments.\<close>

definition buildin_pwd :: "u8 list list \<Rightarrow> u8 list \<Rightarrow> fsys \<Rightarrow> (u8 list option \<times> fsys) result" where
  "buildin_pwd argv final_path fs =
     (if length argv \<noteq> 1 then Inr (None, fs) else sys_getcwd final_path 512 fs)"

definition buildin_cd :: "u8 list \<Rightarrow> u8 list list \<Rightarrow> u8 list \<Rightarrow> fsys \<Rightarrow> (u8 list option \<times> u8 list \<times> fsys) result" where
  "buildin_cd g argv final_path fs =
     (if length argv > 2 then Inr (None, final_path, fs)
      else
        bindR (if length argv = 1 then
                 bindR (set_byte_at final_path 0 slash) (\<lambda>p. mapR (\<lambda>p. (p, fs)) (set_byte_at p 1 0))
               else make_clear_abs_path (argv ! 1) final_path fs) (\<lambda>(final_path, fs).
        mapR (\<lambda>(ret, fs). (if ret = -1 then None else Some final_path, final_path, fs)) (sys_chdir g final_path fs)))"

text \<open>The three commands with one path argument, which is never the root directory.\<close>

definition path_command :: "(u8 list \<Rightarrow> fsys \<Rightarrow> (int \<times> fsys) result) \<Rightarrow> u8 list list \<Rightarrow> u8 list \<Rightarrow> fsys \<Rightarrow> (int \<times> u8 list \<times> fsys) result" where
  "path_command call argv final_path fs =
     (if length argv \<noteq> 2 then Inr (-1, final_path, fs)
      else
        bindR (make_clear_abs_path (argv ! 1) final_path fs) (\<lambda>(final_path, fs).
        bindR (strcmp (Some root_str) (Some final_path)) (\<lambda>c.
        if c \<noteq> 0 then mapR (\<lambda>(r, fs). (if r = 0 then 0 else -1, final_path, fs)) (call final_path fs)
        else Inr (-1, final_path, fs))))"

definition buildin_mkdir :: "(nat \<Rightarrow> u8 list) \<Rightarrow> u8 list list \<Rightarrow> u8 list \<Rightarrow> fsys \<Rightarrow> (int \<times> u8 list \<times> fsys) result" where
  "buildin_mkdir g = path_command (sys_mkdir g)"

definition buildin_rmdir :: "u8 list \<Rightarrow> u8 list list \<Rightarrow> u8 list \<Rightarrow> fsys \<Rightarrow> (int \<times> u8 list \<times> fsys) result" where
  "buildin_rmdir g = path_command (sys_rmdir g)"

definition buildin_rm :: "u8 list \<Rightarrow> u8 list list \<Rightarrow> u8 list \<Rightarrow> fsys \<Rightarrow> (int \<times> u8 list \<times> fsys) result" where
  "buildin_rm g = path_command (sys_unlink g)"

section \<open>The meaning of a path\<close>

text \<open>The directories a path walks through, with \<open>.\<close> and \<open>..\<close> resolved; the parent of the root is the root.\<close>

definition enter :: "u8 list list \<Rightarrow> u8 list \<Rightarrow> u8 list list" where
  "enter st w = (if w = [46, 46] then butlast st else if w = [46] then st else st @ [w])"

definition walk :: "u8 list list \<Rightarrow> u8 list list" where
  "walk ws = foldl enter [] ws"

definition spell :: "u8 list list \<Rightarrow> u8 list" where
  "spell st = (if st = [] then [slash] else concat (map (Cons slash) st))"

lemma dots: "holds_str dot [46]" "holds_str dotdot [46, 46]" "holds_str root_str [47]"
  by (simp_all add: holds_str_def dot_def dotdot_def root_str_def)

lemma strcmp_str: "holds_str a s \<Longrightarrow> holds_str b t \<Longrightarrow> \<exists>c. strcmp (Some a) (Some b) = Inr c \<and> (c = 0 \<longleftrightarrow> s = t)"
  using strcmp_loop_eq [of a s b t] by (auto simp: strcmp_def str_order_0_iff)

lemma strcat_str:
  assumes "holds_str dst d" "holds_str src s" "length d + length s < length dst"
  obtains dst' where "strcat (Some dst) (Some src) = Inr dst'" and "holds_str dst' (d @ s)" and "length dst' = length dst"
proof -
  let ?d = "d @ s @ 0 # drop (Suc (length d + length s)) dst"
  have "strcat (Some dst) (Some src) = Inr ?d" using strcat_loop_eq [OF assms] by (simp add: strcat_def)
  moreover have "holds_str ?d (d @ s)" using assms(1,2) by (auto simp: holds_str_def)
  moreover have "length ?d = length dst" using assms(3) by simp
  ultimately show ?thesis using that by blast
qed

lemma strrchr_last:
  assumes "0 \<notin> set a" "0 \<notin> set w" "slash \<notin> set w"
  shows "strrchr_loop (a @ slash # w @ 0 # r) slash i l = Inr (Some (i + length a))"
proof -
  have m: "sint c = 47 \<longleftrightarrow> c = slash" for c :: u8 using sint_neq_iff [of c slash] by simp
  have "strrchr_loop (w @ 0 # r) slash j l' = Inr l'" for j l'
    using assms(2,3) by (induction w arbitrary: j) (auto simp: m)
  then show ?thesis using assms(1) by (induction a arbitrary: i l) (auto simp: m)
qed

text \<open>Names without slashes and zeros, as the parts of a path are.\<close>

definition names_ok :: "u8 list list \<Rightarrow> bool" where
  "names_ok st \<longleftrightarrow> (\<forall>w \<in> set st. w \<noteq> [] \<and> slash \<notin> set w \<and> 0 \<notin> set w)"

lemma spell_0: "names_ok st \<Longrightarrow> 0 \<notin> set (spell st)"
  by (auto simp: spell_def names_ok_def)

lemma go_up_ok:
  assumes "holds_str new (spell st)" and "names_ok st" and "1 < length new"
  obtains new' where "go_up new = Inr new'" and "holds_str new' (spell (butlast st))" and "length new' = length new"
proof (cases st rule: rev_cases)
  case Nil
  then obtain r where r: "new = [] @ slash # [] @ 0 # r" using assms(1) by (auto simp: holds_str_def spell_def)
  have "strrchr_loop new slash 0 None = Inr (Some 0)" unfolding r by (subst strrchr_last) auto
  then have "go_up new = Inr new" using r by (simp add: go_up_def strrchr_def set_byte_at_def)
  then show ?thesis using that [of new] assms(1) Nil by simp
next
  case (snoc st' w)
  let ?a = "concat (map (Cons slash) st')"
  obtain r where r: "new = ?a @ slash # w @ 0 # r" using assms(1) snoc by (auto simp: holds_str_def spell_def)
  have z: "0 \<notin> set ?a" "0 \<notin> set w" "slash \<notin> set w" using assms(2) snoc by (auto simp: names_ok_def)
  have f: "strrchr (Some new) slash = Inr (Some (length ?a))"
    unfolding r strrchr_def using strrchr_last [OF z, of r 0 None] by simp
  show ?thesis
  proof (cases "st' = []")
    case True
    let ?n = "new[1 := 0]"
    have "go_up new = Inr ?n" using f True assms(3) by (simp add: go_up_def)
    moreover have "?n = [slash] @ 0 # tl (tl ?n)" using r True assms(3) by (cases w) auto
    then have "holds_str ?n [slash]" unfolding holds_str_def by (intro conjI exI) simp_all
    ultimately show ?thesis using that True snoc by (simp add: spell_def)
  next
    case False
    let ?n = "new[length ?a := 0]"
    have "?a \<noteq> []" using False by (cases st') auto
    then have "go_up new = Inr ?n" using f r by (simp add: go_up_def)
    moreover have "?n = ?a @ 0 # w @ 0 # r" unfolding r by (simp add: list_update_append)
    then have "holds_str ?n ?a" using z(1) by (auto simp: holds_str_def)
    ultimately show ?thesis using that snoc False by (simp add: spell_def)
  qed
qed

lemma spell_root: "names_ok st \<Longrightarrow> spell st = [slash] \<longleftrightarrow> st = []"
  by (cases st) (auto simp: spell_def names_ok_def)

lemma spell_snoc: "spell (st @ [w]) = (if st = [] then [] else spell st) @ slash # w"
  by (auto simp: spell_def)

lemma go_down_ok:
  assumes h: "holds_str new (spell st)" and n: "holds_str name w" and st: "names_ok st" and len: "length (spell st) + length w + 1 < length new"
  obtains new' where "go_down name new = Inr new'" and "holds_str new' (spell (st @ [w]))" and "length new' = length new"
proof -
  obtain c where c: "strcmp (Some new) (Some root_str) = Inr c" "c = 0 \<longleftrightarrow> spell st = [slash]" using strcmp_str [OF h dots(3)] by blast
  show ?thesis
  proof (cases "st = []")
    case True
    obtain new' where "strcat (Some new) (Some name) = Inr new'" "holds_str new' (spell st @ w)" "length new' = length new"
      by (rule strcat_str [OF h n]) (use len in auto)
    then show ?thesis using that [of new'] c True by (simp add: go_down_def spell_def)
  next
    case False
    then have "c \<noteq> 0" using c(2) spell_root [OF st] by simp
    obtain new1 where 1: "strcat (Some new) (Some root_str) = Inr new1" "holds_str new1 (spell st @ [47])" "length new1 = length new"
      by (rule strcat_str [OF h dots(3)]) (use len in auto)
    obtain new' where 2: "strcat (Some new1) (Some name) = Inr new'" "holds_str new' ((spell st @ [47]) @ w)" "length new' = length new1"
      by (rule strcat_str [OF 1(2) n]) (use len 1(3) in auto)
    show ?thesis using that [of new'] c(1) \<open>c \<noteq> 0\<close> 1 2 False by (simp add: go_down_def spell_snoc)
  qed
qed

lemma names_ok_step: "names_ok st \<Longrightarrow> names_ok [w] \<Longrightarrow> names_ok (enter st w)"
  by (auto simp: names_ok_def enter_def dest: in_set_butlastD)

lemma spell_butlast: "length (spell (butlast st)) \<le> length (spell st)"
  by (cases st rule: rev_cases) (auto simp: spell_def)

lemma spell_step: "length (spell (enter st w)) \<le> length (spell st) + length w + 1"
  using spell_butlast [of st] by (auto simp: enter_def spell_snoc)

lemma wash_name_ok:
  assumes h: "holds_str new (spell st)" and n: "holds_str name w" and st: "names_ok st" and len: "length (spell st) + length w + 1 < length new"
  obtains new' where "wash_name name new = Inr new'" and "holds_str new' (spell (enter st w))" and "length new' = length new"
proof -
  obtain c where c: "strcmp (Some dotdot) (Some name) = Inr c" "c = 0 \<longleftrightarrow> w = [46, 46]" using strcmp_str [OF dots(2) n] by blast
  obtain d where d: "strcmp (Some dot) (Some name) = Inr d" "d = 0 \<longleftrightarrow> w = [46]" using strcmp_str [OF dots(1) n] by blast
  consider "w = [46, 46]" | "w = [46]" | "w \<noteq> [46, 46]" "w \<noteq> [46]" by blast
  then show ?thesis
  proof cases
    case 1
    then show ?thesis using go_up_ok [OF h st] len that c by (auto simp: wash_name_def enter_def)
  next
    case 2
    then show ?thesis using that [of new] h c d by (simp add: wash_name_def enter_def)
  next
    case 3
    then show ?thesis using go_down_ok [OF h n st len] that c d by (auto simp: wash_name_def enter_def)
  qed
qed

section \<open>Washing a path\<close>

lemma path_parts_ok:
  assumes "0 \<notin> set s"
  shows "names_ok (path_parts s)"
  using assms
proof (induction s rule: path_parts.induct)
  case (1 s)
  define t where "t = dropWhile (\<lambda>c. c = slash) s"
  have t0: "0 \<notin> set t" using 1(2) set_dropWhileD unfolding t_def by metis
  have ps: "path_parts s = (if t = [] then [] else takeWhile (\<lambda>c. c \<noteq> slash) t # path_parts (dropWhile (\<lambda>c. c \<noteq> slash) t))"
    by (subst path_parts.simps) (simp add: Let_def t_def)
  show ?case
  proof (cases "t = []")
    case False
    have "hd t \<noteq> slash" using False hd_dropWhile [of "\<lambda>c. c = slash" s] by (simp add: t_def)
    then have "takeWhile (\<lambda>c. c \<noteq> slash) t \<noteq> []" using False by (cases t) auto
    moreover have "0 \<notin> set (takeWhile (\<lambda>c. c \<noteq> slash) t)" "slash \<notin> set (takeWhile (\<lambda>c. c \<noteq> slash) t)"
      using t0 by (auto dest: set_takeWhileD)
    moreover have "0 \<notin> set (dropWhile (\<lambda>c. c \<noteq> slash) t)" using t0 set_dropWhileD by metis
    then have "names_ok (path_parts (dropWhile (\<lambda>c. c \<noteq> slash) t))" by (rule 1(1) [OF t_def False])
    ultimately show ?thesis using ps False by (simp add: names_ok_def)
  qed (simp add: ps names_ok_def)
qed

lemma path_parts_length:
  "sum_list (map (\<lambda>w. length w + 1) (path_parts s)) \<le> length s + (if s \<noteq> [] \<and> hd s = slash then 0 else 1)"
proof (induction s rule: path_parts.induct)
  case (1 s)
  define t where "t = dropWhile (\<lambda>c. c = slash) s"
  define w v where "w = takeWhile (\<lambda>c. c \<noteq> slash) t" and "v = dropWhile (\<lambda>c. c \<noteq> slash) t"
  have ps: "path_parts s = (if t = [] then [] else w # path_parts v)"
    by (subst path_parts.simps) (simp add: Let_def t_def w_def v_def)
  show ?case
  proof (cases "t = []")
    case False
    have ih: "sum_list (map (\<lambda>w. length w + 1) (path_parts v)) \<le> length v + (if v \<noteq> [] \<and> hd v = slash then 0 else 1)"
      using 1 [OF t_def False] by (simp add: v_def)
    have v: "v = [] \<or> hd v = slash" using hd_dropWhile [of "\<lambda>c. c \<noteq> slash" t] by (auto simp: v_def)
    have pv: "path_parts [] = []" by (subst path_parts.simps) simp
    have lt: "length w + length v = length t" unfolding w_def v_def by (metis length_append takeWhile_dropWhile_id)
    have ls: "length t + (if s \<noteq> [] \<and> hd s = slash then 1 else 0) \<le> length s"
      using length_dropWhile_le [of "\<lambda>c. c = slash" "tl s"] by (cases s) (auto simp: t_def)
    have "sum_list (map (\<lambda>w. length w + 1) (path_parts v)) \<le> length v" using ih v pv by (cases "v = []") auto
    then show ?thesis using ps False lt ls by (auto split: if_splits)
  qed (simp add: ps)
qed

text \<open>The rest of a path in the loop: a pointer to it, or NULL at its end.\<close>

definition rest_of :: "u8 list \<Rightarrow> u8 list option \<Rightarrow> bool" where
  "rest_of u sub \<longleftrightarrow> 0 \<notin> set u \<and> ((\<exists>r. sub = Some (u @ 0 # r)) \<or> u = [] \<and> sub = None)"

lemma path_parts_step:
  assumes "path_parts u = w # ws"
  obtains t where "t = dropWhile (\<lambda>c. c = slash) u" and "w = takeWhile (\<lambda>c. c \<noteq> slash) t" and "path_parts (dropWhile (\<lambda>c. c \<noteq> slash) t) = ws"
    and "t \<noteq> []"
  using assms by (subst (asm) path_parts.simps) (auto simp: Let_def split: if_splits)

lemma next_part:
  assumes "rest_of u sub"
  shows "path_parts u = [] \<Longrightarrow> \<exists>sub' name. next_name sub = Inr (sub', name) \<and> byte_at name 0 = Inr 0"
    and "path_parts u = w # ws \<Longrightarrow> length w < 16 \<Longrightarrow>
      \<exists>v sub' name. next_name sub = Inr (sub', name) \<and> holds_str name w \<and> rest_of v sub' \<and> path_parts v = ws"
proof -
  assume e: "path_parts u = []"
  then have t: "dropWhile (\<lambda>c. c = slash) u = []" by (subst (asm) path_parts.simps) (auto simp: Let_def split: if_splits)
  have z: "byte_at (replicate 16 0) 0 = Inr (0 :: u8)" by simp
  show "\<exists>sub' name. next_name sub = Inr (sub', name) \<and> byte_at name 0 = Inr 0"
  proof (cases sub)
    case None
    then show ?thesis using z by (auto simp: next_name_def)
  next
    case (Some p)
    then obtain r where p: "p = u @ 0 # r" "0 \<notin> set u" using assms by (auto simp: rest_of_def)
    then show ?thesis using path_parse_eq [OF p(2) refl refl refl, of r "replicate 16 0"] t Some z by (auto simp: next_name_def)
  qed
next
  assume pu: "path_parts u = w # ws" and len: "length w < 16"
  obtain t where t: "t = dropWhile (\<lambda>c. c = slash) u" "w = takeWhile (\<lambda>c. c \<noteq> slash) t"
    "path_parts (dropWhile (\<lambda>c. c \<noteq> slash) t) = ws" "t \<noteq> []" by (rule path_parts_step [OF pu])
  define v where "v = dropWhile (\<lambda>c. c \<noteq> slash) t"
  have u: "0 \<notin> set u" "u \<noteq> []" using assms t(1,4) by (auto simp: rest_of_def)
  then obtain r where sub: "sub = Some (u @ 0 # r)" using assms by (auto simp: rest_of_def)
  have "0 \<notin> set t" using u(1) set_dropWhileD unfolding t(1) by metis
  then have v0: "0 \<notin> set v" and w0: "0 \<notin> set w" using set_dropWhileD [of _ _ t] set_takeWhileD [of _ _ t] unfolding v_def t(2) by metis+
  have "next_name sub = Inr (if v = [] then None else Some (v @ 0 # r), w @ replicate (16 - length w) 0)"
    using path_parse_eq [OF u(1) t(1) t(2) v_def, of r "replicate 16 0"] len by (simp add: next_name_def sub)
  moreover have "holds_str (w @ replicate (16 - length w) 0) w"
    using w0 len by (auto simp: holds_str_def intro!: exI [of _ "replicate (15 - length w) 0"] simp flip: replicate_Suc)
  moreover have "rest_of v (if v = [] then None else Some (v @ 0 # r))" using v0 by (auto simp: rest_of_def)
  ultimately show "\<exists>v sub' name. next_name sub = Inr (sub', name) \<and> holds_str name w \<and> rest_of v sub' \<and> path_parts v = ws"
    using t(3) unfolding v_def by blast
qed

lemma wash_loop_ok:
  assumes "rest_of u sub" and "path_parts u = ws" and "\<forall>w \<in> set ws. length w < 16" and "names_ok (w # ws)" and "holds_str name w"
    and "holds_str new (spell st)" and "names_ok st" and "length (spell st) + sum_list (map (\<lambda>w. length w + 1) (w # ws)) < length new"
  shows "\<exists>new'. wash_loop sub name new = Inr new' \<and> holds_str new' (spell (foldl enter st (w # ws))) \<and> length new' = length new"
  using assms
proof (induction ws arbitrary: u sub w name new st)
  case Nil
  have b: "\<exists>c. byte_at name 0 = Inr c \<and> c \<noteq> 0" using Nil.prems(4,5) by (cases w) (auto simp: names_ok_def holds_str_def byte_at_def)
  obtain new1 where 1: "wash_name name new = Inr new1" "holds_str new1 (spell (enter st w))" "length new1 = length new"
    by (rule wash_name_ok [OF Nil.prems(6,5,7)]) (use Nil.prems(8) in auto)
  obtain sub' name' where 2: "next_name sub = Inr (sub', name')" "byte_at name' 0 = Inr 0" using next_part(1) [OF Nil.prems(1,2)] by blast
  show ?case using b 1 2 by (subst wash_loop.simps) (auto simp: wash_loop.simps [of sub'])
next
  case (Cons w' ws)
  have b: "\<exists>c. byte_at name 0 = Inr c \<and> c \<noteq> 0" using Cons.prems(4,5) by (cases w) (auto simp: names_ok_def holds_str_def byte_at_def)
  obtain new1 where 1: "wash_name name new = Inr new1" "holds_str new1 (spell (enter st w))" "length new1 = length new"
    by (rule wash_name_ok [OF Cons.prems(6,5,7)]) (use Cons.prems(8) in auto)
  obtain v sub' name' where 2: "next_name sub = Inr (sub', name')" "holds_str name' w'" "rest_of v sub'" "path_parts v = ws"
    using next_part(2) [OF Cons.prems(1,2) bspec [OF Cons.prems(3) list.set_intros(1)]] by blast
  have "names_ok [w]" using Cons.prems(4) by (simp add: names_ok_def)
  then have n: "names_ok (enter st w)" by (rule names_ok_step [OF Cons.prems(7)])
  have "\<exists>new'. wash_loop sub' name' new1 = Inr new' \<and> holds_str new' (spell (foldl enter (enter st w) (w' # ws))) \<and> length new' = length new1"
    using Cons.prems(3,4,8) 1(3) spell_step [of st w]
    by (intro Cons.IH [OF 2(3,4) _ _ 2(2) 1(2) n]) (auto simp: names_ok_def)
  moreover from b obtain c where "byte_at name 0 = Inr c" "c \<noteq> 0" by blast
  then have "wash_loop sub name new = wash_loop sub' name' new1" using 1(1) 2(1) by (simp add: wash_loop.simps [of sub])
  ultimately show ?case using 1(3) by simp
qed

text \<open>
  C9. \<^verbatim>\<open>wash_path\<close> computes the normal form of an absolute path: repeated and trailing slashes are dropped, a dot
  is skipped and a double dot removes the directory before it, the root's parent being the root. It holds for
  every path whose components fit the 16-byte name buffer, with a result buffer longer than the path.
\<close>

theorem wash_path_normalises:
  assumes "0 \<notin> set s" and "s \<noteq> []" and "hd s = slash" and "\<forall>w \<in> set (path_parts s). length w < 16" and "length s + 1 < length new"
  shows "\<exists>new'. wash_path (s @ 0 # r) new = Inr new' \<and> holds_str new' (spell (walk (path_parts s)))"
proof -
  have b: "byte_at (s @ 0 # r) 0 = Inr slash" using assms(2,3) by (cases s) (simp_all add: byte_at_def)
  have ro: "rest_of s (Some (s @ 0 # r))" using assms(1) by (auto simp: rest_of_def)
  have nn: "next_name (Some (s @ 0 # r)) = path_parse (s @ 0 # r) (replicate 16 0)" by (simp add: next_name_def)
  show ?thesis
  proof (cases "path_parts s")
    case Nil
    obtain sub' name where "path_parse (s @ 0 # r) (replicate 16 0) = Inr (sub', name)" "byte_at name 0 = Inr 0"
      using next_part(1) [OF ro Nil] nn by auto
    then have "wash_path (s @ 0 # r) new = Inr (new[0 := slash, 1 := 0])" using b assms(5) by (auto simp: wash_path_def set_byte_at_def)
    moreover have "holds_str (new[0 := slash, 1 := 0]) [slash]" using assms(5) by (cases new; cases "tl new") (auto simp: holds_str_def)
    ultimately show ?thesis using Nil by (simp add: walk_def spell_def)
  next
    case (Cons w ws)
    have ok: "names_ok (w # ws)" using path_parts_ok [OF assms(1)] Cons by simp
    obtain v sub' name where 1: "path_parse (s @ 0 # r) (replicate 16 0) = Inr (sub', name)" "holds_str name w" "rest_of v sub'" "path_parts v = ws"
      using next_part(2) [OF ro Cons] assms(4) nn Cons by auto
    have c: "\<exists>c. byte_at name 0 = Inr c \<and> c \<noteq> 0" using ok 1(2) by (cases w) (auto simp: names_ok_def holds_str_def byte_at_def)
    have h0: "holds_str (new[0 := 0]) []" using assms(5) by (cases new) (auto simp: holds_str_def)
    obtain new1 where 2: "strcat (Some (new[0 := 0])) (Some root_str) = Inr new1" "holds_str new1 ([] @ [47])" "length new1 = length (new[0 := 0])"
      by (rule strcat_str [OF h0 dots(3)]) (use assms(5) in simp)
    have len: "length (spell []) + sum_list (map (\<lambda>w. length w + 1) (w # ws)) < length new1"
      using path_parts_length [of s] Cons assms(2,3,5) 2(3) by (simp add: spell_def)
    have wl: "\<exists>new'. wash_loop sub' name new1 = Inr new' \<and> holds_str new' (spell (foldl enter [] (w # ws))) \<and> length new' = length new1"
      by (rule wash_loop_ok [OF 1(3,4) _ ok 1(2) _ _ len]) (use assms(4) Cons 2(2) in \<open>auto simp: spell_def names_ok_def\<close>)
    have "set_byte_at new 0 0 = Inr (new[0 := 0])" using assms(5) by (auto simp: set_byte_at_def)
    moreover obtain c' where "byte_at name 0 = Inr c'" "c' \<noteq> 0" using c by blast
    ultimately have "wash_path (s @ 0 # r) new = wash_loop sub' name new1" using b 1(1) 2(1) by (simp add: wash_path_def)
    then show ?thesis using wl Cons by (auto simp: walk_def)
  qed
qed

text \<open>\<open>/a/./b//../c/\<close> is \<open>/a/c\<close>.\<close>

theorem wash_path_normalises_witness:
  "\<exists>new'. wash_path ([47, 97, 47, 46, 47, 98, 47, 47, 46, 46, 47, 99, 47] @ 0 # []) (replicate 20 0) = Inr new' \<and> holds_str new' [47, 97, 47, 99]"
proof -
  have "path_parts [47, 97, 47, 46, 47, 98, 47, 47, 46, 46, 47, 99, 47] = [[97], [46], [98], [46, 46], [99]]" by (simp add: path_parts.simps)
  then show ?thesis
    using wash_path_normalises [of "[47, 97, 47, 46, 47, 98, 47, 47, 46, 46, 47, 99, 47]" "replicate 20 0" "[]"]
    by (simp add: walk_def enter_def spell_def)
qed

end
