(* ===== verification/Cmdline.thy ===== *)
theory Cmdline
  imports Shell
begin

text \<open>
  Model of \<^verbatim>\<open>readline\<close> and \<^verbatim>\<open>cmd_parse\<close> of \<^verbatim>\<open>shell/shell.c\<close>. The line editor reads the bytes of the keyboard one at
  a time; a call that has used up the bytes waits for more. What it echoes on the screen is left out.
\<close>

section \<open>The line editor\<close>

datatype line_result =
    Line "u8 list" "u8 list"      \<comment> \<open>the buffer after Enter, and the input behind it\<close>
  | NoEnter "u8 list" "u8 list"   \<comment> \<open>\<^verbatim>\<open>count\<close> bytes without Enter\<close>
  | Waiting "u8 list" nat         \<comment> \<open>blocked in \<^verbatim>\<open>read\<close>, with the buffer and \<^verbatim>\<open>pos\<close>\<close>

fun clear_back :: "u8 list \<Rightarrow> nat \<Rightarrow> u8 list" where
  "clear_back buf 0 = buf"
| "clear_back buf (Suc p) = clear_back (buf[Suc p := 0]) p"

fun readline :: "nat \<Rightarrow> u8 list \<Rightarrow> nat \<Rightarrow> u8 list \<Rightarrow> line_result result" where
  "readline cnt buf pos [] = Inr (Waiting buf pos)"
| "readline cnt buf pos (c # cs) =
     bindR (set_byte_at buf pos c) (\<lambda>buf.
     if \<not> pos < cnt then Inr (NoEnter buf cs)
     else if c = 10 \<or> c = 13 then Inr (Line (buf[pos := 0]) cs)
     else if c = 8 then (if buf ! 0 \<noteq> 8 then readline cnt buf (pos - 1) cs else readline cnt buf pos cs)
     else if c = 11 then readline cnt (buf[pos := 0]) pos cs
     else if c = 20 then readline cnt (clear_back buf pos) 0 cs
     else readline cnt buf (Suc pos) cs)"

text \<open>What the keys mean for the line that is typed.\<close>

definition edit :: "u8 list \<Rightarrow> u8 \<Rightarrow> u8 list" where
  "edit line c = (if c = 8 then butlast line else if c = 11 then line else if c = 20 then [] else line @ [c])"

lemma edit_chars: "set (foldl edit m cs) \<subseteq> set m \<union> set cs"
proof (induction cs arbitrary: m)
  case (Cons c cs)
  have "set (edit m c) \<subseteq> set m \<union> {c}" by (auto simp: edit_def dest: in_set_butlastD)
  then show ?case using Cons [of "edit m c"] by auto
qed simp

lemma clear_back_length [simp]: "length (clear_back buf p) = length buf"
  by (induction p arbitrary: buf) simp_all

definition typing :: "u8 list \<Rightarrow> nat \<Rightarrow> u8 list \<Rightarrow> bool" where
  "typing buf pos line \<longleftrightarrow> pos \<le> length buf \<and> take pos buf = line \<and> 8 \<notin> set line"

lemma typing_step:
  assumes t: "typing buf pos line" and len: "length line < length buf" and c: "c \<noteq> 10" "c \<noteq> 13"
  shows "\<exists>buf' pos'. readline (length buf) buf pos (c # cs) = readline (length buf) buf' pos' cs \<and> typing buf' pos' (edit line c) \<and>
     length buf' = length buf"
proof -
  have p: "pos = length line" using t by (auto simp: typing_def)
  then have pl: "pos < length buf" using len by simp
  have tk: "take pos (buf[pos := x]) = line" for x using t by (simp add: typing_def)
  have w: "set_byte_at buf pos c = Inr (buf[pos := c])" using pl by simp
  have l8: "8 \<notin> set line" using t by (simp add: typing_def)
  consider (bs) "c = 8" | (cl) "c = 11" | (cu) "c = 20" | (ch) "c \<notin> {8, 11, 20}" by blast
  then show ?thesis
  proof cases
    case bs
    show ?thesis
    proof (cases "line = []")
      case True
      then have "readline (length buf) buf pos (c # cs) = readline (length buf) (buf[pos := c]) pos cs" using w pl bs p by simp
      then show ?thesis using tk [of c] pl True bs
        by (intro exI [of _ "buf[pos := c]"] exI [of _ pos]) (simp add: typing_def edit_def)
    next
      case False
      have "buf[pos := c] ! 0 = line ! 0" using False p tk [of c] nth_take [of 0 pos "buf[pos := c]"] by simp
      also have "\<dots> \<noteq> 8" using False l8 nth_mem [of 0 line] by (metis length_greater_0_conv)
      finally have "readline (length buf) buf pos (c # cs) = readline (length buf) (buf[pos := c]) (pos - 1) cs" using w pl bs by simp
      moreover have "take (pos - 1) (buf[pos := c]) = butlast line" using arg_cong [OF tk [of c], of butlast] pl by (simp add: butlast_take)
      ultimately show ?thesis using l8 pl bs
        by (intro exI [of _ "buf[pos := c]"] exI [of _ "pos - 1"]) (auto simp: typing_def edit_def dest: in_set_butlastD)
    qed
  next
    case cl
    then show ?thesis using w pl tk [of 0] l8
      by (intro exI [of _ "buf[pos := 0]"] exI [of _ pos]) (simp add: typing_def edit_def)
  next
    case cu
    then show ?thesis using w pl by (intro exI [of _ "clear_back (buf[pos := c]) pos"] exI [of _ 0]) (simp add: typing_def edit_def)
  next
    case ch
    have "take (Suc pos) (buf[pos := c]) = line @ [c]" using tk [of c] pl by (simp add: take_Suc_conv_app_nth)
    then show ?thesis using ch c w pl l8 by (intro exI [of _ "buf[pos := c]"] exI [of _ "Suc pos"]) (simp add: typing_def edit_def)
  qed
qed

lemma readline_types:
  assumes "typing buf pos line" and "10 \<notin> set cs" and "13 \<notin> set cs"
    and "\<forall>k < length cs. length (foldl edit line (take k cs)) < length buf"
  shows "\<exists>buf' pos'. readline (length buf) buf pos (cs @ ds) = readline (length buf) buf' pos' ds \<and> typing buf' pos' (foldl edit line cs) \<and>
     length buf' = length buf"
  using assms
proof (induction cs arbitrary: buf pos line)
  case (Cons c cs)
  have "length line < length buf" using Cons.prems(4) by force
  then obtain b p where 1: "readline (length buf) buf pos (c # cs @ ds) = readline (length buf) b p (cs @ ds)" "typing b p (edit line c)" "length b = length buf"
    using typing_step [OF Cons.prems(1), of c "cs @ ds"] Cons.prems(2,3) by auto
  have k: "\<forall>k < length cs. length (foldl edit (edit line c) (take k cs)) < length b"
  proof (intro allI impI)
    fix k assume "k < length cs"
    then show "length (foldl edit (edit line c) (take k cs)) < length b" using Cons.prems(4) [rule_format, of "Suc k"] 1(3) by simp
  qed
  show ?case using Cons.IH [OF 1(2) _ _ k] Cons.prems(2,3) 1(1,3) by auto
qed auto

text \<open>
  C29. The line editor of the shell: whatever keys are typed before Enter, with backspace, the redraw of control-l and
  the erase of control-u among them, the buffer ends up holding exactly the line they spell, as long as the line
  stays shorter than the buffer. Once the buffer is full, the next byte is written behind it, because the bound is
  checked after the read.
\<close>

theorem readline_edits_line:
  assumes "10 \<notin> set cs" and "13 \<notin> set cs" and "0 \<notin> set cs" and "e = 10 \<or> e = 13"
    and "\<forall>k < length cs. length (foldl edit [] (take k cs)) < length buf"
  shows "if length (foldl edit [] cs) < length buf
     then \<exists>buf'. readline (length buf) buf 0 (cs @ e # rest) = Inr (Line buf' rest) \<and> holds_str buf' (foldl edit [] cs)
     else readline (length buf) buf 0 (cs @ e # rest) = Inl OutOfBounds"
proof -
  have "typing buf 0 []" by (simp add: typing_def)
  from readline_types [OF this assms(1,2,5)] obtain b p where
    1: "readline (length buf) buf 0 (cs @ e # rest) = readline (length buf) b p (e # rest)" "typing b p (foldl edit [] cs)" "length b = length buf"
    by blast
  define l where "l = foldl edit [] cs"
  have p: "p = length l" "take p b = l" using 1(2) unfolding typing_def l_def by (metis length_take min.absorb2, simp)
  have l0: "0 \<notin> set l" using edit_chars [of "[]" cs] assms(3) by (auto simp: l_def)
  show ?thesis
  proof (cases "length l < length buf")
    case True
    then have pl: "p < length b" using p(1) 1(3) by simp
    have "readline (length buf) b p (e # rest) = Inr (Line (b[p := 0]) rest)" using pl 1(3) assms(4) by auto
    moreover have "b[p := 0] = l @ 0 # drop (Suc p) b" using upd_conv_take_nth_drop [OF pl, of 0] p(2) by simp
    then have "holds_str (b[p := 0]) l" using l0 by (auto simp: holds_str_def)
    ultimately show ?thesis using True 1(1) unfolding l_def by auto
  next
    case False
    then have "length b \<le> p" using p(1) 1(3) by simp
    then have "readline (length buf) b p (e # rest) = Inl OutOfBounds" by (simp add: set_byte_at_def)
    then show ?thesis using False 1(1) unfolding l_def by simp
  qed
qed

theorem readline_edits_line_witness:
  "(\<exists>buf'. readline 8 (replicate 8 7) 0 ([108, 120, 8, 115, 11] @ 13 # []) = Inr (Line buf' []) \<and> holds_str buf' [108, 115]) \<and>
   readline 2 (replicate 2 7) 0 ([108, 115] @ 13 # []) = Inl OutOfBounds"
proof
  have "\<forall>k < length [108 :: u8, 120, 8, 115, 11]. length (foldl edit [] (take k [108, 120, 8, 115, 11])) < length (replicate 8 (7 :: u8))"
    by (simp add: All_less_Suc edit_def)
  from readline_edits_line [OF _ _ _ _ this, of 13 "[]"]
  show "\<exists>buf'. readline 8 (replicate 8 7) 0 ([108, 120, 8, 115, 11] @ 13 # []) = Inr (Line buf' []) \<and> holds_str buf' [108, 115]"
    by (simp add: edit_def del: readline.simps)
  have "\<forall>k < length [108 :: u8, 115]. length (foldl edit [] (take k [108, 115])) < length (replicate 2 (7 :: u8))"
    by (simp add: All_less_Suc edit_def)
  from readline_edits_line [OF _ _ _ _ this, of 13 "[]"]
  show "readline 2 (replicate 2 7) 0 ([108, 115] @ 13 # []) = Inl OutOfBounds"
    by (simp add: edit_def del: readline.simps)
qed

section \<open>Splitting a command line\<close>

text \<open>An entry of \<^verbatim>\<open>argv\<close> is NULL or the position of a word in the command line.\<close>

function skip_token :: "u8 list \<Rightarrow> u8 \<Rightarrow> nat \<Rightarrow> nat result" where
  "skip_token cmd token nxt = bindR (byte_at cmd nxt) (\<lambda>c. if c = token then skip_token cmd token (Suc nxt) else Inr nxt)"
  by pat_completeness auto
termination
  by (relation "measure (\<lambda>(cmd, token, nxt). length cmd - nxt)") (auto simp: byte_at_Inr_iff)

function word_end :: "u8 list \<Rightarrow> u8 \<Rightarrow> nat \<Rightarrow> nat result" where
  "word_end cmd token nxt = bindR (byte_at cmd nxt) (\<lambda>c. if c \<noteq> 0 \<and> c \<noteq> token then word_end cmd token (Suc nxt) else Inr nxt)"
  by pat_completeness auto
termination
  by (relation "measure (\<lambda>(cmd, token, nxt). length cmd - nxt)") (auto simp: byte_at_Inr_iff)

function parse_loop :: "u8 list \<Rightarrow> nat option list \<Rightarrow> nat \<Rightarrow> nat \<Rightarrow> u8 \<Rightarrow> (int \<times> nat option list \<times> u8 list) result" where
  "parse_loop cmd argv argc nxt token =
     bindR (byte_at cmd nxt) (\<lambda>c.
     if c = 0 then Inr (int argc, argv, cmd)
     else
       bindR (skip_token cmd token nxt) (\<lambda>nxt.
       bindR (byte_at cmd nxt) (\<lambda>c.
       if c = 0 then Inr (int argc, argv, cmd)
       else
         bindR (set_byte_at argv argc (Some nxt)) (\<lambda>argv.
         bindR (word_end cmd token nxt) (\<lambda>nxt.
         bindR (byte_at cmd nxt) (\<lambda>c.
         if argc > 16 then Inr (-1, argv, if c \<noteq> 0 then cmd[nxt := 0] else cmd)
         else parse_loop (if c \<noteq> 0 then cmd[nxt := 0] else cmd) argv (Suc argc) (if c \<noteq> 0 then Suc nxt else nxt) token))))))"
  by pat_completeness auto
termination
  by (relation "measure (\<lambda>(cmd, argv, argc, nxt, token). length argv - argc)") (auto simp: set_byte_at_Inr_iff)

declare skip_token.simps [simp del] word_end.simps [simp del] parse_loop.simps [simp del]

definition cmd_parse :: "buf \<Rightarrow> u8 \<Rightarrow> (int \<times> nat option list \<times> u8 list) result" where
  "cmd_parse cmdp token = (case cmdp of
     None \<Rightarrow> Inl (AssertFail ''cmd != NULL'')
   | Some cmd \<Rightarrow> parse_loop cmd (replicate 16 None) 0 0 token)"

text \<open>The words of a line.\<close>

function words :: "u8 \<Rightarrow> u8 list \<Rightarrow> u8 list list" where
  "words t s = (let u = dropWhile (\<lambda>c. c = t) s in
     if u = [] then [] else takeWhile (\<lambda>c. c \<noteq> t) u # words t (dropWhile (\<lambda>c. c \<noteq> t) u))"
  by pat_completeness auto
termination
proof (relation "measure (\<lambda>(t, s). length s)")
  fix t s and u :: "u8 list"
  assume u: "u = dropWhile (\<lambda>c. c = t) s" "u \<noteq> []"
  then have "hd u \<noteq> t" using hd_dropWhile [of "\<lambda>c. c = t" s] by simp
  then have "length (dropWhile (\<lambda>c. c \<noteq> t) u) < length u" using u(2) length_dropWhile_le [of "\<lambda>c. c \<noteq> t" "tl u"] by (cases u) auto
  also have "\<dots> \<le> length s" using u(1) length_dropWhile_le by simp
  finally show "((t, dropWhile (\<lambda>c. c \<noteq> t) u), (t, s)) \<in> measure (\<lambda>(t, s). length s)" by simp
qed simp

declare words.simps [simp del]

lemma words_skip: "words t (t # s) = words t s"
  by (subst (1 2) words.simps) simp

lemma skip_token_eq:
  assumes "t \<noteq> 0" and "0 \<notin> set s"
  shows "skip_token (pre @ s @ 0 # r) t (length pre) = Inr (length pre + length (takeWhile (\<lambda>c. c = t) s))"
  using assms(2)
proof (induction s arbitrary: pre)
  case Nil
  then show ?case using assms(1) by (subst skip_token.simps) (simp add: byte_at_def nth_append)
next
  case (Cons c s)
  have "byte_at (pre @ (c # s) @ 0 # r) (length pre) = Inr c" by (simp add: byte_at_def nth_append)
  then show ?case using Cons.IH [of "pre @ [c]"] Cons.prems by (cases "c = t"; subst skip_token.simps) simp_all
qed

lemma word_end_eq:
  assumes "0 \<notin> set s"
  shows "word_end (pre @ s @ 0 # r) t (length pre) = Inr (length pre + length (takeWhile (\<lambda>c. c \<noteq> t) s))"
  using assms
proof (induction s arbitrary: pre)
  case Nil
  then show ?case by (subst word_end.simps) (simp add: byte_at_def nth_append)
next
  case (Cons c s)
  have "byte_at (pre @ (c # s) @ 0 # r) (length pre) = Inr c" by (simp add: byte_at_def nth_append)
  then show ?case using Cons.IH [of "pre @ [c]"] Cons.prems by (subst word_end.simps) simp
qed

text \<open>What a parsed line looks like from word \<open>n\<close> on: the strings at the positions in \<^verbatim>\<open>argv\<close> are the words.\<close>

definition parsed :: "u8 list \<Rightarrow> nat option list \<Rightarrow> nat \<Rightarrow> u8 list list \<Rightarrow> bool" where
  "parsed cmd argv n ws \<longleftrightarrow> (\<forall>i < length ws. \<exists>p. argv ! (n + i) = Some p \<and> holds_str (drop p cmd) (ws ! i))"

lemma parsed_Cons:
  assumes "argv ! n = Some p" and "holds_str (drop p cmd) w" and "parsed cmd argv (Suc n) ws"
  shows "parsed cmd argv n (w # ws)"
  unfolding parsed_def
proof (intro allI impI)
  fix i assume "i < length (w # ws)"
  then show "\<exists>p. argv ! (n + i) = Some p \<and> holds_str (drop p cmd) ((w # ws) ! i)"
    using assms by (cases i) (auto simp: parsed_def)
qed

text \<open>One word: the tokens \<open>a\<close> before it, the word \<open>w\<close> and the rest \<open>v\<close>, whose first token is overwritten.\<close>

lemma parse_step:
  assumes t: "t \<noteq> 0" and s0: "0 \<notin> set s" and l: "length argv = 16" and n: "n \<le> 16"
    and a: "a = takeWhile (\<lambda>c. c = t) s" and u: "u = dropWhile (\<lambda>c. c = t) s" "u \<noteq> []"
    and w: "w = takeWhile (\<lambda>c. c \<noteq> t) u" and v: "v = dropWhile (\<lambda>c. c \<noteq> t) u"
  shows "parse_loop (pre @ s @ 0 # r) argv n (length pre) t =
     (if n < 16 then
        if v = [] then Inr (int (Suc n), argv[n := Some (length (pre @ a))], pre @ s @ 0 # r)
        else parse_loop ((pre @ a @ w @ [0]) @ tl v @ 0 # r) (argv[n := Some (length (pre @ a))]) (Suc n) (length (pre @ a @ w @ [0])) t
      else Inl OutOfBounds)"
proof -
  let ?cmd = "pre @ s @ 0 # r" and ?argv = "argv[n := Some (length (pre @ a))]"
  have s: "s = a @ u" "u = w @ v" by (simp_all add: a u w v)
  have u0: "0 \<notin> set u" using s0 set_dropWhileD unfolding u(1) by metis
  have hu: "hd u \<noteq> 0" using u0 hd_in_set [OF u(2)] by metis
  have sn: "s \<noteq> []" using s(1) u(2) by simp
  then have hs: "hd s \<noteq> 0" using s0 hd_in_set [of s] by metis
  have sk: "skip_token ?cmd t (length pre) = Inr (length (pre @ a))" using skip_token_eq [OF t s0] by (simp add: a)
  have b1: "byte_at ?cmd (length pre) = Inr (hd s)" using sn by (cases s) (simp_all add: byte_at_def nth_append)
  have b2: "byte_at ?cmd (length (pre @ a)) = Inr (hd u)" using u(2) unfolding s(1) by (cases u) (simp_all add: byte_at_def nth_append)
  have we: "word_end ?cmd t (length (pre @ a)) = Inr (length (pre @ a @ w))"
    using word_end_eq [OF u0, of "pre @ a" r t] unfolding s(1) w by simp
  have hv: "v \<noteq> [] \<Longrightarrow> hd v = t" using hd_dropWhile [of "\<lambda>c. c \<noteq> t" u] unfolding v by blast
  have bv: "byte_at ?cmd (length (pre @ a @ w)) = Inr (if v = [] then 0 else t)"
    using hv unfolding s(1) s(2) by (cases v) (simp_all add: byte_at_def nth_append)
  have upd: "v \<noteq> [] \<Longrightarrow> ?cmd[length (pre @ a @ w) := 0] = (pre @ a @ w @ [0]) @ tl v @ 0 # r"
    unfolding s(1) s(2) by (cases v) (simp_all add: list_update_append)
  have set: "set_byte_at argv n (Some (length (pre @ a))) = (if n < 16 then Inr ?argv else Inl OutOfBounds)"
    using l by (simp add: set_byte_at_def)
  have "parse_loop ?cmd argv n (length pre) t = (if n < 16 then
        if v = [] then parse_loop ?cmd ?argv (Suc n) (length (pre @ a @ w)) t
        else parse_loop (?cmd[length (pre @ a @ w) := 0]) ?argv (Suc n) (Suc (length (pre @ a @ w))) t
      else Inl OutOfBounds)"
    using b1 b2 hs hu sk we bv t n unfolding set by (simp add: parse_loop.simps [of ?cmd argv] set del: length_append)
  moreover have "v = [] \<Longrightarrow> parse_loop ?cmd ?argv (Suc n) (length (pre @ a @ w)) t = Inr (int (Suc n), ?argv, ?cmd)"
    using bv by (subst parse_loop.simps) simp
  ultimately show ?thesis using upd by (simp del: append_assoc length_append) simp
qed

lemma parse_loop_ok:
  assumes "t \<noteq> 0" and "0 \<notin> set s" and "length argv = 16" and "n \<le> 16"
  shows "if n + length (words t s) \<le> 16
     then \<exists>argv' cmd'. parse_loop (pre @ s @ 0 # r) argv n (length pre) t = Inr (int (n + length (words t s)), argv', cmd') \<and>
       take (length pre) cmd' = pre \<and> length argv' = 16 \<and> parsed cmd' argv' n (words t s) \<and>
       (\<forall>i. i < n \<or> n + length (words t s) \<le> i \<longrightarrow> argv' ! i = argv ! i)
     else parse_loop (pre @ s @ 0 # r) argv n (length pre) t = Inl OutOfBounds"
  using assms(2-4)
proof (induction "length s" arbitrary: s pre argv n rule: less_induct)
  case less
  define a u where au: "a = takeWhile (\<lambda>c. c = t) s" "u = dropWhile (\<lambda>c. c = t) s"
  define w v where wv: "w = takeWhile (\<lambda>c. c \<noteq> t) u" "v = dropWhile (\<lambda>c. c \<noteq> t) u"
  have s: "s = a @ w @ v" by (simp add: au wv)
  have ws: "words t s = (if u = [] then [] else w # words t v)" by (subst words.simps) (simp add: Let_def au wv)
  let ?cmd = "pre @ s @ 0 # r" and ?argv = "argv[n := Some (length (pre @ a))]"
  show ?case
  proof (cases "u = []")
    case True
    then have "skip_token ?cmd t (length pre) = Inr (length (pre @ s))"
      using skip_token_eq [OF assms(1) less.prems(1)] by (simp add: au(2) dropWhile_eq_Nil_conv takeWhile_eq_all_conv [THEN iffD2])
    moreover have "byte_at ?cmd (length (pre @ s)) = Inr 0" by (simp add: byte_at_def nth_append)
    ultimately have "parse_loop ?cmd argv n (length pre) t = Inr (int n, argv, ?cmd)"
      by (subst parse_loop.simps) (cases s; simp add: byte_at_def nth_append)
    then show ?thesis using True ws less.prems(2,3) by (auto simp: parsed_def)
  next
    case False
    note step = parse_step [OF assms(1) less.prems au(1,2) False wv, of pre r]
    have w0: "0 \<notin> set w" "0 \<notin> set v" using less.prems(1) s by auto
    consider (full) "n = 16" | (last) "n < 16" "v = []" | (more) "n < 16" "v \<noteq> []" using less.prems(3) by linarith
    then show ?thesis
    proof cases
      case full
      then show ?thesis using step ws False by simp
    next
      case last
      have "words t v = []" unfolding last by (subst words.simps) simp
      moreover have "parsed ?cmd ?argv n [w]"
        by (rule parsed_Cons [of _ _ "length (pre @ a)"]) (use less.prems(2) s last w0 in \<open>auto simp: holds_str_def parsed_def\<close>)
      ultimately show ?thesis using step last ws False less.prems(2) by auto
    next
      case more
      let ?pre = "pre @ a @ w @ [0]"
      have v: "v = t # tl v" using more(2) hd_dropWhile [of "\<lambda>c. c \<noteq> t" u] by (cases v) (auto simp: wv)
      have wt: "words t v = words t (tl v)" by (subst v) (rule words_skip)
      have lt: "length (tl v) < length s" "0 \<notin> set (tl v)" using s more(2) w0(2) by (cases v; auto)+
      note ih = less.hyps [OF lt, of ?argv "Suc n" ?pre]
      have eq: "parse_loop ?cmd argv n (length pre) t = parse_loop (?pre @ tl v @ 0 # r) ?argv (Suc n) (length ?pre) t"
        using step more by simp
      show ?thesis
      proof (cases "n + length (words t s) \<le> 16")
        case True
        then have "Suc n + length (words t (tl v)) \<le> 16" using ws wt False by simp
        with ih less.prems(2) more(1) obtain argv' cmd' where 1:
          "parse_loop (?pre @ tl v @ 0 # r) ?argv (Suc n) (length ?pre) t = Inr (int (Suc n + length (words t (tl v))), argv', cmd')"
          "take (length ?pre) cmd' = ?pre" "length argv' = 16" "parsed cmd' argv' (Suc n) (words t (tl v))"
          "\<forall>i. i < Suc n \<or> Suc n + length (words t (tl v)) \<le> i \<longrightarrow> argv' ! i = ?argv ! i" by auto
        obtain z where cm: "cmd' = ?pre @ z" using append_take_drop_id [of "length ?pre" cmd'] 1(2) by metis
        have "holds_str (drop (length (pre @ a)) cmd') w" using w0(1) unfolding cm holds_str_def by simp
        then have "parsed cmd' argv' n (w # words t (tl v))"
          using 1(4,5) more(1) less.prems(2) by (intro parsed_Cons [of _ _ "length (pre @ a)"]) auto
        moreover have "take (length pre) cmd' = pre" unfolding cm by simp
        moreover have "\<forall>i. i < n \<or> n + length (words t s) \<le> i \<longrightarrow> argv' ! i = argv ! i" using 1(5) ws wt False by auto
        ultimately show ?thesis using True eq 1(1,3) ws wt False by auto
      next
        case full: False
        then have "parse_loop (?pre @ tl v @ 0 # r) ?argv (Suc n) (length ?pre) t = Inl OutOfBounds"
          using ih less.prems(2) more(1) ws wt False by auto
        then show ?thesis using full eq by simp
      qed
    qed
  qed
qed

lemma cmd_parse_ok:
  assumes "t \<noteq> 0" and "0 \<notin> set s"
  shows "if length (words t s) \<le> 16
     then \<exists>argv cmd. cmd_parse (Some (s @ 0 # r)) t = Inr (int (length (words t s)), argv, cmd) \<and> length argv = 16 \<and>
       (\<forall>i < 16. if i < length (words t s) then \<exists>p. argv ! i = Some p \<and> holds_str (drop p cmd) (words t s ! i) else argv ! i = None)
     else cmd_parse (Some (s @ 0 # r)) t = Inl OutOfBounds"
proof -
  note p = parse_loop_ok [OF assms, of "replicate 16 None" 0 "[]" r]
  show ?thesis
  proof (cases "length (words t s) \<le> 16")
    case True
    with p obtain argv cmd where 1: "parse_loop (s @ 0 # r) (replicate 16 None) 0 0 t = Inr (int (length (words t s)), argv, cmd)" "length argv = 16"
      "parsed cmd argv 0 (words t s)" "\<forall>i. length (words t s) \<le> i \<longrightarrow> argv ! i = replicate 16 None ! i" by auto
    have "if i < length (words t s) then \<exists>p. argv ! i = Some p \<and> holds_str (drop p cmd) (words t s ! i) else argv ! i = None" if "i < 16" for i
      using 1(3,4) that by (auto simp: parsed_def)
    then show ?thesis using True 1(1,2) by (auto simp: cmd_parse_def)
  next
    case False
    then show ?thesis using p by (simp add: cmd_parse_def)
  qed
qed

text \<open>
  C30. \<^verbatim>\<open>cmd_parse\<close> splits a command line into its words: for every line with at most 16 words it returns their number,
  and the entries of \<^verbatim>\<open>argv\<close> point to the words in order, each terminated in place. With more words it writes behind
  \<^verbatim>\<open>argv\<close>: the bound is checked against 16 after the entry was written, so the return of -1 is never reached.
\<close>

theorem cmd_parse_splits:
  assumes "t \<noteq> 0" and "0 \<notin> set s"
  shows "if length (words t s) \<le> 16
     then \<exists>argv cmd. cmd_parse (Some (s @ 0 # r)) t = Inr (int (length (words t s)), argv, cmd) \<and> length argv = 16 \<and>
       (\<forall>i < 16. if i < length (words t s) then \<exists>p. argv ! i = Some p \<and> holds_str (drop p cmd) (words t s ! i) else argv ! i = None)
     else cmd_parse (Some (s @ 0 # r)) t = Inl OutOfBounds"
  using assms by (rule cmd_parse_ok)

theorem cmd_parse_splits_witness:
  "\<exists>argv cmd. cmd_parse (Some ([32, 108, 115, 32, 32, 47, 97] @ 0 # [])) 32 = Inr (2, argv, cmd) \<and>
     (\<exists>p. argv ! 1 = Some p \<and> holds_str (drop p cmd) [47, 97])"
proof -
  have w: "words 32 [32, 108, 115, 32, 32, 47, 97] = [[108, 115], [47, 97]]" by (simp add: words.simps)
  then obtain argv cmd where "cmd_parse (Some ([32, 108, 115, 32, 32, 47, 97] @ 0 # [])) 32 = Inr (2, argv, cmd)"
    "\<forall>i < 16. if i < 2 then \<exists>p. argv ! i = Some p \<and> holds_str (drop p cmd) ([[108, 115], [47, 97]] ! i) else argv ! i = None"
    using cmd_parse_splits [of 32 "[32, 108, 115, 32, 32, 47, 97]" "[]"] unfolding w by auto
  moreover from this(2) have "\<exists>p. argv ! 1 = Some p \<and> holds_str (drop p cmd) [47, 97]" by (elim allE [of _ 1]) simp
  ultimately show ?thesis by blast
qed

end
