(* ===== verification/Interrupt.thy ===== *)
theory Interrupt
  imports Kernel_Prelude
begin

text \<open>
  Models of \<^verbatim>\<open>kernel/interrupt.c\<close> and of the descriptors of \<^verbatim>\<open>userprog/tss.c\<close>: the gates of the interrupt
  descriptor table, the table of handlers behind them, the exception names, the set-up of the
  interrupt controller as the sequence of port writes, the interrupt flag, and the segment
  descriptors for user code, user data and the task state segment. The entry points of
  \<^verbatim>\<open>kernel.S\<close> and the addresses the linker gives to objects are arguments.
\<close>

type_synonym u64 = "64 word"

section \<open>State\<close>

record gate_desc =
  func_offset_low_word :: u16
  gate_selector :: u16
  dcount :: u8
  gate_attribute :: u8
  func_offset_high_word :: u16

datatype vga_op = PutStr string | PutChar char | PutInt u32 | SetCursor nat

datatype intr_status = INTR_OFF | INTR_ON

record cpu =
  idt :: "gate_desc list"
  idt_table :: "u32 list"
  intr_name :: "string list"
  eflags :: u32
  idtr :: u64
  out_ports :: "(u16 \<times> u8) list"
  vga :: "vga_op list"

definition IDT_DESC_CNT :: nat where "IDT_DESC_CNT = 0x81"

definition SELECTOR_K_CODE :: u16 where "SELECTOR_K_CODE = push_bit 3 1 + push_bit 2 0 + 0"
definition SELECTOR_K_DATA :: u16 where "SELECTOR_K_DATA = push_bit 3 2 + push_bit 2 0 + 0"
definition SELECTOR_TSS :: u16 where "SELECTOR_TSS = push_bit 3 4 + push_bit 2 0 + 0"
definition SELECTOR_U_CODE :: u16 where "SELECTOR_U_CODE = push_bit 3 5 + push_bit 2 0 + 3"
definition SELECTOR_U_DATA :: u16 where "SELECTOR_U_DATA = push_bit 3 6 + push_bit 2 0 + 3"

definition IDT_DESC_ATTR_DPL0 :: u8 where "IDT_DESC_ATTR_DPL0 = push_bit 7 1 + push_bit 5 0 + 0xE"
definition IDT_DESC_ATTR_DPL3 :: u8 where "IDT_DESC_ATTR_DPL3 = push_bit 7 1 + push_bit 5 3 + 0xE"

definition outb :: "u16 \<Rightarrow> u8 \<Rightarrow> cpu \<Rightarrow> cpu" where
  "outb port data c = c\<lparr>out_ports := out_ports c @ [(port, data)]\<rparr>"

definition vga_put :: "vga_op list \<Rightarrow> cpu \<Rightarrow> cpu" where
  "vga_put ops c = c\<lparr>vga := vga c @ ops\<rparr>"

section \<open>Initialisation\<close>

definition pic_init :: "cpu \<Rightarrow> cpu" where
  "pic_init c =
     (let c = outb 0x20 0x11 c; c = outb 0x21 0x20 c; c = outb 0x21 0x04 c; c = outb 0x21 0x01 c;
          c = outb 0xa0 0x11 c; c = outb 0xa1 0x28 c; c = outb 0xa1 0x02 c; c = outb 0xa1 0x01 c;
          c = outb 0x21 0xf8 c; c = outb 0xa1 0xbf c
      in vga_put [PutStr ''    pic_init done\<newline>''] c)"

definition make_idt_desc :: "u8 \<Rightarrow> u32 \<Rightarrow> gate_desc" where
  "make_idt_desc attr function =
     \<lparr>func_offset_low_word = ucast (function AND 0x0000FFFF), gate_selector = SELECTOR_K_CODE, dcount = 0,
      gate_attribute = attr, func_offset_high_word = ucast (drop_bit 16 (function AND 0xFFFF0000))\<rparr>"

fun idt_desc_loop :: "nat \<Rightarrow> nat \<Rightarrow> (nat \<Rightarrow> u32) \<Rightarrow> gate_desc list \<Rightarrow> gate_desc list" where
  "idt_desc_loop i 0 intr_entry_table ds = ds"
| "idt_desc_loop i (Suc n) intr_entry_table ds =
     idt_desc_loop (Suc i) n intr_entry_table (ds[i := make_idt_desc IDT_DESC_ATTR_DPL0 (intr_entry_table i)])"

text \<open>The entry table of \<^verbatim>\<open>kernel.S\<close> has 48 entries; the loop reads \<open>IDT_DESC_CNT\<close> words from its address.\<close>

definition idt_desc_init :: "(nat \<Rightarrow> u32) \<Rightarrow> u32 \<Rightarrow> cpu \<Rightarrow> cpu" where
  "idt_desc_init intr_entry_table syscall_handler c =
     (let lastindex = IDT_DESC_CNT - 1;
          ds = idt_desc_loop 0 IDT_DESC_CNT intr_entry_table (idt c)
      in vga_put [PutStr ''    idt_desc_init done\<newline>'']
           (c\<lparr>idt := ds[lastindex := make_idt_desc IDT_DESC_ATTR_DPL3 syscall_handler]\<rparr>))"

definition exception_names :: "(nat \<times> string) list" where
  "exception_names =
    [(0, ''#DE Divide Error''), (1, ''#DB Debug Exception''), (2, ''NMI Interrupt''),
     (3, ''#BP Breakpoint Exception''), (4, ''#OF Overflow Exception''),
     (5, ''#BR BOUND Range Exceeded Exception''), (6, ''#UD Invalid Opcode Exception''),
     (7, ''#NM Device Not Available Exception''), (8, ''#DF Double Fault Exception''),
     (9, ''Coprocessor Segment Overrun''), (10, ''#TS Invalid TSS Exception''),
     (11, ''#NP Segment Not Present''), (12, ''#SS Stack Fault Exception''),
     (13, ''#GP General Protection Exception''), (14, ''#PF Page-Fault Exception''),
     (16, ''#MF x87 FPU Floating-Point Error''), (17, ''#AC Alignment Check Exception''),
     (18, ''#MC Machine-Check Exception''), (19, ''#XF SIMD Floating-Point Exception'')]"

fun exception_loop :: "nat \<Rightarrow> nat \<Rightarrow> u32 \<Rightarrow> cpu \<Rightarrow> cpu" where
  "exception_loop i 0 general c = c"
| "exception_loop i (Suc n) general c =
     exception_loop (Suc i) n general
       (c\<lparr>idt_table := (idt_table c)[i := general], intr_name := (intr_name c)[i := ''unknown'']\<rparr>)"

definition exception_init :: "u32 \<Rightarrow> cpu \<Rightarrow> cpu" where
  "exception_init general c =
     (let c = exception_loop 0 IDT_DESC_CNT general c
      in c\<lparr>intr_name := fold (\<lambda>(i, s) ns. ns[i := s]) exception_names (intr_name c)\<rparr>)"

definition idt_init :: "(nat \<Rightarrow> u32) \<Rightarrow> u32 \<Rightarrow> u32 \<Rightarrow> u32 \<Rightarrow> cpu \<Rightarrow> cpu" where
  "idt_init intr_entry_table syscall_handler general idt_addr c =
     (let c = vga_put [PutStr ''idt_init start\<newline>''] c;
          c = idt_desc_init intr_entry_table syscall_handler c;
          c = exception_init general c;
          c = pic_init c;
          idt_operand = (of_nat (8 * IDT_DESC_CNT) - 1) OR push_bit 16 (ucast idt_addr)
      in vga_put [PutStr ''idt_init done\<newline>''] (c\<lparr>idtr := idt_operand\<rparr>))"

section \<open>Handlers\<close>

definition register_handler :: "u8 \<Rightarrow> u32 \<Rightarrow> cpu \<Rightarrow> cpu result" where
  "register_handler vector_no function c =
     (if unat vector_no < length (idt_table c) then Inr (c\<lparr>idt_table := (idt_table c)[unat vector_no := function]\<rparr>)
      else Inl OutOfBounds)"

text \<open>The common handler: \<open>False\<close> when it has printed its message and spins with interrupts off.\<close>

definition general_intr_handler :: "u32 \<Rightarrow> u8 \<Rightarrow> cpu \<Rightarrow> (bool \<times> cpu) result" where
  "general_intr_handler cr2 vec_nr c =
     (if vec_nr = 0x27 \<or> vec_nr = 0x2f then Inr (True, c)
      else if \<not> unat vec_nr < length (intr_name c) then Inl OutOfBounds
      else Inr (False,
        vga_put ([SetCursor 0] @ replicate 320 (PutChar CHR '' '') @
              [SetCursor 0, PutStr ''!!!!!!!      excetion message begin  !!!!!!!!\<newline>'', SetCursor 88,
               PutStr (intr_name c ! unat vec_nr)] @
              (if vec_nr = 14 then [PutStr ''\<newline>page fault addr is '', PutInt cr2] else []) @
              [PutStr ''\<newline>!!!!!!!      excetion message end    !!!!!!!!\<newline>'']) c))"

text \<open>The entry point of a vector in \<^verbatim>\<open>kernel.S\<close>: both controllers are told that the interrupt is served,
  then control goes to the registered handler.\<close>

definition intr_entry :: "nat \<Rightarrow> cpu \<Rightarrow> u32 \<times> cpu" where
  "intr_entry vec c = (idt_table c ! vec, outb 0x20 0x20 (outb 0xa0 0x20 c))"

section \<open>The interrupt flag\<close>

definition EFLAGS_IF :: u32 where "EFLAGS_IF = 0x00000200"

definition intr_get_status :: "cpu \<Rightarrow> intr_status" where
  "intr_get_status c = (if EFLAGS_IF AND eflags c \<noteq> 0 then INTR_ON else INTR_OFF)"

definition sti :: "cpu \<Rightarrow> cpu" where
  "sti c = c\<lparr>eflags := set_bit 9 (eflags c)\<rparr>"

definition cli :: "cpu \<Rightarrow> cpu" where
  "cli c = c\<lparr>eflags := unset_bit 9 (eflags c)\<rparr>"

definition intr_enable :: "cpu \<Rightarrow> intr_status \<times> cpu" where
  "intr_enable c =
     (if INTR_ON = intr_get_status c then (INTR_ON, vga_put [PutStr ''dsalkdjl\<newline>''] c) else (INTR_OFF, sti c))"

definition intr_disable :: "cpu \<Rightarrow> intr_status \<times> cpu" where
  "intr_disable c = (if INTR_ON = intr_get_status c then (INTR_ON, cli c) else (INTR_OFF, c))"

definition intr_set_status :: "intr_status \<Rightarrow> cpu \<Rightarrow> intr_status \<times> cpu" where
  "intr_set_status status c = (if status = INTR_ON then intr_enable c else intr_disable c)"

section \<open>Segment descriptors\<close>

record gdt_desc =
  limit_low_word :: u16
  base_low_word :: u16
  base_mid_byte :: u8
  attr_low_byte :: u8
  limit_high_attr_high :: u8
  base_high_byte :: u8

text \<open>The task state segment: 27 words of which the kernel uses three.\<close>

record tss =
  ts_backlink :: u32
  ts_esp0 :: u32
  ts_ss0 :: u32
  ts_esp1 :: u32
  ts_ss1 :: u32
  ts_esp2 :: u32
  ts_ss2 :: u32
  ts_cr3 :: u32
  ts_eip :: u32
  ts_eflags :: u32
  ts_eax :: u32
  ts_ecx :: u32
  ts_edx :: u32
  ts_ebx :: u32
  ts_esp :: u32
  ts_ebp :: u32
  ts_esi :: u32
  ts_edi :: u32
  ts_es :: u32
  ts_cs :: u32
  ts_ss :: u32
  ts_ds :: u32
  ts_fs :: u32
  ts_gs :: u32
  ts_ldt :: u32
  ts_trace :: u32
  ts_io_base :: u32

record segments =
  task_seg :: tss
  gdt :: "nat \<Rightarrow> gdt_desc"
  gdtr :: u64
  task_reg :: u16
  seg_out :: "vga_op list"

definition GDT_ATTR_HIGH :: u8 where
  "GDT_ATTR_HIGH = push_bit 7 1 + push_bit 6 1 + push_bit 5 0 + push_bit 4 0"
definition GDT_CODE_ATTR_LOW_DPL3 :: u8 where
  "GDT_CODE_ATTR_LOW_DPL3 = push_bit 7 1 + push_bit 5 3 + push_bit 4 1 + 8"
definition GDT_DATA_ATTR_LOW_DPL3 :: u8 where
  "GDT_DATA_ATTR_LOW_DPL3 = push_bit 7 1 + push_bit 5 3 + push_bit 4 1 + 2"
definition TSS_ATTR_HIGH :: u8 where
  "TSS_ATTR_HIGH = push_bit 7 1 + push_bit 6 0 + push_bit 5 0 + push_bit 4 0 + 0"
definition TSS_ATTR_LOW :: u8 where
  "TSS_ATTR_LOW = push_bit 7 1 + push_bit 5 0 + push_bit 4 0 + 9"

definition make_gdt_desc :: "u32 \<Rightarrow> u32 \<Rightarrow> u8 \<Rightarrow> u8 \<Rightarrow> gdt_desc" where
  "make_gdt_desc desc_base limit attr_low attr_high =
     \<lparr>limit_low_word = ucast (limit AND 0x0000ffff),
      base_low_word = ucast (desc_base AND 0x0000ffff),
      base_mid_byte = ucast (drop_bit 16 (desc_base AND 0x00ff0000)),
      attr_low_byte = attr_low,
      limit_high_attr_high = ucast (drop_bit 16 (limit AND 0x000f0000) + ucast attr_high),
      base_high_byte = ucast (drop_bit 24 desc_base)\<rparr>"

definition sizeof_tss :: u32 where "sizeof_tss = 108"

definition zero_tss :: tss where
  "zero_tss = \<lparr>ts_backlink = 0, ts_esp0 = 0, ts_ss0 = 0, ts_esp1 = 0, ts_ss1 = 0, ts_esp2 = 0, ts_ss2 = 0,
     ts_cr3 = 0, ts_eip = 0, ts_eflags = 0, ts_eax = 0, ts_ecx = 0, ts_edx = 0, ts_ebx = 0, ts_esp = 0,
     ts_ebp = 0, ts_esi = 0, ts_edi = 0, ts_es = 0, ts_cs = 0, ts_ss = 0, ts_ds = 0, ts_fs = 0, ts_gs = 0,
     ts_ldt = 0, ts_trace = 0, ts_io_base = 0\<rparr>"

text \<open>Slot \<open>i\<close> of the table is at \<^verbatim>\<open>0xc0000900 + 8 * i\<close>; \<open>tss_addr\<close> is the address of the segment.\<close>

definition gdt_slot :: "u32 \<Rightarrow> nat" where
  "gdt_slot a = unat (a - 0xc0000900) div 8"

definition tss_init :: "u32 \<Rightarrow> segments \<Rightarrow> segments" where
  "tss_init tss_addr s =
     (let tss_size = sizeof_tss;
          t = zero_tss\<lparr>ts_ss0 := ucast SELECTOR_K_DATA, ts_io_base := tss_size\<rparr>;
          g = (gdt s)(gdt_slot 0xc0000920 := make_gdt_desc tss_addr (tss_size - 1) TSS_ATTR_LOW TSS_ATTR_HIGH,
                gdt_slot 0xc0000928 := make_gdt_desc 0 0xfffff GDT_CODE_ATTR_LOW_DPL3 GDT_ATTR_HIGH,
                gdt_slot 0xc0000930 := make_gdt_desc 0 0xfffff GDT_DATA_ATTR_LOW_DPL3 GDT_ATTR_HIGH)
      in s\<lparr>task_seg := t, gdt := g, gdtr := (8 * 7 - 1) OR push_bit 16 (ucast (0xc0000900 :: u32)),
           task_reg := SELECTOR_TSS,
           seg_out := seg_out s @ [PutStr ''tss_init_start\<newline>'', PutStr ''tss_init and ltr done\<newline>'']\<rparr>)"

definition update_tss_esp :: "u32 \<Rightarrow> segments \<Rightarrow> segments" where
  "update_tss_esp pthread s = s\<lparr>task_seg := (task_seg s)\<lparr>ts_esp0 := pthread + 4096\<rparr>\<rparr>"

section \<open>What the processor reads\<close>

text \<open>The fields of the descriptors as the processor decodes them: the reference definitions of this
  theory.\<close>

definition gate_offset :: "gate_desc \<Rightarrow> u32" where
  "gate_offset d = ucast (func_offset_low_word d) OR push_bit 16 (ucast (func_offset_high_word d))"

definition attr_present :: "u8 \<Rightarrow> bool" where "attr_present a = bit a 7"
definition attr_dpl :: "u8 \<Rightarrow> u8" where "attr_dpl a = drop_bit 5 a AND 3"
definition attr_type :: "u8 \<Rightarrow> u8" where "attr_type a = a AND 0x1f"

definition seg_base :: "gdt_desc \<Rightarrow> u32" where
  "seg_base d = ucast (base_low_word d) OR push_bit 16 (ucast (base_mid_byte d)) OR push_bit 24 (ucast (base_high_byte d))"

definition seg_limit :: "gdt_desc \<Rightarrow> u32" where
  "seg_limit d = ucast (limit_low_word d) OR push_bit 16 (ucast (limit_high_attr_high d AND 0xf))"

definition seg_last :: "gdt_desc \<Rightarrow> nat" where
  "seg_last d = (if bit (limit_high_attr_high d) 7 then unat (seg_limit d) * 4096 + 4095 else unat (seg_limit d))"

definition dtr_base :: "u64 \<Rightarrow> u32" where "dtr_base w = ucast (drop_bit 16 w)"
definition dtr_limit :: "u64 \<Rightarrow> u16" where "dtr_limit w = ucast w"

definition selector_slot :: "u16 \<Rightarrow> nat" where "selector_slot s = unat (drop_bit 3 s)"
definition selector_rpl :: "u16 \<Rightarrow> u16" where "selector_rpl s = s AND 3"

section \<open>Gates\<close>

lemma half_masks:
  "(0xFFFF :: u32) = mask 16"
  "(0xFFFF0000 :: u32) = push_bit 16 (mask 16)"
  "(0xFF0000 :: u32) = push_bit 16 (mask 8)"
  "(0xF0000 :: u32) = push_bit 16 (mask 4)"
  "(0xF :: u8) = mask 4"
  by (simp_all add: push_bit_eq_mult mask_eq_exp_minus_1)

lemma gate_offset_make [simp]: "gate_offset (make_idt_desc a f) = f"
  unfolding gate_offset_def make_idt_desc_def half_masks
  by (rule bit_word_eqI) (auto simp: bit_simps)

lemma gate_fields_make [simp]:
  "gate_attribute (make_idt_desc a f) = a" "gate_selector (make_idt_desc a f) = SELECTOR_K_CODE"
  by (simp_all add: make_idt_desc_def)

lemma dtr_decode:
  "dtr_base (ucast (l :: u16) OR push_bit 16 (ucast b)) = b" "dtr_limit (ucast l OR push_bit 16 (ucast b)) = l"
  unfolding dtr_base_def dtr_limit_def by (rule bit_word_eqI, auto simp: bit_simps dest: bit_imp_le_length)+

lemma take_Suc_update: "i < length xs \<Longrightarrow> take (Suc i) (xs[i := v]) = take i xs @ [v]"
  by (simp add: take_Suc_conv_app_nth list_update_append)

lemma idt_desc_loop_eq:
  "i + n \<le> length ds \<Longrightarrow>
   idt_desc_loop i n e ds = take i ds @ map (\<lambda>j. make_idt_desc IDT_DESC_ATTR_DPL0 (e j)) [i..<i + n] @ drop (i + n) ds"
proof (induction n arbitrary: i ds)
  case (Suc n)
  then show ?case
    by (simp add: take_Suc_update upt_conv_Cons del: upt_Suc)
qed simp

lemma exception_loop_eq:
  "i + n \<le> length (idt_table c) \<Longrightarrow> i + n \<le> length (intr_name c) \<Longrightarrow>
   exception_loop i n g c =
     c\<lparr>idt_table := take i (idt_table c) @ replicate n g @ drop (i + n) (idt_table c),
       intr_name := take i (intr_name c) @ replicate n ''unknown'' @ drop (i + n) (intr_name c)\<rparr>"
proof (induction n arbitrary: i c)
  case (Suc n)
  then show ?case by (simp add: take_Suc_update)
qed simp

lemma fold_update_length [simp]: "length (fold (\<lambda>(i, s) ns. ns[i := s]) us ns) = length ns"
  by (induction us arbitrary: ns) (auto simp: case_prod_unfold)

definition idt_ok :: "(nat \<Rightarrow> u32) \<Rightarrow> u32 \<Rightarrow> cpu \<Rightarrow> bool" where
  "idt_ok e sysh c \<longleftrightarrow> length (idt c) = 129 \<and>
     (\<forall>i < 129. let d = idt c ! i in
        gate_offset d = (if i = 0x80 then sysh else e i) \<and> gate_selector d = SELECTOR_K_CODE \<and>
        attr_present (gate_attribute d) \<and> attr_type (gate_attribute d) = 0xE \<and>
        attr_dpl (gate_attribute d) = (if i = 0x80 then 3 else 0))"

lemma gate_attrs:
  "attr_present IDT_DESC_ATTR_DPL0" "attr_type IDT_DESC_ATTR_DPL0 = 0xE" "attr_dpl IDT_DESC_ATTR_DPL0 = 0"
  "attr_present IDT_DESC_ATTR_DPL3" "attr_type IDT_DESC_ATTR_DPL3 = 0xE" "attr_dpl IDT_DESC_ATTR_DPL3 = 3"
  by (simp_all add: attr_present_def attr_type_def attr_dpl_def IDT_DESC_ATTR_DPL0_def IDT_DESC_ATTR_DPL3_def)

lemma idt_init_fields:
  fixes e :: "nat \<Rightarrow> u32" and sysh g a :: u32 and c :: cpu
  assumes "length (idt c) = 129" "length (idt_table c) = 129" "length (intr_name c) = 129"
  defines "c' \<equiv> idt_init e sysh g a c"
  shows "idt c' = map (\<lambda>i. make_idt_desc IDT_DESC_ATTR_DPL0 (e i)) [0..<128] @ [make_idt_desc IDT_DESC_ATTR_DPL3 sysh]"
    and "idt_table c' = replicate 129 g"
    and "intr_name c' = fold (\<lambda>(i, s) ns. ns[i := s]) exception_names (replicate 129 ''unknown'')"
    and "eflags c' = eflags c"
    and "idtr c' = ucast (1031 :: u16) OR push_bit 16 (ucast a)"
proof -
  let ?f = "\<lambda>i. make_idt_desc IDT_DESC_ATTR_DPL0 (e i)"
  have m: "map ?f [0..<129] = map ?f [0..<128] @ [?f 128]"
    using upt_Suc_append [of 0 128] by (simp del: upt_Suc)
  note defs = c'_def idt_init_def idt_desc_init_def exception_init_def pic_init_def vga_put_def outb_def Let_def IDT_DESC_CNT_def
  show "idt c' = map ?f [0..<128] @ [make_idt_desc IDT_DESC_ATTR_DPL3 sysh]"
    using assms(1-3) idt_desc_loop_eq [of 0 129 "idt c" e]
    by (simp add: defs exception_loop_eq m list_update_append del: upt_Suc)
  show "idt_table c' = replicate 129 g" using assms(1-3) by (simp add: defs exception_loop_eq)
  show "intr_name c' = fold (\<lambda>(i, s) ns. ns[i := s]) exception_names (replicate 129 ''unknown'')"
    using assms(1-3) by (simp add: defs exception_loop_eq)
  show "eflags c' = eflags c" using assms(1-3) by (simp add: defs exception_loop_eq)
  show "idtr c' = ucast (1031 :: u16) OR push_bit 16 (ucast a)" by (simp add: defs)
qed

lemma idt_ok_init:
  assumes "length (idt c) = 129" "length (idt_table c) = 129" "length (intr_name c) = 129"
  shows "idt_ok e sysh (idt_init e sysh g a c)"
  using gate_attrs by (simp add: idt_ok_def idt_init_fields [OF assms] nth_append Let_def del: upt_Suc)

lemma u8_129: "unat v < 129 \<longleftrightarrow> v \<le> 0x80" for v :: u8
  by (auto simp: word_le_nat_alt)

section \<open>The interrupt flag\<close>

lemma status_bit: "intr_get_status c = INTR_ON \<longleftrightarrow> bit (eflags c) 9"
proof -
  have "EFLAGS_IF = push_bit 9 1" by (simp add: EFLAGS_IF_def)
  then show ?thesis using and_push_bit_1_iff [of 9 "eflags c"] by (simp add: intr_get_status_def)
qed

lemma status_if: "intr_get_status c = (if bit (eflags c) 9 then INTR_ON else INTR_OFF)"
  using status_bit [of c] by (cases "intr_get_status c") simp_all

section \<open>Segment descriptors\<close>

lemma seg_base_make [simp]: "seg_base (make_gdt_desc b l lo hi) = b"
proof (rule bit_word_eqI)
  fix n assume "n < LENGTH(32)"
  then show "bit (seg_base (make_gdt_desc b l lo hi)) n = bit b n"
    unfolding seg_base_def make_gdt_desc_def half_masks
    by (cases "n < 16"; cases "n < 24") (auto simp: bit_simps)
qed

text \<open>The sum in the byte that limit and attributes share does not carry, as the attributes have only
  their high half.\<close>

lemma limit_high_make:
  assumes "hi AND 0xf = 0"
  shows "limit_high_attr_high (make_gdt_desc b l lo hi) = ucast (drop_bit 16 l AND mask 4) OR hi"
proof -
  have h: "\<not> bit hi n" if "n < 4" for n
    using arg_cong [OF assms, of "\<lambda>w. bit w n"] that by (simp add: half_masks bit_simps)
  have "drop_bit 16 (l AND 0xf0000) = drop_bit 16 l AND mask 4"
    unfolding half_masks by (rule bit_word_eqI) (auto simp: bit_simps dest: bit_imp_le_length)
  moreover have "(drop_bit 16 l AND mask 4) + ucast hi = (drop_bit 16 l AND mask 4) OR (ucast hi :: u32)"
    by (rule disjunctive_add_eq_or) (auto intro!: bit_word_eqI simp: bit_simps h)
  ultimately show ?thesis
    by (simp add: make_gdt_desc_def) (auto intro!: bit_word_eqI simp: bit_simps)
qed

lemma seg_limit_make:
  assumes "hi AND 0xf = 0" "unat l < 2 ^ 20"
  shows "seg_limit (make_gdt_desc b l lo hi) = l"
proof (rule bit_word_eqI)
  have h: "\<not> bit hi n" if "n < 4" for n
    using arg_cong [OF assms(1), of "\<lambda>w. bit w n"] that by (simp add: half_masks bit_simps)
  have t: "take_bit 20 l = l"
    using assms(2) by (simp add: word_unat_eq_iff unsigned_take_bit_eq take_bit_nat_eq_self)
  have z: "\<not> bit l n" if "20 \<le> n" for n using arg_cong [OF t, of "\<lambda>w. bit w n"] that by (simp add: bit_simps)
  fix n assume n: "n < LENGTH(32)"
  have low: "limit_low_word (make_gdt_desc b l lo hi) = ucast (l AND 0xffff)" by (simp add: make_gdt_desc_def)
  show "bit (seg_limit (make_gdt_desc b l lo hi)) n = bit l n"
    unfolding seg_limit_def limit_high_make [OF assms(1)] low unfolding half_masks
    using n z [of n] h [of "n - 16"] by (cases "n < 16"; cases "n < 20") (auto simp: bit_simps)
qed

lemma high_attrs: "TSS_ATTR_HIGH AND 0xf = 0" "GDT_ATTR_HIGH AND 0xf = 0" "bit TSS_ATTR_HIGH 7" "bit GDT_ATTR_HIGH 7"
  by (simp_all add: TSS_ATTR_HIGH_def GDT_ATTR_HIGH_def)

lemma seg_last_make:
  assumes "hi AND 0xf = 0" "unat l < 2 ^ 20" "bit hi 7"
  shows "seg_last (make_gdt_desc b l lo hi) = unat l * 4096 + 4095"
  using assms by (simp add: seg_last_def seg_limit_make) (simp add: limit_high_make bit_simps)

lemma attr_low_make [simp]: "attr_low_byte (make_gdt_desc b l lo hi) = lo"
  by (simp add: make_gdt_desc_def)

lemma gdt_slots: "gdt_slot 0xc0000920 = 4" "gdt_slot 0xc0000928 = 5" "gdt_slot 0xc0000930 = 6"
  by (simp_all add: gdt_slot_def)

lemma selector_slots:
  "selector_slot SELECTOR_TSS = 4" "selector_slot SELECTOR_U_CODE = 5" "selector_slot SELECTOR_U_DATA = 6"
  "selector_rpl SELECTOR_U_CODE = 3" "selector_rpl SELECTOR_U_DATA = 3"
  by (simp_all add: selector_slot_def selector_rpl_def SELECTOR_TSS_def SELECTOR_U_CODE_def SELECTOR_U_DATA_def)

lemma gdt_attrs:
  "attr_present GDT_CODE_ATTR_LOW_DPL3" "attr_dpl GDT_CODE_ATTR_LOW_DPL3 = 3" "attr_type GDT_CODE_ATTR_LOW_DPL3 = 0x18"
  "attr_present GDT_DATA_ATTR_LOW_DPL3" "attr_dpl GDT_DATA_ATTR_LOW_DPL3 = 3" "attr_type GDT_DATA_ATTR_LOW_DPL3 = 0x12"
  "attr_present TSS_ATTR_LOW" "attr_dpl TSS_ATTR_LOW = 0" "attr_type TSS_ATTR_LOW = 9"
  by (simp_all add: attr_present_def attr_type_def attr_dpl_def GDT_CODE_ATTR_LOW_DPL3_def GDT_DATA_ATTR_LOW_DPL3_def TSS_ATTR_LOW_def)

section \<open>Properties\<close>


definition sample_cpu :: cpu where
  "sample_cpu = \<lparr>idt = replicate 129 (make_idt_desc 0 0), idt_table = replicate 129 0, intr_name = replicate 129 [],
     eflags = 0x202, idtr = 0, out_ports = [], vga = []\<rparr>"


text \<open>
  Turning interrupts off and putting the old status back nests: after \<^verbatim>\<open>intr_disable\<close> interrupts are off,
  and whatever the code in between did, as long as it left them off, \<^verbatim>\<open>intr_set_status\<close> with the saved
  status brings back the status from before, changes no other flag and prints nothing.
\<close>
theorem intr_disable_restores:
  assumes "intr_disable c = (old, c1)" "intr_get_status c2 = INTR_OFF" "intr_set_status old c2 = (x, c3)"
  shows "intr_get_status c1 = INTR_OFF \<and> intr_get_status c3 = intr_get_status c \<and> vga c3 = vga c2 \<and>
    (\<forall>n. n \<noteq> 9 \<longrightarrow> bit (eflags c3) n = bit (eflags c2) n)"
  using assms
  by (auto simp: intr_disable_def intr_set_status_def intr_enable_def status_if sti_def cli_def bit_simps split: if_splits)

theorem intr_disable_restores_witness:
  "intr_get_status (snd (intr_set_status (fst (intr_disable sample_cpu)) (snd (intr_disable sample_cpu)))) = INTR_ON"
proof -
  have on: "intr_get_status sample_cpu = INTR_ON" and off: "intr_get_status (snd (intr_disable sample_cpu)) = INTR_OFF"
    by (simp_all add: sample_cpu_def intr_disable_def status_if cli_def bit_simps)
  show ?thesis
    using intr_disable_restores [OF prod.collapse [symmetric] off prod.collapse [symmetric]] on by simp
qed


definition sample_segments :: segments where
  "sample_segments = \<lparr>task_seg = zero_tss, gdt = (\<lambda>_. make_gdt_desc 0 0 0 0), gdtr = 0, task_reg = 0, seg_out = []\<rparr>"


text \<open>
  The descriptor of the task state segment counts its limit in pages: the segment reaches 442367, far
  past the end of the structure, and the base of the I/O permission map, which was put at the end of
  the structure to say that there is no map, lies inside it.
\<close>
theorem tss_limit_in_pages:
  "let s' = tss_init a s; d = gdt s' (selector_slot (task_reg s')) in
    seg_last d = 4096 * 108 - 1 \<and> unat (ts_io_base (task_seg s')) < seg_last d"
  by (simp add: tss_init_def gdt_slots sizeof_tss_def Let_def selector_slots seg_last_make high_attrs)

end
