(* ===== verification/Process.thy ===== *)
theory Process
  imports Interrupt Kheap Kernel_Run
begin

text \<open>
  Model of \<^verbatim>\<open>userprog/process.c\<close>: the page directory and the pool of virtual addresses of a new process, its
  creation, and the frame from which it enters user mode. \<^verbatim>\<open>memcpy\<close> between word-aligned addresses copies
  word by word through the translation. The block descriptors of the process's heap belong to the
  record of the heap, so \<^verbatim>\<open>process_execute\<close> returns them beside the PCB.
\<close>

section \<open>The address space of a process\<close>

fun copy_words :: "nat \<Rightarrow> u32 \<Rightarrow> u32 \<Rightarrow> mem \<Rightarrow> mem result" where
  "copy_words 0 dst src m = Inr m"
| "copy_words (Suc n) dst src m =
     bindR (load m src) (\<lambda>w. bindR (store m dst w) (copy_words n (dst + 4) (src + 4)))"

definition create_page_dir :: "mem \<Rightarrow> (u32 \<times> mem) result" where
  "create_page_dir m =
     bindR (get_kernel_pages 1 m) (\<lambda>(page_dir_vaddr, m).
     if page_dir_vaddr = 0 then Inr (0, m)
     else
       bindR (copy_words 256 (page_dir_vaddr + 0x300 * 4) (0xfffff000 + 0x300 * 4) m) (\<lambda>m.
       bindR (addr_v2p page_dir_vaddr m) (\<lambda>new_page_dir_phy_addr.
       mapR (\<lambda>m. (page_dir_vaddr, m))
         (store m (page_dir_vaddr + 4 * 1023) (new_page_dir_phy_addr OR 4 OR 2 OR 1)))))"

definition USER_VADDR_START :: u32 where "USER_VADDR_START = 0x8048000"
definition USER_STACK3_VADDR :: u32 where "USER_STACK3_VADDR = 0xc0000000 - 0x1000"

definition user_bitmap_bytes :: nat where
  "user_bitmap_bytes = unat ((0xc0000000 - USER_VADDR_START) div 4096 div 8)"

text \<open>The address of the bitmap's pages, and the pool over them.\<close>

definition create_user_vaddr_bitmap :: "mem \<Rightarrow> (u32 \<times> virtual_addr \<times> mem) result" where
  "create_user_vaddr_bitmap m =
     (let bitmap_pg_cnt = (user_bitmap_bytes + 4096 - 1) div 4096
      in bindR (get_kernel_pages bitmap_pg_cnt m) (\<lambda>(bits_addr, m).
         if bits_addr = 0 then Inl (AssertFail ''dst_ != NULL'')
         else mapR (\<lambda>b. (bits_addr, \<lparr>vaddr_bitmap = b, vaddr_start = USER_VADDR_START\<rparr>, m))
                (bitmap_init \<lparr>btmp_bytes_len = user_bitmap_bytes, bits = replicate user_bitmap_bytes 0\<rparr>)))"

section \<open>Creation\<close>

definition process_execute :: "u32 \<Rightarrow> u32 \<Rightarrow> u8 list \<Rightarrow> kthreads \<Rightarrow> (u32 \<times> u32 \<times> mem_block_desc list \<times> kthreads) result" where
  "process_execute start_process filename name s =
     bindR (get_kernel_pages 1 (tmem s)) (\<lambda>(t, m).
     if t = 0 then Inl (AssertFail ''dst_ != NULL'')
     else
       bindR (allocate_pid (pid_bitmap s)) (\<lambda>(p, b).
       bindR (init_thread (main_thread s) t p name 31) (\<lambda>k.
       bindR (create_user_vaddr_bitmap m) (\<lambda>(bits_addr, va, m).
       bindR (create_page_dir m) (\<lambda>(pd, m).
       let k = (thread_create start_process filename (k\<lparr>tuserprog_vaddr := va\<rparr>))\<lparr>tpgdir := pd\<rparr>;
           s = s\<lparr>tmem := m, pid_bitmap := b, tasks := (tasks s)(t \<mapsto> k), ctls := (ctls s)(t := Run)\<rparr>
       in ASSERT (t \<notin> set (thread_ready_list s)) ''!elem_find(&thread_ready_list, &thread->general_tag)''
          (ASSERT (t \<notin> set (thread_all_list s)) ''!elem_find(&thread_all_list, &thread->all_list_tag)''
           (Inr (t, bits_addr, block_desc_init,
                 s\<lparr>thread_ready_list := thread_ready_list s @ [t], thread_all_list := thread_all_list s @ [t]\<rparr>))))))))"

section \<open>Entering user mode\<close>

record intr_stack =
  is_vec_no :: u32
  is_edi :: u32
  is_esi :: u32
  is_ebp :: u32
  is_esp_dummy :: u32
  is_ebx :: u32
  is_edx :: u32
  is_ecx :: u32
  is_eax :: u32
  is_gs :: u32
  is_fs :: u32
  is_es :: u32
  is_ds :: u32
  is_err_code :: u32
  is_eip :: u32
  is_cs :: u32
  is_eflags :: u32
  is_esp :: u32
  is_ss :: u32

text \<open>\<^verbatim>\<open>start_process\<close> runs in the new process: \<open>old\<close> is what lies in its frame before. A stack page that could not
  be allocated is not noticed; its NULL then gives the stack pointer \<open>0x1000\<close>. The frame is at the
  kernel stack pointer, which moves by 32 words.\<close>

definition start_process :: "u32 \<Rightarrow> intr_stack \<Rightarrow> kthreads \<Rightarrow> (u32 \<times> intr_stack \<times> kthreads) result" where
  "start_process function old s =
     (let cur = running_thread s;
          s = upd_task cur (\<lambda>k. k\<lparr>self_kstack := self_kstack k + 4 * 32\<rparr>) s
      in bindR (task cur s) (\<lambda>k.
         mapR (\<lambda>(a, m). (self_kstack k,
             old\<lparr>is_edi := 0, is_esi := 0, is_ebp := 0, is_esp_dummy := 0, is_ebx := 0, is_edx := 0, is_ecx := 0,
                 is_eax := 0, is_gs := 0, is_ds := ucast SELECTOR_U_DATA, is_es := ucast SELECTOR_U_DATA,
                 is_fs := ucast SELECTOR_U_DATA, is_eip := function, is_cs := ucast SELECTOR_U_CODE,
                 is_eflags := push_bit 12 0 OR push_bit 1 1 OR push_bit 9 1, is_esp := a + 4096,
                 is_ss := ucast SELECTOR_U_DATA\<rparr>, s\<lparr>tmem := m\<rparr>))
           (get_a_page PF_USER USER_STACK3_VADDR (tmem s))))"

section \<open>Writing through an owned page\<close>

lemma store_owned:
  assumes ok: "pages_ok pf S m" and a: "a \<in> S" and f: "vmap m a = Some f" and k: "k < 1024"
  shows "store m (a + 4 * of_nat k) w = Inr (m\<lparr>phys := (phys m)(f + 4 * of_nat k := w)\<rparr>)"
    and "pages_ok pf S (m\<lparr>phys := (phys m)(f + 4 * of_nat k := w)\<rparr>)"
    and "vmap (m\<lparr>phys := (phys m)(f + 4 * of_nat k := w)\<rparr>) = vmap m"
    and "tables (m\<lparr>phys := (phys m)(f + 4 * of_nat k := w)\<rparr>) = tables m"
proof -
  have wf: "wf_mem m" using ok by (simp add: pages_ok_def)
  have d: "data_frame pf m f" using ok a f by (auto simp: pages_ok_def)
  have off: "uint (4 * of_nat k :: u32) < 4096" using uint_4k [OF k] k by simp
  show "store m (a + 4 * of_nat k) w = Inr (m\<lparr>phys := (phys m)(f + 4 * of_nat k := w)\<rparr>)"
    using vmap_in_page [OF pages_ok_props(1) [OF ok a] off f] by (simp add: store_def)
  have "frame (f + 4 * of_nat k) = f" using uint_in_page(2) [OF data_frame_aligned [OF wf d] off] .
  moreover have "f \<notin> tables m" using d by (simp add: data_frame_def)
  ultimately have t: "\<forall>x. frame x \<in> tables m \<longrightarrow> ((phys m)(f + 4 * of_nat k := w)) x = phys m x" by auto
  show "pages_ok pf S (m\<lparr>phys := (phys m)(f + 4 * of_nat k := w)\<rparr>)"
    "vmap (m\<lparr>phys := (phys m)(f + 4 * of_nat k := w)\<rparr>) = vmap m"
    "tables (m\<lparr>phys := (phys m)(f + 4 * of_nat k := w)\<rparr>) = tables m"
    by (rule pages_ok_phys [OF ok t])+
qed

lemma cell_inj:
  assumes "frame f = f" and "i < 1024" and "j < 1024"
  shows "f + 4 * of_nat i = f + 4 * of_nat j \<longleftrightarrow> i = j"
  using cell_eq_iff [OF assms(1,1), of "4 * of_nat i" "4 * of_nat j"] uint_4k [OF assms(2)] uint_4k [OF assms(3)] assms(2,3)
  by (auto simp: u32_eq_iff)

text \<open>Copying part of a page into a page outside of all tables.\<close>

lemma copy_range:
  assumes "wf_mem m" and "frame a = a" and "frame b = b" and "vmap m a = Some f" and "vmap m b = Some g"
    and "f \<notin> tables m" and "g \<noteq> f" and "frame f = f" and "frame g = g" and "k + n \<le> 1024"
  shows "\<exists>ph. copy_words n (a + 4 * of_nat k) (b + 4 * of_nat k) m = Inr (m\<lparr>phys := ph\<rparr>) \<and>
     (\<forall>x. frame x \<noteq> f \<longrightarrow> ph x = phys m x) \<and>
     (\<forall>j < 1024. ph (f + 4 * of_nat j) = (if k \<le> j \<and> j < k + n then phys m (g + 4 * of_nat j) else phys m (f + 4 * of_nat j)))"
  using assms
proof (induction n arbitrary: k m)
  case 0
  then show ?case by (intro exI [of _ "phys m"]) auto
next
  case (Suc n)
  note p = Suc.prems
  have k: "k < 1024" and sk: "Suc k + n \<le> 1024" using p(10) by simp_all
  have off: "uint (4 * of_nat j :: u32) < 4096" if "j < 1024" for j using uint_4k [OF that] that by simp
  let ?w = "phys m (g + 4 * of_nat k)" let ?m = "m\<lparr>phys := (phys m)(f + 4 * of_nat k := ?w)\<rparr>"
  have st: "bindR (load m (b + 4 * of_nat k)) (store m (a + 4 * of_nat k)) = Inr ?m"
    using vmap_in_page [OF p(2) off [OF k] p(4)] vmap_in_page [OF p(3) off [OF k] p(5)] by (simp add: load_def store_def)
  have keep: "\<forall>x. frame x \<in> tables m \<longrightarrow> ((phys m)(f + 4 * of_nat k := ?w)) x = phys m x"
    using uint_in_page(2) [OF p(8) off [OF k]] p(6) by auto
  note o = phys_outside [where ph = "(phys m)(f + 4 * of_nat k := ?w)", OF p(1) keep]
  have v: "vmap ?m a = Some f" "vmap ?m b = Some g" "f \<notin> tables ?m" using o(2,3) p(4-6) by simp_all
  have src: "phys ?m (g + 4 * of_nat j) = phys m (g + 4 * of_nat j)" if "j < 1024" for j
    using p(7) cell_eq_iff [OF p(9,8) off [OF that] off [OF k]] by simp
  obtain ph where ph: "copy_words n (a + 4 * of_nat (Suc k)) (b + 4 * of_nat (Suc k)) ?m = Inr (?m\<lparr>phys := ph\<rparr>)"
    "\<forall>x. frame x \<noteq> f \<longrightarrow> ph x = phys ?m x"
    "\<forall>j < 1024. ph (f + 4 * of_nat j) = (if Suc k \<le> j \<and> j < Suc k + n then phys ?m (g + 4 * of_nat j) else phys ?m (f + 4 * of_nat j))"
    using Suc.IH [OF o(1) p(2,3) v p(7-9) sk] by blast
  have "copy_words (Suc n) (a + 4 * of_nat k) (b + 4 * of_nat k) m = Inr (m\<lparr>phys := ph\<rparr>)"
    using ph(1) st by (simp add: algebra_simps flip: bindR_assoc)
  moreover have "ph (f + 4 * of_nat j) = (if k \<le> j \<and> j < k + Suc n then phys m (g + 4 * of_nat j) else phys m (f + 4 * of_nat j))"
    if "j < 1024" for j
    using spec [OF ph(3), of j] that src [OF that] cell_inj [OF p(8) that k] by (auto simp: fun_upd_def)
  moreover have "\<forall>x. frame x \<noteq> f \<longrightarrow> ph x = phys m x" using ph(2) uint_in_page(2) [OF p(8) off [OF k]] by auto
  ultimately show ?case by (intro exI [of _ ph]) auto
qed

section \<open>The page directory of a process\<close>

text \<open>The memory with another page directory, and two directories side by side: both are well formed, they
  share the tables of the kernel, and the user tables of the second are not tables of the first.\<close>

definition in_dir :: "u32 \<Rightarrow> mem \<Rightarrow> mem" where
  "in_dir d m = m\<lparr>cr3 := d\<rparr>"

lemma in_dir_simps [simp]:
  "cr3 (in_dir d m) = d" "phys (in_dir d m) = phys m" "kernel_pool (in_dir d m) = kernel_pool m"
  "user_pool (in_dir d m) = user_pool m" "in_dir e (in_dir d m) = in_dir e m" "in_dir (cr3 m) m = m"
  "in_dir d (m\<lparr>phys := ph\<rparr>) = (in_dir d m)\<lparr>phys := ph\<rparr>" "mem_pool pf (in_dir d m) = mem_pool pf m"
  by (simp_all add: in_dir_def mem_pool_def)

definition spaces :: "u32 \<Rightarrow> u32 \<Rightarrow> mem \<Rightarrow> bool" where
  "spaces p d m \<longleftrightarrow> wf_mem (in_dir p m) \<and> wf_mem (in_dir d m) \<and>
     (\<forall>u. 0xc0000000 \<le> u \<and> u < 0xffc00000 \<longrightarrow> pde (in_dir d m) u = pde (in_dir p m) u) \<and>
     p \<notin> tables (in_dir d m) \<and> d \<notin> tables (in_dir p m) \<and>
     (\<forall>u < 0xc0000000. present (pde (in_dir d m) u) \<longrightarrow> frame (pde (in_dir d m) u) \<notin> tables (in_dir p m))"

lemma spaces_kernel:
  assumes "spaces p d m" and "0xc0000000 \<le> u" and "u < 0xffc00000"
  shows "vmap (in_dir d m) u = vmap (in_dir p m) u"
proof -
  have "pde (in_dir d m) u = pde (in_dir p m) u" using assms by (simp add: spaces_def)
  then show ?thesis using vmap_eq [of "in_dir d m" u] vmap_eq [of "in_dir p m" u] pte_cell_cong [of "in_dir d m" u "in_dir p m"] by simp
qed

text \<open>What makes a directory a good new address space: it stands beside the current one, and translated with it
  nothing is mapped below 3 GiB.\<close>

definition kernel_only :: "u32 \<Rightarrow> mem \<Rightarrow> bool" where
  "kernel_only d m \<longleftrightarrow> spaces (cr3 m) d m \<and> (\<forall>a < 0xc0000000. vmap (in_dir d m) a = None) \<and>
     (\<forall>a. 0xc0000000 \<le> a \<and> a < 0xffc00000 \<longrightarrow> vmap (in_dir d m) a = vmap m a)"

lemma kernel_onlyI:
  assumes wf: "wf_mem m" and d: "data_frame PF_KERNEL m d"
    and low: "\<And>j. j < 768 \<Longrightarrow> phys m (d + 4 * of_nat j) = 0"
    and mid: "\<And>j. 768 \<le> j \<Longrightarrow> j < 1023 \<Longrightarrow> phys m (d + 4 * of_nat j) = phys m (cr3 m + 4 * of_nat j)"
    and top: "phys m (d + 4092) = d OR 7"
  shows "kernel_only d m"
proof -
  let ?m = "in_dir d m"
  have wt: "wf_tables m" using wf by (simp add: wf_mem_def)
  have al: "frame d = d" by (rule data_frame_aligned [OF wf d])
  have nt: "d \<notin> tables m" using d by (simp add: data_frame_def)
  have idx: "\<exists>j < 1024. PDE_IDX a = of_nat j \<and> int j = uint a div 4194304" for a
  proof (intro exI [of _ "unat (PDE_IDX a)"] conjI)
    show "int (unat (PDE_IDX a)) = uint a div 4194304" by (metis uint_nat uint_PDE_IDX)
    then show "unat (PDE_IDX a) < 1024" using PDE_IDX_bounds [of a] by linarith
  qed simp
  have e: "pde ?m a = (if uint a div 4194304 < 768 then 0 else if uint a div 4194304 = 1023 then d OR 7 else pde m a)" for a
  proof -
    obtain j where j: "j < 1024" "PDE_IDX a = of_nat j" "int j = uint a div 4194304" using idx by blast
    then show ?thesis using low [of j] mid [of j] top by (auto simp: pde_def)
  qed
  have rm: "rec_mapped d (phys m)" using al top entry_bits [OF al] by (simp add: rec_mapped_def)
  have win: "window a \<longleftrightarrow> uint a div 4194304 = 1023" for a by (simp add: window_def u32_eq_iff uint_PDE_IDX)
  have src: "present (pde m a) \<and> pde ?m a = pde m a" if "present (pde ?m a)" "\<not> window a" for a
    using that e [of a] not_present_0 by (auto simp: win split: if_splits)
  have fr: "frame (pde ?m a) = d" if "window a" for a using that e [of a] entry_bits [OF al] by (simp add: win)
  have ne: "frame (pde ?m a) \<noteq> d" if "present (pde ?m a)" "\<not> window a" for a
    using src [OF that] nt by (auto simp: tables_def)
  have "wf_tables ?m" unfolding wf_tables_def
  proof (intro conjI allI impI)
    show "rec_mapped (cr3 ?m) (phys ?m)" using rm by simp
    show "frame (pde ?m v) \<noteq> cr3 ?m" if "present (pde ?m v) \<and> \<not> window v" for v using ne that by simp
    show "PDE_IDX u = PDE_IDX v \<or> {PDE_IDX u, PDE_IDX v} = {0, 768}"
      if uv: "present (pde ?m u) \<and> present (pde ?m v) \<and> frame (pde ?m u) = frame (pde ?m v)" for u v
    proof (cases "window u \<or> window v")
      case True
      then have "window u \<and> window v" using fr [of u] fr [of v] ne [of u] ne [of v] uv by metis
      then show ?thesis by (simp add: window_def)
    next
      case False
      then show ?thesis using src [of u] src [of v] uv wt unfolding wf_tables_def by metis
    qed
  qed
  moreover have "tables ?m \<subseteq> insert d (tables m)"
    using fr src unfolding tables_def by (fastforce simp: tables_def)
  moreover have kf: "d \<notin> free_frames (kernel_pool m)" "d \<in> pool_frames (kernel_pool m)"
    using d by (simp_all add: data_frame_def mem_pool_def)
  moreover have "d \<notin> free_frames (user_pool m)"
  proof
    assume "d \<in> free_frames (user_pool m)"
    then have "phy_addr_start (user_pool m) \<le> d"
      using free_frames_sub [of "user_pool m"] pool_frames_ge [of "user_pool m" d] wf by (auto simp: wf_mem_def)
    then show False using kernel_frame_less_user [OF wf kf(2)] by simp
  qed
  ultimately have wf': "wf_mem ?m" using wf unfolding wf_mem_def by auto
  have low': "pde ?m a = 0" if "a < 0xc0000000" for a
  proof -
    have "uint a div 4194304 < 768" using that by (simp add: word_less_def div_less_iff_less_mult)
    then show ?thesis using e [of a] by simp
  qed
  have mid': "pde ?m a = pde m a" if "0xc0000000 \<le> a" "a < 0xffc00000" for a
  proof -
    have "768 \<le> uint a div 4194304" "uint a div 4194304 < 1023"
      using that by (simp_all add: word_less_def word_le_def div_less_iff_less_mult)
    then show ?thesis using e [of a] by simp
  qed
  have "cr3 m \<notin> tables ?m"
  proof
    assume "cr3 m \<in> tables ?m"
    then obtain u where u: "present (pde ?m u)" "cr3 m = frame (pde ?m u)" by (auto simp: tables_def)
    have "cr3 m \<noteq> d" using nt cr3_in_tables [OF wt] by auto
    then have nw: "\<not> window u" using u fr by metis
    then show False using src [OF u(1) nw] u(2) wt unfolding wf_tables_def by metis
  qed
  then have "spaces (cr3 m) d m" using wf wf' low' mid' nt not_present_0 by (auto simp: spaces_def)
  moreover from this have "vmap ?m a = vmap m a" if "0xc0000000 \<le> a" "a < 0xffc00000" for a
    using spaces_kernel that by fastforce
  moreover have "vmap ?m a = None" if "a < 0xc0000000" for a using low' [OF that] vmap_eq [of ?m a] by simp
  ultimately show ?thesis by (simp add: kernel_only_def)
qed

section \<open>Properties\<close>

text \<open>
  C16. A new page directory is an address space of its own: \<^verbatim>\<open>create_page_dir\<close> passes all assertions and returns
  a fresh kernel page whose frame, used as the directory, is well formed with its recursive entry, maps
  nothing below 3 GiB and translates every kernel address as the current directory does; the current
  address space goes on with all owned pages intact.
\<close>
theorem create_page_dir_shares_kernel:
  assumes ok: "pages_ok PF_KERNEL S m" and can: "can_alloc PF_KERNEL 1 m"
  shows "\<exists>v d m'. create_page_dir m = Inr (v, m') \<and> v \<noteq> 0 \<and> v \<notin> S \<and> pages_ok PF_KERNEL (insert v S) m' \<and>
    cr3 m' = cr3 m \<and> addr_v2p v m' = Inr d \<and> kernel_only d m'"
proof -
  obtain v m1 where g: "get_pages PF_KERNEL 1 m = Inr (v, m1)" "v \<noteq> 0" "pages_ok PF_KERNEL (insert v S) m1" "v \<notin> S"
    "cr3 m1 = cr3 m" "\<forall>j < 1024. load m1 (v + 4 * of_nat j) = Inr 0" by (rule get_page_ok [OF ok can])
  have vin: "v \<in> insert v S" by simp
  obtain f where f: "vmap m1 v = Some f" "data_frame PF_KERNEL m1 f" using g(3) by (auto simp: pages_ok_def)
  have wf1: "wf_mem m1" using g(3) by (simp add: pages_ok_def)
  have al: "frame f = f" by (rule data_frame_aligned [OF wf1 f(2)])
  have off: "uint (4 * of_nat j :: u32) < 4096" if "j < 1024" for j using uint_4k [OF that] that by simp
  have zero: "phys m1 (f + 4 * of_nat j) = 0" if "j < 1024" for j
    using spec [OF g(6), of j] that vmap_in_page [OF pages_ok_props(1) [OF g(3) vin] off [OF that] f(1)] by (simp add: load_def)
  have nt: "f \<notin> tables m1" and wt1: "wf_tables m1" using f(2) wf1 by (simp_all add: data_frame_def wf_mem_def)
  have fc: "cr3 m1 \<noteq> f" using nt cr3_in_tables [OF wt1] by auto
  have c3: "frame (cr3 m1) = cr3 m1" by (rule wf_cr3 [OF wt1])
  have top: "vmap m1 0xfffff000 = Some (cr3 m1)" "frame (0xfffff000 :: u32) = 0xfffff000"
    using mmu_pde_ptr [of "cr3 m1" "phys m1" 0] wt1 by (simp_all add: wf_tables_def pde_ptr_def PDE_IDX_def frame_def)
  obtain ph where c: "copy_words 256 (v + 4 * of_nat 768) (0xfffff000 + 4 * of_nat 768) m1 = Inr (m1\<lparr>phys := ph\<rparr>)"
    "\<forall>x. frame x \<noteq> f \<longrightarrow> ph x = phys m1 x"
    "\<forall>j < 1024. ph (f + 4 * of_nat j) = (if 768 \<le> j \<and> j < 768 + 256 then phys m1 (cr3 m1 + 4 * of_nat j) else phys m1 (f + 4 * of_nat j))"
    using copy_range [OF wf1 pages_ok_props(1) [OF g(3) vin] top(2) f(1) top(1) nt fc al c3, of 768 256] by auto
  have "\<forall>x. frame x \<in> tables m1 \<longrightarrow> ph x = phys m1 x" using c(2) nt by auto
  note o = pages_ok_phys [OF g(3) this]
  let ?m2 = "m1\<lparr>phys := ph\<rparr>"
  have f2: "vmap ?m2 v = Some f" using o(2) f(1) by simp
  have wf2: "wf_mem ?m2" using o(1) by (simp add: pages_ok_def)
  note v2p = addr_v2p_vmap [OF wf2 f2]
  let ?m3 = "?m2\<lparr>phys := (phys ?m2)(f + 4 * of_nat 1023 := f OR 7)\<rparr>"
  have st: "store ?m2 (v + 4 * of_nat 1023) (f OR 7) = Inr ?m3" "pages_ok PF_KERNEL (insert v S) ?m3" "vmap ?m3 = vmap ?m2" "tables ?m3 = tables ?m2"
    by (rule store_owned [OF o(1) vin f2]; simp)+
  have r: "create_page_dir m = Inr (v, ?m3)"
    using g(1,2) c(1) v2p st(1) by (simp add: create_page_dir_def get_kernel_pages_def)
  have wf3: "wf_mem ?m3" using st(2) by (simp add: pages_ok_def)
  have d3: "data_frame PF_KERNEL ?m3 f" using f(2) st(4) o(3) by (simp add: data_frame_def mem_pool_def)
  have dir: "phys ?m3 (cr3 m1 + 4 * of_nat j) = phys m1 (cr3 m1 + 4 * of_nat j)" if "j < 1024" for j
    using fc c(2) uint_in_page(2) [OF c3 off [OF that]] cell_eq_iff [OF c3 al off [OF that] off [of 1023]] by simp
  have ent: "phys ?m3 (f + 4 * of_nat j) = ph (f + 4 * of_nat j)" if "j < 1023" for j
    using cell_inj [OF al, of j 1023] that by simp
  have "kernel_only f ?m3"
  proof (rule kernel_onlyI [OF wf3 d3])
    show "phys ?m3 (f + 4 * of_nat j) = 0" if "j < 768" for j using ent [of j] c(3) zero [of j] that by simp
    show "phys ?m3 (f + 4 * of_nat j) = phys ?m3 (cr3 ?m3 + 4 * of_nat j)" if "768 \<le> j" "j < 1023" for j
      using ent [of j] c(3) dir [of j] that by simp
    show "phys ?m3 (f + 4092) = f OR 7" by simp
  qed
  moreover have "addr_v2p v ?m3 = Inr f" using addr_v2p_vmap [OF wf3] st(3) f2 by simp
  ultimately show ?thesis using r g(2,4,5) st(2) by (intro exI [of _ v] exI [of _ f] exI [of _ ?m3]) simp
qed

theorem create_page_dir_shares_kernel_witness:
  "\<exists>v d m'. create_page_dir sample_mem = Inr (v, m') \<and> v \<noteq> 0 \<and> addr_v2p v m' = Inr d \<and> kernel_only d m'"
  using create_page_dir_shares_kernel [OF sample_pages_ok sample_can_alloc] by blast

end
