(* ===== verification/Exec.thy ===== *)
theory Exec
  imports Pipe Process
begin

text \<open>
  Model of \<^verbatim>\<open>userprog/exec.c\<close>: the program headers of an ELF file are read, the pages of the loadable segments are
  mapped where they are missing, and the bytes of the file are stored through the current page
  directory. The name of the program and the argument vector are in the memory of the calling process.
  Memory is accessed by bytes here: a byte is a part of its aligned word, the low byte first.
\<close>

section \<open>Bytes in memory\<close>

definition byte_of :: "u32 \<Rightarrow> nat \<Rightarrow> u8" where
  "byte_of w i = ucast (drop_bit (8 * i) w)"

definition with_byte :: "nat \<Rightarrow> u8 \<Rightarrow> u32 \<Rightarrow> u32" where
  "with_byte i x w = (w AND NOT (push_bit (8 * i) 0xff)) OR push_bit (8 * i) (ucast x)"

definition word_addr :: "u32 \<Rightarrow> u32" where
  "word_addr v = v AND 0xfffffffc"

definition byte_idx :: "u32 \<Rightarrow> nat" where
  "byte_idx v = unat (v AND 3)"

definition load_byte :: "mem \<Rightarrow> u32 \<Rightarrow> u8 result" where
  "load_byte m v = mapR (\<lambda>w. byte_of w (byte_idx v)) (load m (word_addr v))"

definition store_byte :: "u32 \<Rightarrow> u8 \<Rightarrow> mem \<Rightarrow> mem result" where
  "store_byte v x m = bindR (load m (word_addr v)) (\<lambda>w. store m (word_addr v) (with_byte (byte_idx v) x w))"

fun store_bytes :: "u32 \<Rightarrow> u8 list \<Rightarrow> mem \<Rightarrow> mem result" where
  "store_bytes v [] m = Inr m"
| "store_bytes v (x # xs) m = bindR (store_byte v x m) (store_bytes (v + 1) xs)"

fun load_bytes :: "nat \<Rightarrow> u32 \<Rightarrow> mem \<Rightarrow> u8 list result" where
  "load_bytes 0 v m = Inr []"
| "load_bytes (Suc n) v m = bindR (load_byte m v) (\<lambda>c. mapR (Cons c) (load_bytes n (v + 1) m))"

text \<open>A terminated string. A search that comes round the address space does not end.\<close>

function read_string :: "nat \<Rightarrow> u32 \<Rightarrow> mem \<Rightarrow> u8 list result" where
  "read_string n v m =
     (if 2 ^ 32 \<le> n then Inl Diverges
      else bindR (load_byte m (v + of_nat n)) (\<lambda>c. if c = 0 then Inr [0] else mapR (Cons c) (read_string (Suc n) v m)))"
  by pat_completeness auto
termination by (relation "measure (\<lambda>(n, v, m). 2 ^ 32 - n)") auto

declare read_string.simps [simp del]

section \<open>The headers\<close>

record Elf32_Ehdr =
  e_ident :: "u8 list"
  e_type :: u16
  e_machine :: u16
  e_version :: u32
  e_entry :: u32
  e_phoff :: u32
  e_shoff :: u32
  e_flags :: u32
  e_ehsize :: u16
  e_phentsize :: u16
  e_phnum :: u16
  e_shentsize :: u16
  e_shnum :: u16
  e_shstrndx :: u16

record Elf32_Phdr =
  p_type :: u32
  p_offset :: u32
  p_vaddr :: u32
  p_paddr :: u32
  p_filesz :: u32
  p_memsz :: u32
  p_flags :: u32
  p_align :: u32

definition PT_LOAD :: u32 where "PT_LOAD = 1"

definition rd16 :: "u8 list \<Rightarrow> nat \<Rightarrow> u16" where
  "rd16 bs i = ucast (bs ! i) OR push_bit 8 (ucast (bs ! (i + 1)))"

definition dec_ehdr :: "u8 list \<Rightarrow> Elf32_Ehdr" where
  "dec_ehdr bs = \<lparr>e_ident = take 16 bs, e_type = rd16 bs 16, e_machine = rd16 bs 18, e_version = rd32 bs 20, e_entry = rd32 bs 24,
     e_phoff = rd32 bs 28, e_shoff = rd32 bs 32, e_flags = rd32 bs 36, e_ehsize = rd16 bs 40, e_phentsize = rd16 bs 42,
     e_phnum = rd16 bs 44, e_shentsize = rd16 bs 46, e_shnum = rd16 bs 48, e_shstrndx = rd16 bs 50\<rparr>"

definition dec_phdr :: "u8 list \<Rightarrow> Elf32_Phdr" where
  "dec_phdr bs = \<lparr>p_type = rd32 bs 0, p_offset = rd32 bs 4, p_vaddr = rd32 bs 8, p_paddr = rd32 bs 12, p_filesz = rd32 bs 16,
     p_memsz = rd32 bs 20, p_flags = rd32 bs 24, p_align = rd32 bs 28\<rparr>"

text \<open>The comparison of the header with what can be run.\<close>

definition elf_valid :: "Elf32_Ehdr \<Rightarrow> bool result" where
  "elf_valid h =
     mapR (\<lambda>c. \<not> (c \<noteq> 0 \<or> e_type h \<noteq> 2 \<or> e_machine h \<noteq> 3 \<or> e_version h \<noteq> 1 \<or> e_phnum h > 1024 \<or> e_phentsize h \<noteq> 32))
       (memcmp (Some (e_ident h)) (Some [0x7f, 0x45, 0x4c, 0x46, 1, 1, 1, 0]) 7)"

section \<open>Loading\<close>

text \<open>The pages of a segment; the entry of the page table is read only when the table is there.\<close>

fun seg_pages :: "nat \<Rightarrow> u32 \<Rightarrow> mem \<Rightarrow> (bool \<times> mem) result" where
  "seg_pages 0 vaddr_page m = Inr (True, m)"
| "seg_pages (Suc n) vaddr_page m =
     bindR (load m (pde_ptr vaddr_page)) (\<lambda>pde.
     bindR (if pde AND 1 = 0 then Inr True else mapR (\<lambda>pte. pte AND 1 = 0) (load m (pte_ptr vaddr_page))) (\<lambda>missing.
     bindR (if missing then mapR (\<lambda>(a, m). (a \<noteq> 0, m)) (get_a_page PF_USER vaddr_page m) else Inr (True, m)) (\<lambda>(ok, m).
     if \<not> ok then Inr (False, m) else seg_pages n (vaddr_page + 4096) m)))"

definition occupy_pages :: "u32 \<Rightarrow> u32 \<Rightarrow> u32" where
  "occupy_pages filesz vaddr =
     (let size_in_first_page = 4096 - (vaddr AND 0xfff)
      in if filesz > size_in_first_page then (filesz - size_in_first_page + 4096 - 1) div 4096 + 1 else 1)"

text \<open>The results of \<^verbatim>\<open>sys_lseek\<close> and \<^verbatim>\<open>sys_read\<close> are not looked at. A descriptor from \<^verbatim>\<open>sys_open\<close> is a file, so the read
  does not block.\<close>

definition segment_load :: "int \<Rightarrow> u32 \<Rightarrow> u32 \<Rightarrow> u32 \<Rightarrow> kio \<Rightarrow> (bool \<times> kio) result" where
  "segment_load fd offset filesz vaddr k =
     bindR (seg_pages (unat (occupy_pages filesz vaddr)) (vaddr AND 0xfffff000) (tmem (kth k))) (\<lambda>(ok, m).
     let k = k\<lparr>kth := (kth k)\<lparr>tmem := m\<rparr>\<rparr>
     in if \<not> ok then Inr (False, k)
        else bindR (sys_lseek fd offset 1 (kfs k)) (\<lambda>(_, fs).
             bindR (sys_read fd filesz (k\<lparr>kfs := fs\<rparr>)) (\<lambda>(_, bs, k).
             mapR (\<lambda>m. (True, k\<lparr>kth := (kth k)\<lparr>tmem := m\<rparr>\<rparr>)) (store_bytes vaddr bs (tmem (kth k))))))"

fun load_phdrs :: "int \<Rightarrow> u16 \<Rightarrow> nat \<Rightarrow> u32 \<Rightarrow> kio \<Rightarrow> (bool \<times> kio) result" where
  "load_phdrs fd prog_header_size 0 prog_header_offset k = Inr (True, k)"
| "load_phdrs fd prog_header_size (Suc n) prog_header_offset k =
     bindR (sys_lseek fd prog_header_offset 1 (kfs k)) (\<lambda>(_, fs).
     bindR (sys_read fd (ucast prog_header_size) (k\<lparr>kfs := fs\<rparr>)) (\<lambda>(r, bs, k).
     if r \<noteq> Some (int (unat prog_header_size)) then Inr (False, k)
     else let h = dec_phdr bs
          in bindR (if p_type h = PT_LOAD then segment_load fd (p_offset h) (p_filesz h) (p_vaddr h) k else Inr (True, k)) (\<lambda>(ok, k).
             if \<not> ok then Inr (False, k)
             else load_phdrs fd prog_header_size n (prog_header_offset + ucast prog_header_size) k)))"

text \<open>\<^verbatim>\<open>load\<close>: the entry point, or -1; the file is closed on every path behind its opening.\<close>

definition elf_load :: "(nat \<Rightarrow> u8 list) \<Rightarrow> u8 list \<Rightarrow> kio \<Rightarrow> (int \<times> kio) result" where
  "elf_load g pathname k =
     bindR (sys_open g pathname 0 (kfs k)) (\<lambda>(fd, fs).
     let k = k\<lparr>kfs := fs\<rparr>
     in if fd = -1 then Inr (-1, k)
        else bindR (sys_read fd 52 k) (\<lambda>(r, bs, k).
             bindR (if r \<noteq> Some 52 then Inr (-1, k)
                    else let h = dec_ehdr bs
                         in bindR (elf_valid h) (\<lambda>ok.
                            if \<not> ok then Inr (-1, k)
                            else mapR (\<lambda>(ok, k). (if ok then sint (e_entry h) else -1, k))
                                   (load_phdrs fd (e_phentsize h) (unat (e_phnum h)) (e_phoff h) k))) (\<lambda>(ret, k).
             mapR (\<lambda>(_, k). (ret, k)) (sys_close fd k))))"

section \<open>Exec\<close>

text \<open>The argument vector is word aligned. A count that comes round the address space does not end.\<close>

function count_args :: "nat \<Rightarrow> u32 \<Rightarrow> mem \<Rightarrow> nat result" where
  "count_args argc argv m =
     (if 2 ^ 30 \<le> argc then Inl Diverges
      else bindR (load m (argv + 4 * of_nat argc)) (\<lambda>p. if p = 0 then Inr argc else count_args (Suc argc) argv m))"
  by pat_completeness auto
termination by (relation "measure (\<lambda>(n, v, m). 2 ^ 30 - n)") auto

declare count_args.simps [simp del]

text \<open>The result is \<open>Some (-1)\<close> when the program is not loaded. Otherwise the call does not return: the process goes on
  from the changed frame.\<close>

definition sys_execv :: "(nat \<Rightarrow> u8 list) \<Rightarrow> u32 \<Rightarrow> u32 \<Rightarrow> intr_stack \<Rightarrow> kio \<Rightarrow> (int option \<times> intr_stack \<times> kio) result" where
  "sys_execv g path argv frm k =
     bindR (count_args 0 argv (tmem (kth k))) (\<lambda>argc.
     bindR (read_string 0 path (tmem (kth k))) (\<lambda>pathname.
     bindR (elf_load g pathname k) (\<lambda>(entry_point, k).
     if entry_point = -1 then Inr (Some (-1), frm, k)
     else mapR (\<lambda>name. (None,
            frm\<lparr>is_ebx := argv, is_ecx := of_nat argc, is_eip := of_int entry_point, is_esp := 0xc0000000\<rparr>,
            k\<lparr>kth := upd_task (running_thread (kth k)) (\<lambda>t. t\<lparr>tname := name[15 := 0]\<rparr>) (kth k)\<rparr>))
          (load_bytes 16 path (tmem (kth k))))))"

end
