(* ===== verification/Fork.thy ===== *)
theory Fork
  imports Pipe Process
begin

text \<open>
  Model of \<^verbatim>\<open>userprog/fork.c\<close>. The PCB of the child is a copy of the parent's record with the fields that the
  code changes; what of the parent is current (the descriptors, the directory and the pool of virtual
  addresses) is taken from the running state. The interrupt frame and the words below it at the top of
  the PCB page are values that are passed along. The user pages are copied through a kernel page, switching the page
  directory back and forth, on the level of single words of memory.
\<close>

section \<open>The PCB and the bitmap\<close>

definition fork_pid :: "bitmap \<Rightarrow> (int \<times> bitmap) result" where
  "fork_pid = allocate_pid"

text \<open>What the page of the child's PCB holds besides the record: the block descriptors of the user heap, the
  address of its bitmap, the frame of the interrupt and the words that \<^verbatim>\<open>switch_to\<close> pops.\<close>

record thread_stack =
  ts_ebp :: u32
  ts_ebx :: u32
  ts_edi :: u32
  ts_esi :: u32
  ts_eip :: u32

record child_page =
  child_pcb :: task_struct
  child_descs :: "mem_block_desc list"
  child_bits :: u32
  child_frame :: intr_stack
  child_stack :: thread_stack

text \<open>The pid stays taken when there is no memory for the bitmap. The result is the child's PCB with its descriptors
  and the address of its bitmap, or \<open>None\<close> for \<^verbatim>\<open>-1\<close>.\<close>

definition copy_pcb_vaddrbitmap_stack0 ::
    "task_struct \<Rightarrow> kthreads \<Rightarrow> ((task_struct \<times> mem_block_desc list \<times> u32) option \<times> kthreads) result" where
  "copy_pcb_vaddrbitmap_stack0 parent_thread s =
     bindR (fork_pid (pid_bitmap s)) (\<lambda>(p, b).
     let s = s\<lparr>pid_bitmap := b\<rparr>;
         child = parent_thread\<lparr>pid := p, elapsed_ticks := 0, status := TASK_READY, ticks := priority parent_thread,
                               parent_pid := pid parent_thread\<rparr>;
         bitmap_pg_cnt = (user_bitmap_bytes + 4096 - 1) div 4096
     in bindR (get_kernel_pages bitmap_pg_cnt (tmem s)) (\<lambda>(vaddr_btmp, m).
        let s = s\<lparr>tmem := m\<rparr>
        in if vaddr_btmp = 0 then Inr (None, s)
           else
             bindR (strlen (Some (tname child))) (\<lambda>n.
             ASSERT (n < 11) ''strlen(child_thread->name) < 11''
               (mapR (\<lambda>nm. (Some (child\<lparr>tname := nm\<rparr>, block_desc_init, vaddr_btmp), s))
                 (strcat (Some (tname child)) (Some (map (of_nat \<circ> of_char) ''_fork'' @ [0])))))))"

section \<open>The user pages\<close>

definition memcpy_page :: "u32 \<Rightarrow> u32 \<Rightarrow> mem \<Rightarrow> mem result" where
  "memcpy_page dst src m = ASSERT (dst \<noteq> 0 \<and> src \<noteq> 0) ''dst_ != NULL && src_ != NULL'' (copy_words 1024 dst src m)"

text \<open>One page; a page that could not be allocated is not noticed.\<close>

definition copy_user_page :: "task_struct \<Rightarrow> task_struct \<Rightarrow> u32 \<Rightarrow> u32 \<Rightarrow> mem \<Rightarrow> mem result" where
  "copy_user_page child_thread parent_thread buf_page prog_vaddr m =
     bindR (memcpy_page buf_page prog_vaddr m) (\<lambda>m.
     bindR (page_dir_activate child_thread m) (\<lambda>m.
     bindR (get_a_page_without_opvaddrbitmap PF_USER prog_vaddr m) (\<lambda>(_, m).
     bindR (memcpy_page prog_vaddr buf_page m) (\<lambda>m.
     page_dir_activate parent_thread m))))"

fun copy_bits :: "task_struct \<Rightarrow> task_struct \<Rightarrow> u32 \<Rightarrow> u8 \<Rightarrow> nat \<Rightarrow> nat \<Rightarrow> nat \<Rightarrow> mem \<Rightarrow> mem result" where
  "copy_bits child parent buf byte idx_byte idx_bit 0 m = Inr m"
| "copy_bits child parent buf byte idx_byte idx_bit (Suc n) m =
     bindR (if push_bit idx_bit 1 AND byte \<noteq> 0
            then copy_user_page child parent buf
                   (of_nat (idx_byte * 8 + idx_bit) * 4096 + vaddr_start (tuserprog_vaddr parent)) m
            else Inr m)
       (copy_bits child parent buf byte idx_byte (Suc idx_bit) n)"

fun copy_bytes :: "task_struct \<Rightarrow> task_struct \<Rightarrow> u32 \<Rightarrow> nat \<Rightarrow> u8 list \<Rightarrow> mem \<Rightarrow> mem result" where
  "copy_bytes child parent buf idx_byte [] m = Inr m"
| "copy_bytes child parent buf idx_byte (byte # bs) m =
     bindR (if byte \<noteq> 0 then copy_bits child parent buf byte idx_byte 0 8 m else Inr m)
       (copy_bytes child parent buf (Suc idx_byte) bs)"

definition copy_body_stack3 :: "task_struct \<Rightarrow> task_struct \<Rightarrow> u32 \<Rightarrow> mem \<Rightarrow> mem result" where
  "copy_body_stack3 child_thread parent_thread buf_page m =
     (let b = vaddr_bitmap (tuserprog_vaddr parent_thread)
      in if length (bits b) < btmp_bytes_len b then Inl OutOfBounds
         else copy_bytes child_thread parent_thread buf_page 0 (take (btmp_bytes_len b) (bits b)) m)"

section \<open>The stack and the open files\<close>

definition build_child_stack ::
    "u32 \<Rightarrow> u32 \<Rightarrow> intr_stack \<Rightarrow> task_struct \<Rightarrow> intr_stack \<times> thread_stack \<times> task_struct" where
  "build_child_stack intr_exit child_addr intr_0_stack child_thread =
     (intr_0_stack\<lparr>is_eax := 0\<rparr>,
      \<lparr>ts_ebp = 0, ts_ebx = 0, ts_edi = 0, ts_esi = 0, ts_eip = intr_exit\<rparr>,
      child_thread\<lparr>self_kstack := child_addr + 4096 - 76 - 4 * 5\<rparr>)"

fun update_inode_open_cnts :: "nat \<Rightarrow> int list \<Rightarrow> kio \<Rightarrow> kio result" where
  "update_inode_open_cnts local_fd [] k = Inr k"
| "update_inode_open_cnts local_fd (global_fd # gs) k =
     ASSERT (global_fd < 32) ''global_fd < MAX_FILE_OPEN''
     (bindR
       (if global_fd \<noteq> -1 then
          bindR (is_pipe (int local_fd) k) (\<lambda>p.
          if p then Inr (upd_slot (nat global_fd) (\<lambda>f. f\<lparr>fd_pos := fd_pos f + 1\<rparr>) k)
          else case fd_inode (file_table (kfs k) ! nat global_fd) of
                 NoInode \<Rightarrow> Inl NullDeref
               | PipeAt a \<Rightarrow> Inl PageFault
               | InodeAt r \<Rightarrow>
                   bindR (the_inode r (kfs k)) (\<lambda>_.
                   Inr (k\<lparr>kfs := upd_inode r (\<lambda>i. i\<lparr>i_open_cnts := i_open_cnts i + 1\<rparr>) (kfs k)\<rparr>)))
        else Inr k)
       (update_inode_open_cnts (Suc local_fd) gs))"

section \<open>Fork\<close>

text \<open>The page of the child, or \<open>None\<close> for \<^verbatim>\<open>-1\<close>; a failure leaves the pages allocated so far. The address of the
  assembly label \<^verbatim>\<open>intr_exit\<close> is an argument.\<close>

definition copy_process ::
    "u32 \<Rightarrow> u32 \<Rightarrow> intr_stack \<Rightarrow> task_struct \<Rightarrow> kio \<Rightarrow> (child_page option \<times> kio) result" where
  "copy_process intr_exit child_addr frm parent_thread k =
     (let s = kth k in
      bindR (get_kernel_pages 1 (tmem s)) (\<lambda>(buf_page, m).
      let s = s\<lparr>tmem := m\<rparr>
      in if buf_page = 0 then Inr (None, k\<lparr>kth := s\<rparr>)
         else
           bindR (copy_pcb_vaddrbitmap_stack0 parent_thread s) (\<lambda>(child, s).
           case child of
             None \<Rightarrow> Inr (None, k\<lparr>kth := s\<rparr>)
           | Some (child_thread, descs, bits_addr) \<Rightarrow>
               bindR (create_page_dir (tmem s)) (\<lambda>(pd, m).
               let child_thread = child_thread\<lparr>tpgdir := pd\<rparr>; s = s\<lparr>tmem := m\<rparr>
               in if pd = 0 then Inr (None, k\<lparr>kth := s\<rparr>)
                  else
                    bindR (copy_body_stack3 child_thread parent_thread buf_page (tmem s)) (\<lambda>m.
                    let (frm, stack, child_thread) = build_child_stack intr_exit child_addr frm child_thread
                    in bindR (update_inode_open_cnts 3 (take 5 (drop 3 (fd_table child_thread))) (k\<lparr>kth := s\<lparr>tmem := m\<rparr>\<rparr>)) (\<lambda>k.
                       mapR (\<lambda>m. (Some \<lparr>child_pcb = child_thread, child_descs = descs, child_bits = bits_addr,
                                        child_frame = frm, child_stack = stack\<rparr>, k\<lparr>kth := (kth k)\<lparr>tmem := m\<rparr>\<rparr>))
                         (mfree_page PF_KERNEL buf_page 1 (tmem (kth k)))))))))"

text \<open>The parent's PCB with what is current of it.\<close>

definition current_pcb :: "kio \<Rightarrow> task_struct result" where
  "current_pcb k =
     mapR (\<lambda>t. t\<lparr>fd_table := cur_fds (kfs k), cwd_inode_nr := cur_cwd (kfs k), tuserprog_vaddr := userprog_vaddr (tmem (kth k))\<rparr>)
       (task (running_thread (kth k)) (kth k))"

definition sys_fork :: "u32 \<Rightarrow> intr_stack \<Rightarrow> kio \<Rightarrow> (int \<times> child_page option \<times> kio) result" where
  "sys_fork intr_exit frm k =
     bindR (current_pcb k) (\<lambda>parent_thread.
     bindR (get_kernel_pages 1 (tmem (kth k))) (\<lambda>(c, m).
     let k = k\<lparr>kth := (kth k)\<lparr>tmem := m\<rparr>\<rparr>
     in if c = 0 then Inr (-1, None, k)
        else
          ASSERT (tpgdir parent_thread \<noteq> 0) ''INTR_OFF == intr_get_status() && parent_thread->pgdir != NULL''
          (bindR (copy_process intr_exit c frm parent_thread k) (\<lambda>(child, k).
           case child of
             None \<Rightarrow> Inr (-1, None, k)
           | Some page \<Rightarrow>
               let s = (kth k)\<lparr>tasks := (tasks (kth k))(c \<mapsto> child_pcb page), ctls := (ctls (kth k))(c := Run)\<rparr>
               in ASSERT (c \<notin> set (thread_ready_list s)) ''!elem_find(&thread_ready_list, &child_thread->general_tag)''
                  (ASSERT (c \<notin> set (thread_all_list s)) ''!elem_find(&thread_all_list, &child_thread->all_list_tag)''
                   (Inr (pid (child_pcb page), Some page,
                     k\<lparr>kth := s\<lparr>thread_ready_list := thread_ready_list s @ [c], thread_all_list := thread_all_list s @ [c]\<rparr>\<rparr>)))))))"

end
