(* ===== verification/Fork_Props.thy ===== *)
theory Fork_Props
  imports Fork
begin

text \<open>
  \<^verbatim>\<open>copy_body_stack3\<close> gives the child a copy of the parent's memory: page by page through the kernel buffer
  with the page directory switched back and forth, it fills fresh frames of the child with what the
  parent has, and the parent keeps its own.
\<close>

section \<open>Writing beside two directories\<close>

lemma spaces_phys:
  assumes s: "spaces p d m" and keep: "\<forall>x. frame x \<in> tables (in_dir p m) \<union> tables (in_dir d m) \<longrightarrow> ph x = phys m x"
  shows "spaces p d (m\<lparr>phys := ph\<rparr>)"
    and "vmap (in_dir p (m\<lparr>phys := ph\<rparr>)) = vmap (in_dir p m)" and "vmap (in_dir d (m\<lparr>phys := ph\<rparr>)) = vmap (in_dir d m)"
    and "tables (in_dir p (m\<lparr>phys := ph\<rparr>)) = tables (in_dir p m)" and "tables (in_dir d (m\<lparr>phys := ph\<rparr>)) = tables (in_dir d m)"
proof -
  have wf: "wf_mem (in_dir p m)" "wf_mem (in_dir d m)" using s by (simp_all add: spaces_def)
  have k: "\<forall>x. frame x \<in> tables (in_dir p m) \<longrightarrow> ph x = phys (in_dir p m) x"
    "\<forall>x. frame x \<in> tables (in_dir d m) \<longrightarrow> ph x = phys (in_dir d m) x" using keep by auto
  note a = phys_outside [OF wf(1) k(1)] and b = phys_outside [OF wf(2) k(2)]
  show "vmap (in_dir p (m\<lparr>phys := ph\<rparr>)) = vmap (in_dir p m)" "vmap (in_dir d (m\<lparr>phys := ph\<rparr>)) = vmap (in_dir d m)"
    "tables (in_dir p (m\<lparr>phys := ph\<rparr>)) = tables (in_dir p m)" "tables (in_dir d (m\<lparr>phys := ph\<rparr>)) = tables (in_dir d m)"
    using a(2,3) b(2,3) by simp_all
  show "spaces p d (m\<lparr>phys := ph\<rparr>)" using s a b by (simp add: spaces_def)
qed

text \<open>A frame that belongs to nobody's tables and is not free.\<close>

definition own_frame :: "u32 \<Rightarrow> u32 \<Rightarrow> mem \<Rightarrow> u32 \<Rightarrow> bool" where
  "own_frame p d m f \<longleftrightarrow> frame f = f \<and> f \<notin> tables (in_dir p m) \<and> f \<notin> tables (in_dir d m) \<and>
     f \<notin> free_frames (kernel_pool m) \<and> f \<notin> free_frames (user_pool m)"

section \<open>A page at a given address\<close>

lemma set_lock_facts:
  fixes m :: mem and k :: nat
  defines "m' \<equiv> upd_pool PF_USER ((mem_pool PF_USER m)\<lparr>pool_lock := k\<rparr>) m"
  shows "cr3 m' = cr3 m" and "phys m' = phys m" and "pde m' = pde m" and "tables m' = tables m" and "wf_mem m' = wf_mem m"
    and "free_frames (kernel_pool m') = free_frames (kernel_pool m)" and "free_frames (user_pool m') = free_frames (user_pool m)"
    and "enough pf n m' = enough pf n m"
proof -
  show c: "cr3 m' = cr3 m" "phys m' = phys m" by (simp_all add: m'_def)
  show "pde m' = pde m" by (simp add: fun_eq_iff pde_def c)
  then show "tables m' = tables m" by (simp add: tables_def)
  show f: "free_frames (kernel_pool m') = free_frames (kernel_pool m)" "free_frames (user_pool m') = free_frames (user_pool m)"
    by (simp_all add: m'_def upd_pool_def mem_pool_def)
  show "wf_mem m' = wf_mem m" by (simp add: m'_def wf_mem_def mem_lens wf_tables_def tables_def pde_def)
  show "enough pf n m' = enough pf n m" by (simp add: enough_def f)
qed

lemma get_page_at:
  assumes wf: "wf_mem m" and v: "ordinary v" "frame v = v" "vmap m v = None" and en: "enough PF_USER (Suc n) m"
  obtains f m2 where "get_a_page_without_opvaddrbitmap PF_USER v m = Inr (v, m2)" and "wf_mem m2" and "cr3 m2 = cr3 m"
    and "f \<in> free_frames (user_pool m)" and "f \<notin> tables m2"
    and "\<forall>u. ordinary u \<longrightarrow> vmap m2 u = (if frame u = v then Some (f + (u AND 0xfff)) else vmap m u)"
    and "free_frames (kernel_pool m2) = free_frames (kernel_pool m) - {f} - tables m2"
    and "free_frames (user_pool m2) = free_frames (user_pool m) - {f} - tables m2"
    and "tables m2 \<subseteq> tables m \<union> free_frames (kernel_pool m)" and "enough PF_USER n m2"
    and "\<forall>a. frame a \<notin> tables m2 \<longrightarrow> phys m2 a = phys m a"
    and "\<forall>u. PDE_IDX u \<noteq> PDE_IDX v \<longrightarrow> pde m2 u = pde m u"
    and "\<forall>a. frame a \<noteq> cr3 m \<and> frame a \<noteq> frame (pde m2 v) \<longrightarrow> phys m2 a = phys m a"
    and "frame (pde m2 v) \<in> free_frames (kernel_pool m) \<or> present (pde m v) \<and> pde m2 v = pde m v"
    and "pgdir m2 = pgdir m" and "userprog_vaddr m2 = userprog_vaddr m"
proof -
  let ?m = "pool_acquire PF_USER m"
  have wf1: "wf_mem ?m" and v1: "vmap ?m v = None" and en1: "enough PF_USER (Suc n) ?m"
    using wf v(3) en by (simp_all add: pool_acquire_facts)
  obtain f p m1 where r: "palloc (mem_pool PF_USER ?m) = Inr (f, p)" "f \<noteq> 0"
    "page_table_add v f (upd_pool PF_USER p ?m) = Inr m1"
    "wf_mem m1" "same_ctl ?m m1" "f \<in> free_frames (mem_pool PF_USER ?m)" "f \<notin> tables m1"
    "\<forall>u. ordinary u \<longrightarrow> vmap m1 u = (if frame u = v then Some (f + (u AND 0xfff)) else vmap ?m u)"
    "\<forall>qf. free_frames (mem_pool qf m1) = free_frames (mem_pool qf ?m) - {f} - tables m1"
    "tables ?m \<subseteq> tables m1 \<and> tables m1 \<subseteq> tables ?m \<union> free_frames (kernel_pool ?m)" "enough PF_USER n m1"
    "\<forall>a. frame a \<notin> tables m1 \<longrightarrow> phys m1 a = phys ?m a"
    "\<forall>u. PDE_IDX u \<noteq> PDE_IDX v \<longrightarrow> pde m1 u = pde ?m u"
    "\<forall>a. frame a \<noteq> cr3 ?m \<and> frame a \<noteq> frame (pde m1 v) \<longrightarrow> phys m1 a = phys ?m a"
    "frame (pde m1 v) \<in> free_frames (kernel_pool ?m) \<or> present (pde ?m v) \<and> pde m1 v = pde ?m v"
    by (rule map_one [OF wf1 v(1,2) v1 en1])
  let ?q = "mem_pool PF_USER m1" let ?m2 = "upd_pool PF_USER (?q\<lparr>pool_lock := pool_lock ?q - 1\<rparr>) m1"
  note k = set_lock_facts [where m = m1 and k = "pool_lock ?q - 1"]
  have pa: "free_frames (kernel_pool ?m) = free_frames (kernel_pool m)" "free_frames (user_pool ?m) = free_frames (user_pool m)"
    using pool_acquire_facts(5) [of PF_KERNEL PF_USER m] pool_acquire_facts(5) [of PF_USER PF_USER m] by (simp_all add: mem_pool_def)
  have ph: "phys ?m = phys m" "cr3 ?m = cr3 m" "pde ?m = pde m" by (simp_all add: pool_acquire_def fun_eq_iff pde_def)
  have "pool_lock ?q = Suc (pool_lock (mem_pool PF_USER m))"
    using r(5) pool_acquire_facts(8) [of PF_USER m] by (simp add: same_ctl_def pool_same_def mem_pool_def)
  then have "get_a_page_without_opvaddrbitmap PF_USER v m = Inr (v, ?m2)"
    using r(1-3) by (simp add: get_a_page_without_opvaddrbitmap_def pool_release_def)
  then show ?thesis
  proof (rule that)
    show "wf_mem ?m2" "cr3 ?m2 = cr3 m" using r(4,5) k(1,5) ph by (simp_all add: same_ctl_def)
    show "f \<in> free_frames (user_pool m)" using r(6) pa by (simp add: mem_pool_def)
    show "\<forall>u. ordinary u \<longrightarrow> vmap ?m2 u = (if frame u = v then Some (f + (u AND 0xfff)) else vmap m u)"
      using r(8) unfolding k(1,2) pool_acquire_facts(1) .
    show "free_frames (kernel_pool ?m2) = free_frames (kernel_pool m) - {f} - tables ?m2"
      "free_frames (user_pool ?m2) = free_frames (user_pool m) - {f} - tables ?m2"
      using spec [OF r(9), of PF_KERNEL] spec [OF r(9), of PF_USER] unfolding k(4,6,7) by (simp_all add: mem_pool_def pa)
    show "tables ?m2 \<subseteq> tables m \<union> free_frames (kernel_pool m)" using r(10) unfolding k(4) by (simp add: pool_acquire_facts pa)
    show "f \<notin> tables ?m2" "enough PF_USER n ?m2" "\<forall>a. frame a \<notin> tables ?m2 \<longrightarrow> phys ?m2 a = phys m a"
      "\<forall>u. PDE_IDX u \<noteq> PDE_IDX v \<longrightarrow> pde ?m2 u = pde m u"
      "\<forall>a. frame a \<noteq> cr3 m \<and> frame a \<noteq> frame (pde ?m2 v) \<longrightarrow> phys ?m2 a = phys m a"
      "frame (pde ?m2 v) \<in> free_frames (kernel_pool m) \<or> present (pde m v) \<and> pde ?m2 v = pde m v"
      unfolding k using r(7,11-15) by (simp_all add: ph pa)
    show "pgdir ?m2 = pgdir m" "userprog_vaddr ?m2 = userprog_vaddr m"
      using r(5) by (simp_all add: same_ctl_def upd_pool_def pool_acquire_def)
  qed
qed

text \<open>A page mapped in the second directory leaves the translation of the first one alone.\<close>

lemma spaces_get_page:
  assumes s: "spaces p d m" and v: "ordinary v" "frame v = v" "v < 0xc0000000" and un: "vmap (in_dir d m) v = None"
    and en: "enough PF_USER (Suc n) m"
  obtains f m2 where "get_a_page_without_opvaddrbitmap PF_USER v (in_dir d m) = Inr (v, m2)" and "cr3 m2 = d"
    and "spaces p d m2" and "own_frame p d m2 f" and "f \<in> free_frames (user_pool m)" and "enough PF_USER n m2"
    and "vmap (in_dir p m2) = vmap (in_dir p m)"
    and "\<forall>u. ordinary u \<longrightarrow> vmap (in_dir d m2) u = (if frame u = v then Some (f + (u AND 0xfff)) else vmap (in_dir d m) u)"
    and "\<forall>g. own_frame p d m g \<longrightarrow> own_frame p d m2 g" and "\<forall>x. own_frame p d m (frame x) \<longrightarrow> phys m2 x = phys m x"
proof -
  let ?c = "in_dir d m" let ?p = "in_dir p m"
  have wf: "wf_mem ?p" "wf_mem ?c" and kern: "\<forall>u. 0xc0000000 \<le> u \<and> u < 0xffc00000 \<longrightarrow> pde ?c u = pde ?p u"
    and pc: "p \<notin> tables ?c" "d \<notin> tables ?p"
    and ut: "\<And>u. u < 0xc0000000 \<Longrightarrow> present (pde ?c u) \<Longrightarrow> frame (pde ?c u) \<notin> tables ?p" using s by (simp_all add: spaces_def)
  have en': "enough PF_USER (Suc n) ?c" using en by (simp add: enough_def)
  obtain f m2 where r: "get_a_page_without_opvaddrbitmap PF_USER v ?c = Inr (v, m2)" "wf_mem m2" "cr3 m2 = cr3 ?c"
    "f \<in> free_frames (user_pool ?c)" "f \<notin> tables m2"
    "\<forall>u. ordinary u \<longrightarrow> vmap m2 u = (if frame u = v then Some (f + (u AND 0xfff)) else vmap ?c u)"
    "free_frames (kernel_pool m2) = free_frames (kernel_pool ?c) - {f} - tables m2"
    "free_frames (user_pool m2) = free_frames (user_pool ?c) - {f} - tables m2"
    "tables m2 \<subseteq> tables ?c \<union> free_frames (kernel_pool ?c)" "enough PF_USER n m2"
    "\<forall>a. frame a \<notin> tables m2 \<longrightarrow> phys m2 a = phys ?c a" "\<forall>u. PDE_IDX u \<noteq> PDE_IDX v \<longrightarrow> pde m2 u = pde ?c u"
    "\<forall>a. frame a \<noteq> cr3 ?c \<and> frame a \<noteq> frame (pde m2 v) \<longrightarrow> phys m2 a = phys ?c a"
    "frame (pde m2 v) \<in> free_frames (kernel_pool ?c) \<or> present (pde ?c v) \<and> pde m2 v = pde ?c v"
    "pgdir m2 = pgdir ?c" "userprog_vaddr m2 = userprog_vaddr ?c"
    by (rule get_page_at [OF wf(2) v(1,2) un en'])
  have m2: "in_dir d m2 = m2" using r(3) in_dir_simps(6) [of m2] by simp
  let ?q = "in_dir p m2"
  have free: "tables ?p \<inter> free_frames (kernel_pool m) = {}" "tables ?p \<inter> free_frames (user_pool m) = {}"
    using wf(1) by (simp_all add: wf_mem_def)
  have T: "frame (pde m2 v) \<notin> tables ?p" using r(14) ut [OF v(3)] free(1) by auto
  have same: "\<forall>a. frame a \<in> tables ?p \<longrightarrow> phys m2 a = phys ?p a" using r(13) T pc(2) by auto
  note o = phys_outside [OF wf(1) same]
  have q: "pde ?q u = pde ?p u" "vmap ?q = vmap ?p" "tables ?q = tables ?p" for u
    using o(2,3,4) by (simp_all add: pde_def tables_def)
  have "wf_tables ?q" using wf_tables_cong [of ?p ?q] wf(1) q(1) by (simp add: wf_mem_def)
  then have wq: "wf_mem ?q" using r(2,7,8) free unfolding wf_mem_def q(3) by auto
  have pp: "p \<in> tables ?p" using cr3_in_tables [of ?p] wf(1) by (simp add: wf_mem_def)
  have idx: "PDE_IDX u \<noteq> PDE_IDX v" if "0xc0000000 \<le> u" for u
  proof -
    have "uint u div 4194304 \<ge> 768" "uint v div 4194304 < 768"
      using that v(3) by (simp_all add: word_less_def word_le_def div_less_iff_less_mult)
    then show ?thesis by (auto simp: u32_eq_iff uint_PDE_IDX)
  qed
  have "spaces p d m2" unfolding spaces_def m2
  proof (intro conjI allI impI)
    show "pde m2 u = pde ?q u" if "0xc0000000 \<le> u \<and> u < 0xffc00000" for u using that kern r(12) idx q(1) by simp
    show "p \<notin> tables m2" using r(9) pc(1) pp free(1) by auto
    show "frame (pde m2 u) \<notin> tables ?q" if "u < 0xc0000000" "present (pde m2 u)" for u
    proof (cases "PDE_IDX u = PDE_IDX v")
      case True
      then show ?thesis using T q(3) by (simp add: pde_def)
    next
      case False
      then show ?thesis using that ut r(12) q(3) by simp
    qed
  qed (use wq r(2) q(3) pc(2) in simp_all)
  moreover have "own_frame p d m2 f"
    using r(4,5,7,8) free(2) q(3) free_frames_props [of "user_pool m" f] wf(1) by (auto simp: own_frame_def m2 wf_mem_def)
  moreover have own: "own_frame p d m2 g" if "own_frame p d m g" for g
    using that r(7-9) q(3) by (auto simp: own_frame_def m2)
  moreover have "phys m2 x = phys m x" if "own_frame p d m (frame x)" for x
    using own [OF that] r(11) by (simp add: own_frame_def m2)
  ultimately show ?thesis using that [of m2 f] r(1,3,4,6,10) q(2) by (simp add: m2)
qed

section \<open>Copying one page\<close>

text \<open>The state of the copy: the parent's pages \<open>A\<close> have the frames \<open>fr\<close> and the contents \<open>w\<close>; those in \<open>D\<close> are
  done and have frames \<open>g\<close> of their own in the child.\<close>

definition copying ::
    "u32 \<Rightarrow> u32 \<Rightarrow> (u32 \<Rightarrow> u32) \<Rightarrow> (u32 \<Rightarrow> nat \<Rightarrow> u32) \<Rightarrow> u32 set \<Rightarrow> u32 \<Rightarrow> u32 set \<Rightarrow> (u32 \<Rightarrow> u32) \<Rightarrow> mem \<Rightarrow> bool" where
  "copying p d fr w A B D g m \<longleftrightarrow> spaces p d m \<and> own_frame p d m B \<and>
     (\<forall>a \<in> A. vmap (in_dir p m) a = Some (fr a) \<and> own_frame p d m (fr a) \<and> fr a \<noteq> B \<and>
        (\<forall>j < 1024. phys m (fr a + 4 * of_nat j) = w a j)) \<and>
     (\<forall>a \<in> D. vmap (in_dir d m) a = Some (g a) \<and> own_frame p d m (g a) \<and> g a \<noteq> B \<and> g a \<notin> fr ` A \<and>
        (\<forall>j < 1024. phys m (g a + 4 * of_nat j) = w a j)) \<and>
     inj_on g D"

lemma cell_frame: "frame f = f \<Longrightarrow> j < 1024 \<Longrightarrow> frame (f + 4 * of_nat j) = f"
  using uint_in_page(2) [of f "4 * of_nat j"] uint_4k [of j] by simp

text \<open>Writing to a frame that holds none of the pages.\<close>

lemma copying_phys:
  assumes c: "copying p d fr w A B D g m" and f: "own_frame p d m f" "f \<notin> fr ` A" "f \<notin> g ` D"
    and ph: "\<forall>x. frame x \<noteq> f \<longrightarrow> ph x = phys m x"
  shows "copying p d fr w A B D g (m\<lparr>phys := ph\<rparr>)" and "vmap (in_dir p (m\<lparr>phys := ph\<rparr>)) = vmap (in_dir p m)"
    and "vmap (in_dir d (m\<lparr>phys := ph\<rparr>)) = vmap (in_dir d m)" and "own_frame p d (m\<lparr>phys := ph\<rparr>) = own_frame p d m"
proof -
  have s: "spaces p d m" using c by (simp add: copying_def)
  have "\<forall>x. frame x \<in> tables (in_dir p m) \<union> tables (in_dir d m) \<longrightarrow> ph x = phys m x" using ph f(1) by (auto simp: own_frame_def)
  note o = spaces_phys [OF s this]
  show v: "vmap (in_dir p (m\<lparr>phys := ph\<rparr>)) = vmap (in_dir p m)" "vmap (in_dir d (m\<lparr>phys := ph\<rparr>)) = vmap (in_dir d m)"
    by (rule o(2,3))+
  show own: "own_frame p d (m\<lparr>phys := ph\<rparr>) = own_frame p d m" using o(4,5) by (simp add: own_frame_def fun_eq_iff)
  have keep: "ph (h + 4 * of_nat j) = phys m (h + 4 * of_nat j)" if "own_frame p d m h" "h \<noteq> f" "j < 1024" for h j
    using ph cell_frame [of h j] that by (simp add: own_frame_def)
  show "copying p d fr w A B D g (m\<lparr>phys := ph\<rparr>)"
    unfolding copying_def v own
  proof (intro conjI ballI)
    fix a assume "a \<in> A"
    then have "own_frame p d m (fr a)" "fr a \<noteq> f" and "\<forall>j < 1024. phys m (fr a + 4 * of_nat j) = w a j" using c f(2) by (auto simp: copying_def)
    then show "\<forall>j < 1024. phys (m\<lparr>phys := ph\<rparr>) (fr a + 4 * of_nat j) = w a j" using keep by simp
  next
    fix a assume "a \<in> D"
    then have "own_frame p d m (g a)" "g a \<noteq> f" and "\<forall>j < 1024. phys m (g a + 4 * of_nat j) = w a j" using c f(3) by (auto simp: copying_def)
    then show "\<forall>j < 1024. phys (m\<lparr>phys := ph\<rparr>) (g a + 4 * of_nat j) = w a j" using keep by simp
  qed (use c o(1) in \<open>auto simp: copying_def\<close>)
qed

text \<open>The addresses that the copy uses: the directories and the buffer, in the kernel's part.\<close>

definition kernel_addr :: "u32 \<Rightarrow> bool" where
  "kernel_addr a \<longleftrightarrow> 0xc0000000 \<le> a \<and> a < 0xffc00000"

lemma kernel_idx: "kernel_addr a \<Longrightarrow> 768 \<le> uint a div 4194304 \<and> uint a div 4194304 < 1023"
proof -
  assume "kernel_addr a"
  then have "3221225472 \<le> uint a" "uint a < 4290772992" by (simp_all add: kernel_addr_def word_less_def word_le_def)
  then have "768 \<le> uint a div 4194304" "uint a div 4194304 < 1023" by (simp_all add: div_less_iff_less_mult)
  then show ?thesis by simp
qed

lemma kernel_ordinary: "kernel_addr a \<Longrightarrow> ordinary a"
  using kernel_idx [of a] by (auto simp: ordinary_def window_def u32_eq_iff uint_PDE_IDX)

lemma kernel_frame: "kernel_addr a \<Longrightarrow> v < 0xc0000000 \<Longrightarrow> frame a \<noteq> v"
proof
  assume a: "kernel_addr a" "v < 0xc0000000" "frame a = v"
  have "uint a \<ge> 3221225472" "uint v < 3221225472" using a(1,2) by (simp_all add: kernel_addr_def word_less_def word_le_def)
  moreover have "uint v = uint a - uint a mod 4096" using a(3) uint_frame [of a] by simp
  ultimately have "uint a div 4096 < 786432" using mult_div_mod_eq [of 4096 "uint a"] by linarith
  then show False using \<open>uint a \<ge> 3221225472\<close> by linarith
qed

lemma activate_eq:
  assumes "tpgdir k = v" and "v \<noteq> 0" and "wf_mem m" and "vmap m v = Some q"
  shows "page_dir_activate k m = Inr (in_dir q m)"
  using addr_v2p_vmap [OF assms(3,4)] assms(1,2) by (simp add: page_dir_activate_def in_dir_def)

lemma copy_page_ok:
  assumes "wf_mem m" and "frame a = a" and "frame b = b" and "a \<noteq> 0" and "b \<noteq> 0" and "vmap m a = Some f" and "vmap m b = Some g"
    and "f \<notin> tables m" and "g \<noteq> f" and "frame f = f" and "frame g = g"
  obtains ph where "memcpy_page a b m = Inr (m\<lparr>phys := ph\<rparr>)" and "\<forall>x. frame x \<noteq> f \<longrightarrow> ph x = phys m x"
    and "\<forall>j < 1024. ph (f + 4 * of_nat j) = phys m (g + 4 * of_nat j)"
  using copy_range [OF assms(1,2,3,6-11), of 0 1024] assms(4,5) by (auto simp: memcpy_page_def)

lemma copying_in_dir [simp]: "copying p d fr w A B D g (in_dir q m) = copying p d fr w A B D g m"
  by (simp add: copying_def spaces_def own_frame_def)

definition user_page :: "u32 \<Rightarrow> bool" where
  "user_page a \<longleftrightarrow> ordinary a \<and> frame a = a \<and> a < 0xc0000000"

lemma copying_new_page:
  assumes c: "copying p d fr w A B D g m" and A: "\<forall>a \<in> A. user_page a" and D: "D \<subseteq> A" "a \<notin> D" and s: "spaces p d m2"
    and vp: "vmap (in_dir p m2) = vmap (in_dir p m)"
    and vd: "\<forall>u. ordinary u \<longrightarrow> vmap (in_dir d m2) u = (if frame u = a then Some (f + (u AND 0xfff)) else vmap (in_dir d m) u)"
    and own: "\<forall>g. own_frame p d m g \<longrightarrow> own_frame p d m2 g" and ph: "\<forall>x. own_frame p d m (frame x) \<longrightarrow> phys m2 x = phys m x"
  shows "copying p d fr w A B D g m2"
proof -
  have keep: "phys m2 (h + 4 * of_nat j) = phys m (h + 4 * of_nat j)" if "own_frame p d m h" "j < 1024" for h j
    using ph that cell_frame [of h j] by (simp add: own_frame_def)
  have "vmap (in_dir d m2) x = vmap (in_dir d m) x" if "x \<in> D" for x
    using vd that A D by (auto simp: user_page_def)
  then show ?thesis using c s own keep vp unfolding copying_def by simp
qed

lemma copy_user_page_ok:
  assumes c: "copying p d fr w A B D g m" and m: "cr3 m = p" and A: "\<forall>a \<in> A. user_page a" and a: "a \<in> A" "a \<notin> D"
    and un: "vmap (in_dir d m) a = None"
    and k: "kernel_addr b" "frame b = b" "kernel_addr (tpgdir child)" "kernel_addr (tpgdir parent)"
    and v: "vmap m b = Some B" "vmap m (tpgdir parent) = Some p" "vmap m (tpgdir child) = Some d"
    and en: "enough PF_USER (Suc n) m" and D: "D \<subseteq> A"
  obtains f m' where "copy_user_page child parent b a m = Inr m'" and "copying p d fr w A B (insert a D) (g(a := f)) m'"
    and "cr3 m' = p" and "vmap m' = vmap m" and "enough PF_USER n m'"
    and "\<forall>u. ordinary u \<and> frame u \<noteq> a \<longrightarrow> vmap (in_dir d m') u = vmap (in_dir d m) u"
proof -
  have u: "ordinary a" "frame a = a" "a < 0xc0000000" using A a(1) by (auto simp: user_page_def)
  have inp: "in_dir p m = m" using m in_dir_simps(6) [of m] by simp
  have nz: "a \<noteq> 0" "b \<noteq> 0" "tpgdir child \<noteq> 0" "tpgdir parent \<noteq> 0"
    using u(1) k by (auto simp: ordinary_def PDE_IDX_def kernel_addr_def)
  have s: "spaces p d m" and B: "own_frame p d m B" and fa: "vmap m a = Some (fr a)" "own_frame p d m (fr a)" "fr a \<noteq> B"
    and w: "\<forall>j < 1024. phys m (fr a + 4 * of_nat j) = w a j"
    using c a(1) inp by (auto simp: copying_def)
  have wf: "wf_mem m" using s inp by (simp add: spaces_def)
  have Bt: "B \<notin> tables m" "frame B = B" "frame (fr a) = fr a" using B fa(2) inp by (auto simp: own_frame_def)
  have Bg: "B \<notin> fr ` A" "B \<notin> g ` D" using c by (auto simp: copying_def)
  \<comment> \<open>the parent's page into the buffer\<close>
  obtain ph where 1: "memcpy_page b a m = Inr (m\<lparr>phys := ph\<rparr>)" "\<forall>x. frame x \<noteq> B \<longrightarrow> ph x = phys m x"
    "\<forall>j < 1024. ph (B + 4 * of_nat j) = phys m (fr a + 4 * of_nat j)"
    by (rule copy_page_ok [OF wf k(2) u(2) nz(2,1) v(1) fa(1) Bt(1) fa(3) Bt(2,3)])
  let ?m1 = "m\<lparr>phys := ph\<rparr>"
  note c1 = copying_phys [OF c B Bg 1(2)]
  have s1: "spaces p d ?m1" using c1(1) by (simp add: copying_def)
  have vm1: "vmap ?m1 = vmap m" "vmap (in_dir p ?m1) = vmap m" using c1(2) inp by simp_all
  have wf1: "wf_mem ?m1" using s1 inp by (simp add: spaces_def)
  \<comment> \<open>the child's directory, and a fresh page in it\<close>
  have 2: "page_dir_activate child ?m1 = Inr (in_dir d ?m1)"
    by (rule activate_eq [OF refl nz(3) wf1]) (simp only: vm1 v(3))
  have un1: "vmap (in_dir d ?m1) a = None" using c1(3) un by simp
  have en1: "enough PF_USER (Suc n) ?m1" using en by (simp add: enough_def)
  obtain f m2 where 3: "get_a_page_without_opvaddrbitmap PF_USER a (in_dir d ?m1) = Inr (a, m2)" "cr3 m2 = d"
    "spaces p d m2" "own_frame p d m2 f" "f \<in> free_frames (user_pool ?m1)" "enough PF_USER n m2"
    "vmap (in_dir p m2) = vmap (in_dir p ?m1)"
    "\<forall>u. ordinary u \<longrightarrow> vmap (in_dir d m2) u = (if frame u = a then Some (f + (u AND 0xfff)) else vmap (in_dir d ?m1) u)"
    "\<forall>g. own_frame p d ?m1 g \<longrightarrow> own_frame p d m2 g" "\<forall>x. own_frame p d ?m1 (frame x) \<longrightarrow> phys m2 x = phys ?m1 x"
    by (rule spaces_get_page [OF s1 u un1 en1])
  note c2 = copying_new_page [OF c1(1) A D a(2) 3(3,7-10)]
  have ind: "in_dir d m2 = m2" using 3(2) in_dir_simps(6) [of m2] by simp
  have nf: "h \<noteq> f" if "own_frame p d m h" for h using that 3(5) by (auto simp: own_frame_def)
  have fn: "f \<notin> fr ` A" "f \<notin> g ` D" "B \<noteq> f" using nf c B by (auto simp: copying_def)
  have ker: "vmap m2 x = vmap m x" if "kernel_addr x" for x
    using 3(8) ind kernel_ordinary [OF that] kernel_frame [OF that u(3)] spaces_kernel [OF s1, of x] that vm1
    by (simp add: kernel_addr_def)
  have va: "vmap m2 a = Some f" using 3(8) ind u uint_in_page(3) [OF u(2), of 0] by simp
  have wf2: "wf_mem m2" using 3(3) ind by (simp add: spaces_def)
  have ft: "f \<notin> tables m2" "frame f = f" using 3(4) ind by (auto simp: own_frame_def)
  \<comment> \<open>the buffer into the child's page\<close>
  have vb: "vmap m2 b = Some B" using ker [OF k(1)] v(1) by simp
  obtain ph3 where 4: "memcpy_page a b m2 = Inr (m2\<lparr>phys := ph3\<rparr>)" "\<forall>x. frame x \<noteq> f \<longrightarrow> ph3 x = phys m2 x"
    "\<forall>j < 1024. ph3 (f + 4 * of_nat j) = phys m2 (B + 4 * of_nat j)"
    by (rule copy_page_ok [OF wf2 u(2) k(2) nz(1,2) va vb ft(1) fn(3) ft(2) Bt(2)])
  let ?m3 = "m2\<lparr>phys := ph3\<rparr>"
  note c3 = copying_phys [OF c2 3(4) fn(1,2) 4(2)]
  have wf3: "wf_mem ?m3" using c3(1) ind by (simp add: copying_def spaces_def)
  have vm3: "vmap ?m3 = vmap m2" using c3(3) ind by simp
  have 5: "page_dir_activate parent ?m3 = Inr (in_dir p ?m3)"
    by (rule activate_eq [OF refl nz(4) wf3]) (simp only: vm3 ker [OF k(4)] v(2))
  have r: "copy_user_page child parent b a m = Inr (in_dir p ?m3)"
    using 1(1) 2 3(1) 4(1) 5 by (simp add: copy_user_page_def)
  have B1: "own_frame p d ?m1 B" using c1(1) by (simp add: copying_def)
  have cont: "ph3 (f + 4 * of_nat j) = w a j" if "j < 1024" for j
    using 4(3) 3(10) 1(3) w that cell_frame [OF Bt(2) that] B1 by simp
  have "copying p d fr w A B (insert a D) (g(a := f)) ?m3"
    using c3 cont va ind fn a(2) 3(4) unfolding copying_def by (auto simp: inj_on_def)
  then have c5: "copying p d fr w A B (insert a D) (g(a := f)) (in_dir p ?m3)" by (simp only: copying_in_dir)
  have "vmap (in_dir p ?m3) = vmap m" using c3(2) 3(7) vm1(2) by simp
  moreover have "enough PF_USER n (in_dir p ?m3)" using 3(6) by (simp add: enough_def)
  moreover have "\<forall>u. ordinary u \<and> frame u \<noteq> a \<longrightarrow> vmap (in_dir d (in_dir p ?m3)) u = vmap (in_dir d m) u"
    using 3(8) c3(3) c1(3) by simp
  ultimately show ?thesis using that [OF r c5] by simp
qed

section \<open>Copying all pages\<close>

fun copy_pages :: "task_struct \<Rightarrow> task_struct \<Rightarrow> u32 \<Rightarrow> u32 list \<Rightarrow> mem \<Rightarrow> mem result" where
  "copy_pages child parent buf [] m = Inr m"
| "copy_pages child parent buf (a # as) m = bindR (copy_user_page child parent buf a m) (copy_pages child parent buf as)"

lemma copy_pages_append:
  "copy_pages child parent buf (as @ bs) m = bindR (copy_pages child parent buf as m) (copy_pages child parent buf bs)"
proof (induction as arbitrary: m)
  case (Cons a as)
  have "copy_pages child parent buf (as @ bs) = (\<lambda>m. bindR (copy_pages child parent buf as m) (copy_pages child parent buf bs))"
    using Cons.IH by blast
  then show ?case by (simp add: bindR_assoc)
qed simp

definition page_of :: "task_struct \<Rightarrow> nat \<Rightarrow> u32" where
  "page_of parent n = of_nat n * 4096 + vaddr_start (tuserprog_vaddr parent)"

lemma copy_bits_eq:
  "copy_bits child parent buf byte i k n m =
     copy_pages child parent buf (map (\<lambda>j. page_of parent (i * 8 + j)) (filter (\<lambda>j. j < 8 \<and> bit byte j) [k..<k + n])) m"
proof (induction n arbitrary: k m)
  case (Suc n)
  have ih: "copy_bits child parent buf byte i (Suc k) n =
      copy_pages child parent buf (map (\<lambda>j. page_of parent (i * 8 + j)) (filter (\<lambda>j. j < 8 \<and> bit byte j) [Suc k..<Suc k + n]))"
    using Suc.IH by blast
  have p: "of_nat (i * 8 + k) * 4096 + vaddr_start (tuserprog_vaddr parent) = page_of parent (i * 8 + k)" by (simp only: page_of_def)
  have t: "push_bit k 1 AND byte \<noteq> 0 \<longleftrightarrow> k < 8 \<and> bit byte k" using and_push_bit_1_iff [of k byte] by simp
  have u: "[k..<k + Suc n] = k # [Suc k..<Suc k + n]" by (simp add: upt_conv_Cons del: upt_Suc)
  show ?case unfolding copy_bits.simps ih p t u by simp
qed simp

lemma copy_bytes_eq:
  "copy_bytes child parent buf i bs m =
     copy_pages child parent buf (map (page_of parent) (filter (\<lambda>n. bit (bs ! (n div 8 - i)) (n mod 8)) [i * 8..<(i + length bs) * 8])) m"
proof (induction bs arbitrary: i m)
  case (Cons b bs)
  let ?P = "\<lambda>bs i n. bit (bs ! (n div 8 - i)) (n mod 8 :: nat)"
  have u: "[i * 8..<(i + length (b # bs)) * 8] = map (\<lambda>j. i * 8 + j) [0..<8] @ [Suc i * 8..<(Suc i + length bs) * 8]"
    using upt_add_eq_append [of "i * 8" "Suc i * 8" "length bs * 8"] map_add_upt [of "i * 8" 8]
    by (simp add: add.commute add.left_commute del: upt_Suc)
  have f1: "filter (?P (b # bs) i) (map (\<lambda>j. i * 8 + j) [0..<8]) = map (\<lambda>j. i * 8 + j) (filter (\<lambda>j. j < 8 \<and> bit b j) [0..<8])"
    by (auto simp: filter_map o_def intro!: arg_cong [of _ _ "map _"] filter_cong)
  have f2: "filter (?P (b # bs) i) [Suc i * 8..<(Suc i + length bs) * 8] = filter (?P bs (Suc i)) [Suc i * 8..<(Suc i + length bs) * 8]"
    by (rule filter_cong) (auto simp: nth_Cons' )
  have "(if b \<noteq> 0 then copy_bits child parent buf b i 0 8 m else Inr m) =
      copy_pages child parent buf (map (\<lambda>j. page_of parent (i * 8 + j)) (filter (\<lambda>j. j < 8 \<and> bit b j) [0..<8])) m"
    by (simp add: copy_bits_eq)
  moreover have "copy_bytes child parent buf (Suc i) bs =
      copy_pages child parent buf (map (page_of parent) (filter (?P bs (Suc i)) [Suc i * 8..<(Suc i + length bs) * 8]))"
    using Cons.IH by blast
  ultimately show ?case
    by (simp only: copy_bytes.simps u filter_append map_append f1 f2 copy_pages_append map_map o_def)
qed simp

lemma copy_pages_ok:
  assumes "copying p d fr w A B D g m" and "cr3 m = p" and "\<forall>a \<in> A. user_page a" and "D \<subseteq> A"
    and "set as \<subseteq> A" and "D \<inter> set as = {}" and "distinct as" and "\<forall>a \<in> set as. vmap (in_dir d m) a = None"
    and "kernel_addr b" "frame b = b" "kernel_addr (tpgdir child)" "kernel_addr (tpgdir parent)"
    and "vmap m b = Some B" "vmap m (tpgdir parent) = Some p" "vmap m (tpgdir child) = Some d"
    and "enough PF_USER (length as) m"
  shows "\<exists>m' g'. copy_pages child parent b as m = Inr m' \<and> copying p d fr w A B (D \<union> set as) g' m' \<and> cr3 m' = p \<and> vmap m' = vmap m"
  using assms
proof (induction as arbitrary: D g m)
  case (Cons a as)
  have aA: "a \<in> A" "a \<notin> D" and un: "vmap (in_dir d m) a = None" and en: "enough PF_USER (Suc (length as)) m"
    using Cons.prems(5,6,8,16) by auto
  obtain f m1 where 1: "copy_user_page child parent b a m = Inr m1" "copying p d fr w A B (insert a D) (g(a := f)) m1"
    "cr3 m1 = p" "vmap m1 = vmap m" "enough PF_USER (length as) m1"
    "\<forall>u. ordinary u \<and> frame u \<noteq> a \<longrightarrow> vmap (in_dir d m1) u = vmap (in_dir d m) u"
    by (rule copy_user_page_ok [OF Cons.prems(1-3) aA un Cons.prems(9-15) en Cons.prems(4)])
  have un1: "\<forall>x \<in> set as. vmap (in_dir d m1) x = None"
  proof
    fix x assume x: "x \<in> set as"
    then have "user_page x" "x \<noteq> a" using Cons.prems(3,5,7) by auto
    then show "vmap (in_dir d m1) x = None" using 1(6) Cons.prems(8) x by (simp add: user_page_def)
  qed
  have sub: "insert a D \<subseteq> A" "set as \<subseteq> A" "insert a D \<inter> set as = {}" "distinct as" using Cons.prems(4-7) aA by auto
  obtain m' g' where "copy_pages child parent b as m1 = Inr m'" "copying p d fr w A B (insert a D \<union> set as) g' m'" "cr3 m' = p" "vmap m' = vmap m1"
    using Cons.IH [OF 1(2,3) Cons.prems(3) sub un1 Cons.prems(9-12) _ _ _ 1(5)] 1(4) Cons.prems(13-15) by metis
  then show ?case using 1(1,4) by (intro exI [of _ m'] exI [of _ g']) simp
qed (auto intro: exI)

section \<open>Properties\<close>

text \<open>The pages that the pool of the parent has handed out.\<close>

definition user_pages :: "task_struct \<Rightarrow> u32 list" where
  "user_pages parent = (let b = vaddr_bitmap (tuserprog_vaddr parent) in
     map (page_of parent) (filter (bm_bit b) [0..<btmp_bytes_len b * 8]))"

lemma copy_body_eq:
  assumes "btmp_bytes_len (vaddr_bitmap (tuserprog_vaddr parent)) \<le> length (bits (vaddr_bitmap (tuserprog_vaddr parent)))"
  shows "copy_body_stack3 child parent buf m = copy_pages child parent buf (user_pages parent) m"
proof -
  let ?b = "vaddr_bitmap (tuserprog_vaddr parent)" let ?n = "btmp_bytes_len ?b"
  have "filter (\<lambda>n. bit (take ?n (bits ?b) ! (n div 8)) (n mod 8)) [0..<?n * 8] = filter (bm_bit ?b) [0..<?n * 8]"
    by (rule filter_cong) (auto simp: bm_bit_def less_mult_imp_div_less)
  then show ?thesis
    using assms copy_bytes_eq [of child parent buf 0 "take ?n (bits ?b)" m]
    by (simp add: copy_body_stack3_def user_pages_def Let_def min_absorb2)
qed

lemma user_pages_distinct:
  assumes "btmp_bytes_len (vaddr_bitmap (tuserprog_vaddr parent)) \<le> 131072"
  shows "distinct (user_pages parent)"
proof -
  have "inj_on (page_of parent) {..<1048576}"
  proof (rule inj_onI)
    fix x y assume h: "x \<in> {..<1048576}" "y \<in> {..<1048576}" "page_of parent x = page_of parent y"
    have u: "unat (of_nat n * 4096 :: u32) = n * 4096" if "n < 1048576" for n :: nat
      using that by (simp add: unat_word_ariths unsigned_of_nat take_bit_nat_eq_self)
    have "(of_nat x * 4096 :: u32) = of_nat y * 4096" using h(3) by (simp add: page_of_def)
    then have "x * 4096 = y * 4096" using u [of x] u [of y] h(1,2) by (metis lessThan_iff)
    then show "x = y" by simp
  qed
  then have "inj_on (page_of parent) (set (filter f [0..<btmp_bytes_len (vaddr_bitmap (tuserprog_vaddr parent)) * 8]))" for f
    by (rule inj_on_subset) (use assms in auto)
  then show ?thesis by (simp add: user_pages_def Let_def distinct_map)
qed

text \<open>
  C11. Fork copies the memory of the parent: from two address spaces side by side, with the kernel buffer and
  both directories mapped in the kernel's part, every page of the parent's pool mapped to a frame of its
  own and none mapped in the child, \<^verbatim>\<open>copy_body_stack3\<close> returns with the parent's address space current again.
  Then every word of every page reads the same in the parent as before and the same in the child,
  and no page of the child shares a frame with a page of the parent or with another page of the child.
\<close>
theorem fork_copies_memory:
  assumes sp: "spaces (cr3 m) d m" and A: "A = set (user_pages parent)" and up: "\<forall>a \<in> A. user_page a"
    and own: "\<forall>a \<in> A. \<exists>f. vmap m a = Some f \<and> own_frame (cr3 m) d m f \<and> f \<noteq> B" and un: "\<forall>a \<in> A. vmap (in_dir d m) a = None"
    and k: "kernel_addr buf" "frame buf = buf" "kernel_addr (tpgdir child)" "kernel_addr (tpgdir parent)"
    and v: "vmap m buf = Some B" "vmap m (tpgdir parent) = Some (cr3 m)" "vmap m (tpgdir child) = Some d" and B: "own_frame (cr3 m) d m B"
    and len: "btmp_bytes_len (vaddr_bitmap (tuserprog_vaddr parent)) \<le> length (bits (vaddr_bitmap (tuserprog_vaddr parent)))"
      "length (bits (vaddr_bitmap (tuserprog_vaddr parent))) \<le> 131072"
    and en: "enough PF_USER (card A) m"
  shows "\<exists>m'. copy_body_stack3 child parent buf m = Inr m' \<and> cr3 m' = cr3 m \<and> spaces (cr3 m) d m' \<and>
    (\<forall>a \<in> A. \<forall>j < 1024. load m' (a + 4 * of_nat j) = load m (a + 4 * of_nat j) \<and>
       load (in_dir d m') (a + 4 * of_nat j) = load m (a + 4 * of_nat j)) \<and>
    (\<forall>a \<in> A. \<forall>b \<in> A. vmap (in_dir d m') a \<noteq> vmap m' b \<and> (vmap (in_dir d m') a = vmap (in_dir d m') b \<longrightarrow> a = b))"
proof -
  let ?p = "cr3 m" let ?as = "user_pages parent"
  define fr where "fr a = the (vmap m a)" for a
  define w where "w a j = phys m (fr a + 4 * of_nat j)" for a j
  have fr: "vmap m a = Some (fr a)" "own_frame ?p d m (fr a)" "fr a \<noteq> B" if "a \<in> A" for a
    using own that by (auto simp: fr_def)
  have c: "copying ?p d fr w A B {} id m" using sp B fr by (auto simp: copying_def w_def)
  have ds: "distinct ?as" using user_pages_distinct [of parent] len by simp
  then have en': "enough PF_USER (length ?as) m" using en A by (simp add: distinct_card)
  have un': "\<forall>a \<in> set ?as. vmap (in_dir d m) a = None" using un A by simp
  obtain m' g where r: "copy_pages child parent buf ?as m = Inr m'" "copying ?p d fr w A B ({} \<union> set ?as) g m'" "cr3 m' = ?p" "vmap m' = vmap m"
    using copy_pages_ok [OF c refl up _ _ _ ds un' k v en'] A by auto
  have inp: "in_dir ?p m' = m'" using r(3) in_dir_simps(6) [of m'] by simp
  have cp: "copying ?p d fr w A B A g m'" using r(2) A by simp
  have al: "frame a = a" if "a \<in> A" for a using up that by (simp add: user_page_def)
  have ld: "load x (a + 4 * of_nat j) = Inr (phys x (f + 4 * of_nat j))" if "a \<in> A" "j < 1024" "vmap x a = Some f" for x a j f
    using vmap_in_page [OF al [OF that(1)] _ that(3), of "4 * of_nat j"] uint_4k [OF that(2)] that(2) by (simp add: load_def)
  have "load m' (a + 4 * of_nat j) = load m (a + 4 * of_nat j) \<and> load (in_dir d m') (a + 4 * of_nat j) = load m (a + 4 * of_nat j)"
    if aj: "a \<in> A" "j < 1024" for a j
  proof -
    have x: "vmap m' a = Some (fr a)" "vmap (in_dir d m') a = Some (g a)" "phys m' (fr a + 4 * of_nat j) = w a j" "phys m' (g a + 4 * of_nat j) = w a j"
      using cp aj r(4) fr by (auto simp: copying_def)
    then show ?thesis using ld [OF aj x(1)] ld [OF aj x(2)] ld [OF aj fr(1) [OF aj(1)]] by (simp add: w_def)
  qed
  moreover have "vmap (in_dir d m') a \<noteq> vmap m' b \<and> (vmap (in_dir d m') a = vmap (in_dir d m') b \<longrightarrow> a = b)" if ab: "a \<in> A" "b \<in> A" for a b
  proof -
    have g: "vmap (in_dir d m') x = Some (g x)" "g x \<notin> fr ` A" if "x \<in> A" for x using cp that by (simp_all add: copying_def)
    have "inj_on g A" using cp by (simp add: copying_def)
    then show ?thesis using g [OF ab(1)] g(1) [OF ab(2)] ab fr(1) [OF ab(2)] r(4) by (auto dest: inj_onD)
  qed
  moreover have "spaces ?p d m'" using cp by (simp add: copying_def)
  ultimately show ?thesis using r(1,3) copy_body_eq [OF len(1), of child buf m] by (intro exI [of _ m']) auto
qed

section \<open>A sample pair of address spaces\<close>

text \<open>The parent's directory at \<open>0x100000\<close>, the child's at \<open>0x103000\<close>, the shared kernel table at \<open>0x101000\<close>
  with both directories and a buffer page, and one user page with the number 42 in it.\<close>

definition fork_phys :: "u32 \<Rightarrow> u32" where
  "fork_phys a = (if a = 0x100ffc then 0x100007 else if a = 0x100c00 then 0x101007 else if a = 0x100080 then 0x102007
     else if a = 0x103ffc then 0x103007 else if a = 0x103c00 then 0x101007
     else if a = 0x101400 then 0x100007 else if a = 0x101404 then 0x103007 else if a = 0x101408 then 0x104007
     else if a = 0x102120 then 0x105007 else if a = 0x105000 then 42 else 0)"

definition fork_mem :: mem where
  "fork_mem = sample_mem\<lparr>phys := fork_phys\<rparr>"

lemma fork_pde:
  "pde (in_dir 0x100000 fork_mem) v = (if PDE_IDX v = 1023 then 0x100007 else if PDE_IDX v = 768 then 0x101007
     else if PDE_IDX v = 32 then 0x102007 else 0)"
  "pde (in_dir 0x103000 fork_mem) v = (if PDE_IDX v = 1023 then 0x103007 else if PDE_IDX v = 768 then 0x101007 else 0)"
proof -
  have "uint (0x100000 + 4 * PDE_IDX v) = 0x100000 + 4 * (uint v div 4194304)" "uint (0x103000 + 4 * PDE_IDX v) = 0x103000 + 4 * (uint v div 4194304)"
    using uint_in_page(1) [of "0x100000" "4 * PDE_IDX v"] uint_in_page(1) [of "0x103000" "4 * PDE_IDX v"] PDE_IDX_bounds(2) [of v]
    by (simp_all add: frame_def uint_4_PDE)
  then show "pde (in_dir 0x100000 fork_mem) v = (if PDE_IDX v = 1023 then 0x100007 else if PDE_IDX v = 768 then 0x101007
     else if PDE_IDX v = 32 then 0x102007 else 0)"
    "pde (in_dir 0x103000 fork_mem) v = (if PDE_IDX v = 1023 then 0x103007 else if PDE_IDX v = 768 then 0x101007 else 0)"
    using PDE_IDX_bounds [of v] by (simp_all add: pde_def fork_mem_def fork_phys_def u32_eq_iff uint_PDE_IDX)
qed

lemma fork_tables:
  "tables (in_dir 0x100000 fork_mem) \<subseteq> {0x100000, 0x101000, 0x102000}" "tables (in_dir 0x103000 fork_mem) \<subseteq> {0x103000, 0x101000}"
  by (auto simp: tables_def fork_pde frame_def split: if_splits)

lemma fork_wf: "wf_mem (in_dir 0x100000 fork_mem)" "wf_mem (in_dir 0x103000 fork_mem)"
proof -
  have fr: "frame (0x100007 :: u32) = 0x100000" "frame (0x101007 :: u32) = 0x101000" "frame (0x102007 :: u32) = 0x102000" "frame (0x103007 :: u32) = 0x103000"
    by (simp_all add: frame_def)
  have "wf_tables (in_dir 0x100000 fork_mem)" "wf_tables (in_dir 0x103000 fork_mem)"
    unfolding wf_tables_def rec_mapped_def
    by (auto simp: fork_pde window_def fr, simp_all add: fork_mem_def fork_phys_def frame_def present_def split: if_splits)
  moreover have "kernel_pool fork_mem = kernel_pool sample_mem" "user_pool fork_mem = user_pool sample_mem" by (simp_all add: fork_mem_def)
  moreover have "f \<notin> tables (in_dir c fork_mem)" if "c \<in> {0x100000, 0x103000}" "0x200000 \<le> unat f" for c f
    using fork_tables that by auto
  ultimately show "wf_mem (in_dir 0x100000 fork_mem)" "wf_mem (in_dir 0x103000 fork_mem)"
    using sample_wf_mem sample_free_ge unfolding wf_mem_def by (auto simp: disjoint_iff)
qed

lemma fork_spaces: "spaces 0x100000 0x103000 fork_mem"
proof -
  have i: "PDE_IDX u \<noteq> 1023 \<and> PDE_IDX u \<noteq> 32" if "0xc0000000 \<le> u" "u < 0xffc00000" for u
    using kernel_idx [of u] that by (auto simp: kernel_addr_def u32_eq_iff uint_PDE_IDX)
  have j: "PDE_IDX u \<noteq> 1023 \<and> PDE_IDX u \<noteq> 768" if "u < 0xc0000000" for u
  proof -
    have "uint u div 4194304 < 768" using that by (simp add: word_less_def div_less_iff_less_mult)
    then show ?thesis by (auto simp: u32_eq_iff uint_PDE_IDX)
  qed
  show ?thesis unfolding spaces_def
    using fork_wf fork_tables i j by (auto simp: fork_pde)
qed

definition fork_pcb :: "u32 \<Rightarrow> task_struct" where
  "fork_pcb d = \<lparr>self_kstack = 0, pid = 2, status = TASK_RUNNING, priority = 31, tname = [], ticks = 31, elapsed_ticks = 0,
     fd_table = [], tpgdir = d, tuserprog_vaddr = \<lparr>vaddr_bitmap = \<lparr>btmp_bytes_len = 1, bits = [1]\<rparr>, vaddr_start = 0x8048000\<rparr>,
     cwd_inode_nr = 0, parent_pid = 1, exit_status = 0, stack_magic = 0x19870916, tfunction = 0, tfunc_arg = 0\<rparr>"

lemma fork_user_pages: "user_pages (fork_pcb d) = [0x8048000]"
proof -
  have "[0..<8] = [0, 1, 2, 3, 4, 5, 6, 7 :: nat]" by (simp add: upt_conv_Cons)
  then have "filter (bm_bit \<lparr>btmp_bytes_len = 1, bits = [1]\<rparr>) [0..<8] = [0]" by (simp add: bm_bit_def)
  then show ?thesis by (simp add: user_pages_def fork_pcb_def page_of_def)
qed

lemma fork_own: "own_frame 0x100000 0x103000 fork_mem f" if "f \<in> {0x104000, 0x105000}"
proof -
  have "f \<notin> tables (in_dir 0x100000 fork_mem)" "f \<notin> tables (in_dir 0x103000 fork_mem)" using fork_tables that by auto
  moreover have "frame f = f" "unat f < 0x200000" using that by (auto simp: frame_def)
  ultimately show ?thesis using sample_free_ge [of f] by (auto simp: own_frame_def fork_mem_def)
qed

theorem fork_copies_memory_witness:
  "\<exists>m'. copy_body_stack3 (fork_pcb 0xc0101000) (fork_pcb 0xc0100000) 0xc0102000 fork_mem = Inr m' \<and>
     load m' 0x8048000 = Inr 42 \<and> load (in_dir 0x103000 m') 0x8048000 = Inr 42 \<and>
     vmap (in_dir 0x103000 m') 0x8048000 \<noteq> vmap m' 0x8048000"
proof -
  have m: "cr3 fork_mem = 0x100000" "phys fork_mem = fork_phys" by (simp_all add: fork_mem_def sample_mem_def)
  have v: "vmap fork_mem 0xc0102000 = Some 0x104000" "vmap fork_mem 0xc0100000 = Some (cr3 fork_mem)"
    "vmap fork_mem 0xc0101000 = Some 0x103000" "vmap fork_mem 0x8048000 = Some 0x105000" "vmap (in_dir 0x103000 fork_mem) 0x8048000 = None"
    by (simp_all add: m mmu_def fork_phys_def PDE_IDX_def PTE_IDX_def frame_def present_def)
  have l: "load fork_mem 0x8048000 = Inr 42" using v(4) by (simp add: load_def m fork_phys_def)
  have A: "set (user_pages (fork_pcb d)) = {0x8048000}" for d by (simp add: fork_user_pages)
  have "\<exists>m'. copy_body_stack3 (fork_pcb 0xc0101000) (fork_pcb 0xc0100000) 0xc0102000 fork_mem = Inr m' \<and> cr3 m' = cr3 fork_mem \<and> spaces (cr3 fork_mem) 0x103000 m' \<and>
    (\<forall>a \<in> {0x8048000}. \<forall>j < 1024. load m' (a + 4 * of_nat j) = load fork_mem (a + 4 * of_nat j) \<and>
       load (in_dir 0x103000 m') (a + 4 * of_nat j) = load fork_mem (a + 4 * of_nat j)) \<and>
    (\<forall>a \<in> {0x8048000}. \<forall>b \<in> {0x8048000}. vmap (in_dir 0x103000 m') a \<noteq> vmap m' b \<and> (vmap (in_dir 0x103000 m') a = vmap (in_dir 0x103000 m') b \<longrightarrow> a = b))"
  proof (rule fork_copies_memory [where B = "0x104000"])
    show "spaces (cr3 fork_mem) 0x103000 fork_mem" using fork_spaces m by simp
    show "{0x8048000} = set (user_pages (fork_pcb 0xc0100000))" by (simp add: A)
    show "\<forall>a \<in> {0x8048000}. user_page a" by (simp add: user_page_def ordinary_def window_def PDE_IDX_def frame_def)
    show "\<forall>a \<in> {0x8048000}. \<exists>f. vmap fork_mem a = Some f \<and> own_frame (cr3 fork_mem) 0x103000 fork_mem f \<and> f \<noteq> 0x104000"
      using fork_own [of "0x105000"] m v(4) by simp
    show "own_frame (cr3 fork_mem) 0x103000 fork_mem 0x104000" using fork_own [of "0x104000"] m by simp
    show "enough PF_USER (card {0x8048000 :: u32}) fork_mem" using sample_card by (simp add: enough_def fork_mem_def)
  qed (use v in \<open>simp_all add: kernel_addr_def frame_def fork_pcb_def\<close>)
  then obtain m' where m': "copy_body_stack3 (fork_pcb 0xc0101000) (fork_pcb 0xc0100000) 0xc0102000 fork_mem = Inr m'"
    "\<forall>j < 1024. load m' (0x8048000 + 4 * of_nat j) = load fork_mem (0x8048000 + 4 * of_nat j) \<and>
       load (in_dir 0x103000 m') (0x8048000 + 4 * of_nat j) = load fork_mem (0x8048000 + 4 * of_nat j)"
    "vmap (in_dir 0x103000 m') 0x8048000 \<noteq> vmap m' 0x8048000" by auto
  then show ?thesis using spec [OF m'(2), of 0] l by auto
qed

end
