(* ===== verification/Exec_Props.thy ===== *)
theory Exec_Props
  imports Exec Fork_Props File_Rw
begin

text \<open>
  Loading a segment: the pages of the segment are there afterwards, their bytes are the bytes of the file,
  and every other byte of the process keeps its value. The process owns a set of pages with frames
  that are nobody else's; an address range is the set of addresses at a bounded distance from its start.
\<close>

section \<open>Bytes of words\<close>

lemma byte_of_with_byte:
  assumes "i < 4" and "j < 4"
  shows "byte_of (with_byte i x w) j = (if i = j then x else byte_of w j)"
proof (rule bit_word_eqI)
  fix n assume n: "n < LENGTH(8)"
  have m: "(0xff :: u32) = mask 8" by (simp add: mask_eq_exp_minus_1)
  have "8 * i \<le> 8 * j + n \<and> 8 * j + n - 8 * i < 8 \<longleftrightarrow> i = j" using n assms by auto
  then show "bit (byte_of (with_byte i x w) j) n = bit (if i = j then x else byte_of w j) n"
    using n assms unfolding byte_of_def with_byte_def m by (auto simp: bit_simps dest: bit_imp_le_length)
qed

lemma byte_idx_less: "byte_idx v < 4"
proof -
  have "v AND 3 = take_bit 2 v" by (simp add: take_bit_eq_mask mask_eq_exp_minus_1)
  then have "unat (v AND 3) = take_bit 2 (unat v)" by (simp add: unsigned_take_bit_eq)
  then show ?thesis using take_bit_nat_less_exp [of 2 "unat v"] by (simp add: byte_idx_def)
qed

lemma byte_addr_eq_iff: "word_addr u = word_addr v \<and> byte_idx u = byte_idx v \<longleftrightarrow> u = v"
proof
  assume "word_addr u = word_addr v \<and> byte_idx u = byte_idx v"
  then have e: "u AND 0xfffffffc = v AND 0xfffffffc" "u AND 3 = v AND 3" by (auto simp: word_addr_def byte_idx_def intro: word_unat_eq_iff [THEN iffD2])
  have "x = (x AND 0xfffffffc) OR (x AND 3)" for x :: u32
  proof -
    have "(0xffffffff :: u32) = -1" by (simp add: eq_neg_iff_add_eq_0)
    then have "x AND 0xffffffff = x" by (simp only: and.right_neutral)
    then show ?thesis by (simp flip: bit.conj_disj_distrib)
  qed
  with e show "u = v" by metis
qed simp

lemma word_addr_page: "frame (word_addr v) = frame v" "uint (word_addr v AND 0xfff) < 4096"
  using uint_and_fff [of "word_addr v"] by (simp_all add: frame_def word_addr_def and.assoc)

lemma page_split: "v = frame v + (v AND 0xfff)"
proof -
  have "uint (frame v) + uint (v AND 0xfff) = uint v" by (simp add: uint_frame uint_and_fff)
  then show ?thesis using uint_u32_less [of v] by (simp add: u32_eq_iff uint_add_no_wrap)
qed

section \<open>Owned pages\<close>

definition own_page :: "mem \<Rightarrow> u32 \<Rightarrow> bool" where
  "own_page m a \<longleftrightarrow> user_page a \<and> (\<exists>f. vmap m a = Some f \<and> own_frame (cr3 m) (cr3 m) m f)"

definition owns_pages :: "u32 set \<Rightarrow> mem \<Rightarrow> bool" where
  "owns_pages S m \<longleftrightarrow> wf_mem m \<and> (\<forall>a \<in> S. own_page m a) \<and> inj_on (vmap m) S"

lemma load_byte_eq:
  assumes "vmap m (frame u) = Some f"
  shows "load_byte m u = Inr (byte_of (phys m (f + (word_addr u AND 0xfff))) (byte_idx u))"
proof -
  have "word_addr u = frame u + (word_addr u AND 0xfff)" using page_split [of "word_addr u"] word_addr_page(1) [of u] by simp
  then have "vmap m (word_addr u) = Some (f + (word_addr u AND 0xfff))"
    using vmap_in_page [OF frame_frame word_addr_page(2) assms, of u] by simp
  then show ?thesis by (simp add: load_byte_def load_def)
qed

lemma owns_pages_phys:
  assumes o: "owns_pages S m" and ph: "\<forall>a. frame a \<in> tables m \<longrightarrow> ph a = phys m a"
  shows "owns_pages S (m\<lparr>phys := ph\<rparr>)" and "vmap (m\<lparr>phys := ph\<rparr>) = vmap m"
proof -
  let ?m = "m\<lparr>phys := ph\<rparr>"
  have wf: "wf_mem m" using o by (simp add: owns_pages_def)
  note p = phys_outside [OF wf ph]
  show v: "vmap ?m = vmap m" by (rule p)
  have t: "tables (in_dir (cr3 ?m) ?m) = tables (in_dir (cr3 m) m)" using p(3) by simp
  have "own_frame (cr3 ?m) (cr3 ?m) ?m f = own_frame (cr3 m) (cr3 m) m f" for f
    unfolding own_frame_def t by simp
  then have "own_page ?m a = own_page m a" for a unfolding own_page_def v by simp
  then show "owns_pages S ?m" using o p(1) v by (simp add: owns_pages_def)
qed

lemma store_byte_ok:
  assumes o: "owns_pages S m" and v: "frame v \<in> S"
  obtains ph where "store_byte v x m = Inr (m\<lparr>phys := ph\<rparr>)" and "owns_pages S (m\<lparr>phys := ph\<rparr>)"
    and "vmap (m\<lparr>phys := ph\<rparr>) = vmap m"
    and "\<forall>u. frame u \<in> S \<longrightarrow> load_byte (m\<lparr>phys := ph\<rparr>) u = (if u = v then Inr x else load_byte m u)"
proof -
  have own: "\<exists>f. vmap m a = Some f \<and> frame f = f \<and> f \<notin> tables m" if "a \<in> S" for a
    using o that by (auto simp: owns_pages_def own_page_def own_frame_def)
  obtain f where f: "vmap m (frame v) = Some f" "frame f = f" "f \<notin> tables m" using own [OF v] by blast
  define off where "off u = (word_addr u AND 0xfff :: u32)" for u
  have off: "uint (off u) < 4096" "word_addr u = frame u + off u" for u
    using word_addr_page [of u] page_split [of "word_addr u"] by (simp_all add: off_def)
  have vw: "vmap m (word_addr v) = Some (f + off v)" using vmap_in_page [OF frame_frame off(1) f(1), of v] off(2) by simp
  let ?w = "phys m (f + off v)"
  let ?ph = "(phys m)(f + off v := with_byte (byte_idx v) x ?w)" let ?m = "m\<lparr>phys := ?ph\<rparr>"
  have "store_byte v x m = Inr ?m" using vw by (simp add: store_byte_def load_def store_def)
  moreover have t: "\<forall>a. frame a \<in> tables m \<longrightarrow> ?ph a = phys m a" using uint_in_page(2) [OF f(2) off(1)] f(3) by auto
  note p = owns_pages_phys [OF o t]
  have "load_byte ?m u = (if u = v then Inr x else load_byte m u)" if u: "frame u \<in> S" for u
  proof -
    obtain g where g: "vmap m (frame u) = Some g" "frame g = g" "g \<notin> tables m" using own [OF u] by blast
    have g': "vmap ?m (frame u) = Some g" by (simp only: p(2) g(1))
    have same: "f + off v = g + off u \<longleftrightarrow> word_addr v = word_addr u"
    proof
      assume e: "f + off v = g + off u"
      then have "f = g" "off v = off u"
        using uint_in_page(2,3) [OF f(2) off(1), of v] uint_in_page(2,3) [OF g(2) off(1), of u] by simp_all
      moreover from this have "frame u = frame v" using o u v f(1) g(1) inj_onD [of "vmap m" S "frame u" "frame v"] by (simp add: owns_pages_def)
      ultimately show "word_addr v = word_addr u" using off(2) by simp
    next
      assume e: "word_addr v = word_addr u"
      then have "frame u = frame v" using word_addr_page(1) by metis
      then show "f + off v = g + off u" using e f(1) g(1) by (simp add: off_def)
    qed
    have L: "load_byte ?m u = Inr (byte_of (?ph (g + off u)) (byte_idx u))" "load_byte m u = Inr (byte_of (phys m (g + off u)) (byte_idx u))"
      using load_byte_eq [OF g'] load_byte_eq [OF g(1)] by (simp_all add: off_def)
    show ?thesis
    proof (cases "word_addr v = word_addr u")
      case True
      then have "byte_idx v = byte_idx u \<longleftrightarrow> u = v" using byte_addr_eq_iff [of u v] by auto
      then show ?thesis using L same True byte_of_with_byte [OF byte_idx_less [of v] byte_idx_less [of u]] by auto
    next
      case False
      then show ?thesis using L same by auto
    qed
  qed
  ultimately show ?thesis using that p by blast
qed

text \<open>The bytes at distance less than \<open>length xs\<close> from the start are written, all others are kept.\<close>

lemma store_bytes_ok:
  assumes "owns_pages S m" and "\<forall>i < length xs. frame (v + of_nat i) \<in> S" and "length xs < 2 ^ 32"
  shows "\<exists>ph. store_bytes v xs m = Inr (m\<lparr>phys := ph\<rparr>) \<and> owns_pages S (m\<lparr>phys := ph\<rparr>) \<and> vmap (m\<lparr>phys := ph\<rparr>) = vmap m \<and>
    (\<forall>u. frame u \<in> S \<longrightarrow> load_byte (m\<lparr>phys := ph\<rparr>) u =
       (if unat (u - v) < length xs then Inr (xs ! unat (u - v)) else load_byte m u))"
  using assms
proof (induction xs arbitrary: v m)
  case Nil
  then show ?case by (intro exI [of _ "phys m"]) simp
next
  case (Cons x xs)
  have fr: "frame v \<in> S" using Cons.prems(2) [rule_format, of 0] by simp
  obtain ph where 1: "store_byte v x m = Inr (m\<lparr>phys := ph\<rparr>)" "owns_pages S (m\<lparr>phys := ph\<rparr>)" "vmap (m\<lparr>phys := ph\<rparr>) = vmap m"
    "\<forall>u. frame u \<in> S \<longrightarrow> load_byte (m\<lparr>phys := ph\<rparr>) u = (if u = v then Inr x else load_byte m u)"
    by (rule store_byte_ok [OF Cons.prems(1) fr])
  have "frame (v + 1 + of_nat i) \<in> S" if "i < length xs" for i
    using Cons.prems(2) [rule_format, of "Suc i"] that by (simp add: add.assoc)
  then obtain ph2 where 2: "store_bytes (v + 1) xs (m\<lparr>phys := ph\<rparr>) = Inr (m\<lparr>phys := ph2\<rparr>)" "owns_pages S (m\<lparr>phys := ph2\<rparr>)"
    "vmap (m\<lparr>phys := ph2\<rparr>) = vmap (m\<lparr>phys := ph\<rparr>)"
    "\<forall>u. frame u \<in> S \<longrightarrow> load_byte (m\<lparr>phys := ph2\<rparr>) u =
       (if unat (u - (v + 1)) < length xs then Inr (xs ! unat (u - (v + 1))) else load_byte (m\<lparr>phys := ph\<rparr>) u)"
    using Cons.IH [of "m\<lparr>phys := ph\<rparr>" "v + 1"] 1(2) Cons.prems(3) by auto
  have "load_byte (m\<lparr>phys := ph2\<rparr>) u = (if unat (u - v) < length (x # xs) then Inr ((x # xs) ! unat (u - v)) else load_byte m u)"
    if u: "frame u \<in> S" for u
  proof (cases "u = v")
    case True
    have "unat (u - (v + 1)) = 2 ^ 32 - 1" using True by (simp add: unsigned_minus_1_eq_mask mask_eq_exp_minus_1)
    then show ?thesis using True 1(4) 2(4) u Cons.prems(3) by simp
  next
    case False
    then have "unat (u - v) = Suc (unat (u - (v + 1)))" using unat_minus_one [of "u - v"] unat_gt_0 [of "u - v"] by (simp add: algebra_simps)
    then show ?thesis using False 1(4) 2(4) u by simp
  qed
  then show ?case using 1 2 by (intro exI [of _ ph2]) auto
qed

section \<open>The pages of a segment\<close>

text \<open>The position of a page in the bitmap of the process lies inside it.\<close>

definition in_pool :: "mem \<Rightarrow> u32 \<Rightarrow> bool" where
  "in_pool m a \<longleftrightarrow> unat ((a - vaddr_start (userprog_vaddr m)) div 4096) div 8 < length (bits (vaddr_bitmap (userprog_vaddr m)))"

lemma get_a_page_at:
  assumes o: "owns_pages S m" and v: "user_page v" "vmap m v = None" "in_pool m v" and en: "enough PF_USER (Suc n) m" and pd: "pgdir m \<noteq> 0"
  obtains m2 where "get_a_page PF_USER v m = Inr (v, m2)" and "owns_pages (insert v S) m2" and "enough PF_USER n m2" and "pgdir m2 = pgdir m"
    and "in_pool m2 = in_pool m" and "\<forall>u. user_page u \<and> u \<noteq> v \<longrightarrow> vmap m2 u = vmap m u"
    and "\<forall>u. frame u \<in> S \<longrightarrow> load_byte m2 u = load_byte m u"
proof -
  let ?va = "userprog_vaddr m" let ?i = "unat ((v - vaddr_start ?va) div 4096)"
  obtain b where b: "bitmap_set (vaddr_bitmap ?va) ?i 1 = Inr b" "length (bits b) = length (bits (vaddr_bitmap ?va))"
    using v(3) bitmap_set_eq [of ?i "vaddr_bitmap ?va" 1] unfolding in_pool_def by blast
  let ?m = "upd_vpool PF_USER (?va\<lparr>vaddr_bitmap := b\<rparr>) m"
  have "get_a_page PF_USER v m = get_a_page_without_opvaddrbitmap PF_USER v ?m"
  proof -
    have "upd_vpool PF_USER (?va\<lparr>vaddr_bitmap := b\<rparr>) (pool_acquire PF_USER m) = pool_acquire PF_USER ?m"
      by (cases m) (simp add: pool_acquire_def mem_lens)
    moreover have "vpool PF_USER (pool_acquire PF_USER m) = ?va" "userprog_vaddr (pool_acquire PF_USER m) = ?va" "pgdir (pool_acquire PF_USER m) = pgdir m"
      "mem_pool PF_USER (pool_acquire PF_USER ?m) = mem_pool PF_USER (pool_acquire PF_USER m)"
      by (simp_all add: pool_acquire_def mem_lens)
    ultimately show ?thesis using b(1) pd by (simp add: get_a_page_def get_a_page_without_opvaddrbitmap_def Let_def cong: if_cong)
  qed
  have u: "ordinary v" "frame v = v" using v(1) by (simp_all add: user_page_def)
  have wf: "wf_mem ?m" "vmap ?m v = None" "enough PF_USER (Suc n) ?m" using o v(2) en by (simp_all add: owns_pages_def)
  obtain f m2 where r: "get_a_page_without_opvaddrbitmap PF_USER v ?m = Inr (v, m2)" "wf_mem m2" "cr3 m2 = cr3 ?m"
    "f \<in> free_frames (user_pool ?m)" "f \<notin> tables m2"
    "\<forall>u. ordinary u \<longrightarrow> vmap m2 u = (if frame u = v then Some (f + (u AND 0xfff)) else vmap ?m u)"
    "free_frames (kernel_pool m2) = free_frames (kernel_pool ?m) - {f} - tables m2"
    "free_frames (user_pool m2) = free_frames (user_pool ?m) - {f} - tables m2"
    "tables m2 \<subseteq> tables ?m \<union> free_frames (kernel_pool ?m)" "enough PF_USER n m2"
    "\<forall>a. frame a \<notin> tables m2 \<longrightarrow> phys m2 a = phys ?m a" "\<forall>u. PDE_IDX u \<noteq> PDE_IDX v \<longrightarrow> pde m2 u = pde ?m u"
    "\<forall>a. frame a \<noteq> cr3 ?m \<and> frame a \<noteq> frame (pde m2 v) \<longrightarrow> phys m2 a = phys ?m a"
    "frame (pde m2 v) \<in> free_frames (kernel_pool ?m) \<or> present (pde ?m v) \<and> pde m2 v = pde ?m v"
    "pgdir m2 = pgdir ?m" "userprog_vaddr m2 = userprog_vaddr ?m"
    by (rule get_page_at [OF wf(1) u wf(2,3)])
  have pools: "kernel_pool ?m = kernel_pool m" "user_pool ?m = user_pool m" by (simp_all add: upd_vpool_def)
  have get: "get_a_page PF_USER v m = Inr (v, m2)" using \<open>get_a_page PF_USER v m = _\<close> r(1) by simp
  have ff: "frame f = f" using r(4) free_frames_props [of "user_pool m" f] o pools by (simp add: owns_pages_def wf_mem_def)
  have keep: "vmap m2 w = vmap m w" if "user_page w" "w \<noteq> v" for w
    using r(6) that by (simp add: user_page_def)
  have new: "vmap m2 v = Some f" using r(6) u uint_in_page(3) [OF u(2), of 0] by simp
  have own: "own_frame (cr3 m2) (cr3 m2) m2 g \<and> g \<noteq> f" if "own_frame (cr3 m) (cr3 m) m g" for g
    using that r(4,7-9) pools by (auto simp: own_frame_def)
  have fo: "own_frame (cr3 m2) (cr3 m2) m2 f" using r(5,7,8) ff by (simp add: own_frame_def)
  have S: "user_page a" "\<exists>g. vmap m a = Some g \<and> own_frame (cr3 m) (cr3 m) m g" "a \<noteq> v" if "a \<in> S" for a
    using o that v(2) by (auto simp: owns_pages_def own_page_def)
  have ne: "vmap m a \<noteq> Some f" if "a \<in> S" for a using S(2) [OF that] own [of f] by auto
  have inj: "inj_on (vmap m2) (insert v S)"
  proof (subst inj_on_insert, intro conjI)
    have "inj_on (vmap m) S" using o by (simp add: owns_pages_def)
    then show "inj_on (vmap m2) S" using S(1,3) keep by (simp add: inj_on_def)
    show "vmap m2 v \<notin> vmap m2 ` (S - {v})" using S(1,3) keep ne new by fastforce
  qed
  have "owns_pages (insert v S) m2"
    unfolding owns_pages_def own_page_def using r(2) v(1) new fo inj S keep own by fastforce
  moreover have "load_byte m2 w = load_byte m w" if w: "frame w \<in> S" for w
  proof -
    obtain g where g: "vmap m (frame w) = Some g" "own_frame (cr3 m) (cr3 m) m g" using S(2) [OF w] by blast
    have g2: "vmap m2 (frame w) = Some g" using keep S(1,3) w g(1) by simp
    have "frame (g + (word_addr w AND 0xfff)) = g" using uint_in_page(2) [OF _ word_addr_page(2)] g(2) by (simp add: own_frame_def)
    then have "phys m2 (g + (word_addr w AND 0xfff)) = phys m (g + (word_addr w AND 0xfff))"
      using r(11) own [OF g(2)] by (simp add: own_frame_def)
    then show ?thesis using load_byte_eq [OF g(1)] load_byte_eq [OF g2] by simp
  qed
  moreover have "pgdir m2 = pgdir m" "in_pool m2 = in_pool m"
    using r(15,16) b(2) by (simp_all add: fun_eq_iff in_pool_def upd_vpool_def)
  ultimately show ?thesis using that [OF get] r(10) keep by blast
qed

text \<open>The test of the loop: a page is missing exactly when it is not mapped.\<close>

lemma page_missing:
  assumes "wf_mem m"
  shows "bindR (load m (pde_ptr v)) (\<lambda>pde. bindR (if pde AND 1 = 0 then Inr True else mapR (\<lambda>pte. pte AND 1 = 0) (load m (pte_ptr v))) c) =
    c (vmap m v = None)"
proof -
  have wt: "wf_tables m" using assms by (simp add: wf_mem_def)
  show ?thesis
  proof (cases "present (pde m v)")
    case True
    have "load m (pte_ptr v) = Inr (phys m (pte_cell m v))" by (rule load_pte [OF wt True])
    then show ?thesis using True unfolding load_pde [OF wt] vmap_eq [of m v] by (simp add: present_def)
  next
    case False
    then show ?thesis unfolding load_pde [OF wt] vmap_eq [of m v] by (simp add: present_def)
  qed
qed

lemma seg_pages_ok:
  assumes "owns_pages S m" and "frame v = v" and "0x400000 \<le> unat v" and "unat v + n * 4096 \<le> 0xc0000000"
    and "\<forall>i < n. in_pool m (pg v i) \<and> (vmap m (pg v i) \<noteq> None \<longrightarrow> pg v i \<in> S)" and "enough PF_USER n m" and "pgdir m \<noteq> 0"
  shows "\<exists>m'. seg_pages n v m = Inr (True, m') \<and> owns_pages (S \<union> pg v ` {..<n}) m' \<and>
    (\<forall>u. frame u \<in> S \<longrightarrow> load_byte m' u = load_byte m u)"
  using assms
proof (induction n arbitrary: v S m)
  case (Suc n)
  have up: "user_page (pg v i)" if "i < Suc n" for i
    using that Suc.prems(2-4) ordinary_pg [of v "Suc n" i] frame_pg [of v i] unat_pg [of v i]
    by (simp add: user_page_def word_less_nat_alt)
  have ne: "pg v (Suc i) \<noteq> v" if "i < n" for i
    using unat_pg [of v "Suc i"] that Suc.prems(4) by (auto simp: word_unat_eq_iff)
  have img: "insert v S \<union> pg (v + 4096) ` {..<n} = S \<union> pg v ` {..<Suc n}"
    by (auto simp: lessThan_Suc_eq_insert_0 pg_Suc image_image)
  have v': "frame (v + 4096) = v + 4096" "0x400000 \<le> unat (v + 4096)" "n \<noteq> 0 \<Longrightarrow> unat (v + 4096) + n * 4096 \<le> 0xc0000000"
    using frame_pg [OF Suc.prems(2), of 1] unat_pg [of v 1] Suc.prems(3,4) by (simp_all add: pg_def)
  have wf: "wf_mem m" using Suc.prems(1) by (simp add: owns_pages_def)
  have "v \<in> pg v ` {..<Suc n}" by (rule image_eqI [of _ _ 0]) simp_all
  have step: "\<exists>m2. seg_pages (Suc n) v m = seg_pages n (v + 4096) m2 \<and> owns_pages (insert v S) m2 \<and> enough PF_USER n m2 \<and> pgdir m2 = pgdir m \<and>
      in_pool m2 = in_pool m \<and> (\<forall>u. user_page u \<and> u \<noteq> v \<longrightarrow> vmap m2 u = vmap m u) \<and> (\<forall>u. frame u \<in> S \<longrightarrow> load_byte m2 u = load_byte m u)"
  proof (cases "vmap m v = None")
    case True
    have "in_pool m v" using Suc.prems(5) [rule_format, of 0] by simp
    from get_a_page_at [OF Suc.prems(1) up [of 0, simplified] True this Suc.prems(6,7)]
    obtain m2 where "get_a_page PF_USER v m = Inr (v, m2)" "owns_pages (insert v S) m2" "enough PF_USER n m2" "pgdir m2 = pgdir m"
      "in_pool m2 = in_pool m" "\<forall>u. user_page u \<and> u \<noteq> v \<longrightarrow> vmap m2 u = vmap m u" "\<forall>u. frame u \<in> S \<longrightarrow> load_byte m2 u = load_byte m u"
      by metis
    moreover have "v \<noteq> 0" using Suc.prems(3) by auto
    ultimately show ?thesis using True unfolding seg_pages.simps page_missing [OF wf] by (intro exI [of _ m2]) simp
  next
    case False
    then obtain f where f: "vmap m v = Some f" by blast
    from False have "insert v S = S" using Suc.prems(5) [rule_format, of 0] by auto
    then show ?thesis using f Suc.prems(1,6) unfolding seg_pages.simps page_missing [OF wf]
      by (intro exI [of _ m]) (simp add: enough_def)
  qed
  then obtain m2 where m2: "seg_pages (Suc n) v m = seg_pages n (v + 4096) m2" "owns_pages (insert v S) m2" "enough PF_USER n m2" "pgdir m2 = pgdir m"
    "in_pool m2 = in_pool m" "\<forall>u. user_page u \<and> u \<noteq> v \<longrightarrow> vmap m2 u = vmap m u" "\<forall>u. frame u \<in> S \<longrightarrow> load_byte m2 u = load_byte m u" by blast
  show ?case
  proof (cases "n = 0")
    case True
    then show ?thesis using m2 by (intro exI [of _ m2]) (simp add: lessThan_Suc)
  next
    case False
    have "in_pool m2 (pg (v + 4096) i) \<and> (vmap m2 (pg (v + 4096) i) \<noteq> None \<longrightarrow> pg (v + 4096) i \<in> insert v S)" if "i < n" for i
      using Suc.prems(5) [rule_format, of "Suc i"] up [of "Suc i"] ne [OF that] m2(5,6) that by (auto simp: pg_Suc)
    then obtain m' where "seg_pages n (v + 4096) m2 = Inr (True, m')" "owns_pages (insert v S \<union> pg (v + 4096) ` {..<n}) m'"
      "\<forall>u. frame u \<in> insert v S \<longrightarrow> load_byte m' u = load_byte m2 u"
      using Suc.IH [OF m2(2) v'(1,2) v'(3) [OF False] _ m2(3)] m2(4) Suc.prems(7) by auto
    then show ?thesis using m2(1,7) img by (intro exI [of _ m']) simp
  qed
qed simp

section \<open>The pages cover the segment\<close>

lemma unat_page: "unat (v AND 0xfff :: u32) = unat v mod 4096" "unat (frame v) = unat v - unat v mod 4096"
proof -
  show "unat (v AND 0xfff) = unat v mod 4096"
    using uint_and_fff [of v] by (simp only: unat_eq_nat_uint nat_mod_distrib uint_ge_0 zero_le_numeral) simp
  have "int (unat (frame v)) = int (unat v - unat v mod 4096)" by (simp add: uint_frame of_nat_diff zmod_int)
  then show "unat (frame v) = unat v - unat v mod 4096" by (simp only: of_nat_eq_iff)
qed

lemma occupy_pages_eq:
  assumes "0 < filesz" and "unat vaddr + unat filesz \<le> 0xc0000000"
  shows "unat (occupy_pages filesz vaddr) = (unat vaddr mod 4096 + unat filesz + 4095) div 4096"
proof -
  let ?a = "unat vaddr mod 4096" let ?f = "unat filesz" let ?s = "4096 - (vaddr AND 0xfff)"
  have a: "?a < 4096" by simp
  have s: "unat ?s = 4096 - ?a" using unat_page(1) [of vaddr] a by (simp add: unat_sub word_le_nat_alt)
  have f: "0 < ?f" using assms(1) by (simp add: word_less_nat_alt)
  show ?thesis
  proof (cases "?s < filesz")
    case True
    then have lt: "4096 - ?a < ?f" using s by (simp add: word_less_nat_alt)
    have l: "unat (filesz - ?s) = ?f - (4096 - ?a)" using True s by (simp add: unat_sub)
    have "unat (filesz - ?s + 4096 - 1) = ?f - (4096 - ?a) + 4095"
    proof -
      have "filesz - ?s + 4096 - 1 = filesz - ?s + 4095" by simp
      then show ?thesis using l assms(2) by (simp only: unat_word_ariths) simp
    qed
    then have "unat ((filesz - ?s + 4096 - 1) div 4096 + 1) = (?f - (4096 - ?a) + 4095) div 4096 + 1"
      using assms(2) by (simp add: unat_word_ariths unat_div)
    also have "\<dots> = (?f - (4096 - ?a) + 4095 + 4096) div 4096" by simp
    also have "?f - (4096 - ?a) + 4095 + 4096 = ?a + ?f + 4095" using lt a by simp
    finally show ?thesis using True by (simp add: occupy_pages_def Let_def)
  next
    case False
    then have "?a + ?f \<le> 4096" using s a by (simp add: word_less_nat_alt)
    then have "(?a + ?f + 4095) div 4096 = 1" using f by (intro div_nat_eqI) simp_all
    then show ?thesis using False by (simp add: occupy_pages_def Let_def)
  qed
qed

lemma segment_covered:
  assumes "0 < filesz" and "unat vaddr + unat filesz \<le> 0xc0000000" and n: "n = unat (occupy_pages filesz vaddr)"
  shows "unat (frame vaddr) + n * 4096 \<le> 0xc0000000"
    and "i < unat filesz \<Longrightarrow> frame (vaddr + of_nat i) \<in> pg (frame vaddr) ` {..<n}"
proof -
  let ?a = "unat vaddr mod 4096" let ?f = "unat filesz" let ?q = "unat vaddr div 4096"
  have n: "n = (?a + ?f + 4095) div 4096" using occupy_pages_eq [OF assms(1,2)] n by simp
  have v: "unat vaddr = ?q * 4096 + ?a" "unat (frame vaddr) = ?q * 4096" using unat_page(2) [of vaddr] by (simp_all add: minus_mod_eq_div_mult)
  have "?q * 4096 + n * 4096 < 0xc0000000 + 4096" using v(1) n assms(2) by linarith
  then have "?q + n \<le> 0xc0000" by linarith
  then show b: "unat (frame vaddr) + n * 4096 \<le> 0xc0000000" using v(2) by linarith
  assume i: "i < unat filesz"
  let ?j = "(?a + i) div 4096"
  have j: "?j < n" using i unfolding n by (simp add: less_eq_Suc_le flip: Suc_eq_plus1)
  have u: "unat (vaddr + of_nat i) = unat vaddr + i" using i assms(2) by (simp add: unat_word_ariths unat_of_nat)
  have "unat vaddr + i = ?a + i + ?q * 4096" using v(1) by simp
  then have "(unat vaddr + i) div 4096 = ?q + ?j" by (simp only: div_mult_self1 zero_neq_numeral not_False_eq_True)
  then have "unat (vaddr + of_nat i) - unat (vaddr + of_nat i) mod 4096 = ?q * 4096 + ?j * 4096"
    unfolding u minus_mod_eq_div_mult by (simp add: add_mult_distrib)
  moreover have "unat (pg (frame vaddr) ?j) = ?q * 4096 + ?j * 4096" using unat_pg [of "frame vaddr" ?j] v(2) b j by simp
  ultimately have "frame (vaddr + of_nat i) = pg (frame vaddr) ?j" using unat_page(2) [of "vaddr + of_nat i"] by (simp add: word_unat_eq_iff)
  then show "frame (vaddr + of_nat i) \<in> pg (frame vaddr) ` {..<n}" using j by blast
qed

section \<open>Reading the file\<close>

text \<open>An open file that can be read from: descriptor \<open>fd\<close> of the process is slot \<open>idx\<close> of the file table and names the
  inode \<open>i\<close>.\<close>

definition open_file :: "int \<Rightarrow> nat \<Rightarrow> inode \<Rightarrow> fsys \<Rightarrow> bool" where
  "open_file fd idx i fs \<longleftrightarrow> 2 < fd \<and> fd_local2global fd fs = Inr idx \<and> idx < length (file_table fs) \<and>
     fd_flag (file_table fs ! idx) \<noteq> PIPE_FLAG \<and> fd_inode (file_table fs ! idx) = InodeAt (i_no i) \<and> the_inode (i_no i) fs = Inr i \<and>
     wf_fs fs \<and> file_ok fs i \<and> mallocs fs = []"

lemma file_ok_size: "file_ok fs i \<Longrightarrow> unat (i_size i) < 71680"
proof -
  assume f: "file_ok fs i"
  show ?thesis
  proof (cases "i_sectors i ! 0 = 0")
    case False
    then have "unat (i_size i) div 512 + 1 \<le> 140" using f by (simp add: file_ok_def nblk_def file_blks_def)
    then show ?thesis by linarith
  qed (use f in \<open>simp add: file_ok_def\<close>)
qed

lemma seek_read:
  assumes o: "open_file fd idx i fs" and off: "0 < count" "unat offset + unat count \<le> unat (i_size i)" "unat offset + unat count < 71168"
  obtains fs1 where "sys_lseek fd offset 1 fs = Inr (sint offset, fs1)"
    and "\<And>k. kfs k = fs1 \<Longrightarrow> sys_read fd count k = Inr (Some (int (unat count)), take (unat count) (drop (unat offset) (file_bytes fs i)),
           k\<lparr>kfs := upd_file idx (\<lambda>f. f\<lparr>fd_pos := offset + count\<rparr>) fs1\<rparr>)"
proof -
  let ?fs = "upd_file idx (\<lambda>f. f\<lparr>fd_pos := offset\<rparr>) fs"
  have sz: "unat (i_size i) < 2 ^ 31" using file_ok_size [of fs i] o by (simp add: open_file_def)
  have c: "0 < unat count" using off(1) by (simp add: word_less_nat_alt)
  have lt: "offset < i_size i" using off(2) c by (simp add: word_less_nat_alt)
  have s1: "unat (i_size i - 1) = unat (i_size i) - 1" using off(2) c by (intro unat_minus_one) auto
  have sint: "sint w = int (unat w)" if "unat w < 2 ^ 31" for w :: u32
  proof -
    have "int (unat w) < int (2 ^ 31)" using that by (simp only: of_nat_less_iff)
    then show ?thesis by (simp add: sint_u32)
  qed
  have "sint offset = int (unat offset)" "sint (i_size i - 1) = int (unat (i_size i) - 1)"
    using sint [of offset] sint [of "i_size i - 1"] s1 sz off(2) by simp_all
  then have "\<not> (sint offset < 0 \<or> sint offset > sint (i_size i - 1))" using off(2) c by (simp only: of_nat_less_iff) linarith
  then have seek: "sys_lseek fd offset 1 fs = Inr (sint offset, ?fs)"
    using o by (simp add: sys_lseek_def open_file_def file_inode_def)
  have u: "unat (of_nat (unat count) :: u32) = unat count" by simp
  have r: "fs_rest fs ?fs" by simp
  have wf: "wf_fs ?fs" using o by (intro wf_fs_cong [OF _ r]) (auto simp: open_file_def dest: wf_fsD(9))
  have "file_blks ?fs i n = file_blks fs i n" for n by (simp add: file_blks_def blk_bit_def)
  then have fo: "file_ok ?fs i" using o by (simp add: open_file_def file_ok_def)
  have fb: "file_bytes ?fs i = file_bytes fs i" by (simp add: file_bytes_def)
  have n: "unat count = min (unat count) (unat (i_size i) - unat offset)" "unat offset + unat count < 2 ^ 32" using off(2,3) by simp_all
  have ino: "the_inode (i_no i) ?fs = Inr i" using o by (simp add: open_file_def the_inode_def)
  have "file_read idx count ?fs = Inr (int (unat count), take (unat count) (drop (unat offset) (file_bytes ?fs i)),
      upd_file idx (\<lambda>f. f\<lparr>fd_pos := offset + of_nat (unat count)\<rparr>) ?fs)"
    using o lt by (intro file_read_ok [OF wf _ _ ino fo _ _ _ n off(3)]) (simp_all add: open_file_def)
  moreover have "fd_local2global fd ?fs = Inr idx" using o by (simp add: open_file_def fd_local2global_def)
  moreover have "fd_flag (file_table ?fs ! idx) \<noteq> PIPE_FLAG" using o by (simp add: open_file_def)
  ultimately have "sys_read fd count k = Inr (Some (int (unat count)), take (unat count) (drop (unat offset) (file_bytes fs i)),
           k\<lparr>kfs := upd_file idx (\<lambda>f. f\<lparr>fd_pos := offset + count\<rparr>) ?fs\<rparr>)" if "kfs k = ?fs" for k
    using o that fb by (simp add: sys_read_def is_pipe_def open_file_def)
  with seek show ?thesis using that by blast
qed

section \<open>Loading a segment\<close>


section \<open>A sample process\<close>

text \<open>The parent of the example of \<^verbatim>\<open>fork\<close> with a pool that starts one page earlier; the file of ten zero bytes is loaded
  two bytes before the mapped page.\<close>

definition exec_mem :: mem where
  "exec_mem = fork_mem\<lparr>pgdir := 0xc0100000,
     userprog_vaddr := \<lparr>vaddr_bitmap = \<lparr>btmp_bytes_len = 1, bits = [2]\<rparr>, vaddr_start = 0x8047000\<rparr>\<rparr>"

definition exec_kio :: kio where
  "exec_kio = \<lparr>kfs = (sample_open 3 sample_inode)\<lparr>cur_fds := [0, 1, 2, 3, -1, -1, -1, -1]\<rparr>,
     kth = sample_threads\<lparr>tmem := exec_mem\<rparr>, queues = (\<lambda>_. zero_ioq), kbd_buf = 0xc0300000, screen = []\<rparr>"

lemma exec_owns: "owns_pages {0x8048000} exec_mem" "vmap exec_mem 0x8048000 = Some 0x105000" "phys exec_mem = fork_phys"
proof -
  have c: "cr3 fork_mem = 0x100000" "in_dir 0x100000 fork_mem = fork_mem" using in_dir_simps(6) [of fork_mem] by (simp_all add: fork_mem_def sample_mem_def)
  have m: "cr3 exec_mem = 0x100000" "phys exec_mem = fork_phys" "kernel_pool exec_mem = kernel_pool fork_mem" "user_pool exec_mem = user_pool fork_mem"
    by (simp_all add: exec_mem_def fork_mem_def sample_mem_def)
  have i: "in_dir 0x100000 exec_mem = exec_mem" using in_dir_simps(6) [of exec_mem] m(1) by simp
  have pd: "pde exec_mem = pde fork_mem" using m c by (simp add: fun_eq_iff pde_def fork_mem_def)
  then have t: "tables exec_mem = tables fork_mem" by (simp add: tables_def)
  have "wf_tables exec_mem = wf_tables fork_mem" unfolding wf_tables_def pd t using m c by (simp add: fork_mem_def)
  then have wf: "wf_mem exec_mem" using fork_wf(1) unfolding wf_mem_def t m c by simp
  show v: "vmap exec_mem 0x8048000 = Some 0x105000"
    by (simp add: m mmu_def fork_phys_def PDE_IDX_def PTE_IDX_def frame_def present_def)
  have "own_frame 0x100000 0x100000 exec_mem 0x105000" using fork_own [of "0x105000"] unfolding own_frame_def i c t m by simp
  then show "owns_pages {0x8048000} exec_mem"
    using wf v m(1) by (simp add: owns_pages_def own_page_def user_page_def ordinary_def window_def PDE_IDX_def frame_def)
  show "phys exec_mem = fork_phys" by (rule m)
qed

lemma exec_open_file: "open_file 3 3 sample_inode (kfs exec_kio)"
proof -
  have k: "kfs exec_kio = (sample_open 3 sample_inode)\<lparr>cur_fds := [0, 1, 2, 3, -1, -1, -1, -1]\<rparr>" by (simp add: exec_kio_def)
  have "wf_fs (kfs exec_kio)" using sample_open_wf [of 3 sample_inode] sample_file_ok unfolding k by (simp add: wf_fs_def wf_disk_def)
  moreover have "file_ok (kfs exec_kio) sample_inode" using sample_file_ok unfolding k by (simp add: file_ok_def file_blks_def blk_bit_def)
  ultimately show ?thesis using sample_open_fields [where b = 3 and i = sample_inode]
    by (simp add: open_file_def k fd_local2global_def byte_at_def PIPE_FLAG_def the_inode_def)
qed


end
