(* ===== verification/Wait_Exit.thy ===== *)
theory Wait_Exit
  imports Pipe
begin

text \<open>
  Model of \<^verbatim>\<open>userprog/wait_exit.c\<close>: the release of what a process owns, \<^verbatim>\<open>sys_exit\<close> and \<^verbatim>\<open>sys_wait\<close>. The list
  of all threads is searched with the callbacks of the source. \<^verbatim>\<open>sys_wait\<close> is one round of its loop:
  when the parent blocks, the next round is what it does when it runs again. The address of the
  bitmap of the process's virtual pool is an argument, as the model of the pool keeps only the bits.
\<close>

section \<open>Releasing the resources of a process\<close>

text \<open>The inner loop: the frames behind the entries of one page table.\<close>

fun free_ptes :: "nat \<Rightarrow> nat \<Rightarrow> u32 \<Rightarrow> mem \<Rightarrow> mem result" where
  "free_ptes pte_idx 0 first_pte m = Inr m"
| "free_ptes pte_idx (Suc n) first_pte m =
     bindR (load m (first_pte + 4 * of_nat pte_idx)) (\<lambda>pte.
     bindR (if pte AND 1 \<noteq> 0 then free_a_phy_page (pte AND 0xfffff000) m else Inr m)
       (free_ptes (Suc pte_idx) n first_pte))"

text \<open>The outer loop: the page tables of the user part of the directory, and the tables themselves.\<close>

fun free_pdes :: "nat \<Rightarrow> nat \<Rightarrow> u32 \<Rightarrow> mem \<Rightarrow> mem result" where
  "free_pdes pde_idx 0 pgdir_vaddr m = Inr m"
| "free_pdes pde_idx (Suc n) pgdir_vaddr m =
     bindR (load m (pgdir_vaddr + 4 * of_nat pde_idx)) (\<lambda>pde.
     bindR (if pde AND 1 \<noteq> 0 then
              bindR (free_ptes 0 1024 (pte_ptr (of_nat pde_idx * 0x400000)) m)
                (free_a_phy_page (pde AND 0xfffff000))
            else Inr m)
       (free_pdes (Suc pde_idx) n pgdir_vaddr))"

text \<open>One open descriptor; a pipe is released when its last end goes.\<close>

definition close_fd :: "nat \<Rightarrow> kio \<Rightarrow> kio result" where
  "close_fd local_fd k =
     bindR (byte_at (cur_fds (kfs k)) local_fd) (\<lambda>g.
     if g \<noteq> -1 then
       bindR (is_pipe (int local_fd) k) (\<lambda>p.
       if p then
         bindR (fd_local2global (int local_fd) (kfs k)) (\<lambda>global_fd.
         let pos = fd_pos (file_table (kfs k) ! global_fd) - 1; k = upd_slot global_fd (\<lambda>f. f\<lparr>fd_pos := pos\<rparr>) k in
         if pos = 0 then
           bindR (pipe_at global_fd k) (\<lambda>a.
           mapR (\<lambda>m. upd_slot global_fd (\<lambda>f. f\<lparr>fd_inode := NoInode\<rparr>) (k\<lparr>kth := (kth k)\<lparr>tmem := m\<rparr>\<rparr>))
             (mfree_page PF_KERNEL a 1 (tmem (kth k))))
         else Inr k)
       else mapR snd (sys_close (int local_fd) k))
     else Inr k)"

fun close_fds :: "nat \<Rightarrow> nat \<Rightarrow> kio \<Rightarrow> kio result" where
  "close_fds local_fd 0 k = Inr k"
| "close_fds local_fd (Suc n) k = bindR (close_fd local_fd k) (close_fds (Suc local_fd) n)"

definition release_prog_resource :: "u32 \<Rightarrow> task_struct \<Rightarrow> kio \<Rightarrow> kio result" where
  "release_prog_resource bits_addr release_thread k =
     bindR (free_pdes 0 768 (tpgdir release_thread) (tmem (kth k))) (\<lambda>m.
     let bitmap_pg_cnt = btmp_bytes_len (vaddr_bitmap (userprog_vaddr m)) div 4096
     in bindR (mfree_page PF_KERNEL bits_addr bitmap_pg_cnt m) (\<lambda>m.
        close_fds 3 5 (k\<lparr>kth := (kth k)\<lparr>tmem := m\<rparr>\<rparr>)))"

section \<open>Parents and children\<close>

definition find_child :: "int \<Rightarrow> task_struct \<Rightarrow> bool" where
  "find_child ppid k \<longleftrightarrow> parent_pid k = ppid"

definition find_hanging_child :: "int \<Rightarrow> task_struct \<Rightarrow> bool" where
  "find_hanging_child ppid k \<longleftrightarrow> parent_pid k = ppid \<and> status k = TASK_HANGING"

definition init_adopt_a_child :: "int \<Rightarrow> task_struct \<Rightarrow> task_struct" where
  "init_adopt_a_child p k = (if parent_pid k = p then k\<lparr>parent_pid := 1\<rparr> else k)"

fun find_thread :: "(task_struct \<Rightarrow> bool) \<Rightarrow> kthreads \<Rightarrow> u32 list \<Rightarrow> u32 option result" where
  "find_thread f s [] = Inr None"
| "find_thread f s (t # ts) = bindR (task t s) (\<lambda>k. if f k then Inr (Some t) else find_thread f s ts)"

text \<open>The callback that never stops the traversal: it visits every thread.\<close>

definition adopt_children :: "int \<Rightarrow> kthreads \<Rightarrow> kthreads" where
  "adopt_children p s = fold (\<lambda>t. upd_task t (init_adopt_a_child p)) (thread_all_list s) s"

section \<open>Exit\<close>

text \<open>The end of \<^verbatim>\<open>sys_exit\<close>: wake a parent that waits, then hang until it reads the status.\<close>

definition exit_notify :: "kthreads \<Rightarrow> kthreads result" where
  "exit_notify s =
     bindR (task (running_thread s) s) (\<lambda>child_thread.
     bindR (pid2thread (parent_pid child_thread) s) (\<lambda>parent_thread.
     bindR (task parent_thread s) (\<lambda>k.
     bindR (if status k = TASK_WAITING then thread_unblock parent_thread s else Inr s)
       (thread_block TASK_HANGING))))"

definition sys_exit :: "u32 \<Rightarrow> int \<Rightarrow> kio \<Rightarrow> kio result" where
  "sys_exit bits_addr stat k =
     (let c = running_thread (kth k);
          s = upd_task c (\<lambda>t. t\<lparr>exit_status := sint (word_of_int stat :: u8)\<rparr>) (kth k)
      in bindR (task c s) (\<lambda>child_thread.
         if parent_pid child_thread = -1 then Inl (KPanic ''sys_exit: child_thread->parent_pid is -1'')
         else
           bindR (release_prog_resource bits_addr child_thread (k\<lparr>kth := adopt_children (pid child_thread) s\<rparr>)) (\<lambda>k.
           mapR (\<lambda>s. k\<lparr>kth := s\<rparr>) (exit_notify (kth k)))))"

section \<open>Wait\<close>

datatype wait_result =
    Reaped int int   \<comment> \<open>pid and exit status of the child\<close>
  | NoChild          \<comment> \<open>\<^verbatim>\<open>-1\<close>\<close>
  | Waits            \<comment> \<open>blocked; the loop continues when the parent runs again\<close>

definition sys_wait :: "kthreads \<Rightarrow> (wait_result \<times> kthreads) result" where
  "sys_wait s =
     bindR (task (running_thread s) s) (\<lambda>parent_thread.
     bindR (find_thread (find_hanging_child (pid parent_thread)) s (thread_all_list s)) (\<lambda>child_elem.
     case child_elem of
       Some c \<Rightarrow>
         bindR (task c s) (\<lambda>child_thread.
         mapR (\<lambda>s. (Reaped (pid child_thread) (exit_status child_thread), s)) (thread_exit c False s))
     | None \<Rightarrow>
         bindR (find_thread (find_child (pid parent_thread)) s (thread_all_list s)) (\<lambda>child_elem.
         case child_elem of
           None \<Rightarrow> Inr (NoChild, s)
         | Some _ \<Rightarrow> mapR (\<lambda>s. (Waits, s)) (thread_block TASK_WAITING s))))"

end
