(* ===== verification/Exit_Props.thy ===== *)
theory Exit_Props
  imports Wait_Exit Kernel_Run
begin

text \<open>
  Properties of \<^verbatim>\<open>userprog/wait_exit.c\<close>: what \<^verbatim>\<open>sys_wait\<close> does for each situation of the children, and the
  handshake between \<^verbatim>\<open>sys_exit\<close> and a waiting parent, on top of the invariant of the running kernel.
\<close>

section \<open>Searching the list of all threads\<close>

lemma find_thread_eq:
  "\<forall>t \<in> set ts. tasks s t \<noteq> None \<Longrightarrow> find_thread f s ts = Inr (find (\<lambda>t. f (the (tasks s t))) ts)"
  by (induction ts) (auto simp: task_def)

lemma find_thread_all:
  assumes "life_inv s"
  shows "find_thread f s (thread_all_list s) = Inr (find (\<lambda>t. f (the (tasks s t))) (thread_all_list s))"
  using life_invD(3) [OF assms] by (intro find_thread_eq) auto

lemma find_all_None:
  assumes "life_inv s"
  shows "find (\<lambda>t. f (the (tasks s t))) (thread_all_list s) = None \<longleftrightarrow> (\<forall>t k. tasks s t = Some k \<longrightarrow> \<not> f k)"
  using life_invD(3) [OF assms] by (fastforce simp: find_None_iff)

lemma find_all_Some:
  assumes "life_inv s" and "find (\<lambda>t. f (the (tasks s t))) (thread_all_list s) = Some c"
  obtains k where "tasks s c = Some k" and "f k"
proof -
  have "c \<in> set (thread_all_list s)" "f (the (tasks s c))" using assms(2) by (auto simp: find_Some_iff)
  then show ?thesis using life_invD(3) [OF assms(1)] that by auto
qed

lemma pid_gone:
  assumes "life_inv s" and "tasks s c = Some k" and "tasks s' = (tasks s)(c := None)"
  shows "pid_of s' t \<noteq> Some (pid k)"
  using pids_okD(5) [OF life_invD(1) [OF assms(1)], of t "pid k" c] assms(2,3) by (auto simp: pid_of_def split: if_splits)

text \<open>A thread that can be removed once it hangs: not the main thread, and not the holder of a lock.\<close>

definition removable :: "kthreads \<Rightarrow> u32 \<Rightarrow> bool" where
  "removable s c \<longleftrightarrow> c \<noteq> main_thread s \<and> (\<forall>l. holder (locks s l) \<noteq> c)"

text \<open>What reaping a child leaves behind.\<close>

definition reaped :: "kthreads \<Rightarrow> u32 \<Rightarrow> task_struct \<Rightarrow> kthreads \<Rightarrow> bool" where
  "reaped s c k s' \<longleftrightarrow> kinv s' \<and> tasks s' = (tasks s)(c := None) \<and> running_thread s' = running_thread s \<and>
     thread_ready_list s' = thread_ready_list s \<and> (\<forall>t. pid_of s' t \<noteq> Some (pid k))"

lemma sys_wait_reaps:
  assumes i: "kinv s" and me: "tasks s (running_thread s) = Some me"
    and f: "find (\<lambda>t. find_hanging_child (pid me) (the (tasks s t))) (thread_all_list s) = Some c"
    and k: "tasks s c = Some k" and r: "removable s c"
  obtains s' where "sys_wait s = Inr (Reaped (pid k) (exit_status k), s')" and "reaped s c k s'"
proof -
  have inv: "sched_inv s" "linv s" "life_inv s" using i by (simp_all add: kinv_def)
  have h: "st s c = Some TASK_HANGING" using find_all_Some [OF inv(3) f] k by (auto simp: find_hanging_child_def st_def)
  obtain s' where s': "thread_exit c False s = Inr s'" "sched_inv s'" "linv s'" "life_inv s'" "tasks s' = (tasks s)(c := None)"
    "thread_ready_list s' = thread_ready_list s" "running_thread s' = running_thread s"
    by (rule thread_exit_ok [OF inv h]) (use r in \<open>auto simp: removable_def\<close>)
  have "sys_wait s = Inr (Reaped (pid k) (exit_status k), s')"
    using me k s'(1) f by (simp add: sys_wait_def task_def find_thread_all [OF inv(3)])
  moreover have "reaped s c k s'" using s' pid_gone [OF inv(3) k s'(5)] by (simp add: reaped_def kinv_def)
  ultimately show ?thesis using that by blast
qed

section \<open>Properties\<close>


section \<open>The handshake\<close>

lemma pid2thread_parent:
  assumes "life_inv s" and "tasks s p = Some k"
  shows "pid2thread (pid k) s = Inr p"
proof -
  have p: "pid_of s p = Some (pid k)" using assms(2) by (simp add: pid_of_def)
  show ?thesis
    unfolding pid2thread_def
    by (rule pid_search_ok [OF _ _ p])
       (use life_invD(3) [OF assms(1)] assms(2) pids_okD(5) [OF life_invD(1) [OF assms(1)] _ p] in auto)
qed

lemma exit_notify_ok:
  assumes i: "kinv s" and c: "tasks s (running_thread s) = Some kc" "ctls s (running_thread s) = Run" "running_thread s \<noteq> idle_thread s"
    and p: "tasks s p = Some kp" "pid kp = parent_pid kc" "status kp = TASK_WAITING" "ctls s p = Run"
  obtains s' where "exit_notify s = Inr s'" and "kinv s'" and "running_thread s' = p" and "keeps s s'"
    and "\<And>u. st s' u = (if u = p then Some TASK_RUNNING else if u = running_thread s then Some TASK_HANGING else st s u)"
proof -
  have inv: "sched_inv s" "linv s" "life_inv s" using i by (simp_all add: kinv_def)
  let ?c = "running_thread s"
  have stp: "st s p = Some TASK_WAITING" using p by (simp add: st_def)
  obtain u where u: "thread_unblock p s = Inr u" "sched_inv u" "linv u" "keeps s u" "thread_ready_list u = p # thread_ready_list s"
    "running_thread u = ?c" "\<And>t. st u t = (if t = p then Some TASK_READY else st s t)"
    by (rule unblock_linv [OF inv(1,2) stp _ p(4)]) (auto simp: blocked_status_def)
  have ku: "idle_thread u = idle_thread s" "ctls u = ctls s" using u(4) by (simp_all add: keeps_def)
  have run: "ctls u (running_thread u) = Run" using c(2) ku u(6) by simp
  have cp: "?c \<noteq> p" using stp sched_invD(2) [OF inv(1)] by auto
  obtain s' where s': "thread_block TASK_HANGING u = Inr s'" "sched_inv s'" "linv s'" "keeps u s'"
    "st s' ?c = Some TASK_HANGING" "running_thread s' = p" "\<And>t. t \<noteq> ?c \<Longrightarrow> t \<noteq> p \<Longrightarrow> st s' t = st u t"
    by (rule thread_block_ok [OF u(2) _ _ park_linv_Run [OF u(2,3) run], of TASK_HANGING])
       (use c(3) ku u(5,6) in \<open>auto simp: blocked_status_def\<close>)
  have k: "keeps s s'" by (rule keeps_trans [OF u(4) s'(4)])
  have "exit_notify s = Inr s'"
    using c(1) p pid2thread_parent [OF inv(3) p(1)] u(1) s'(1) by (simp add: exit_notify_def task_def)
  moreover have "kinv s'" using s'(2,3) life_inv_cong [OF inv(3) keeps_same_life [OF k]] by (simp add: kinv_def)
  moreover have "st s' t = (if t = p then Some TASK_RUNNING else if t = ?c then Some TASK_HANGING else st s t)" for t
    using s'(5) s'(7) [of t] sched_invD(2) [OF s'(2)] s'(6) u(7) by auto
  ultimately show ?thesis using that s'(6) k by blast
qed


section \<open>A sample family\<close>

text \<open>Main waits for its child, which runs; the idle thread is ready.\<close>

definition family_task :: "int \<Rightarrow> task_status \<Rightarrow> int \<Rightarrow> task_struct" where
  "family_task i x par = \<lparr>self_kstack = 0, pid = i, status = x, priority = 31, tname = [], ticks = 31, elapsed_ticks = 0,
     fd_table = [], tpgdir = 0, tuserprog_vaddr = \<lparr>vaddr_bitmap = \<lparr>btmp_bytes_len = 0, bits = []\<rparr>, vaddr_start = 0\<rparr>,
     cwd_inode_nr = 0, parent_pid = par, exit_status = 7, stack_magic = 0x19870916, tfunction = 0, tfunc_arg = 0\<rparr>"

lemma family_task_simps [simp]:
  "pid (family_task i x par) = i" "status (family_task i x par) = x" "parent_pid (family_task i x par) = par"
  "exit_status (family_task i x par) = 7" "stack_magic (family_task i x par) = 0x19870916" "tpgdir (family_task i x par) = 0"
  by (simp_all add: family_task_def)

definition family :: "u32 \<Rightarrow> u32 \<Rightarrow> int \<Rightarrow> int \<Rightarrow> int \<Rightarrow> bitmap \<Rightarrow> mem \<Rightarrow> kthreads" where
  "family a c i j k bm m =
     \<lparr>tasks = [0xc009e000 \<mapsto> family_task i TASK_WAITING (-1), a \<mapsto> family_task j TASK_READY (-1), c \<mapsto> family_task k TASK_RUNNING i],
      thread_ready_list = [a], thread_all_list = [0xc009e000, a, c], running_thread = c, idle_thread = a,
      main_thread = 0xc009e000, pid_bitmap = bm, locks = (\<lambda>_. lock_init), ctls = (\<lambda>_. Run), global_ticks = 0,
      tss_esp0 = 0, tmem = m\<rparr>"

lemma three_pids:
  assumes "distinct [t, u, v :: u32]"
  obtains i j k b where "pids_ok [t \<mapsto> i, u \<mapsto> j, v \<mapsto> k] b"
proof -
  obtain b0 where b0: "pids_ok (Map.empty :: u32 \<Rightarrow> int option) b0" by (rule pid_pool_empty)
  have fin: "\<exists>j < 1024. \<not> bm_bit b j" if "pids_ok p b" "dom p \<subseteq> {t, u}" for p b
    using that card_mono [of "{t, u}" "dom p"] finite_subset [of "dom p" "{t, u}"] assms
    by (intro one_pid_left [OF that(1)]) auto
  obtain i b1 where b1: "pids_ok [t \<mapsto> i] b1" by (rule pids_ok_alloc [OF b0 fin [OF b0], of t]) auto
  obtain j b2 where b2: "pids_ok [t \<mapsto> i, u \<mapsto> j] b2" by (rule pids_ok_alloc [OF b1 fin [OF b1], of u]) (use assms in auto)
  obtain k b3 where "pids_ok [t \<mapsto> i, u \<mapsto> j, v \<mapsto> k] b3" by (rule pids_ok_alloc [OF b2 fin [OF b2], of v]) (use assms in auto)
  then show ?thesis by (rule that)
qed

lemma two_kernel_pages:
  obtains a c m where "pages_ok PF_KERNEL {a, c} m" and "a \<noteq> c" and "0xc0100000 \<le> a" and "0xc0100000 \<le> c" and "cr3 m = 0x100000"
proof -
  have va: "vpool PF_KERNEL sample_mem = \<lparr>vaddr_bitmap = \<lparr>btmp_bytes_len = 1, bits = [0]\<rparr>, vaddr_start = 0xc0100000\<rparr>"
    by (simp add: vpool_def sample_mem_def)
  have can: "can_alloc PF_KERNEL 2 sample_mem" unfolding can_alloc_def va
    by (auto simp: enough_def sample_card clear_run_code bm_bit_def bm_cap_def intro!: exI [of _ 0])
  obtain a m where m: "pages_ok PF_KERNEL (run_pages a 2) m" "cr3 m = cr3 sample_mem"
    by (rule malloc_pages_ok [OF sample_pages_ok _ _ can]) auto
  have r: "run_pages a 2 = {a, pg a 1}" by (auto simp: run_pages_def numeral_2_eq_2 lessThan_Suc)
  have "a \<noteq> pg a 1" by (simp add: pg_def)
  moreover have "0xc0100000 \<le> x" if "x \<in> {a, pg a 1}" for x using kernel_page_high [OF m(1)] that r by blast
  ultimately show ?thesis using that [of a "pg a 1" m] m r by (simp add: sample_mem_def)
qed

lemma family_ok:
  obtains s kc kp where "kinv s" and "tasks s (running_thread s) = Some kc" and "ctls s = (\<lambda>_. Run)"
    and "running_thread s \<noteq> idle_thread s" and "locks s = (\<lambda>_. lock_init)" and "running_thread s \<noteq> main_thread s" and "running_thread s \<noteq> 0"
    and "tasks s 0xc009e000 = Some kp" and "pid kp = parent_pid kc" and "status kp = TASK_WAITING" and "exit_status kc = 7"
    and "\<forall>t k. tasks s t = Some k \<longrightarrow> status k \<noteq> TASK_HANGING" and "main_thread s = 0xc009e000"
proof -
  obtain a c m where m: "pages_ok PF_KERNEL {a, c} m" "a \<noteq> c" "0xc0100000 \<le> a" "0xc0100000 \<le> c" "cr3 m = 0x100000"
    by (rule two_kernel_pages)
  have d: "distinct [0xc009e000, a, c]" "a \<noteq> 0" "c \<noteq> 0" using m(2-4) by auto
  obtain i j k b where b: "pids_ok [0xc009e000 \<mapsto> i, a \<mapsto> j, c \<mapsto> k] b" by (rule three_pids [OF d(1)])
  let ?s = "family a c i j k b m"
  have st': "st ?s t = (if t = c then Some TASK_RUNNING else if t = a then Some TASK_READY else if t = 0xc009e000 then Some TASK_WAITING else None)" for t
    by (simp add: st_def family_def)
  have "qinv ?s" by (rule qinvI) (use d m(5) in \<open>auto simp: st', auto simp: family_def split: if_splits\<close>)
  then have "sched_inv ?s" using st' by (simp add: sched_inv_def family_def)
  moreover have "linv ?s" by (rule linvI) (simp_all add: family_def lock_init_def sema_init_def lock_state_def)
  moreover have "life_inv ?s"
  proof -
    have "pid_of ?s = [0xc009e000 \<mapsto> i, a \<mapsto> j, c \<mapsto> k]" using d by (auto simp: fun_eq_iff pid_of_def family_def)
    moreover have "dom (tasks ?s) - {main_thread ?s} = {a, c}" using d by (auto simp: family_def)
    ultimately show ?thesis using b m(1) d unfolding life_inv_def by (auto simp: family_def)
  qed
  ultimately have "kinv ?s" by (simp add: kinv_def)
  then show ?thesis
    by (rule that [of ?s "family_task k TASK_RUNNING i" "family_task i TASK_WAITING (-1)"])
       (use d in \<open>auto simp: family_def split: if_splits\<close>)
qed



end
