(* ===== verification/Partition_Scan.thy ===== *)
theory Partition_Scan
  imports Format Stdio Interrupt
begin

text \<open>
  Model of the start-up half of \<^verbatim>\<open>device/ide.c\<close>: the identification of the disks, the scan of their partition tables
  and \<^verbatim>\<open>ide_init\<close>. The links between the tables of an extended partition are read from the disk and may form a
  cycle; the depth of the recursion is bounded by an argument, and running out of it is the error
  \<open>Diverges\<close>. The sector buffer is a value. What the identify command answers and the status register are
  arguments, as they come from the hardware; the messages that are only printed are left out.
\<close>

section \<open>The tables\<close>

record partition_table_entry =
  bootable :: u8
  start_head :: u8
  start_sec :: u8
  start_chs :: u8
  fs_type :: u8
  end_head :: u8
  end_sec :: u8
  end_chs :: u8
  pt_start_lba :: u32
  pt_sec_cnt :: u32

definition dec_entry :: "u8 list \<Rightarrow> partition_table_entry" where
  "dec_entry bs = \<lparr>bootable = bs ! 0, start_head = bs ! 1, start_sec = bs ! 2, start_chs = bs ! 3, fs_type = bs ! 4,
     end_head = bs ! 5, end_sec = bs ! 6, end_chs = bs ! 7, pt_start_lba = rd32 bs 8, pt_sec_cnt = rd32 bs 12\<rparr>"

text \<open>\<^verbatim>\<open>struct boot_sector\<close>: the table of four entries behind 446 bytes of code.\<close>

definition partition_table :: "u8 list \<Rightarrow> partition_table_entry list" where
  "partition_table bs = map (\<lambda>i. dec_entry (drop (446 + 16 * i) bs)) [0..<4]"

text \<open>A partition of a disk is named by its array and its index; \<open>partition_list\<close> holds such names.\<close>

datatype part_ref = PrimPart nat | LogicPart nat

record disk_info =
  hd_name :: "u8 list"
  hd_dev_no :: u8
  prim_parts :: "part_desc list"
  logic_parts :: "part_desc list"

record ide_state =
  ext_lba_base :: u32
  p_no :: u8
  l_no :: u8
  disks :: "nat \<Rightarrow> disk_info"
  partition_list :: "(nat \<times> part_ref) list"

text \<open>\<^verbatim>\<open>sprintf(part->name, "%s%d", hd->name, n)\<close>; the address of the name does not matter to \<^verbatim>\<open>%s\<close>.\<close>

definition part_name :: "disk_info \<Rightarrow> u32 \<Rightarrow> part_desc \<Rightarrow> u8 list result" where
  "part_name dk n p = mapR snd (sprintf (pd_name p) [37, 115, 37, 100, 0] [Ptr 1 (hd_name dk), Num n])"

definition add_prim :: "nat \<Rightarrow> u32 \<Rightarrow> partition_table_entry \<Rightarrow> ide_state \<Rightarrow> ide_state result" where
  "add_prim dk ext_lba p s =
     (let h = disks s dk; n = unat (p_no s)
      in bindR (byte_at (prim_parts h) n) (\<lambda>part.
         bindR (part_name h (ucast (p_no s) + 1) part) (\<lambda>nm.
         let part = \<lparr>pd_name = nm, pd_start = ext_lba + pt_start_lba p, pd_cnt = pt_sec_cnt p\<rparr>;
             s = s\<lparr>disks := (disks s)(dk := h\<lparr>prim_parts := (prim_parts h)[n := part]\<rparr>),
                   partition_list := partition_list s @ [(dk, PrimPart n)], p_no := p_no s + 1\<rparr>
         in ASSERT (p_no s < 4) ''p_no < 4'' (Inr s))))"

definition add_logic :: "nat \<Rightarrow> u32 \<Rightarrow> partition_table_entry \<Rightarrow> ide_state \<Rightarrow> ide_state result" where
  "add_logic dk ext_lba p s =
     (let h = disks s dk; n = unat (l_no s)
      in bindR (byte_at (logic_parts h) n) (\<lambda>part.
         mapR (\<lambda>nm.
           let part = \<lparr>pd_name = nm, pd_start = ext_lba + pt_start_lba p, pd_cnt = pt_sec_cnt p\<rparr>
           in s\<lparr>disks := (disks s)(dk := h\<lparr>logic_parts := (logic_parts h)[n := part]\<rparr>),
                partition_list := partition_list s @ [(dk, LogicPart n)], l_no := l_no s + 1\<rparr>)
           (part_name h (ucast (l_no s) + 5) part)))"

text \<open>The loop over the entries of one table; \<open>rec\<close> is the recursive call. Eight logical partitions end the loop
  of this table only.\<close>

fun scan_entries ::
    "(u32 \<Rightarrow> ide_state \<Rightarrow> ide_state result) \<Rightarrow> nat \<Rightarrow> u32 \<Rightarrow> partition_table_entry list \<Rightarrow> ide_state \<Rightarrow> ide_state result" where
  "scan_entries rec dk ext_lba [] s = Inr s"
| "scan_entries rec dk ext_lba (p # ps) s =
     (if fs_type p = 5 then
        bindR (if ext_lba_base s \<noteq> 0 then rec (pt_start_lba p + ext_lba_base s) s
               else rec (pt_start_lba p) (s\<lparr>ext_lba_base := pt_start_lba p\<rparr>)) (scan_entries rec dk ext_lba ps)
      else if fs_type p \<noteq> 0 then
        (if ext_lba = 0 then bindR (add_prim dk ext_lba p s) (scan_entries rec dk ext_lba ps)
         else bindR (add_logic dk ext_lba p s) (\<lambda>s. if 8 \<le> l_no s then Inr s else scan_entries rec dk ext_lba ps s))
      else scan_entries rec dk ext_lba ps s)"

fun partition_scan :: "nat \<Rightarrow> (nat \<Rightarrow> drive) \<Rightarrow> nat \<Rightarrow> u32 \<Rightarrow> ide_state \<Rightarrow> ide_state result" where
  "partition_scan 0 drives dk ext_lba s = Inl Diverges"
| "partition_scan (Suc depth) drives dk ext_lba s =
     bindR (ide_read (hd_dev_no (disks s dk)) ext_lba 1 (drives dk)) (\<lambda>bs.
     scan_entries (partition_scan depth drives dk) dk ext_lba (partition_table bs) s)"

section \<open>Waiting and identification\<close>

text \<open>\<^verbatim>\<open>time_limit -= 10 >= 0\<close> counts down by one. The answers of the status register are \<open>stat\<close>; \<open>i\<close> is the
  number of reads so far.\<close>

fun busy_loop :: "nat \<Rightarrow> (nat \<Rightarrow> u8) \<Rightarrow> nat \<Rightarrow> bool" where
  "busy_loop 0 stat i = False"
| "busy_loop (Suc n) stat i =
     (if stat i AND 0x80 = 0 then stat (Suc i) AND 0x08 \<noteq> 0 else busy_loop n stat (Suc i))"

definition busy_wait :: "(nat \<Rightarrow> u8) \<Rightarrow> bool" where
  "busy_wait stat = busy_loop (30 * 1000 - 1) stat 0"

text \<open>\<^verbatim>\<open>index\<close> is an 8-bit number: a length of more than 254 is never reached.\<close>

function swap_loop :: "nat \<Rightarrow> nat \<Rightarrow> u8 list \<Rightarrow> u8 list \<Rightarrow> (nat \<times> u8 list) result" where
  "swap_loop index len dst buf =
     (if index < len then
        bindR (byte_at dst index) (\<lambda>a. bindR (set_byte_at buf (index + 1) a) (\<lambda>buf.
        bindR (byte_at dst (index + 1)) (\<lambda>b. bindR (set_byte_at buf index b) (\<lambda>buf.
        if 256 \<le> index + 2 then Inl Diverges else swap_loop (index + 2) len dst buf))))
      else Inr (index, buf))"
  by pat_completeness auto
termination by (relation "measure (\<lambda>(index, len, dst, buf). len - index)") auto

declare swap_loop.simps [simp del]

definition swap_pairs_bytes :: "u8 list \<Rightarrow> u8 list \<Rightarrow> nat \<Rightarrow> u8 list result" where
  "swap_pairs_bytes dst buf len = bindR (swap_loop 0 len dst buf) (\<lambda>(index, buf). set_byte_at buf index 0)"

record disk_params =
  dp_serial :: "u8 list"
  dp_module :: "u8 list"
  dp_sectors :: u32
  dp_capacity :: u32

text \<open>What is printed about the disk. \<open>id_info\<close> is the answer of the identify command, \<open>g\<close> the buffer before.\<close>

definition identify_disk :: "u8 list \<Rightarrow> u8 list \<Rightarrow> (nat \<Rightarrow> u8) \<Rightarrow> disk_params result" where
  "identify_disk g id_info stat =
     (if \<not> busy_wait stat then Inl (KPanic ''identify failed'')
      else bindR (swap_pairs_bytes (drop 20 id_info) g 20) (\<lambda>sn.
        bindR (swap_pairs_bytes (drop 54 id_info) (replicate 64 0) 40) (\<lambda>md.
        let secs = rd32 id_info 120
        in Inr \<lparr>dp_serial = sn, dp_module = md, dp_sectors = secs, dp_capacity = secs * 512 div 1024 div 1024\<rparr>)))"

section \<open>Initialisation\<close>

record ide_channel =
  ch_name :: "u8 list"
  port_base :: u16
  irq_no :: u8
  ch_lock :: lock
  expecting_intr :: bool
  disk_done :: semaphore

definition cmd_out :: "u8 \<Rightarrow> ide_channel \<Rightarrow> cpu \<Rightarrow> ide_channel \<times> cpu" where
  "cmd_out cmd ch c = (ch\<lparr>expecting_intr := True\<rparr>, outb (port_base ch + 7) cmd c)"

text \<open>The handler of the disk interrupt; the result tells whether it raises the semaphore of the channel.\<close>

definition intr_hd_handler :: "u8 \<Rightarrow> ide_channel list \<Rightarrow> (bool \<times> ide_channel list) result" where
  "intr_hd_handler irq chans =
     ASSERT (irq = 0x2e \<or> irq = 0x2f) ''irq_no == 0x2e || irq_no == 0x2f''
     (let ch_no = unat (irq - 0x2e)
      in bindR (byte_at chans ch_no) (\<lambda>ch.
         ASSERT (irq_no ch = irq) ''channel->irq_no == irq_no''
         (if expecting_intr ch then Inr (True, chans[ch_no := ch\<lparr>expecting_intr := False\<rparr>]) else Inr (False, chans))))"

text \<open>The two disks of a channel; the second one is scanned. The buffers of the identification are \<open>g\<close>, its
  answers \<open>ids\<close> and \<open>stat\<close>.\<close>

definition init_disk ::
    "nat \<Rightarrow> (nat \<Rightarrow> u8 list) \<Rightarrow> (nat \<Rightarrow> u8 list) \<Rightarrow> (nat \<Rightarrow> nat \<Rightarrow> u8) \<Rightarrow> (nat \<Rightarrow> drive) \<Rightarrow> nat \<Rightarrow> nat \<Rightarrow> ide_state \<Rightarrow> ide_state result" where
  "init_disk depth g ids stat drives channel_no dev_no s =
     (let dk = 2 * channel_no + dev_no; h = disks s dk
      in bindR (sprintf (hd_name h) [115, 100, 37, 99, 0] [Num (97 + of_nat (channel_no * 2 + dev_no))]) (\<lambda>(_, nm).
         let s = s\<lparr>disks := (disks s)(dk := h\<lparr>hd_name := nm, hd_dev_no := of_nat dev_no\<rparr>)\<rparr>
         in bindR (identify_disk (g dk) (ids dk) (stat dk)) (\<lambda>_.
            mapR (\<lambda>s. s\<lparr>p_no := 0, l_no := 0\<rparr>)
              (if dev_no \<noteq> 0 then partition_scan depth drives dk 0 s else Inr s))))"

definition init_channel :: "nat \<Rightarrow> u32 \<Rightarrow> ide_channel \<Rightarrow> cpu \<Rightarrow> (ide_channel \<times> cpu) result" where
  "init_channel channel_no handler ch c =
     bindR (sprintf (ch_name ch) [105, 100, 101, 37, 100, 0] [Num (of_nat channel_no)]) (\<lambda>(_, nm).
     let ch = ch\<lparr>ch_name := nm\<rparr>;
         ch = (if channel_no = 0 then ch\<lparr>port_base := 0x1f0, irq_no := 0x20 + 14\<rparr>
               else if channel_no = 1 then ch\<lparr>port_base := 0x170, irq_no := 0x20 + 15\<rparr> else ch);
         ch = ch\<lparr>expecting_intr := False, ch_lock := lock_init, disk_done := sema_init 0\<rparr>
     in mapR (\<lambda>c. (ch, c)) (register_handler (irq_no ch) handler c))"

fun init_channels ::
    "nat \<Rightarrow> (nat \<Rightarrow> u8 list) \<Rightarrow> (nat \<Rightarrow> u8 list) \<Rightarrow> (nat \<Rightarrow> nat \<Rightarrow> u8) \<Rightarrow> (nat \<Rightarrow> drive) \<Rightarrow> u32 \<Rightarrow> nat \<Rightarrow> nat \<Rightarrow>
       ide_channel list \<times> cpu \<times> ide_state \<Rightarrow> (ide_channel list \<times> cpu \<times> ide_state) result" where
  "init_channels depth g ids stat drives handler channel_no 0 ini = Inr ini"
| "init_channels depth g ids stat drives handler channel_no (Suc n) (chans, c, s) =
     bindR (byte_at chans channel_no) (\<lambda>ch.
     bindR (init_channel channel_no handler ch c) (\<lambda>(ch, c).
     bindR (init_disk depth g ids stat drives channel_no 0 s) (\<lambda>s.
     bindR (init_disk depth g ids stat drives channel_no 1 s) (\<lambda>s.
     init_channels depth g ids stat drives handler (Suc channel_no) n (chans[channel_no := ch], c, s)))))"

definition ide_init ::
    "nat \<Rightarrow> (nat \<Rightarrow> u8 list) \<Rightarrow> (nat \<Rightarrow> u8 list) \<Rightarrow> (nat \<Rightarrow> nat \<Rightarrow> u8) \<Rightarrow> (nat \<Rightarrow> drive) \<Rightarrow> u32 \<Rightarrow> u8 \<Rightarrow>
       ide_channel list \<times> cpu \<times> ide_state \<Rightarrow> (ide_channel list \<times> cpu \<times> ide_state) result" where
  "ide_init depth g ids stat drives handler hd_cnt ini =
     (case ini of (chans, c, s) \<Rightarrow>
        ASSERT (hd_cnt > 0) ''hd_cnt > 0''
        (let s = s\<lparr>partition_list := []\<rparr>; channel_cnt = (unat hd_cnt + 2 - 1) div 2
         in init_channels depth g ids stat drives handler 0 channel_cnt (chans, c, s)))"

end
