(* ===== verification/Partition_Props.thy ===== *)
theory Partition_Props
  imports Partition_Scan
begin

text \<open>
  The scan of a partition table finds the partitions of the disk: the chain of extended boot records is described
  independently, and the scan ends with the primary partitions and the first eight logical ones in the
  order of the tables. A table that links to itself is scanned without end.
\<close>

section \<open>Adding a partition\<close>

text \<open>The name of a disk is three characters in its array of eight.\<close>

definition named_disk :: "u8 list \<Rightarrow> disk_info \<Rightarrow> bool" where
  "named_disk nm h \<longleftrightarrow> length nm = 3 \<and> 0 \<notin> set nm \<and> hd_name h = nm @ replicate 5 0"

definition full_name :: "u8 list \<Rightarrow> nat \<Rightarrow> u8 list" where
  "full_name nm n = nm @ digits 10 n @ replicate (5 - length (digits 10 n)) 0"

lemma part_name_ok:
  assumes "named_disk nm h" and "pd_name p = replicate 8 0" and "n < 100"
  shows "part_name h (of_nat n) p = Inr (full_name nm n)"
proof -
  have u: "unat (of_nat n :: u32) = n" using assms(3) by (intro unat_of_nat_u32) simp
  have "sint (of_nat n :: u32) = int n"
  proof -
    have "uint (of_nat n :: u32) = int n" using u by (metis unsigned_of_nat uint_nat)
    then show ?thesis using assms(3) by (simp add: sint_u32)
  qed
  then have "show_int (sint (of_nat n :: u32)) = digits 10 n" by (simp add: show_int_def)
  moreover have "0 \<in> set (hd_name h)" "str_of (hd_name h) = nm"
  proof -
    have "takeWhile (\<lambda>c. c \<noteq> 0) (nm @ replicate 5 0) = nm @ takeWhile (\<lambda>c. c \<noteq> 0) (replicate 5 0)"
      using assms(1) by (intro takeWhile_append2) (auto simp: named_disk_def)
    then show "0 \<in> set (hd_name h)" "str_of (hd_name h) = nm" using assms(1) by (simp_all add: named_disk_def str_of_def)
  qed
  ultimately have r: "render [37, 115, 37, 100] [Ptr 1 (hd_name h), Num (of_nat n)] = Some (nm @ digits 10 n)"
    by (simp add: conversions_def)
  have d: "length (digits 10 n) \<le> 2" "0 \<notin> set (digits 10 n)"
    using digits_short [of 10 n 2] digits_nonzero [of 10 n] assms(3) by simp_all
  have "0 \<notin> set (nm @ digits 10 n)" "length (nm @ digits 10 n) < 8" using assms(1) d by (auto simp: named_disk_def)
  then show ?thesis using vsprintf_ok [OF _ r, of 8 "[]"] assms(1,2) d
    by (simp add: part_name_def sprintf_def full_name_def named_disk_def)
qed

text \<open>The state behind one more partition.\<close>

definition put_logic :: "nat \<Rightarrow> u8 list \<Rightarrow> u32 \<times> u32 \<Rightarrow> ide_state \<Rightarrow> ide_state" where
  "put_logic dk nm q s =
     (let h = disks s dk; n = unat (l_no s)
      in s\<lparr>disks := (disks s)(dk := h\<lparr>logic_parts := (logic_parts h)[n := \<lparr>pd_name = full_name nm (n + 5), pd_start = fst q, pd_cnt = snd q\<rparr>]\<rparr>),
           partition_list := partition_list s @ [(dk, LogicPart n)], l_no := l_no s + 1\<rparr>)"

definition put_prim :: "nat \<Rightarrow> u8 list \<Rightarrow> u32 \<times> u32 \<Rightarrow> ide_state \<Rightarrow> ide_state" where
  "put_prim dk nm q s =
     (let h = disks s dk; n = unat (p_no s)
      in s\<lparr>disks := (disks s)(dk := h\<lparr>prim_parts := (prim_parts h)[n := \<lparr>pd_name = full_name nm (n + 1), pd_start = fst q, pd_cnt = snd q\<rparr>]\<rparr>),
           partition_list := partition_list s @ [(dk, PrimPart n)], p_no := p_no s + 1\<rparr>)"

text \<open>The slots that are still free have cleared names.\<close>

definition slots_ok :: "nat \<Rightarrow> u8 list \<Rightarrow> ide_state \<Rightarrow> bool" where
  "slots_ok dk nm s \<longleftrightarrow> named_disk nm (disks s dk) \<and> length (prim_parts (disks s dk)) = 4 \<and> length (logic_parts (disks s dk)) = 8 \<and>
     (\<forall>i. unat (p_no s) \<le> i \<and> i < 4 \<longrightarrow> pd_name (prim_parts (disks s dk) ! i) = replicate 8 0) \<and>
     (\<forall>i. unat (l_no s) \<le> i \<and> i < 8 \<longrightarrow> pd_name (logic_parts (disks s dk) ! i) = replicate 8 0)"

lemma unat_inc_u8: "unat (n :: u8) < 255 \<Longrightarrow> unat (n + 1) = Suc (unat n)"
  by (simp add: unat_word_ariths)

lemma slots_ok_ext [simp]: "slots_ok dk nm (s\<lparr>ext_lba_base := b\<rparr>) = slots_ok dk nm s"
  by (simp add: slots_ok_def)

lemma put_logic_fields:
  "unat (l_no s) < 8 \<Longrightarrow> unat (l_no (put_logic dk nm q s)) = Suc (unat (l_no s))"
  "ext_lba_base (put_logic dk nm q s) = ext_lba_base s" "p_no (put_logic dk nm q s) = p_no s"
  "hd_dev_no (disks (put_logic dk nm q s) dk) = hd_dev_no (disks s dk)"
  "prim_parts (disks (put_logic dk nm q s) dk) = prim_parts (disks s dk)"
  by (simp_all add: put_logic_def Let_def unat_inc_u8)

lemma put_prim_fields:
  "unat (p_no s) < 4 \<Longrightarrow> unat (p_no (put_prim dk nm q s)) = Suc (unat (p_no s))"
  "ext_lba_base (put_prim dk nm q s) = ext_lba_base s" "l_no (put_prim dk nm q s) = l_no s"
  "hd_dev_no (disks (put_prim dk nm q s) dk) = hd_dev_no (disks s dk)"
  "logic_parts (disks (put_prim dk nm q s) dk) = logic_parts (disks s dk)"
  by (simp_all add: put_prim_def Let_def unat_inc_u8)

lemma add_logic_ok:
  assumes "slots_ok dk nm s" and "unat (l_no s) < 8"
  shows "add_logic dk lba p s = Inr (put_logic dk nm (lba + pt_start_lba p, pt_sec_cnt p) s)"
    and "slots_ok dk nm (put_logic dk nm q s)"
proof -
  let ?h = "disks s dk" let ?n = "unat (l_no s)"
  have "pd_name (logic_parts ?h ! ?n) = replicate 8 0" "named_disk nm ?h" using assms by (simp_all add: slots_ok_def)
  then have "part_name ?h (of_nat (?n + 5)) (logic_parts ?h ! ?n) = Inr (full_name nm (?n + 5))"
    using assms(2) by (intro part_name_ok) simp_all
  moreover have "(of_nat (?n + 5) :: u32) = ucast (l_no s) + 5" by simp
  ultimately have "part_name ?h (ucast (l_no s) + 5) (logic_parts ?h ! ?n) = Inr (full_name nm (?n + 5))" by (simp only:)
  then show "add_logic dk lba p s = Inr (put_logic dk nm (lba + pt_start_lba p, pt_sec_cnt p) s)"
    using assms by (simp add: add_logic_def put_logic_def Let_def slots_ok_def byte_at_def)
  show "slots_ok dk nm (put_logic dk nm q s)"
    using assms put_logic_fields(1) [OF assms(2), of dk nm q] by (auto simp: slots_ok_def put_logic_def Let_def named_disk_def nth_list_update)
qed

lemma add_prim_ok:
  assumes "slots_ok dk nm s" and "unat (p_no s) < 3"
  shows "add_prim dk lba p s = Inr (put_prim dk nm (lba + pt_start_lba p, pt_sec_cnt p) s)"
    and "slots_ok dk nm (put_prim dk nm q s)"
proof -
  let ?h = "disks s dk" let ?n = "unat (p_no s)"
  have "pd_name (prim_parts ?h ! ?n) = replicate 8 0" "named_disk nm ?h" using assms by (simp_all add: slots_ok_def)
  then have "part_name ?h (of_nat (?n + 1)) (prim_parts ?h ! ?n) = Inr (full_name nm (?n + 1))"
    using assms(2) by (intro part_name_ok) simp_all
  moreover have "(of_nat (?n + 1) :: u32) = ucast (p_no s) + 1" by simp
  ultimately have "part_name ?h (ucast (p_no s) + 1) (prim_parts ?h ! ?n) = Inr (full_name nm (?n + 1))" by (simp only:)
  moreover have "p_no s + 1 < 4" using assms(2) by (simp add: word_less_nat_alt unat_inc_u8)
  ultimately show "add_prim dk lba p s = Inr (put_prim dk nm (lba + pt_start_lba p, pt_sec_cnt p) s)"
    using assms by (simp add: add_prim_def put_prim_def Let_def slots_ok_def byte_at_def)
  show "slots_ok dk nm (put_prim dk nm q s)"
    using assms put_prim_fields(1) [of s dk nm q] by (auto simp: slots_ok_def put_prim_def Let_def named_disk_def nth_list_update)
qed

section \<open>The chain of extended boot records\<close>

definition is_part :: "partition_table_entry \<Rightarrow> bool" where
  "is_part e \<longleftrightarrow> fs_type e \<noteq> 0 \<and> fs_type e \<noteq> 5"

definition unused :: "partition_table_entry \<Rightarrow> bool" where
  "unused e \<longleftrightarrow> fs_type e = 0"

text \<open>The table at \<open>lba\<close> has a logical partition, relative to the table, and a link to the next table, relative to
  the extended partition at \<open>base\<close>, or no link at the end.\<close>

inductive ebr_chain :: "drive \<Rightarrow> u32 \<Rightarrow> u32 \<Rightarrow> (u32 \<times> u32) list \<Rightarrow> bool" for d base where
  ebr_last: "lba \<le> max_lba \<Longrightarrow> lba \<noteq> 0 \<Longrightarrow> partition_table (dsecs d lba) = [p, z1, z2, z3] \<Longrightarrow> is_part p \<Longrightarrow>
     unused z1 \<Longrightarrow> unused z2 \<Longrightarrow> unused z3 \<Longrightarrow> ebr_chain d base lba [(lba + pt_start_lba p, pt_sec_cnt p)]"
| ebr_link: "lba \<le> max_lba \<Longrightarrow> lba \<noteq> 0 \<Longrightarrow> partition_table (dsecs d lba) = [p, l, z2, z3] \<Longrightarrow> is_part p \<Longrightarrow>
     fs_type l = 5 \<Longrightarrow> unused z2 \<Longrightarrow> unused z3 \<Longrightarrow> ebr_chain d base (pt_start_lba l + base) qs \<Longrightarrow>
     ebr_chain d base lba ((lba + pt_start_lba p, pt_sec_cnt p) # qs)"

lemma scan_chain:
  assumes "ebr_chain (drives dk) base lba qs" and "drive_ok (drives dk)" and "base \<noteq> 0"
    and "ext_lba_base s = base" and "slots_ok dk nm s" and "unat (l_no s) < 8" and "length qs \<le> depth"
  shows "partition_scan depth drives dk lba s = Inr (fold (put_logic dk nm) (take (8 - unat (l_no s)) qs) s)"
  using assms(1) assms(4-)
proof (induction arbitrary: s depth rule: ebr_chain.induct)
  case (ebr_last lba p z1 z2 z3)
  obtain k where k: "depth = Suc k" using ebr_last.prems(4) by (cases depth) auto
  have "ide_read dev lba 1 (drives dk) = Inr (dsecs (drives dk) lba)" for dev by (rule ide_read_1 [OF assms(2) ebr_last.hyps(1)])
  then show ?case using ebr_last.hyps add_logic_ok(1) [OF ebr_last.prems(2,3), of lba p] ebr_last.prems(3)
    by (simp add: k is_part_def unused_def)
next
  case (ebr_link lba p l z2 z3 qs)
  let ?q = "(lba + pt_start_lba p, pt_sec_cnt p)" let ?s = "put_logic dk nm ?q s"
  obtain k where k: "depth = Suc k" "length qs \<le> k" using ebr_link.prems(4) by (cases depth) auto
  have rd: "ide_read dev lba 1 (drives dk) = Inr (dsecs (drives dk) lba)" for dev by (rule ide_read_1 [OF assms(2) ebr_link.hyps(1)])
  note a = add_logic_ok(1) [OF ebr_link.prems(2,3), of lba p] and f = put_logic_fields(1) [OF ebr_link.prems(3), of dk nm ?q]
  show ?case
  proof (cases "unat (l_no s) = 7")
    case True
    then have "8 \<le> l_no ?s" using f by (simp add: word_le_nat_alt)
    then show ?thesis using rd a ebr_link.hyps True by (simp add: k is_part_def unused_def)
  next
    case False
    then have lt: "unat (l_no ?s) < 8" "\<not> 8 \<le> l_no ?s" "8 - unat (l_no s) = Suc (8 - unat (l_no ?s))"
      using f ebr_link.prems(3) by (simp_all add: word_le_nat_alt)
    have b: "ext_lba_base ?s = base" using ebr_link.prems(1) by (simp add: put_logic_fields)
    have "partition_scan k drives dk (pt_start_lba l + base) ?s = Inr (fold (put_logic dk nm) (take (8 - unat (l_no ?s)) qs) ?s)"
      by (rule ebr_link.IH [OF b add_logic_ok(2) [OF ebr_link.prems(2,3)] lt(1) k(2)])
    then show ?thesis using rd a ebr_link.hyps lt b assms(3) by (simp add: k is_part_def unused_def)
  qed
qed

section \<open>The main table\<close>

lemma scan_entries_append:
  "scan_entries rec dk 0 (es @ fs) s = bindR (scan_entries rec dk 0 es s) (scan_entries rec dk 0 fs)"
proof (induction es arbitrary: s)
  case (Cons e es)
  have "scan_entries rec dk 0 (es @ fs) = (\<lambda>s. bindR (scan_entries rec dk 0 es s) (scan_entries rec dk 0 fs))"
    using Cons.IH by blast
  then show ?case by (simp add: bindR_assoc)
qed simp

abbreviation entry_range :: "partition_table_entry \<Rightarrow> u32 \<times> u32" where
  "entry_range e \<equiv> (pt_start_lba e, pt_sec_cnt e)"

lemma scan_prims:
  assumes "\<forall>e \<in> set es. fs_type e \<noteq> 5" and "slots_ok dk nm s" and "unat (p_no s) + length (filter is_part es) \<le> 3"
  defines "s' \<equiv> fold (put_prim dk nm) (map entry_range (filter is_part es)) s"
  shows "scan_entries rec dk 0 es s = Inr s' \<and> slots_ok dk nm s' \<and> unat (p_no s') = unat (p_no s) + length (filter is_part es)"
  using assms(1-3) unfolding s'_def
proof (induction es arbitrary: s)
  case (Cons e es)
  show ?case
  proof (cases "is_part e")
    case True
    then have n: "unat (p_no s) < 3" using Cons.prems(3) by simp
    let ?s = "put_prim dk nm (entry_range e) s"
    note a = add_prim_ok [OF Cons.prems(2) n] and f = put_prim_fields(1) [of s dk nm "entry_range e"]
    have "unat (p_no ?s) + length (filter is_part es) \<le> 3" using Cons.prems(3) True f n by simp
    then show ?thesis using Cons.IH [OF _ a(2)] Cons.prems(1) True f n a(1) [of 0 e] by (simp add: is_part_def [of e])
  next
    case False
    then show ?thesis using Cons.IH [of s] Cons.prems by (simp add: is_part_def [of e])
  qed
qed simp

section \<open>What is found\<close>

definition parts_from :: "u8 list \<Rightarrow> nat \<Rightarrow> nat \<Rightarrow> (u32 \<times> u32) list \<Rightarrow> part_desc list" where
  "parts_from nm first n qs =
     map (\<lambda>(i, q). \<lparr>pd_name = full_name nm (i + first), pd_start = fst q, pd_cnt = snd q\<rparr>) (enumerate n qs)"

lemma parts_from_simps: "parts_from nm first n [] = []"
  "parts_from nm first n (q # qs) = \<lparr>pd_name = full_name nm (n + first), pd_start = fst q, pd_cnt = snd q\<rparr> # parts_from nm first (Suc n) qs"
  by (simp_all add: parts_from_def)

lemma parts_from_append: "parts_from nm first n (qs @ rs) = parts_from nm first n qs @ parts_from nm first (n + length qs) rs"
  by (induction qs arbitrary: n) (simp_all add: parts_from_simps)

lemma take_Suc_list_update: "n < length xs \<Longrightarrow> take (Suc n) (xs[n := x]) = take n xs @ [x]"
  by (simp add: take_Suc_conv_app_nth)

lemma fold_logic:
  assumes "slots_ok dk nm s" and "unat (l_no s) + length qs \<le> 8"
  defines "s' \<equiv> fold (put_logic dk nm) qs s" and "n \<equiv> unat (l_no s)"
  shows "slots_ok dk nm s' \<and> ext_lba_base s' = ext_lba_base s \<and> p_no s' = p_no s \<and> prim_parts (disks s' dk) = prim_parts (disks s dk) \<and>
    take (n + length qs) (logic_parts (disks s' dk)) = take n (logic_parts (disks s dk)) @ parts_from nm 5 n qs \<and>
    partition_list s' = partition_list s @ map (\<lambda>i. (dk, LogicPart i)) [n..<n + length qs]"
  using assms(1,2) unfolding s'_def n_def
proof (induction qs arbitrary: s)
  case (Cons q qs)
  let ?s = "put_logic dk nm q s" let ?n = "unat (l_no s)"
  have n: "?n < 8" using Cons.prems(2) by simp
  note f = put_logic_fields [where s = s and dk = dk and nm = nm and q = q] and a = add_logic_ok(2) [OF Cons.prems(1) n, of q]
  have len: "length (logic_parts (disks s dk)) = 8" using Cons.prems(1) by (simp add: slots_ok_def)
  have l: "take (Suc ?n) (logic_parts (disks ?s dk)) =
      take ?n (logic_parts (disks s dk)) @ [\<lparr>pd_name = full_name nm (?n + 5), pd_start = fst q, pd_cnt = snd q\<rparr>]"
    using n len by (simp add: put_logic_def Let_def take_Suc_list_update)
  have p: "partition_list ?s = partition_list s @ [(dk, LogicPart ?n)]" by (simp add: put_logic_def Let_def)
  have u: "[?n..<Suc (?n + length qs)] = ?n # [Suc ?n..<Suc (?n + length qs)]" by (rule upt_conv_Cons) simp
  show ?case using Cons.IH [OF a] Cons.prems(2) f n l p u by (simp add: parts_from_simps del: upt_Suc)
qed (simp add: parts_from_simps)

lemma fold_prim:
  assumes "slots_ok dk nm s" and "unat (p_no s) + length qs \<le> 3"
  defines "s' \<equiv> fold (put_prim dk nm) qs s" and "n \<equiv> unat (p_no s)"
  shows "ext_lba_base s' = ext_lba_base s \<and> l_no s' = l_no s \<and> logic_parts (disks s' dk) = logic_parts (disks s dk) \<and>
    take (n + length qs) (prim_parts (disks s' dk)) = take n (prim_parts (disks s dk)) @ parts_from nm 1 n qs \<and>
    partition_list s' = partition_list s @ map (\<lambda>i. (dk, PrimPart i)) [n..<n + length qs]"
  using assms(1,2) unfolding s'_def n_def
proof (induction qs arbitrary: s)
  case (Cons q qs)
  let ?s = "put_prim dk nm q s" let ?n = "unat (p_no s)"
  have n: "?n < 3" using Cons.prems(2) by simp
  note f = put_prim_fields [where s = s and dk = dk and nm = nm and q = q] and a = add_prim_ok(2) [OF Cons.prems(1) n, of q]
  have len: "length (prim_parts (disks s dk)) = 4" using Cons.prems(1) by (simp add: slots_ok_def)
  have l: "take (Suc ?n) (prim_parts (disks ?s dk)) =
      take ?n (prim_parts (disks s dk)) @ [\<lparr>pd_name = full_name nm (?n + 1), pd_start = fst q, pd_cnt = snd q\<rparr>]"
    using n len by (simp add: put_prim_def Let_def take_Suc_list_update)
  have p: "partition_list ?s = partition_list s @ [(dk, PrimPart ?n)]" by (simp add: put_prim_def Let_def)
  have u: "[?n..<Suc (?n + length qs)] = ?n # [Suc ?n..<Suc (?n + length qs)]" by (rule upt_conv_Cons) simp
  show ?case using Cons.IH [OF a] Cons.prems(2) f n l p u by (simp add: parts_from_simps del: upt_Suc)
qed (simp add: parts_from_simps)

text \<open>
  C19. The scan of a disk ends and finds its partitions: for a disk whose main table has at most three primary
  partitions and one extended partition with a chain of logical partitions, every depth of recursion beyond the
  number of logical partitions gives the same result. The arrays of the disk then hold the primary
  partitions and the first eight logical ones with their ranges and their names, numbered from 1 and from 5,
  and the list of partitions has them in the order of the tables.
\<close>
theorem partition_scan_finds:
  assumes d: "drive_ok (drives dk)" and s: "slots_ok dk nm s" "ext_lba_base s = 0" "p_no s = 0" "l_no s = 0"
    and t: "partition_table (dsecs (drives dk) 0) = pre @ x # post" "fs_type x = 5" "\<forall>e \<in> set (pre @ post). fs_type e \<noteq> 5"
    and n: "length (filter is_part (pre @ post)) \<le> 3"
    and x: "pt_start_lba x \<noteq> 0" "ebr_chain (drives dk) (pt_start_lba x) (pt_start_lba x) qs"
  shows "\<exists>s'. (\<forall>depth > length qs. partition_scan depth drives dk 0 s = Inr s') \<and>
    take (length (filter is_part (pre @ post))) (prim_parts (disks s' dk)) = parts_from nm 1 0 (map entry_range (filter is_part (pre @ post))) \<and>
    take (length (take 8 qs)) (logic_parts (disks s' dk)) = parts_from nm 5 0 (take 8 qs) \<and>
    partition_list s' = partition_list s @ map (\<lambda>i. (dk, PrimPart i)) [0..<length (filter is_part pre)] @
      map (\<lambda>i. (dk, LogicPart i)) [0..<length (take 8 qs)] @
      map (\<lambda>i. (dk, PrimPart i)) [length (filter is_part pre)..<length (filter is_part (pre @ post))]"
proof -
  let ?P = "filter is_part pre" let ?Q = "filter is_part post"
  define s1 where "s1 = fold (put_prim dk nm) (map entry_range ?P) s"
  define s2 where "s2 = s1\<lparr>ext_lba_base := pt_start_lba x\<rparr>"
  define s3 where "s3 = fold (put_logic dk nm) (take 8 qs) s2"
  define s4 where "s4 = fold (put_prim dk nm) (map entry_range ?Q) s3"
  have "scan_entries rec dk 0 pre s = Inr s1 \<and> slots_ok dk nm s1 \<and> unat (p_no s1) = length ?P" for rec
    using scan_prims [of pre dk nm s rec] t(3) n s by (simp add: s1_def)
  then have 1: "scan_entries rec dk 0 pre s = Inr s1" "slots_ok dk nm s1" "unat (p_no s1) = length ?P" for rec by blast+
  have f1: "ext_lba_base s1 = 0 \<and> l_no s1 = 0 \<and> logic_parts (disks s1 dk) = logic_parts (disks s dk) \<and>
      take (length ?P) (prim_parts (disks s1 dk)) = parts_from nm 1 0 (map entry_range ?P) \<and>
      partition_list s1 = partition_list s @ map (\<lambda>i. (dk, PrimPart i)) [0..<length ?P]"
    using fold_prim [OF s(1), of "map entry_range ?P"] n s by (simp add: s1_def)
  have 2: "slots_ok dk nm s2" "ext_lba_base s2 = pt_start_lba x" "unat (l_no s2) = 0" using 1(2) f1 by (simp_all add: s2_def)
  have 3: "partition_scan k drives dk (pt_start_lba x) s2 = Inr s3" if "length qs \<le> k" for k
    using scan_chain [where drives = drives and dk = dk, OF x(2) d x(1) 2(2,1) _ that] 2(3) by (simp add: s3_def)
  have f3: "slots_ok dk nm s3 \<and> p_no s3 = p_no s1 \<and> prim_parts (disks s3 dk) = prim_parts (disks s1 dk) \<and>
      take (length (take 8 qs)) (logic_parts (disks s3 dk)) = parts_from nm 5 0 (take 8 qs) \<and>
      partition_list s3 = partition_list s1 @ map (\<lambda>i. (dk, LogicPart i)) [0..<length (take 8 qs)]"
    using fold_logic [OF 2(1), of "take 8 qs"] 2(3) by (simp add: s3_def) (simp add: s2_def)
  have 4: "scan_entries rec dk 0 post s3 = Inr s4" for rec
    using scan_prims [of post dk nm s3 rec] t(3) n f3 1(3) by (simp add: s4_def)
  have f4: "logic_parts (disks s4 dk) = logic_parts (disks s3 dk) \<and>
      take (length ?P + length ?Q) (prim_parts (disks s4 dk)) = take (length ?P) (prim_parts (disks s3 dk)) @ parts_from nm 1 (length ?P) (map entry_range ?Q) \<and>
      partition_list s4 = partition_list s3 @ map (\<lambda>i. (dk, PrimPart i)) [length ?P..<length ?P + length ?Q]"
    using fold_prim [of dk nm s3 "map entry_range ?Q"] f3 1(3) n by (simp add: s4_def)
  have "partition_scan depth drives dk 0 s = Inr s4" if depth: "length qs < depth" for depth
  proof -
    obtain k where k: "depth = Suc k" "length qs \<le> k" using depth by (cases depth) auto
    have "ide_read dev 0 1 (drives dk) = Inr (dsecs (drives dk) 0)" for dev by (rule ide_read_1 [OF d]) (simp add: max_lba_def)
    then show ?thesis using 1(1) 3 [OF k(2)] 4 f1 t(1,2) by (simp add: k(1) scan_entries_append s2_def)
  qed
  then show ?thesis using f1 f3 f4 by (intro exI [of _ s4]) (simp add: parts_from_append)
qed

text \<open>A table of an extended partition that links to itself: the scan does not end, whatever the depth.\<close>

theorem partition_scan_cycle:
  assumes "drive_ok (drives dk)" and "lba \<le> max_lba" and "partition_table (dsecs (drives dk) lba) = l # es" and "fs_type l = 5"
    and "ext_lba_base s \<noteq> 0" and "pt_start_lba l + ext_lba_base s = lba"
  shows "partition_scan depth drives dk lba s = Inl Diverges"
proof (induction depth)
  case (Suc depth)
  then show ?case using ide_read_1 [OF assms(1,2)] assms(3-) by simp
qed simp

section \<open>A sample disk\<close>

text \<open>One primary partition, and an extended one at sector 2000 with two logical partitions.\<close>

definition entry_bytes :: "u8 \<Rightarrow> u32 \<Rightarrow> u32 \<Rightarrow> u8 list" where
  "entry_bytes ty start cnt = [0, 0, 0, 0, ty, 0, 0, 0] @ le32 start @ le32 cnt"

definition entry :: "u8 \<Rightarrow> u32 \<Rightarrow> u32 \<Rightarrow> partition_table_entry" where
  "entry ty start cnt = \<lparr>bootable = 0, start_head = 0, start_sec = 0, start_chs = 0, fs_type = ty, end_head = 0, end_sec = 0,
     end_chs = 0, pt_start_lba = start, pt_sec_cnt = cnt\<rparr>"

definition table_sector :: "u8 list \<Rightarrow> u8 list \<Rightarrow> u8 list" where
  "table_sector e0 e1 = replicate 446 0 @ e0 @ e1 @ entry_bytes 0 0 0 @ entry_bytes 0 0 0 @ [0x55, 0xaa]"

lemma entry_bytes_length: "length (entry_bytes ty start cnt) = 16"
  by (simp add: entry_bytes_def)

lemma dec_entry_bytes: "dec_entry (entry_bytes ty start cnt @ r) = entry ty start cnt"
proof -
  have "rd32 ([0, 0, 0, 0, ty, 0, 0, 0] @ le32 start @ le32 cnt @ r) 8 = start"
    using rd32_le32 [of "[0, 0, 0, 0, ty, 0, 0, 0]" start "le32 cnt @ r"] by (simp add: eval_nat_numeral)
  moreover have "rd32 (([0, 0, 0, 0, ty, 0, 0, 0] @ le32 start) @ le32 cnt @ r) 12 = cnt"
    using rd32_le32 [of "[0, 0, 0, 0, ty, 0, 0, 0] @ le32 start" cnt r] by (simp add: eval_nat_numeral)
  ultimately show ?thesis by (simp add: dec_entry_def entry_def entry_bytes_def)
qed

lemma table_sector_table:
  "partition_table (table_sector (entry_bytes t0 s0 c0) (entry_bytes t1 s1 c1)) = [entry t0 s0 c0, entry t1 s1 c1, entry 0 0 0, entry 0 0 0]"
proof -
  have "[0..<4] = [0, 1, 2, 3 :: nat]" by (simp add: upt_conv_Cons)
  then show ?thesis
    by (simp add: partition_table_def table_sector_def dec_entry_bytes entry_bytes_length drop_append)
qed

definition scan_drive :: drive where
  "scan_drive = \<lparr>dsecs = (\<lambda>a. if a = 0 then table_sector (entry_bytes 0x83 63 1000) (entry_bytes 5 2000 5000)
     else if a = 2000 then table_sector (entry_bytes 0x66 63 100) (entry_bytes 5 500 400)
     else if a = 2500 then table_sector (entry_bytes 0x66 63 200) (entry_bytes 0 0 0) else replicate 512 0), dready = True\<rparr>"

definition no_part :: part_desc where
  "no_part = \<lparr>pd_name = replicate 8 0, pd_start = 0, pd_cnt = 0\<rparr>"

definition scan_state :: ide_state where
  "scan_state = \<lparr>ext_lba_base = 0, p_no = 0, l_no = 0,
     disks = (\<lambda>_. \<lparr>hd_name = [115, 100, 98, 0, 0, 0, 0, 0], hd_dev_no = 1, prim_parts = replicate 4 no_part, logic_parts = replicate 8 no_part\<rparr>),
     partition_list = []\<rparr>"

lemma scan_drive_ok: "drive_ok scan_drive"
  by (auto simp: drive_ok_def scan_drive_def table_sector_def entry_bytes_length)

theorem partition_scan_finds_witness:
  "\<exists>s'. partition_scan 3 (\<lambda>_. scan_drive) 1 0 scan_state = Inr s' \<and>
     map pd_start (take 1 (prim_parts (disks s' 1))) = [63] \<and> map pd_start (take 2 (logic_parts (disks s' 1))) = [2063, 2563] \<and>
     partition_list s' = [(1, PrimPart 0), (1, LogicPart 0), (1, LogicPart 1)]"
proof -
  have t: "partition_table (dsecs scan_drive 0) = [entry 0x83 63 1000] @ entry 5 2000 5000 # [entry 0 0 0, entry 0 0 0]"
    "partition_table (dsecs scan_drive 2000) = [entry 0x66 63 100, entry 5 500 400, entry 0 0 0, entry 0 0 0]"
    "partition_table (dsecs scan_drive 2500) = [entry 0x66 63 200, entry 0 0 0, entry 0 0 0, entry 0 0 0]"
    by (simp_all add: scan_drive_def table_sector_table)
  have "ebr_chain scan_drive 2000 2500 [(2500 + pt_start_lba (entry 0x66 63 200), pt_sec_cnt (entry 0x66 63 200))]"
    by (rule ebr_last [OF _ _ t(3)]) (simp_all add: max_lba_def is_part_def unused_def entry_def)
  then have "ebr_chain scan_drive 2000 (pt_start_lba (entry 5 500 400) + 2000) [(2563, 200)]" by (simp add: entry_def)
  then have "ebr_chain scan_drive 2000 2000 ((2000 + pt_start_lba (entry 0x66 63 100), pt_sec_cnt (entry 0x66 63 100)) # [(2563, 200)])"
    by (intro ebr_link [OF _ _ t(2)]) (simp_all add: max_lba_def is_part_def unused_def entry_def)
  then have c: "ebr_chain scan_drive (pt_start_lba (entry 5 2000 5000)) (pt_start_lba (entry 5 2000 5000)) [(2063, 100), (2563, 200)]"
    by (simp add: entry_def)
  have "replicate 5 (0 :: u8) = [0, 0, 0, 0, 0]" by (simp add: eval_nat_numeral)
  then have sl: "slots_ok 1 [115, 100, 98] scan_state" by (simp add: slots_ok_def scan_state_def named_disk_def no_part_def)
  have f: "filter is_part ([entry 0x83 63 1000] @ [entry 0 0 0, entry 0 0 0]) = [entry 0x83 63 1000]" "filter is_part [entry 0x83 63 1000] = [entry 0x83 63 1000]"
    by (simp_all add: is_part_def entry_def)
  note r = partition_scan_finds [where drives = "\<lambda>_. scan_drive" and dk = 1 and s = scan_state, OF scan_drive_ok sl _ _ _ t(1) _ _ _ _ c]
  have "\<exists>s'. (\<forall>depth > length [(2063 :: u32, 100 :: u32), (2563, 200)]. partition_scan depth (\<lambda>_. scan_drive) 1 0 scan_state = Inr s') \<and>
    take 1 (prim_parts (disks s' 1)) = parts_from [115, 100, 98] 1 0 [(63, 1000)] \<and>
    take (Suc (Suc 0)) (logic_parts (disks s' 1)) = parts_from [115, 100, 98] 5 0 [(2063, 100), (2563, 200)] \<and>
    partition_list s' = [(1, PrimPart 0), (1, LogicPart 0), (1, LogicPart 1)]"
    using r unfolding f by (simp add: scan_state_def entry_def upt_conv_Cons)
  then show ?thesis by (auto simp: parts_from_simps numeral_2_eq_2 dest!: spec [of _ 3])
qed

end
