(* ===== verification/Syscall.thy ===== *)
theory Syscall
  imports Process
begin

unbundle bit_operations_syntax

text \<open>
  Model of the system call interface: the numbers of \<^verbatim>\<open>lib/user/syscall.h\<close>, the table that
  \<^verbatim>\<open>userprog/syscall_init.c\<close> fills, the stubs of \<^verbatim>\<open>lib/user/syscall.c\<close>, and the path between them,
  \<^verbatim>\<open>syscall_handler\<close> and \<^verbatim>\<open>intr_exit\<close> of \<^verbatim>\<open>kernel/kernel.S\<close>, word by word on the kernel stack. The kernel
  functions behind the table are modelled in the theories of their components, each on the state it
  needs; here they are one argument, \<open>kern\<close>, that is given the function with its arguments.
  Pointers are 32-bit words, \<^verbatim>\<open>int32_t\<close> values are kept as their 32-bit patterns.
\<close>

section \<open>Numbers and kernel functions\<close>

datatype SYSCALL_NR =
    SYS_GETPID | SYS_WRITE | SYS_MALLOC | SYS_FREE | SYS_FORK | SYS_READ | SYS_PUTCHAR | SYS_CLEAR
    | SYS_GETCWD | SYS_OPEN | SYS_CLOSE | SYS_LSEEK | SYS_UNLINK | SYS_MKDIR | SYS_OPENDIR
    | SYS_CLOSEDIR | SYS_CHDIR | SYS_RMDIR | SYS_READDIR | SYS_REWINDDIR | SYS_STAT | SYS_PS
    | SYS_EXECV | SYS_EXIT | SYS_WAIT | SYS_PIPE

primrec syscall_number :: "SYSCALL_NR \<Rightarrow> nat" where
  "syscall_number SYS_GETPID = 0"
| "syscall_number SYS_WRITE = 1"
| "syscall_number SYS_MALLOC = 2"
| "syscall_number SYS_FREE = 3"
| "syscall_number SYS_FORK = 4"
| "syscall_number SYS_READ = 5"
| "syscall_number SYS_PUTCHAR = 6"
| "syscall_number SYS_CLEAR = 7"
| "syscall_number SYS_GETCWD = 8"
| "syscall_number SYS_OPEN = 9"
| "syscall_number SYS_CLOSE = 10"
| "syscall_number SYS_LSEEK = 11"
| "syscall_number SYS_UNLINK = 12"
| "syscall_number SYS_MKDIR = 13"
| "syscall_number SYS_OPENDIR = 14"
| "syscall_number SYS_CLOSEDIR = 15"
| "syscall_number SYS_CHDIR = 16"
| "syscall_number SYS_RMDIR = 17"
| "syscall_number SYS_READDIR = 18"
| "syscall_number SYS_REWINDDIR = 19"
| "syscall_number SYS_STAT = 20"
| "syscall_number SYS_PS = 21"
| "syscall_number SYS_EXECV = 22"
| "syscall_number SYS_EXIT = 23"
| "syscall_number SYS_WAIT = 24"
| "syscall_number SYS_PIPE = 25"

text \<open>The functions whose addresses the table holds.\<close>

datatype kfun =
    Sys_getpid | Sys_write | Sys_malloc | Sys_free | Sys_fork | Sys_read | Sys_putchar | Cls_screen
    | Sys_getcwd | Sys_open | Sys_close | Sys_lseek | Sys_unlink | Sys_mkdir | Sys_opendir
    | Sys_closedir | Sys_chdir | Sys_rmdir | Sys_readdir | Sys_rewinddir | Sys_stat | Sys_ps
    | Sys_execv | Sys_exit | Sys_wait | Sys_pipe

text \<open>A call of one of them with the arguments its prototype declares.\<close>

datatype kcall =
    Do_getpid | Do_write u32 u32 u32 | Do_malloc u32 | Do_free u32 | Do_fork | Do_read u32 u32 u32
    | Do_putchar u8 | Do_cls_screen | Do_getcwd u32 u32 | Do_open u32 u8 | Do_close u32
    | Do_lseek u32 u32 u8 | Do_unlink u32 | Do_mkdir u32 | Do_opendir u32 | Do_closedir u32
    | Do_chdir u32 | Do_rmdir u32 | Do_readdir u32 | Do_rewinddir u32 | Do_stat u32 u32 | Do_ps
    | Do_execv u32 u32 | Do_exit u32 | Do_wait u32 | Do_pipe u32

text \<open>A C function reads its parameters from the stack above its return address; of a parameter of one
  byte only the low byte of the word counts. \<open>stk\<close> is the stack from there on.\<close>

fun enter :: "kfun \<Rightarrow> u32 list \<Rightarrow> kcall" where
  "enter Sys_getpid stk = Do_getpid"
| "enter Sys_write stk = Do_write (stk ! 0) (stk ! 1) (stk ! 2)"
| "enter Sys_malloc stk = Do_malloc (stk ! 0)"
| "enter Sys_free stk = Do_free (stk ! 0)"
| "enter Sys_fork stk = Do_fork"
| "enter Sys_read stk = Do_read (stk ! 0) (stk ! 1) (stk ! 2)"
| "enter Sys_putchar stk = Do_putchar (ucast (stk ! 0))"
| "enter Cls_screen stk = Do_cls_screen"
| "enter Sys_getcwd stk = Do_getcwd (stk ! 0) (stk ! 1)"
| "enter Sys_open stk = Do_open (stk ! 0) (ucast (stk ! 1))"
| "enter Sys_close stk = Do_close (stk ! 0)"
| "enter Sys_lseek stk = Do_lseek (stk ! 0) (stk ! 1) (ucast (stk ! 2))"
| "enter Sys_unlink stk = Do_unlink (stk ! 0)"
| "enter Sys_mkdir stk = Do_mkdir (stk ! 0)"
| "enter Sys_opendir stk = Do_opendir (stk ! 0)"
| "enter Sys_closedir stk = Do_closedir (stk ! 0)"
| "enter Sys_chdir stk = Do_chdir (stk ! 0)"
| "enter Sys_rmdir stk = Do_rmdir (stk ! 0)"
| "enter Sys_readdir stk = Do_readdir (stk ! 0)"
| "enter Sys_rewinddir stk = Do_rewinddir (stk ! 0)"
| "enter Sys_stat stk = Do_stat (stk ! 0) (stk ! 1)"
| "enter Sys_ps stk = Do_ps"
| "enter Sys_execv stk = Do_execv (stk ! 0) (stk ! 1)"
| "enter Sys_exit stk = Do_exit (stk ! 0)"
| "enter Sys_wait stk = Do_wait (stk ! 0)"
| "enter Sys_pipe stk = Do_pipe (stk ! 0)"

section \<open>The table\<close>

definition syscall_nr :: nat where "syscall_nr = 32"

text \<open>The table is cleared memory before; \<^verbatim>\<open>syscall_init\<close> assigns its entries one after the other.\<close>

definition syscall_init :: "kfun option list \<Rightarrow> kfun option list" where
  "syscall_init syscall_table = syscall_table
     [syscall_number SYS_GETPID := Some Sys_getpid,
      syscall_number SYS_WRITE := Some Sys_write,
      syscall_number SYS_MALLOC := Some Sys_malloc,
      syscall_number SYS_FREE := Some Sys_free,
      syscall_number SYS_FORK := Some Sys_fork,
      syscall_number SYS_READ := Some Sys_read,
      syscall_number SYS_PUTCHAR := Some Sys_putchar,
      syscall_number SYS_CLEAR := Some Cls_screen,
      syscall_number SYS_GETCWD := Some Sys_getcwd,
      syscall_number SYS_OPEN := Some Sys_open,
      syscall_number SYS_CLOSE := Some Sys_close,
      syscall_number SYS_LSEEK := Some Sys_lseek,
      syscall_number SYS_UNLINK := Some Sys_unlink,
      syscall_number SYS_MKDIR := Some Sys_mkdir,
      syscall_number SYS_OPENDIR := Some Sys_opendir,
      syscall_number SYS_CLOSEDIR := Some Sys_closedir,
      syscall_number SYS_CHDIR := Some Sys_chdir,
      syscall_number SYS_RMDIR := Some Sys_rmdir,
      syscall_number SYS_READDIR := Some Sys_readdir,
      syscall_number SYS_REWINDDIR := Some Sys_rewinddir,
      syscall_number SYS_STAT := Some Sys_stat,
      syscall_number SYS_PS := Some Sys_ps,
      syscall_number SYS_EXECV := Some Sys_execv,
      syscall_number SYS_EXIT := Some Sys_exit,
      syscall_number SYS_WAIT := Some Sys_wait,
      syscall_number SYS_PIPE := Some Sys_pipe]"

definition sys_getpid :: "kthreads \<Rightarrow> u32 result" where
  "sys_getpid s = mapR (\<lambda>k. word_of_int (pid k)) (task (running_thread s) s)"

section \<open>The trap\<close>

text \<open>The registers of the user program at \<^verbatim>\<open>int 0x80\<close>.\<close>

record uregs =
  r_edi :: u32
  r_esi :: u32
  r_ebp :: u32
  r_ebx :: u32
  r_edx :: u32
  r_ecx :: u32
  r_eax :: u32
  r_gs :: u32
  r_fs :: u32
  r_es :: u32
  r_ds :: u32
  r_eip :: u32
  r_cs :: u32
  r_eflags :: u32
  r_esp :: u32
  r_ss :: u32

text \<open>What becomes of a call of a kernel function: it returns a value, it continues at \<^verbatim>\<open>intr_exit\<close> with a frame of
  its own (\<^verbatim>\<open>sys_execv\<close>), or the task never runs again (\<^verbatim>\<open>sys_exit\<close>). \<^verbatim>\<open>sys_fork\<close> and \<^verbatim>\<open>sys_execv\<close> work on the frame.\<close>

datatype 's outcome = Returns u32 intr_stack 's | To_intr_exit intr_stack 's | Stops 's

text \<open>\<open>kesp\<close> is the kernel stack pointer that \<^verbatim>\<open>pushad\<close> stores and \<^verbatim>\<open>popad\<close> skips.\<close>

record 's ksys =
  syscall_table :: "kfun option list"
  kern :: "kcall \<Rightarrow> intr_stack \<Rightarrow> 's \<Rightarrow> 's outcome"
  kesp :: u32

text \<open>What the user program sees: the next instruction after the trap with the returned registers, the start
  of a new program, nothing any more, or a call through a word that is no kernel function.\<close>

datatype ('a, 's) resumed = Ret 'a uregs 's | Restart uregs 's | Gone 's | Wild

primrec with_ret :: "('a \<Rightarrow> 'b) \<Rightarrow> ('a, 's) resumed \<Rightarrow> ('b, 's) resumed" where
  "with_ret f (Ret a r s) = Ret (f a) r s"
| "with_ret f (Restart r s) = Restart r s"
| "with_ret f (Gone s) = Gone s"
| "with_ret f Wild = Wild"

text \<open>The frame as the words on the stack, and back.\<close>

definition frame_words :: "intr_stack \<Rightarrow> u32 list" where
  "frame_words f = [is_vec_no f, is_edi f, is_esi f, is_ebp f, is_esp_dummy f, is_ebx f, is_edx f, is_ecx f,
     is_eax f, is_gs f, is_fs f, is_es f, is_ds f, is_err_code f, is_eip f, is_cs f, is_eflags f, is_esp f, is_ss f]"

definition words_frame :: "u32 list \<Rightarrow> intr_stack" where
  "words_frame w = \<lparr>is_vec_no = w ! 0, is_edi = w ! 1, is_esi = w ! 2, is_ebp = w ! 3, is_esp_dummy = w ! 4,
     is_ebx = w ! 5, is_edx = w ! 6, is_ecx = w ! 7, is_eax = w ! 8, is_gs = w ! 9, is_fs = w ! 10, is_es = w ! 11,
     is_ds = w ! 12, is_err_code = w ! 13, is_eip = w ! 14, is_cs = w ! 15, is_eflags = w ! 16, is_esp = w ! 17,
     is_ss = w ! 18\<rparr>"

definition push :: "u32 list \<Rightarrow> u32 list \<Rightarrow> u32 list" where
  "push ws stk = rev ws @ stk"

text \<open>The processor pushes \<open>ss\<close> to \<open>eip\<close>; the pushes of \<^verbatim>\<open>syscall_handler\<close> follow.\<close>

definition trap_frame :: "u32 \<Rightarrow> uregs \<Rightarrow> u32 list" where
  "trap_frame esp0 r =
     push [0x80]
      (push [r_eax r, r_ecx r, r_edx r, r_ebx r, esp0, r_ebp r, r_esi r, r_edi r]
        (push [r_ds r, r_es r, r_fs r, r_gs r]
          (push [0]
            (push [r_ss r, r_esp r, r_eflags r, r_cs r, r_eip r] []))))"

text \<open>\<^verbatim>\<open>intr_exit\<close>: skip the vector, \<^verbatim>\<open>popad\<close> without \<open>esp\<close>, the segment registers, skip the error code, \<^verbatim>\<open>iretd\<close>.\<close>

definition intr_exit :: "u32 list \<Rightarrow> uregs" where
  "intr_exit stk =
     (let stk = drop 1 stk; (p, stk) = (take 8 stk, drop 8 stk); (g, stk) = (take 4 stk, drop 4 stk); stk = drop 1 stk
      in \<lparr>r_edi = p ! 0, r_esi = p ! 1, r_ebp = p ! 2, r_ebx = p ! 4, r_edx = p ! 5, r_ecx = p ! 6, r_eax = p ! 7,
          r_gs = g ! 0, r_fs = g ! 1, r_es = g ! 2, r_ds = g ! 3,
          r_eip = stk ! 0, r_cs = stk ! 1, r_eflags = stk ! 2, r_esp = stk ! 3, r_ss = stk ! 4\<rparr>)"

text \<open>The entry \<^verbatim>\<open>[syscall_table + eax*4]\<close>: the address wraps at 32 bits, and nothing compares \<open>eax\<close> with the length.
  Behind the table lies other data, an entry never assigned is NULL.\<close>

definition table_entry :: "kfun option list \<Rightarrow> u32 \<Rightarrow> kfun option" where
  "table_entry tbl nr =
     (let i = unat (nr * 4) div 4 in if i < length tbl then tbl ! i else None)"

definition syscall_handler :: "'s ksys \<Rightarrow> uregs \<Rightarrow> 's \<Rightarrow> (u32, 's) resumed" where
  "syscall_handler S r s =
     (let stk = trap_frame (kesp S) r;
          stk = push [r_edx r, r_ecx r, r_ebx r] stk
      in case table_entry (syscall_table S) (r_eax r) of
           None \<Rightarrow> Wild
         | Some f \<Rightarrow>
             (case kern S (enter f stk) (words_frame (drop 3 stk)) s of
                Returns ret frm s \<Rightarrow>
                  let r = intr_exit ((frame_words frm)[8 := ret]) in Ret (r_eax r) r s
              | To_intr_exit frm s \<Rightarrow> Restart (intr_exit (frame_words frm)) s
              | Stops s \<Rightarrow> Gone s))"

section \<open>The stubs\<close>

definition syscall0 :: "SYSCALL_NR \<Rightarrow> 's ksys \<Rightarrow> uregs \<Rightarrow> 's \<Rightarrow> (u32, 's) resumed" where
  "syscall0 NUMBER S r = syscall_handler S (r\<lparr>r_eax := of_nat (syscall_number NUMBER)\<rparr>)"

definition syscall1 :: "SYSCALL_NR \<Rightarrow> u32 \<Rightarrow> 's ksys \<Rightarrow> uregs \<Rightarrow> 's \<Rightarrow> (u32, 's) resumed" where
  "syscall1 NUMBER ARG1 S r = syscall_handler S (r\<lparr>r_eax := of_nat (syscall_number NUMBER), r_ebx := ARG1\<rparr>)"

definition syscall2 :: "SYSCALL_NR \<Rightarrow> u32 \<Rightarrow> u32 \<Rightarrow> 's ksys \<Rightarrow> uregs \<Rightarrow> 's \<Rightarrow> (u32, 's) resumed" where
  "syscall2 NUMBER ARG1 ARG2 S r =
     syscall_handler S (r\<lparr>r_eax := of_nat (syscall_number NUMBER), r_ebx := ARG1, r_ecx := ARG2\<rparr>)"

definition syscall3 :: "SYSCALL_NR \<Rightarrow> u32 \<Rightarrow> u32 \<Rightarrow> u32 \<Rightarrow> 's ksys \<Rightarrow> uregs \<Rightarrow> 's \<Rightarrow> (u32, 's) resumed" where
  "syscall3 NUMBER ARG1 ARG2 ARG3 S r =
     syscall_handler S (r\<lparr>r_eax := of_nat (syscall_number NUMBER), r_ebx := ARG1, r_ecx := ARG2, r_edx := ARG3\<rparr>)"

text \<open>An operand of one byte fills the low byte of its register; the other bits are what they were, \<open>junk\<close>.\<close>

definition byte_reg :: "u32 \<Rightarrow> u8 \<Rightarrow> u32" where
  "byte_reg junk b = push_bit 8 (drop_bit 8 junk) OR ucast b"

text \<open>The user functions. \<^verbatim>\<open>pid_t\<close> has 16 bits; a function that returns nothing drops the value.\<close>

definition getpid_stub :: "'s ksys \<Rightarrow> uregs \<Rightarrow> 's \<Rightarrow> (u32, 's) resumed" where
  "getpid_stub S r s = syscall0 SYS_GETPID S r s"

definition write_stub :: "u32 \<Rightarrow> u32 \<Rightarrow> u32 \<Rightarrow> 's ksys \<Rightarrow> uregs \<Rightarrow> 's \<Rightarrow> (u32, 's) resumed" where
  "write_stub fd buf count S r s = syscall3 SYS_WRITE fd buf count S r s"

definition malloc_stub :: "u32 \<Rightarrow> 's ksys \<Rightarrow> uregs \<Rightarrow> 's \<Rightarrow> (u32, 's) resumed" where
  "malloc_stub n S r s = syscall1 SYS_MALLOC n S r s"

definition free_stub :: "u32 \<Rightarrow> 's ksys \<Rightarrow> uregs \<Rightarrow> 's \<Rightarrow> (unit, 's) resumed" where
  "free_stub ptr S r s = with_ret (\<lambda>_. ()) (syscall1 SYS_FREE ptr S r s)"

definition fork_stub :: "'s ksys \<Rightarrow> uregs \<Rightarrow> 's \<Rightarrow> (u16, 's) resumed" where
  "fork_stub S r s = with_ret ucast (syscall0 SYS_FORK S r s)"

definition read_stub :: "u32 \<Rightarrow> u32 \<Rightarrow> u32 \<Rightarrow> 's ksys \<Rightarrow> uregs \<Rightarrow> 's \<Rightarrow> (u32, 's) resumed" where
  "read_stub fd buf count S r s = syscall3 SYS_READ fd buf count S r s"

definition putchar_stub :: "u32 \<Rightarrow> u8 \<Rightarrow> 's ksys \<Rightarrow> uregs \<Rightarrow> 's \<Rightarrow> (unit, 's) resumed" where
  "putchar_stub junk char_asci S r s = with_ret (\<lambda>_. ()) (syscall1 SYS_PUTCHAR (byte_reg junk char_asci) S r s)"

definition clear_stub :: "'s ksys \<Rightarrow> uregs \<Rightarrow> 's \<Rightarrow> (unit, 's) resumed" where
  "clear_stub S r s = with_ret (\<lambda>_. ()) (syscall0 SYS_CLEAR S r s)"

definition getcwd_stub :: "u32 \<Rightarrow> u32 \<Rightarrow> 's ksys \<Rightarrow> uregs \<Rightarrow> 's \<Rightarrow> (u32, 's) resumed" where
  "getcwd_stub buf n S r s = syscall2 SYS_GETCWD buf n S r s"

definition open_stub :: "u32 \<Rightarrow> u32 \<Rightarrow> u8 \<Rightarrow> 's ksys \<Rightarrow> uregs \<Rightarrow> 's \<Rightarrow> (u32, 's) resumed" where
  "open_stub junk pathname flag S r s = syscall2 SYS_OPEN pathname (byte_reg junk flag) S r s"

definition close_stub :: "u32 \<Rightarrow> 's ksys \<Rightarrow> uregs \<Rightarrow> 's \<Rightarrow> (u32, 's) resumed" where
  "close_stub fd S r s = syscall1 SYS_CLOSE fd S r s"

definition lseek_stub :: "u32 \<Rightarrow> u32 \<Rightarrow> u32 \<Rightarrow> u8 \<Rightarrow> 's ksys \<Rightarrow> uregs \<Rightarrow> 's \<Rightarrow> (u32, 's) resumed" where
  "lseek_stub junk fd offset whence S r s = syscall3 SYS_LSEEK fd offset (byte_reg junk whence) S r s"

definition unlink_stub :: "u32 \<Rightarrow> 's ksys \<Rightarrow> uregs \<Rightarrow> 's \<Rightarrow> (u32, 's) resumed" where
  "unlink_stub pathname S r s = syscall1 SYS_UNLINK pathname S r s"

definition mkdir_stub :: "u32 \<Rightarrow> 's ksys \<Rightarrow> uregs \<Rightarrow> 's \<Rightarrow> (u32, 's) resumed" where
  "mkdir_stub pathname S r s = syscall1 SYS_MKDIR pathname S r s"

definition opendir_stub :: "u32 \<Rightarrow> 's ksys \<Rightarrow> uregs \<Rightarrow> 's \<Rightarrow> (u32, 's) resumed" where
  "opendir_stub name S r s = syscall1 SYS_OPENDIR name S r s"

definition closedir_stub :: "u32 \<Rightarrow> 's ksys \<Rightarrow> uregs \<Rightarrow> 's \<Rightarrow> (u32, 's) resumed" where
  "closedir_stub dir S r s = syscall1 SYS_CLOSEDIR dir S r s"

definition rmdir_stub :: "u32 \<Rightarrow> 's ksys \<Rightarrow> uregs \<Rightarrow> 's \<Rightarrow> (u32, 's) resumed" where
  "rmdir_stub pathname S r s = syscall1 SYS_RMDIR pathname S r s"

definition readdir_stub :: "u32 \<Rightarrow> 's ksys \<Rightarrow> uregs \<Rightarrow> 's \<Rightarrow> (u32, 's) resumed" where
  "readdir_stub dir S r s = syscall1 SYS_READDIR dir S r s"

definition rewinddir_stub :: "u32 \<Rightarrow> 's ksys \<Rightarrow> uregs \<Rightarrow> 's \<Rightarrow> (unit, 's) resumed" where
  "rewinddir_stub dir S r s = with_ret (\<lambda>_. ()) (syscall1 SYS_REWINDDIR dir S r s)"

definition stat_stub :: "u32 \<Rightarrow> u32 \<Rightarrow> 's ksys \<Rightarrow> uregs \<Rightarrow> 's \<Rightarrow> (u32, 's) resumed" where
  "stat_stub pathname buf S r s = syscall2 SYS_STAT pathname buf S r s"

definition chdir_stub :: "u32 \<Rightarrow> 's ksys \<Rightarrow> uregs \<Rightarrow> 's \<Rightarrow> (u32, 's) resumed" where
  "chdir_stub pathname S r s = syscall1 SYS_CHDIR pathname S r s"

definition ps_stub :: "'s ksys \<Rightarrow> uregs \<Rightarrow> 's \<Rightarrow> (unit, 's) resumed" where
  "ps_stub S r s = with_ret (\<lambda>_. ()) (syscall0 SYS_PS S r s)"

definition execv_stub :: "u32 \<Rightarrow> u32 \<Rightarrow> 's ksys \<Rightarrow> uregs \<Rightarrow> 's \<Rightarrow> (u32, 's) resumed" where
  "execv_stub pathname argv S r s = syscall2 SYS_EXECV pathname argv S r s"

definition exit_stub :: "u32 \<Rightarrow> 's ksys \<Rightarrow> uregs \<Rightarrow> 's \<Rightarrow> (unit, 's) resumed" where
  "exit_stub stat_loc S r s = with_ret (\<lambda>_. ()) (syscall1 SYS_EXIT stat_loc S r s)"

definition wait_stub :: "u32 \<Rightarrow> 's ksys \<Rightarrow> uregs \<Rightarrow> 's \<Rightarrow> (u16, 's) resumed" where
  "wait_stub stat_loc S r s = with_ret ucast (syscall1 SYS_WAIT stat_loc S r s)"

definition pipe_stub :: "u32 \<Rightarrow> 's ksys \<Rightarrow> uregs \<Rightarrow> 's \<Rightarrow> (u32, 's) resumed" where
  "pipe_stub pipefd S r s = syscall1 SYS_PIPE pipefd S r s"

lemmas stub_defs = getpid_stub_def write_stub_def malloc_stub_def free_stub_def fork_stub_def read_stub_def
    putchar_stub_def clear_stub_def getcwd_stub_def open_stub_def close_stub_def lseek_stub_def
    unlink_stub_def mkdir_stub_def opendir_stub_def closedir_stub_def rmdir_stub_def
    readdir_stub_def rewinddir_stub_def stat_stub_def chdir_stub_def ps_stub_def execv_stub_def
    exit_stub_def wait_stub_def pipe_stub_def

section \<open>The way into the kernel and back\<close>

text \<open>The system after start-up.\<close>

definition booted_sys :: "(kcall \<Rightarrow> intr_stack \<Rightarrow> 's \<Rightarrow> 's outcome) \<Rightarrow> u32 \<Rightarrow> 's ksys" where
  "booted_sys k esp0 = \<lparr>syscall_table = syscall_init (replicate syscall_nr None), kern = k, kesp = esp0\<rparr>"

text \<open>The frame of the interrupted program, field by field, and the registers in a frame.\<close>

definition user_frame :: "u32 \<Rightarrow> uregs \<Rightarrow> intr_stack" where
  "user_frame esp0 r = \<lparr>is_vec_no = 0x80, is_edi = r_edi r, is_esi = r_esi r, is_ebp = r_ebp r, is_esp_dummy = esp0,
     is_ebx = r_ebx r, is_edx = r_edx r, is_ecx = r_ecx r, is_eax = r_eax r, is_gs = r_gs r, is_fs = r_fs r,
     is_es = r_es r, is_ds = r_ds r, is_err_code = 0, is_eip = r_eip r, is_cs = r_cs r, is_eflags = r_eflags r,
     is_esp = r_esp r, is_ss = r_ss r\<rparr>"

definition frame_regs :: "intr_stack \<Rightarrow> uregs" where
  "frame_regs f = \<lparr>r_edi = is_edi f, r_esi = is_esi f, r_ebp = is_ebp f, r_ebx = is_ebx f, r_edx = is_edx f,
     r_ecx = is_ecx f, r_eax = is_eax f, r_gs = is_gs f, r_fs = is_fs f, r_es = is_es f, r_ds = is_ds f,
     r_eip = is_eip f, r_cs = is_cs f, r_eflags = is_eflags f, r_esp = is_esp f, r_ss = is_ss f\<rparr>"

text \<open>What a user program may expect of the call \<open>c\<close> made with the registers \<open>r\<close>: the kernel function runs on its
  frame, and the program goes on with the registers of the frame and the result in \<open>eax\<close>.\<close>

definition serve :: "(kcall \<Rightarrow> intr_stack \<Rightarrow> 's \<Rightarrow> 's outcome) \<Rightarrow> u32 \<Rightarrow> kcall \<Rightarrow> uregs \<Rightarrow> 's \<Rightarrow> (u32, 's) resumed" where
  "serve k esp0 c r s =
     (case k c (user_frame esp0 r) s of
        Returns ret f s' \<Rightarrow> Ret ret ((frame_regs f)\<lparr>r_eax := ret\<rparr>) s'
      | To_intr_exit f s' \<Rightarrow> Restart (frame_regs f) s'
      | Stops s' \<Rightarrow> Gone s')"

lemma trap_frame_user: "words_frame (trap_frame esp0 r) = user_frame esp0 r"
  by (simp add: trap_frame_def push_def words_frame_def user_frame_def)

lemma intr_exit_frame: "intr_exit (frame_words f) = frame_regs f"
  by (simp add: intr_exit_def frame_words_def frame_regs_def)

text \<open>\<^verbatim>\<open>mov [esp + 8*4], eax\<close> hits the saved \<open>eax\<close>.\<close>

lemma frame_words_eax: "(frame_words f)[8 := v] = frame_words (f\<lparr>is_eax := v\<rparr>)"
  by (simp add: frame_words_def)

lemma frame_regs_eax [simp]: "frame_regs (f\<lparr>is_eax := v\<rparr>) = (frame_regs f)\<lparr>r_eax := v\<rparr>"
  by (simp add: frame_regs_def)


lemma table_entry_booted:
  "table_entry (syscall_table (booted_sys k e)) (of_nat (syscall_number n))
     = syscall_init (replicate 32 None) ! syscall_number n"
  by (cases n) (simp_all add: table_entry_def booted_sys_def syscall_init_def syscall_nr_def)

text \<open>No kernel function has more than three parameters.\<close>

lemma enter_args: "enter f (a # b # c # stk) = enter f [a, b, c]"
  by (cases f) simp_all

text \<open>The arguments in \<open>ebx\<close>, \<open>ecx\<close>, \<open>edx\<close> are the words above the frame.\<close>

lemma handler_serves:
  assumes "r_eax r = of_nat (syscall_number n)"
    and "syscall_init (replicate 32 None) ! syscall_number n = Some f"
  shows "syscall_handler (booted_sys k e) r s
    = serve k e (enter f [r_ebx r, r_ecx r, r_edx r]) r s"
proof -
  have "table_entry (syscall_table (booted_sys k e)) (r_eax r) = Some f"
    using table_entry_booted [of k e n] assms by simp
  moreover have "push [r_edx r, r_ecx r, r_ebx r] (trap_frame e r) = r_ebx r # r_ecx r # r_edx r # trap_frame e r"
    by (simp add: push_def)
  moreover have "kern (booted_sys k e) = k" "kesp (booted_sys k e) = e" by (simp_all add: booted_sys_def)
  moreover have "intr_exit ((frame_words g)[8 := v]) = (frame_regs g)\<lparr>r_eax := v\<rparr>" for g v
    by (simp only: frame_words_eax intr_exit_frame frame_regs_eax)
  ultimately show ?thesis
    by (simp add: syscall_handler_def serve_def trap_frame_user intr_exit_frame Let_def
        enter_args [of f _ _ _ "trap_frame e r"] split: outcome.split)
qed

lemmas serve_syscall = syscall0_def syscall1_def syscall2_def syscall3_def

lemma byte_reg_low [simp]: "ucast (byte_reg junk b) = b"
  by (rule bit_word_eqI) (auto simp: byte_reg_def bit_simps)

section \<open>Every stub reaches its function\<close>

lemma arg_nth: "(a # xs) ! 0 = a" "(a # b # xs) ! 1 = b" "(a # b # c # xs) ! 2 = c"
  by simp_all

lemma boot_table:
  "syscall_init (replicate 32 None) ! syscall_number SYS_GETPID = Some Sys_getpid"
  "syscall_init (replicate 32 None) ! syscall_number SYS_WRITE = Some Sys_write"
  "syscall_init (replicate 32 None) ! syscall_number SYS_MALLOC = Some Sys_malloc"
  "syscall_init (replicate 32 None) ! syscall_number SYS_FREE = Some Sys_free"
  "syscall_init (replicate 32 None) ! syscall_number SYS_FORK = Some Sys_fork"
  "syscall_init (replicate 32 None) ! syscall_number SYS_READ = Some Sys_read"
  "syscall_init (replicate 32 None) ! syscall_number SYS_PUTCHAR = Some Sys_putchar"
  "syscall_init (replicate 32 None) ! syscall_number SYS_CLEAR = Some Cls_screen"
  "syscall_init (replicate 32 None) ! syscall_number SYS_GETCWD = Some Sys_getcwd"
  "syscall_init (replicate 32 None) ! syscall_number SYS_OPEN = Some Sys_open"
  "syscall_init (replicate 32 None) ! syscall_number SYS_CLOSE = Some Sys_close"
  "syscall_init (replicate 32 None) ! syscall_number SYS_LSEEK = Some Sys_lseek"
  "syscall_init (replicate 32 None) ! syscall_number SYS_UNLINK = Some Sys_unlink"
  "syscall_init (replicate 32 None) ! syscall_number SYS_MKDIR = Some Sys_mkdir"
  "syscall_init (replicate 32 None) ! syscall_number SYS_OPENDIR = Some Sys_opendir"
  "syscall_init (replicate 32 None) ! syscall_number SYS_CLOSEDIR = Some Sys_closedir"
  "syscall_init (replicate 32 None) ! syscall_number SYS_CHDIR = Some Sys_chdir"
  "syscall_init (replicate 32 None) ! syscall_number SYS_RMDIR = Some Sys_rmdir"
  "syscall_init (replicate 32 None) ! syscall_number SYS_READDIR = Some Sys_readdir"
  "syscall_init (replicate 32 None) ! syscall_number SYS_REWINDDIR = Some Sys_rewinddir"
  "syscall_init (replicate 32 None) ! syscall_number SYS_STAT = Some Sys_stat"
  "syscall_init (replicate 32 None) ! syscall_number SYS_PS = Some Sys_ps"
  "syscall_init (replicate 32 None) ! syscall_number SYS_EXECV = Some Sys_execv"
  "syscall_init (replicate 32 None) ! syscall_number SYS_EXIT = Some Sys_exit"
  "syscall_init (replicate 32 None) ! syscall_number SYS_WAIT = Some Sys_wait"
  "syscall_init (replicate 32 None) ! syscall_number SYS_PIPE = Some Sys_pipe"
  by (simp_all add: syscall_init_def)

lemma syscall_serves:
  assumes "syscall_init (replicate 32 None) ! syscall_number n = Some f"
  shows "syscall0 n (booted_sys k e) r s = (let r = r\<lparr>r_eax := of_nat (syscall_number n)\<rparr>
      in serve k e (enter f [r_ebx r, r_ecx r, r_edx r]) r s)"
    and "syscall1 n a (booted_sys k e) r s = (let r = r\<lparr>r_eax := of_nat (syscall_number n), r_ebx := a\<rparr>
      in serve k e (enter f [a, r_ecx r, r_edx r]) r s)"
    and "syscall2 n a b (booted_sys k e) r s
      = (let r = r\<lparr>r_eax := of_nat (syscall_number n), r_ebx := a, r_ecx := b\<rparr>
      in serve k e (enter f [a, b, r_edx r]) r s)"
    and "syscall3 n a b c (booted_sys k e) r s
      = (let r = r\<lparr>r_eax := of_nat (syscall_number n), r_ebx := a, r_ecx := b, r_edx := c\<rparr>
      in serve k e (enter f [a, b, c]) r s)"
  by (simp_all add: serve_syscall Let_def handler_serves [OF _ assms])

lemmas boot_serves = boot_table [THEN syscall_serves(1)] boot_table [THEN syscall_serves(2)]
  boot_table [THEN syscall_serves(3)] boot_table [THEN syscall_serves(4)]

text \<open>C13. After start-up every user function of \<^verbatim>\<open>lib/user/syscall.c\<close> runs the kernel function of its name on the
  frame of the caller, with exactly its own arguments, in their order and of the types that function declares,
  whatever the registers it does not set and the upper bits of a one-byte operand hold. The caller goes on with its own registers as the
  kernel left them in the frame and with the value of the kernel function, at the width the stub declares.\<close>

theorem stubs_reach_kernel:
  "getpid_stub (booted_sys k e) r s
       = serve k e Do_getpid (r\<lparr>r_eax := of_nat (syscall_number SYS_GETPID)\<rparr>) s
   \<and> write_stub fd buf count (booted_sys k e) r s
       = serve k e (Do_write fd buf count) (r\<lparr>r_eax := of_nat (syscall_number SYS_WRITE), r_ebx := fd, r_ecx := buf, r_edx := count\<rparr>) s
   \<and> malloc_stub n (booted_sys k e) r s
       = serve k e (Do_malloc n) (r\<lparr>r_eax := of_nat (syscall_number SYS_MALLOC), r_ebx := n\<rparr>) s
   \<and> free_stub ptr (booted_sys k e) r s
       = with_ret (\<lambda>_. ()) (serve k e (Do_free ptr) (r\<lparr>r_eax := of_nat (syscall_number SYS_FREE), r_ebx := ptr\<rparr>) s)
   \<and> fork_stub (booted_sys k e) r s
       = with_ret ucast (serve k e Do_fork (r\<lparr>r_eax := of_nat (syscall_number SYS_FORK)\<rparr>) s)
   \<and> read_stub fd buf count (booted_sys k e) r s
       = serve k e (Do_read fd buf count) (r\<lparr>r_eax := of_nat (syscall_number SYS_READ), r_ebx := fd, r_ecx := buf, r_edx := count\<rparr>) s
   \<and> putchar_stub junk char_asci (booted_sys k e) r s
       = with_ret (\<lambda>_. ()) (serve k e (Do_putchar char_asci) (r\<lparr>r_eax := of_nat (syscall_number SYS_PUTCHAR), r_ebx := (byte_reg junk char_asci)\<rparr>) s)
   \<and> clear_stub (booted_sys k e) r s
       = with_ret (\<lambda>_. ()) (serve k e Do_cls_screen (r\<lparr>r_eax := of_nat (syscall_number SYS_CLEAR)\<rparr>) s)
   \<and> getcwd_stub buf n (booted_sys k e) r s
       = serve k e (Do_getcwd buf n) (r\<lparr>r_eax := of_nat (syscall_number SYS_GETCWD), r_ebx := buf, r_ecx := n\<rparr>) s
   \<and> open_stub junk pathname flag (booted_sys k e) r s
       = serve k e (Do_open pathname flag) (r\<lparr>r_eax := of_nat (syscall_number SYS_OPEN), r_ebx := pathname, r_ecx := (byte_reg junk flag)\<rparr>) s
   \<and> close_stub fd (booted_sys k e) r s
       = serve k e (Do_close fd) (r\<lparr>r_eax := of_nat (syscall_number SYS_CLOSE), r_ebx := fd\<rparr>) s
   \<and> lseek_stub junk fd offset whence (booted_sys k e) r s
       = serve k e (Do_lseek fd offset whence) (r\<lparr>r_eax := of_nat (syscall_number SYS_LSEEK), r_ebx := fd, r_ecx := offset, r_edx := (byte_reg junk whence)\<rparr>) s
   \<and> unlink_stub pathname (booted_sys k e) r s
       = serve k e (Do_unlink pathname) (r\<lparr>r_eax := of_nat (syscall_number SYS_UNLINK), r_ebx := pathname\<rparr>) s
   \<and> mkdir_stub pathname (booted_sys k e) r s
       = serve k e (Do_mkdir pathname) (r\<lparr>r_eax := of_nat (syscall_number SYS_MKDIR), r_ebx := pathname\<rparr>) s
   \<and> opendir_stub name (booted_sys k e) r s
       = serve k e (Do_opendir name) (r\<lparr>r_eax := of_nat (syscall_number SYS_OPENDIR), r_ebx := name\<rparr>) s
   \<and> closedir_stub dir (booted_sys k e) r s
       = serve k e (Do_closedir dir) (r\<lparr>r_eax := of_nat (syscall_number SYS_CLOSEDIR), r_ebx := dir\<rparr>) s
   \<and> rmdir_stub pathname (booted_sys k e) r s
       = serve k e (Do_rmdir pathname) (r\<lparr>r_eax := of_nat (syscall_number SYS_RMDIR), r_ebx := pathname\<rparr>) s
   \<and> readdir_stub dir (booted_sys k e) r s
       = serve k e (Do_readdir dir) (r\<lparr>r_eax := of_nat (syscall_number SYS_READDIR), r_ebx := dir\<rparr>) s
   \<and> rewinddir_stub dir (booted_sys k e) r s
       = with_ret (\<lambda>_. ()) (serve k e (Do_rewinddir dir) (r\<lparr>r_eax := of_nat (syscall_number SYS_REWINDDIR), r_ebx := dir\<rparr>) s)
   \<and> stat_stub pathname buf (booted_sys k e) r s
       = serve k e (Do_stat pathname buf) (r\<lparr>r_eax := of_nat (syscall_number SYS_STAT), r_ebx := pathname, r_ecx := buf\<rparr>) s
   \<and> chdir_stub pathname (booted_sys k e) r s
       = serve k e (Do_chdir pathname) (r\<lparr>r_eax := of_nat (syscall_number SYS_CHDIR), r_ebx := pathname\<rparr>) s
   \<and> ps_stub (booted_sys k e) r s
       = with_ret (\<lambda>_. ()) (serve k e Do_ps (r\<lparr>r_eax := of_nat (syscall_number SYS_PS)\<rparr>) s)
   \<and> execv_stub pathname argv (booted_sys k e) r s
       = serve k e (Do_execv pathname argv) (r\<lparr>r_eax := of_nat (syscall_number SYS_EXECV), r_ebx := pathname, r_ecx := argv\<rparr>) s
   \<and> exit_stub stat_loc (booted_sys k e) r s
       = with_ret (\<lambda>_. ()) (serve k e (Do_exit stat_loc) (r\<lparr>r_eax := of_nat (syscall_number SYS_EXIT), r_ebx := stat_loc\<rparr>) s)
   \<and> wait_stub stat_loc (booted_sys k e) r s
       = with_ret ucast (serve k e (Do_wait stat_loc) (r\<lparr>r_eax := of_nat (syscall_number SYS_WAIT), r_ebx := stat_loc\<rparr>) s)
   \<and> pipe_stub pipefd (booted_sys k e) r s
       = serve k e (Do_pipe pipefd) (r\<lparr>r_eax := of_nat (syscall_number SYS_PIPE), r_ebx := pipefd\<rparr>) s"
  by (simp_all only: stub_defs boot_serves Let_def enter.simps arg_nth byte_reg_low simp_thms)

text \<open>Nothing checks the number: one that is not assigned, or lies behind the table, is a call through a word that is
  no kernel function, and the two upper bits of \<open>eax\<close> are lost.\<close>

theorem syscall_number_unchecked:
  "syscall_nr \<le> unat (r_eax r * 4) div 4 \<Longrightarrow> syscall_handler (booted_sys k e) r s = Wild"
  "unat (r_eax r * 4) div 4 \<in> {26..31} \<Longrightarrow> syscall_handler (booted_sys k e) r s = Wild"
  "table_entry tbl (nr + 0x40000000) = table_entry tbl nr"
proof -
  show "syscall_handler (booted_sys k e) r s = Wild" if "syscall_nr \<le> unat (r_eax r * 4) div 4"
    using that by (simp add: syscall_handler_def table_entry_def booted_sys_def syscall_init_def syscall_nr_def)
  show "syscall_handler (booted_sys k e) r s = Wild" if "unat (r_eax r * 4) div 4 \<in> {26..31}"
  proof -
    have "unat (r_eax r * 4) div 4 \<in> set [26, 27, 28, 29, 30, 31]" using that by auto
    then have "table_entry (syscall_table (booted_sys k e)) (r_eax r) = None"
      by (auto simp: table_entry_def booted_sys_def syscall_init_def syscall_nr_def)
    then show ?thesis by (simp add: syscall_handler_def)
  qed
  have "(nr + 0x40000000) * 4 = nr * (4 :: u32)" by (simp add: distrib_right)
  then show "table_entry tbl (nr + 0x40000000) = table_entry tbl nr" by (simp only: table_entry_def)
qed

end
