(* ===== verification/Task_Print.thy ===== *)
theory Task_Print
  imports Stdio Pipe_Props
begin

text \<open>
  Model of \<^verbatim>\<open>pad_print\<close>, \<^verbatim>\<open>elem2thread_info\<close> and \<^verbatim>\<open>sys_ps\<close> of \<^verbatim>\<open>thread/thread.c\<close>: the table of tasks, printed through
  \<^verbatim>\<open>sys_write\<close> to the standard output of the caller. \<open>False\<close> is a call that has to wait in the middle.
\<close>

section \<open>The code\<close>

text \<open>The result of a write as a result of its caller: whether it may go on.\<close>

definition written :: "(int option \<times> kio) result \<Rightarrow> (bool \<times> kio) result" where
  "written = mapR (\<lambda>(n, k). (n \<noteq> None, k))"

definition and_then :: "(bool \<times> kio) result \<Rightarrow> (kio \<Rightarrow> (bool \<times> kio) result) \<Rightarrow> (bool \<times> kio) result" where
  "and_then r f = bindR r (\<lambda>(go, k). if go then f k else Inr (False, k))"

text \<open>The loop that fills with spaces, \<open>n\<close> rounds from \<open>i\<close> on.\<close>

fun pad_spaces :: "nat \<Rightarrow> nat \<Rightarrow> u8 list \<Rightarrow> u8 list result" where
  "pad_spaces 0 i buf = Inr buf"
| "pad_spaces (Suc n) i buf = bindR (set_byte_at buf i 32) (pad_spaces n (Suc i))"

text \<open>\<^verbatim>\<open>out_pad_0idx\<close> has eight bits. The argument of \<^verbatim>\<open>s\<close> is a string, of \<^verbatim>\<open>d\<close> a signed 16-bit and of \<^verbatim>\<open>x\<close> a 32-bit number.\<close>

datatype pad_arg = PadS u32 "u8 list" | PadD u16 | PadX u32

fun pad_sprintf :: "u8 list \<Rightarrow> pad_arg \<Rightarrow> (nat \<times> u8 list) result" where
  "pad_sprintf buf (PadS p s) = sprintf buf [37, 115, 0] [Ptr p s]"
| "pad_sprintf buf (PadD n) = sprintf buf [37, 100, 0] [Num (scast n)]"
| "pad_sprintf buf (PadX n) = sprintf buf [37, 120, 0] [Num n]"

definition pad_print :: "nat \<Rightarrow> pad_arg \<Rightarrow> kio \<Rightarrow> (bool \<times> kio) result" where
  "pad_print buf_len ptr k =
     bindR (pad_sprintf (replicate buf_len 0) ptr) (\<lambda>(n, buf).
     let out_pad_0idx = unat (of_nat n :: u8) in
     bindR (pad_spaces (buf_len - out_pad_0idx) out_pad_0idx buf) (\<lambda>buf.
     written (sys_write 1 buf (of_nat (buf_len - 1)) [] k)))"

text \<open>The literals \<^verbatim>\<open>NULL\<close> and the names of the states. \<open>p\<close> is the address of a literal.\<close>

definition null_text :: "u8 list" where
  "null_text = [78, 85, 76, 76]"

primrec status_text :: "task_status \<Rightarrow> u8 list" where
  "status_text TASK_RUNNING = [82, 85, 78, 78, 73, 78, 71]"
| "status_text TASK_READY = [82, 69, 65, 68, 89]"
| "status_text TASK_BLOCKED = [66, 76, 79, 67, 75, 69, 68]"
| "status_text TASK_WAITING = [87, 65, 73, 84, 73, 78, 71]"
| "status_text TASK_HANGING = [72, 65, 78, 71, 73, 78, 71]"
| "status_text TASK_DIED = [68, 73, 69, 68]"

definition elem2thread_info :: "u32 \<Rightarrow> u32 \<Rightarrow> kio \<Rightarrow> (bool \<times> kio) result" where
  "elem2thread_info p t k =
     bindR (task t (kth k)) (\<lambda>pthread.
     and_then (pad_print 16 (PadD (word_of_int (pid pthread))) k) (\<lambda>k.
     and_then (pad_print 16 (if parent_pid pthread = -1 then PadS p (null_text @ [0])
                             else PadD (word_of_int (parent_pid pthread))) k) (\<lambda>k.
     and_then (pad_print 16 (PadS p (status_text (status pthread) @ [0])) k) (\<lambda>k.
     and_then (pad_print 16 (PadX (elapsed_ticks pthread)) k) (\<lambda>k.
     bindR (strlen (Some (tname pthread))) (\<lambda>n.
     ASSERT (n < 17) ''strlen(pthread->name) < 17''
       (bindR (memcpy (Some (replicate 16 0)) (Some (tname pthread)) n) (\<lambda>out_pad.
        bindR (strcat (Some out_pad) (Some [10, 0])) (\<lambda>out_pad.
        bindR (strlen (Some out_pad)) (\<lambda>n.
        written (sys_write 1 out_pad (of_nat n) [] k)))))))))))"

definition ps_title :: "u8 list" where
  "ps_title = [80, 73, 68] @ replicate 12 32 @ [80, 80, 73, 68] @ replicate 11 32 @ [83, 84, 65, 84] @ replicate 11 32
     @ [84, 73, 67, 75, 83] @ replicate 10 32 @ [67, 79, 77, 77, 65, 78, 68, 10]"

fun ps_list :: "u32 \<Rightarrow> u32 list \<Rightarrow> kio \<Rightarrow> (bool \<times> kio) result" where
  "ps_list p [] k = Inr (True, k)"
| "ps_list p (t # ts) k = and_then (elem2thread_info p t k) (ps_list p ts)"

definition sys_ps :: "u32 \<Rightarrow> kio \<Rightarrow> (bool \<times> kio) result" where
  "sys_ps p k =
     bindR (strlen (Some (ps_title @ [0]))) (\<lambda>n.
     and_then (written (sys_write 1 (ps_title @ [0]) (of_nat n) [] k)) (\<lambda>k.
     ps_list p (thread_all_list (kth k)) k))"

section \<open>Printing on a free console\<close>

text \<open>The standard output is the console and nobody holds its lock.\<close>

definition console_ready :: "kio \<Rightarrow> bool" where
  "console_ready k \<longleftrightarrow> is_pipe 1 k = Inr False \<and> locks (kth k) console_lock = lock_init \<and>
     running_thread (kth k) \<noteq> 0 \<and> ctls (kth k) (running_thread (kth k)) = Run"

definition on_screen :: "u8 list \<Rightarrow> kio \<Rightarrow> kio" where
  "on_screen cs k = k\<lparr>screen := screen k @ cs\<rparr>"

lemma on_screen_simps [simp]:
  "kth (on_screen cs k) = kth k" "kfs (on_screen cs k) = kfs k" "screen (on_screen cs k) = screen k @ cs"
  "on_screen ds (on_screen cs k) = on_screen (cs @ ds) k" "on_screen [] k = k"
  by (simp_all add: on_screen_def)

lemma console_ready_screen [simp]: "console_ready (on_screen cs k) = console_ready k"
  by (simp add: console_ready_def is_pipe_def)

lemma lock_cycle:
  assumes "locks s l = lock_init" and "running_thread s \<noteq> 0" and "ctls s (running_thread s) = Run"
  shows "\<exists>s'. lock_acquire l s = Inr s' \<and> holder (locks s' l) = running_thread s \<and> lock_release l s' = Inr s"
proof -
  have c: "(ctls s)(running_thread s := Run) = ctls s" using assms(3) by auto
  have l: "(locks s)(l := \<lparr>holder = 0, semaphore = \<lparr>sema_value = 1, waiters = []\<rparr>, holder_repeat_nr = 0\<rparr>) = locks s"
    using assms(1) by (auto simp: lock_init_def sema_init_def)
  let ?s = "s\<lparr>locks := (locks s)(l := \<lparr>holder = running_thread s, semaphore = \<lparr>sema_value = 0, waiters = []\<rparr>, holder_repeat_nr = 1\<rparr>)\<rparr>"
  have "lock_acquire l s = Inr ?s"
    using assms c by (simp add: lock_acquire_def lock_take_def sema_down_round_def upd_sema_def upd_lock_def lock_init_def sema_init_def ASSERT_def)
  moreover have "lock_release l ?s = Inr s"
    using l by (simp add: lock_release_def sema_up_def upd_sema_def upd_lock_def ASSERT_def)
  ultimately show ?thesis by (intro exI [of _ ?s]) simp
qed

lemma console_print_ready:
  assumes "console_ready k"
  shows "console_print cs k = Inr (True, on_screen cs k)"
proof -
  obtain s' where "lock_acquire console_lock (kth k) = Inr s'" "holder (locks s' console_lock) = running_thread (kth k)"
    "lock_release console_lock s' = Inr (kth k)"
    using lock_cycle [of "kth k" console_lock] assms by (auto simp: console_ready_def)
  then show ?thesis by (simp add: console_print_def console_acquire_def console_release_def on_screen_def)
qed

text \<open>Writing \<open>n\<close> bytes without a zero among them.\<close>

lemma write_ready:
  assumes "console_ready k" and "n < 1024" and "n \<le> length buf" and "0 \<notin> set (take n buf)"
  shows "written (sys_write 1 buf (of_nat n) [] k) = Inr (True, on_screen (take n buf) k)"
proof -
  have n: "unat (of_nat n :: u32) = n" using assms(2) by (intro unat_of_nat_u32) simp
  have m: "memcpy (Some (replicate 1024 0)) (Some buf) n = Inr (take n buf @ replicate (1024 - n) 0)"
    using assms memcpy_loop_eq [of n "replicate 1024 0" buf] by (simp add: memcpy_def)
  obtain j where j: "1024 - n = Suc j" using assms(2) by (cases "1024 - n") auto
  have "takeWhile (\<lambda>c. c \<noteq> 0) (take n buf @ replicate (1024 - n) 0) = take n buf"
    using assms(4) by (subst takeWhile_append2) (auto simp: j)
  then have "console_put_str (take n buf @ replicate (1024 - n) 0) k = Inr (True, on_screen (take n buf) k)"
    using console_print_ready [OF assms(1)] by (simp add: console_put_str_def j)
  then show ?thesis using assms(1) n m by (simp add: sys_write_def written_def console_ready_def)
qed

section \<open>One field\<close>

fun pad_text :: "pad_arg \<Rightarrow> u8 list" where
  "pad_text (PadS p s) = str_of s"
| "pad_text (PadD n) = show_int (sint n)"
| "pad_text (PadX n) = digits 16 (unat n)"

fun pad_ok :: "pad_arg \<Rightarrow> bool" where
  "pad_ok (PadS p s) = (0 \<in> set s \<and> length (str_of s) < 16)"
| "pad_ok a = True"

lemma sint_scast_16: "sint (scast (n :: u16) :: u32) = sint n"
proof -
  have n: "sint n = signed_take_bit 15 (uint n)" by (simp add: sint_uint)
  have "sint (scast n :: u32) = signed_take_bit 31 (sint n)" unfolding scast_eq by (simp only: signed_of_int) simp
  then show ?thesis using n by (simp add: signed_take_bit_signed_take_bit)
qed

lemma pad_text_short:
  assumes "pad_ok a"
  shows "length (pad_text a) < 16" and "0 \<notin> set (pad_text a)"
proof -
  have d: "length (digits 10 (nat \<bar>sint n\<bar>)) \<le> 5" for n :: u16
    using sint_ge [of n] sint_lt [of n] by (intro digits_short) auto
  have x: "length (digits 16 (unat n)) \<le> 8" for n :: u32
    using unsigned_less [of n] by (intro digits_short) auto
  show "length (pad_text a) < 16"
  proof (cases a)
    case (PadD n)
    then show ?thesis using d [of n] by (auto simp: show_int_def)
  next
    case (PadX n)
    then show ?thesis using x [of n] by simp
  qed (use assms in simp)
  show "0 \<notin> set (pad_text a)"
    using digits_nonzero by (cases a) (auto simp: show_int_def str_of_def dest: set_takeWhileD)
qed

lemma pad_sprintf_ok:
  assumes "pad_ok a"
  shows "pad_sprintf (replicate 16 0) a = Inr (length (pad_text a), pad_text a @ replicate (16 - length (pad_text a)) 0)"
proof (cases a)
  case (PadS p s)
  then have "render [37, 115] [Ptr p s] = Some (pad_text a)" using assms by (simp add: conversions_def)
  from vsprintf_ok [OF _ this pad_text_short(2) [OF assms], of 16 "[]"] show ?thesis
    using pad_text_short(1) [OF assms] PadS by (simp add: sprintf_def)
next
  case (PadD n)
  then have "render [37, 100] [Num (scast n)] = Some (pad_text a)" by (simp add: conversions_def sint_scast_16)
  from vsprintf_ok [OF _ this pad_text_short(2) [OF assms], of 16 "[]"] show ?thesis
    using pad_text_short(1) [OF assms] PadD by (simp add: sprintf_def)
next
  case (PadX n)
  then have "render [37, 120] [Num n] = Some (pad_text a)" by (simp add: conversions_def)
  from vsprintf_ok [OF _ this pad_text_short(2) [OF assms], of 16 "[]"] show ?thesis
    using pad_text_short(1) [OF assms] PadX by (simp add: sprintf_def)
qed

lemma pad_spaces_ok:
  "pad_spaces n (length out) (out @ replicate n 0 @ r) = Inr (out @ replicate n 32 @ r)"
proof (induction n arbitrary: out)
  case (Suc n)
  then show ?case using Suc [of "out @ [32]"] by (simp add: set_byte_at_def list_update_append)
qed simp

text \<open>A field in a column of 15 characters.\<close>

definition column :: "u8 list \<Rightarrow> u8 list" where
  "column t = t @ replicate (15 - length t) 32"

lemma pad_print_ready:
  assumes "console_ready k" and "pad_ok a"
  shows "pad_print 16 a k = Inr (True, on_screen (column (pad_text a)) k)"
proof -
  let ?t = "pad_text a"
  have t: "length ?t < 16" "0 \<notin> set ?t" using pad_text_short [OF assms(2)] .
  have n: "unat (of_nat (length ?t) :: u8) = length ?t" using t by (intro unat_of_nat_u8) simp
  have s: "pad_spaces (16 - length ?t) (length ?t) (?t @ replicate (16 - length ?t) 0) = Inr (?t @ replicate (16 - length ?t) 32)"
    using pad_spaces_ok [of "16 - length ?t" ?t "[]"] by simp
  have c: "take 15 (?t @ replicate (16 - length ?t) 32) = column ?t" using t by (simp add: column_def min_def)
  have "0 \<notin> set (column ?t)" using t by (simp add: column_def)
  then have "written (sys_write 1 (?t @ replicate (16 - length ?t) 32) (of_nat 15) [] k) = Inr (True, on_screen (column ?t) k)"
    using write_ready [OF assms(1), of 15 "?t @ replicate (16 - length ?t) 32"] t c by simp
  then show ?thesis using pad_sprintf_ok [OF assms(2)] n s by (simp add: pad_print_def Let_def)
qed

section \<open>The table\<close>

definition ps_row :: "task_struct \<Rightarrow> u8 list" where
  "ps_row k = column (show_int (pid k)) @ column (if parent_pid k = -1 then null_text else show_int (parent_pid k))
     @ column (status_text (status k)) @ column (digits 16 (unat (elapsed_ticks k))) @ str_of (tname k) @ [10]"

text \<open>A task with process identifiers of their type and a name of \<open>n\<close> characters.\<close>

definition pid_value :: "int \<Rightarrow> bool" where
  "pid_value i \<longleftrightarrow> - (2 ^ 15) \<le> i \<and> i < 2 ^ 15"

definition printable :: "task_struct \<Rightarrow> bool" where
  "printable k \<longleftrightarrow> pid_value (pid k) \<and> pid_value (parent_pid k) \<and> 0 \<in> set (tname k)"

lemma and_then_Inr [simp]: "and_then (Inr (b, k)) f = (if b then f k else Inr (False, k))"
  by (simp add: and_then_def)

lemma pid_text: "pid_value i \<Longrightarrow> pad_text (PadD (word_of_int i)) = show_int i"
  by (simp add: pid_value_def signed_of_int signed_take_bit_int_eq_self)

lemma literal_text:
  "pad_ok (PadS p (null_text @ [0]))" "pad_text (PadS p (null_text @ [0])) = null_text"
  "pad_ok (PadS p (status_text s @ [0]))" "pad_text (PadS p (status_text s @ [0])) = status_text s"
  by (cases s; simp add: null_text_def str_of_def)+

lemma name_written:
  assumes n: "0 \<in> set (tname x)" and len: "length (str_of (tname x)) \<le> 16"
  shows "strlen (Some (tname x)) = Inr (length (str_of (tname x)))"
    and "memcpy (Some (replicate 16 0)) (Some (tname x)) (length (str_of (tname x)))
      = Inr (str_of (tname x) @ replicate (16 - length (str_of (tname x))) 0)"
proof -
  have h: "holds_str (tname x) (str_of (tname x))" using n by (simp add: holds_str_iff)
  show "strlen (Some (tname x)) = Inr (length (str_of (tname x)))" using strlen_loop_eq [OF h] by (simp add: strlen_def)
  obtain r where r: "tname x = str_of (tname x) @ 0 # r" using h by (auto simp: holds_str_def)
  have l: "length (str_of (tname x)) \<le> length (tname x)" by (simp add: str_of_def length_takeWhile_le)
  have "take (length (str_of (tname x))) (tname x) = str_of (tname x)" by (subst r) simp
  then show "memcpy (Some (replicate 16 0)) (Some (tname x)) (length (str_of (tname x)))
      = Inr (str_of (tname x) @ replicate (16 - length (str_of (tname x))) 0)"
    using memcpy_loop_eq [of "length (str_of (tname x))" "replicate 16 0" "tname x"] len l by (simp add: memcpy_def)
qed

lemma strcat_past_end: "0 \<notin> set dst \<Longrightarrow> strcat_loop dst src = Inl OutOfBounds"
  by (induction dst) auto

text \<open>The name with its line feed fits with at most 14 characters.\<close>

lemma name_line:
  assumes z: "0 \<notin> set n" and len: "length n < 17" and c: "console_ready k"
  shows "bindR (strcat (Some (n @ replicate (16 - length n) 0)) (Some [10, 0])) (\<lambda>out_pad.
        bindR (strlen (Some out_pad)) (\<lambda>m. written (sys_write 1 out_pad (of_nat m) [] k)))
     = (if length n \<le> 14 then Inr (True, on_screen (n @ [10]) k) else Inl OutOfBounds)"
proof -
  have src: "holds_str [10, 0] [10 :: u8]" by (simp add: holds_str_Cons)
  consider "length n \<le> 14" | "length n = 15" | "length n = 16" using len by linarith
  then show ?thesis
  proof cases
    case 1
    define j where "j = 14 - length n"
    have j: "16 - length n = Suc (Suc j)" using 1 by (simp add: j_def)
    let ?b = "n @ replicate (16 - length n) 0"
    have "holds_str ?b n" using z by (simp add: holds_str_def j)
    from strcat_loop_eq [OF this src] have s: "strcat (Some ?b) (Some [10, 0]) = Inr (n @ [10] @ 0 # replicate j 0)"
      using 1 j by (simp add: strcat_def)
    have h: "holds_str (n @ [10] @ 0 # replicate j 0) (n @ [10])" using z by (auto simp: holds_str_def)
    have "strlen (Some (n @ [10] @ 0 # replicate j 0)) = Inr (length n + 1)" using strlen_loop_eq [OF h] by (simp add: strlen_def)
    then show ?thesis using s 1 z write_ready [OF c, of "length n + 1" "n @ [10] @ 0 # replicate j 0"] by simp
  next
    case 2
    then have "holds_str (n @ replicate (16 - length n) 0) n" using z by (simp add: holds_str_def)
    from strcat_loop_small [OF this src] show ?thesis using 2 by (simp add: strcat_def)
  next
    case 3
    then show ?thesis using z strcat_past_end [of n "[10, 0]"] by (simp add: strcat_def)
  qed
qed

text \<open>One task: its row, or with a name of 15 or 16 characters a write behind \<^verbatim>\<open>out_pad\<close>.\<close>

lemma row_printed:
  assumes c: "console_ready k" and t: "tasks (kth k) t = Some x" and p: "printable x"
    and len: "length (str_of (tname x)) < 17"
  shows "elem2thread_info q t k =
    (if length (str_of (tname x)) \<le> 14 then Inr (True, on_screen (ps_row x) k) else Inl OutOfBounds)"
proof -
  let ?n = "str_of (tname x)"
  have nm: "0 \<in> set (tname x)" "pid_value (pid x)" "pid_value (parent_pid x)" using p by (simp_all add: printable_def)
  have z: "0 \<notin> set ?n" by (auto simp: str_of_def dest: set_takeWhileD)
  have w: "strlen (Some (tname x)) = Inr (length ?n)"
    "memcpy (Some (replicate 16 0)) (Some (tname x)) (length ?n) = Inr (?n @ replicate (16 - length ?n) 0)"
    using name_written [OF nm(1)] len by simp_all
  note fields = pad_print_ready pid_text [OF nm(2)] pid_text [OF nm(3)] literal_text
  let ?k = "on_screen (column (show_int (pid x)) @ column (if parent_pid x = -1 then null_text else show_int (parent_pid x))
     @ column (status_text (status x)) @ column (digits 16 (unat (elapsed_ticks x)))) k"
  have "elem2thread_info q t k = bindR (strcat (Some (?n @ replicate (16 - length ?n) 0)) (Some [10, 0])) (\<lambda>out_pad.
        bindR (strlen (Some out_pad)) (\<lambda>n. written (sys_write 1 out_pad (of_nat n) [] ?k)))"
    using t c len w by (cases "parent_pid x = - 1") (simp_all add: elem2thread_info_def task_def fields ASSERT_def del: pad_text.simps(1,2) pad_ok.simps(1))
  moreover have "bindR (strcat (Some (?n @ replicate (16 - length ?n) 0)) (Some [10, 0])) (\<lambda>out_pad.
        bindR (strlen (Some out_pad)) (\<lambda>n. written (sys_write 1 out_pad (of_nat n) [] ?k)))
     = (if length ?n \<le> 14 then Inr (True, on_screen (?n @ [10]) ?k) else Inl OutOfBounds)"
    using name_line [OF z len, of ?k] c by simp
  ultimately show ?thesis by (simp add: ps_row_def)
qed

lemma ps_list_rows:
  assumes "console_ready k"
    and "\<forall>t \<in> set ts. \<exists>x. tasks (kth k) t = Some x \<and> printable x \<and> length (str_of (tname x)) \<le> 14"
  shows "ps_list q ts k = Inr (True, on_screen (concat (map (\<lambda>t. ps_row (the (tasks (kth k) t))) ts)) k)"
  using assms
proof (induction ts arbitrary: k)
  case (Cons t ts)
  then obtain x where x: "tasks (kth k) t = Some x" "printable x" "length (str_of (tname x)) \<le> 14" by auto
  then have "elem2thread_info q t k = Inr (True, on_screen (ps_row x) k)"
    using row_printed [OF Cons.prems(1) x(1,2)] by simp
  then show ?case using Cons.IH [of "on_screen (ps_row x) k"] Cons.prems x(1) by simp
qed simp

text \<open>
  C28. \<^verbatim>\<open>sys_ps\<close> on a free console prints the title and then, for the tasks in the order of the list of all threads, one
  line each: the process identifier, that of the parent or \<open>NULL\<close>, the name of the state and the ticks in
  hexadecimal, each in a column of 15 characters, and the name. It changes nothing but the screen. The names
  have at most 14 characters; \<open>row_printed\<close> shows that a longer one makes the kernel write behind its buffer.
\<close>

theorem ps_prints_table:
  assumes "console_ready k"
    and "\<forall>t \<in> set (thread_all_list (kth k)). \<exists>x. tasks (kth k) t = Some x \<and> printable x \<and> length (str_of (tname x)) \<le> 14"
  shows "sys_ps q k = Inr (True, on_screen (ps_title @ concat (map (\<lambda>t. ps_row (the (tasks (kth k) t))) (thread_all_list (kth k)))) k)"
proof -
  have z: "0 \<notin> set ps_title" "length ps_title = 68" by (simp_all add: ps_title_def)
  then have "holds_str (ps_title @ [0]) ps_title" by (simp add: holds_str_def)
  then have "strlen (Some (ps_title @ [0])) = Inr 68" using strlen_loop_eq z(2) by (simp add: strlen_def)
  moreover have "written (sys_write 1 (ps_title @ [0]) (of_nat 68) [] k) = Inr (True, on_screen ps_title k)"
    using write_ready [OF assms(1), of 68 "ps_title @ [0]"] z by simp
  moreover have "ps_list q (thread_all_list (kth k)) (on_screen ps_title k)
     = Inr (True, on_screen (ps_title @ concat (map (\<lambda>t. ps_row (the (tasks (kth k) t))) (thread_all_list (kth k)))) k)"
    using ps_list_rows [of "on_screen ps_title k" "thread_all_list (kth k)" q] assms by simp
  ultimately show ?thesis by (simp add: sys_ps_def)
qed

definition sample_task :: task_struct where
  "sample_task = \<lparr>self_kstack = 0xc0100f00, pid = 1, status = TASK_READY, priority = 31, tname = [115, 104] @ replicate 14 0,
     ticks = 31, elapsed_ticks = 42, fd_table = [0, 1, 2, -1, -1, -1, -1, -1], tpgdir = 0,
     tuserprog_vaddr = \<lparr>vaddr_bitmap = \<lparr>btmp_bytes_len = 0, bits = []\<rparr>, vaddr_start = 0\<rparr>, cwd_inode_nr = 0,
     parent_pid = -1, exit_status = 0, stack_magic = 0x19870916, tfunction = 0, tfunc_arg = 0\<rparr>"

theorem ps_prints_table_witness:
  "\<exists>k k'. screen k = [] \<and> thread_all_list (kth k) = [0xc0100000] \<and> sys_ps 0 k = Inr (True, k') \<and>
     screen k' = ps_title @ [49] @ replicate 14 32 @ [78, 85, 76, 76] @ replicate 11 32 @ [82, 69, 65, 68, 89] @ replicate 10 32
       @ [50, 65] @ replicate 13 32 @ [115, 104, 10]"
proof -
  obtain s0 where s0: "booted s0" "running_thread s0 = 0xc009e000" "ctls s0 = (\<lambda>_. Run)" "locks s0 = (\<lambda>_. lock_init)"
    by (rule sample_booted) blast
  let ?k = "sample_pipe (s0\<lparr>tasks := [0xc0100000 \<mapsto> sample_task], thread_all_list := [0xc0100000]\<rparr>)"
  have a: "kth ?k = s0\<lparr>tasks := [0xc0100000 \<mapsto> sample_task], thread_all_list := [0xc0100000]\<rparr>" "screen ?k = []"
    by (simp_all add: sample_pipe_def)
  have "is_pipe 1 ?k = Inr False"
    by (simp add: is_pipe_def fd_local2global_def sample_pipe_def byte_at_def PIPE_FLAG_def ASSERT_def)
  then have c: "console_ready ?k" using s0 by (simp add: console_ready_def a)
  have p: "printable sample_task" "str_of (tname sample_task) = [115, 104]"
    by (simp_all add: printable_def pid_value_def sample_task_def str_of_def)
  have "digits 16 42 = [50, 65]" "digits 10 1 = [49]" by (simp_all add: digits_step digits_one dig_def)
  then have row: "ps_row sample_task = [49] @ replicate 14 32 @ [78, 85, 76, 76] @ replicate 11 32 @ [82, 69, 65, 68, 89] @ replicate 10 32
       @ [50, 65] @ replicate 13 32 @ [115, 104, 10]"
    using p(2) by (simp add: ps_row_def sample_task_def column_def show_int_def null_text_def)
  let ?k' = "on_screen (ps_title @ ps_row sample_task) ?k"
  have r: "sys_ps 0 ?k = Inr (True, ?k')" using ps_prints_table [OF c, of 0] p by (simp add: a(1))
  show ?thesis
    by (rule exI [of _ ?k], rule exI [of _ ?k'], intro conjI) (rule a(2), simp add: a(1), rule r, simp add: a(2) row)
qed

end
