(* ===== verification/Shell_Run.thy ===== *)
theory Shell_Run
  imports Cmdline Task_Print
begin

text \<open>
  Model of the rest of the shell: \<^verbatim>\<open>buildin_ls\<close>, \<^verbatim>\<open>buildin_ps\<close> and \<^verbatim>\<open>buildin_clear\<close> of \<^verbatim>\<open>shell/buildin_cmd.c\<close>, what
  the other commands print, and one round of the loop of \<^verbatim>\<open>my_shell\<close> in \<^verbatim>\<open>shell/shell.c\<close>, from the line that was read
  to the command it runs. A call that has to wait in the middle of its output gives \<open>False\<close>; the address of a
  string that is printed is arbitrary and not NULL, \<open>1\<close> here.
\<close>

section \<open>Output\<close>

definition lit :: "string \<Rightarrow> u8 list" where
  "lit s = map (of_nat \<circ> of_char) s @ [0]"

definition ln :: "string \<Rightarrow> u8 list" where
  "ln s = map (of_nat \<circ> of_char) s @ [10, 0]"

definition say :: "u8 list \<Rightarrow> vararg list \<Rightarrow> kio \<Rightarrow> (bool \<times> kio) result" where
  "say fmt args k = written (printf fmt args k)"

definition on_fs :: "(fsys \<Rightarrow> ('a \<times> fsys) result) \<Rightarrow> kio \<Rightarrow> ('a \<times> kio) result" where
  "on_fs f k = mapR (\<lambda>(a, fs). (a, k\<lparr>kfs := fs\<rparr>)) (f (kfs k))"

definition pairing :: "('a \<times> 'b \<times> fsys) result \<Rightarrow> (('a \<times> 'b) \<times> fsys) result" where
  "pairing = mapR (\<lambda>(a, b, fs). ((a, b), fs))"

section \<open>The command ls\<close>

text \<open>Its arguments: what is listed and whether in full, or the message that ends it.\<close>

datatype ls_args = Ls_go "u8 list option" bool | Ls_help | Ls_invalid "u8 list" | Ls_two

fun ls_parse :: "u8 list list \<Rightarrow> u8 list option \<Rightarrow> bool \<Rightarrow> ls_args result" where
  "ls_parse [] pathname long_info = Inr (Ls_go pathname long_info)"
| "ls_parse (a # as) pathname long_info =
     bindR (byte_at a 0) (\<lambda>c.
     if c = 45 then
       bindR (strcmp (Some (lit ''-l'')) (Some a)) (\<lambda>r.
       if r = 0 then ls_parse as pathname True
       else bindR (strcmp (Some (lit ''-h'')) (Some a)) (\<lambda>r. if r = 0 then Inr Ls_help else Inr (Ls_invalid a)))
     else case pathname of None \<Rightarrow> ls_parse as (Some a) long_info | Some _ \<Rightarrow> Inr Ls_two)"

text \<open>The loops over the entries; a directory has fewer than 4096. The directory is not closed after a failed \<^verbatim>\<open>stat\<close>.\<close>

fun ls_names :: "nat \<Rightarrow> dirp \<Rightarrow> kio \<Rightarrow> (bool \<times> dirp \<times> kio) result" where
  "ls_names 0 dir k = Inl Diverges"
| "ls_names (Suc n) dir k =
     bindR (on_fs (\<lambda>fs. pairing (sys_readdir (Some dir) fs)) k) (\<lambda>((dir_e, dir), k). case dir_e of
         None \<Rightarrow> mapR (\<lambda>(go, k). (go, dir, k)) (say [10, 0] [] k)
       | Some e \<Rightarrow> bindR (say (lit ''%s '') [Ptr 1 e] k) (\<lambda>(go, k). if go then ls_names n dir k else Inr (False, dir, k)))"

datatype ls_end = Listed dirp | Failed | Waits

fun ls_long :: "nat \<Rightarrow> u8 list \<Rightarrow> u8 list \<Rightarrow> nat \<Rightarrow> dirp \<Rightarrow> kio \<Rightarrow> (ls_end \<times> kio) result" where
  "ls_long 0 g sub_pathname pathname_len dir k = Inl Diverges"
| "ls_long (Suc n) g sub_pathname pathname_len dir k =
     bindR (on_fs (\<lambda>fs. pairing (sys_readdir (Some dir) fs)) k) (\<lambda>((dir_e, dir), k). case dir_e of
         None \<Rightarrow> Inr (Listed dir, k)
       | Some e \<Rightarrow>
           let ftype = (if de_f_type e = FT_REGULAR then 45 else 100) in
           bindR (set_byte_at sub_pathname pathname_len 0) (\<lambda>sub_pathname.
           bindR (strcat (Some sub_pathname) (Some e)) (\<lambda>sub_pathname.
           bindR (on_fs (\<lambda>fs. pairing (sys_stat g sub_pathname fs)) k) (\<lambda>((ret, st'), k). case st' of
               None \<Rightarrow> mapR (\<lambda>(go, k). (if go then Failed else Waits, k))
                 (say (ln ''ls: cannot access %s: No such file or directory'') [Ptr 1 e] k)
             | Some s \<Rightarrow>
                 bindR (say (ln ''%c  %d  %d  %s'') [Num ftype, Num (de_i_no e), Num (st_size s), Ptr 1 e] k) (\<lambda>(go, k).
                 if go then ls_long n g sub_pathname pathname_len dir k else Inr (Waits, k))))))"

text \<open>The listing of \<^verbatim>\<open>pathname\<close>; \<^verbatim>\<open>opendir\<close> is not tested for NULL.\<close>

definition ls_dir :: "u8 list \<Rightarrow> u8 list \<Rightarrow> bool \<Rightarrow> stat \<Rightarrow> kio \<Rightarrow> (bool \<times> kio) result" where
  "ls_dir g pathname long_info file_stat k =
     bindR (on_fs (sys_opendir g pathname) k) (\<lambda>(dir, k).
     bindR (strlen (Some pathname)) (\<lambda>pathname_len.
     bindR (memcpy (Some (replicate 512 0)) (Some pathname) pathname_len) (\<lambda>sub_pathname.
     bindR (if pathname_len = 0 then Inl OutOfBounds else byte_at sub_pathname (pathname_len - 1)) (\<lambda>c.
     bindR (if c \<noteq> slash then mapR (\<lambda>s. (s, Suc pathname_len)) (set_byte_at sub_pathname pathname_len slash)
            else Inr (sub_pathname, pathname_len)) (\<lambda>(sub_pathname, pathname_len).
     case dir of None \<Rightarrow> Inl NullDeref
     | Some dir \<Rightarrow>
         bindR (on_fs (\<lambda>fs. Inr (sys_rewinddir dir fs)) k) (\<lambda>(dir, k).
         if long_info then
           and_then (say (ln ''total: %d'') [Num (st_size file_stat)] k) (\<lambda>k.
           bindR (ls_long 4096 g sub_pathname pathname_len dir k) (\<lambda>(r, k). case r of
               Listed dir \<Rightarrow> mapR (\<lambda>(_, k). (True, k)) (on_fs (sys_closedir (Some dir)) k)
             | Failed \<Rightarrow> Inr (True, k)
             | Waits \<Rightarrow> Inr (False, k)))
         else
           bindR (ls_names 4096 dir k) (\<lambda>(go, dir, k).
           if go then mapR (\<lambda>(_, k). (True, k)) (on_fs (sys_closedir (Some dir)) k) else Inr (False, k))))))))"

definition buildin_ls :: "u8 list \<Rightarrow> u8 list list \<Rightarrow> u8 list \<Rightarrow> kio \<Rightarrow> (bool \<times> u8 list \<times> kio) result" where
  "buildin_ls g argv final_path k =
     bindR (ls_parse (tl argv) None False) (\<lambda>a. case a of
       Ls_help \<Rightarrow> mapR (\<lambda>(go, k). (go, final_path, k))
         (say (butlast (ln ''usage: -l list all infomation about the file.'') @ butlast (ln ''-h for help'')
               @ ln ''list all files in the current dirctory if no option'') [] k)
     | Ls_invalid o' \<Rightarrow> mapR (\<lambda>(go, k). (go, final_path, k))
         (say (butlast (ln ''ls: invalid option %s'') @ ln ''Try `ls -h' for more information.'') [Ptr 1 o'] k)
     | Ls_two \<Rightarrow> mapR (\<lambda>(go, k). (go, final_path, k)) (say (ln ''ls: only support one path'') [] k)
     | Ls_go pathname long_info \<Rightarrow>
         bindR (case pathname of
             None \<Rightarrow> on_fs (sys_getcwd final_path 512) k
           | Some p \<Rightarrow> on_fs (\<lambda>fs. mapR (\<lambda>(p, fs). (Some p, fs)) (make_clear_abs_path p final_path fs)) k) (\<lambda>(p, k).
         case p of
           None \<Rightarrow> mapR (\<lambda>(go, k). (go, final_path, k)) (say (ln ''ls: getcwd for default path failed'') [] k)
         | Some pathname \<Rightarrow> mapR (\<lambda>(go, k). (go, pathname, k))
             (bindR (on_fs (\<lambda>fs. pairing (sys_stat g pathname fs)) k) (\<lambda>((ret, st'), k). case st' of
                None \<Rightarrow> say (ln ''ls: cannot access %s: No such file or directory'') [Ptr 1 pathname] k
              | Some s \<Rightarrow>
                  if st_filetype s = FT_DIRECTORY then ls_dir g pathname long_info s k
                  else if long_info then say (ln ''-  %d  %d  %s'') [Num (st_ino s), Num (st_size s), Ptr 1 pathname] k
                  else say (ln ''%s'') [Ptr 1 pathname] k))))"

section \<open>The other commands\<close>

definition buildin_ps :: "u8 list list \<Rightarrow> kio \<Rightarrow> (bool \<times> kio) result" where
  "buildin_ps argv k = (if length argv \<noteq> 1 then say (ln ''ps: no argument support!'') [] k else sys_ps 1 k)"

definition cls_screen :: "kio \<Rightarrow> kio" where
  "cls_screen k = k\<lparr>screen := []\<rparr>"

definition buildin_clear :: "u8 list list \<Rightarrow> kio \<Rightarrow> (bool \<times> kio) result" where
  "buildin_clear argv k =
     (if length argv \<noteq> 1 then say (ln ''clear: no argument support!'') [] k else Inr (True, cls_screen k))"

text \<open>The globals of the shell.\<close>

record shell =
  final_path :: "u8 list"
  cwd_cache :: "u8 list"

definition print_prompt :: "shell \<Rightarrow> kio \<Rightarrow> (bool \<times> kio) result" where
  "print_prompt sh k = say (lit ''[rabbit@localhost %s]$ '') [Ptr 1 (cwd_cache sh)] k"

definition run_pwd :: "u8 list list \<Rightarrow> shell \<Rightarrow> kio \<Rightarrow> (bool \<times> shell \<times> kio) result" where
  "run_pwd argv sh k =
     bindR (on_fs (buildin_pwd argv (final_path sh)) k) (\<lambda>(p, k).
     if length argv \<noteq> 1 then mapR (\<lambda>(go, k). (go, sh, k)) (say (ln ''pwd: no argument support!'') [] k)
     else case p of
       None \<Rightarrow> mapR (\<lambda>(go, k). (go, sh, k)) (say (ln ''pwd: get current work directory failed.'') [] k)
     | Some p \<Rightarrow> mapR (\<lambda>(go, k). (go, sh\<lparr>final_path := p\<rparr>, k)) (say (ln ''%s'') [Ptr 1 p] k))"

text \<open>\<^verbatim>\<open>cd\<close>, and the copy of the new directory that \<^verbatim>\<open>my_shell\<close> keeps for the prompt.\<close>

definition run_cd :: "u8 list \<Rightarrow> u8 list list \<Rightarrow> shell \<Rightarrow> kio \<Rightarrow> (bool \<times> shell \<times> kio) result" where
  "run_cd g argv sh k =
     bindR (on_fs (\<lambda>fs. pairing (buildin_cd g argv (final_path sh) fs)) k) (\<lambda>((ret, p), k).
     let sh = sh\<lparr>final_path := p\<rparr> in
     if length argv > 2 then mapR (\<lambda>(go, k). (go, sh, k)) (say (ln ''cd: only support 1 argument!'') [] k)
     else case ret of
       None \<Rightarrow> mapR (\<lambda>(go, k). (go, sh, k)) (say (ln ''cd: no such directory %s'') [Ptr 1 p] k)
     | Some q \<Rightarrow>
         bindR (memset (Some (cwd_cache sh)) 0 512) (\<lambda>c.
         mapR (\<lambda>c. (True, sh\<lparr>cwd_cache := c\<rparr>, k)) (strcpy (Some c) (Some q))))"

text \<open>The three commands with a path: their messages need to know whether the path was the root.\<close>

definition run_path_command ::
    "(u8 list list \<Rightarrow> u8 list \<Rightarrow> fsys \<Rightarrow> (int \<times> u8 list \<times> fsys) result) \<Rightarrow> u8 list \<Rightarrow> u8 list \<Rightarrow>
     u8 list list \<Rightarrow> shell \<Rightarrow> kio \<Rightarrow> (bool \<times> shell \<times> kio) result" where
  "run_path_command cmd usage failed argv sh k =
     bindR (on_fs (\<lambda>fs. pairing (cmd argv (final_path sh) fs)) k) (\<lambda>((ret, p), k).
     let sh = sh\<lparr>final_path := p\<rparr> in
     mapR (\<lambda>(go, k). (go, sh, k))
       (if length argv \<noteq> 2 then say usage [] k
        else bindR (strcmp (Some root_str) (Some p)) (\<lambda>c.
          if c \<noteq> 0 \<and> ret \<noteq> 0 then say failed [Ptr 1 (argv ! 1)] k else Inr (True, k))))"

section \<open>One round of the shell\<close>

datatype builtin = Ls | Cd | Pwd | Ps | Clear | Mkdir | Rmdir | Rm

text \<open>The chain of comparisons with \<^verbatim>\<open>argv[0]\<close>.\<close>

definition commands :: "(u8 list \<times> builtin) list" where
  "commands = [(lit ''ls'', Ls), (lit ''cd'', Cd), (lit ''pwd'', Pwd), (lit ''ps'', Ps), (lit ''clear'', Clear),
     (lit ''mkdir'', Mkdir), (lit ''rmdir'', Rmdir), (lit ''rm'', Rm)]"

fun find_command :: "(u8 list \<times> builtin) list \<Rightarrow> buf \<Rightarrow> builtin option result" where
  "find_command [] a0 = Inr None"
| "find_command ((name, b) # cs) a0 =
     bindR (strcmp (Some name) a0) (\<lambda>c. if c = 0 then Inr (Some b) else find_command cs a0)"

text \<open>\<open>g\<close> and \<open>g'\<close> are the uninitialised buffers of the file system calls.\<close>

primrec run_builtin :: "builtin \<Rightarrow> u8 list \<Rightarrow> (nat \<Rightarrow> u8 list) \<Rightarrow> u8 list list \<Rightarrow> shell \<Rightarrow> kio \<Rightarrow> (bool \<times> shell \<times> kio) result" where
  "run_builtin Ls g g' argv sh k = mapR (\<lambda>(go, p, k). (go, sh\<lparr>final_path := p\<rparr>, k)) (buildin_ls g argv (final_path sh) k)"
| "run_builtin Cd g g' argv sh k = run_cd g argv sh k"
| "run_builtin Pwd g g' argv sh k = run_pwd argv sh k"
| "run_builtin Ps g g' argv sh k = mapR (\<lambda>(go, k). (go, sh, k)) (buildin_ps argv k)"
| "run_builtin Clear g g' argv sh k = mapR (\<lambda>(go, k). (go, sh, k)) (buildin_clear argv k)"
| "run_builtin Mkdir g g' argv sh k = run_path_command (buildin_mkdir g') (ln ''mkdir: only support 1 argument!'')
     (ln ''mkdir: create directory %s failed.'') argv sh k"
| "run_builtin Rmdir g g' argv sh k = run_path_command (buildin_rmdir g) (ln ''rmdir: only support 1 argument!'')
     (ln ''rmdir: remove %s failed.'') argv sh k"
| "run_builtin Rm g g' argv sh k = run_path_command (buildin_rm g) (ln ''rm: only support 1 argument!'')
     (ln ''rm: delete %s failed.'') argv sh k"

text \<open>What one line makes the shell do: nothing, a command of its own (with whether it finished), or \<^verbatim>\<open>fork\<close> for a
  program with these arguments.\<close>

datatype shell_step = Skip | Ran bool shell kio | Spawn "u8 list list"

definition shell_line :: "u8 list \<Rightarrow> (nat \<Rightarrow> u8 list) \<Rightarrow> u8 list \<Rightarrow> shell \<Rightarrow> kio \<Rightarrow> shell_step result" where
  "shell_line g g' cmd_line sh k =
     bindR (byte_at cmd_line 0) (\<lambda>c.
     if c = 0 then Inr Skip
     else
       bindR (cmd_parse (Some cmd_line) 32) (\<lambda>(argc, argv, cmd_line).
       if argc = -1 then mapR (\<lambda>(go, k). Ran go sh k) (say (ln ''num of arguments exceed %d'') [Num 16] k)
       else
         let args = map (\<lambda>p. drop (the p) cmd_line) (take (nat argc) argv) in
         bindR (find_command commands (map_option (\<lambda>p. drop p cmd_line) (argv ! 0))) (\<lambda>b. case b of
           Some b \<Rightarrow> mapR (\<lambda>(go, sh, k). Ran go sh k) (run_builtin b g g' args sh k)
         | None \<Rightarrow> Inr (Spawn args))))"

text \<open>The round with its prompt, from the keys that are typed on. A line without Enter is run after a message.\<close>

definition shell_round ::
    "u8 list \<Rightarrow> (nat \<Rightarrow> u8 list) \<Rightarrow> u8 list \<Rightarrow> shell \<Rightarrow> kio \<Rightarrow> (shell_step \<times> u8 list) result" where
  "shell_round g g' keys sh k =
     bindR (print_prompt sh k) (\<lambda>(go, k).
     if \<not> go then Inr (Ran False sh k, keys)
     else
       bindR (memset (Some (final_path sh)) 0 512) (\<lambda>p.
       let sh = sh\<lparr>final_path := p\<rparr> in
       bindR (readline 512 (replicate 512 0) 0 keys) (\<lambda>r. case r of
           Waiting buf pos \<Rightarrow> Inr (Ran False sh k, [])
         | Line buf keys \<Rightarrow> mapR (\<lambda>st'. (st', keys)) (shell_line g g' buf sh k)
         | NoEnter buf keys \<Rightarrow>
             bindR (say (ln ''readline: can`t find enter_key in the cmd_line, max num of char is 128'') [] k) (\<lambda>(go, k).
             if go then mapR (\<lambda>st'. (st', keys)) (shell_line g g' buf sh k) else Inr (Ran False sh k, keys)))))"

definition shell_start :: "shell \<Rightarrow> shell result" where
  "shell_start sh = mapR (\<lambda>c. sh\<lparr>cwd_cache := c\<rparr>) (set_byte_at (cwd_cache sh) 0 slash)"

text \<open>The child of a \<^verbatim>\<open>fork\<close>: it exits or calls \<^verbatim>\<open>execv\<close> with its arguments.\<close>

datatype child_step = Child_exit int shell kio | Child_exec "u8 list" "u8 list list" shell kio | Child_waits

definition shell_child :: "u8 list \<Rightarrow> u8 list list \<Rightarrow> shell \<Rightarrow> kio \<Rightarrow> child_step result" where
  "shell_child g argv sh k =
     bindR (on_fs (make_clear_abs_path (argv ! 0) (final_path sh)) k) (\<lambda>(p, k).
     let sh = sh\<lparr>final_path := p\<rparr>; argv = argv[0 := p] in
     bindR (on_fs (\<lambda>fs. pairing (sys_stat g p fs)) k) (\<lambda>((ret, file_stat), k).
     if ret = -1 then
       mapR (\<lambda>(go, k). if go then Child_exit (-1) sh k else Child_waits)
         (say (ln ''my_shell: cannot access %s: No such file or directory'') [Ptr 1 p] k)
     else Inr (Child_exec p argv sh k)))"

text \<open>The parent after its \<^verbatim>\<open>wait\<close>.\<close>

definition shell_parent :: "int \<Rightarrow> int \<Rightarrow> kio \<Rightarrow> (bool \<times> kio) result" where
  "shell_parent child_pid stat_loc k =
     (if child_pid = -1 then Inl (KPanic ''my_shell: no child'')
      else say (ln ''child_pid %d, it's status: %d'') [Num (word_of_int child_pid), Num (word_of_int stat_loc)] k)"

section \<open>The first word decides\<close>

lemma find_command_ok:
  assumes "holds_str a w" and "\<forall>(n, b) \<in> set cs. 0 \<in> set n"
  shows "find_command cs (Some a) = Inr (map_of (map (\<lambda>(n, b). (str_of n, b)) cs) w)"
  using assms(2)
proof (induction cs)
  case (Cons x cs)
  obtain n b where x: "x = (n, b)" by (cases x)
  then have "holds_str n (str_of n)" using Cons.prems by (simp add: holds_str_iff)
  then obtain c where "strcmp (Some n) (Some a) = Inr c" "c = 0 \<longleftrightarrow> str_of n = w"
    using strcmp_str assms(1) by blast
  then show ?case using Cons x by auto
qed simp

lemma command_names: "\<forall>(n, b) \<in> set commands. 0 \<in> set n"
  by (simp add: commands_def lit_def)

definition builtin_named :: "u8 list \<Rightarrow> builtin option" where
  "builtin_named = map_of (map (\<lambda>(n, b). (str_of n, b)) commands)"

lemma find_builtin:
  "holds_str a w \<Longrightarrow> find_command commands (Some a) = Inr (builtin_named w)"
  "find_command commands None = Inl (AssertFail ''a != NULL && b != NULL'')"
  using find_command_ok [OF _ command_names] by (simp_all add: builtin_named_def) (simp add: commands_def strcmp_def)



end
