(* ===== verification/Timer.thy ===== *)
theory Timer
  imports Interrupt Kernel_Run
begin

unbundle bit_operations_syntax

text \<open>
  Model of the rest of \<^verbatim>\<open>device/timer.c\<close>: programming the counter, and sleeping. The tick handler is in \<open>Thread\<close>.
  A thread that sleeps yields the processor and looks at the tick counter again when it runs next: one round
  of that loop is a definition.
\<close>

section \<open>The counter\<close>

definition IRQ0_FREQUENCY :: nat where "IRQ0_FREQUENCY = 100"
definition INPUT_FREQUENCY :: nat where "INPUT_FREQUENCY = 1193180"
definition COUNTER0_VALUE :: u16 where "COUNTER0_VALUE = of_nat (INPUT_FREQUENCY div IRQ0_FREQUENCY)"

text \<open>In \<^verbatim>\<open>(uint8_t)counter_value>>8\<close> the cast comes first, so the low byte is shifted.\<close>

definition frequency_set :: "u16 \<Rightarrow> u8 \<Rightarrow> u8 \<Rightarrow> u8 \<Rightarrow> u16 \<Rightarrow> cpu \<Rightarrow> cpu" where
  "frequency_set counter_port counter_no rwl counter_mode counter_value c =
     (let c = outb 0x43 (ucast (push_bit 6 (ucast counter_no) OR push_bit 4 (ucast rwl) OR push_bit 1 (ucast counter_mode) :: u32)) c;
          c = outb counter_port (ucast counter_value) c
      in outb counter_port (ucast (drop_bit 8 (ucast (ucast counter_value :: u8) :: u32))) c)"

definition timer_init :: "u32 \<Rightarrow> cpu \<Rightarrow> cpu result" where
  "timer_init handler c =
     (let c = frequency_set 0x40 0 3 2 COUNTER0_VALUE (vga_put [PutStr ''timer_init start\<newline>''] c)
      in mapR (vga_put [PutStr ''timer_init done\<newline>'']) (register_handler 0x20 handler c))"

text \<open>What the counter is told: mode 2 with both bytes of its value, which are those of 155 and not of the 11931 that
  100 interrupts a second need.\<close>

theorem timer_counter_truncated:
  assumes "0x20 < length (idt_table c)"
  shows "\<exists>c'. timer_init h c = Inr c' \<and> idt_table c' ! 0x20 = h \<and>
     out_ports c' = out_ports c @ [(0x43, 0x34), (0x40, 0x9b), (0x40, 0)] \<and>
     0x9b + 256 * 0 = (155 :: nat) \<and> unat COUNTER0_VALUE = 11931"
  using assms
  by (simp add: timer_init_def frequency_set_def register_handler_def outb_def vga_put_def Let_def
      COUNTER0_VALUE_def INPUT_FREQUENCY_def IRQ0_FREQUENCY_def)

section \<open>Sleeping\<close>

definition mil_seconds_per_intr :: u32 where
  "mil_seconds_per_intr = of_nat (1000 div IRQ0_FREQUENCY)"

text \<open>A round of the loop of \<^verbatim>\<open>ticks_to_sleep\<close>: \<open>True\<close> when it is over.\<close>

definition sleep_round :: "u32 \<Rightarrow> u32 \<Rightarrow> kthreads \<Rightarrow> (bool \<times> kthreads) result" where
  "sleep_round start_tick sleep_ticks s =
     (if global_ticks s - start_tick < sleep_ticks then mapR (\<lambda>s. (False, s)) (thread_yield s) else Inr (True, s))"

definition mtime_sleep :: "u32 \<Rightarrow> kthreads \<Rightarrow> (bool \<times> kthreads) result" where
  "mtime_sleep m_seconds s =
     (let sleep_ticks = DIV_ROUND_UP m_seconds mil_seconds_per_intr
      in ASSERT (sleep_ticks > 0) ''sleep_ticks > 0'' (sleep_round (global_ticks s) sleep_ticks s))"

lemma sleep_ticks_unat:
  "unat (DIV_ROUND_UP m mil_seconds_per_intr) = (if unat m < 2 ^ 32 - 9 then (unat m + 9) div 10 else 0)"
proof -
  have d: "DIV_ROUND_UP m mil_seconds_per_intr = (m + 9) div 10"
    by (simp add: DIV_ROUND_UP_def mil_seconds_per_intr_def IRQ0_FREQUENCY_def add.commute)
  have m: "unat m < 2 ^ 32" using unsigned_less [of m] by simp
  have "unat (m + 9) = (unat m + 9) mod 2 ^ 32" by (simp add: unat_word_ariths)
  then have "unat (m + 9) = (if unat m < 2 ^ 32 - 9 then unat m + 9 else unat m + 9 - 2 ^ 32)"
    using m by (simp add: mod_if)
  then show ?thesis using m by (simp add: d unat_div)
qed

text \<open>A sleep of \<open>m\<close> milliseconds is over in the round that sees \<open>d\<close> ticks of 10 milliseconds gone by, if these are
  enough, and not before, also when the counter has wrapped around in between. No milliseconds and the nine
  largest values fail the assertion.\<close>

theorem mtime_sleep_lasts:
  assumes "unat m < 2 ^ 32 - 9" and "d < 2 ^ 32" and "global_ticks s' = global_ticks s + of_nat d"
  shows "sleep_round (global_ticks s) (DIV_ROUND_UP m mil_seconds_per_intr) s' =
    (if unat m \<le> 10 * d then Inr (True, s') else mapR (\<lambda>s. (False, s)) (thread_yield s'))"
proof -
  define n where "n = DIV_ROUND_UP m mil_seconds_per_intr"
  have d: "unat (of_nat d :: u32) = d" using assms(2) by (simp add: unsigned_of_nat take_bit_nat_eq_self)
  have n: "unat n = (unat m + 9) div 10" unfolding n_def sleep_ticks_unat using assms(1) by (rule if_P)
  have "global_ticks s' - global_ticks s = of_nat d" using assms(3) by (simp only: add_diff_cancel_left')
  then have "(global_ticks s' - global_ticks s < n) = (d < (unat m + 9) div 10)"
    by (simp only: word_less_nat_alt d n)
  moreover have "(d < (k + 9) div 10) = (\<not> k \<le> 10 * d)" for k :: nat
    using div_less_iff_less_mult [of 10 "k + 9" "Suc d"] by (simp add: not_le less_Suc_eq_le) linarith
  ultimately have "(global_ticks s' - global_ticks s < n) = (\<not> unat m \<le> 10 * d)" by (simp only:)
  then show ?thesis unfolding n_def [symmetric] sleep_round_def by (cases "unat m \<le> 10 * d") (simp_all only: if_True if_False not_True_eq_False not_False_eq_True)
qed

theorem mtime_sleep_asserts:
  assumes "unat m = 0 \<or> 2 ^ 32 - 9 \<le> unat m"
  shows "mtime_sleep m s = Inl (AssertFail ''sleep_ticks > 0'')"
proof -
  have "unat (DIV_ROUND_UP m mil_seconds_per_intr) = 0" using assms sleep_ticks_unat [of m] by auto
  then have "DIV_ROUND_UP m mil_seconds_per_intr = 0" by (simp add: unat_eq_0)
  then show ?thesis by (simp add: mtime_sleep_def ASSERT_def)
qed

end
