(* ===== verification/Spec2Isabelle.thy ===== *)
theory Spec2Isabelle
  imports Bitmap Kernel_List Cstring Kheap Kernel_Run Format Dir_Props Keyboard Stdio Cmdline Exec_Props Exit_Props Partition_Props Syscall Task_Print Shell_Run Timer
begin

text \<open>
  A verification development of the kernel \<^verbatim>\<open>future_os\<close>, a 32-bit teaching operating system in C: memory
  management with paging, kernel threads with locks, a disk driver, an inode file system, pipes, a
  keyboard driver, formatted output and a shell. The sources are under \<^verbatim>\<open>src/code\<close>.

  \<^bold>\<open>How the program is modelled.\<close> Every function of the C code that is modelled is one definition with the
  name of the function, and its loops are recursive functions with a termination proof. State that the code
  keeps in global variables is an explicit record that is passed and returned. A failed \<^verbatim>\<open>ASSERT\<close>, a \<^verbatim>\<open>PANIC\<close>, a
  NULL dereference, an access outside a buffer and an endless loop are the errors of the type \<open>kerror\<close>; what
  the code reports to its caller (-1, NULL, false) is an ordinary value. Machine integers are words where their
  width matters, and numbers where the code compares and adds small counts only. Memory that the C code
  leaves uninitialised is an argument of the definition. Every definition is total;
  the one recursion that may not end, over the links of the partition tables, has its depth as an argument.

  \<^bold>\<open>The theories, in the order of the code.\<close>
  \<^item> \<open>Kernel_Prelude\<close>: words, errors, results and byte buffers.
  \<^item> \<open>Cstring\<close> models \<^verbatim>\<open>lib/string.c\<close> on byte buffers. Shown: the order that \<^verbatim>\<open>strcmp\<close> decides, where \<^verbatim>\<open>strchr\<close> and
    \<^verbatim>\<open>strrchr\<close> find a character, and that copies fit or overrun.
  \<^item> \<open>Bitmap\<close> models \<^verbatim>\<open>lib/kernel/bitmap.c\<close>. Shown: \<^verbatim>\<open>bitmap_scan\<close> is first fit, and where it leaves the bitmap.
  \<^item> \<open>Kernel_List\<close> models \<^verbatim>\<open>lib/kernel/list.c\<close> as pointers in a heap. Shown: the operations refine sequences and
    do not touch other lists. The later theories use sequences for the queues of the kernel.
  \<^item> \<open>Paging\<close>, \<open>Memory\<close>, \<open>Address_Space\<close>, \<open>Page_Alloc\<close>, \<open>Page_Owner\<close>, \<open>Kheap\<close> model \<^verbatim>\<open>kernel/memory.c\<close>: physical memory,
    the two-level translation with the recursive window through which the code writes its own page tables,
    the pools of frames and of virtual pages, and the block allocator on top. The lock of a pool is a field of
    it. Shown: what one new mapping changes, that pages and blocks handed out are fresh, cleared and
    disjoint, that freeing undoes allocation, and that initialisation establishes the invariants.
  \<^item> \<open>Thread\<close>, \<open>Sched\<close>, \<open>Locks\<close>, \<open>Thread_Life\<close>, \<open>Kernel_Run\<close> model \<^verbatim>\<open>thread/thread.c\<close>, \<^verbatim>\<open>thread/sync.c\<close>, the timer handler
    and the switch of page directories. A thread that gives up the processor in the middle of \<^verbatim>\<open>sema_down\<close> has a
    control state from which it goes on; a run is a sequence of events in any order. Shown for every run:
    no assertion fails, locks exclude each other and are reentrant, no wake-up is lost, time slices and
    round robin, unique pids. \<open>Task_Print\<close> models the printing of the table of tasks; shown: what is on the screen.
    \<open>Timer\<close> models the rest of \<^verbatim>\<open>device/timer.c\<close>; shown: the counter value is cut to its low byte, and how long a
    sleep lasts when the tick counter wraps around.
  \<^item> \<open>Interrupt\<close> models \<^verbatim>\<open>kernel/interrupt.c\<close> and \<^verbatim>\<open>userprog/tss.c\<close>: the interrupt descriptors and handlers, the interrupt
    flag, the segment descriptors. Shown: every vector reaches its handler, restoring the flag nests, and which
    segments the selectors name.
  \<^item> \<open>Process\<close>, \<open>Fork\<close>, \<open>Fork_Props\<close>, \<open>Exec\<close>, \<open>Exec_Props\<close>, \<open>Wait_Exit\<close>, \<open>Exit_Props\<close> model \<^verbatim>\<open>process.c\<close>, \<^verbatim>\<open>fork.c\<close>, \<^verbatim>\<open>exec.c\<close> and
    \<^verbatim>\<open>wait_exit.c\<close> of \<^verbatim>\<open>userprog\<close>: page directories, the frame that enters user mode, copying a process, loading a
    program, releasing a process, and the meeting of \<^verbatim>\<open>exit\<close> with \<^verbatim>\<open>wait\<close>.
    Shown: a new directory shares the kernel and maps nothing else, the memory of a child is a copy in frames of
    its own, a segment in memory is what the file holds, the cases of \<^verbatim>\<open>wait\<close>, and that a waiting parent gets the status of the child that exits.
  \<^item> \<open>Syscall\<close> models the stubs of \<^verbatim>\<open>lib/user/syscall.c\<close>, the table of \<^verbatim>\<open>userprog/syscall_init.c\<close> and the words that
    \<^verbatim>\<open>kernel/kernel.S\<close> keeps on the kernel stack between them; the kernel functions are an argument. Shown: every stub reaches the
    function of its name with its own arguments, and what a number that is not assigned does.
  \<^item> \<open>Disk\<close> models the transfers of \<^verbatim>\<open>device/ide.c\<close> through the task-file registers, commands of at most 256 sectors.
    Shown: what is written is read back, and no other sector changes.
  \<^item> \<open>Partition_Scan\<close>, \<open>Partition_Props\<close> model the start-up of \<^verbatim>\<open>device/ide.c\<close>: identification, the scan of the partition
    tables and \<^verbatim>\<open>ide_init\<close>. The depth of the recursion is an argument, as the links on a disk may be cyclic. Shown:
    the scan ends on a chain of tables and finds its partitions, and it does not end on a cycle.
  \<^item> \<open>Inode\<close>, \<open>File\<close>, \<open>File_Data\<close>, \<open>File_Rw\<close> model \<^verbatim>\<open>fs/inode.c\<close> and \<^verbatim>\<open>fs/file.c\<close> down to the bytes on the disk. Shown: the
    inode table, that \<^verbatim>\<open>file_write\<close> appends and leaves other files alone, and what \<^verbatim>\<open>file_read\<close> returns.
  \<^item> \<open>Dir\<close>, \<open>Dir_Props\<close>, \<open>Path\<close>, \<open>Fs\<close>, \<open>Format\<close> model \<^verbatim>\<open>fs/dir.c\<close> and \<^verbatim>\<open>fs/fs.c\<close>: directory entries, the walk along a path, the
    system calls, formatting and mounting. Shown: an entry that is added is found and changes no other
    look-up, how paths are split, and that a formatted partition mounts as a consistent file system.
  \<^item> \<open>Ioqueue\<close>, \<open>Pipe\<close>, \<open>Pipe_Props\<close>, \<open>Keyboard\<close> model \<^verbatim>\<open>device/ioqueue.c\<close>, \<^verbatim>\<open>device/console.c\<close>, \<^verbatim>\<open>shell/pipe.c\<close>, \<^verbatim>\<open>device/keyboard.c\<close>
    and the calls of \<^verbatim>\<open>fs/fs.c\<close> that choose between them and files. The interface of a bounded byte queue is the
    locale \<open>byte_queue\<close>, interpreted by the ring buffer with capacity 2047. Shown: pipes are first in first out,
    when a writer blocks and who wakes it, and that the keyboard types an independently stated layout.
  \<^item> \<open>Stdio\<close> models \<^verbatim>\<open>lib/stdio.c\<close> and \<^verbatim>\<open>lib/kernel/stdio_kernel.c\<close>. Shown: numbers are printed with their digits, and a
    format is rendered exactly or overruns the buffer.
  \<^item> \<open>Shell\<close>, \<open>Cmdline\<close>, \<open>Shell_Run\<close> model \<^verbatim>\<open>shell/buildin_cmd.c\<close> and \<^verbatim>\<open>shell/shell.c\<close>: the commands of the shell, the line editor,
    the splitting of the command line, and a round of the command loop. The loops of \<^verbatim>\<open>ls\<close> have fuel for 4096 entries, more
    than the 140 blocks of a directory hold. Shown: paths are normalised, the buffer holds the edited line, the
    words, and that the first word decides what runs.

  \<^bold>\<open>Where the parts meet.\<close> The heap asks the page allocator for arenas; threads live in pages of the kernel pool;
  locks block and wake threads through the scheduler; queues add their own waiting threads on top of locks;
  the file system reaches the disk through \<^verbatim>\<open>ide_read\<close> and \<^verbatim>\<open>ide_write\<close> only. Inside the file system
  \<^verbatim>\<open>sys_malloc\<close> appears as a list of answers, success or failure, because its buffers are values there.

  \<^bold>\<open>Not modelled.\<close> The boot loader, the context switch, the video output and the entries of the other
  interrupts are assembly. The blocking of the disk driver until
  its interrupt is left out. Messages on the screen are left out except where they are the result.
  Interrupts are off in the operations that assert it, which makes each of them one step; the translation
  cache is not modelled.
\<close>

end
